(* ===== verification/Prelude.thy ===== *)
theory Prelude
  imports Main "HOL-Library.Word" "HOL-Library.Code_Target_Numeral"
begin

text \<open>
  Shared vocabulary of the development: the C integer types as words, the C conversions
  between them, bounded array reads, and the generic facts on words and lists that the
  component theories use. All arithmetic of the modelled code is the wrap-around arithmetic
  of a two's complement machine with 8, 16 and 32 bit integers (\<open>int\<close> has 32 bits).
\<close>

unbundle bit_operations_syntax

type_synonym uint8 = "8 word"
type_synonym uint16 = "16 word"
type_synonym uint32 = "32 word"
type_synonym int16 = "16 word"
type_synonym int32 = "32 word"

text \<open>Collections the component proofs draw on.\<close>

named_theorems sint_norm \<open>rewrite signed machine arithmetic to integer arithmetic\<close>
named_theorems model_defs \<open>definitions of small operations that proofs always unfold\<close>

subsection \<open>Signed reading of machine integers\<close>

lemma sint32_range: "- 2147483648 \<le> sint (x :: 32 word)" "sint (x :: 32 word) \<le> 2147483647"
  using sint_range_size [of x] by (simp_all add: word_size)

lemma sint16_range: "- 32768 \<le> sint (x :: 16 word)" "sint (x :: 16 word) \<le> 32767"
  using sint_range_size [of x] by (simp_all add: word_size)

lemma signed_take_bit_int_id:
  "- (2 ^ n) \<le> (k::int) \<Longrightarrow> k < 2 ^ n \<Longrightarrow> signed_take_bit n k = k"
  by (simp add: signed_take_bit_int_eq_self)

lemma sint_of_int32:
  "- 2147483648 \<le> k \<Longrightarrow> k \<le> 2147483647 \<Longrightarrow> sint (word_of_int k :: 32 word) = k"
  by (simp add: sint_sbintrunc' signed_take_bit_int_eq_self)

lemma sint_of_int16:
  "- 32768 \<le> k \<Longrightarrow> k \<le> 32767 \<Longrightarrow> sint (word_of_int k :: 16 word) = k"
  by (simp add: sint_sbintrunc' signed_take_bit_int_eq_self)

lemma unat32_less: "unat (w :: 32 word) < 4294967296"
  using unsigned_less [of w] by simp

lemma unat16_less: "unat (w :: 16 word) < 65536"
  using unsigned_less [of w] by simp

lemma unat8_less: "unat (w :: 8 word) < 256"
  using unsigned_less [of w] by simp

lemma unat_of_nat32: "n < 4294967296 \<Longrightarrow> unat (word_of_nat n :: 32 word) = n"
  by (simp add: unat_of_nat take_bit_nat_eq_self)

text \<open>Wrap-around sums, differences and products, read as signed integers.\<close>

definition wrap32 :: "int \<Rightarrow> int" where
  "wrap32 k = (k + 2147483648) mod 4294967296 - 2147483648"

definition wrap16 :: "int \<Rightarrow> int" where
  "wrap16 k = (k + 32768) mod 65536 - 32768"

lemma sint_word_of_int32: "sint (word_of_int k :: 32 word) = wrap32 k"
  by (simp add: int_word_sint wrap32_def)

lemma sint_word_of_int16: "sint (word_of_int k :: 16 word) = wrap16 k"
  by (simp add: int_word_sint wrap16_def)

lemma wrap32_id: "- 2147483648 \<le> k \<Longrightarrow> k \<le> 2147483647 \<Longrightarrow> wrap32 k = k"
  by (simp add: wrap32_def)

lemma wrap16_id: "- 32768 \<le> k \<Longrightarrow> k \<le> 32767 \<Longrightarrow> wrap16 k = k"
  by (simp add: wrap16_def)

lemma wrap32_high: "2147483647 < k \<Longrightarrow> k < 4294967296 \<Longrightarrow> wrap32 k = k - 4294967296"
  using mod_add_self2 [of "k - 2147483648" 4294967296] by (simp add: wrap32_def add.commute)

lemma wrap32_low:
  "- 4294967296 \<le> k \<Longrightarrow> k < - 2147483648 \<Longrightarrow> wrap32 k = k + 4294967296"
  using mod_add_self2 [of "k + 2147483648" 4294967296] by (simp add: wrap32_def)

lemma wrap32_cases:
  "- 4294967296 \<le> k \<Longrightarrow> k < 4294967296 \<Longrightarrow>
   wrap32 k = (if k > 2147483647 then k - 4294967296
               else if k < - 2147483648 then k + 4294967296 else k)"
  by (simp add: wrap32_high wrap32_low wrap32_id)

lemma word_of_sint: "word_of_int (sint a) = a"
  by simp

lemma sint_add32: "sint ((a :: 32 word) + b) = wrap32 (sint a + sint b)"
  by (metis sint_word_of_int32 wi_hom_add word_of_sint)

lemma sint_sub32: "sint ((a :: 32 word) - b) = wrap32 (sint a - sint b)"
  by (metis sint_word_of_int32 wi_hom_sub word_of_sint)

lemma sint_mult32: "sint ((a :: 32 word) * b) = wrap32 (sint a * sint b)"
  by (metis sint_word_of_int32 wi_hom_mult word_of_sint)

lemma sint_shl32: "sint (push_bit n (a :: 32 word)) = wrap32 (sint a * 2 ^ n)"
proof -
  have "push_bit n a = word_of_int (sint a) * word_of_int (2 ^ n)"
    by (simp add: push_bit_eq_mult word_of_sint)
  then show ?thesis by (simp only: wi_hom_mult sint_word_of_int32)
qed

lemma sint_shl16: "sint (push_bit n (a :: 16 word)) = wrap16 (sint a * 2 ^ n)"
proof -
  have "push_bit n a = word_of_int (sint a) * word_of_int (2 ^ n)"
    by (simp add: push_bit_eq_mult word_of_sint)
  then show ?thesis by (simp only: wi_hom_mult sint_word_of_int16)
qed

lemma sint_neg32: "sint (- (a :: 32 word)) = wrap32 (- sint a)"
  by (metis sint_word_of_int32 wi_hom_neg word_of_sint)

lemma sint_shr: "sint (signed_drop_bit n (a :: 'a::len word)) = sint a div 2 ^ n"
  by (simp add: sint_signed_drop_bit_eq drop_bit_eq_div)

lemma sint_scast16_32: "sint (scast (a :: 16 word) :: 32 word) = sint a"
proof -
  have "(scast a :: 32 word) = word_of_int (sint a)" by (rule scast_eq)
  then show ?thesis using sint16_range [of a] by (simp only: sint_word_of_int32 wrap32_id)
qed

lemma sint_ucast16_32: "sint (ucast (a :: 16 word) :: 32 word) = uint a"
proof -
  have "uint a < 65536" using uint_lt2p [of a] by simp
  moreover have "0 \<le> uint a" by (rule uint_ge_0)
  ultimately have "wrap32 (uint a) = uint a" by (intro wrap32_id) linarith+
  moreover have "(ucast a :: 32 word) = word_of_int (uint a)" by (rule ucast_eq)
  ultimately show ?thesis by (simp only: sint_word_of_int32)
qed

lemma sint_trunc32_16: "sint (scast (a :: 32 word) :: 16 word) = wrap16 (sint a)"
proof -
  have "(scast a :: 16 word) = word_of_int (sint a)" by (rule scast_eq)
  then show ?thesis by (simp only: sint_word_of_int16)
qed

lemmas sint_arith [sint_norm] =
  sint_add32 sint_sub32 sint_mult32 sint_neg32 sint_shl32 sint_shl16 sint_shr
  sint_scast16_32 sint_ucast16_32 sint_trunc32_16 word_sless_alt word_sle_eq

lemma sint_nonzero: "w \<noteq> 0 \<Longrightarrow> sint w \<noteq> 0"
  by (metis sint_0 word_of_sint)

lemma zdiv_less_of_mult: "0 < D \<Longrightarrow> x < D * y \<Longrightarrow> x div D < (y :: int)"
proof (rule ccontr)
  assume D: "0 < D" "x < D * y" and "\<not> x div D < y"
  then have "D * y \<le> D * (x div D)" by (intro mult_left_mono) auto
  also have "\<dots> \<le> x" using D(1) mult_div_mod_eq [of D x] pos_mod_sign [of D x] by linarith
  finally show False using D(2) by simp
qed

lemma zdiv_ge: "0 < c \<Longrightarrow> lo * c \<le> x \<Longrightarrow> lo \<le> x div (c :: int)"
  using zdiv_mono1 [of "lo * c" x c] by simp

lemma zdiv_le: "0 < c \<Longrightarrow> x < (hi + 1) * c \<Longrightarrow> x div (c :: int) \<le> hi"
  using zdiv_less_of_mult [of c x "hi + 1"] by (simp add: mult.commute)

lemma zdiv_bounds:
  fixes c :: int
  assumes "0 < c" "lo * c \<le> x" "x < (hi + 1) * c"
  shows "lo \<le> x div c" "x div c \<le> hi"
  using assms by (blast intro: zdiv_ge zdiv_le)+

text \<open>
  The C memory an operation is given is a list of bytes. A read or write that leaves the
  list is \<open>None\<close>: the access the code must never make.
\<close>

definition read_mem :: "'a list \<Rightarrow> nat \<Rightarrow> nat \<Rightarrow> 'a list option" where
  "read_mem mem at n = (if at + n \<le> length mem then Some (take n (drop at mem)) else None)"

definition write_mem :: "'a list \<Rightarrow> nat \<Rightarrow> 'a list \<Rightarrow> 'a list option" where
  "write_mem mem at bs =
     (if at + length bs \<le> length mem
      then Some (take at mem @ bs @ drop (at + length bs) mem) else None)"

text \<open>The length of the C string at the start of a memory; \<open>None\<close> if it is not terminated.\<close>

definition c_strlen :: "'a::zero list \<Rightarrow> nat option" where
  "c_strlen s = (if 0 \<in> set s then Some (length (takeWhile (\<lambda>c. c \<noteq> 0) s)) else None)"

text \<open>Words in memory, least significant byte first.\<close>

definition le16 :: "uint16 \<Rightarrow> uint8 list" where
  "le16 w = [ucast w, ucast (drop_bit 8 w)]"

definition le32 :: "uint32 \<Rightarrow> uint8 list" where
  "le32 w = [ucast w, ucast (drop_bit 8 w), ucast (drop_bit 16 w), ucast (drop_bit 24 w)]"

definition get16 :: "uint8 \<Rightarrow> uint8 \<Rightarrow> uint16" where
  "get16 b0 b1 = ucast b0 OR push_bit 8 (ucast b1)"

definition get32 :: "uint8 \<Rightarrow> uint8 \<Rightarrow> uint8 \<Rightarrow> uint8 \<Rightarrow> uint32" where
  "get32 b0 b1 b2 b3 =
     ucast b0 OR push_bit 8 (ucast b1) OR push_bit 16 (ucast b2) OR push_bit 24 (ucast b3)"

text \<open>Reading a C array at an index: \<open>None\<close> is an access outside the array.\<close>

definition array_get :: "'a list \<Rightarrow> nat \<Rightarrow> 'a option" where
  "array_get xs i = (if i < length xs then Some (xs ! i) else None)"

lemma length_le16 [simp]: "length (le16 w) = 2"
  by (simp add: le16_def)

lemma length_le32 [simp]: "length (le32 w) = 4"
  by (simp add: le32_def)

lemma get16_le16 [simp]: "get16 (ucast w) (ucast (drop_bit 8 w)) = w"
  unfolding get16_def
  by (rule bit_word_eqI) (auto simp: bit_simps)

lemma get32_le32 [simp]:
  "get32 (ucast w) (ucast (drop_bit 8 w)) (ucast (drop_bit 16 w)) (ucast (drop_bit 24 w)) = w"
proof (rule bit_word_eqI)
  fix n assume "n < LENGTH(32)"
  then consider "n < 8" | "8 \<le> n" "n < 16" | "16 \<le> n" "n < 24" | "24 \<le> n" "n < 32" by force
  then show "bit (get32 (ucast w) (ucast (drop_bit 8 w)) (ucast (drop_bit 16 w))
      (ucast (drop_bit 24 w))) n = bit w n"
    by cases (auto simp: get32_def bit_simps)
qed

text \<open>The little endian words of a byte list.\<close>

fun words16 :: "uint8 list \<Rightarrow> uint16 list" where
  "words16 (b0 # b1 # bs) = get16 b0 b1 # words16 bs"
| "words16 _ = []"

fun words32 :: "uint8 list \<Rightarrow> uint32 list" where
  "words32 (b0 # b1 # b2 # b3 # bs) = get32 b0 b1 b2 b3 # words32 bs"
| "words32 _ = []"

lemma length_concat_le16 [simp]: "length (concat (map le16 ws)) = 2 * length ws"
  by (induction ws) simp_all

lemma length_concat_le32 [simp]: "length (concat (map le32 ws)) = 4 * length ws"
  by (induction ws) simp_all

lemma words16_le16 [simp]: "words16 (concat (map le16 ws)) = ws"
  by (induction ws) (simp_all add: le16_def)

lemma words32_le32 [simp]: "words32 (concat (map le32 ws)) = ws"
  by (induction ws) (simp_all add: le32_def)

lemma write_mem_length: "write_mem mem at bs = Some mem' \<Longrightarrow> length mem' = length mem"
  by (auto simp: write_mem_def split: if_splits)

lemma read_write_mem: "write_mem mem at bs = Some mem' \<Longrightarrow> read_mem mem' at (length bs) = Some bs"
  by (auto simp: write_mem_def read_mem_def split: if_splits)

lemma mask_ff: "(0xff :: 'a::len word) = mask 8" "(0xffff :: 'a::len word) = mask 16"
  by (simp_all add: mask_eq_exp_minus_1)

lemma xor_cancel: "a XOR c = b XOR c \<longleftrightarrow> a = (b :: 'a::len word)"
  by (auto simp: bit_eq_iff bit_simps)

lemma and_bit_eq_0:
  fixes w :: "'a::len word"
  shows "w AND 2 ^ k = 0 \<longleftrightarrow> \<not> bit w k" "w AND 2 * 2 ^ k = 0 \<longleftrightarrow> \<not> bit w (Suc k)"
    "w AND 1 = 0 \<longleftrightarrow> \<not> bit w 0"
  using and_exp_eq_0_iff_not_bit [of w k] and_exp_eq_0_iff_not_bit [of w "Suc k"]
    and_exp_eq_0_iff_not_bit [of w 0] by simp_all

subsection \<open>Linked list segments\<close>

text \<open>
  \<open>lseg link p xs r\<close>: following \<open>link\<close> from \<open>p\<close> visits exactly the nodes \<open>xs\<close> and ends
  at \<open>r\<close>. A null terminated list is a segment that ends at \<open>None\<close>.
\<close>

fun lseg :: "('p \<Rightarrow> 'p option) \<Rightarrow> 'p option \<Rightarrow> 'p list \<Rightarrow> 'p option \<Rightarrow> bool" where
  "lseg link p [] r \<longleftrightarrow> p = r"
| "lseg link p (x # xs) r \<longleftrightarrow> p = Some x \<and> lseg link (link x) xs r"

lemma lseg_append: "lseg link p (xs @ ys) r \<longleftrightarrow> (\<exists>m. lseg link p xs m \<and> lseg link m ys r)"
  by (induction xs arbitrary: p) auto

lemma lseg_cong: "(\<And>x. x \<in> set xs \<Longrightarrow> f x = g x) \<Longrightarrow> lseg f p xs r = lseg g p xs r"
  by (induction xs arbitrary: p) auto

lemma lseg_upd [simp]: "x \<notin> set xs \<Longrightarrow> lseg (link(x := v)) p xs r = lseg link p xs r"
  by (rule lseg_cong) auto

lemma lseg_None: "lseg link None xs None \<longleftrightarrow> xs = []"
  by (cases xs) auto

lemma lseg_Some: "lseg link (Some a) xs None \<longleftrightarrow> (\<exists>ys. xs = a # ys \<and> lseg link (link a) ys None)"
  by (cases xs) auto

lemma lseg_snoc:
  "x \<notin> set xs \<Longrightarrow> lseg link p (xs @ [x]) r \<Longrightarrow> lseg (link(x := r')) p (xs @ [x]) r'"
  by (auto simp: lseg_append)

lemma lseg_head: "lseg link p xs None \<Longrightarrow> p = (case xs of [] \<Rightarrow> None | x # _ \<Rightarrow> Some x)"
  by (cases xs) auto

lemma lseg_unique: "lseg link p xs None \<Longrightarrow> lseg link p ys None \<Longrightarrow> xs = ys"
  by (induction xs arbitrary: p ys) (case_tac ys; auto)+

end
