(* ===== verification/Qmath.thy ===== *)
theory Qmath
  imports Prelude "HOL-Library.While_Combinator" "HOL-Library.Monad_Syntax"
begin

text \<open>
  The saturating fixed point arithmetic of \<^verbatim>\<open>shared/qmath.c\<close>. \<open>int16\<close> and \<open>int32\<close> are
  words read with \<open>sint\<close>, \<open>scast\<close> between them is the C conversion (sign extension or
  truncation), \<open>signed_drop_bit\<close> is the arithmetic right shift, and the functions that write
  through a pointer return a pair. A \<open>while\<close> loop without an evident bound is a
  \<open>while_option\<close>, and a read of \<open>log_table\<close> past its end is \<open>None\<close>, so that
  returning a value is something to prove.
\<close>

subsection \<open>Saturation and multiplication\<close>

definition qm_sat32 :: "int32 \<Rightarrow> int16" where
  "qm_sat32 op =
     (if (0x7fff :: 32 word) <s op then 0x7fff
      else if op <s 0xffff8000 then 0x8000
      else scast op)"

definition qm_mul321616 :: "int16 \<Rightarrow> int16 \<Rightarrow> int32" where
  "qm_mul321616 op1 op2 = scast op1 * scast op2"

definition qm_mul16 :: "int16 \<Rightarrow> int16 \<Rightarrow> int16" where
  "qm_mul16 op1 op2 =
     (let result = (scast op1 * scast op2 :: int32) in scast (signed_drop_bit 16 result))"

definition qm_muls321616 :: "int16 \<Rightarrow> int16 \<Rightarrow> int32" where
  "qm_muls321616 op1 op2 =
     (if op1 = 0x8000 \<and> op2 = 0x8000 then 0x7fffffff
      else push_bit 1 (scast op1 * scast op2))"

definition qm_mulu16 :: "uint16 \<Rightarrow> uint16 \<Rightarrow> uint16" where
  "qm_mulu16 op1 op2 = ucast (drop_bit 16 (ucast op1 * ucast op2 :: uint32))"

definition qm_muls16 :: "int16 \<Rightarrow> int16 \<Rightarrow> int16" where
  "qm_muls16 op1 op2 =
     (let result = (if op1 = 0x8000 \<and> op2 = 0x8000 then 0x7fffffff
                    else scast op1 * scast op2 :: int32)
      in scast (signed_drop_bit 15 result))"

subsection \<open>Saturating addition, subtraction and shifts\<close>

definition qm_add32 :: "int32 \<Rightarrow> int32 \<Rightarrow> int32" where
  "qm_add32 op1 op2 =
     (let result = op1 + op2 in
      if op1 <s 0 \<and> op2 <s 0 \<and> 0 <s result then 0x80000000
      else if 0 <s op1 \<and> 0 <s op2 \<and> result <s 0 then 0x7fffffff
      else result)"

definition qm_add16 :: "int16 \<Rightarrow> int16 \<Rightarrow> int16" where
  "qm_add16 op1 op2 =
     (let temp = (scast op1 + scast op2 :: int32) in
      if 0x7fff <s temp then 0x7fff
      else if temp <s 0xffff8000 then 0x8000
      else scast temp)"

definition qm_sub16 :: "int16 \<Rightarrow> int16 \<Rightarrow> int16" where
  "qm_sub16 op1 op2 =
     (let temp = (scast op1 - scast op2 :: int32) in
      if 0x7fff <s temp then 0x7fff
      else if temp <s 0xffff8000 then 0x8000
      else scast temp)"

definition qm_sub32 :: "int32 \<Rightarrow> int32 \<Rightarrow> int32" where
  "qm_sub32 op1 op2 =
     (let result = op1 - op2 in
      if 0 \<le>s op1 \<and> op2 <s 0 \<and> result <s 0 then 0x7fffffff
      else if op1 <s 0 \<and> 0 <s op2 \<and> 0 <s result then 0x80000000
      else result)"

definition qm_mac321616 :: "int32 \<Rightarrow> int16 \<Rightarrow> int16 \<Rightarrow> int32" where
  "qm_mac321616 acc op1 op2 = qm_add32 acc (qm_mul321616 op1 op2)"

text \<open>The shift count is the C \<open>int\<close> read as an integer; the loops run \<open>shift\<close> times.\<close>

definition qm_shl32 :: "int32 \<Rightarrow> int \<Rightarrow> int32" where
  "qm_shl32 op shift0 =
     (let shift = (if shift0 > 31 then 31 else if shift0 < - 31 then - 31 else shift0) in
      if shift \<ge> 0 then ((\<lambda>r. qm_add32 r r) ^^ nat shift) op
      else signed_drop_bit (nat (- shift)) op)"

definition qm_shr32 :: "int32 \<Rightarrow> int \<Rightarrow> int32" where
  "qm_shr32 op shift = qm_shl32 op (- shift)"

definition qm_shl16 :: "int16 \<Rightarrow> int \<Rightarrow> int16" where
  "qm_shl16 op shift0 =
     (let shift = (if shift0 > 15 then 15 else if shift0 < - 15 then - 15 else shift0) in
      if shift > 0 then ((\<lambda>r. qm_add16 r r) ^^ nat shift) op
      else signed_drop_bit (nat (- shift)) op)"

definition qm_shr16 :: "int16 \<Rightarrow> int \<Rightarrow> int16" where
  "qm_shr16 op shift = qm_shl16 op (- shift)"

subsection \<open>Normalisation and absolute value\<close>

definition qm_norm16 :: "int16 \<Rightarrow> int16 option" where
  "qm_norm16 op =
     (if op = 0 then Some 15
      else map_option snd
        (while_option (\<lambda>(op, n). signed_drop_bit 15 op = signed_drop_bit 14 op)
           (\<lambda>(op, n). (push_bit 1 op, n + 1)) (op, 0)))"

definition qm_norm32 :: "int32 \<Rightarrow> int16 option" where
  "qm_norm32 op =
     (if op = 0 then Some 31
      else map_option snd
        (while_option (\<lambda>(op, n). signed_drop_bit 31 op = signed_drop_bit 30 op)
           (\<lambda>(op, n). (push_bit 1 op, n + 1)) (op, 0)))"

definition qm_abs16 :: "int16 \<Rightarrow> int16" where
  "qm_abs16 op = (if op <s 0 then (if op = 0x8000 then 0x7fff else - op) else op)"

definition qm_abs32 :: "int32 \<Rightarrow> int32" where
  "qm_abs32 op = (if op <s 0 then (if op = 0x80000000 then 0x7fffffff else - op) else op)"

subsection \<open>Division\<close>

text \<open>One of the fifteen iterations of \<open>qm_div_s\<close>, on \<open>(L_num, L_denom)\<close>.\<close>

definition qm_div_s_step :: "int32 \<Rightarrow> int32 \<Rightarrow> int32" where
  "qm_div_s_step L_denom L_num =
     (let L_num = push_bit 1 L_num in
      if L_denom \<le>s L_num then qm_add32 (qm_sub32 L_num L_denom) 1 else L_num)"

definition qm_div_s :: "int16 \<Rightarrow> int16 \<Rightarrow> int16" where
  "qm_div_s num denom =
     (let L_num = push_bit 15 (scast num :: int32);
          L_denom = push_bit 15 (scast denom :: int32)
      in scast (((qm_div_s_step L_denom) ^^ 15) L_num AND 0x7fff))"

definition qm_div16 :: "int16 \<Rightarrow> int16 \<Rightarrow> (int16 \<times> int16) option" where
  "qm_div16 num0 denom0 =
     (let sgn = num0 XOR denom0; num = qm_abs16 num0; denom = qm_abs16 denom0 in
      do { nNum \<leftarrow> qm_norm16 num;
           nDenom \<leftarrow> qm_norm16 denom;
           let num = qm_shl16 num (sint nNum - 1);
           let denom = qm_shl16 denom (sint nDenom);
           let qQuotient = nNum - 1 - nDenom + 15;
           Some (if 0 \<le>s sgn then qm_div_s num denom else - qm_div_s num denom, qQuotient) })"

definition qm_div163232 :: "int32 \<Rightarrow> int32 \<Rightarrow> (int16 \<times> int16) option" where
  "qm_div163232 num0 denom0 =
     (let sgn = num0 XOR denom0; num = qm_abs32 num0; denom = qm_abs32 denom0 in
      do { nNum \<leftarrow> qm_norm32 num;
           nDenom \<leftarrow> qm_norm32 denom;
           let num = qm_shl32 num (sint nNum - 1);
           let denom = qm_shl32 denom (sint nDenom);
           let qquotient = nNum - 1 - nDenom + 15;
           let q = qm_div_s (scast (signed_drop_bit 16 num)) (scast (signed_drop_bit 16 denom));
           Some (if 0 \<le>s sgn then q else - q, qquotient) })"


subsection \<open>Products of 32 bit numbers\<close>

definition qm_mulsu321616 :: "int16 \<Rightarrow> uint16 \<Rightarrow> int32" where
  "qm_mulsu321616 op1 op2 = scast op1 * ucast op2"

definition qm_mul323216 :: "int32 \<Rightarrow> int16 \<Rightarrow> int32" where
  "qm_mul323216 op1 op2 =
     (let hi = (scast (signed_drop_bit 16 op1) :: int16);
          lo = (ucast (op1 AND 0xffff) :: uint16);
          result = qm_mul321616 hi op2
      in result + signed_drop_bit 16 (qm_mulsu321616 op2 lo))"

definition qm_muls323216 :: "int32 \<Rightarrow> int16 \<Rightarrow> int32" where
  "qm_muls323216 op1 op2 =
     (let hi = (scast (signed_drop_bit 16 op1) :: int16);
          lo = (ucast (op1 AND 0xffff) :: uint16);
          result = qm_muls321616 hi op2
      in qm_add32 result (signed_drop_bit 15 (qm_mulsu321616 op2 lo)))"

definition qm_mul32 :: "int32 \<Rightarrow> int32 \<Rightarrow> int32" where
  "qm_mul32 a b =
     (let hi1 = (scast (signed_drop_bit 16 a) :: int16);
          hi2 = (scast (signed_drop_bit 16 b) :: int16);
          lo1 = (ucast (a AND 0xffff) :: uint16);
          lo2 = (ucast (b AND 0xffff) :: uint16);
          result = qm_mul321616 hi1 hi2;
          result = result + signed_drop_bit 16 (qm_mulsu321616 hi1 lo2)
      in result + signed_drop_bit 16 (qm_mulsu321616 hi2 lo1))"

definition qm_muls32 :: "int32 \<Rightarrow> int32 \<Rightarrow> int32" where
  "qm_muls32 a b =
     (let hi1 = (scast (signed_drop_bit 16 a) :: int16);
          hi2 = (scast (signed_drop_bit 16 b) :: int16);
          lo1 = (ucast (a AND 0xffff) :: uint16);
          lo2 = (ucast (b AND 0xffff) :: uint16);
          result = qm_muls321616 hi1 hi2;
          result = qm_add32 result (signed_drop_bit 15 (qm_mulsu321616 hi1 lo2));
          result = qm_add32 result (signed_drop_bit 15 (qm_mulsu321616 hi2 lo1))
      in qm_add32 result (ucast (drop_bit 15 (qm_mulu16 lo1 lo2))))"

subsection \<open>Logarithm and inverse\<close>

definition log_table :: "int16 list" where
  "log_table =
     [0, 1455, 2866, 4236, 5568, 6863, 8124, 9352, 10549, 11716, 12855, 13968, 15055, 16117,
      17156, 18173, 19168, 20143, 21098, 22034, 22952, 23852, 24736, 25604, 26455, 27292,
      28114, 28922, 29717, 30498, 31267, 32024]"

text \<open>
  \<open>qm_log10\<close> returns \<open>(log10N, qLog10N)\<close>; \<open>None\<close> is the read of
  \<open>log_table[s16tableIndex+1]\<close> past the table's 32 entries.
\<close>

definition qm_log10_index :: "int32 \<Rightarrow> int16" where
  "qm_log10_index N = (scast (signed_drop_bit 25 N) :: int16) AND 31"

definition qm_log10 :: "int32 \<Rightarrow> int16 \<Rightarrow> (int16 \<times> int16) option" where
  "qm_log10 N0 qN0 =
     do { s16norm \<leftarrow> qm_norm32 N0;
          let N = push_bit (unat s16norm) N0;
          let qN = qN0 + s16norm - 30;
          let s16tableIndex = qm_log10_index N;
          let N = N AND 0x1ffffff;
          let u16offset = (ucast (signed_drop_bit 9 N) :: uint16);
          t0 \<leftarrow> array_get log_table (unat s16tableIndex);
          t1 \<leftarrow> array_get log_table (unat s16tableIndex + 1);
          let s16errorApproximation = qm_mulu16 u16offset (t1 - t0);
          let s32log = (scast (qm_add16 t0 s16errorApproximation) :: int32);
          let s32log = qm_add32 s32log (push_bit 15 (- scast qN));
          s16norm \<leftarrow> qm_norm32 s32log;
          let s32log = qm_shl32 s32log (sint s16norm - 16);
          Some (qm_muls16 (scast s32log) 19728, 15 + s16norm - 16 + 1) }"

text \<open>
  \<open>(int32)((1/0.75)*(1<<29))\<close> is \<open>715827882\<close>. One round of the iteration
  \<open>x' = 2x - Nxx\<close>:
\<close>

definition qm_1byN_step :: "int32 \<Rightarrow> int32 \<Rightarrow> int32" where
  "qm_1byN_step N x =
     (let s32firstTerm = qm_shl32 x 1;
          h = (scast (signed_drop_bit 16 s32firstTerm) :: int16);
          s32secondTerm = qm_muls321616 h h;
          s32secondTerm = qm_muls321616 (scast (signed_drop_bit 16 s32secondTerm)) (scast N)
      in qm_sub32 s32firstTerm s32secondTerm)"

definition qm_1byN :: "int32 \<Rightarrow> int16 \<Rightarrow> (int32 \<times> int16) option" where
  "qm_1byN N0 qN0 =
     do { normN \<leftarrow> qm_norm32 N0;
          let N = qm_shl32 N0 (sint normN - 16);
          let qN = qN0 + normN - 16 - 15;
          let x = (if 0 \<le>s N then 715827882 else - 715827882);
          let x = ((qm_1byN_step N) ^^ 4) x;
          Some (qm_shl32 x 1, - qN + 30) }"

subsection \<open>Saturating operations against their integer specification\<close>

definition sat32 :: "int \<Rightarrow> int" where
  "sat32 k = max (- 2147483648) (min 2147483647 k)"

definition sat16 :: "int \<Rightarrow> int" where
  "sat16 k = max (- 32768) (min 32767 k)"

lemma sint32_consts [simp]:
  "sint (0x80000000 :: 32 word) = - 2147483648" "sint (0x7fffffff :: 32 word) = 2147483647"
  "sint (0xffff8000 :: 32 word) = - 32768" "sint (0x7fff :: 32 word) = 32767"
  "sint (0x8000 :: 16 word) = - 32768" "sint (0x7fff :: 16 word) = 32767"
  by simp_all

lemma eq_min32_iff: "(a = (0x80000000 :: 32 word)) = (sint a = - 2147483648)"
  by (metis sint32_consts(1) word_of_sint)

lemma eq_min16_iff: "(a = (0x8000 :: 16 word)) = (sint a = - 32768)"
  by (metis sint32_consts(5) word_of_sint)

lemma sint_add16w: "sint (scast (a :: 16 word) + scast b :: 32 word) = sint a + sint (b :: 16 word)"
  using sint16_range [of a] sint16_range [of b] by (simp add: sint_norm wrap32_id)

lemma sint_sub16w: "sint (scast (a :: 16 word) - scast b :: 32 word) = sint a - sint (b :: 16 word)"
  using sint16_range [of a] sint16_range [of b] by (simp add: sint_norm wrap32_id)

lemma qm_sat32_sint: "sint (qm_sat32 op) = sat16 (sint op)"
  by (auto simp: qm_sat32_def sat16_def sint_norm wrap16_id)

lemma qm_add16_sint: "sint (qm_add16 a b) = sat16 (sint a + sint b)"
  by (auto simp: qm_add16_def Let_def sat16_def word_sless_alt sint_add16w sint_trunc32_16
      wrap16_id)

lemma qm_sub16_sint: "sint (qm_sub16 a b) = sat16 (sint a - sint b)"
  by (auto simp: qm_sub16_def Let_def sat16_def word_sless_alt sint_sub16w sint_trunc32_16
      wrap16_id)

lemma qm_add32_wrap:
  "sint (qm_add32 a b) =
     (let r = wrap32 (sint a + sint b) in
      if sint a < 0 \<and> sint b < 0 \<and> 0 < r then - 2147483648
      else if 0 < sint a \<and> 0 < sint b \<and> r < 0 then 2147483647 else r)"
  by (simp add: qm_add32_def Let_def word_sless_alt sint_add32)

lemma qm_add32_sint:
  "sint (qm_add32 a b) =
     (if a = 0x80000000 \<and> b = 0x80000000 then 0 else sat32 (sint a + sint b))"
proof -
  consider "sint a + sint b > 2147483647" | "sint a + sint b < - 2147483648"
    | "- 2147483648 \<le> sint a + sint b" "sint a + sint b \<le> 2147483647"
    by linarith
  then show ?thesis
    using sint32_range [of a] sint32_range [of b]
    by cases (auto simp: qm_add32_wrap eq_min32_iff wrap32_cases sat32_def Let_def)
qed

lemma qm_sub32_wrap:
  "sint (qm_sub32 a b) =
     (let r = wrap32 (sint a - sint b) in
      if 0 \<le> sint a \<and> sint b < 0 \<and> r < 0 then 2147483647
      else if sint a < 0 \<and> 0 < sint b \<and> 0 < r then - 2147483648 else r)"
  by (simp add: qm_sub32_def Let_def word_sless_alt word_sle_eq sint_sub32)

lemma qm_sub32_sint: "sint (qm_sub32 a b) = sat32 (sint a - sint b)"
proof -
  consider "sint a - sint b > 2147483647" | "sint a - sint b < - 2147483648"
    | "- 2147483648 \<le> sint a - sint b" "sint a - sint b \<le> 2147483647"
    by linarith
  then show ?thesis
    using sint32_range [of a] sint32_range [of b]
    by cases (auto simp: qm_sub32_wrap wrap32_cases sat32_def Let_def)
qed

subsection \<open>Shifts\<close>

text \<open>What the repeated saturating doubling computes from the exact value \<open>v\<close>.\<close>

definition shl_int :: "int \<Rightarrow> int" where
  "shl_int v =
     (if v > 2147483647 then 2147483647
      else if - 2147483648 \<le> v then v
      else if - 4294967296 < v then - 2147483648
      else 0)"

lemma qm_add32_double:
  "sint (qm_add32 r r) = (if sint r = - 2147483648 then 0 else sat32 (2 * sint r))"
  by (simp add: qm_add32_sint eq_min32_iff)

lemma shl_iter: "sint (((\<lambda>r. qm_add32 r r) ^^ n) op) = shl_int (sint op * 2 ^ n)"
proof (induction n)
  case 0
  then show ?case using sint32_range [of op] by (simp add: shl_int_def)
next
  case (Suc n)
  have dbl: "sint op * 2 ^ Suc n = 2 * (sint op * 2 ^ n)" by simp
  show ?case
    unfolding dbl by (simp add: qm_add32_double Suc.IH) (auto simp: shl_int_def sat32_def)
qed

lemma qm_shl32_left:
  "k \<le> 31 \<Longrightarrow> sint (qm_shl32 op (int k)) = shl_int (sint op * 2 ^ k)"
  by (simp add: qm_shl32_def Let_def shl_iter)

lemma qm_shl32_right:
  "k \<le> 31 \<Longrightarrow> sint (qm_shr32 op (int k)) = sint op div 2 ^ k"
  by (cases "k = 0") (simp_all add: qm_shr32_def qm_shl32_def Let_def sint_shr)

subsection \<open>Normalisation\<close>

lemma div_eq_iff_div_half:
  fixes x b :: int
  assumes "0 < b" "- (2 * b) \<le> x" "x < 2 * b"
  shows "x div (2 * b) = x div b \<longleftrightarrow> - b \<le> x \<and> x < b"
proof -
  consider "x < - b" | "- b \<le> x" "x < 0" | "0 \<le> x" "x < b" | "b \<le> x" by linarith
  then show ?thesis
  proof cases
    case 1
    then have "x div b = - 2" "x div (2 * b) = - 1"
      using assms by (intro int_div_pos_eq [of _ _ _ "x + 2 * b"]; simp)+
    with 1 show ?thesis by simp
  next
    case 2
    then have "x div b = - 1" "x div (2 * b) = - 1"
      using assms int_div_pos_eq [of x b "- 1" "x + b"]
        int_div_pos_eq [of x "2 * b" "- 1" "x + 2 * b"] by auto
    with 2 show ?thesis by simp
  next
    case 3
    then show ?thesis using assms by simp
  next
    case 4
    then have "x div b = 1" "x div (2 * b) = 0"
      using assms int_div_pos_eq [of x b 1 "x - b"] by auto
    with 4 show ?thesis by simp
  qed
qed

lemma shr31_eq_shr30_iff:
  "signed_drop_bit 31 (op :: 32 word) = signed_drop_bit 30 op \<longleftrightarrow>
   - 1073741824 \<le> sint op \<and> sint op < 1073741824"
proof -
  have e: "signed_drop_bit 31 op = signed_drop_bit 30 op \<longleftrightarrow>
    sint (signed_drop_bit 31 op) = sint (signed_drop_bit 30 op)"
    by (metis word_of_sint)
  have p: "(2 :: int) ^ 31 = 2 * 1073741824" "(2 :: int) ^ 30 = 1073741824" by simp_all
  show ?thesis
    unfolding e sint_shr p
    by (rule div_eq_iff_div_half) (use sint32_range [of op] in linarith)+
qed

lemma shr15_eq_shr14_iff:
  "signed_drop_bit 15 (op :: 16 word) = signed_drop_bit 14 op \<longleftrightarrow>
   - 16384 \<le> sint op \<and> sint op < 16384"
proof -
  have e: "signed_drop_bit 15 op = signed_drop_bit 14 op \<longleftrightarrow>
    sint (signed_drop_bit 15 op) = sint (signed_drop_bit 14 op)"
    by (metis word_of_sint)
  have p: "(2 :: int) ^ 15 = 2 * 16384" "(2 :: int) ^ 14 = 16384" by simp_all
  show ?thesis
    unfolding e sint_shr p
    by (rule div_eq_iff_div_half) (use sint16_range [of op] in linarith)+
qed

text \<open>The normalising loop returns after \<open>n\<close> exact doublings.\<close>

lemma norm32_loop:
  assumes "op \<noteq> 0"
  shows "\<exists>n. while_option (\<lambda>(op :: int32, n :: int16). signed_drop_bit 31 op = signed_drop_bit 30 op)
               (\<lambda>(op, n). (push_bit 1 op, n + 1)) (op, c) = Some (push_bit n op, c + of_nat n)
             \<and> sint (push_bit n op) = sint op * 2 ^ n
             \<and> \<not> (- 1073741824 \<le> sint op * 2 ^ n \<and> sint op * 2 ^ n < 1073741824)"
  using assms
proof (induction "nat (2147483648 - \<bar>sint op\<bar>)" arbitrary: op c rule: less_induct)
  case less
  let ?b = "\<lambda>(op :: int32, n :: int16). signed_drop_bit 31 op = signed_drop_bit 30 op"
  let ?c = "\<lambda>(op :: int32, n :: int16). (push_bit 1 op, n + 1)"
  show ?case
  proof (cases "- 1073741824 \<le> sint op \<and> sint op < 1073741824")
    case False
    then show ?thesis
      by (intro exI [of _ 0], subst while_option_unfold) (auto simp: shr31_eq_shr30_iff)
  next
    case True
    let ?op = "push_bit 1 op :: int32"
    have s: "sint ?op = 2 * sint op" using True by (simp only: sint_shl32) (simp add: wrap32_id)
    have nz: "sint op \<noteq> 0" using less.prems by (rule sint_nonzero)
    have "?op \<noteq> 0" using s nz by (metis mult_eq_0_iff sint_0 zero_neq_numeral)
    moreover have "nat (2147483648 - \<bar>sint ?op\<bar>) < nat (2147483648 - \<bar>sint op\<bar>)"
      unfolding s using True nz by auto
    ultimately obtain n where n: "while_option ?b ?c (?op, c + 1) =
        Some (push_bit n ?op, c + 1 + of_nat n)"
      "sint (push_bit n ?op) = sint ?op * 2 ^ n"
      "\<not> (- 1073741824 \<le> sint ?op * 2 ^ n \<and> sint ?op * 2 ^ n < 1073741824)"
      using less.hyps [of ?op "c + 1"] by blast
    have "while_option ?b ?c (op, c) = while_option ?b ?c (?op, c + 1)"
      using True by (simp add: while_option_unfold [of _ _ "(op, c)"] shr31_eq_shr30_iff)
    then show ?thesis
      using n by (intro exI [of _ "Suc n"]) (simp add: s [simplified] ac_simps)
  qed
qed

lemma pow2_le_imp_le31:
  assumes "x \<noteq> 0" "\<bar>x * 2 ^ n\<bar> \<le> (2147483648 :: int)" shows "n \<le> 31"
proof (rule ccontr)
  assume "\<not> n \<le> 31"
  then have "(2 :: int) ^ 32 \<le> 2 ^ n" by (intro power_increasing) auto
  also have "1 * (2 :: int) ^ n \<le> \<bar>x\<bar> * 2 ^ n" using assms(1) by (intro mult_right_mono) auto
  then have "(2 :: int) ^ n \<le> \<bar>x * 2 ^ n\<bar>" by (simp add: abs_mult)
  finally show False using assms(2) by simp
qed

lemma qm_norm32_nonzero:
  assumes "op \<noteq> 0"
  shows "\<exists>n \<le> 31. qm_norm32 op = Some (of_nat n) \<and> sint (push_bit n op) = sint op * 2 ^ n
           \<and> \<not> (- 1073741824 \<le> sint op * 2 ^ n \<and> sint op * 2 ^ n < 1073741824)"
proof -
  obtain n where n: "while_option (\<lambda>(op :: int32, n :: int16). signed_drop_bit 31 op = signed_drop_bit 30 op)
               (\<lambda>(op, n). (push_bit 1 op, n + 1)) (op, 0) = Some (push_bit n op, 0 + of_nat n)"
    "sint (push_bit n op) = sint op * 2 ^ n"
    "\<not> (- 1073741824 \<le> sint op * 2 ^ n \<and> sint op * 2 ^ n < 1073741824)"
    using norm32_loop [OF assms, of 0] by blast
  have "sint op \<noteq> 0" using assms by (rule sint_nonzero)
  then have "n \<le> 31"
    using n(2) sint32_range [of "push_bit n op"] by (intro pow2_le_imp_le31 [of "sint op"]) linarith+
  then show ?thesis using n assms by (auto simp: qm_norm32_def)
qed

lemma qm_norm32_returns: "\<exists>n. qm_norm32 op = Some n"
  using qm_norm32_nonzero [of op] by (cases "op = 0") (auto simp: qm_norm32_def [of 0])

subsection \<open>Restoring division\<close>

lemma word_of_int_and_mask15: "0 \<le> v \<Longrightarrow> (word_of_int v AND 0x7fff :: 32 word) = word_of_int (v mod 32768)"
proof -
  assume "0 \<le> v"
  have "(word_of_int v AND 0x7fff :: 32 word) = take_bit 15 (word_of_int v)"
    by (simp add: take_bit_eq_mask mask_eq_exp_minus_1)
  also have "\<dots> = word_of_int (take_bit 15 v)" by (simp add: take_bit_word_eq_self take_bit_of_int)
  finally show ?thesis by (simp add: take_bit_eq_mod)
qed

lemma qm_div_s_step_int:
  assumes D: "sint L_denom = D * 32768" "D \<le> 32767"
    and L: "sint L = r * 32768 + q" "0 \<le> r" "r < D" "0 \<le> q" "q < 16384"
  shows "sint (qm_div_s_step L_denom L) =
           (if D \<le> 2 * r then (2 * r - D) * 32768 + (2 * q + 1) else 2 * r * 32768 + 2 * q)"
proof -
  have two: "sint (push_bit 1 L) = 2 * sint L"
    using L D by (simp only: sint_shl32) (simp add: wrap32_id)
  have cmp: "L_denom \<le>s push_bit 1 L \<longleftrightarrow> D \<le> 2 * r"
    using L D two by (auto simp: word_sle_eq)
  show ?thesis
  proof (cases "D \<le> 2 * r")
    case True
    have sub: "sint (qm_sub32 (push_bit 1 L) L_denom) = (2 * r - D) * 32768 + 2 * q"
      using True L D by (simp only: qm_sub32_sint two) (simp add: sat32_def)
    have "sint (qm_add32 (qm_sub32 (push_bit 1 L) L_denom) 1) = (2 * r - D) * 32768 + (2 * q + 1)"
      using True L D by (simp only: qm_add32_sint sub) (auto simp: sat32_def)
    then show ?thesis using True cmp by (simp add: qm_div_s_step_def Let_def)
  next
    case False
    then show ?thesis using cmp two L by (simp add: qm_div_s_step_def Let_def)
  qed
qed

lemma div_mod_double:
  fixes N D :: int
  assumes "0 < D"
  defines "q \<equiv> N div D" and "r \<equiv> N mod D"
  shows "2 * N div D = (if D \<le> 2 * r then 2 * q + 1 else 2 * q)"
    and "2 * N mod D = (if D \<le> 2 * r then 2 * r - D else 2 * r)"
proof -
  have r: "0 \<le> r" "r < D" using assms(1) by (simp_all add: r_def)
  have "N = D * q + r" by (simp add: q_def r_def)
  then have N: "2 * N = D * (2 * q) + 2 * r" by (simp add: algebra_simps)
  have "2 * N = D * (2 * q + 1) + (2 * r - D)" using N by (simp add: algebra_simps)
  then have hi: "2 * N div D = 2 * q + 1" "2 * N mod D = 2 * r - D" if "D \<le> 2 * r"
    using r that int_div_pos_eq [of "2 * N" D "2 * q + 1" "2 * r - D"]
      int_mod_pos_eq [of "2 * N" D "2 * q + 1" "2 * r - D"] by auto
  have lo: "2 * N div D = 2 * q" "2 * N mod D = 2 * r" if "\<not> D \<le> 2 * r"
    using r that N int_div_pos_eq [of "2 * N" D "2 * q" "2 * r"]
      int_mod_pos_eq [of "2 * N" D "2 * q" "2 * r"] by auto
  show "2 * N div D = (if D \<le> 2 * r then 2 * q + 1 else 2 * q)"
    "2 * N mod D = (if D \<le> 2 * r then 2 * r - D else 2 * r)"
    using hi lo by auto
qed

lemma qm_div_s_iter:
  assumes "0 \<le> N" "N < D" "D \<le> 32767" "sint L_denom = D * 32768" "sint L = N * 32768"
    and "k \<le> 15"
  shows "sint ((qm_div_s_step L_denom ^^ k) L) = (N * 2 ^ k mod D) * 32768 + N * 2 ^ k div D"
  using \<open>k \<le> 15\<close>
proof (induction k)
  case 0
  then show ?case using assms by simp
next
  case (Suc k)
  let ?L = "(qm_div_s_step L_denom ^^ k) L"
  let ?q = "N * 2 ^ k div D" and ?r = "N * 2 ^ k mod D"
  have "?q < 2 ^ k"
    using assms(1-3) by (intro zdiv_less_of_mult) auto
  also have "(2 :: int) ^ k \<le> 2 ^ 14" using Suc.prems by (intro power_increasing) auto
  finally have q: "?q < 16384" by simp
  have "sint (qm_div_s_step L_denom ?L) =
      (if D \<le> 2 * ?r then (2 * ?r - D) * 32768 + (2 * ?q + 1) else 2 * ?r * 32768 + 2 * ?q)"
    using assms Suc q
    by (intro qm_div_s_step_int) (simp_all add: pos_imp_zdiv_nonneg_iff)
  also have "\<dots> = (2 * (N * 2 ^ k) mod D) * 32768 + 2 * (N * 2 ^ k) div D"
    using assms(1,2) div_mod_double [of D "N * 2 ^ k"] by simp
  finally show ?case by (simp add: ac_simps)
qed

lemma qm_div_s_sint:
  assumes "0 \<le> sint num" "sint num < sint denom"
  shows "sint (qm_div_s num denom) = sint num * 32768 div sint denom"
proof -
  let ?N = "sint num" and ?D = "sint denom"
  let ?L = "push_bit 15 (scast num :: int32)" and ?M = "push_bit 15 (scast denom :: int32)"
  let ?R = "(qm_div_s_step ?M ^^ 15) ?L"
  have D: "?D \<le> 32767" using sint16_range [of denom] by simp
  have L: "sint ?L = ?N * 32768" "sint ?M = ?D * 32768"
    using assms D by (simp_all only: sint_shl32 sint_scast16_32) (simp_all add: wrap32_id)
  have R: "sint ?R = (?N * 2 ^ 15 mod ?D) * 32768 + ?N * 2 ^ 15 div ?D"
    using assms D L by (intro qm_div_s_iter) auto
  have q: "0 \<le> ?N * 32768 div ?D" "?N * 32768 div ?D < 32768"
    using assms by (simp add: pos_imp_zdiv_nonneg_iff)
      (use assms in \<open>intro zdiv_less_of_mult; linarith\<close>)
  have r: "0 \<le> ?N * 32768 mod ?D" using assms by simp
  have "word_of_int (sint ?R) AND 0x7fff = (word_of_int (sint ?R mod 32768) :: int32)"
    using R q(1) r by (intro word_of_int_and_mask15) simp
  then have "?R AND 0x7fff = word_of_int (sint ?R mod 32768)" by (simp only: word_of_sint)
  also have "sint ?R mod 32768 = ?N * 32768 div ?D" using R q by simp
  finally have "sint (?R AND 0x7fff) = ?N * 32768 div ?D"
    using q by (simp only: sint_word_of_int32) (simp add: wrap32_id)
  then show ?thesis
    using q by (simp only: qm_div_s_def Let_def sint_trunc32_16) (simp add: wrap16_id)
qed

subsection \<open>Products in halves\<close>

lemma hi16_sint: "sint (scast (signed_drop_bit 16 (a :: int32)) :: int16) = sint a div 65536"
proof -
  have "- 32768 \<le> sint a div 65536" "sint a div 65536 \<le> 32767"
    using sint32_range [of a] zdiv_bounds [of 65536 "- 32768" "sint a" 32767] by simp_all
  then show ?thesis by (simp only: sint_trunc32_16 sint_shr) (simp add: wrap16_id)
qed

lemma lo16_uint: "uint (ucast ((a :: int32) AND 0xffff) :: uint16) = sint a mod 65536"
proof -
  have "a AND 0xffff = take_bit 16 a" by (simp add: take_bit_eq_mask mask_eq_exp_minus_1)
  then have "uint (a AND 0xffff) = take_bit 16 (uint a)" by (simp only: unsigned_take_bit_eq)
  then have "uint (ucast (a AND 0xffff) :: uint16) = uint a mod 65536"
    by (simp only: unsigned_ucast_eq) (simp add: take_bit_eq_mod)
  also have "uint a = sint a mod 4294967296"
    by (simp add: uint_sint take_bit_eq_mod)
  finally show ?thesis by (simp add: mod_mod_cancel)
qed

lemma prod16_bound:
  assumes "- 32768 \<le> x" "x \<le> 32767" "0 \<le> y" "y \<le> (65536 :: int)"
  shows "- 2147483648 \<le> x * y" "x * y \<le> 2147418112"
proof -
  have "x * y \<le> 32767 * y" using assms by (intro mult_right_mono) auto
  then show "x * y \<le> 2147418112" using assms by linarith
  have "(- 32768) * y \<le> x * y" using assms by (intro mult_right_mono) auto
  then show "- 2147483648 \<le> x * y" using assms by linarith
qed

lemma prod16_signed_bound:
  assumes "- 32768 \<le> x" "x \<le> 32767" "- 32768 \<le> y" "y \<le> (32767 :: int)"
  shows "\<bar>x * y\<bar> \<le> 1073741824"
proof -
  have "\<bar>x\<bar> * \<bar>y\<bar> \<le> 32768 * 32768" using assms by (intro mult_mono) auto
  then show ?thesis by (simp add: abs_mult)
qed

lemma qm_mul321616_sint: "sint (qm_mul321616 a b) = sint a * sint b"
  using prod16_signed_bound [of "sint a" "sint b"] sint16_range [of a] sint16_range [of b]
  by (simp only: qm_mul321616_def sint_mult32 sint_scast16_32) (simp add: wrap32_id abs_le_iff)

lemma qm_mulsu321616_sint: "sint (qm_mulsu321616 a b) = sint a * uint b"
proof -
  have "uint b \<le> 65536" using uint_lt2p [of b] by simp
  then show ?thesis
    using prod16_bound [of "sint a" "uint b"] sint16_range [of a]
    by (simp only: qm_mulsu321616_def sint_mult32 sint_scast16_32 sint_ucast16_32)
       (simp add: wrap32_id)
qed

lemma mul_halves:
  fixes x y :: int
  shows "x * y div 65536 = (x div 65536) * y + (x mod 65536) * y div 65536"
proof -
  define h l where "h = x div 65536" and "l = x mod 65536"
  have "x = h * 65536 + l" by (simp add: h_def l_def)
  then have "x * y = (h * 65536 + l) * y" by simp
  also have "\<dots> = l * y + (h * y) * 65536" by (simp add: algebra_simps)
  finally show ?thesis by (simp add: h_def l_def)
qed

lemma qm_mul323216_sint: "sint (qm_mul323216 a b) = sint a * sint b div 65536"
proof -
  let ?x = "sint a" and ?y = "sint b"
  have eq: "?x * ?y div 65536 = (?x div 65536) * ?y + ?y * (?x mod 65536) div 65536"
    using mul_halves [of ?x ?y] by (simp add: mult.commute)
  have "\<bar>?x\<bar> * \<bar>?y\<bar> \<le> 2147483648 * 32768"
    using sint32_range [of a] sint16_range [of b] by (intro mult_mono) auto
  then have "\<bar>?x * ?y\<bar> \<le> 70368744177664" by (simp add: abs_mult)
  then have "- 2147483648 \<le> ?x * ?y div 65536" "?x * ?y div 65536 \<le> 2147483647"
    using zdiv_bounds [of 65536 "- 2147483648" "?x * ?y" 2147483647] by simp_all
  then show ?thesis
    unfolding qm_mul323216_def Let_def
    by (simp only: sint_add32 sint_shr qm_mul321616_sint qm_mulsu321616_sint hi16_sint lo16_uint)
       (simp add: eq wrap32_id)
qed

text \<open>
  \<open>qm_mul32\<close> drops the product of the low halves and rounds twice: it never exceeds the exact
  product shifted by 32 bits and is below it by at most 2.
\<close>

lemma qm_mul32_int:
  fixes x y :: int
  defines "e \<equiv> (x div 65536) * (y div 65536) + (x div 65536) * (y mod 65536) div 65536
                 + (y div 65536) * (x mod 65536) div 65536"
  shows "e \<le> x * y div 4294967296" "x * y div 4294967296 \<le> e + 2"
proof -
  define h1 l1 h2 l2 where "h1 = x div 65536" "l1 = x mod 65536" "h2 = y div 65536" "l2 = y mod 65536"
  have xy: "x = h1 * 65536 + l1" "y = h2 * 65536 + l2" by (simp_all add: h1_l1_h2_l2_def)
  have l: "0 \<le> l1" "l1 \<le> 65535" "0 \<le> l2" "l2 \<le> 65535"
    using pos_mod_bound [of 65536 x] pos_mod_bound [of 65536 y] by (simp_all add: h1_l1_h2_l2_def)
  define p q s t where "p = h1 * l2 div 65536" "q = h2 * l1 div 65536"
    "s = h1 * l2 mod 65536" "t = h2 * l1 mod 65536"
  have pq: "h1 * l2 = p * 65536 + s" "h2 * l1 = q * 65536 + t" by (simp_all add: p_q_s_t_def)
  have rest: "0 \<le> s" "s \<le> 65535" "0 \<le> t" "t \<le> 65535"
    using pos_mod_bound [of 65536 "h1 * l2"] pos_mod_bound [of 65536 "h2 * l1"]
    by (simp_all add: p_q_s_t_def)
  have ll: "0 \<le> l1 * l2" "l1 * l2 \<le> 4294836225"
    using l mult_mono [of l1 65535 l2 65535] by simp_all
  have e: "e = h1 * h2 + p + q" by (simp add: e_def p_q_s_t_def h1_l1_h2_l2_def)
  have "x * y = h1 * h2 * 4294967296 + (h1 * l2) * 65536 + (h2 * l1) * 65536 + l1 * l2"
    by (simp add: xy algebra_simps)
  also have "\<dots> = e * 4294967296 + (s + t) * 65536 + l1 * l2"
    by (simp only: pq e) (simp add: algebra_simps)
  finally have xyv: "x * y = e * 4294967296 + s * 65536 + t * 65536 + l1 * l2"
    by (simp only: distrib_right add.assoc)
  show "e \<le> x * y div 4294967296"
    by (rule zdiv_ge) (use xyv rest ll in linarith)+
  have "x * y < e * 4294967296 + 3 * 4294967296" using xyv rest ll by linarith
  then have "x * y < (e + 2 + 1) * 4294967296" by (simp add: distrib_right)
  then show "x * y div 4294967296 \<le> e + 2" by (intro zdiv_le) simp_all
qed

lemma halves_product_range:
  assumes "- 32768 \<le> x" "x \<le> 32767" "0 \<le> y" "y \<le> (65536 :: int)"
  shows "- 32768 \<le> x * y div 65536" "x * y div 65536 \<le> 32767"
  using prod16_bound [OF assms] by (auto intro!: zdiv_ge zdiv_le)

lemma wrap32_mul32:
  assumes "- 32768 \<le> h1" "h1 \<le> 32767" "- 32768 \<le> h2" "h2 \<le> 32767"
    and "- 32768 \<le> u" "u \<le> 32767" "- 32768 \<le> v" "v \<le> 32767"
  shows "wrap32 (wrap32 (h1 * h2 + u) + v) = h1 * h2 + u + v"
  using prod16_signed_bound [OF assms(1-4)] assms(5-8) by (simp add: wrap32_id abs_le_iff)

lemma qm_mul32_halves:
  "sint (qm_mul32 a b) =
     (sint a div 65536) * (sint b div 65536) + (sint a div 65536) * (sint b mod 65536) div 65536
       + (sint b div 65536) * (sint a mod 65536) div 65536"
proof -
  have h: "- 32768 \<le> sint c div 65536 \<and> sint c div 65536 \<le> 32767" for c :: int32
    using sint32_range [of c] by (auto intro!: zdiv_ge zdiv_le)
  have m: "0 \<le> sint c mod 65536 \<and> sint c mod 65536 \<le> 65536" for c :: int32
    using pos_mod_bound [of 65536 "sint c"] by simp
  have pow16: "(2 :: int) ^ 16 = 65536" by simp
  have "sint (qm_mul32 a b) = wrap32 (wrap32 ((sint a div 65536) * (sint b div 65536)
      + (sint a div 65536) * (sint b mod 65536) div 65536)
      + (sint b div 65536) * (sint a mod 65536) div 65536)"
    by (simp only: qm_mul32_def Let_def sint_add32 sint_shr qm_mul321616_sint
        qm_mulsu321616_sint hi16_sint lo16_uint pow16)
  then show ?thesis
    using h [of a] h [of b] m [of a] m [of b]
    by (simp only: wrap32_mul32 halves_product_range)
qed

lemma qm_mul32_sint:
  "sint (qm_mul32 a b) \<le> sint a * sint b div 4294967296"
  "sint a * sint b div 4294967296 \<le> sint (qm_mul32 a b) + 2"
  using qm_mul32_int [of "sint a" "sint b"] by (simp_all only: qm_mul32_halves)

lemma qm_muls16_sint:
  "sint (qm_muls16 a b) =
     (if a = 0x8000 \<and> b = 0x8000 then - 1 else sint a * sint b div 32768)"
proof (cases "a = 0x8000 \<and> b = 0x8000")
  case True
  then show ?thesis by (simp add: qm_muls16_def)
next
  case False
  let ?x = "sint a" and ?y = "sint b"
  have nb: "\<not> (?x = - 32768 \<and> ?y = - 32768)" using False by (simp add: eq_min16_iff)
  have r: "- 32768 \<le> ?x" "?x \<le> 32767" "- 32768 \<le> ?y" "?y \<le> 32767"
    using sint16_range by auto
  have b: "\<bar>?x * ?y\<bar> \<le> 1073741824" using r by (intro prod16_signed_bound)
  have "?x * ?y \<noteq> 1073741824"
  proof
    assume "?x * ?y = 1073741824"
    then have "\<bar>?x\<bar> * \<bar>?y\<bar> = 1073741824" by (simp add: abs_mult [symmetric])
    moreover have "\<bar>?x\<bar> * \<bar>?y\<bar> \<le> 32767 * 32768" if "?x \<noteq> - 32768"
      using r that by (intro mult_mono) auto
    moreover have "\<bar>?x\<bar> * \<bar>?y\<bar> \<le> 32768 * 32767" if "?y \<noteq> - 32768"
      using r that by (intro mult_mono) auto
    ultimately show False using nb by auto
  qed
  then have "?x * ?y < (32767 + 1) * 32768" using b by (simp add: abs_le_iff)
  then have q: "- 32768 \<le> ?x * ?y div 32768" "?x * ?y div 32768 \<le> 32767"
    using b zdiv_bounds [of 32768 "- 32768" "?x * ?y" 32767] by (simp_all add: abs_le_iff)
  have "sint (scast a * scast b :: int32) = ?x * ?y"
    using qm_mul321616_sint [of a b] by (simp only: qm_mul321616_def)
  then have "sint (qm_muls16 a b) = wrap16 (?x * ?y div 32768)"
    using False by (simp only: qm_muls16_def Let_def sint_trunc32_16 sint_shr if_False) simp
  then show ?thesis using False q by (auto simp: wrap16_id)
qed

subsection \<open>The logarithm's table lookup\<close>

lemma qm_log10_index_le: "unat (qm_log10_index N) \<le> 31"
proof -
  have "qm_log10_index N = take_bit 5 (scast (signed_drop_bit 25 N))"
    by (simp add: qm_log10_index_def take_bit_eq_mask mask_eq_exp_minus_1)
  then have "unat (qm_log10_index N) = unat (scast (signed_drop_bit 25 N) :: int16) mod 32"
    by (simp only: unsigned_take_bit_eq) (simp add: take_bit_eq_mod)
  then show ?thesis by simp
qed

lemma qm_log10_None_iff:
  "qm_log10 N qN = None \<longleftrightarrow>
     (\<exists>n. qm_norm32 N = Some n \<and> unat (qm_log10_index (push_bit (unat n) N)) = 31)"
proof -
  obtain n where n: "qm_norm32 N = Some n" using qm_norm32_returns by blast
  let ?i = "unat (qm_log10_index (push_bit (unat n) N))"
  have i: "?i \<le> 31" by (rule qm_log10_index_le)
  obtain m where "\<And>w. qm_norm32 w = Some (m w)" using qm_norm32_returns by metis
  then show ?thesis
    using n i by (auto simp: qm_log10_def Let_def array_get_def log_table_def)
qed

subsection \<open>Properties\<close>

text \<open>
  Saturation. \<open>qm_sat32\<close>, \<open>qm_add16\<close>, \<open>qm_sub16\<close> and \<open>qm_sub32\<close> return the exact
  integer result clamped to the range of their type, for all operands.
\<close>

lemma qm_saturating_ops:
  "sint (qm_sat32 a) = sat16 (sint a) \<and>
   sint (qm_add16 c d) = sat16 (sint c + sint d) \<and>
   sint (qm_sub16 c d) = sat16 (sint c - sint d) \<and>
   sint (qm_sub32 a b) = sat32 (sint a - sint b)"
  by (intro conjI qm_sat32_sint qm_add16_sint qm_sub16_sint qm_sub32_sint)

text \<open>
  \<open>qm_add32\<close> saturates for all operands but one pair: the sum of the most negative
  number with itself wraps to 0, because the underflow test is \<open>result > 0\<close>.
\<close>

lemma qm_add32_saturates:
  "sint (qm_add32 a b) =
     (if sint a = - (2 ^ 31) \<and> sint b = - (2 ^ 31) then 0
      else max (- (2 ^ 31)) (min (2 ^ 31 - 1) (sint a + sint b)))"
  by (simp add: qm_add32_sint eq_min32_iff sat32_def)

text \<open>
  Shifts by any count. A right shift divides rounding down, a left shift multiplies and
  saturates, except that a negative value that leaves the range by a factor of two or more
  becomes 0 (repeated doubling meets the one wrapping pair of \<open>qm_add32\<close>). Counts are clamped to 31.
\<close>

lemma qm_shl32_shifts:
  "sint (qm_shl32 op k) =
     (if 0 \<le> k
      then let v = sint op * 2 ^ nat (min k 31) in
        if v \<le> - (2 ^ 32) then 0 else max (- (2 ^ 31)) (min (2 ^ 31 - 1) v)
      else sint op div 2 ^ nat (min (- k) 31))"
proof (cases "0 \<le> k")
  case True
  then have "qm_shl32 op k = qm_shl32 op (int (nat (min k 31)))"
    by (simp add: qm_shl32_def Let_def min_def)
  then show ?thesis
    using True qm_shl32_left [of "nat (min k 31)" op]
    by (simp add: Let_def shl_int_def nat_le_iff)
next
  case False
  then have "qm_shl32 op k = qm_shr32 op (int (nat (min (- k) 31)))"
    by (simp add: qm_shr32_def qm_shl32_def Let_def min_def)
  then show ?thesis using False qm_shl32_right [of "nat (min (- k) 31)" op] by (simp add: nat_le_iff)
qed

text \<open>
  C29: The normalisation loop returns for every operand, and on a nonzero operand its count is
  the exact left shift that puts the value into the top half of the range without overflow.
\<close>

theorem qm_norm32_normalises:
  "\<exists>n. qm_norm32 op = Some n \<and> unat n \<le> 31 \<and>
     (op = 0 \<and> n = 31 \<or>
      sint (push_bit (unat n) op) = sint op * 2 ^ unat n \<and>
      (2 ^ 30 \<le> sint op * 2 ^ unat n \<or> sint op * 2 ^ unat n < - (2 ^ 30)))"
proof (cases "op = 0")
  case True
  then show ?thesis by (intro exI [of _ 31]) (simp add: qm_norm32_def)
next
  case False
  then obtain n where n: "n \<le> 31" "qm_norm32 op = Some (of_nat n)"
    "sint (push_bit n op) = sint op * 2 ^ n"
    "\<not> (- 1073741824 \<le> sint op * 2 ^ n \<and> sint op * 2 ^ n < 1073741824)"
    using qm_norm32_nonzero by blast
  have "unat (of_nat n :: int16) = n"
    using n(1) by (simp add: unat_of_nat take_bit_nat_eq_self)
  then show ?thesis using n by (intro exI [of _ "of_nat n"]) (auto simp: not_le not_less)
qed

text \<open>
  The fifteen step restoring division computes the quotient of fractions in q.15: for
  \<open>0 \<le> num < denom\<close> it is \<open>num * 2\<^sup>1\<^sup>5 / denom\<close>, rounded down.
\<close>

lemma qm_div_s_quotient:
  assumes "0 \<le> sint num" "sint num < sint denom"
  shows "sint (qm_div_s num denom) = sint num * 2 ^ 15 div sint denom"
  using qm_div_s_sint [OF assms] by simp

lemma qm_div_s_quotient_witness: "sint (qm_div_s 3 7) = sint (3 :: int16) * 2 ^ 15 div sint (7 :: int16)"
  by (rule qm_div_s_quotient) simp_all

text \<open>
  Products of 32 bit numbers from 16 bit halves. \<open>qm_mul323216\<close> is the exact upper part
  of the 48 bit product; \<open>qm_mul32\<close> ignores the carries of the low partial products and is
  at most 2 below the upper 32 bits of the 64 bit product.
\<close>

lemma qm_mul32_products:
  "sint (qm_mul323216 a c) = sint a * sint c div 2 ^ 16 \<and>
   sint (qm_mul32 a b) \<in> {sint a * sint b div 2 ^ 32 - 2 .. sint a * sint b div 2 ^ 32}"
  using qm_mul32_sint [of a b] by (simp add: qm_mul323216_sint)

text \<open>
  \<open>qm_muls16\<close> returns the q.15 product rounded down, except that the product of the two
  most negative numbers, which its guard sets aside to saturate, becomes -1.
\<close>

lemma qm_muls16_product:
  "sint (qm_muls16 a b) =
     (if sint a = - (2 ^ 15) \<and> sint b = - (2 ^ 15) then - 1 else sint a * sint b div 2 ^ 15)"
  by (simp add: qm_muls16_sint eq_min16_iff)

text \<open>
  \<open>qm_log10\<close> always returns, and reads past the end of \<open>log_table\<close> exactly when the five
  bits below the leading bit of the normalised operand are all ones.
\<close>

lemma qm_log10_table_bound:
  "qm_log10 N qN = None \<longleftrightarrow>
     (\<exists>n. qm_norm32 N = Some n \<and> unat (qm_log10_index (push_bit (unat n) N)) = 31)"
  by (rule qm_log10_None_iff)

end
