(* ===== verification/Xdr.thy ===== *)
theory Xdr
  imports Prelude "HOL-Library.Monad_Syntax"
begin

text \<open>
  The RPC bus marshalling buffer of \<^verbatim>\<open>shared/bcm_xdr.c\<close>. The buffer record holds the
  memory behind \<open>origbuf\<close>, the offset of \<open>buf\<close> in it and the two sizes; \<open>size_t\<close> and
  \<open>uint\<close> are the 32 bit words of the target. An operation is \<open>None\<close> when it touches
  memory outside the buffer or outside the caller's array; otherwise it returns the C return
  value (0 or -1), the buffer, and the new contents of its out parameter.
\<close>

subsection \<open>The buffer\<close>

record bcm_xdr_buf =
  xb_mem :: "uint8 list"
  xb_buf :: nat
  xb_size :: uint32
  xb_origsize :: uint32

definition bcm_xdr_buf_init :: "uint8 list \<Rightarrow> uint32 \<Rightarrow> bcm_xdr_buf" where
  "bcm_xdr_buf_init buf len =
     \<lparr>xb_mem = buf, xb_buf = 0, xb_size = len, xb_origsize = len\<rparr>"

text \<open>\<open>b->size -= n; b->buf += n;\<close>\<close>

definition xdr_advance :: "bcm_xdr_buf \<Rightarrow> uint32 \<Rightarrow> bcm_xdr_buf" where
  "xdr_advance b n = b\<lparr>xb_size := xb_size b - n, xb_buf := xb_buf b + unat n\<rparr>"

text \<open>Storing bytes at an offset from \<open>b->buf\<close>.\<close>

definition xdr_store :: "bcm_xdr_buf \<Rightarrow> nat \<Rightarrow> uint8 list \<Rightarrow> bcm_xdr_buf option" where
  "xdr_store b off bs =
     map_option (\<lambda>m. b\<lparr>xb_mem := m\<rparr>) (write_mem (xb_mem b) (xb_buf b + off) bs)"

subsection \<open>Opaque data\<close>

definition bcm_xdr_pack_opaque_raw ::
  "bcm_xdr_buf \<Rightarrow> uint32 \<Rightarrow> uint8 list \<Rightarrow> (int \<times> bcm_xdr_buf) option" where
  "bcm_xdr_pack_opaque_raw b len data =
     (if xb_size b < len then Some (- 1, b)
      else do { bs \<leftarrow> read_mem data 0 (unat len);
                b \<leftarrow> xdr_store b 0 bs;
                Some (0, xdr_advance b len) })"

definition bcm_xdr_pack_opaque_pad :: "bcm_xdr_buf \<Rightarrow> (int \<times> bcm_xdr_buf) option" where
  "bcm_xdr_pack_opaque_pad b =
     (let len = word_of_nat (xb_buf b) :: uint32;
          r = (4 - len) AND 3
      in if r = 0 then Some (0, b)
         else if xb_size b < r then Some (- 1, b)
         else do { b \<leftarrow> xdr_store b 0 (replicate (unat r) 0);
                   Some (0, xdr_advance b r) })"

definition bcm_xdr_pack_opaque ::
  "bcm_xdr_buf \<Rightarrow> uint32 \<Rightarrow> uint8 list \<Rightarrow> (int \<times> bcm_xdr_buf) option" where
  "bcm_xdr_pack_opaque b len data =
     (let r = (4 - len) AND 3;
          tot_len = len + r
      in if xb_size b < tot_len then Some (- 1, b)
         else do { bs \<leftarrow> read_mem data 0 (unat len);
                   b \<leftarrow> xdr_store b 0 bs;
                   b \<leftarrow> xdr_store b (unat len) (replicate (unat r) 0);
                   Some (0, xdr_advance b tot_len) })"

text \<open>The out parameter \<open>*pdata\<close> is an offset into the buffer.\<close>

definition bcm_xdr_unpack_opaque ::
  "bcm_xdr_buf \<Rightarrow> uint32 \<Rightarrow> nat \<Rightarrow> int \<times> bcm_xdr_buf \<times> nat" where
  "bcm_xdr_unpack_opaque b len pdata =
     (let r = (4 - len) AND 3;
          tot_len = len + r
      in if xb_size b < tot_len then (- 1, b, pdata)
         else (0, xdr_advance b tot_len, xb_buf b))"

definition bcm_xdr_unpack_opaque_cpy ::
  "bcm_xdr_buf \<Rightarrow> uint32 \<Rightarrow> uint8 list \<Rightarrow> (int \<times> bcm_xdr_buf \<times> uint8 list) option" where
  "bcm_xdr_unpack_opaque_cpy b len data =
     (case bcm_xdr_unpack_opaque b len 0 of (err, b', xdr_data) \<Rightarrow>
        if err \<noteq> 0 then Some (err, b', data)
        else do { bs \<leftarrow> read_mem (xb_mem b') xdr_data (unat len);
                  data' \<leftarrow> write_mem data 0 bs;
                  Some (0, b', data') })"

subsection \<open>Vectors\<close>

definition bcm_xdr_pack_uint8_vec ::
  "bcm_xdr_buf \<Rightarrow> uint8 list \<Rightarrow> uint32 \<Rightarrow> (int \<times> bcm_xdr_buf) option" where
  "bcm_xdr_pack_uint8_vec b vec elems = bcm_xdr_pack_opaque b elems vec"

definition bcm_xdr_unpack_uint8_vec ::
  "bcm_xdr_buf \<Rightarrow> uint8 list \<Rightarrow> uint32 \<Rightarrow> (int \<times> bcm_xdr_buf \<times> uint8 list) option" where
  "bcm_xdr_unpack_uint8_vec b vec elems = bcm_xdr_unpack_opaque_cpy b elems vec"

definition bcm_xdr_pack_uint16_vec ::
  "bcm_xdr_buf \<Rightarrow> uint32 \<Rightarrow> uint16 list \<Rightarrow> (int \<times> bcm_xdr_buf) option" where
  "bcm_xdr_pack_uint16_vec b len vec =
     (let r = (4 - len) AND 3;
          tot_len = len + r
      in if xb_size b < tot_len then Some (- 1, b)
         else do { ws \<leftarrow> read_mem vec 0 (unat len div 2);
                   b \<leftarrow> xdr_store b 0 (concat (map le16 ws));
                   b \<leftarrow> xdr_store b (unat len) (replicate (unat r) 0);
                   Some (0, xdr_advance b tot_len) })"

definition bcm_xdr_pack_uint32_vec ::
  "bcm_xdr_buf \<Rightarrow> uint32 \<Rightarrow> uint32 list \<Rightarrow> (int \<times> bcm_xdr_buf) option" where
  "bcm_xdr_pack_uint32_vec b len vec =
     (if xb_size b < len then Some (- 1, b)
      else do { ws \<leftarrow> read_mem vec 0 (unat len div 4);
                b \<leftarrow> xdr_store b 0 (concat (map le32 ws));
                Some (0, xdr_advance b len) })"

text \<open>
  The in-place conversion of the first elements, on a little endian host, reads each element
  (\<open>ltoh16\<close>, \<open>ltoh32\<close>) and stores it back.
\<close>

definition bcm_xdr_unpack_uint16_vec ::
  "bcm_xdr_buf \<Rightarrow> uint32 \<Rightarrow> uint8 list \<Rightarrow> (int \<times> bcm_xdr_buf \<times> uint8 list) option" where
  "bcm_xdr_unpack_uint16_vec b len vec =
     do { (err, b, vec) \<leftarrow> bcm_xdr_unpack_opaque_cpy b len vec;
          bs \<leftarrow> read_mem vec 0 (2 * (unat len div 2));
          vec \<leftarrow> write_mem vec 0 (concat (map le16 (words16 bs)));
          Some (err, b, vec) }"

definition bcm_xdr_unpack_uint32_vec ::
  "bcm_xdr_buf \<Rightarrow> uint32 \<Rightarrow> uint8 list \<Rightarrow> (int \<times> bcm_xdr_buf \<times> uint8 list) option" where
  "bcm_xdr_unpack_uint32_vec b len vec =
     do { (err, b, vec) \<leftarrow> bcm_xdr_unpack_opaque_cpy b len vec;
          bs \<leftarrow> read_mem vec 0 (4 * (unat len div 4));
          vec \<leftarrow> write_mem vec 0 (concat (map le32 (words32 bs)));
          Some (err, b, vec) }"

subsection \<open>Scalars\<close>

definition bcm_xdr_pack_uint32 ::
  "bcm_xdr_buf \<Rightarrow> uint32 \<Rightarrow> (int \<times> bcm_xdr_buf) option" where
  "bcm_xdr_pack_uint32 b val =
     (if xb_size b < 4 then Some (- 1, b)
      else do { b \<leftarrow> xdr_store b 0 (le32 val);
                Some (0, xdr_advance b 4) })"

definition bcm_xdr_unpack_uint32 ::
  "bcm_xdr_buf \<Rightarrow> uint32 \<Rightarrow> (int \<times> bcm_xdr_buf \<times> uint32) option" where
  "bcm_xdr_unpack_uint32 b pval =
     (if xb_size b < 4 then Some (- 1, b, pval)
      else do { bs \<leftarrow> read_mem (xb_mem b) (xb_buf b) 4;
                Some (0, xdr_advance b 4, get32 (bs ! 0) (bs ! 1) (bs ! 2) (bs ! 3)) })"

definition bcm_xdr_pack_int32 ::
  "bcm_xdr_buf \<Rightarrow> int32 \<Rightarrow> (int \<times> bcm_xdr_buf) option" where
  "bcm_xdr_pack_int32 b val = bcm_xdr_pack_uint32 b val"

definition bcm_xdr_unpack_int32 ::
  "bcm_xdr_buf \<Rightarrow> int32 \<Rightarrow> (int \<times> bcm_xdr_buf \<times> int32) option" where
  "bcm_xdr_unpack_int32 b pval = bcm_xdr_unpack_uint32 b pval"

definition bcm_xdr_pack_int8 ::
  "bcm_xdr_buf \<Rightarrow> 8 word \<Rightarrow> (int \<times> bcm_xdr_buf) option" where
  "bcm_xdr_pack_int8 b val = bcm_xdr_pack_uint32 b (scast val)"

definition bcm_xdr_unpack_int8 ::
  "bcm_xdr_buf \<Rightarrow> (int \<times> bcm_xdr_buf \<times> 8 word) option" where
  "bcm_xdr_unpack_int8 b =
     do { (err, b, val) \<leftarrow> bcm_xdr_unpack_uint32 b 0;
          Some (err, b, ucast val) }"

subsection \<open>Counted data and strings\<close>

definition bcm_xdr_pack_opaque_varlen ::
  "bcm_xdr_buf \<Rightarrow> uint32 \<Rightarrow> uint8 list \<Rightarrow> (int \<times> bcm_xdr_buf) option" where
  "bcm_xdr_pack_opaque_varlen b len data =
     do { (err, b) \<leftarrow> bcm_xdr_pack_uint32 b len;
          if err \<noteq> 0 then Some (err, b) else bcm_xdr_pack_opaque b len data }"

definition bcm_xdr_unpack_opaque_varlen ::
  "bcm_xdr_buf \<Rightarrow> uint32 \<Rightarrow> nat \<Rightarrow> (int \<times> bcm_xdr_buf \<times> uint32 \<times> nat) option" where
  "bcm_xdr_unpack_opaque_varlen b plen pdata =
     do { (err, b, plen) \<leftarrow> bcm_xdr_unpack_uint32 b plen;
          if err \<noteq> 0 then Some (err, b, plen, pdata)
          else case bcm_xdr_unpack_opaque b plen pdata of
                 (err, b, pdata) \<Rightarrow> Some (err, b, plen, pdata) }"

definition bcm_xdr_pack_string ::
  "bcm_xdr_buf \<Rightarrow> uint8 list \<Rightarrow> (int \<times> bcm_xdr_buf) option" where
  "bcm_xdr_pack_string b str =
     do { n \<leftarrow> c_strlen str;
          bcm_xdr_pack_opaque_varlen b (word_of_nat n) str }"

definition bcm_xdr_unpack_string ::
  "bcm_xdr_buf \<Rightarrow> uint32 \<Rightarrow> nat \<Rightarrow> (int \<times> bcm_xdr_buf \<times> uint32 \<times> nat) option" where
  "bcm_xdr_unpack_string b plen pstr = bcm_xdr_unpack_opaque_varlen b plen pstr"

subsection \<open>The buffer's invariant and the wire format\<close>

definition xdr_ok :: "bcm_xdr_buf \<Rightarrow> bool" where
  "xdr_ok b \<longleftrightarrow> xb_buf b + unat (xb_size b) = unat (xb_origsize b) \<and>
     unat (xb_origsize b) \<le> length (xb_mem b)"

text \<open>The zero bytes that follow \<open>n\<close> bytes of data.\<close>

definition xdr_pad :: "nat \<Rightarrow> nat" where
  "xdr_pad n = (4 - n mod 4) mod 4"

definition xdr_padded :: "uint8 list \<Rightarrow> uint8 list" where
  "xdr_padded bs = bs @ replicate (xdr_pad (length bs)) 0"

text \<open>Appending wire bytes, and reading them back at the current position.\<close>

definition xdr_put :: "bcm_xdr_buf \<Rightarrow> uint8 list \<Rightarrow> bcm_xdr_buf" where
  "xdr_put b bs = b\<lparr>
     xb_mem := take (xb_buf b) (xb_mem b) @ bs @ drop (xb_buf b + length bs) (xb_mem b),
     xb_size := xb_size b - word_of_nat (length bs), xb_buf := xb_buf b + length bs\<rparr>"

definition xdr_at :: "bcm_xdr_buf \<Rightarrow> uint8 list \<Rightarrow> bool" where
  "xdr_at b bs \<longleftrightarrow> take (length bs) (drop (xb_buf b) (xb_mem b)) = bs"

definition xdr_skip :: "bcm_xdr_buf \<Rightarrow> nat \<Rightarrow> bcm_xdr_buf" where
  "xdr_skip b n = b\<lparr>xb_size := xb_size b - word_of_nat n, xb_buf := xb_buf b + n\<rparr>"

text \<open>What a store of wire bytes returns: the error, or the buffer with the bytes in it.\<close>

definition xdr_emit :: "bcm_xdr_buf \<Rightarrow> uint8 list \<Rightarrow> int \<times> bcm_xdr_buf" where
  "xdr_emit b bs = (if unat (xb_size b) < length bs then (- 1, b) else (0, xdr_put b bs))"

lemma unat_sub_le: "(n :: nat) \<le> unat (w :: uint32) \<Longrightarrow> unat (w - word_of_nat n) = unat w - n"
proof -
  assume n: "n \<le> unat w"
  then have u: "unat (word_of_nat n :: uint32) = n"
    using unat32_less [of w] by (intro unat_of_nat32) simp
  then have "word_of_nat n \<le> w" using n by (simp add: word_le_nat_alt)
  then show ?thesis using u by (simp add: unat_sub)
qed

lemma xdr_put_ok: "xdr_ok b \<Longrightarrow> length bs \<le> unat (xb_size b) \<Longrightarrow> xdr_ok (xdr_put b bs)"
  by (auto simp: xdr_ok_def xdr_put_def unat_sub_le)

lemma xdr_skip_ok: "xdr_ok b \<Longrightarrow> n \<le> unat (xb_size b) \<Longrightarrow> xdr_ok (xdr_skip b n)"
  by (auto simp: xdr_ok_def xdr_skip_def unat_sub_le)

lemma xdr_emit_ok: "xdr_ok b \<Longrightarrow> xdr_ok (snd (xdr_emit b bs))"
  by (simp add: xdr_emit_def xdr_put_ok)

lemma xdr_advance_skip: "xdr_advance b n = xdr_skip b (unat n)"
  by (simp add: xdr_advance_def xdr_skip_def)

lemma unat_residue: "unat ((4 - len) AND 3 :: uint32) = xdr_pad (unat len)"
proof -
  have "(4 - len) AND 3 = take_bit 2 (4 - len :: uint32)"
    by (simp add: take_bit_eq_mask mask_eq_exp_minus_1)
  then have "uint ((4 - len) AND 3) = take_bit 2 (uint (4 - len))"
    by (simp only: unsigned_take_bit_eq)
  then have "int (unat ((4 - len) AND 3)) = uint (4 - len) mod 4"
    by (simp add: take_bit_eq_mod)
  also have "\<dots> = (4 - uint len) mod 4"
    by (simp add: uint_word_ariths mod_mod_cancel)
  also have "\<dots> = (4 - uint len mod 4) mod 4"
    by (rule mod_diff_right_eq [symmetric])
  also have "\<dots> = int (xdr_pad (unat len))"
    by (simp add: xdr_pad_def of_nat_diff zmod_int flip: unat_eq_nat_uint)
  finally show ?thesis by (simp only: of_nat_eq_iff)
qed

lemma xdr_pad_less: "xdr_pad n < 4"
  by (simp add: xdr_pad_def)

lemma xdr_pad_sum: "n + xdr_pad n = 4 * ((n + 3) div 4)"
proof -
  define q r where "q = n div 4" "r = n mod 4"
  then have n: "n = 4 * q + r" and "r < 4" by simp_all
  then consider "r = 0" | "r = 1" | "r = 2" | "r = 3" by linarith
  moreover have "xdr_pad n = (4 - r) mod 4" by (simp only: xdr_pad_def q_r_def)
  ultimately have "n + xdr_pad n = 4 * q + (if r = 0 then 0 else 4)"
    by cases (simp_all add: n)
  moreover have "(n + 3) div 4 = q + (if r = 0 then 0 else 1)"
    using \<open>r < 4\<close> by (auto simp: n)
  ultimately show ?thesis by simp
qed

text \<open>The padded length is computed exactly up to \<open>2\<^sup>3\<^sup>2 - 4\<close>, and is 0 above it.\<close>

lemma unat_tot_len:
  "unat (len + ((4 - len) AND 3) :: uint32) =
     (if unat len \<le> 4294967292 then unat len + xdr_pad (unat len) else 0)"
proof -
  have u: "unat len < 4294967296" by (rule unat32_less)
  have "unat (len + ((4 - len) AND 3)) = (unat len + xdr_pad (unat len)) mod 4294967296"
    by (simp add: unat_word_ariths unat_residue)
  also have "\<dots> = (if unat len \<le> 4294967292 then unat len + xdr_pad (unat len) else 0)"
  proof (cases "unat len \<le> 4294967292")
    case True
    then show ?thesis using xdr_pad_less [of "unat len"] xdr_pad_sum [of "unat len"] by auto
  next
    case False
    then consider "unat len = 4294967293" | "unat len = 4294967294" | "unat len = 4294967295"
      using u by linarith
    then show ?thesis by cases (simp_all add: xdr_pad_sum)
  qed
  finally show ?thesis .
qed

lemma xdr_store_put:
  assumes "xdr_ok b" "unat n = length bs" "length bs \<le> unat (xb_size b)"
  shows "map_option (\<lambda>b. xdr_advance b n) (xdr_store b 0 bs) = Some (xdr_put b bs)"
proof -
  have "word_of_nat (length bs) = n" by (simp flip: assms(2))
  then show ?thesis
    using assms
    by (simp add: xdr_store_def write_mem_def xdr_ok_def xdr_put_def xdr_advance_def)
qed

lemma xdr_store_store:
  assumes "xb_buf b + length xs + length ys \<le> length (xb_mem b)"
  shows "xdr_store b 0 xs \<bind> (\<lambda>b. xdr_store b (length xs) ys) = xdr_store b 0 (xs @ ys)"
  using assms by (simp add: xdr_store_def write_mem_def add.commute add.left_commute)

lemma xdr_store_advance:
  assumes "xdr_ok b" "unat n = length bs" "length bs \<le> unat (xb_size b)"
  shows "(xdr_store b 0 bs \<bind> (\<lambda>b. Some (0 :: int, xdr_advance b n))) = Some (0, xdr_put b bs)"
  using xdr_store_put [OF assms] by (cases "xdr_store b 0 bs") simp_all

lemma xdr_store_store_advance:
  assumes "xdr_ok b" "unat n = length (xs @ ys)" "length (xs @ ys) \<le> unat (xb_size b)"
    "k = length xs"
  shows "(xdr_store b 0 xs \<bind> (\<lambda>b. xdr_store b k ys \<bind> (\<lambda>b. Some (0 :: int, xdr_advance b n))))
    = Some (0, xdr_put b (xs @ ys))"
proof -
  have "xb_buf b + length xs + length ys \<le> length (xb_mem b)"
    using assms by (simp add: xdr_ok_def)
  from xdr_store_store [OF this] xdr_store_advance [OF assms(1-3)] assms(4)
  show ?thesis by (simp flip: Option.bind_assoc)
qed

lemma pack_uint32_wire: "xdr_ok b \<Longrightarrow> bcm_xdr_pack_uint32 b v = Some (xdr_emit b (le32 v))"
  by (simp add: bcm_xdr_pack_uint32_def xdr_emit_def word_less_nat_alt xdr_store_advance)

lemma pack_opaque_raw_wire:
  "xdr_ok b \<Longrightarrow> unat len \<le> length data \<Longrightarrow>
   bcm_xdr_pack_opaque_raw b len data = Some (xdr_emit b (take (unat len) data))"
  by (simp add: bcm_xdr_pack_opaque_raw_def xdr_emit_def word_less_nat_alt read_mem_def
      xdr_store_advance)

lemma pack_padded_wire:
  assumes "xdr_ok b" "length bs = unat len" "unat len \<le> 4294967292"
  shows "(if xb_size b < len + ((4 - len) AND 3) then Some (- 1, b)
     else xdr_store b 0 bs \<bind> (\<lambda>b. xdr_store b (unat len)
       (replicate (unat ((4 - len) AND 3)) 0) \<bind> (\<lambda>b.
         Some (0, xdr_advance b (len + ((4 - len) AND 3)))))) = Some (xdr_emit b (xdr_padded bs))"
proof -
  have n: "unat (len + ((4 - len) AND 3)) = length (bs @ replicate (xdr_pad (unat len)) 0)"
    using assms by (simp add: unat_tot_len)
  show ?thesis
  proof (cases "xb_size b < len + ((4 - len) AND 3)")
    case True
    then have "unat (xb_size b) < length (bs @ replicate (xdr_pad (unat len)) 0)"
      using n by (simp add: word_less_nat_alt)
    then show ?thesis using True by (simp add: xdr_emit_def xdr_padded_def assms(2))
  next
    case False
    then have le: "length (bs @ replicate (xdr_pad (unat len)) 0) \<le> unat (xb_size b)"
      using n by (simp add: word_less_nat_alt)
    then show ?thesis
      using False xdr_store_store_advance [OF assms(1) n le assms(2) [symmetric]] le
      by (simp add: xdr_emit_def xdr_padded_def assms(2) unat_residue)
  qed
qed

lemma pack_opaque_wire:
  assumes "xdr_ok b" "unat len \<le> length data" "unat len \<le> 4294967292"
  shows "bcm_xdr_pack_opaque b len data = Some (xdr_emit b (xdr_padded (take (unat len) data)))"
  using pack_padded_wire [of b "take (unat len) data" len] assms
  by (simp add: bcm_xdr_pack_opaque_def Let_def read_mem_def cong: if_cong)

lemma pack_uint16_vec_wire:
  assumes "xdr_ok b" "unat len = 2 * length ws" "unat len \<le> 4294967292"
  shows "bcm_xdr_pack_uint16_vec b len ws
     = Some (xdr_emit b (xdr_padded (concat (map le16 ws))))"
proof -
  have r: "read_mem ws 0 (unat len div 2) = Some ws" by (simp add: read_mem_def assms(2))
  show ?thesis
    unfolding bcm_xdr_pack_uint16_vec_def Let_def r Option.bind.simps
    by (rule pack_padded_wire) (use assms in simp_all)
qed

lemma pack_uint32_vec_wire:
  assumes "xdr_ok b" "unat len = 4 * length ws"
  shows "bcm_xdr_pack_uint32_vec b len ws = Some (xdr_emit b (concat (map le32 ws)))"
  using assms
  by (simp add: bcm_xdr_pack_uint32_vec_def Let_def read_mem_def xdr_emit_def word_less_nat_alt
      xdr_store_advance)

subsection \<open>Reading the wire format\<close>

lemma xdr_at_read: "xdr_ok b \<Longrightarrow> xdr_at b bs \<Longrightarrow> length bs \<le> unat (xb_size b) \<Longrightarrow>
  read_mem (xb_mem b) (xb_buf b) (length bs) = Some bs"
  by (auto simp: xdr_at_def read_mem_def xdr_ok_def)

lemma xdr_at_append: "xdr_at b (xs @ ys) \<Longrightarrow> xdr_at b xs \<and> xdr_at (xdr_skip b (length xs)) ys"
proof -
  assume a: "xdr_at b (xs @ ys)"
  let ?m = "drop (xb_buf b) (xb_mem b)"
  have "take (length xs) (take (length xs + length ys) ?m) = take (length xs) (xs @ ys)"
    "drop (length xs) (take (length xs + length ys) ?m) = drop (length xs) (xs @ ys)"
    using a by (simp_all add: xdr_at_def)
  then show ?thesis
    by (simp add: xdr_at_def xdr_skip_def drop_take add.commute)
qed

lemma unpack_uint32_wire:
  assumes "xdr_ok b" "xdr_at b (le32 v)" "4 \<le> unat (xb_size b)"
  shows "bcm_xdr_unpack_uint32 b p = Some (0, xdr_skip b 4, v)"
proof -
  have "read_mem (xb_mem b) (xb_buf b) 4 = Some (le32 v)"
    using xdr_at_read [of b "le32 v"] assms by simp
  then show ?thesis
    using assms(3)
    by (simp add: bcm_xdr_unpack_uint32_def word_less_nat_alt xdr_advance_skip)
       (simp add: le32_def)
qed

lemma unpack_opaque_eq:
  "bcm_xdr_unpack_opaque b len p =
     (if 4294967292 < unat len then (0, b, xb_buf b)
      else if unat (xb_size b) < unat len + xdr_pad (unat len) then (- 1, b, p)
      else (0, xdr_skip b (unat len + xdr_pad (unat len)), xb_buf b))"
  by (auto simp: bcm_xdr_unpack_opaque_def Let_def word_less_nat_alt unat_tot_len
      xdr_advance_skip) (simp add: xdr_skip_def)

lemma unpack_opaque_cpy_wire:
  assumes "xdr_ok b" "xdr_at b (xdr_padded bs)" "length (xdr_padded bs) \<le> unat (xb_size b)"
    "unat len = length bs" "length bs \<le> 4294967292" "length data = length bs"
  shows "bcm_xdr_unpack_opaque_cpy b len data = Some (0, xdr_skip b (length (xdr_padded bs)), bs)"
proof -
  have "xdr_at b bs" using xdr_at_append assms(2) by (simp add: xdr_padded_def)
  then have "read_mem (xb_mem b) (xb_buf b) (length bs) = Some bs"
    using xdr_at_read assms(1,3) by (simp add: xdr_padded_def)
  then show ?thesis
    using assms
    by (simp add: bcm_xdr_unpack_opaque_cpy_def unpack_opaque_eq xdr_padded_def xdr_skip_def
        write_mem_def)
qed

subsection \<open>The codec contract\<close>

text \<open>
  What every pair of pack and unpack operations promises: packing a valid value either fails
  and leaves the buffer alone, or appends exactly its wire form; unpacking at a wire form
  consumes exactly it and returns the value.
\<close>

locale xdr_codec =
  fixes pack :: "bcm_xdr_buf \<Rightarrow> 'a \<Rightarrow> (int \<times> bcm_xdr_buf) option"
    and unpack :: "bcm_xdr_buf \<Rightarrow> (int \<times> bcm_xdr_buf \<times> 'a) option"
    and enc :: "'a \<Rightarrow> uint8 list"
    and valid :: "'a \<Rightarrow> bool"
  assumes pack_wire: "xdr_ok b \<Longrightarrow> valid v \<Longrightarrow> pack b v = Some (xdr_emit b (enc v))"
    and unpack_wire: "xdr_ok b \<Longrightarrow> valid v \<Longrightarrow> xdr_at b (enc v) \<Longrightarrow>
      length (enc v) \<le> unat (xb_size b) \<Longrightarrow> unpack b = Some (0, xdr_skip b (length (enc v)), v)"
begin

lemma pack_ok: "xdr_ok b \<Longrightarrow> valid v \<Longrightarrow> pack b v = Some (e, b') \<Longrightarrow> xdr_ok b'"
  using xdr_emit_ok [of b "enc v"] by (simp add: pack_wire)

lemma pack_fails: "xdr_ok b \<Longrightarrow> valid v \<Longrightarrow> pack b v = Some (e, b') \<Longrightarrow> e \<noteq> 0 \<Longrightarrow> b' = b"
  by (simp add: pack_wire xdr_emit_def split: if_splits)

lemma pack_succeeds:
  "xdr_ok b \<Longrightarrow> valid v \<Longrightarrow> pack b v = Some (0, b') \<Longrightarrow>
   length (enc v) \<le> unat (xb_size b) \<and> b' = xdr_put b (enc v)"
  by (simp add: pack_wire xdr_emit_def split: if_splits)

lemma unpack_then:
  "xdr_ok b \<Longrightarrow> valid v \<Longrightarrow> xdr_at b (enc v @ rest) \<Longrightarrow> length (enc v @ rest) \<le> unat (xb_size b) \<Longrightarrow>
   unpack b = Some (0, xdr_skip b (length (enc v)), v) \<and> xdr_ok (xdr_skip b (length (enc v))) \<and>
   xdr_at (xdr_skip b (length (enc v))) rest \<and>
   length rest \<le> unat (xb_size (xdr_skip b (length (enc v))))"
  using xdr_at_append [of b "enc v" rest]
  by (simp add: unpack_wire xdr_skip_ok) (simp add: xdr_skip_def unat_sub_le)

end

text \<open>How a caller reads opaque data: unpack the pointer, then the bytes behind it.\<close>

definition xdr_get_opaque ::
  "bcm_xdr_buf \<Rightarrow> uint32 \<Rightarrow> (int \<times> bcm_xdr_buf \<times> uint8 list) option" where
  "xdr_get_opaque b len =
     (case bcm_xdr_unpack_opaque b len 0 of (err, b', p) \<Rightarrow>
        if err \<noteq> 0 then Some (err, b', [])
        else map_option (\<lambda>bs. (0, b', bs)) (read_mem (xb_mem b') p (unat len)))"

definition xdr_get_varlen :: "bcm_xdr_buf \<Rightarrow> (int \<times> bcm_xdr_buf \<times> uint8 list) option" where
  "xdr_get_varlen b =
     do { (err, b', len, p) \<leftarrow> bcm_xdr_unpack_opaque_varlen b 0 0;
          if err \<noteq> 0 then Some (err, b', [])
          else map_option (\<lambda>bs. (0, b', bs)) (read_mem (xb_mem b') p (unat len)) }"

lemma get_opaque_wire:
  assumes "xdr_ok b" "xdr_at b (xdr_padded bs)" "length (xdr_padded bs) \<le> unat (xb_size b)"
    "unat len = length bs" "length bs \<le> 4294967292"
  shows "xdr_get_opaque b len = Some (0, xdr_skip b (length (xdr_padded bs)), bs)"
proof -
  have "xdr_at b bs" using xdr_at_append assms(2) by (simp add: xdr_padded_def)
  then have "read_mem (xb_mem b) (xb_buf b) (length bs) = Some bs"
    using xdr_at_read assms(1,3) by (simp add: xdr_padded_def)
  then show ?thesis
    using assms by (simp add: xdr_get_opaque_def unpack_opaque_eq xdr_padded_def xdr_skip_def)
qed

interpretation u32: xdr_codec bcm_xdr_pack_uint32 "\<lambda>b. bcm_xdr_unpack_uint32 b p" le32 "\<lambda>_. True"
  for p
  by unfold_locales (simp_all add: pack_uint32_wire unpack_uint32_wire)

lemma ucast_scast8: "(ucast (scast (w :: 8 word) :: 32 word) :: 8 word) = w"
  by (rule bit_word_eqI) (simp add: bit_simps)

interpretation i8: xdr_codec bcm_xdr_pack_int8 bcm_xdr_unpack_int8 "\<lambda>w. le32 (scast w)"
  "\<lambda>_. True"
  by unfold_locales (simp_all add: bcm_xdr_pack_int8_def bcm_xdr_unpack_int8_def
      pack_uint32_wire unpack_uint32_wire ucast_scast8)

interpretation opaque: xdr_codec "\<lambda>b bs. bcm_xdr_pack_opaque b len bs" "\<lambda>b. xdr_get_opaque b len"
  xdr_padded "\<lambda>bs. length bs = unat len \<and> unat len \<le> 4294967292"
  for len
  by unfold_locales (simp_all add: pack_opaque_wire get_opaque_wire)

interpretation opaque_cpy: xdr_codec "\<lambda>b bs. bcm_xdr_pack_uint8_vec b bs len"
  "\<lambda>b. bcm_xdr_unpack_uint8_vec b (replicate (unat len) 0) len"
  xdr_padded "\<lambda>bs. length bs = unat len \<and> unat len \<le> 4294967292"
  for len
  by unfold_locales (simp_all add: bcm_xdr_pack_uint8_vec_def bcm_xdr_unpack_uint8_vec_def
      pack_opaque_wire unpack_opaque_cpy_wire)

lemma le32_at:
  "xdr_at b (le32 (word_of_nat (length bs)) @ xs) \<Longrightarrow> xdr_ok b \<Longrightarrow>
   length (le32 (word_of_nat (length bs)) @ xs) \<le> unat (xb_size b) \<Longrightarrow>
   bcm_xdr_unpack_uint32 b p = Some (0, xdr_skip b 4, word_of_nat (length bs)) \<and>
   xdr_ok (xdr_skip b 4) \<and> xdr_at (xdr_skip b 4) xs \<and> length xs \<le> unat (xb_size (xdr_skip b 4))"
  using u32.unpack_then [of b "word_of_nat (length bs)" xs p] by simp

lemma xdr_skip_sel:
  "xb_mem (xdr_skip b n) = xb_mem b" "xb_buf (xdr_skip b n) = xb_buf b + n"
  by (simp_all add: xdr_skip_def)

lemma xdr_skip_skip: "xdr_skip (xdr_skip b m) n = xdr_skip b (m + n)"
  by (simp add: xdr_skip_def algebra_simps)

definition varlen_enc :: "uint8 list \<Rightarrow> uint8 list" where
  "varlen_enc bs = le32 (word_of_nat (length bs)) @ xdr_padded bs"

lemma xdr_put_put:
  assumes "xdr_ok b" "length (xs @ ys) \<le> unat (xb_size b)"
  shows "xdr_put (xdr_put b xs) ys = xdr_put b (xs @ ys)"
  using assms by (simp add: xdr_put_def xdr_ok_def add.commute add.left_commute diff_diff_eq)

lemma xdr_put_size: "length xs \<le> unat (xb_size b) \<Longrightarrow>
  unat (xb_size (xdr_put b xs)) = unat (xb_size b) - length xs"
  by (simp add: xdr_put_def unat_sub_le)

text \<open>
  A counted datum is not one store: when the count fits and the data does not, the count stays
  in the buffer and the cursor behind it, so it is no instance of the contract.
\<close>

lemma pack_varlen_eq:
  assumes "xdr_ok b" "unat len \<le> length data" "unat len \<le> 4294967292"
  shows "bcm_xdr_pack_opaque_varlen b len data =
    Some (if unat (xb_size b) < 4 then (- 1, b)
          else xdr_emit (xdr_put b (le32 len)) (xdr_padded (take (unat len) data)))"
  using assms
  by (simp add: bcm_xdr_pack_opaque_varlen_def pack_uint32_wire xdr_emit_def [of b]
      pack_opaque_wire xdr_put_ok)

lemma pack_varlen_succeeds:
  assumes "xdr_ok b" "length bs \<le> 4294967292" "take (length bs) data = bs"
    "bcm_xdr_pack_opaque_varlen b (word_of_nat (length bs)) data = Some (0, b')"
  shows "length (varlen_enc bs) \<le> unat (xb_size b) \<and> b' = xdr_put b (varlen_enc bs)"
proof -
  have u: "unat (word_of_nat (length bs) :: uint32) = length bs"
    using assms(2) by (simp add: unat_of_nat32)
  have "length bs \<le> length data" using arg_cong [OF assms(3), of length] by simp
  then show ?thesis
    using assms u pack_varlen_eq [of b "word_of_nat (length bs)" data]
    by (auto simp: xdr_emit_def varlen_enc_def xdr_put_size xdr_put_put split: if_splits)
qed

lemma get_varlen_wire:
  assumes "xdr_ok b" "length bs \<le> 4294967292" "xdr_at b (varlen_enc bs)"
    "length (varlen_enc bs) \<le> unat (xb_size b)"
  shows "xdr_get_varlen b = Some (0, xdr_skip b (length (varlen_enc bs)), bs)"
proof -
  have u: "unat (word_of_nat (length bs) :: uint32) = length bs"
    using assms(2) by (simp add: unat_of_nat32)
  note l = le32_at [OF assms(3) [unfolded varlen_enc_def] assms(1)
      assms(4) [unfolded varlen_enc_def], of 0]
  have at: "xdr_at (xdr_skip b 4) (xdr_padded bs)" "xdr_ok (xdr_skip b 4)"
    and le: "length (xdr_padded bs) \<le> unat (xb_size (xdr_skip b 4))"
    and u32: "bcm_xdr_unpack_uint32 b 0 = Some (0, xdr_skip b 4, word_of_nat (length bs))"
    by (simp_all only: l)
  have "xdr_at (xdr_skip b 4) bs" using xdr_at_append at(1) by (simp add: xdr_padded_def)
  then have rd: "read_mem (xb_mem b) (xb_buf b + 4) (length bs) = Some bs"
    using xdr_at_read [OF at(2), of bs] le by (simp add: xdr_padded_def xdr_skip_sel)
  have uo: "bcm_xdr_unpack_opaque (xdr_skip b 4) (word_of_nat (length bs)) 0 =
      (0, xdr_skip b (length (varlen_enc bs)), xb_buf b + 4)"
    using le assms(2)
    by (simp add: unpack_opaque_eq u xdr_padded_def varlen_enc_def xdr_skip_skip xdr_skip_sel)
  show ?thesis
    by (simp add: xdr_get_varlen_def bcm_xdr_unpack_opaque_varlen_def u32 uo u rd xdr_skip_sel)
qed

subsection \<open>Messages\<close>

text \<open>A message is a sequence of items; its reader knows the items' types.\<close>

datatype xdr_item =
    XUint32 uint32 | XInt8 "8 word" | XOpaque "uint8 list" | XUint16s "uint16 list"
  | XUint32s "uint32 list" | XVarlen "uint8 list" | XString "uint8 list"

datatype xdr_type =
    TUint32 | TInt8 | TOpaque uint32 | TUint16s uint32 | TUint32s uint32 | TVarlen | TString

fun xdr_type_of :: "xdr_item \<Rightarrow> xdr_type" where
  "xdr_type_of (XUint32 _) = TUint32"
| "xdr_type_of (XInt8 _) = TInt8"
| "xdr_type_of (XOpaque bs) = TOpaque (word_of_nat (length bs))"
| "xdr_type_of (XUint16s ws) = TUint16s (word_of_nat (2 * length ws))"
| "xdr_type_of (XUint32s ws) = TUint32s (word_of_nat (4 * length ws))"
| "xdr_type_of (XVarlen _) = TVarlen"
| "xdr_type_of (XString _) = TString"

text \<open>Lengths whose padded form fits 32 bits; a C string has no zero byte before its end.\<close>

fun xdr_item_ok :: "xdr_item \<Rightarrow> bool" where
  "xdr_item_ok (XOpaque bs) = (length bs \<le> 4294967292)"
| "xdr_item_ok (XUint16s ws) = (2 * length ws \<le> 4294967292)"
| "xdr_item_ok (XUint32s ws) = (4 * length ws \<le> 4294967292)"
| "xdr_item_ok (XVarlen bs) = (length bs \<le> 4294967292)"
| "xdr_item_ok (XString bs) = (length bs \<le> 4294967292 \<and> 0 \<notin> set bs)"
| "xdr_item_ok _ = True"

fun xdr_pack_item :: "bcm_xdr_buf \<Rightarrow> xdr_item \<Rightarrow> (int \<times> bcm_xdr_buf) option" where
  "xdr_pack_item b (XUint32 w) = bcm_xdr_pack_uint32 b w"
| "xdr_pack_item b (XInt8 w) = bcm_xdr_pack_int8 b w"
| "xdr_pack_item b (XOpaque bs) = bcm_xdr_pack_opaque b (word_of_nat (length bs)) bs"
| "xdr_pack_item b (XUint16s ws) = bcm_xdr_pack_uint16_vec b (word_of_nat (2 * length ws)) ws"
| "xdr_pack_item b (XUint32s ws) = bcm_xdr_pack_uint32_vec b (word_of_nat (4 * length ws)) ws"
| "xdr_pack_item b (XVarlen bs) = bcm_xdr_pack_opaque_varlen b (word_of_nat (length bs)) bs"
| "xdr_pack_item b (XString bs) = bcm_xdr_pack_string b (bs @ [0])"

fun xdr_unpack_item ::
  "xdr_type \<Rightarrow> bcm_xdr_buf \<Rightarrow> (int \<times> bcm_xdr_buf \<times> xdr_item) option" where
  "xdr_unpack_item TUint32 b =
     map_option (map_prod id (map_prod id XUint32)) (bcm_xdr_unpack_uint32 b 0)"
| "xdr_unpack_item TInt8 b =
     map_option (map_prod id (map_prod id XInt8)) (bcm_xdr_unpack_int8 b)"
| "xdr_unpack_item (TOpaque len) b =
     map_option (map_prod id (map_prod id XOpaque))
       (bcm_xdr_unpack_opaque_cpy b len (replicate (unat len) 0))"
| "xdr_unpack_item (TUint16s len) b =
     map_option (map_prod id (map_prod id (XUint16s \<circ> words16)))
       (bcm_xdr_unpack_uint16_vec b len (replicate (unat len) 0))"
| "xdr_unpack_item (TUint32s len) b =
     map_option (map_prod id (map_prod id (XUint32s \<circ> words32)))
       (bcm_xdr_unpack_uint32_vec b len (replicate (unat len) 0))"
| "xdr_unpack_item TVarlen b = map_option (map_prod id (map_prod id XVarlen)) (xdr_get_varlen b)"
| "xdr_unpack_item TString b = map_option (map_prod id (map_prod id XString)) (xdr_get_varlen b)"

fun xdr_item_enc :: "xdr_item \<Rightarrow> uint8 list" where
  "xdr_item_enc (XUint32 w) = le32 w"
| "xdr_item_enc (XInt8 w) = le32 (scast w)"
| "xdr_item_enc (XOpaque bs) = xdr_padded bs"
| "xdr_item_enc (XUint16s ws) = xdr_padded (concat (map le16 ws))"
| "xdr_item_enc (XUint32s ws) = concat (map le32 ws)"
| "xdr_item_enc (XVarlen bs) = varlen_enc bs"
| "xdr_item_enc (XString bs) = varlen_enc bs"

fun xdr_pack_msg :: "bcm_xdr_buf \<Rightarrow> xdr_item list \<Rightarrow> (int \<times> bcm_xdr_buf) option" where
  "xdr_pack_msg b [] = Some (0, b)"
| "xdr_pack_msg b (x # xs) =
     do { (err, b') \<leftarrow> xdr_pack_item b x;
          if err \<noteq> 0 then Some (err, b') else xdr_pack_msg b' xs }"

fun xdr_unpack_msg ::
  "xdr_type list \<Rightarrow> bcm_xdr_buf \<Rightarrow> (int \<times> bcm_xdr_buf \<times> xdr_item list) option" where
  "xdr_unpack_msg [] b = Some (0, b, [])"
| "xdr_unpack_msg (t # ts) b =
     do { (err, b, x) \<leftarrow> xdr_unpack_item t b;
          if err \<noteq> 0 then Some (err, b, [])
          else do { (err, b, xs) \<leftarrow> xdr_unpack_msg ts b; Some (err, b, x # xs) } }"

lemma c_strlen_string: "0 \<notin> set bs \<Longrightarrow> c_strlen (bs @ [0]) = Some (length bs)"
proof -
  assume "0 \<notin> set bs"
  then have "\<forall>c \<in> set bs. c \<noteq> 0" by auto
  then have "takeWhile (\<lambda>c. c \<noteq> 0) (bs @ [0]) = bs" by (subst takeWhile_append2) auto
  then show ?thesis by (simp add: c_strlen_def)
qed

lemma xdr_pad_mult4 [simp]: "xdr_pad (4 * n) = 0"
  by (simp add: xdr_pad_def)

lemma xdr_item_pack_succeeds:
  assumes "xdr_ok b" "xdr_item_ok x" "xdr_pack_item b x = Some (0, b')"
  shows "length (xdr_item_enc x) \<le> unat (xb_size b) \<and> b' = xdr_put b (xdr_item_enc x)"
proof (cases x)
  case (XUint32 w)
  then show ?thesis using u32.pack_succeeds [of b w b'] assms by simp
next
  case (XInt8 w)
  then show ?thesis using i8.pack_succeeds [of b w b'] assms by simp
next
  case (XOpaque bs)
  then show ?thesis
    using opaque.pack_succeeds [of b bs "word_of_nat (length bs)" b'] assms
    by (simp add: unat_of_nat32)
next
  case (XUint16s ws)
  then have "unat (word_of_nat (2 * length ws) :: uint32) = 2 * length ws"
    using assms(2) by (intro unat_of_nat32) simp
  then show ?thesis
    using XUint16s assms pack_uint16_vec_wire [of b "word_of_nat (2 * length ws)" ws]
    by (simp add: xdr_emit_def split: if_splits)
next
  case (XUint32s ws)
  then have "unat (word_of_nat (4 * length ws) :: uint32) = 4 * length ws"
    using assms(2) by (intro unat_of_nat32) simp
  then show ?thesis
    using XUint32s assms pack_uint32_vec_wire [of b "word_of_nat (4 * length ws)" ws]
    by (simp add: xdr_emit_def split: if_splits)
next
  case (XVarlen bs)
  then show ?thesis using pack_varlen_succeeds [of b bs bs b'] assms by simp
next
  case (XString bs)
  then show ?thesis
    using pack_varlen_succeeds [of b bs "bs @ [0]" b'] assms
    by (simp add: bcm_xdr_pack_string_def c_strlen_string)
qed

lemma unpack_uint16_vec_wire:
  assumes "xdr_ok b" "xdr_at b (xdr_padded (concat (map le16 ws)))"
    "length (xdr_padded (concat (map le16 ws))) \<le> unat (xb_size b)"
    "unat len = 2 * length ws" "2 * length ws \<le> 4294967292" "length data = 2 * length ws"
  shows "bcm_xdr_unpack_uint16_vec b len data =
    Some (0, xdr_skip b (length (xdr_padded (concat (map le16 ws)))), concat (map le16 ws))"
  using unpack_opaque_cpy_wire [OF assms(1-3), of len data] assms(4-6)
  by (simp add: bcm_xdr_unpack_uint16_vec_def read_mem_def write_mem_def)

lemma unpack_uint32_vec_wire:
  assumes "xdr_ok b" "xdr_at b (concat (map le32 ws))"
    "length (concat (map le32 ws)) \<le> unat (xb_size b)"
    "unat len = 4 * length ws" "4 * length ws \<le> 4294967292" "length data = 4 * length ws"
  shows "bcm_xdr_unpack_uint32_vec b len data =
    Some (0, xdr_skip b (4 * length ws), concat (map le32 ws))"
  using unpack_opaque_cpy_wire [of b "concat (map le32 ws)" len data] assms
  by (simp add: bcm_xdr_unpack_uint32_vec_def read_mem_def write_mem_def xdr_padded_def)

lemma xdr_item_unpack:
  assumes "xdr_ok b" "xdr_item_ok x" "xdr_at b (xdr_item_enc x)"
    "length (xdr_item_enc x) \<le> unat (xb_size b)"
  shows "xdr_unpack_item (xdr_type_of x) b = Some (0, xdr_skip b (length (xdr_item_enc x)), x)"
proof (cases x)
  case (XUint32 w)
  then show ?thesis using unpack_uint32_wire [of b w 0] assms by simp
next
  case (XInt8 w)
  then show ?thesis using i8.unpack_wire [of b w] assms by simp
next
  case (XOpaque bs)
  then show ?thesis
    using unpack_opaque_cpy_wire [of b bs "word_of_nat (length bs)" "replicate (length bs) 0"] assms
    by (simp add: unat_of_nat32)
next
  case (XUint16s ws)
  then have "unat (word_of_nat (2 * length ws) :: uint32) = 2 * length ws"
    using assms(2) by (intro unat_of_nat32) simp
  then show ?thesis
    using XUint16s assms unpack_uint16_vec_wire [of b ws "word_of_nat (2 * length ws)"]
    by simp
next
  case (XUint32s ws)
  then have "unat (word_of_nat (4 * length ws) :: uint32) = 4 * length ws"
    using assms(2) by (intro unat_of_nat32) simp
  then show ?thesis
    using XUint32s assms unpack_uint32_vec_wire [of b ws "word_of_nat (4 * length ws)"]
    by simp
next
  case (XVarlen bs)
  then show ?thesis using get_varlen_wire [of b bs] assms by simp
next
  case (XString bs)
  then show ?thesis using get_varlen_wire [of b bs] assms by simp
qed

lemma xdr_put_nil [simp]: "xdr_put b [] = b"
  by (simp add: xdr_put_def)

lemma xdr_skip_0 [simp]: "xdr_skip b 0 = b"
  by (simp add: xdr_skip_def)

abbreviation xdr_msg_enc :: "xdr_item list \<Rightarrow> uint8 list" where
  "xdr_msg_enc xs \<equiv> concat (map xdr_item_enc xs)"

lemma xdr_msg_pack_succeeds:
  assumes "xdr_ok b" "list_all xdr_item_ok xs" "xdr_pack_msg b xs = Some (0, b')"
  shows "length (xdr_msg_enc xs) \<le> unat (xb_size b) \<and> b' = xdr_put b (xdr_msg_enc xs)"
  using assms
proof (induction xs arbitrary: b)
  case Nil
  then show ?case by simp
next
  case (Cons x xs)
  then obtain b1 where p: "xdr_pack_item b x = Some (0, b1)" "xdr_pack_msg b1 xs = Some (0, b')"
    by (cases "xdr_pack_item b x") (auto split: if_splits)
  have one: "length (xdr_item_enc x) \<le> unat (xb_size b)" "b1 = xdr_put b (xdr_item_enc x)"
    using xdr_item_pack_succeeds [OF _ _ p(1)] Cons.prems by auto
  then have "xdr_ok b1" using Cons.prems xdr_put_ok by simp
  then have "length (xdr_msg_enc xs) \<le> unat (xb_size b1)" "b' = xdr_put b1 (xdr_msg_enc xs)"
    using Cons.IH [OF _ _ p(2)] Cons.prems by auto
  then show ?case
    using one Cons.prems xdr_put_size [OF one(1)] by (simp add: xdr_put_put)
qed

lemma xdr_msg_unpack:
  assumes "xdr_ok b" "list_all xdr_item_ok xs" "xdr_at b (xdr_msg_enc xs)"
    "length (xdr_msg_enc xs) \<le> unat (xb_size b)"
  shows "xdr_unpack_msg (map xdr_type_of xs) b = Some (0, xdr_skip b (length (xdr_msg_enc xs)), xs)"
  using assms
proof (induction xs arbitrary: b)
  case Nil
  then show ?case by simp
next
  case (Cons x xs)
  let ?n = "length (xdr_item_enc x)"
  have at: "xdr_at b (xdr_item_enc x)" "xdr_at (xdr_skip b ?n) (xdr_msg_enc xs)"
    using xdr_at_append Cons.prems(3) by simp_all
  have le: "?n \<le> unat (xb_size b)" using Cons.prems(4) by simp
  have "length (xdr_msg_enc xs) \<le> unat (xb_size (xdr_skip b ?n))"
    using Cons.prems(4) by (simp add: xdr_skip_def unat_sub_le)
  then have "xdr_unpack_msg (map xdr_type_of xs) (xdr_skip b ?n)
      = Some (0, xdr_skip (xdr_skip b ?n) (length (xdr_msg_enc xs)), xs)"
    using Cons.IH [OF xdr_skip_ok [OF Cons.prems(1) le] _ at(2)] Cons.prems(2) by simp
  then show ?case
    using xdr_item_unpack [OF Cons.prems(1) _ at(1) le] Cons.prems(2)
    by (simp add: xdr_skip_skip)
qed

lemma xdr_emit_total:
  "xdr_ok b \<Longrightarrow> \<exists>e b'. xdr_emit b bs = (e, b') \<and> xdr_ok b'"
  using xdr_emit_ok [of b bs] by (cases "xdr_emit b bs") auto

lemma pack_varlen_total:
  assumes "xdr_ok b" "length bs \<le> 4294967292" "take (length bs) data = bs"
  shows "\<exists>e b'. bcm_xdr_pack_opaque_varlen b (word_of_nat (length bs)) data = Some (e, b') \<and>
    xdr_ok b'"
proof -
  have u: "unat (word_of_nat (length bs) :: uint32) = length bs"
    using assms(2) by (simp add: unat_of_nat32)
  have "length bs \<le> length data" using arg_cong [OF assms(3), of length] by simp
  then show ?thesis
    using assms u xdr_put_ok [of b "le32 (word_of_nat (length bs))"]
      xdr_emit_total [of "xdr_put b (le32 (word_of_nat (length bs)))" "xdr_padded bs"]
    by (auto simp: pack_varlen_eq)
qed

lemma xdr_item_pack_total:
  assumes "xdr_ok b" "xdr_item_ok x"
  shows "\<exists>e b'. xdr_pack_item b x = Some (e, b') \<and> xdr_ok b'"
proof (cases x)
  case (XUint32 w)
  then show ?thesis using xdr_emit_total [of b] assms by (simp add: pack_uint32_wire)
next
  case (XInt8 w)
  then show ?thesis using xdr_emit_total [of b] assms by (simp add: i8.pack_wire)
next
  case (XOpaque bs)
  then show ?thesis using xdr_emit_total [of b] assms by (simp add: opaque.pack_wire unat_of_nat32)
next
  case (XUint16s ws)
  then have "unat (word_of_nat (2 * length ws) :: uint32) = 2 * length ws"
    using assms(2) by (intro unat_of_nat32) simp
  then show ?thesis
    using XUint16s assms xdr_emit_total [of b] by (simp add: pack_uint16_vec_wire)
next
  case (XUint32s ws)
  then have "unat (word_of_nat (4 * length ws) :: uint32) = 4 * length ws"
    using assms(2) by (intro unat_of_nat32) simp
  then show ?thesis
    using XUint32s assms xdr_emit_total [of b] by (simp add: pack_uint32_vec_wire)
next
  case (XVarlen bs)
  then show ?thesis using pack_varlen_total [of b bs bs] assms by simp
next
  case (XString bs)
  then show ?thesis
    using pack_varlen_total [of b bs "bs @ [0]"] assms
    by (simp add: bcm_xdr_pack_string_def c_strlen_string)
qed

lemma xdr_put_window:
  assumes "xdr_ok b" "length bs \<le> unat (xb_size b)" "b' = xdr_put b bs"
  shows "xdr_at (b\<lparr>xb_mem := xb_mem b'\<rparr>) bs" "xdr_ok (b\<lparr>xb_mem := xb_mem b'\<rparr>)"
    "xdr_skip (b\<lparr>xb_mem := xb_mem b'\<rparr>) (length bs) = b'"
  using assms by (auto simp: xdr_at_def xdr_ok_def xdr_put_def xdr_skip_def)

subsection \<open>Properties\<close>

text \<open>
  C22: Marshalling round trip. When packing a sequence of scalars, opaque data, vectors,
  counted data and strings succeeds, unpacking from the position where packing began yields
  exactly the packed items and stops exactly where packing stopped.
\<close>

theorem xdr_message_roundtrip:
  assumes "xdr_ok b" "list_all xdr_item_ok xs" "xdr_pack_msg b xs = Some (0, b')"
  shows "xdr_unpack_msg (map xdr_type_of xs) (b\<lparr>xb_mem := xb_mem b'\<rparr>) = Some (0, b', xs)"
proof -
  note p = xdr_msg_pack_succeeds [OF assms]
  note w = xdr_put_window [OF assms(1) conjunct1 [OF p] conjunct2 [OF p]]
  show ?thesis using xdr_msg_unpack [OF w(2) assms(2) w(1)] w(3) p by simp
qed

theorem xdr_message_roundtrip_witness:
  "\<exists>b'. xdr_unpack_msg [TUint32, TString, TUint16s 2]
     ((bcm_xdr_buf_init (replicate 20 0) 20)\<lparr>xb_mem := xb_mem b'\<rparr>) =
       Some (0, b', [XUint32 7, XString [97, 98], XUint16s [513]])"
proof -
  let ?b = "bcm_xdr_buf_init (replicate 20 0) 20"
    and ?xs = "[XUint32 7, XString [97, 98], XUint16s [513]]"
  define b' where "b' = \<lparr>xb_mem = [7, 0, 0, 0, 2, 0, 0, 0, 97, 98, 0, 0, 1, 2, 0, 0, 0, 0, 0, 0],
    xb_buf = 16, xb_size = 4, xb_origsize = 20\<rparr>"
  have p: "xdr_pack_msg ?b ?xs = Some (0, b')" unfolding b'_def by code_simp
  have ok: "xdr_ok ?b" "list_all xdr_item_ok ?xs" by code_simp+
  have t: "map xdr_type_of ?xs = [TUint32, TString, TUint16s 2]" by code_simp
  show ?thesis using xdr_message_roundtrip [OF ok p] unfolding t by (rule exI [of _ b'])
qed

text \<open>
  Packing is memory safe and total. On a well formed buffer, packing any sequence of items
  of representable length returns (an error or success) without touching memory outside the
  buffer or the item, and leaves a well formed buffer.
\<close>

lemma xdr_pack_safe:
  assumes "xdr_ok b" "list_all xdr_item_ok xs"
  shows "\<exists>e b'. xdr_pack_msg b xs = Some (e, b') \<and> xdr_ok b'"
  using assms
proof (induction xs arbitrary: b)
  case (Cons x xs)
  then obtain e b1 where p: "xdr_pack_item b x = Some (e, b1)" "xdr_ok b1"
    using xdr_item_pack_total [of b x] by auto
  then show ?case using Cons by (cases "e = 0") auto
qed simp

lemma xdr_pack_safe_witness:
  "\<exists>e b'. xdr_pack_msg (bcm_xdr_buf_init (replicate 6 0) 6) [XInt8 1, XOpaque [1, 2, 3]]
    = Some (e, b') \<and> xdr_ok b'"
  by (rule xdr_pack_safe) code_simp+

text \<open>
  The size check of \<open>bcm_xdr_unpack_opaque\<close>: it accepts a length exactly when the padded
  datum fits the bytes left, or when the padded length wraps to 0 in 32 bits; in the second
  case nothing is consumed although the caller is told that \<open>len\<close> bytes follow.
\<close>

lemma xdr_unpack_opaque_accepts:
  "bcm_xdr_unpack_opaque b len p =
     (if unat len + xdr_pad (unat len) \<le> unat (xb_size b)
      then (0, b\<lparr>xb_buf := xb_buf b + (unat len + xdr_pad (unat len)),
                 xb_size := xb_size b - word_of_nat (unat len + xdr_pad (unat len))\<rparr>, xb_buf b)
      else if unat len \<in> {4294967293, 4294967294, 4294967295} then (0, b, xb_buf b)
      else (- 1, b, p))"
proof -
  have "unat len < 4294967296" "unat (xb_size b) < 4294967296" by (rule unat32_less)+
  moreover have "4294967296 \<le> unat len + xdr_pad (unat len)" if "4294967292 < unat len"
    using that unat32_less [of len] unfolding xdr_pad_sum by auto
  ultimately show ?thesis by (auto simp: unpack_opaque_eq xdr_skip_def)
qed

end
