(* ===== verification/Pktq.thy ===== *)
theory Pktq
  imports Prelude "HOL-Library.Monad_Syntax"
begin

text \<open>
  The multiple precedence packet queue of \<^verbatim>\<open>shared/bcmutils.c\<close>
  (\<open>pktq_init\<close> to \<open>pktq_mdeq\<close>; the structures are in \<^verbatim>\<open>include/bcmutils.h\<close>). Packets are
  addresses, \<open>None\<close> is the null pointer, and the packets' link fields (\<open>PKTLINK\<close>) are a
  function kept beside the queue structure. The array \<open>q\<close> is a function of the precedence; a
  precedence is below \<open>num_prec\<close>, as the assertions of the code demand. An operation is \<open>None\<close>
  when it follows or writes a link of the null pointer.

  The operations are shown to refine a queue that has one list of packets per precedence.
\<close>

subsection \<open>The structures\<close>

type_synonym pkt = nat

record pktq_prec =
  q_head :: "pkt option"
  q_tail :: "pkt option"
  q_len :: uint16
  q_max :: uint16
  q_threshold :: uint16

record pktq =
  pq_num_prec :: uint16
  pq_hi_prec :: uint16
  pq_max :: uint16
  pq_threshold :: uint16
  pq_len :: uint16
  pq_q :: "nat \<Rightarrow> pktq_prec"
  pq_link :: "pkt \<Rightarrow> pkt option"

definition PKTSETLINK :: "pkt option \<Rightarrow> pkt option \<Rightarrow> pktq \<Rightarrow> pktq option" where
  "PKTSETLINK p x pq =
     (case p of None \<Rightarrow> None | Some a \<Rightarrow> Some (pq\<lparr>pq_link := (pq_link pq)(a := x)\<rparr>))"

definition upd_q :: "nat \<Rightarrow> (pktq_prec \<Rightarrow> pktq_prec) \<Rightarrow> pktq \<Rightarrow> pktq" where
  "upd_q prec f pq = pq\<lparr>pq_q := (pq_q pq)(prec := f (pq_q pq prec))\<rparr>"

subsection \<open>Initialisation\<close>

text \<open>\<open>bzero\<close> clears the header and the requested precedences only.\<close>

definition pktq_init_threshold :: "pktq \<Rightarrow> int \<Rightarrow> int \<Rightarrow> int \<Rightarrow> pktq" where
  "pktq_init_threshold pq num_prec max_len threshold =
     pq\<lparr>pq_num_prec := word_of_int num_prec, pq_hi_prec := 0, pq_max := word_of_int max_len,
        pq_threshold := word_of_int threshold, pq_len := 0,
        pq_q := (\<lambda>prec. if int prec < num_prec
                        then \<lparr>q_head = None, q_tail = None, q_len = 0,
                              q_max = word_of_int max_len, q_threshold = word_of_int threshold\<rparr>
                        else pq_q pq prec)\<rparr>"

definition pktq_init :: "pktq \<Rightarrow> int \<Rightarrow> int \<Rightarrow> pktq" where
  "pktq_init pq num_prec max_len =
     pq\<lparr>pq_num_prec := word_of_int num_prec, pq_hi_prec := 0, pq_max := word_of_int max_len,
        pq_threshold := word_of_int max_len, pq_len := 0,
        pq_q := (\<lambda>prec. if int prec < num_prec
                        then \<lparr>q_head = None, q_tail = None, q_len = 0,
                              q_max = word_of_int max_len, q_threshold = word_of_int max_len\<rparr>
                        else pq_q pq prec)\<rparr>"

subsection \<open>Operations on one precedence\<close>

text \<open>\<open>if (pq->hi_prec < prec) pq->hi_prec = (uint8)prec;\<close>\<close>

definition raise_hi_prec :: "nat \<Rightarrow> pktq \<Rightarrow> pktq" where
  "raise_hi_prec prec pq =
     (if unat (pq_hi_prec pq) < prec
      then pq\<lparr>pq_hi_prec := ucast (word_of_nat prec :: uint8)\<rparr> else pq)"

definition pktq_penq :: "pktq \<Rightarrow> nat \<Rightarrow> pkt \<Rightarrow> pktq option" where
  "pktq_penq pq prec p =
     do { pq \<leftarrow> (if q_head (pq_q pq prec) \<noteq> None
                 then PKTSETLINK (q_tail (pq_q pq prec)) (Some p) pq
                 else Some (upd_q prec (\<lambda>q. q\<lparr>q_head := Some p\<rparr>) pq));
          let pq = upd_q prec (\<lambda>q. q\<lparr>q_tail := Some p, q_len := q_len q + 1\<rparr>) pq;
          let pq = pq\<lparr>pq_len := pq_len pq + 1\<rparr>;
          Some (raise_hi_prec prec pq) }"

definition pktq_penq_head :: "pktq \<Rightarrow> nat \<Rightarrow> pkt \<Rightarrow> pktq option" where
  "pktq_penq_head pq prec p =
     do { let pq = (if q_head (pq_q pq prec) = None
                    then upd_q prec (\<lambda>q. q\<lparr>q_tail := Some p\<rparr>) pq else pq);
          pq \<leftarrow> PKTSETLINK (Some p) (q_head (pq_q pq prec)) pq;
          let pq = upd_q prec (\<lambda>q. q\<lparr>q_head := Some p, q_len := q_len q + 1\<rparr>) pq;
          let pq = pq\<lparr>pq_len := pq_len pq + 1\<rparr>;
          Some (raise_hi_prec prec pq) }"

text \<open>The statements with which \<open>pktq_pdeq\<close>, \<open>pktq_deq\<close> and \<open>pktq_mdeq\<close> take the head \<open>p\<close>.\<close>

definition take_head :: "nat \<Rightarrow> pkt \<Rightarrow> pktq \<Rightarrow> pktq" where
  "take_head prec p pq =
     (let pq = upd_q prec (\<lambda>q. q\<lparr>q_head := pq_link pq p\<rparr>) pq;
          pq = (if q_head (pq_q pq prec) = None
                then upd_q prec (\<lambda>q. q\<lparr>q_tail := None\<rparr>) pq else pq);
          pq = upd_q prec (\<lambda>q. q\<lparr>q_len := q_len q - 1\<rparr>) pq
      in pq\<lparr>pq_len := pq_len pq - 1, pq_link := (pq_link pq)(p := None)\<rparr>)"

definition pktq_pdeq :: "pktq \<Rightarrow> nat \<Rightarrow> pktq \<times> pkt option" where
  "pktq_pdeq pq prec =
     (case q_head (pq_q pq prec) of None \<Rightarrow> (pq, None)
      | Some p \<Rightarrow> (take_head prec p pq, Some p))"

text \<open>\<open>for (prev = NULL; p != q->tail; p = PKTLINK(p)) prev = p;\<close>\<close>

partial_function (option) find_tail ::
  "(pkt \<Rightarrow> pkt option) \<Rightarrow> pkt option \<Rightarrow> pkt option \<Rightarrow> pkt option \<Rightarrow> (pkt option \<times> pkt option) option"
where
  "find_tail link tail prev p =
     (if p = tail then Some (prev, p)
      else case p of None \<Rightarrow> None | Some a \<Rightarrow> find_tail link tail (Some a) (link a))"

declare find_tail.simps [code]

definition take_tail :: "nat \<Rightarrow> pkt option \<Rightarrow> pktq \<Rightarrow> pktq option" where
  "take_tail prec prev pq =
     do { pq \<leftarrow> (if prev \<noteq> None then PKTSETLINK prev None pq
                 else Some (upd_q prec (\<lambda>q. q\<lparr>q_head := None\<rparr>) pq));
          let pq = upd_q prec (\<lambda>q. q\<lparr>q_tail := prev, q_len := q_len q - 1\<rparr>) pq;
          Some (pq\<lparr>pq_len := pq_len pq - 1\<rparr>) }"

definition pktq_pdeq_tail :: "pktq \<Rightarrow> nat \<Rightarrow> (pktq \<times> pkt option) option" where
  "pktq_pdeq_tail pq prec =
     (if q_head (pq_q pq prec) = None then Some (pq, None)
      else do { (prev, p) \<leftarrow> find_tail (pq_link pq) (q_tail (pq_q pq prec)) None
                               (q_head (pq_q pq prec));
                pq \<leftarrow> take_tail prec prev pq;
                Some (pq, p) })"

text \<open>
  The loop of \<open>pktq_pflush\<close> for a filter \<open>fn\<close> (the constant true function when the C pointer
  is null); the third result is the list of packets handed to \<open>PKTFREE\<close>, in order.
\<close>

partial_function (option) pflush_loop ::
  "(pkt \<Rightarrow> bool) \<Rightarrow> nat \<Rightarrow> pktq \<Rightarrow> pkt option \<Rightarrow> pkt option \<Rightarrow> pkt list \<Rightarrow> (pktq \<times> pkt list) option"
where
  "pflush_loop fn prec pq prev p freed =
     (case p of None \<Rightarrow> Some (pq, freed)
      | Some a \<Rightarrow>
        if fn a then
          (let head = (q_head (pq_q pq prec) = Some a) in
           do { pq \<leftarrow> (if head then Some (upd_q prec (\<lambda>q. q\<lparr>q_head := pq_link pq a\<rparr>) pq)
                       else PKTSETLINK prev (pq_link pq a) pq);
                pq \<leftarrow> PKTSETLINK (Some a) None pq;
                let pq = upd_q prec (\<lambda>q. q\<lparr>q_len := q_len q - 1\<rparr>) pq;
                let pq = pq\<lparr>pq_len := pq_len pq - 1\<rparr>;
                p \<leftarrow> (if head then Some (q_head (pq_q pq prec))
                      else map_option (pq_link pq) prev);
                pflush_loop fn prec pq prev p (freed @ [a]) })
        else pflush_loop fn prec pq (Some a) (pq_link pq a) freed)"

declare pflush_loop.simps [code]

definition pktq_pflush :: "pktq \<Rightarrow> nat \<Rightarrow> (pkt \<Rightarrow> bool) option \<Rightarrow> (pktq \<times> pkt list) option" where
  "pktq_pflush pq prec fn =
     do { (pq, freed) \<leftarrow> pflush_loop (case fn of None \<Rightarrow> \<lambda>_. True | Some f \<Rightarrow> f) prec pq None
                            (q_head (pq_q pq prec)) [];
          Some (if q_head (pq_q pq prec) = None
                then upd_q prec (\<lambda>q. q\<lparr>q_tail := None\<rparr>) pq else pq, freed) }"

text \<open>\<open>for (p = q->head; p && PKTLINK(p) != pktbuf; p = PKTLINK(p));\<close>\<close>

partial_function (option) find_prev ::
  "(pkt \<Rightarrow> pkt option) \<Rightarrow> pkt \<Rightarrow> pkt option \<Rightarrow> pkt option option"
where
  "find_prev link pktbuf p =
     (case p of None \<Rightarrow> Some None
      | Some a \<Rightarrow> if link a = Some pktbuf then Some (Some a) else find_prev link pktbuf (link a))"

declare find_prev.simps [code]

definition pktq_pdel :: "pktq \<Rightarrow> pkt option \<Rightarrow> nat \<Rightarrow> (pktq \<times> bool) option" where
  "pktq_pdel pq pktbuf prec =
     (case pktbuf of None \<Rightarrow> Some (pq, False)
      | Some b \<Rightarrow>
        let unlinked = (\<lambda>pq.
          let pq = upd_q prec (\<lambda>q. q\<lparr>q_len := q_len q - 1\<rparr>) pq
          in Some (pq\<lparr>pq_len := pq_len pq - 1, pq_link := (pq_link pq)(b := None)\<rparr>, True))
        in if q_head (pq_q pq prec) = Some b then
             let pq = upd_q prec (\<lambda>q. q\<lparr>q_head := pq_link pq b\<rparr>) pq;
                 pq = (if q_head (pq_q pq prec) = None
                       then upd_q prec (\<lambda>q. q\<lparr>q_tail := None\<rparr>) pq else pq)
             in unlinked pq
           else
             do { p \<leftarrow> find_prev (pq_link pq) b (q_head (pq_q pq prec));
                  case p of None \<Rightarrow> Some (pq, False)
                  | Some a \<Rightarrow>
                    do { pq \<leftarrow> PKTSETLINK (Some a) (pq_link pq b) pq;
                         unlinked (if q_tail (pq_q pq prec) = Some b
                                   then upd_q prec (\<lambda>q. q\<lparr>q_tail := Some a\<rparr>) pq else pq) } })"

subsection \<open>Operations on all precedences\<close>

text \<open>\<open>while ((prec = pq->hi_prec) > 0 && pq->q[prec].head == NULL) pq->hi_prec--;\<close>\<close>

fun lower_hi :: "(nat \<Rightarrow> pktq_prec) \<Rightarrow> nat \<Rightarrow> nat" where
  "lower_hi q 0 = 0"
| "lower_hi q (Suc n) = (if q_head (q (Suc n)) = None then lower_hi q n else Suc n)"

definition set_hi :: "pktq \<Rightarrow> pktq \<times> nat" where
  "set_hi pq = (let prec = lower_hi (pq_q pq) (unat (pq_hi_prec pq))
                in (pq\<lparr>pq_hi_prec := word_of_nat prec\<rparr>, prec))"

text \<open>The results carry the dequeued packet with the precedence stored in \<open>*prec_out\<close>.\<close>

definition pktq_deq :: "pktq \<Rightarrow> pktq \<times> (pkt \<times> nat) option" where
  "pktq_deq pq =
     (if pq_len pq = 0 then (pq, None)
      else let (pq, prec) = set_hi pq in
        case q_head (pq_q pq prec) of None \<Rightarrow> (pq, None)
        | Some p \<Rightarrow> (take_head prec p pq, Some (p, prec)))"

text \<open>\<open>for (prec = 0; prec < pq->hi_prec; prec++) if (pq->q[prec].head) break;\<close>\<close>

definition low_prec :: "pktq \<Rightarrow> nat" where
  "low_prec pq =
     (case find (\<lambda>i. q_head (pq_q pq i) \<noteq> None) [0..<unat (pq_hi_prec pq)] of
        None \<Rightarrow> unat (pq_hi_prec pq) | Some i \<Rightarrow> i)"

definition pktq_deq_tail :: "pktq \<Rightarrow> (pktq \<times> (pkt \<times> nat) option) option" where
  "pktq_deq_tail pq =
     (if pq_len pq = 0 then Some (pq, None)
      else let prec = low_prec pq in
        if q_head (pq_q pq prec) = None then Some (pq, None)
        else do { (prev, p) \<leftarrow> find_tail (pq_link pq) (q_tail (pq_q pq prec)) None
                                 (q_head (pq_q pq prec));
                  pq \<leftarrow> take_tail prec prev pq;
                  pq \<leftarrow> PKTSETLINK p None pq;
                  Some (pq, map_option (\<lambda>a. (a, prec)) p) })"

definition pktq_peek :: "pktq \<Rightarrow> pktq \<times> (pkt option \<times> nat) option" where
  "pktq_peek pq =
     (if pq_len pq = 0 then (pq, None)
      else let (pq, prec) = set_hi pq in (pq, Some (q_head (pq_q pq prec), prec)))"

definition pktq_peek_tail :: "pktq \<Rightarrow> (pkt option \<times> nat) option" where
  "pktq_peek_tail pq =
     (if pq_len pq = 0 then None
      else let prec = low_prec pq in Some (q_tail (pq_q pq prec), prec))"

fun flush_precs ::
  "(pkt \<Rightarrow> bool) option \<Rightarrow> nat list \<Rightarrow> pktq \<Rightarrow> pkt list \<Rightarrow> (pktq \<times> pkt list) option" where
  "flush_precs fn [] pq freed = Some (pq, freed)"
| "flush_precs fn (prec # precs) pq freed =
     do { (pq, fs) \<leftarrow> pktq_pflush pq prec fn;
          flush_precs fn precs pq (freed @ fs) }"

definition pktq_flush :: "pktq \<Rightarrow> (pkt \<Rightarrow> bool) option \<Rightarrow> (pktq \<times> pkt list) option" where
  "pktq_flush pq fn =
     (if pq_len pq = 0 then Some (pq, [])
      else flush_precs fn [0..<unat (pq_num_prec pq)] pq [])"

definition pktq_mlen :: "pktq \<Rightarrow> uint32 \<Rightarrow> int" where
  "pktq_mlen pq prec_bmp =
     sum_list (map (\<lambda>prec. if prec_bmp AND push_bit prec 1 \<noteq> 0 then uint (q_len (pq_q pq prec)) else 0)
       [0..<Suc (unat (pq_hi_prec pq))])"

text \<open>
  \<open>while ((prec_bmp & (1 << prec)) == 0 || pq->q[prec].head == NULL) if (prec-- == 0) return NULL;\<close>
\<close>

fun mprec :: "uint32 \<Rightarrow> (nat \<Rightarrow> pktq_prec) \<Rightarrow> nat \<Rightarrow> nat option" where
  "mprec prec_bmp q 0 =
     (if prec_bmp AND push_bit 0 1 = 0 \<or> q_head (q 0) = None then None else Some 0)"
| "mprec prec_bmp q (Suc n) =
     (if prec_bmp AND push_bit (Suc n) 1 = 0 \<or> q_head (q (Suc n)) = None
      then mprec prec_bmp q n else Some (Suc n))"

definition pktq_mpeek :: "pktq \<Rightarrow> uint32 \<Rightarrow> pktq \<times> (pkt \<times> nat) option" where
  "pktq_mpeek pq prec_bmp =
     (if pq_len pq = 0 then (pq, None)
      else let (pq, prec) = set_hi pq in
        case mprec prec_bmp (pq_q pq) prec of None \<Rightarrow> (pq, None)
        | Some prec \<Rightarrow>
          (case q_head (pq_q pq prec) of None \<Rightarrow> (pq, None) | Some p \<Rightarrow> (pq, Some (p, prec))))"

definition pktq_mdeq :: "pktq \<Rightarrow> uint32 \<Rightarrow> pktq \<times> (pkt \<times> nat) option" where
  "pktq_mdeq pq prec_bmp =
     (if pq_len pq = 0 then (pq, None)
      else let (pq, prec) = set_hi pq in
        case mprec prec_bmp (pq_q pq) prec of None \<Rightarrow> (pq, None)
        | Some prec \<Rightarrow>
          (case q_head (pq_q pq prec) of None \<Rightarrow> (pq, None)
           | Some p \<Rightarrow> (take_head prec p pq, Some (p, prec))))"

subsection \<open>The abstract queue and the refinement relation\<close>

text \<open>
  \<open>pq_rel pq A\<close>: the queue structure represents the lists \<open>A\<close>, one per precedence. It says
  that head, tail and length of every precedence agree with the chain of links, that the
  chains are disjoint, that a packet in no chain has a null link, that the total length is
  right, and that \<open>hi_prec\<close> is at least the highest non-empty precedence.
\<close>

definition prec_rel :: "(pkt \<Rightarrow> pkt option) \<Rightarrow> pktq_prec \<Rightarrow> pkt list \<Rightarrow> bool" where
  "prec_rel link q xs \<longleftrightarrow>
     lseg link (q_head q) xs None \<and> q_tail q = (if xs = [] then None else Some (last xs)) \<and>
     q_len q = word_of_nat (length xs)"

abbreviation nprec :: "pktq \<Rightarrow> nat" where
  "nprec pq \<equiv> unat (pq_num_prec pq)"

definition total :: "nat \<Rightarrow> (nat \<Rightarrow> pkt list) \<Rightarrow> nat" where
  "total n A = (\<Sum>i<n. length (A i))"

definition lists_ok :: "nat \<Rightarrow> (nat \<Rightarrow> pkt list) \<Rightarrow> bool" where
  "lists_ok n A \<longleftrightarrow>
     (\<forall>i \<ge> n. A i = []) \<and> (\<forall>i. distinct (A i)) \<and>
     (\<forall>i j. i \<noteq> j \<longrightarrow> set (A i) \<inter> set (A j) = {}) \<and> total n A < 65536"

definition pq_rel :: "pktq \<Rightarrow> (nat \<Rightarrow> pkt list) \<Rightarrow> bool" where
  "pq_rel pq A \<longleftrightarrow>
     (\<forall>i < nprec pq. prec_rel (pq_link pq) (pq_q pq i) (A i)) \<and>
     lists_ok (nprec pq) A \<and>
     (\<forall>p. (\<forall>i. p \<notin> set (A i)) \<longrightarrow> pq_link pq p = None) \<and>
     pq_len pq = word_of_nat (total (nprec pq) A) \<and>
     (\<forall>i. A i \<noteq> [] \<longrightarrow> i \<le> unat (pq_hi_prec pq)) \<and>
     unat (pq_hi_prec pq) < nprec pq \<and> nprec pq \<le> 16"

lemma prec_rel_cong:
  "(\<And>x. x \<in> set xs \<Longrightarrow> f x = g x) \<Longrightarrow> prec_rel f q xs = prec_rel g q xs"
  unfolding prec_rel_def using lseg_cong [of xs f g] by simp

lemma prec_rel_Nil: "prec_rel link q [] \<longleftrightarrow> q_head q = None \<and> q_tail q = None \<and> q_len q = 0"
  by (auto simp: prec_rel_def)

lemma prec_rel_head: "prec_rel link q xs \<Longrightarrow> q_head q = (case xs of [] \<Rightarrow> None | x # _ \<Rightarrow> Some x)"
  unfolding prec_rel_def using lseg_head by blast

lemma total_upd: "i < n \<Longrightarrow> total n (A(i := ys)) + length (A i) = total n A + length ys"
proof -
  assume "i < n"
  then have "{..<n} = insert i ({..<n} - {i})" by auto
  moreover have "(\<Sum>j\<in>{..<n} - {i}. length ((A(i := ys)) j)) = (\<Sum>j\<in>{..<n} - {i}. length (A j))"
    by (rule sum.cong) auto
  ultimately show ?thesis
    unfolding total_def
    by (simp add: sum.remove [of _ i] \<open>i < n\<close>)
qed

lemma total_0: "total n A = 0 \<longleftrightarrow> (\<forall>i < n. A i = [])"
  by (auto simp: total_def)

text \<open>
  One precedence changes from \<open>A i\<close> to \<open>ys\<close>: what an operation has to establish for the
  relation to hold again.
\<close>

lemma pq_rel_update:
  assumes "pq_rel pq A" "i < nprec pq" and q: "prec_rel (pq_link pq') (pq_q pq' i) ys"
    and others: "\<And>j. j \<noteq> i \<Longrightarrow> pq_q pq' j = pq_q pq j"
    and link: "\<And>a. a \<notin> set (A i) \<Longrightarrow> a \<notin> set ys \<Longrightarrow> pq_link pq' a = pq_link pq a"
    and freed: "\<And>a. a \<in> set (A i) \<Longrightarrow> a \<notin> set ys \<Longrightarrow> pq_link pq' a = None"
    and ys: "distinct ys" "\<And>j. j \<noteq> i \<Longrightarrow> set ys \<inter> set (A j) = {}"
    and len: "pq_len pq' + word_of_nat (length (A i)) = pq_len pq + word_of_nat (length ys)"
    and small: "total (nprec pq) A + length ys < 65536 + length (A i)"
    and frame: "pq_num_prec pq' = pq_num_prec pq"
    and hi: "unat (pq_hi_prec pq) \<le> unat (pq_hi_prec pq')" "unat (pq_hi_prec pq') < nprec pq"
      "ys \<noteq> [] \<Longrightarrow> i \<le> unat (pq_hi_prec pq')"
  shows "pq_rel pq' (A(i := ys))"
proof -
  note r = assms(1) [unfolded pq_rel_def lists_ok_def]
  have t: "total (nprec pq) (A(i := ys)) + length (A i) = total (nprec pq) A + length ys"
    by (rule total_upd [OF assms(2)])
  have "word_of_nat (total (nprec pq) (A(i := ys))) + word_of_nat (length (A i)) =
      (word_of_nat (total (nprec pq) A) + word_of_nat (length ys) :: uint16)"
    using arg_cong [OF t, of "word_of_nat :: nat \<Rightarrow> uint16"] by simp
  then have "pq_len pq' + word_of_nat (length (A i))
      = word_of_nat (total (nprec pq) (A(i := ys))) + word_of_nat (length (A i))"
    using len r by simp
  then have l: "pq_len pq' = word_of_nat (total (nprec pq) (A(i := ys)))"
    by (simp only: add_right_cancel)
  have d: "set (A j) \<inter> set (A i) = {}" "set ys \<inter> set (A j) = {}" if "j \<noteq> i" for j
    using r ys(2) that by blast+
  have p: "prec_rel (pq_link pq') (pq_q pq' j) ((A(i := ys)) j)" if "j < nprec pq" for j
  proof (cases "j = i")
    case False
    have "prec_rel (pq_link pq') (pq_q pq' j) (A j) = prec_rel (pq_link pq) (pq_q pq' j) (A j)"
      by (rule prec_rel_cong) (use d [OF False] link in blast)
    then show ?thesis using False others [OF False] r that by simp
  qed (use q in simp)
  have n: "pq_link pq' a = None" if "\<forall>j. a \<notin> set ((A(i := ys)) j)" for a
  proof (cases "a \<in> set (A i)")
    case True
    then show ?thesis using freed that by (metis fun_upd_same)
  next
    case False
    then have "\<forall>j. a \<notin> set (A j)" "a \<notin> set ys" using that by (metis fun_upd_other fun_upd_same)+
    then show ?thesis using link r by simp
  qed
  have "lists_ok (nprec pq) (A(i := ys))"
    using r ys d t small assms(2) by (auto simp: lists_ok_def) 
  then show ?thesis
    using p n l frame hi r unfolding pq_rel_def
    by (auto simp: le_trans [OF _ hi(1)])
qed

subsection \<open>The operations keep the relation\<close>

abbreviation fresh :: "pkt \<Rightarrow> (nat \<Rightarrow> pkt list) \<Rightarrow> bool" where
  "fresh p A \<equiv> \<forall>i. p \<notin> set (A i)"

lemma raise_hi_prec_sel [simp]:
  "pq_q (raise_hi_prec i pq) = pq_q pq" "pq_link (raise_hi_prec i pq) = pq_link pq"
  "pq_len (raise_hi_prec i pq) = pq_len pq" "pq_num_prec (raise_hi_prec i pq) = pq_num_prec pq"
  by (simp_all add: raise_hi_prec_def)

lemma raise_hi_prec_hi:
  assumes "i < 16"
  shows "unat (pq_hi_prec (raise_hi_prec i pq)) = max (unat (pq_hi_prec pq)) i"
proof -
  have "unat (ucast (word_of_nat i :: uint8) :: uint16) = i"
    using assms by (simp add: unsigned_ucast_eq unat_of_nat take_bit_nat_eq_self)
  then show ?thesis by (simp add: raise_hi_prec_def)
qed

lemma upd_q_sel [simp]:
  "pq_q (upd_q i f pq) = (pq_q pq)(i := f (pq_q pq i))" "pq_link (upd_q i f pq) = pq_link pq"
  "pq_len (upd_q i f pq) = pq_len pq" "pq_num_prec (upd_q i f pq) = pq_num_prec pq"
  "pq_hi_prec (upd_q i f pq) = pq_hi_prec pq" "pq_max (upd_q i f pq) = pq_max pq"
  "pq_threshold (upd_q i f pq) = pq_threshold pq" "pktq.more (upd_q i f pq) = pktq.more pq"
  by (simp_all add: upd_q_def)

lemma pq_relD:
  assumes "pq_rel pq A"
  shows "i < nprec pq \<Longrightarrow> prec_rel (pq_link pq) (pq_q pq i) (A i)" "distinct (A i)"
    "i \<noteq> j \<Longrightarrow> set (A i) \<inter> set (A j) = {}" "nprec pq \<le> i \<Longrightarrow> A i = []"
    "fresh p A \<Longrightarrow> pq_link pq p = None" "A i \<noteq> [] \<Longrightarrow> i \<le> unat (pq_hi_prec pq)"
    "total (nprec pq) A < 65536" "pq_len pq = word_of_nat (total (nprec pq) A)"
    "unat (pq_hi_prec pq) < nprec pq" "nprec pq \<le> 16"
  using assms by (auto simp: pq_rel_def lists_ok_def)

lemma prec_rel_snoc:
  assumes "prec_rel link q xs" "xs \<noteq> []" "distinct xs" "p \<notin> set xs" "link p = None"
  shows "prec_rel (link(last xs := Some p)) (q\<lparr>q_tail := Some p, q_len := q_len q + 1\<rparr>) (xs @ [p])"
proof -
  obtain ys y where xs: "xs = ys @ [y]" using assms(2) by (cases xs rule: rev_cases) auto
  have "lseg (link(y := Some p)) (q_head q) (ys @ [y]) (Some p)"
    using assms by (intro lseg_snoc [of _ _ _ _ None]) (auto simp: prec_rel_def xs)
  then have "lseg (link(y := Some p)) (q_head q) ((ys @ [y]) @ [p]) None"
    using assms(4,5) unfolding lseg_append [of _ _ "ys @ [y]"] by (auto simp: xs)
  then show ?thesis using assms by (simp add: prec_rel_def xs)
qed

lemma penq_rel:
  assumes "pq_rel pq A" "i < nprec pq" "fresh p A" "total (nprec pq) A < 65535"
  shows "\<exists>pq'. pktq_penq pq i p = Some pq' \<and> pq_rel pq' (A(i := A i @ [p]))"
proof -
  note r = pq_relD [OF assms(1)]
  have pr: "prec_rel (pq_link pq) (pq_q pq i) (A i)" and lp: "pq_link pq p = None" "p \<notin> set (A i)"
    using r(1) [OF assms(2)] r(5) assms(3) by auto
  define pq' where "pq' = (raise_hi_prec i (upd_q i (\<lambda>q. q\<lparr>q_head := (if A i = [] then Some p else q_head q),
      q_tail := Some p, q_len := q_len q + 1\<rparr>) (pq\<lparr>pq_len := pq_len pq + 1,
      pq_link := (if A i = [] then pq_link pq else (pq_link pq)(last (A i) := Some p))\<rparr>)))"
  have "pktq_penq pq i p = Some pq'"
    using pr prec_rel_head [OF pr]
    by (cases "A i")
       (auto simp: pktq_penq_def pq'_def PKTSETLINK_def prec_rel_def Let_def
          intro!: arg_cong [of _ _ "raise_hi_prec i"] pktq.equality pktq_prec.equality)
  moreover have "pq_rel pq' (A(i := A i @ [p]))"
  proof (rule pq_rel_update [OF assms(1,2)])
    show "prec_rel (pq_link pq') (pq_q pq' i) (A i @ [p])"
    proof (cases "A i = []")
      case True
      then show ?thesis using pr lp by (simp add: pq'_def prec_rel_def)
    next
      case False
      then show ?thesis using prec_rel_snoc [OF pr False r(2) lp(2,1)] by (simp add: pq'_def)
    qed
  next
    show "unat (pq_hi_prec pq) \<le> unat (pq_hi_prec pq')" "unat (pq_hi_prec pq') < nprec pq"
      "i \<le> unat (pq_hi_prec pq')"
      using raise_hi_prec_hi [of i] assms(2) r(9,10) by (auto simp: pq'_def)
  next
    show "distinct (A i @ [p])" using r(2) lp by simp
    show "set (A i @ [p]) \<inter> set (A j) = {}" if "j \<noteq> i" for j using r(3) [OF that] assms(3) by auto
    show "pq_link pq' a = pq_link pq a" if "a \<notin> set (A i)" "a \<notin> set (A i @ [p])" for a
      using that last_in_set [of "A i"] by (auto simp: pq'_def)
  qed (use assms(4) in \<open>auto simp: pq'_def\<close>)
  ultimately show ?thesis by blast
qed

lemma penq_head_rel:
  assumes "pq_rel pq A" "i < nprec pq" "fresh p A" "total (nprec pq) A < 65535"
  shows "\<exists>pq'. pktq_penq_head pq i p = Some pq' \<and> pq_rel pq' (A(i := p # A i))"
proof -
  note r = pq_relD [OF assms(1)]
  have pr: "prec_rel (pq_link pq) (pq_q pq i) (A i)" and lp: "p \<notin> set (A i)"
    using r(1) [OF assms(2)] assms(3) by auto
  define pq' where "pq' = (raise_hi_prec i (upd_q i (\<lambda>q. q\<lparr>q_head := Some p,
      q_tail := (if A i = [] then Some p else q_tail q), q_len := q_len q + 1\<rparr>)
      (pq\<lparr>pq_len := pq_len pq + 1, pq_link := (pq_link pq)(p := q_head (pq_q pq i))\<rparr>)))"
  have "pktq_penq_head pq i p = Some pq'"
    using prec_rel_head [OF pr]
    by (cases "A i")
       (auto simp: pktq_penq_head_def pq'_def PKTSETLINK_def Let_def
          intro!: arg_cong [of _ _ "raise_hi_prec i"] pktq.equality pktq_prec.equality)
  moreover have "pq_rel pq' (A(i := p # A i))"
  proof (rule pq_rel_update [OF assms(1,2)])
    show "prec_rel (pq_link pq') (pq_q pq' i) (p # A i)"
      using pr lp by (auto simp: pq'_def prec_rel_def)
  next
    show "unat (pq_hi_prec pq) \<le> unat (pq_hi_prec pq')" "unat (pq_hi_prec pq') < nprec pq"
      "i \<le> unat (pq_hi_prec pq')"
      using raise_hi_prec_hi [of i] assms(2) r(9,10) by (auto simp: pq'_def)
  next
    show "distinct (p # A i)" using r(2) lp by simp
    show "set (p # A i) \<inter> set (A j) = {}" if "j \<noteq> i" for j using r(3) [OF that] assms(3) by auto
  qed (use assms(4) in \<open>auto simp: pq'_def\<close>)
  ultimately show ?thesis by blast
qed

lemma take_head_num_prec [simp]: "pq_num_prec (take_head i p pq) = pq_num_prec pq"
  by (simp add: take_head_def Let_def)

lemma take_head_rel:
  assumes "pq_rel pq A" "i < nprec pq" "A i = p # ps"
  shows "q_head (pq_q pq i) = Some p" "pq_rel (take_head i p pq) (A(i := ps))"
proof -
  note r = pq_relD [OF assms(1)]
  have pr: "prec_rel (pq_link pq) (pq_q pq i) (p # ps)" and d: "distinct (p # ps)"
    using r(1) [OF assms(2)] r(2) [of i] assms(3) by auto
  then have ls: "lseg (pq_link pq) (pq_link pq p) ps None" by (simp add: prec_rel_def)
  show "q_head (pq_q pq i) = Some p" using prec_rel_head [OF pr] by simp
  show "pq_rel (take_head i p pq) (A(i := ps))"
  proof (rule pq_rel_update [OF assms(1,2)])
    show "prec_rel (pq_link (take_head i p pq)) (pq_q (take_head i p pq) i) ps"
      using pr d ls lseg_head [OF ls]
      by (cases ps) (auto simp: take_head_def Let_def prec_rel_def)
    show "distinct ps" using d by simp
    show "set ps \<inter> set (A j) = {}" if "j \<noteq> i" for j using r(3) [OF that] assms(3) by auto
    show "total (nprec pq) A + length ps < 65536 + length (A i)" using r(7) assms(3) by simp
    show "ps \<noteq> [] \<Longrightarrow> i \<le> unat (pq_hi_prec (take_head i p pq))"
      using r(6) [of i] assms(3) by (simp add: take_head_def Let_def)
  qed (use assms(3) d r(9) in \<open>auto simp: take_head_def Let_def\<close>)
qed

lemma find_tail_last:
  "lseg link p xs None \<Longrightarrow> xs \<noteq> [] \<Longrightarrow> distinct xs \<Longrightarrow>
   find_tail link (Some (last xs)) prev p =
     Some (if butlast xs = [] then prev else Some (last (butlast xs)), Some (last xs))"
proof (induction xs arbitrary: p prev)
  case (Cons x xs)
  show ?case
  proof (cases "xs = []")
    case True
    then show ?thesis using Cons.prems by (simp add: find_tail.simps)
  next
    case False
    then have "x \<noteq> last xs" using Cons.prems by auto
    then show ?thesis
      using Cons.IH [of "link x" "Some x"] Cons.prems False by (simp add: find_tail.simps [of _ _ prev])
  qed
qed simp

lemma take_tail_rel:
  assumes "pq_rel pq A" "i < nprec pq" "A i = xs @ [p]"
    and prev: "prev = (if xs = [] then None else Some (last xs))"
  shows "find_tail (pq_link pq) (q_tail (pq_q pq i)) None (q_head (pq_q pq i)) = Some (prev, Some p)"
    and "\<exists>pq'. take_tail i prev pq = Some pq' \<and> pq_rel pq' (A(i := xs)) \<and> pq_link pq' p = None"
proof -
  note r = pq_relD [OF assms(1)]
  have pr: "prec_rel (pq_link pq) (pq_q pq i) (xs @ [p])" and d: "distinct (xs @ [p])"
    using r(1) [OF assms(2)] r(2) [of i] assms(3) by auto
  then have ls: "lseg (pq_link pq) (q_head (pq_q pq i)) (xs @ [p]) None" "q_tail (pq_q pq i) = Some p"
    by (simp_all add: prec_rel_def)
  show "find_tail (pq_link pq) (q_tail (pq_q pq i)) None (q_head (pq_q pq i)) = Some (prev, Some p)"
    using find_tail_last [OF ls(1) _ d, of None] ls(2) prev by simp
  define pq' where "pq' = upd_q i (\<lambda>q. q\<lparr>q_head := (if xs = [] then None else q_head q),
      q_tail := prev, q_len := q_len q - 1\<rparr>) (pq\<lparr>pq_len := pq_len pq - 1,
      pq_link := (if xs = [] then pq_link pq else (pq_link pq)(last xs := None))\<rparr>)"
  have "take_tail i prev pq = Some pq'"
    using prev by (auto simp: take_tail_def pq'_def PKTSETLINK_def Let_def
        intro!: pktq.equality pktq_prec.equality)
  moreover have "pq_rel pq' (A(i := xs))"
  proof (rule pq_rel_update [OF assms(1,2)])
    show "prec_rel (pq_link pq') (pq_q pq' i) xs"
    proof (cases xs rule: rev_cases)
      case Nil
      then show ?thesis using pr by (simp add: pq'_def prev prec_rel_def)
    next
      case (snoc ys y)
      then have "lseg (pq_link pq) (q_head (pq_q pq i)) (ys @ [y]) (Some p)"
        using ls by (auto simp: lseg_append)
      then have "lseg ((pq_link pq)(y := None)) (q_head (pq_q pq i)) (ys @ [y]) None"
        by (rule lseg_snoc [rotated]) (use d snoc in auto)
      then show ?thesis using pr snoc by (simp add: pq'_def prev prec_rel_def)
    qed
    show "pq_link pq' a = pq_link pq a" if "a \<notin> set (A i)" "a \<notin> set xs" for a
      using that last_in_set [of xs] by (auto simp: pq'_def)
    show "pq_link pq' a = None" if "a \<in> set (A i)" "a \<notin> set xs" for a
      using that ls(1) assms(3) last_in_set [of xs] by (auto simp: pq'_def lseg_append)
    show "distinct xs" using d by simp
    show "set xs \<inter> set (A j) = {}" if "j \<noteq> i" for j using r(3) [OF that] assms(3) by auto
    show "total (nprec pq) A + length xs < 65536 + length (A i)" using r(7) assms(3) by simp
    show "xs \<noteq> [] \<Longrightarrow> i \<le> unat (pq_hi_prec pq')" using r(6) [of i] assms(3) by (simp add: pq'_def)
  qed (use assms(3) r(9) in \<open>auto simp: pq'_def\<close>)
  moreover have "pq_link pq' p = None"
    using ls(1) d last_in_set [of xs] by (auto simp: pq'_def lseg_append)
  ultimately show "\<exists>pq'. take_tail i prev pq = Some pq' \<and> pq_rel pq' (A(i := xs)) \<and> pq_link pq' p = None"
    by blast
qed

lemma find_prev_hit:
  "lseg link p (xs @ a # b # ys) None \<Longrightarrow> distinct (xs @ a # b # ys) \<Longrightarrow>
   find_prev link b p = Some (Some a)"
  by (induction xs arbitrary: p)
     (simp add: find_prev.simps, subst find_prev.simps, auto simp: neq_Nil_conv lseg_Some
        split: list.splits, case_tac xs, auto)

lemma find_prev_miss:
  "lseg link p xs None \<Longrightarrow> b \<notin> set (tl xs) \<Longrightarrow> find_prev link b p = Some None"
proof (induction xs arbitrary: p)
  case (Cons x xs)
  then have "link x \<noteq> Some b" using lseg_head [of link "link x" xs] by (cases xs) auto
  moreover have "b \<notin> set (tl xs)" using Cons.prems(2) by (cases xs) auto
  ultimately show ?case using Cons by (simp add: find_prev.simps [of link b "Some x"])
qed (simp add: find_prev.simps)

lemma lseg_remove:
  assumes "lseg link p (xs @ a # b # ys) None" "distinct (xs @ a # b # ys)"
  shows "lseg (link(a := link b, b := v)) p (xs @ a # ys) None"
  using assms by (auto simp: lseg_append)

lemma pdel_rel:
  assumes "pq_rel pq A" "i < nprec pq"
  shows "\<exists>pq'. pktq_pdel pq (Some b) i = Some (pq', b \<in> set (A i)) \<and>
    pq_rel pq' (A(i := remove1 b (A i)))"
proof -
  note r = pq_relD [OF assms(1)]
  have pr: "prec_rel (pq_link pq) (pq_q pq i) (A i)" and d: "distinct (A i)"
    using r(1) [OF assms(2)] r(2) by auto
  have ls: "lseg (pq_link pq) (q_head (pq_q pq i)) (A i) None" using pr by (simp add: prec_rel_def)
  consider (head) ys where "A i = b # ys" | (mid) xs a ys where "A i = xs @ a # b # ys"
    | (miss) "b \<notin> set (A i)"
  proof -
    assume *: "\<And>ys. A i = b # ys \<Longrightarrow> thesis" "\<And>xs a ys. A i = xs @ a # b # ys \<Longrightarrow> thesis"
      "b \<notin> set (A i) \<Longrightarrow> thesis"
    show thesis
    proof (cases "b \<in> set (A i)")
      case True
      then obtain us vs where "A i = us @ b # vs" by (auto dest: split_list)
      then show thesis using *(1,2) by (cases us rule: rev_cases) auto
    qed (rule *(3))
  qed
  then show ?thesis
  proof cases
    case head
    have "pktq_pdel pq (Some b) i = Some (take_head i b pq, True)"
      using take_head_rel(1) [OF assms head]
      by (simp add: pktq_pdel_def take_head_def Let_def)
    then show ?thesis using take_head_rel(2) [OF assms head] head by simp
  next
    case mid
    define pq' where "pq' = upd_q i (\<lambda>q. q\<lparr>q_tail := (if ys = [] then Some a else q_tail q),
      q_len := q_len q - 1\<rparr>) (pq\<lparr>pq_len := pq_len pq - 1,
      pq_link := (pq_link pq)(a := pq_link pq b, b := None)\<rparr>)"
    have nh: "q_head (pq_q pq i) \<noteq> Some b" using prec_rel_head [OF pr] mid d by (cases xs) auto
    have nt: "q_tail (pq_q pq i) = Some b \<longleftrightarrow> ys = []" using pr mid d by (auto simp: prec_rel_def)
    have "find_prev (pq_link pq) b (q_head (pq_q pq i)) = Some (Some a)"
      using find_prev_hit [of "pq_link pq" "q_head (pq_q pq i)" xs a b ys] ls d mid by simp
    then have "pktq_pdel pq (Some b) i = Some (pq', True)"
      using nh nt by (auto simp: pktq_pdel_def PKTSETLINK_def Let_def pq'_def
          intro!: pktq.equality pktq_prec.equality)
    moreover have rm: "remove1 b (A i) = xs @ a # ys" using d mid by (simp add: remove1_append)
    have "pq_rel pq' (A(i := xs @ a # ys))"
    proof (rule pq_rel_update [OF assms])
      show "prec_rel (pq_link pq') (pq_q pq' i) (xs @ a # ys)"
        using lseg_remove [of "pq_link pq" _ xs a b ys None] ls d mid pr
        by (auto simp: pq'_def prec_rel_def)
      show "distinct (xs @ a # ys)" using d mid by auto
      show "set (xs @ a # ys) \<inter> set (A j) = {}" if "j \<noteq> i" for j using r(3) [OF that] mid by auto
      show "total (nprec pq) A + length (xs @ a # ys) < 65536 + length (A i)" using r(7) mid by simp
      show "i \<le> unat (pq_hi_prec pq')" using r(6) [of i] mid by (simp add: pq'_def)
    qed (use mid r(9) d in \<open>auto simp: pq'_def\<close>)
    ultimately show ?thesis using rm mid by auto
  next
    case miss
    then have "b \<notin> set (tl (A i))" by (cases "A i") auto
    then have "find_prev (pq_link pq) b (q_head (pq_q pq i)) = Some None"
      by (rule find_prev_miss [OF ls])
    then show ?thesis
      using miss prec_rel_head [OF pr] assms(1)
      by (auto simp: pktq_pdel_def Let_def remove1_idem split: list.splits)
  qed
qed

lemma pflush_loop_filters:
  assumes "lseg (pq_link pq) (q_head (pq_q pq i)) (ys @ xs) None" "distinct (ys @ xs)"
    and "prev = (if ys = [] then None else Some (last ys))"
    and "p = (case xs of [] \<Rightarrow> None | x # _ \<Rightarrow> Some x)"
  shows "\<exists>pq'. pflush_loop f i pq prev p freed = Some (pq', freed @ filter f xs) \<and>
    lseg (pq_link pq') (q_head (pq_q pq' i)) (ys @ filter (\<lambda>a. \<not> f a) xs) None \<and>
    (\<forall>a. a \<notin> set (ys @ xs) \<longrightarrow> pq_link pq' a = pq_link pq a) \<and>
    (\<forall>a \<in> set xs. f a \<longrightarrow> pq_link pq' a = None) \<and>
    pq_len pq' + word_of_nat (length (filter f xs)) = pq_len pq \<and>
    q_len (pq_q pq' i) + word_of_nat (length (filter f xs)) = q_len (pq_q pq i) \<and>
    q_tail (pq_q pq' i) = q_tail (pq_q pq i) \<and> (\<forall>j. j \<noteq> i \<longrightarrow> pq_q pq' j = pq_q pq j) \<and>
    pq_num_prec pq' = pq_num_prec pq \<and> pq_hi_prec pq' = pq_hi_prec pq"
  using assms
proof (induction xs arbitrary: ys pq prev p freed)
  case Nil
  then show ?case by (simp add: pflush_loop.simps)
next
  case (Cons x xs)
  show ?case
  proof (cases "f x")
    case False
    have p: "p = Some x" "pq_link pq x = (case xs of [] \<Rightarrow> None | y # _ \<Rightarrow> Some y)"
      using Cons.prems(1,4) lseg_head [of "pq_link pq" "pq_link pq x" xs]
      by (auto simp: lseg_append)
    have step: "pflush_loop f i pq prev p freed = pflush_loop f i pq (Some x) (pq_link pq x) freed"
      using p(1) False by (subst pflush_loop.simps) simp
    show ?thesis
      unfolding step using Cons.IH [of pq "ys @ [x]" "Some x" "pq_link pq x" freed] Cons.prems False p(2)
      by simp
  next
    case True
    have head: "q_head (pq_q pq i) = Some x \<longleftrightarrow> ys = []"
      using Cons.prems(1,2) by (cases ys) auto
    have lx: "lseg (pq_link pq) (pq_link pq x) xs None" using Cons.prems(1) by (auto simp: lseg_append)
    define pq2 where "pq2 = upd_q i (\<lambda>q. q\<lparr>q_head := (if ys = [] then pq_link pq x else q_head q),
      q_len := q_len q - 1\<rparr>) (pq\<lparr>pq_len := pq_len pq - 1, pq_link :=
        (if ys = [] then pq_link pq else (pq_link pq)(last ys := pq_link pq x))(x := None)\<rparr>)"
    have p2: "pq_link pq x = (case xs of [] \<Rightarrow> None | y # _ \<Rightarrow> Some y)" using lseg_head [OF lx] .
    have "last ys \<noteq> x" if "ys \<noteq> []" using that Cons.prems(2) last_in_set [of ys] by auto
    then have step: "pflush_loop f i pq prev p freed
        = pflush_loop f i pq2 prev (pq_link pq x) (freed @ [x])"
      using True head Cons.prems(3,4)
      by (subst pflush_loop.simps)
         (auto simp: PKTSETLINK_def Let_def pq2_def
           intro!: arg_cong [of _ _ "\<lambda>q. pflush_loop f i q _ _ _"] pktq.equality
             pktq_prec.equality)
    have l2: "lseg (pq_link pq2) (q_head (pq_q pq2 i)) (ys @ xs) None"
      using Cons.prems(1,2) lx by (cases ys rule: rev_cases) (auto simp: pq2_def lseg_append)
    obtain pq' where pq': "pflush_loop f i pq2 prev (pq_link pq x) (freed @ [x]) =
        Some (pq', (freed @ [x]) @ filter f xs)"
      "lseg (pq_link pq') (q_head (pq_q pq' i)) (ys @ filter (\<lambda>a. \<not> f a) xs) None"
      "\<forall>a. a \<notin> set (ys @ xs) \<longrightarrow> pq_link pq' a = pq_link pq2 a"
      "\<forall>a \<in> set xs. f a \<longrightarrow> pq_link pq' a = None"
      "pq_len pq' + word_of_nat (length (filter f xs)) = pq_len pq2"
      "q_len (pq_q pq' i) + word_of_nat (length (filter f xs)) = q_len (pq_q pq2 i)"
      "q_tail (pq_q pq' i) = q_tail (pq_q pq2 i)" "\<forall>j. j \<noteq> i \<longrightarrow> pq_q pq' j = pq_q pq2 j"
      "pq_num_prec pq' = pq_num_prec pq2" "pq_hi_prec pq' = pq_hi_prec pq2"
      using Cons.IH [OF l2 _ Cons.prems(3) p2, of "freed @ [x]"] Cons.prems(2) by auto
    have "pq_len pq' + word_of_nat (length (filter f xs)) + 1 = pq_len pq"
      "q_len (pq_q pq' i) + word_of_nat (length (filter f xs)) + 1 = q_len (pq_q pq i)"
      using pq'(5,6) by (simp_all add: pq2_def)
    moreover have "pq_link pq' a = pq_link pq a" if "a \<notin> set (ys @ x # xs)" for a
      using pq'(3) that last_in_set [of ys] by (auto simp: pq2_def)
    moreover have "pq_link pq' x = None" using pq'(3) Cons.prems(2) by (auto simp: pq2_def)
    moreover have "q_tail (pq_q pq2 i) = q_tail (pq_q pq i)" "\<forall>j. j \<noteq> i \<longrightarrow> pq_q pq2 j = pq_q pq j"
      "pq_num_prec pq2 = pq_num_prec pq" "pq_hi_prec pq2 = pq_hi_prec pq"
      by (simp_all add: pq2_def)
    ultimately show ?thesis
      using True pq' step by (intro exI [of _ pq']) (auto simp: add_ac)
  qed
qed

lemma pflush_eq:
  assumes "pq_rel pq A" "i < nprec pq"
    and f: "f = (case fn of None \<Rightarrow> \<lambda>_. True | Some g \<Rightarrow> g)"
    and ys: "ys = filter (\<lambda>a. \<not> f a) (A i)"
  shows "\<exists>pq'. pktq_pflush pq i fn = Some (pq', filter f (A i)) \<and>
    (pq_rel pq' (A(i := ys)) \<longleftrightarrow> (ys = [] \<or> last ys = last (A i))) \<and>
    pq_num_prec pq' = pq_num_prec pq"
proof -
  note r = pq_relD [OF assms(1)]
  have pr: "prec_rel (pq_link pq) (pq_q pq i) (A i)" and d: "distinct (A i)"
    using r(1) [OF assms(2)] r(2) by auto
  obtain pq1 where p1: "pflush_loop f i pq None (q_head (pq_q pq i)) [] = Some (pq1, filter f (A i))"
    "lseg (pq_link pq1) (q_head (pq_q pq1 i)) ys None"
    "\<forall>a. a \<notin> set (A i) \<longrightarrow> pq_link pq1 a = pq_link pq a"
    "\<forall>a \<in> set (A i). f a \<longrightarrow> pq_link pq1 a = None"
    "pq_len pq1 + word_of_nat (length (filter f (A i))) = pq_len pq"
    "q_len (pq_q pq1 i) + word_of_nat (length (filter f (A i))) = q_len (pq_q pq i)"
    "q_tail (pq_q pq1 i) = q_tail (pq_q pq i)" "\<forall>j. j \<noteq> i \<longrightarrow> pq_q pq1 j = pq_q pq j"
    "pq_num_prec pq1 = pq_num_prec pq" "pq_hi_prec pq1 = pq_hi_prec pq"
    using pflush_loop_filters [of pq i "[]" "A i" None "q_head (pq_q pq i)" f "[]"] pr d
      prec_rel_head [OF pr] ys by (auto simp: prec_rel_def)
  define pq' where "pq' = (if ys = [] then upd_q i (\<lambda>q. q\<lparr>q_tail := None\<rparr>) pq1 else pq1)"
  have hd: "q_head (pq_q pq1 i) = None \<longleftrightarrow> ys = []" using p1(2) lseg_head [OF p1(2)] by (cases ys) auto
  then have ex: "pktq_pflush pq i fn = Some (pq', filter f (A i))"
    using p1(1) by (simp add: pktq_pflush_def pq'_def flip: f)
  have "length ys + length (filter f (A i)) = length (A i)"
    unfolding ys by (metis add.commute sum_length_filter_compl)
  then have n: "word_of_nat (length (A i)) = (word_of_nat (length ys) + word_of_nat (length (filter f (A i))) :: uint16)"
    by (metis of_nat_add)
  have ql: "q_len (pq_q pq1 i) = word_of_nat (length ys)"
    using p1(6) pr n by (simp add: prec_rel_def)
  have yd: "distinct ys" "set ys \<subseteq> set (A i)" using d ys by auto
  have iff: "pq_rel pq' (A(i := ys)) \<longleftrightarrow> (ys = [] \<or> last ys = last (A i))"
  proof
    assume rel: "pq_rel pq' (A(i := ys))"
    have "i < nprec pq'" using assms(2) p1(9) by (simp add: pq'_def)
    from pq_relD(1) [OF rel this] show "ys = [] \<or> last ys = last (A i)"
      using pr p1(7) yd(2) by (auto simp: prec_rel_def pq'_def split: if_splits)
  next
    assume tl: "ys = [] \<or> last ys = last (A i)"
    show "pq_rel pq' (A(i := ys))"
    proof (rule pq_rel_update [OF assms(1,2)])
      show "prec_rel (pq_link pq') (pq_q pq' i) ys"
        using p1(2,7) ql pr tl yd(2) hd by (auto simp: prec_rel_def pq'_def)
      show "pq_link pq' a = None" if "a \<in> set (A i)" "a \<notin> set ys" for a
        using p1(4) that by (auto simp: pq'_def ys)
      show "set ys \<inter> set (A j) = {}" if "j \<noteq> i" for j using r(3) [OF that] yd(2) by auto
      show "pq_len pq' + word_of_nat (length (A i)) = pq_len pq + word_of_nat (length ys)"
        using p1(5) by (simp add: n pq'_def add_ac)
      show "total (nprec pq) A + length ys < 65536 + length (A i)"
        using r(7) by (simp add: ys add_less_le_mono)
      show "ys \<noteq> [] \<Longrightarrow> i \<le> unat (pq_hi_prec pq')" using r(6) [of i] yd(2) p1(10) by (cases "A i") (auto simp: pq'_def)
    qed (use p1(3,8-10) r(9) yd in \<open>auto simp: pq'_def\<close>)
  qed
  show ?thesis using ex iff p1(9) by (auto simp: pq'_def)
qed

lemma flush_precs_all:
  assumes "pq_rel pq A" "\<forall>i \<in> set is. i < nprec pq" "distinct is"
  shows "\<exists>pq'. flush_precs None is pq fs = Some (pq', fs @ concat (map A is)) \<and>
    pq_rel pq' (\<lambda>i. if i \<in> set is then [] else A i) \<and> pq_num_prec pq' = pq_num_prec pq"
  using assms
proof (induction "is" arbitrary: pq A fs)
  case (Cons i "is")
  obtain pq1 where p: "pktq_pflush pq i None = Some (pq1, A i)" "pq_rel pq1 (A(i := []))"
    "pq_num_prec pq1 = pq_num_prec pq"
    using pflush_eq [OF Cons.prems(1), of i "\<lambda>_. True" None] Cons.prems(2) by auto
  have m: "map (A(i := [])) is = map A is" using Cons.prems(3) by auto
  have f: "(\<lambda>j. if j \<in> set is then [] else (A(i := [])) j) = (\<lambda>j. if j \<in> set (i # is) then [] else A j)"
    by auto
  from Cons.IH [OF p(2), of "fs @ A i"] Cons.prems(2,3) p(1,3)
  show ?case unfolding m f by auto
qed simp

lemma len_zero_iff: "pq_rel pq A \<Longrightarrow> pq_len pq = 0 \<longleftrightarrow> (\<forall>i. A i = [])"
proof -
  assume rel: "pq_rel pq A"
  note r = pq_relD [OF rel]
  have "pq_len pq = 0 \<longleftrightarrow> total (nprec pq) A = 0"
  proof
    assume "pq_len pq = 0"
    then have "unat (word_of_nat (total (nprec pq) A) :: uint16) = 0" using r(8) by simp
    then show "total (nprec pq) A = 0" using r(7) by (simp add: unat_of_nat take_bit_nat_eq_self)
  qed (use r(8) in simp)
  then show ?thesis using r(4) by (meson not_le total_0)
qed

lemma lower_hi_le: "lower_hi q n \<le> n"
  by (induction n) auto

lemma lower_hi_top:
  "(lower_hi q n = 0 \<or> q_head (q (lower_hi q n)) \<noteq> None) \<and>
   (\<forall>j. lower_hi q n < j \<longrightarrow> j \<le> n \<longrightarrow> q_head (q j) = None)"
  by (induction n) (auto simp: le_Suc_eq)

lemma head_None_iff: "pq_rel pq A \<Longrightarrow> i < nprec pq \<Longrightarrow> q_head (pq_q pq i) = None \<longleftrightarrow> A i = []"
proof -
  assume "pq_rel pq A" "i < nprec pq"
  from prec_rel_head [OF pq_relD(1) [OF this]] show ?thesis by (cases "A i") simp_all
qed

lemma set_hi_rel:
  assumes rel: "pq_rel pq A" and "set_hi pq = (pq', h)"
  shows "pq_rel pq' A" "h < nprec pq" "pq_q pq' = pq_q pq" "h = 0 \<or> A h \<noteq> []" "\<And>j. h < j \<Longrightarrow> A j = []"
    "pq_num_prec pq' = pq_num_prec pq" "unat (pq_hi_prec pq') = h"
proof -
  note r = pq_relD [OF rel]
  have h: "h = lower_hi (pq_q pq) (unat (pq_hi_prec pq))" "pq' = pq\<lparr>pq_hi_prec := word_of_nat h\<rparr>"
    using assms(2) by (auto simp: set_hi_def Let_def)
  then have le: "h \<le> unat (pq_hi_prec pq)" using lower_hi_le by simp
  then show lt: "h < nprec pq" using r(9) by simp
  then have hw: "unat (word_of_nat h :: uint16) = h"
    using r(10) by (simp add: unat_of_nat take_bit_nat_eq_self)
  show "pq_q pq' = pq_q pq" "pq_num_prec pq' = pq_num_prec pq" "unat (pq_hi_prec pq') = h"
    by (simp_all add: h(2) hw)
  note top = lower_hi_top [of "pq_q pq" "unat (pq_hi_prec pq)", folded h(1)]
  show "h = 0 \<or> A h \<noteq> []" using top head_None_iff [OF rel lt] by auto
  show above: "A j = []" if "h < j" for j
  proof (cases "j \<le> unat (pq_hi_prec pq)")
    case True
    then have "q_head (pq_q pq j) = None" using top that by auto
    then show ?thesis using head_None_iff [OF rel, of j] True r(9) by simp
  qed (use r(6) in blast)
  show "pq_rel pq' A"
    using rel above hw lt unfolding pq_rel_def h(2) by (simp add: not_less [symmetric]) blast
qed

subsection \<open>The abstract operations\<close>

text \<open>The highest and the lowest precedence below \<open>n\<close> with a property.\<close>

definition highest :: "(nat \<Rightarrow> bool) \<Rightarrow> nat \<Rightarrow> nat option" where
  "highest P n = find P (rev [0..<n])"

definition lowest :: "(nat \<Rightarrow> bool) \<Rightarrow> nat \<Rightarrow> nat option" where
  "lowest P n = find P [0..<n]"

lemma highest_Suc [simp]: "highest P (Suc n) = (if P n then Some n else highest P n)"
  by (simp add: highest_def)

lemma highest_0 [simp]: "highest P 0 = None"
  by (simp add: highest_def)

lemma highest_Some:
  "h < n \<Longrightarrow> P h \<Longrightarrow> (\<And>j. h < j \<Longrightarrow> j < n \<Longrightarrow> \<not> P j) \<Longrightarrow> highest P n = Some h"
  by (induction n) (auto simp: less_Suc_eq)

lemma highest_None: "highest P n = None \<longleftrightarrow> (\<forall>i < n. \<not> P i)"
  by (induction n) (auto simp: less_Suc_eq)

lemma highest_le: "(\<And>i. m \<le> i \<Longrightarrow> i < n \<Longrightarrow> \<not> P i) \<Longrightarrow> m \<le> n \<Longrightarrow> highest P n = highest P m"
  by (induction n) (auto simp: le_Suc_eq)

lemma highest_SomeD: "highest P n = Some h \<Longrightarrow> h < n \<and> P h \<and> (\<forall>j. h < j \<longrightarrow> j < n \<longrightarrow> \<not> P j)"
  by (induction n) (auto simp: less_Suc_eq split: if_splits)

lemma lowest_Some: "h < n \<Longrightarrow> P h \<Longrightarrow> (\<And>j. j < h \<Longrightarrow> \<not> P j) \<Longrightarrow> lowest P n = Some h"
  by (auto simp: lowest_def find_Some_iff intro!: exI [of _ h])

lemma lowest_None: "lowest P n = None \<longleftrightarrow> (\<forall>i < n. \<not> P i)"
  by (auto simp: lowest_def find_None_iff)

lemma lowest_SomeD: "lowest P n = Some h \<Longrightarrow> h < n \<and> P h \<and> (\<forall>j < h. \<not> P j)"
  by (auto simp: lowest_def find_Some_iff)

definition deq_spec :: "nat \<Rightarrow> (nat \<Rightarrow> bool) \<Rightarrow> (nat \<Rightarrow> pkt list) \<Rightarrow>
    (nat \<Rightarrow> pkt list) \<times> (pkt \<times> nat) option" where
  "deq_spec n P A =
     (case highest (\<lambda>i. P i \<and> A i \<noteq> []) n of None \<Rightarrow> (A, None)
      | Some i \<Rightarrow> (A(i := tl (A i)), Some (hd (A i), i)))"

definition deq_tail_spec :: "nat \<Rightarrow> (nat \<Rightarrow> pkt list) \<Rightarrow>
    (nat \<Rightarrow> pkt list) \<times> (pkt \<times> nat) option" where
  "deq_tail_spec n A =
     (case lowest (\<lambda>i. A i \<noteq> []) n of None \<Rightarrow> (A, None)
      | Some i \<Rightarrow> (A(i := butlast (A i)), Some (last (A i), i)))"

lemma pktq_mdeq_rel:
  assumes rel: "pq_rel pq A"
  shows "\<exists>pq'. pktq_mdeq pq bmp = (pq', snd (deq_spec (nprec pq) (bit bmp) A)) \<and>
    pq_rel pq' (fst (deq_spec (nprec pq) (bit bmp) A)) \<and> pq_num_prec pq' = pq_num_prec pq"
proof (cases "pq_len pq = 0")
  case True
  then show ?thesis
    using rel len_zero_iff [OF rel] highest_None [of "\<lambda>i. bit bmp i \<and> A i \<noteq> []" "nprec pq"]
    by (simp add: pktq_mdeq_def deq_spec_def)
next
  case False
  obtain pq1 h where s: "set_hi pq = (pq1, h)" by (cases "set_hi pq")
  note h = set_hi_rel [OF rel s]
  let ?P = "\<lambda>i. bit bmp i \<and> A i \<noteq> []"
  have n: "nprec pq1 = nprec pq" using h(6) by simp
  have m: "mprec bmp (pq_q pq1) k = highest ?P (Suc k)" if "k < nprec pq" for k
    using that head_None_iff [OF h(1)] n
    by (induction k) (auto simp: push_bit_eq_mult and_bit_eq_0)
  have hh: "highest ?P (nprec pq) = highest ?P (Suc h)"
    using h(2,5) by (intro highest_le) auto
  show ?thesis
  proof (cases "highest ?P (nprec pq)")
    case None
    then show ?thesis using False s m [OF h(2)] hh h(1,6) by (simp add: pktq_mdeq_def deq_spec_def)
  next
    case (Some i)
    then have i: "i < nprec pq1" "A i \<noteq> []" using highest_SomeD n by fastforce+
    then have "A i = hd (A i) # tl (A i)" by simp
    note t = take_head_rel [OF h(1) i(1) this]
    have "mprec bmp (pq_q pq1) h = Some i" using m [OF h(2)] hh Some by metis
    then show ?thesis using t False s Some h(6) by (simp add: pktq_mdeq_def deq_spec_def)
  qed
qed

lemma pktq_deq_rel:
  assumes rel: "pq_rel pq A"
  shows "\<exists>pq'. pktq_deq pq = (pq', snd (deq_spec (nprec pq) (\<lambda>_. True) A)) \<and>
    pq_rel pq' (fst (deq_spec (nprec pq) (\<lambda>_. True) A)) \<and> pq_num_prec pq' = pq_num_prec pq"
proof (cases "pq_len pq = 0")
  case True
  then show ?thesis
    using rel len_zero_iff [OF rel] highest_None [of "\<lambda>i. A i \<noteq> []" "nprec pq"]
    by (simp add: pktq_deq_def deq_spec_def)
next
  case False
  obtain pq1 h where s: "set_hi pq = (pq1, h)" by (cases "set_hi pq")
  note h = set_hi_rel [OF rel s]
  have "A h \<noteq> []"
  proof
    assume "A h = []"
    then have "A j = []" for j using h(4,5) by (cases j) auto
    then show False using False len_zero_iff [OF rel] by simp
  qed
  then have c: "A h = hd (A h) # tl (A h)" and hi: "highest (\<lambda>i. A i \<noteq> []) (nprec pq) = Some h"
    using h(2,5) by (auto intro: highest_Some)
  have "h < nprec pq1" using h(2,6) by simp
  from take_head_rel [OF h(1) this c] show ?thesis
    using False s hi h(6) by (simp add: pktq_deq_def deq_spec_def)
qed

lemma low_prec_lowest:
  assumes rel: "pq_rel pq A" and ne: "\<not> (\<forall>i. A i = [])"
  shows "lowest (\<lambda>i. A i \<noteq> []) (nprec pq) = Some (low_prec pq)"
proof -
  note r = pq_relD [OF rel]
  have eq: "find (\<lambda>i. q_head (pq_q pq i) \<noteq> None) [0..<unat (pq_hi_prec pq)]
      = lowest (\<lambda>i. A i \<noteq> []) (unat (pq_hi_prec pq))"
    unfolding lowest_def using r(9) by (intro find_cong) (auto simp: head_None_iff [OF rel])
  show ?thesis
  proof (cases "lowest (\<lambda>i. A i \<noteq> []) (unat (pq_hi_prec pq))")
    case None
    then have "\<forall>i < unat (pq_hi_prec pq). A i = []" by (simp add: lowest_None)
    moreover have "A (unat (pq_hi_prec pq)) \<noteq> []"
      using ne r(6) calculation by (metis le_neq_implies_less)
    ultimately show ?thesis using None eq r(9) by (simp add: low_prec_def lowest_Some)
  next
    case (Some i)
    then show ?thesis using eq r(9) lowest_SomeD [OF Some] by (auto simp: low_prec_def intro: lowest_Some)
  qed
qed

lemma pktq_deq_tail_rel:
  assumes rel: "pq_rel pq A"
  shows "\<exists>pq'. pktq_deq_tail pq = Some (pq', snd (deq_tail_spec (nprec pq) A)) \<and>
    pq_rel pq' (fst (deq_tail_spec (nprec pq) A)) \<and> pq_num_prec pq' = pq_num_prec pq"
proof (cases "pq_len pq = 0")
  case True
  then show ?thesis
    using rel len_zero_iff [OF rel] lowest_None [of "\<lambda>i. A i \<noteq> []" "nprec pq"]
    by (simp add: pktq_deq_tail_def deq_tail_spec_def)
next
  case False
  let ?i = "low_prec pq"
  have lo: "lowest (\<lambda>i. A i \<noteq> []) (nprec pq) = Some ?i"
    using low_prec_lowest [OF rel] False len_zero_iff [OF rel] by simp
  then have i: "?i < nprec pq" "A ?i = butlast (A ?i) @ [last (A ?i)]"
    using lowest_SomeD [OF lo] by auto
  define prev where "prev = (if butlast (A ?i) = [] then None else Some (last (butlast (A ?i))))"
  obtain pq1 where t: "take_tail ?i prev pq = Some pq1" "pq_rel pq1 (A(?i := butlast (A ?i)))"
    "pq_link pq1 (last (A ?i)) = None"
    using take_tail_rel(2) [OF rel i prev_def] by auto
  have hn: "q_head (pq_q pq ?i) \<noteq> None" using head_None_iff [OF rel i(1)] lowest_SomeD [OF lo] by simp
  have same: "pq1\<lparr>pq_link := (pq_link pq1)(last (A ?i) := None)\<rparr> = pq1"
    by (rule pktq.equality) (use t(3) in auto)
  have "pq_num_prec pq1 = pq_num_prec pq"
    using t(1) by (auto simp: take_tail_def PKTSETLINK_def Let_def split: if_splits option.splits)
  then show ?thesis
    using False lo hn t take_tail_rel(1) [OF rel i prev_def] same
    by (simp add: pktq_deq_tail_def deq_tail_spec_def Let_def PKTSETLINK_def)
qed

subsection \<open>Sequences of operations\<close>

datatype pq_op =
    Penq nat pkt | PenqHead nat pkt | Pdeq nat | PdeqTail nat | Pdel nat pkt
  | Deq | DeqTail | Mdeq uint32

fun pq_exec :: "pq_op \<Rightarrow> pktq \<Rightarrow> (pktq \<times> (pkt \<times> nat) option) option" where
  "pq_exec (Penq i p) pq = map_option (\<lambda>pq. (pq, None)) (pktq_penq pq i p)"
| "pq_exec (PenqHead i p) pq = map_option (\<lambda>pq. (pq, None)) (pktq_penq_head pq i p)"
| "pq_exec (Pdeq i) pq = Some (map_prod id (map_option (\<lambda>p. (p, i))) (pktq_pdeq pq i))"
| "pq_exec (PdeqTail i) pq =
     map_option (map_prod id (map_option (\<lambda>p. (p, i)))) (pktq_pdeq_tail pq i)"
| "pq_exec (Pdel i p) pq =
     map_option (map_prod id (\<lambda>b. if b then Some (p, i) else None)) (pktq_pdel pq (Some p) i)"
| "pq_exec Deq pq = Some (pktq_deq pq)"
| "pq_exec DeqTail pq = pktq_deq_tail pq"
| "pq_exec (Mdeq bmp) pq = Some (pktq_mdeq pq bmp)"

text \<open>What the code's assertions ask of the caller: a valid precedence, a packet that is in no
  queue, and room.\<close>

fun pq_pre :: "nat \<Rightarrow> (nat \<Rightarrow> pkt list) \<Rightarrow> pq_op \<Rightarrow> bool" where
  "pq_pre n A (Penq i p) \<longleftrightarrow> i < n \<and> (\<forall>j < n. p \<notin> set (A j)) \<and> total n A < 65535"
| "pq_pre n A (PenqHead i p) \<longleftrightarrow> i < n \<and> (\<forall>j < n. p \<notin> set (A j)) \<and> total n A < 65535"
| "pq_pre n A (Pdeq i) \<longleftrightarrow> i < n"
| "pq_pre n A (PdeqTail i) \<longleftrightarrow> i < n"
| "pq_pre n A (Pdel i p) \<longleftrightarrow> i < n"
| "pq_pre n A _ \<longleftrightarrow> True"

fun pq_spec :: "nat \<Rightarrow> pq_op \<Rightarrow> (nat \<Rightarrow> pkt list) \<Rightarrow> (nat \<Rightarrow> pkt list) \<times> (pkt \<times> nat) option" where
  "pq_spec n (Penq i p) A = (A(i := A i @ [p]), None)"
| "pq_spec n (PenqHead i p) A = (A(i := p # A i), None)"
| "pq_spec n (Pdeq i) A =
     (if A i = [] then (A, None) else (A(i := tl (A i)), Some (hd (A i), i)))"
| "pq_spec n (PdeqTail i) A =
     (if A i = [] then (A, None) else (A(i := butlast (A i)), Some (last (A i), i)))"
| "pq_spec n (Pdel i p) A =
     (A(i := remove1 p (A i)), if p \<in> set (A i) then Some (p, i) else None)"
| "pq_spec n Deq A = deq_spec n (\<lambda>_. True) A"
| "pq_spec n DeqTail A = deq_tail_spec n A"
| "pq_spec n (Mdeq bmp) A = deq_spec n (bit bmp) A"

lemma PKTSETLINK_num_prec: "PKTSETLINK p x pq = Some pq' \<Longrightarrow> pq_num_prec pq' = pq_num_prec pq"
  by (auto simp: PKTSETLINK_def split: option.splits)

lemma penq_num_prec:
  "pktq_penq pq i p = Some pq' \<Longrightarrow> pq_num_prec pq' = pq_num_prec pq"
  "pktq_penq_head pq i p = Some pq' \<Longrightarrow> pq_num_prec pq' = pq_num_prec pq"
  "take_tail i prev pq = Some pq' \<Longrightarrow> pq_num_prec pq' = pq_num_prec pq"
  by (auto simp: pktq_penq_def pktq_penq_head_def take_tail_def Let_def bind_eq_Some_conv
      split: if_splits dest: PKTSETLINK_num_prec)

lemma pdel_num_prec: "pktq_pdel pq b i = Some (pq', r) \<Longrightarrow> pq_num_prec pq' = pq_num_prec pq"
  by (auto simp: pktq_pdel_def Let_def bind_eq_Some_conv
      split: if_splits option.splits dest!: PKTSETLINK_num_prec)

lemma pq_rel_fresh: "pq_rel pq A \<Longrightarrow> \<forall>j < nprec pq. p \<notin> set (A j) \<Longrightarrow> fresh p A"
  using pq_relD(4) [of pq A] by (metis list.set(1) empty_iff not_le)

lemma pq_step_refines:
  assumes rel: "pq_rel pq A" and pre: "pq_pre (nprec pq) A op"
  shows "\<exists>pq'. pq_exec op pq = Some (pq', snd (pq_spec (nprec pq) op A)) \<and>
    pq_rel pq' (fst (pq_spec (nprec pq) op A)) \<and> pq_num_prec pq' = pq_num_prec pq"
proof (cases op)
  case (Penq i p)
  then show ?thesis
    using penq_rel [OF rel, of i p] pre pq_rel_fresh [OF rel] penq_num_prec by fastforce
next
  case (PenqHead i p)
  then show ?thesis
    using penq_head_rel [OF rel, of i p] pre pq_rel_fresh [OF rel] penq_num_prec by fastforce
next
  case (Pdeq i)
  then show ?thesis
    using head_None_iff [OF rel, of i] take_head_rel [OF rel, of i "hd (A i)" "tl (A i)"] pre rel
    by (auto simp: pktq_pdeq_def split: option.splits)
next
  case (PdeqTail i)
  show ?thesis
  proof (cases "A i = []")
    case True
    then show ?thesis
      using PdeqTail head_None_iff [OF rel, of i] pre rel by (simp add: pktq_pdeq_tail_def)
  next
    case False
    define prev where "prev = (if butlast (A i) = [] then None else Some (last (butlast (A i))))"
    have i: "i < nprec pq" "A i = butlast (A i) @ [last (A i)]" using pre PdeqTail False by auto
    obtain pq1 where t: "take_tail i prev pq = Some pq1" "pq_rel pq1 (A(i := butlast (A i)))"
      using take_tail_rel(2) [OF rel i prev_def] by auto
    then show ?thesis
      using PdeqTail False take_tail_rel(1) [OF rel i prev_def] head_None_iff [OF rel i(1)]
        penq_num_prec(3) by (simp add: pktq_pdeq_tail_def)
  qed
next
  case (Pdel i p)
  then show ?thesis using pdel_rel [OF rel, of i p] pre pdel_num_prec by fastforce
next
  case Deq
  then show ?thesis using pktq_deq_rel [OF rel] by auto
next
  case DeqTail
  then show ?thesis using pktq_deq_tail_rel [OF rel] by auto
next
  case (Mdeq bmp)
  then show ?thesis using pktq_mdeq_rel [OF rel, of bmp] by auto
qed

fun pq_run :: "pq_op list \<Rightarrow> pktq \<Rightarrow> (pktq \<times> (pkt \<times> nat) option list) option" where
  "pq_run [] pq = Some (pq, [])"
| "pq_run (op # ops) pq =
     do { (pq, r) \<leftarrow> pq_exec op pq; (pq, rs) \<leftarrow> pq_run ops pq; Some (pq, r # rs) }"

fun pq_run_spec :: "nat \<Rightarrow> pq_op list \<Rightarrow> (nat \<Rightarrow> pkt list) \<Rightarrow>
    (nat \<Rightarrow> pkt list) \<times> (pkt \<times> nat) option list" where
  "pq_run_spec n [] A = (A, [])"
| "pq_run_spec n (op # ops) A =
     (let (A, r) = pq_spec n op A; (A, rs) = pq_run_spec n ops A in (A, r # rs))"

fun pq_run_pre :: "nat \<Rightarrow> pq_op list \<Rightarrow> (nat \<Rightarrow> pkt list) \<Rightarrow> bool" where
  "pq_run_pre n [] A \<longleftrightarrow> True"
| "pq_run_pre n (op # ops) A \<longleftrightarrow> pq_pre n A op \<and> pq_run_pre n ops (fst (pq_spec n op A))"

lemma pq_run_rel:
  assumes "pq_rel pq A" "pq_run_pre (nprec pq) ops A"
  shows "\<exists>pq'. pq_run ops pq = Some (pq', snd (pq_run_spec (nprec pq) ops A)) \<and>
    pq_rel pq' (fst (pq_run_spec (nprec pq) ops A)) \<and> pq_num_prec pq' = pq_num_prec pq"
  using assms
proof (induction ops arbitrary: pq A)
  case (Cons op ops)
  obtain pq1 where p1: "pq_exec op pq = Some (pq1, snd (pq_spec (nprec pq) op A))"
    "pq_rel pq1 (fst (pq_spec (nprec pq) op A))" "pq_num_prec pq1 = pq_num_prec pq"
    using pq_step_refines [OF Cons.prems(1), of op] Cons.prems(2) by auto
  have "pq_run_pre (nprec pq1) ops (fst (pq_spec (nprec pq) op A))"
    using Cons.prems(2) p1(3) by simp
  from Cons.IH [OF p1(2) this] show ?case
    using p1 by (auto simp: Let_def split: prod.splits)
qed simp

lemma pktq_init_rel:
  assumes "0 < n" "n \<le> 16" "\<forall>p. pq_link pq p = None"
  shows "pq_rel (pktq_init pq (int n) max_len) (\<lambda>_. [])" "nprec (pktq_init pq (int n) max_len) = n"
proof -
  show n: "nprec (pktq_init pq (int n) max_len) = n"
    using assms by (simp add: pktq_init_def unat_of_nat take_bit_nat_eq_self)
  show "pq_rel (pktq_init pq (int n) max_len) (\<lambda>_. [])"
    unfolding pq_rel_def n using assms
    by (auto simp: pktq_init_def prec_rel_Nil lists_ok_def total_def)
qed

subsection \<open>The priority queue contract\<close>

text \<open>
  What a client of a packet queue relies on: enqueueing appends to a precedence, dequeueing
  takes the first packet of the highest non-empty precedence. \<open>drain\<close> is the client that
  dequeues up to \<open>k\<close> times.
\<close>

fun drain :: "('s \<Rightarrow> 's \<times> 'r option) \<Rightarrow> nat \<Rightarrow> 's \<Rightarrow> 'r list" where
  "drain deq 0 s = []"
| "drain deq (Suc k) s = (case deq s of (s', None) \<Rightarrow> [] | (s', Some r) \<Rightarrow> r # drain deq k s')"

fun enqueue_all :: "('s \<Rightarrow> nat \<Rightarrow> pkt \<Rightarrow> 's option) \<Rightarrow> (nat \<times> pkt) list \<Rightarrow> 's \<Rightarrow> 's option" where
  "enqueue_all enq [] s = Some s"
| "enqueue_all enq ((i, p) # xs) s = do { s \<leftarrow> enq s i p; enqueue_all enq xs s }"

definition by_priority :: "nat \<Rightarrow> (nat \<Rightarrow> pkt list) \<Rightarrow> (pkt \<times> nat) list" where
  "by_priority n A = concat (map (\<lambda>i. map (\<lambda>p. (p, i)) (A i)) (rev [0..<n]))"

lemma by_priority_Suc: "by_priority (Suc n) A = map (\<lambda>p. (p, n)) (A n) @ by_priority n A"
  by (simp add: by_priority_def)

lemma by_priority_cong: "(\<And>i. i < n \<Longrightarrow> A i = B i) \<Longrightarrow> by_priority n A = by_priority n B"
  by (induction n) (simp_all add: by_priority_Suc, simp add: by_priority_def)

lemma length_by_priority: "length (by_priority n A) = total n A"
  by (induction n) (simp_all add: by_priority_Suc total_def, simp add: by_priority_def)

lemma by_priority_deq:
  "by_priority n A =
     (case deq_spec n (\<lambda>_. True) A of (A', None) \<Rightarrow> [] | (A', Some r) \<Rightarrow> r # by_priority n A')"
proof (induction n)
  case 0
  then show ?case by (simp add: by_priority_def deq_spec_def)
next
  case (Suc n)
  show ?case
  proof (cases "A n = []")
    case True
    show ?thesis
    proof (cases "highest (\<lambda>i. A i \<noteq> []) n")
      case None
      then show ?thesis using Suc True by (simp add: deq_spec_def by_priority_Suc)
    next
      case (Some i)
      then have "i \<noteq> n" using highest_SomeD by blast
      then show ?thesis using Suc True Some by (simp add: deq_spec_def by_priority_Suc)
    qed
  next
    case False
    then have "A n = hd (A n) # tl (A n)" by simp
    moreover have "by_priority n (A(n := tl (A n))) = by_priority n A" by (rule by_priority_cong) simp
    ultimately show ?thesis
      by (simp add: deq_spec_def by_priority_Suc) (metis (no_types, lifting) False list.simps(9) append_Cons)
  qed
qed

locale priority_queue =
  fixes rel :: "'s \<Rightarrow> nat \<Rightarrow> (nat \<Rightarrow> pkt list) \<Rightarrow> bool"
    and enq :: "'s \<Rightarrow> nat \<Rightarrow> pkt \<Rightarrow> 's option"
    and deq :: "'s \<Rightarrow> 's \<times> (pkt \<times> nat) option"
  assumes enq_law: "rel s n A \<Longrightarrow> i < n \<Longrightarrow> (\<forall>j < n. p \<notin> set (A j)) \<Longrightarrow> total n A < 65535 \<Longrightarrow>
      \<exists>s'. enq s i p = Some s' \<and> rel s' n (A(i := A i @ [p]))"
    and deq_law: "rel s n A \<Longrightarrow> \<exists>s'. deq s = (s', snd (deq_spec n (\<lambda>_. True) A)) \<and>
      rel s' n (fst (deq_spec n (\<lambda>_. True) A))"
begin

lemma drain_order: "rel s n A \<Longrightarrow> total n A \<le> k \<Longrightarrow> drain deq k s = by_priority n A"
proof (induction k arbitrary: s A)
  case 0
  then have "by_priority n A = []" using length_by_priority [of n A] by auto
  then show ?case by simp
next
  case (Suc k)
  obtain A' r where d: "deq_spec n (\<lambda>_. True) A = (A', r)" by (cases "deq_spec n (\<lambda>_. True) A")
  obtain s' where s': "deq s = (s', r)" "rel s' n A'" using deq_law [OF Suc.prems(1)] d by auto
  have b: "by_priority n A = (case r of None \<Rightarrow> [] | Some x \<Rightarrow> x # by_priority n A')"
    using by_priority_deq [of n A] d by (simp split: option.splits)
  show ?case
  proof (cases r)
    case (Some x)
    then have "total n A' \<le> k"
      using Suc.prems(2) b length_by_priority [of n A] length_by_priority [of n A'] by auto
    then show ?thesis using Suc.IH [OF s'(2)] s'(1) b Some by simp
  qed (use s' b in simp)
qed

lemma enqueue_all_lists:
  assumes "rel s n A" "\<forall>(i, p) \<in> set xs. i < n \<and> (\<forall>j < n. p \<notin> set (A j))" "distinct (map snd xs)"
    "total n A + length xs < 65536"
  shows "\<exists>s'. enqueue_all enq xs s = Some s' \<and>
    rel s' n (\<lambda>i. A i @ map snd (filter (\<lambda>x. fst x = i) xs))"
  using assms
proof (induction xs arbitrary: s A)
  case (Cons x xs)
  obtain i p where x: "x = (i, p)" by (cases x)
  obtain s1 where s1: "enq s i p = Some s1" "rel s1 n (A(i := A i @ [p]))"
    using enq_law [OF Cons.prems(1), of i p] Cons.prems x by auto
  have "\<exists>s'. enqueue_all enq xs s1 = Some s' \<and>
    rel s' n (\<lambda>j. (A(i := A i @ [p])) j @ map snd (filter (\<lambda>x. fst x = j) xs))"
  proof (rule Cons.IH [OF s1(2)])
    show "\<forall>(j, q) \<in> set xs. j < n \<and> (\<forall>k < n. q \<notin> set ((A(i := A i @ [p])) k))"
      using Cons.prems(2,3) x by (auto simp: image_iff)
    show "total n (A(i := A i @ [p])) + length xs < 65536"
      using total_upd [of i n A "A i @ [p]"] Cons.prems(2,4) x by auto
  qed (use Cons.prems in auto)
  moreover have "(\<lambda>j. (A(i := A i @ [p])) j @ map snd (filter (\<lambda>x. fst x = j) xs))
      = (\<lambda>j. A j @ map snd (filter (\<lambda>x. fst x = j) (x # xs)))" by (auto simp: x)
  ultimately show ?case using s1 x by auto
qed simp

end

interpretation pktq: priority_queue "\<lambda>pq n A. pq_rel pq A \<and> nprec pq = n" pktq_penq pktq_deq
proof (unfold_locales, goal_cases)
  case (1 pq n A i p)
  then show ?case using pq_step_refines [of pq A "Penq i p"] penq_num_prec(1) by fastforce
next
  case (2 pq n A)
  then show ?case using pktq_deq_rel [of pq A] by auto
qed

subsection \<open>Properties\<close>

text \<open>
  C21: The packet queue refines lists. From \<open>pktq_init\<close>, every sequence of enqueues (at either
  end), dequeues (of one precedence, of the highest, of the lowest, of a set of precedences)
  and removals that respects the assertions of the code runs without following a null link and
  returns exactly the packets that the queue of one list per precedence returns.
\<close>

theorem pktq_refines_lists:
  assumes "0 < n" "n \<le> 16" "\<forall>p. pq_link pq p = None" "pq_run_pre n ops (\<lambda>_. [])"
  shows "\<exists>pq'. pq_run ops (pktq_init pq (int n) max_len) = Some (pq', snd (pq_run_spec n ops (\<lambda>_. []))) \<and>
    pq_rel pq' (fst (pq_run_spec n ops (\<lambda>_. [])))"
  using pq_run_rel [OF pktq_init_rel(1) [OF assms(1-3)], of max_len ops]
    pktq_init_rel(2) [OF assms(1-3), of max_len] assms(4) by auto

theorem pktq_refines_lists_witness:
  "\<exists>pq'. pq_run [Penq 0 7, Penq 1 8, Deq, DeqTail]
      (pktq_init \<lparr>pq_num_prec = 0, pq_hi_prec = 0, pq_max = 0, pq_threshold = 0, pq_len = 0,
         pq_q = \<lambda>_. undefined, pq_link = \<lambda>_. None\<rparr> (int 2) 10)
    = Some (pq', snd (pq_run_spec 2 [Penq 0 7, Penq 1 8, Deq, DeqTail] (\<lambda>_. []))) \<and>
    pq_rel pq' (fst (pq_run_spec 2 [Penq 0 7, Penq 1 8, Deq, DeqTail] (\<lambda>_. [])))"
  by (rule pktq_refines_lists) (simp_all add: total_def numeral_2_eq_2)

text \<open>
  Priority and order. Packets enqueued with \<open>pktq_penq\<close> into a fresh queue come out of
  repeated \<open>pktq_deq\<close> by falling precedence and, within a precedence, in the order they were
  enqueued; none is lost, duplicated or invented.
\<close>

lemma pktq_priority_fifo:
  assumes "0 < n" "n \<le> 16" "\<forall>p. pq_link pq p = None"
    and "\<forall>(i, p) \<in> set xs. i < n" "distinct (map snd xs)" "length xs < 65536" "length xs \<le> k"
  shows "\<exists>pq'. enqueue_all pktq_penq xs (pktq_init pq (int n) max_len) = Some pq' \<and>
    drain pktq_deq k pq' =
      concat (map (\<lambda>i. map (\<lambda>(i, p). (p, i)) (filter (\<lambda>x. fst x = i) xs)) (rev [0..<n]))"
proof -
  let ?A = "\<lambda>i. map snd (filter (\<lambda>x. fst x = i) xs)"
  obtain pq' where p: "enqueue_all pktq_penq xs (pktq_init pq (int n) max_len) = Some pq'"
    "pq_rel pq' ?A" "nprec pq' = n"
    using pktq.enqueue_all_lists
        [where s = "pktq_init pq (int n) max_len" and n = n and A = "\<lambda>_. []" and xs = xs]
      pktq_init_rel [OF assms(1-3), of max_len] assms(4-6) by (auto simp: total_def)
  have "total n ?A \<le> length xs"
  proof -
    have "total n ?A = length (filter (\<lambda>x. fst x < n) xs)"
      by (induction n) (simp_all add: total_def length_filter_conv_card less_Suc_eq, 
        subst card_Un_disjoint [symmetric], auto intro!: arg_cong [of _ _ card])
    then show ?thesis by simp
  qed
  then have "drain pktq_deq k pq' = by_priority n ?A"
    using pktq.drain_order [where s = pq' and n = n and A = ?A and k = k] p assms(7) by simp
  also have "\<dots> = concat (map (\<lambda>i. map (\<lambda>(i, p). (p, i)) (filter (\<lambda>x. fst x = i) xs)) (rev [0..<n]))"
    unfolding by_priority_def by (intro arg_cong [of _ _ concat] map_cong) auto
  finally show ?thesis using p(1) by blast
qed

lemma pktq_priority_fifo_witness:
  "\<exists>pq'. enqueue_all pktq_penq [(0, 5), (1, 6), (0, 7)]
      (pktq_init \<lparr>pq_num_prec = 0, pq_hi_prec = 0, pq_max = 0, pq_threshold = 0, pq_len = 0,
         pq_q = \<lambda>_. undefined, pq_link = \<lambda>_. None\<rparr> (int 2) 10) = Some pq' \<and>
    drain pktq_deq 3 pq' = [(6, 1), (5, 0), (7, 0)]"
  using pktq_priority_fifo [of 2 "\<lparr>pq_num_prec = 0, pq_hi_prec = 0, pq_max = 0, pq_threshold = 0,
    pq_len = 0, pq_q = \<lambda>_. undefined, pq_link = \<lambda>_. None\<rparr>" "[(0, 5), (1, 6), (0, 7)]" 3 10]
  by (simp add: numeral_2_eq_2)

text \<open>
  \<open>pktq_pflush\<close> with a filter always ends, frees exactly the matching packets of the
  precedence in order and keeps the others in order; the queue is well formed afterwards exactly
  when no packet is left or the last packet was not freed. Otherwise \<open>q->tail\<close> still points at
  a freed packet, because the loop never moves it back.
\<close>

lemma pktq_pflush_filters:
  assumes "pq_rel pq A" "i < nprec pq"
  shows "\<exists>pq'. pktq_pflush pq i (Some f) = Some (pq', filter f (A i)) \<and>
    (pq_rel pq' (A(i := filter (\<lambda>p. \<not> f p) (A i))) \<longleftrightarrow>
      (filter (\<lambda>p. \<not> f p) (A i) = [] \<or> \<not> f (last (A i))))"
proof -
  let ?ys = "filter (\<lambda>p. \<not> f p) (A i)"
  have "last ?ys = last (A i) \<longleftrightarrow> \<not> f (last (A i))" if ne: "?ys \<noteq> []"
  proof -
    obtain xs x where "A i = xs @ [x]" using ne by (cases "A i" rule: rev_cases) auto
    then show ?thesis using last_in_set [OF ne] by auto
  qed
  then show ?thesis using pflush_eq [OF assms, of f "Some f" ?ys] by auto
qed

lemma pktq_pflush_filters_witness:
  "\<exists>pq pq' A. pq_rel pq A \<and> 0 < nprec pq \<and> A 0 = [5, 6] \<and>
     pktq_pflush pq 0 (Some (\<lambda>p. p = 6)) = Some (pq', [6]) \<and> \<not> pq_rel pq' (A(0 := [5]))"
proof -
  let ?pq = "\<lparr>pq_num_prec = 0, pq_hi_prec = 0, pq_max = 0, pq_threshold = 0, pq_len = 0,
    pq_q = \<lambda>_. undefined, pq_link = \<lambda>_. None\<rparr>"
  have i: "pq_rel (pktq_init ?pq (int 1) 10) (\<lambda>_. [])" "nprec (pktq_init ?pq (int 1) 10) = 1"
    using pktq_init_rel [of 1 ?pq 10] by simp_all
  obtain pq where pq: "pq_rel pq ((\<lambda>_. [])(0 := [5, 6]))" "nprec pq = 1"
    using pq_run_rel [OF i(1), of "[Penq 0 5, Penq 0 6]"] i(2) by (auto simp: total_def)
  obtain pq' where "pktq_pflush pq 0 (Some (\<lambda>p. p = 6)) = Some (pq', [6])"
    "\<not> pq_rel pq' (((\<lambda>_. [])(0 := [5, 6]))(0 := [5]))"
    using pktq_pflush_filters [OF pq(1), of 0 "\<lambda>p. p = 6"] pq(2) by auto
  then show ?thesis using pq by (metis fun_upd_same less_one)
qed

text \<open>
  \<open>pktq_flush\<close> without a filter frees every queued packet exactly once, by rising
  precedence and in queue order, and leaves a well formed empty queue.
\<close>

lemma pktq_flush_all:
  assumes "pq_rel pq A"
  shows "\<exists>pq'. pktq_flush pq None = Some (pq', concat (map A [0..<nprec pq])) \<and> pq_rel pq' (\<lambda>_. [])"
proof (cases "pq_len pq = 0")
  case True
  then have "A = (\<lambda>_. [])" using len_zero_iff [OF assms] by auto
  then show ?thesis using assms True by (simp add: pktq_flush_def)
next
  case False
  have "(\<lambda>i. if i \<in> set [0..<nprec pq] then [] else A i) = (\<lambda>_. [])"
    using pq_relD(4) [OF assms] by auto
  then show ?thesis
    using flush_precs_all [OF assms, of "[0..<nprec pq]" "[]"] False by (auto simp: pktq_flush_def)
qed

lemma pktq_flush_all_witness:
  "\<exists>pq pq' A. pq_rel pq A \<and> A 0 = [5, 6] \<and>
     pktq_flush pq None = Some (pq', concat (map A [0..<nprec pq])) \<and> pq_rel pq' (\<lambda>_. [])"
proof -
  let ?pq = "\<lparr>pq_num_prec = 0, pq_hi_prec = 0, pq_max = 0, pq_threshold = 0, pq_len = 0,
    pq_q = \<lambda>_. undefined, pq_link = \<lambda>_. None\<rparr>"
  have i: "pq_rel (pktq_init ?pq (int 1) 10) (\<lambda>_. [])" "nprec (pktq_init ?pq (int 1) 10) = 1"
    using pktq_init_rel [of 1 ?pq 10] by simp_all
  obtain pq where "pq_rel pq ((\<lambda>_. [])(0 := [5, 6]))"
    using pq_run_rel [OF i(1), of "[Penq 0 5, Penq 0 6]"] i(2) by (auto simp: total_def)
  from this pktq_flush_all [OF this] show ?thesis by (metis fun_upd_same)
qed

end
