(* ===== verification/Crc.thy ===== *)
theory Crc
  imports Prelude "HOL-Library.Monad_Syntax"
begin

text \<open>
  The table driven cyclic redundancy checks of \<^verbatim>\<open>shared/bcmutils.c\<close>: \<open>hndcrc8\<close>,
  \<open>hndcrc16\<close> and \<open>hndcrc32\<close>, the last one as it is compiled for MIPS, with the bulk of the
  data read as aligned 32 bit words. The tables are those of the source. The locale
  \<open>table_crc\<close> holds what makes such a table a CRC and what follows from it; it is interpreted
  on each of the three tables.
\<close>

subsection \<open>Tables\<close>

definition crc8_table :: "uint8 list" where
  "crc8_table =
     [0x00, 0xF7, 0xB9, 0x4E, 0x25, 0xD2, 0x9C, 0x6B, 0x4A, 0xBD, 0xF3, 0x04, 0x6F, 0x98,
      0xD6, 0x21, 0x94, 0x63, 0x2D, 0xDA, 0xB1, 0x46, 0x08, 0xFF, 0xDE, 0x29, 0x67, 0x90,
      0xFB, 0x0C, 0x42, 0xB5, 0x7F, 0x88, 0xC6, 0x31, 0x5A, 0xAD, 0xE3, 0x14, 0x35, 0xC2,
      0x8C, 0x7B, 0x10, 0xE7, 0xA9, 0x5E, 0xEB, 0x1C, 0x52, 0xA5, 0xCE, 0x39, 0x77, 0x80,
      0xA1, 0x56, 0x18, 0xEF, 0x84, 0x73, 0x3D, 0xCA, 0xFE, 0x09, 0x47, 0xB0, 0xDB, 0x2C,
      0x62, 0x95, 0xB4, 0x43, 0x0D, 0xFA, 0x91, 0x66, 0x28, 0xDF, 0x6A, 0x9D, 0xD3, 0x24,
      0x4F, 0xB8, 0xF6, 0x01, 0x20, 0xD7, 0x99, 0x6E, 0x05, 0xF2, 0xBC, 0x4B, 0x81, 0x76,
      0x38, 0xCF, 0xA4, 0x53, 0x1D, 0xEA, 0xCB, 0x3C, 0x72, 0x85, 0xEE, 0x19, 0x57, 0xA0,
      0x15, 0xE2, 0xAC, 0x5B, 0x30, 0xC7, 0x89, 0x7E, 0x5F, 0xA8, 0xE6, 0x11, 0x7A, 0x8D,
      0xC3, 0x34, 0xAB, 0x5C, 0x12, 0xE5, 0x8E, 0x79, 0x37, 0xC0, 0xE1, 0x16, 0x58, 0xAF,
      0xC4, 0x33, 0x7D, 0x8A, 0x3F, 0xC8, 0x86, 0x71, 0x1A, 0xED, 0xA3, 0x54, 0x75, 0x82,
      0xCC, 0x3B, 0x50, 0xA7, 0xE9, 0x1E, 0xD4, 0x23, 0x6D, 0x9A, 0xF1, 0x06, 0x48, 0xBF,
      0x9E, 0x69, 0x27, 0xD0, 0xBB, 0x4C, 0x02, 0xF5, 0x40, 0xB7, 0xF9, 0x0E, 0x65, 0x92,
      0xDC, 0x2B, 0x0A, 0xFD, 0xB3, 0x44, 0x2F, 0xD8, 0x96, 0x61, 0x55, 0xA2, 0xEC, 0x1B,
      0x70, 0x87, 0xC9, 0x3E, 0x1F, 0xE8, 0xA6, 0x51, 0x3A, 0xCD, 0x83, 0x74, 0xC1, 0x36,
      0x78, 0x8F, 0xE4, 0x13, 0x5D, 0xAA, 0x8B, 0x7C, 0x32, 0xC5, 0xAE, 0x59, 0x17, 0xE0,
      0x2A, 0xDD, 0x93, 0x64, 0x0F, 0xF8, 0xB6, 0x41, 0x60, 0x97, 0xD9, 0x2E, 0x45, 0xB2,
      0xFC, 0x0B, 0xBE, 0x49, 0x07, 0xF0, 0x9B, 0x6C, 0x22, 0xD5, 0xF4, 0x03, 0x4D, 0xBA,
      0xD1, 0x26, 0x68, 0x9F]"

definition crc16_table :: "uint16 list" where
  "crc16_table =
     [0x0000, 0x1189, 0x2312, 0x329B, 0x4624, 0x57AD, 0x6536, 0x74BF, 0x8C48, 0x9DC1, 0xAF5A,
      0xBED3, 0xCA6C, 0xDBE5, 0xE97E, 0xF8F7, 0x1081, 0x0108, 0x3393, 0x221A, 0x56A5, 0x472C,
      0x75B7, 0x643E, 0x9CC9, 0x8D40, 0xBFDB, 0xAE52, 0xDAED, 0xCB64, 0xF9FF, 0xE876, 0x2102,
      0x308B, 0x0210, 0x1399, 0x6726, 0x76AF, 0x4434, 0x55BD, 0xAD4A, 0xBCC3, 0x8E58, 0x9FD1,
      0xEB6E, 0xFAE7, 0xC87C, 0xD9F5, 0x3183, 0x200A, 0x1291, 0x0318, 0x77A7, 0x662E, 0x54B5,
      0x453C, 0xBDCB, 0xAC42, 0x9ED9, 0x8F50, 0xFBEF, 0xEA66, 0xD8FD, 0xC974, 0x4204, 0x538D,
      0x6116, 0x709F, 0x0420, 0x15A9, 0x2732, 0x36BB, 0xCE4C, 0xDFC5, 0xED5E, 0xFCD7, 0x8868,
      0x99E1, 0xAB7A, 0xBAF3, 0x5285, 0x430C, 0x7197, 0x601E, 0x14A1, 0x0528, 0x37B3, 0x263A,
      0xDECD, 0xCF44, 0xFDDF, 0xEC56, 0x98E9, 0x8960, 0xBBFB, 0xAA72, 0x6306, 0x728F, 0x4014,
      0x519D, 0x2522, 0x34AB, 0x0630, 0x17B9, 0xEF4E, 0xFEC7, 0xCC5C, 0xDDD5, 0xA96A, 0xB8E3,
      0x8A78, 0x9BF1, 0x7387, 0x620E, 0x5095, 0x411C, 0x35A3, 0x242A, 0x16B1, 0x0738, 0xFFCF,
      0xEE46, 0xDCDD, 0xCD54, 0xB9EB, 0xA862, 0x9AF9, 0x8B70, 0x8408, 0x9581, 0xA71A, 0xB693,
      0xC22C, 0xD3A5, 0xE13E, 0xF0B7, 0x0840, 0x19C9, 0x2B52, 0x3ADB, 0x4E64, 0x5FED, 0x6D76,
      0x7CFF, 0x9489, 0x8500, 0xB79B, 0xA612, 0xD2AD, 0xC324, 0xF1BF, 0xE036, 0x18C1, 0x0948,
      0x3BD3, 0x2A5A, 0x5EE5, 0x4F6C, 0x7DF7, 0x6C7E, 0xA50A, 0xB483, 0x8618, 0x9791, 0xE32E,
      0xF2A7, 0xC03C, 0xD1B5, 0x2942, 0x38CB, 0x0A50, 0x1BD9, 0x6F66, 0x7EEF, 0x4C74, 0x5DFD,
      0xB58B, 0xA402, 0x9699, 0x8710, 0xF3AF, 0xE226, 0xD0BD, 0xC134, 0x39C3, 0x284A, 0x1AD1,
      0x0B58, 0x7FE7, 0x6E6E, 0x5CF5, 0x4D7C, 0xC60C, 0xD785, 0xE51E, 0xF497, 0x8028, 0x91A1,
      0xA33A, 0xB2B3, 0x4A44, 0x5BCD, 0x6956, 0x78DF, 0x0C60, 0x1DE9, 0x2F72, 0x3EFB, 0xD68D,
      0xC704, 0xF59F, 0xE416, 0x90A9, 0x8120, 0xB3BB, 0xA232, 0x5AC5, 0x4B4C, 0x79D7, 0x685E,
      0x1CE1, 0x0D68, 0x3FF3, 0x2E7A, 0xE70E, 0xF687, 0xC41C, 0xD595, 0xA12A, 0xB0A3, 0x8238,
      0x93B1, 0x6B46, 0x7ACF, 0x4854, 0x59DD, 0x2D62, 0x3CEB, 0x0E70, 0x1FF9, 0xF78F, 0xE606,
      0xD49D, 0xC514, 0xB1AB, 0xA022, 0x92B9, 0x8330, 0x7BC7, 0x6A4E, 0x58D5, 0x495C, 0x3DE3,
      0x2C6A, 0x1EF1, 0x0F78]"

definition crc32_table :: "uint32 list" where
  "crc32_table =
     [0x00000000, 0x77073096, 0xEE0E612C, 0x990951BA, 0x076DC419, 0x706AF48F, 0xE963A535,
      0x9E6495A3, 0x0EDB8832, 0x79DCB8A4, 0xE0D5E91E, 0x97D2D988, 0x09B64C2B, 0x7EB17CBD,
      0xE7B82D07, 0x90BF1D91, 0x1DB71064, 0x6AB020F2, 0xF3B97148, 0x84BE41DE, 0x1ADAD47D,
      0x6DDDE4EB, 0xF4D4B551, 0x83D385C7, 0x136C9856, 0x646BA8C0, 0xFD62F97A, 0x8A65C9EC,
      0x14015C4F, 0x63066CD9, 0xFA0F3D63, 0x8D080DF5, 0x3B6E20C8, 0x4C69105E, 0xD56041E4,
      0xA2677172, 0x3C03E4D1, 0x4B04D447, 0xD20D85FD, 0xA50AB56B, 0x35B5A8FA, 0x42B2986C,
      0xDBBBC9D6, 0xACBCF940, 0x32D86CE3, 0x45DF5C75, 0xDCD60DCF, 0xABD13D59, 0x26D930AC,
      0x51DE003A, 0xC8D75180, 0xBFD06116, 0x21B4F4B5, 0x56B3C423, 0xCFBA9599, 0xB8BDA50F,
      0x2802B89E, 0x5F058808, 0xC60CD9B2, 0xB10BE924, 0x2F6F7C87, 0x58684C11, 0xC1611DAB,
      0xB6662D3D, 0x76DC4190, 0x01DB7106, 0x98D220BC, 0xEFD5102A, 0x71B18589, 0x06B6B51F,
      0x9FBFE4A5, 0xE8B8D433, 0x7807C9A2, 0x0F00F934, 0x9609A88E, 0xE10E9818, 0x7F6A0DBB,
      0x086D3D2D, 0x91646C97, 0xE6635C01, 0x6B6B51F4, 0x1C6C6162, 0x856530D8, 0xF262004E,
      0x6C0695ED, 0x1B01A57B, 0x8208F4C1, 0xF50FC457, 0x65B0D9C6, 0x12B7E950, 0x8BBEB8EA,
      0xFCB9887C, 0x62DD1DDF, 0x15DA2D49, 0x8CD37CF3, 0xFBD44C65, 0x4DB26158, 0x3AB551CE,
      0xA3BC0074, 0xD4BB30E2, 0x4ADFA541, 0x3DD895D7, 0xA4D1C46D, 0xD3D6F4FB, 0x4369E96A,
      0x346ED9FC, 0xAD678846, 0xDA60B8D0, 0x44042D73, 0x33031DE5, 0xAA0A4C5F, 0xDD0D7CC9,
      0x5005713C, 0x270241AA, 0xBE0B1010, 0xC90C2086, 0x5768B525, 0x206F85B3, 0xB966D409,
      0xCE61E49F, 0x5EDEF90E, 0x29D9C998, 0xB0D09822, 0xC7D7A8B4, 0x59B33D17, 0x2EB40D81,
      0xB7BD5C3B, 0xC0BA6CAD, 0xEDB88320, 0x9ABFB3B6, 0x03B6E20C, 0x74B1D29A, 0xEAD54739,
      0x9DD277AF, 0x04DB2615, 0x73DC1683, 0xE3630B12, 0x94643B84, 0x0D6D6A3E, 0x7A6A5AA8,
      0xE40ECF0B, 0x9309FF9D, 0x0A00AE27, 0x7D079EB1, 0xF00F9344, 0x8708A3D2, 0x1E01F268,
      0x6906C2FE, 0xF762575D, 0x806567CB, 0x196C3671, 0x6E6B06E7, 0xFED41B76, 0x89D32BE0,
      0x10DA7A5A, 0x67DD4ACC, 0xF9B9DF6F, 0x8EBEEFF9, 0x17B7BE43, 0x60B08ED5, 0xD6D6A3E8,
      0xA1D1937E, 0x38D8C2C4, 0x4FDFF252, 0xD1BB67F1, 0xA6BC5767, 0x3FB506DD, 0x48B2364B,
      0xD80D2BDA, 0xAF0A1B4C, 0x36034AF6, 0x41047A60, 0xDF60EFC3, 0xA867DF55, 0x316E8EEF,
      0x4669BE79, 0xCB61B38C, 0xBC66831A, 0x256FD2A0, 0x5268E236, 0xCC0C7795, 0xBB0B4703,
      0x220216B9, 0x5505262F, 0xC5BA3BBE, 0xB2BD0B28, 0x2BB45A92, 0x5CB36A04, 0xC2D7FFA7,
      0xB5D0CF31, 0x2CD99E8B, 0x5BDEAE1D, 0x9B64C2B0, 0xEC63F226, 0x756AA39C, 0x026D930A,
      0x9C0906A9, 0xEB0E363F, 0x72076785, 0x05005713, 0x95BF4A82, 0xE2B87A14, 0x7BB12BAE,
      0x0CB61B38, 0x92D28E9B, 0xE5D5BE0D, 0x7CDCEFB7, 0x0BDBDF21, 0x86D3D2D4, 0xF1D4E242,
      0x68DDB3F8, 0x1FDA836E, 0x81BE16CD, 0xF6B9265B, 0x6FB077E1, 0x18B74777, 0x88085AE6,
      0xFF0F6A70, 0x66063BCA, 0x11010B5C, 0x8F659EFF, 0xF862AE69, 0x616BFFD3, 0x166CCF45,
      0xA00AE278, 0xD70DD2EE, 0x4E048354, 0x3903B3C2, 0xA7672661, 0xD06016F7, 0x4969474D,
      0x3E6E77DB, 0xAED16A4A, 0xD9D65ADC, 0x40DF0B66, 0x37D83BF0, 0xA9BCAE53, 0xDEBB9EC5,
      0x47B2CF7F, 0x30B5FFE9, 0xBDBDF21C, 0xCABAC28A, 0x53B39330, 0x24B4A3A6, 0xBAD03605,
      0xCDD70693, 0x54DE5729, 0x23D967BF, 0xB3667A2E, 0xC4614AB8, 0x5D681B02, 0x2A6F2B94,
      0xB40BBE37, 0xC30C8EA1, 0x5A05DF1B, 0x2D02EF8D]"

subsection \<open>The functions\<close>

text \<open>\<open>(c) = ((c) >> 8) ^ crc##n##_table[((c) ^ (x)) & 0xff]\<close>\<close>

definition crc_inner_loop :: "'a::len word list \<Rightarrow> 'a word \<Rightarrow> uint8 \<Rightarrow> 'a word" where
  "crc_inner_loop table c x = drop_bit 8 c XOR table ! unat ((c XOR ucast x) AND 0xff)"

definition hndcrc8 :: "uint8 list \<Rightarrow> nat \<Rightarrow> uint8 \<Rightarrow> uint8 option" where
  "hndcrc8 pdata nbytes crc =
     do { bs \<leftarrow> read_mem pdata 0 nbytes;
          Some (foldl (\<lambda>crc x. crc8_table ! unat ((crc XOR x) AND 0xff)) crc bs) }"

definition hndcrc16 :: "uint8 list \<Rightarrow> nat \<Rightarrow> uint16 \<Rightarrow> uint16 option" where
  "hndcrc16 pdata nbytes crc =
     do { bs \<leftarrow> read_mem pdata 0 nbytes;
          Some (foldl (crc_inner_loop crc16_table) crc bs) }"

text \<open>The body of the bulk loop, once per aligned group of four bytes.\<close>

fun crc32_words :: "uint8 list \<Rightarrow> uint32 \<Rightarrow> uint32" where
  "crc32_words (t0 # t1 # t2 # t3 # bs) crc =
     crc32_words bs (crc_inner_loop crc32_table (crc_inner_loop crc32_table
       (crc_inner_loop crc32_table (crc_inner_loop crc32_table crc t0) t1) t2) t3)"
| "crc32_words _ crc = crc"

text \<open>\<open>addr\<close> is the address in \<open>pdata\<close>; the bytes at it are the list.\<close>

definition hndcrc32 :: "nat \<Rightarrow> uint8 list \<Rightarrow> nat \<Rightarrow> uint32 \<Rightarrow> uint32 option" where
  "hndcrc32 addr pdata nbytes crc =
     do { bs \<leftarrow> read_mem pdata 0 nbytes;
          let align = (if nbytes > 3 then (addr + 3) div 4 * 4 - addr else 0);
          let crc = foldl (crc_inner_loop crc32_table) crc (take align bs);
          let bs = drop align bs;
          let nbytes = nbytes - align;
          let bulk = (if nbytes > 3 then nbytes - nbytes mod 4 else 0);
          let crc = crc32_words (take bulk bs) crc;
          let bs = drop bulk bs;
          Some (foldl (crc_inner_loop crc32_table) crc (take (nbytes mod 4) bs)) }"

definition CRC8_INIT_VALUE :: uint8 where "CRC8_INIT_VALUE = 0xff"
definition CRC8_GOOD_VALUE :: uint8 where "CRC8_GOOD_VALUE = 0x9f"
definition CRC16_INIT_VALUE :: uint16 where "CRC16_INIT_VALUE = 0xffff"
definition CRC16_GOOD_VALUE :: uint16 where "CRC16_GOOD_VALUE = 0xf0b8"
definition CRC32_INIT_VALUE :: uint32 where "CRC32_INIT_VALUE = 0xffffffff"
definition CRC32_GOOD_VALUE :: uint32 where "CRC32_GOOD_VALUE = 0xdebb20e3"

subsection \<open>Division by the polynomial, bit by bit\<close>

text \<open>
  One step of the division, with the coefficients in reflected order: the low bit is shifted
  out, and if it was set the polynomial is subtracted.
\<close>

definition bitstep :: "'a::len word \<Rightarrow> 'a word \<Rightarrow> 'a word" where
  "bitstep poly c = (if bit c 0 then drop_bit 1 c XOR poly else drop_bit 1 c)"

lemma bitstep_xor: "bitstep p (a XOR b) = bitstep p a XOR bitstep p b"
  by (rule bit_word_eqI) (auto simp: bitstep_def bit_simps)

lemma bitsteps_xor: "(bitstep p ^^ n) (a XOR b) = (bitstep p ^^ n) a XOR (bitstep p ^^ n) b"
  by (induction n) (simp_all add: bitstep_xor)

lemma bitsteps_shift: "(\<And>k. k < n \<Longrightarrow> \<not> bit c k) \<Longrightarrow> (bitstep p ^^ n) c = drop_bit n c"
proof (induction n)
  case (Suc n)
  then have "(bitstep p ^^ Suc n) c = bitstep p (drop_bit n c)" by simp
  moreover have "\<not> bit (drop_bit n c) 0" using Suc.prems [of n] by (simp add: bit_simps)
  ultimately show ?case by (simp add: bitstep_def [of p "drop_bit n c"])
qed simp

lemma bitstep_inj:
  fixes p :: "'a::len word"
  assumes top: "bit p (LENGTH('a) - 1)" and eq: "bitstep p a = bitstep p b"
  shows "a = b"
proof -
  have low: "bit (bitstep p c) (LENGTH('a) - 1) \<longleftrightarrow> bit c 0" for c :: "'a word"
    using top by (auto simp: bitstep_def bit_simps)
  then have z: "bit a 0 \<longleftrightarrow> bit b 0" using eq by metis
  then have d: "drop_bit 1 a = drop_bit 1 b"
    using eq by (auto simp: bitstep_def xor_cancel split: if_splits)
  show ?thesis
  proof (rule bit_word_eqI)
    fix n assume "n < LENGTH('a)"
    show "bit a n = bit b n"
    proof (cases n)
      case (Suc m)
      then show ?thesis using arg_cong [OF d, of "\<lambda>w. bit w m"] by (simp add: bit_simps)
    qed (use z in simp)
  qed
qed

lemma bitsteps_inj:
  fixes p :: "'a::len word"
  assumes "bit p (LENGTH('a) - 1)"
  shows "(bitstep p ^^ n) a = (bitstep p ^^ n) b \<Longrightarrow> a = b"
  by (induction n) (use bitstep_inj [OF assms] in auto)

text \<open>The bytes of a message as one number, first byte lowest.\<close>

fun leword :: "uint8 list \<Rightarrow> 'a::len word" where
  "leword [] = 0"
| "leword (b # bs) = ucast b XOR push_bit 8 (leword bs)"

lemma leword_bit: "bit (leword bs :: 'a::len word) k \<longleftrightarrow>
  k < LENGTH('a) \<and> k div 8 < length bs \<and> bit (bs ! (k div 8)) (k mod 8)"
proof (induction bs arbitrary: k)
  case (Cons b bs)
  show ?case
  proof (cases "k < 8")
    case False
    then have "k div 8 = Suc ((k - 8) div 8)" "(k - 8) mod 8 = k mod 8"
      by (simp_all add: le_div_geq le_mod_geq)
    moreover have "\<not> bit (ucast b :: 'a word) k" using False bit_imp_le_length [of b k] by (auto simp: bit_simps)
    ultimately show ?thesis using False Cons [of "k - 8"] by (auto simp: bit_simps)
  qed (auto simp: bit_simps)
qed simp

lemma leword_inj:
  assumes "length ds = length es" "8 * length ds \<le> LENGTH('a)"
    and eq: "(leword ds :: 'a::len word) = leword es"
  shows "ds = es"
proof (rule nth_equalityI)
  fix i assume i: "i < length ds"
  show "ds ! i = es ! i"
  proof (rule bit_word_eqI)
    fix n assume "n < LENGTH(8)"
    then have n: "n < 8" by simp
    then have "(8 * i + n) div 8 = i" "(8 * i + n) mod 8 = n" "8 * i + n < LENGTH('a)"
      using i assms(2) by auto
    then show "bit (ds ! i) n = bit (es ! i) n"
      using arg_cong [OF eq, of "\<lambda>w. bit w (8 * i + n)"] i assms(1) by (simp add: leword_bit)
  qed
qed (rule assms(1))

subsection \<open>What a CRC table promises\<close>

text \<open>
  The table of a CRC holds the remainders of the 256 bytes, and the polynomial has a constant
  term (the top bit in reflected order). Then a run over a few bytes is the division of the
  bytes added to the state, the run is injective in the state, and the run over a message
  followed by the complement of its CRC ends in a fixed value.
\<close>

locale table_crc =
  fixes table :: "'a::len word list" and poly :: "'a word"
  assumes entries: "table = map (\<lambda>i. (bitstep poly ^^ 8) (word_of_nat i)) [0..<256]"
    and constant_term: "bit poly (LENGTH('a) - 1)"
    and wide: "8 \<le> LENGTH('a)"
begin

lemma byte_step: "crc_inner_loop table c b = (bitstep poly ^^ 8) (c XOR ucast b)"
proof -
  let ?x = "c XOR ucast b"
  have mask: "(0xff :: 'a word) = mask 8" by (simp add: mask_eq_exp_minus_1)
  have low: "?x AND 0xff = take_bit 8 ?x" by (simp add: mask take_bit_eq_mask)
  have u: "unat (take_bit 8 ?x) = take_bit 8 (unat ?x)" by (rule unsigned_take_bit_eq)
  have "unat (take_bit 8 ?x) < 2 ^ 8" unfolding u by (rule take_bit_nat_less_exp)
  then have "unat (take_bit 8 ?x) < 256" by simp
  then have "table ! unat (?x AND 0xff) = (bitstep poly ^^ 8) (take_bit 8 ?x)"
    by (simp add: entries low)
  moreover have "(bitstep poly ^^ 8) (push_bit 8 (drop_bit 8 ?x)) = drop_bit 8 (push_bit 8 (drop_bit 8 ?x))"
    by (rule bitsteps_shift) (simp add: bit_simps)
  moreover have "drop_bit 8 (push_bit 8 (drop_bit 8 ?x)) = drop_bit 8 c"
    by (rule bit_word_eqI) (auto simp: bit_simps dest: bit_imp_le_length)
  moreover have "?x = push_bit 8 (drop_bit 8 ?x) XOR take_bit 8 ?x"
    by (rule bit_word_eqI) (auto simp: bit_simps)
  ultimately show ?thesis
    unfolding crc_inner_loop_def by (metis bitsteps_xor)
qed

lemma run_bytes:
  "8 * length bs \<le> LENGTH('a) \<Longrightarrow>
   foldl (crc_inner_loop table) c bs = (bitstep poly ^^ (8 * length bs)) (c XOR leword bs)"
proof (induction bs arbitrary: c)
  case (Cons b bs)
  let ?B = "bitstep poly ^^ 8" and ?w = "leword bs :: 'a word"
  have "?B (push_bit 8 ?w) = drop_bit 8 (push_bit 8 ?w)"
    by (rule bitsteps_shift) (simp add: bit_simps)
  also have "\<dots> = ?w"
  proof (rule bit_word_eqI)
    fix k assume "k < LENGTH('a)"
    show "bit (drop_bit 8 (push_bit 8 ?w)) k = bit ?w k"
      using Cons.prems by (auto simp: bit_simps leword_bit)
  qed
  finally have w: "?w = ?B (push_bit 8 ?w)" by simp
  have len: "8 * length (b # bs) = 8 * length bs + 8" by simp
  have "foldl (crc_inner_loop table) c (b # bs) =
      (bitstep poly ^^ (8 * length bs)) (?B (c XOR ucast b) XOR ?w)"
    using Cons.IH [of "?B (c XOR ucast b)"] Cons.prems by (simp add: byte_step [of c])
  also have "?B (c XOR ucast b) XOR ?w = ?B (c XOR leword (b # bs))"
    by (subst w) (simp add: bitsteps_xor [symmetric] xor.assoc)
  also have "(bitstep poly ^^ (8 * length bs)) (?B (c XOR leword (b # bs)))
      = (bitstep poly ^^ (8 * length (b # bs))) (c XOR leword (b # bs))"
    unfolding len funpow_add by simp
  finally show ?case .
qed simp

lemma run_inj:
  assumes "foldl (crc_inner_loop table) c bs = foldl (crc_inner_loop table) d bs"
  shows "c = d"
  using assms
proof (induction bs arbitrary: c d)
  case (Cons b bs)
  then have "crc_inner_loop table c b = crc_inner_loop table d b" by simp
  then have "c XOR ucast b = d XOR ucast b"
    unfolding byte_step by (rule bitsteps_inj [OF constant_term])
  then show ?case by (simp only: xor_cancel)
qed simp

lemma burst_detected:
  assumes "length ds = length es" "8 * length ds \<le> LENGTH('a)" "ds \<noteq> es"
  shows "foldl (crc_inner_loop table) c (xs @ ds @ ys) \<noteq> foldl (crc_inner_loop table) c (xs @ es @ ys)"
proof
  let ?f = "foldl (crc_inner_loop table)"
  assume "?f c (xs @ ds @ ys) = ?f c (xs @ es @ ys)"
  then have "?f (?f c xs) ds = ?f (?f c xs) es" using run_inj by simp
  then have "?f c xs XOR leword ds = ?f c xs XOR leword es"
    using bitsteps_inj [OF constant_term] assms(1,2) by (simp add: run_bytes)
  then have "(leword ds :: 'a word) = leword es" by (simp add: xor.commute xor_cancel)
  then show False using leword_inj assms by blast
qed

lemma complement_residue:
  assumes "8 * length bs = LENGTH('a)" "leword bs = NOT (foldl (crc_inner_loop table) c xs)"
  shows "foldl (crc_inner_loop table) c (xs @ bs) = (bitstep poly ^^ LENGTH('a)) (- 1)"
proof -
  have "foldl (crc_inner_loop table) c xs XOR NOT (foldl (crc_inner_loop table) c xs) = - 1"
    by (simp add: bit_eq_iff bit_simps)
  then show ?thesis using assms by (simp add: run_bytes)
qed

end

text \<open>
  Checking a table: its entries are the sums of the eight entries at powers of two, and those
  are eight divisions.
\<close>

fun bitsteps :: "nat \<Rightarrow> 'a::len word \<Rightarrow> 'a word \<Rightarrow> 'a word" where
  "bitsteps 0 poly c = c"
| "bitsteps (Suc n) poly c = bitsteps n poly (bitstep poly c)"

lemma bitsteps_funpow: "bitsteps n poly c = (bitstep poly ^^ n) c"
  by (induction n arbitrary: c) (simp_all add: funpow_swap1)

fun span_table :: "'a::len word list \<Rightarrow> 'a word list \<Rightarrow> 'a word list" where
  "span_table [] t = t"
| "span_table (b # bs) t = span_table bs (t @ map (\<lambda>x. b XOR x) t)"

lemma word_add_exp_xor:
  assumes "i < 2 ^ n"
  shows "(word_of_nat (2 ^ n + i) :: 'a::len word) = 2 ^ n XOR word_of_nat i"
proof -
  have low: "\<not> bit (word_of_nat i :: 'a word) k" if "n \<le> k" for k
  proof -
    have "i < 2 ^ k" by (rule less_le_trans [OF assms]) (simp add: that)
    then show ?thesis by (simp add: bit_simps bit_nat_def)
  qed
  have "(2 ^ n + word_of_nat i :: 'a word) = 2 ^ n OR word_of_nat i"
    by (rule disjunctive_add) (use low in \<open>auto simp: bit_simps\<close>)
  also have "\<dots> = 2 ^ n XOR word_of_nat i"
    by (rule bit_word_eqI) (use low in \<open>auto simp: bit_simps\<close>)
  finally show ?thesis by simp
qed

lemma span_table_linear:
  fixes f :: "'a::len word \<Rightarrow> 'a word"
  assumes "\<And>a b. f (a XOR b) = f a XOR f b"
  shows "span_table (map (\<lambda>k. f (2 ^ k)) [m..<m + n]) (map (\<lambda>i. f (word_of_nat i)) [0..<2 ^ m])
    = map (\<lambda>i. f (word_of_nat i)) [0..<2 ^ (m + n)]"
proof (induction n arbitrary: m)
  case (Suc n)
  have split: "[0..<2 ^ Suc m] = [0..<2 ^ m] @ map (\<lambda>i. 2 ^ m + i) [0..<(2 :: nat) ^ m]"
    using upt_add_eq_append [of 0 "2 ^ m" "2 ^ m"] map_add_upt [of "2 ^ m" "2 ^ m"]
    by (simp add: mult_2 add.commute)
  have "map (\<lambda>i. f (word_of_nat i)) [0..<2 ^ m] @
      map (\<lambda>x. f (2 ^ m) XOR x) (map (\<lambda>i. f (word_of_nat i)) [0..<2 ^ m])
    = map (\<lambda>i. f (word_of_nat i)) [0..<2 ^ Suc m]"
    unfolding split map_append map_map o_def
    by (intro arg_cong2 [of _ _ _ _ "(@)"] map_cong) (simp_all add: word_add_exp_xor assms [symmetric]
        del: of_nat_add)
  moreover have "[m..<m + Suc n] = m # [Suc m..<Suc m + n]" by (simp add: upt_rec)
  ultimately show ?case using Suc [of "Suc m"] by simp
qed simp

lemma powers_8: "map (\<lambda>k. f (2 ^ k :: 'a::len word)) [0..<8] = [f 1, f 2, f 4, f 8, f 16, f 32, f 64, f 128]"
proof -
  have "[0..<8] = [0, 1, 2, 3, 4, 5, 6, 7 :: nat]" by (simp add: upt_rec)
  then show ?thesis by simp
qed

lemma table_entries:
  fixes table :: "'a::len word list"
  assumes "span_table (map (bitsteps 8 p) [1, 2, 4, 8, 16, 32, 64, 128]) [0] = table"
  shows "table = map (\<lambda>i. (bitstep p ^^ 8) (word_of_nat i)) [0..<256]"
proof -
  have "bitstep p 0 = 0" by (simp add: bitstep_def)
  then have z: "(bitstep p ^^ n) 0 = 0" for n by (induction n) simp_all
  show ?thesis
    using span_table_linear [of "bitstep p ^^ 8" 0 8, OF bitsteps_xor] assms z
    by (simp add: bitsteps_funpow powers_8)
qed

lemma bitsteps_8: "bitsteps 8 p c =
  bitstep p (bitstep p (bitstep p (bitstep p (bitstep p (bitstep p (bitstep p (bitstep p c)))))))"
  by (simp add: eval_nat_numeral)

lemma table8_entries:
  "crc8_table = map (\<lambda>i. (bitstep 0xAB ^^ 8) (word_of_nat i)) [0..<256]"
proof (rule table_entries)
  have "map (bitsteps 8 0xAB) [1, 2, 4, 8, 16, 32, 64, 128]
    = [0xF7, 0xB9, 0x25, 0x4A, 0x94, 0x7F, 0xFE, 0xAB :: uint8]"
    by (simp add: bitsteps_8 bitstep_def)
  then show "span_table (map (bitsteps 8 0xAB) [1, 2, 4, 8, 16, 32, 64, 128]) [0] = crc8_table"
    by (simp add: crc8_table_def)
qed
lemma table16_entries:
  "crc16_table = map (\<lambda>i. (bitstep 0x8408 ^^ 8) (word_of_nat i)) [0..<256]"
proof (rule table_entries)
  have "map (bitsteps 8 0x8408) [1, 2, 4, 8, 16, 32, 64, 128]
    = [0x1189, 0x2312, 0x4624, 0x8C48, 0x1081, 0x2102, 0x4204, 0x8408 :: uint16]"
    by (simp add: bitsteps_8 bitstep_def)
  then show "span_table (map (bitsteps 8 0x8408) [1, 2, 4, 8, 16, 32, 64, 128]) [0] = crc16_table"
    by (simp add: crc16_table_def)
qed

lemma table32_entries:
  "crc32_table = map (\<lambda>i. (bitstep 0xEDB88320 ^^ 8) (word_of_nat i)) [0..<256]"
proof (rule table_entries)
  have "map (bitsteps 8 0xEDB88320) [1, 2, 4, 8, 16, 32, 64, 128] =
    [0x77073096, 0xEE0E612C, 0x076DC419, 0x0EDB8832, 0x1DB71064, 0x3B6E20C8, 0x76DC4190,
     0xEDB88320 :: uint32]"
    by (simp add: bitsteps_8 bitstep_def)
  then show "span_table (map (bitsteps 8 0xEDB88320) [1, 2, 4, 8, 16, 32, 64, 128]) [0] = crc32_table"
    by (simp add: crc32_table_def)
qed

interpretation crc8: table_crc crc8_table "0xAB"
  by unfold_locales (rule table8_entries, simp_all)

interpretation crc16: table_crc crc16_table "0x8408"
  by unfold_locales (rule table16_entries, simp_all)

interpretation crc32: table_crc crc32_table "0xEDB88320"
  by unfold_locales (rule table32_entries, simp_all)

subsection \<open>The functions as runs over the data\<close>

lemma hndcrc8_fold:
  "hndcrc8 pdata nbytes crc =
     (if nbytes \<le> length pdata
      then Some (foldl (crc_inner_loop crc8_table) crc (take nbytes pdata)) else None)"
proof -
  have "crc_inner_loop crc8_table = (\<lambda>crc x. crc8_table ! unat ((crc XOR x) AND 0xff))"
  proof (intro ext)
    fix c x :: uint8
    have "drop_bit 8 c = 0" by (rule bit_word_eqI) (simp add: bit_simps)
    then show "crc_inner_loop crc8_table c x = crc8_table ! unat ((c XOR x) AND 0xff)"
      by (simp add: crc_inner_loop_def)
  qed
  then show ?thesis by (simp add: hndcrc8_def read_mem_def)
qed

lemma hndcrc16_fold:
  "hndcrc16 pdata nbytes crc =
     (if nbytes \<le> length pdata
      then Some (foldl (crc_inner_loop crc16_table) crc (take nbytes pdata)) else None)"
  by (simp add: hndcrc16_def read_mem_def)

lemma crc32_words_fold:
  "length bs mod 4 = 0 \<Longrightarrow> crc32_words bs crc = foldl (crc_inner_loop crc32_table) crc bs"
  by (induction bs crc rule: crc32_words.induct) auto

lemma foldl_three:
  assumes "i + j + k = length bs"
  shows "foldl f (foldl f (foldl f c (take i bs)) (take j (drop i bs))) (take k (drop j (drop i bs)))
    = foldl f c bs"
proof -
  have "take k (drop j (drop i bs)) = drop j (drop i bs)" using assms by simp
  then show ?thesis by (metis append_take_drop_id foldl_append)
qed

lemma hndcrc32_fold:
  "hndcrc32 addr pdata nbytes crc =
     (if nbytes \<le> length pdata
      then Some (foldl (crc_inner_loop crc32_table) crc (take nbytes pdata)) else None)"
proof (cases "nbytes \<le> length pdata")
  case True
  define bs where "bs = take nbytes pdata"
  define align where "align = (if nbytes > 3 then (addr + 3) div 4 * 4 - addr else 0)"
  define rest where "rest = nbytes - align"
  define bulk where "bulk = (if rest > 3 then rest - rest mod 4 else 0)"
  have len: "length bs = nbytes" using True by (simp add: bs_def)
  have al: "align \<le> nbytes" by (simp add: align_def) presburger
  have m: "bulk mod 4 = 0" "bulk + rest mod 4 = rest"
    by (auto simp: bulk_def minus_mod_eq_mult_div)
  then have "align + bulk + rest mod 4 = length bs" using al len by (simp add: rest_def)
  from foldl_three [OF this, of "crc_inner_loop crc32_table" crc]
  have "foldl (crc_inner_loop crc32_table) (crc32_words (take bulk (drop align bs))
      (foldl (crc_inner_loop crc32_table) crc (take align bs))) (take (rest mod 4) (drop bulk (drop align bs)))
    = foldl (crc_inner_loop crc32_table) crc bs"
    using m al len by (subst crc32_words_fold) (simp_all add: rest_def min_def)
  moreover have "read_mem pdata 0 nbytes = Some bs" using True by (simp add: read_mem_def bs_def)
  ultimately show ?thesis
    unfolding hndcrc32_def Let_def align_def [symmetric] rest_def [symmetric] bulk_def [symmetric]
    using True by (simp only: Option.bind.simps if_True bs_def)
qed (simp add: hndcrc32_def read_mem_def)

subsection \<open>Properties\<close>

text \<open>
  The three tables are right: entry \<open>i\<close> is the remainder of the byte \<open>i\<close>, divided bit by
  bit by the polynomial that the comments name (in reflected order), for all 256 entries.
\<close>

lemma crc_tables_correct:
  "crc8_table = map (\<lambda>i. (bitstep 0xAB ^^ 8) (word_of_nat i)) [0..<256] \<and>
   crc16_table = map (\<lambda>i. (bitstep 0x8408 ^^ 8) (word_of_nat i)) [0..<256] \<and>
   crc32_table = map (\<lambda>i. (bitstep 0xEDB88320 ^^ 8) (word_of_nat i)) [0..<256]"
  by (intro conjI table8_entries table16_entries table32_entries)


lemma leword_le32: "leword (le32 w) = w"
proof (rule bit_word_eqI)
  fix n assume "n < LENGTH(32)"
  then consider "n < 8" | "8 \<le> n" "n < 16" | "16 \<le> n" "n < 24" | "24 \<le> n" "n < 32" by force
  then show "bit (leword (le32 w) :: uint32) n = bit w n"
    by cases (auto simp: le32_def bit_simps)
qed

lemma leword_le16: "leword (le16 w) = w"
  by (rule bit_word_eqI) (auto simp: le16_def bit_simps)

lemma leword_byte: "leword [w] = (w :: uint8)"
  by (rule bit_word_eqI) (simp add: bit_simps)

lemma bitsteps_16: "(bitstep p ^^ 16) c = bitsteps 8 p (bitsteps 8 p c)"
  by (simp add: bitsteps_funpow funpow_add [symmetric, THEN fun_cong, unfolded o_apply])

lemma bitsteps_32: "(bitstep p ^^ 32) c = bitsteps 8 p (bitsteps 8 p (bitsteps 8 p (bitsteps 8 p c)))"
  by (simp add: bitsteps_funpow funpow_add [symmetric, THEN fun_cong, unfolded o_apply])

lemma good_values:
  "(bitstep 0xAB ^^ 8) (- 1) = CRC8_GOOD_VALUE"
  "(bitstep 0x8408 ^^ 16) (- 1) = CRC16_GOOD_VALUE"
  "(bitstep 0xEDB88320 ^^ 32) (- 1) = CRC32_GOOD_VALUE"
proof -
  have m: "(- 1 :: uint8) = 0xff" "(- 1 :: uint16) = 0xffff" "(- 1 :: uint32) = 0xffffffff"
    by simp_all
  show "(bitstep 0xAB ^^ 8) (- 1) = CRC8_GOOD_VALUE"
    unfolding m bitsteps_funpow [symmetric] bitsteps_8 CRC8_GOOD_VALUE_def by (simp add: bitstep_def)
  show "(bitstep 0x8408 ^^ 16) (- 1) = CRC16_GOOD_VALUE"
    unfolding m bitsteps_16 bitsteps_8 CRC16_GOOD_VALUE_def by (simp add: bitstep_def)
  show "(bitstep 0xEDB88320 ^^ 32) (- 1) = CRC32_GOOD_VALUE"
    unfolding m bitsteps_32 bitsteps_8 CRC32_GOOD_VALUE_def by (simp add: bitstep_def)
qed

lemma fold_good:
  "foldl (crc_inner_loop crc8_table) c (m @ [NOT (foldl (crc_inner_loop crc8_table) c m)]) = CRC8_GOOD_VALUE"
  "foldl (crc_inner_loop crc16_table) d (m @ le16 (NOT (foldl (crc_inner_loop crc16_table) d m))) = CRC16_GOOD_VALUE"
  "foldl (crc_inner_loop crc32_table) e (m @ le32 (NOT (foldl (crc_inner_loop crc32_table) e m))) = CRC32_GOOD_VALUE"
  using crc8.complement_residue [OF _ leword_byte, of c m]
    crc16.complement_residue [OF _ leword_le16, of d m]
    crc32.complement_residue [OF _ leword_le32, of e m]
  by (simp_all add: good_values)

text \<open>
  Checking. A message followed by the complement of its CRC, low byte first, always yields
  the documented good value, for the three CRCs and for every message.
\<close>

lemma crc_good_value:
  "hndcrc8 (m @ [NOT (the (hndcrc8 m (length m) CRC8_INIT_VALUE))]) (length m + 1) CRC8_INIT_VALUE
     = Some CRC8_GOOD_VALUE \<and>
   hndcrc16 (m @ le16 (NOT (the (hndcrc16 m (length m) CRC16_INIT_VALUE)))) (length m + 2) CRC16_INIT_VALUE
     = Some CRC16_GOOD_VALUE \<and>
   hndcrc32 a (m @ le32 (NOT (the (hndcrc32 a' m (length m) CRC32_INIT_VALUE)))) (length m + 4) CRC32_INIT_VALUE
     = Some CRC32_GOOD_VALUE"
  using fold_good by (simp add: hndcrc8_fold hndcrc16_fold hndcrc32_fold)

text \<open>
  C30: Error detection. Changing a message in any way within up to four consecutive bytes
  changes its \<open>hndcrc32\<close>.
\<close>

theorem hndcrc32_burst:
  assumes "length ds = length es" "length ds \<le> 4" "ds \<noteq> es"
  shows "hndcrc32 a (xs @ ds @ ys) (length (xs @ ds @ ys)) crc \<noteq>
    hndcrc32 a' (xs @ es @ ys) (length (xs @ es @ ys)) crc"
  using crc32.burst_detected [OF assms(1) _ assms(3), of crc xs ys] assms(2)
  by (simp add: hndcrc32_fold)

theorem hndcrc32_burst_witness:
  "hndcrc32 0 ([7] @ [1, 2] @ [9]) (length ([7] @ [1, 2] @ [9] :: uint8 list)) 0 \<noteq>
    hndcrc32 3 ([7] @ [1, 3] @ [9]) (length ([7] @ [1, 3] @ [9] :: uint8 list)) 0"
  by (rule hndcrc32_burst) simp_all

end
