(* ===== verification/Rc4.thy ===== *)
theory Rc4
  imports Crc
begin

text \<open>
  The RC4 stream cipher (\<^verbatim>\<open>bcmcrypto/rc4.c\<close>) and WEP on top of it
  (\<^verbatim>\<open>bcmcrypto/wep.c\<close>). Buffers are byte lists that the functions return updated; \<open>None\<close>
  is an access outside a buffer, including the overrun of the 16 byte key buffer of WEP. What
  WEP needs of the cipher is the locale \<open>stream_cipher\<close>, interpreted on \<open>rc4\<close>.
\<close>

subsection \<open>RC4\<close>

record rc4_ks =
  ks_state :: "uint8 list"
  ks_x :: uint8
  ks_y :: uint8

definition swap_list :: "'a list \<Rightarrow> nat \<Rightarrow> nat \<Rightarrow> 'a list" where
  "swap_list xs i j = xs[i := xs ! j, j := xs ! i]"

text \<open>One iteration of the key scheduling loop, on \<open>(key_state, index1, index2)\<close>.\<close>

definition prepare_step ::
  "uint8 list \<Rightarrow> nat \<Rightarrow> uint8 list \<times> nat \<times> nat \<Rightarrow> nat \<Rightarrow> uint8 list \<times> nat \<times> nat" where
  "prepare_step key_data key_data_len = (\<lambda>(key_state, index1, index2) counter.
     let key_byte = key_data ! index1;
         index2 = (unat key_byte + unat (key_state ! counter) + index2) mod 256
     in (swap_list key_state counter index2, (index1 + 1) mod key_data_len, index2))"

definition prepare_key :: "uint8 list \<Rightarrow> nat \<Rightarrow> rc4_ks option" where
  "prepare_key key_data key_data_len =
     (if key_data_len = 0 \<or> length key_data < min key_data_len 256 then None
      else let key_state = map word_of_nat [0..<256];
               (key_state, _, _) =
                 foldl (prepare_step key_data key_data_len) (key_state, 0, 0) [0..<256]
           in Some \<lparr>ks_state = key_state, ks_x = 0, ks_y = 0\<rparr>)"

text \<open>One iteration of the cipher: the new state and the byte that is added to the data.\<close>

definition rc4_step :: "rc4_ks \<Rightarrow> rc4_ks \<times> uint8" where
  "rc4_step ks =
     (let x = ks_x ks + 1;
          y = ks_y ks + ks_state ks ! unat x;
          key_state = swap_list (ks_state ks) (unat x) (unat y);
          xor_ind = key_state ! unat x + key_state ! unat y
      in (\<lparr>ks_state = key_state, ks_x = x, ks_y = y\<rparr>, key_state ! unat xor_ind))"

fun rc4_bytes :: "rc4_ks \<Rightarrow> uint8 list \<Rightarrow> uint8 list \<times> rc4_ks" where
  "rc4_bytes ks [] = ([], ks)"
| "rc4_bytes ks (b # bs) =
     (let (ks, k) = rc4_step ks; (cs, ks) = rc4_bytes ks bs in ((b XOR k) # cs, ks))"

text \<open>\<open>rc4(buf + off, data_len, ks)\<close> on the buffer \<open>buf\<close>.\<close>

definition rc4 :: "uint8 list \<Rightarrow> nat \<Rightarrow> nat \<Rightarrow> rc4_ks \<Rightarrow> (uint8 list \<times> rc4_ks) option" where
  "rc4 buf off data_len ks =
     do { bs \<leftarrow> read_mem buf off data_len;
          let (cs, ks) = rc4_bytes ks bs;
          buf \<leftarrow> write_mem buf off cs;
          Some (buf, ks) }"

subsection \<open>WEP\<close>

text \<open>
  The key buffer has 16 bytes, three of them for the initialisation vector. A buffer shorter
  than the headers makes the unsigned lengths wrap, and the loops then leave the buffer. The
  buffer is taken to start at an aligned address, which does not matter to \<open>hndcrc32\<close>.
\<close>

definition DOT11_IV_LEN :: nat where "DOT11_IV_LEN = 4"
definition DOT11_ICV_LEN :: nat where "DOT11_ICV_LEN = 4"

definition wep_key :: "uint8 list \<Rightarrow> nat \<Rightarrow> uint8 list \<Rightarrow> rc4_ks option" where
  "wep_key buf sec_len sec_data =
     do { iv \<leftarrow> read_mem buf 0 3;
          sec \<leftarrow> read_mem sec_data 0 sec_len;
          if sec_len > 13 then None else prepare_key (iv @ sec) (sec_len + 3) }"

definition wep_encrypt :: "nat \<Rightarrow> uint8 list \<Rightarrow> nat \<Rightarrow> uint8 list \<Rightarrow> uint8 list option" where
  "wep_encrypt buf_len buf sec_len sec_data =
     (if buf_len < DOT11_IV_LEN + DOT11_ICV_LEN then None
      else do {
        let body_len = buf_len - (DOT11_IV_LEN + DOT11_ICV_LEN);
        ks \<leftarrow> wep_key buf sec_len sec_data;
        crc \<leftarrow> hndcrc32 DOT11_IV_LEN (drop DOT11_IV_LEN buf) body_len CRC32_INIT_VALUE;
        buf \<leftarrow> write_mem buf (DOT11_IV_LEN + body_len) (le32 (NOT crc));
        (buf, ks) \<leftarrow> rc4 buf DOT11_IV_LEN (body_len + DOT11_ICV_LEN) ks;
        Some buf })"

definition wep_decrypt ::
  "nat \<Rightarrow> uint8 list \<Rightarrow> nat \<Rightarrow> uint8 list \<Rightarrow> (bool \<times> uint8 list) option" where
  "wep_decrypt buf_len buf sec_len sec_data =
     (if buf_len < DOT11_IV_LEN then None
      else do {
        ks \<leftarrow> wep_key buf sec_len sec_data;
        (buf, ks) \<leftarrow> rc4 buf DOT11_IV_LEN (buf_len - DOT11_IV_LEN) ks;
        crc \<leftarrow> hndcrc32 DOT11_IV_LEN (drop DOT11_IV_LEN buf) (buf_len - DOT11_IV_LEN) CRC32_INIT_VALUE;
        Some (crc = CRC32_GOOD_VALUE, buf) })"

subsection \<open>The state stays a permutation\<close>

definition ks_perm :: "uint8 list \<Rightarrow> bool" where
  "ks_perm s \<longleftrightarrow> length s = 256 \<and> distinct s"

lemma swap_list_perm: "i < length xs \<Longrightarrow> j < length xs \<Longrightarrow> distinct xs \<Longrightarrow> distinct (swap_list xs i j)"
  unfolding swap_list_def using distinct_swap [of i xs j] by simp

lemma ks_perm_swap: "ks_perm s \<Longrightarrow> i < 256 \<Longrightarrow> j < 256 \<Longrightarrow> ks_perm (swap_list s i j)"
  by (simp add: ks_perm_def swap_list_perm) (simp add: swap_list_def)

lemma ks_perm_init: "ks_perm (map word_of_nat [0..<256])"
proof -
  have "inj_on (word_of_nat :: nat \<Rightarrow> uint8) {0..<256}"
    by (rule inj_on_inverseI [of _ unat]) (simp add: unat_of_nat take_bit_nat_eq_self)
  then show ?thesis by (simp add: ks_perm_def distinct_map)
qed

lemma prepare_loop_perm:
  "(\<forall>c \<in> set cs. c < 256) \<Longrightarrow> ks_perm s \<Longrightarrow>
   ks_perm (fst (foldl (prepare_step key n) (s, i, j) cs))"
proof (induction cs arbitrary: s i j)
  case (Cons c cs)
  obtain s' i' j' where p: "prepare_step key n (s, i, j) c = (s', i', j')"
    by (cases "prepare_step key n (s, i, j) c") auto
  then have "ks_perm s'"
    using Cons.prems ks_perm_swap [of s c] by (auto simp: prepare_step_def Let_def)
  then show ?case using Cons p by simp
qed simp

lemma prepare_key_perm: "prepare_key key n = Some ks \<Longrightarrow> ks_perm (ks_state ks)"
  using prepare_loop_perm [of "[0..<256]" "map word_of_nat [0..<256]" key n 0 0] ks_perm_init
  by (auto simp: prepare_key_def Let_def split: if_splits prod.splits)

lemma rc4_step_perm: "ks_perm (ks_state ks) \<Longrightarrow> ks_perm (ks_state (fst (rc4_step ks)))"
  by (simp add: rc4_step_def Let_def ks_perm_swap unat8_less)

lemma rc4_bytes_perm: "ks_perm (ks_state ks) \<Longrightarrow> ks_perm (ks_state (snd (rc4_bytes ks bs)))"
  by (induction ks bs rule: rc4_bytes.induct)
     (auto simp: Let_def rc4_step_perm split: prod.splits dest: rc4_step_perm)

subsection \<open>The stream cipher contract\<close>

text \<open>The key stream is a function of the state alone; data is added to it.\<close>

fun rc4_stream :: "rc4_ks \<Rightarrow> nat \<Rightarrow> uint8 list" where
  "rc4_stream ks 0 = []"
| "rc4_stream ks (Suc n) = (let (ks, k) = rc4_step ks in k # rc4_stream ks n)"

definition xor_bytes :: "uint8 list \<Rightarrow> uint8 list \<Rightarrow> uint8 list" where
  "xor_bytes xs ys = map2 (XOR) xs ys"

locale stream_cipher =
  fixes crypt :: "'k \<Rightarrow> uint8 list \<Rightarrow> uint8 list"
    and stream :: "'k \<Rightarrow> nat \<Rightarrow> uint8 list"
  assumes crypt_law: "crypt k bs = xor_bytes bs (stream k (length bs))"
    and stream_length: "length (stream k n) = n"
begin

lemma crypt_length [simp]: "length (crypt k bs) = length bs"
  by (simp add: crypt_law xor_bytes_def stream_length)

lemma involution: "crypt k (crypt k bs) = bs"
  by (rule nth_equalityI) (auto simp: crypt_law xor_bytes_def stream_length xor.assoc)

lemma crypt_append:
  "crypt k (xs @ ys @ zs) = xor_bytes xs (take (length xs) (stream k (length (xs @ ys @ zs)))) @
     xor_bytes ys (take (length ys) (drop (length xs) (stream k (length (xs @ ys @ zs))))) @
     xor_bytes zs (drop (length xs + length ys) (stream k (length (xs @ ys @ zs))))"
  by (simp add: crypt_law xor_bytes_def zip_append1 stream_length add.commute)

lemma malleable:
  assumes "length ds = length es" "ds \<noteq> es"
  shows "\<exists>xs' ds' es' zs'. crypt k (xs @ ds @ zs) = xs' @ ds' @ zs' \<and>
    crypt k (xs @ es @ zs) = xs' @ es' @ zs' \<and> length ds' = length ds \<and> length es' = length ds \<and>
    ds' \<noteq> es'"
proof -
  define s where "s = stream k (length (xs @ ds @ zs))"
  have s': "s = stream k (length (xs @ es @ zs))" by (simp add: s_def assms(1))
  let ?t = "take (length ds) (drop (length xs) s)"
  have lt: "length ?t = length ds" by (simp add: s_def stream_length)
  have "xor_bytes ds ?t \<noteq> xor_bytes es ?t"
  proof
    assume eq: "xor_bytes ds ?t = xor_bytes es ?t"
    have "ds = es"
    proof (rule nth_equalityI)
      fix i assume "i < length ds"
      then show "ds ! i = es ! i"
        using arg_cong [OF eq, of "\<lambda>xs. xs ! i"] lt assms(1) by (simp add: xor_bytes_def xor_cancel)
    qed (rule assms(1))
    then show False using assms(2) by simp
  qed
  then show ?thesis
    using crypt_append [of k xs ds zs] crypt_append [of k xs es zs] assms(1) lt
    unfolding s_def [symmetric] s' [symmetric]
    by (intro exI conjI) (simp_all add: xor_bytes_def)
qed

end

lemma rc4_stream_length: "length (rc4_stream ks n) = n"
  by (induction n arbitrary: ks) (auto simp: Let_def split: prod.splits)

lemma rc4_bytes_stream: "fst (rc4_bytes ks bs) = xor_bytes bs (rc4_stream ks (length bs))"
  by (induction ks bs rule: rc4_bytes.induct)
     (auto simp: xor_bytes_def Let_def split: prod.splits)

interpretation rc4c: stream_cipher "\<lambda>ks bs. fst (rc4_bytes ks bs)" rc4_stream
  by unfold_locales (simp_all add: rc4_bytes_stream rc4_stream_length)

subsection \<open>WEP frames\<close>

lemma rc4_eq:
  "rc4 (xs @ bs @ zs) (length xs) (length bs) ks =
     Some (xs @ fst (rc4_bytes ks bs) @ zs, snd (rc4_bytes ks bs))"
proof -
  have "length (fst (rc4_bytes ks bs)) = length bs" by (rule rc4c.crypt_length)
  then show ?thesis by (simp add: rc4_def read_mem_def write_mem_def split_beta)
qed

lemma wep_key_total:
  assumes "length hdr = 4" "sec_len \<le> 13" "sec_len \<le> length sec"
  obtains ks where "\<And>b. wep_key (hdr @ b) sec_len sec = Some ks" "ks_perm (ks_state ks)"
proof -
  obtain h0 h1 h2 h3 where h: "hdr = [h0, h1, h2, h3]"
    using assms(1) by (auto simp: numeral_eq_Suc length_Suc_conv)
  define key where "key = [h0, h1, h2] @ take sec_len sec"
  obtain ks where ks: "prepare_key key (sec_len + 3) = Some ks"
    using assms(3) by (cases "prepare_key key (sec_len + 3)")
      (auto simp: prepare_key_def key_def Let_def split: prod.splits if_splits)
  have "wep_key (hdr @ b) sec_len sec = Some ks" for b
    using ks assms by (simp add: wep_key_def read_mem_def h key_def numeral_eq_Suc)
  then show thesis using that prepare_key_perm [OF ks] by blast
qed

lemma wep_encrypt_eq:
  assumes "length hdr = 4" "length icv = 4" "\<And>b. wep_key (hdr @ b) sec_len sec = Some ks"
  shows "wep_encrypt (length body + 8) (hdr @ body @ icv @ rest) sec_len sec =
    Some (hdr @ fst (rc4_bytes ks (body @ le32 (NOT (foldl (crc_inner_loop crc32_table)
      CRC32_INIT_VALUE body)))) @ rest)"
proof -
  define w where "w = le32 (NOT (foldl (crc_inner_loop crc32_table) CRC32_INIT_VALUE body))"
  have lw: "length w = 4" by (simp add: w_def)
  have wr: "write_mem (hdr @ body @ icv @ rest) (4 + length body) w = Some (hdr @ (body @ w) @ rest)"
    using assms(1,2) lw by (simp add: write_mem_def)
  have rc: "rc4 (hdr @ (body @ w) @ rest) 4 (length body + 4) ks =
      Some (hdr @ fst (rc4_bytes ks (body @ w)) @ rest, snd (rc4_bytes ks (body @ w)))"
    using rc4_eq [of hdr "body @ w" rest ks] assms(1) lw by simp
  show ?thesis
    using assms(1,3) wr rc
    by (simp add: wep_encrypt_def DOT11_IV_LEN_def DOT11_ICV_LEN_def hndcrc32_fold w_def)
qed

lemma wep_decrypt_eq:
  assumes "length hdr = 4" "\<And>b. wep_key (hdr @ b) sec_len sec = Some ks"
  shows "wep_decrypt (length c + 4) (hdr @ c @ rest) sec_len sec =
    Some (foldl (crc_inner_loop crc32_table) CRC32_INIT_VALUE (fst (rc4_bytes ks c)) = CRC32_GOOD_VALUE,
      hdr @ fst (rc4_bytes ks c) @ rest)"
  using rc4_eq [of hdr c rest ks] assms
  by (simp add: wep_decrypt_def DOT11_IV_LEN_def hndcrc32_fold)

lemma wep_encrypt_decrypt:
  assumes "length hdr = 4" "length icv = 4" "sec_len \<le> 13" "sec_len \<le> length sec"
  shows "\<exists>c icv'. length c = length body + 4 \<and> length icv' = 4 \<and>
    wep_encrypt (length body + 8) (hdr @ body @ icv @ rest) sec_len sec = Some (hdr @ c @ rest) \<and>
    wep_decrypt (length c + 4) (hdr @ c @ rest) sec_len sec = Some (True, hdr @ body @ icv' @ rest)"
proof -
  obtain ks where ks: "\<And>b. wep_key (hdr @ b) sec_len sec = Some ks"
    using wep_key_total [OF assms(1,3,4)] by blast
  define w where "w = le32 (NOT (foldl (crc_inner_loop crc32_table) CRC32_INIT_VALUE body))"
  define c where "c = fst (rc4_bytes ks (body @ w))"
  have p: "fst (rc4_bytes ks c) = body @ w" by (simp only: c_def rc4c.involution)
  have g: "foldl (crc_inner_loop crc32_table) CRC32_INIT_VALUE (body @ w) = CRC32_GOOD_VALUE"
    unfolding w_def by (rule fold_good)
  have "wep_decrypt (length c + 4) (hdr @ c @ rest) sec_len sec = Some (True, hdr @ body @ w @ rest)"
    unfolding wep_decrypt_eq [OF assms(1) ks] p g by simp
  moreover have "wep_encrypt (length body + 8) (hdr @ body @ icv @ rest) sec_len sec = Some (hdr @ c @ rest)"
    unfolding c_def w_def by (rule wep_encrypt_eq [OF assms(1,2) ks])
  moreover have "length c = length body + 4" "length w = 4"
    unfolding c_def rc4c.crypt_length by (simp_all add: w_def)
  ultimately show ?thesis by blast
qed

subsection \<open>Properties\<close>

text \<open>
  RC4's state is a permutation of the 256 bytes after the key schedule of any key and after
  any amount of data, so its indices never leave it, and running the cipher twice from the same
  state gives the data back.
\<close>

lemma rc4_permutation_involution:
  assumes "prepare_key key n = Some ks"
  shows "length (ks_state (snd (rc4_bytes ks bs))) = 256 \<and> distinct (ks_state (snd (rc4_bytes ks bs))) \<and>
    fst (rc4_bytes ks (fst (rc4_bytes ks bs))) = bs"
  using rc4_bytes_perm [OF prepare_key_perm [OF assms], of bs] rc4c.involution [of ks bs]
  by (simp add: ks_perm_def)

lemma rc4_permutation_involution_witness:
  "\<exists>ks. prepare_key [1, 2, 3, 4, 5] 5 = Some ks \<and> distinct (ks_state (snd (rc4_bytes ks [9, 8]))) \<and>
    fst (rc4_bytes ks (fst (rc4_bytes ks [9, 8]))) = [9, 8]"
proof -
  obtain ks where "prepare_key [1, 2, 3, 4, 5] 5 = Some ks"
    by (cases "prepare_key [1, 2, 3, 4, 5] 5") (simp_all add: prepare_key_def split_beta Let_def)
  then show ?thesis using rc4_permutation_involution [of "[1, 2, 3, 4, 5]" 5 ks "[9, 8]"] by blast
qed

text \<open>
  C23: WEP round trip. For every frame with a 4 byte initialisation vector header and room for
  the check value, and every key of at most 13 bytes, encryption touches no byte outside the
  frame, and decryption of the result accepts the check value and restores header and body.
\<close>

theorem wep_roundtrip:
  assumes "length hdr = 4" "length icv = 4" "sec_len \<le> 13" "sec_len \<le> length sec"
  shows "\<exists>c icv'. length icv' = 4 \<and>
    wep_encrypt (length body + 8) (hdr @ body @ icv @ rest) sec_len sec = Some (hdr @ c @ rest) \<and>
    wep_decrypt (length body + 8) (hdr @ c @ rest) sec_len sec = Some (True, hdr @ body @ icv' @ rest)"
proof -
  obtain c icv' where c: "length c = length body + 4" "length icv' = 4"
    "wep_encrypt (length body + 8) (hdr @ body @ icv @ rest) sec_len sec = Some (hdr @ c @ rest)"
    "wep_decrypt (length c + 4) (hdr @ c @ rest) sec_len sec = Some (True, hdr @ body @ icv' @ rest)"
    using wep_encrypt_decrypt [OF assms] by blast
  have l: "length c + 4 = length body + 8" using c(1) by simp
  show ?thesis using c(2,3,4) unfolding l by blast
qed

theorem wep_roundtrip_witness:
  "\<exists>c icv'. length icv' = 4 \<and>
    wep_encrypt (length [7, 8 :: uint8] + 8) ([1, 2, 3, 0] @ [7, 8] @ [0, 0, 0, 0] @ []) 5 [1, 2, 3, 4, 5]
      = Some ([1, 2, 3, 0] @ c @ []) \<and>
    wep_decrypt (length [7, 8 :: uint8] + 8) ([1, 2, 3, 0] @ c @ []) 5 [1, 2, 3, 4, 5]
      = Some (True, [1, 2, 3, 0] @ [7, 8] @ icv' @ [])"
  by (rule wep_roundtrip) simp_all

text \<open>
  WEP integrity. A frame that decrypts with a good check value does not do so after any
  change confined to four consecutive encrypted bytes.
\<close>

lemma wep_detects_burst:
  assumes "length hdr = 4" "sec_len \<le> 13" "sec_len \<le> length sec"
    and "wep_decrypt (length (xs @ ds @ zs) + 4) (hdr @ (xs @ ds @ zs) @ rest) sec_len sec = Some (True, p)"
    and "length ds = length es" "length ds \<le> 4" "ds \<noteq> es"
  shows "\<exists>p'. wep_decrypt (length (xs @ es @ zs) + 4) (hdr @ (xs @ es @ zs) @ rest) sec_len sec = Some (False, p')"
proof -
  obtain ks where ks: "\<And>b. wep_key (hdr @ b) sec_len sec = Some ks"
    using wep_key_total [OF assms(1-3)] by blast
  let ?f = "foldl (crc_inner_loop crc32_table) CRC32_INIT_VALUE"
  obtain us ds' es' vs where m: "fst (rc4_bytes ks (xs @ ds @ zs)) = us @ ds' @ vs"
    "fst (rc4_bytes ks (xs @ es @ zs)) = us @ es' @ vs"
    "length ds' = length ds" "length es' = length ds" "ds' \<noteq> es'"
    using rc4c.malleable [OF assms(5,7), of ks xs zs] by metis
  have "?f (us @ ds' @ vs) = CRC32_GOOD_VALUE"
    using assms(4) unfolding wep_decrypt_eq [OF assms(1) ks] m(1) by simp
  moreover have "?f (us @ ds' @ vs) \<noteq> ?f (us @ es' @ vs)"
    using crc32.burst_detected [of ds' es' CRC32_INIT_VALUE us vs] m(3-5) assms(6) by simp
  ultimately show ?thesis unfolding wep_decrypt_eq [OF assms(1) ks] m(2) by simp
qed

lemma wep_detects_burst_witness:
  "\<exists>c p'. length c = 6 \<and>
     wep_decrypt (length ([] @ [hd c XOR 1] @ tl c) + 4) ([1, 2, 3, 0] @ ([] @ [hd c XOR 1] @ tl c) @ []) 5 [1, 2, 3, 4, 5]
       = Some (False, p')"
proof -
  let ?hdr = "[1, 2, 3, 0] :: uint8 list" and ?key = "[1, 2, 3, 4, 5] :: uint8 list"
  obtain c icv' where c: "length c = 6"
    "wep_decrypt (length c + 4) (?hdr @ c @ []) 5 ?key = Some (True, ?hdr @ [7, 8] @ icv' @ [])"
    using wep_encrypt_decrypt [of ?hdr "[0, 0, 0, 0]" 5 ?key "[7, 8]" "[]"] by auto
  then have "c = [] @ [hd c] @ tl c" by (cases c) auto
  then have d: "wep_decrypt (length ([] @ [hd c] @ tl c) + 4) (?hdr @ ([] @ [hd c] @ tl c) @ []) 5 ?key
      = Some (True, ?hdr @ [7, 8] @ icv' @ [])"
    using c(2) by simp
  have "hd c \<noteq> hd c XOR 1" using xor_cancel [of 0 "hd c" 1] by (auto simp: xor.commute)
  then show ?thesis
    using wep_detects_burst [OF _ _ _ d, of "[hd c XOR 1]"] c(1) by auto
qed

end
