(* ===== verification/Tkip.thy ===== *)
theory Tkip
  imports Prelude "HOL-Library.Monad_Syntax"
begin

text \<open>
  TKIP: the Michael message integrity code (\<^verbatim>\<open>bcmcrypto/tkmic.c\<close>) and the two phase per
  packet key hash (\<^verbatim>\<open>bcmcrypto/tkhash.c\<close>). The 80 bit phase 1 key and the 96 bit mixing
  state are tuples of 16 bit words; the temporal key \<open>TK\<close> is a list of 16 bytes. \<open>None\<close> is an
  access outside a message buffer.
\<close>

subsection \<open>Michael\<close>

definition ROTR32 :: "uint32 \<Rightarrow> nat \<Rightarrow> uint32" where
  "ROTR32 x n = push_bit (32 - n) x OR drop_bit n x"

definition XSWAP32 :: "uint32 \<Rightarrow> uint32" where
  "XSWAP32 x = (drop_bit 8 x AND 0x00ff00ff) OR (push_bit 8 x AND 0xff00ff00)"

definition tkip_micblock :: "uint32 \<times> uint32 \<Rightarrow> uint32 \<times> uint32" where
  "tkip_micblock = (\<lambda>(l, r).
     let r = r XOR ROTR32 l 15; l = l + r;
         r = r XOR XSWAP32 l; l = l + r;
         r = r XOR ROTR32 l 29; l = l + r;
         r = r XOR ROTR32 l 2; l = l + r
     in (l, r))"

text \<open>
  The aligned and the unaligned loop read the same little endian words; \<open>n\<close> is rounded up to
  whole words by the loop condition.
\<close>

definition tkip_mic :: "uint32 \<Rightarrow> uint32 \<Rightarrow> nat \<Rightarrow> uint8 list \<Rightarrow> (uint32 \<times> uint32) option" where
  "tkip_mic k0 k1 n m =
     map_option (\<lambda>bs. foldl (\<lambda>(l, r) w. tkip_micblock (l XOR w, r)) (k0, k1) (words32 bs))
       (read_mem m 0 (4 * ((n + 3) div 4)))"

text \<open>\<open>while (o++%4) { *mend++ = 0; }\<close>\<close>

partial_function (option) eom_loop :: "uint8 list \<Rightarrow> nat \<Rightarrow> uint32 \<Rightarrow> (uint8 list \<times> uint32) option" where
  "eom_loop m mend o' =
     (if o' mod 4 \<noteq> 0 then write_mem m mend [0] \<bind> (\<lambda>m. eom_loop m (mend + 1) (o' + 1))
      else Some (m, o' + 1))"

declare eom_loop.simps [code]

definition tkip_mic_eom :: "uint8 list \<Rightarrow> uint32 \<Rightarrow> uint32 \<Rightarrow> (uint8 list \<times> uint32) option" where
  "tkip_mic_eom m n o0 =
     (let t = n + o0 in
      do { m \<leftarrow> write_mem m (unat n) [0x5a, 0, 0, 0, 0];
           (m, o1) \<leftarrow> eom_loop m (unat n + 5) (o0 + (n + 5));
           Some (m, n + o1 - 1 - t) })"

subsection \<open>The key hash\<close>

definition RotR1 :: "uint16 \<Rightarrow> uint16" where
  "RotR1 v = (drop_bit 1 v AND 0x7FFF) XOR push_bit 15 (v AND 1)"

definition Lo8 :: "uint16 \<Rightarrow> uint8" where "Lo8 v = ucast (v AND 0xFF)"
definition Hi8 :: "uint16 \<Rightarrow> uint8" where "Hi8 v = ucast (drop_bit 8 v AND 0xFF)"
definition Lo16 :: "uint32 \<Rightarrow> uint16" where "Lo16 v = ucast (v AND 0xFFFF)"
definition Hi16 :: "uint32 \<Rightarrow> uint16" where "Hi16 v = ucast (drop_bit 16 v AND 0xFFFF)"
definition Mk16 :: "uint8 \<Rightarrow> uint8 \<Rightarrow> uint16" where "Mk16 hi lo = ucast lo XOR push_bit 8 (ucast hi)"

definition TK16 :: "uint8 list \<Rightarrow> nat \<Rightarrow> uint16" where
  "TK16 TK N = Mk16 (TK ! (2 * N + 1)) (TK ! (2 * N))"

definition Sbox0 :: "uint16 list" where
  "Sbox0 =
     [0xC6A5, 0xF884, 0xEE99, 0xF68D, 0xFF0D, 0xD6BD, 0xDEB1, 0x9154, 0x6050, 0x0203, 0xCEA9,
      0x567D, 0xE719, 0xB562, 0x4DE6, 0xEC9A, 0x8F45, 0x1F9D, 0x8940, 0xFA87, 0xEF15, 0xB2EB,
      0x8EC9, 0xFB0B, 0x41EC, 0xB367, 0x5FFD, 0x45EA, 0x23BF, 0x53F7, 0xE496, 0x9B5B, 0x75C2,
      0xE11C, 0x3DAE, 0x4C6A, 0x6C5A, 0x7E41, 0xF502, 0x834F, 0x685C, 0x51F4, 0xD134, 0xF908,
      0xE293, 0xAB73, 0x6253, 0x2A3F, 0x080C, 0x9552, 0x4665, 0x9D5E, 0x3028, 0x37A1, 0x0A0F,
      0x2FB5, 0x0E09, 0x2436, 0x1B9B, 0xDF3D, 0xCD26, 0x4E69, 0x7FCD, 0xEA9F, 0x121B, 0x1D9E,
      0x5874, 0x342E, 0x362D, 0xDCB2, 0xB4EE, 0x5BFB, 0xA4F6, 0x764D, 0xB761, 0x7DCE, 0x527B,
      0xDD3E, 0x5E71, 0x1397, 0xA6F5, 0xB968, 0x0000, 0xC12C, 0x4060, 0xE31F, 0x79C8, 0xB6ED,
      0xD4BE, 0x8D46, 0x67D9, 0x724B, 0x94DE, 0x98D4, 0xB0E8, 0x854A, 0xBB6B, 0xC52A, 0x4FE5,
      0xED16, 0x86C5, 0x9AD7, 0x6655, 0x1194, 0x8ACF, 0xE910, 0x0406, 0xFE81, 0xA0F0, 0x7844,
      0x25BA, 0x4BE3, 0xA2F3, 0x5DFE, 0x80C0, 0x058A, 0x3FAD, 0x21BC, 0x7048, 0xF104, 0x63DF,
      0x77C1, 0xAF75, 0x4263, 0x2030, 0xE51A, 0xFD0E, 0xBF6D, 0x814C, 0x1814, 0x2635, 0xC32F,
      0xBEE1, 0x35A2, 0x88CC, 0x2E39, 0x9357, 0x55F2, 0xFC82, 0x7A47, 0xC8AC, 0xBAE7, 0x322B,
      0xE695, 0xC0A0, 0x1998, 0x9ED1, 0xA37F, 0x4466, 0x547E, 0x3BAB, 0x0B83, 0x8CCA, 0xC729,
      0x6BD3, 0x283C, 0xA779, 0xBCE2, 0x161D, 0xAD76, 0xDB3B, 0x6456, 0x744E, 0x141E, 0x92DB,
      0x0C0A, 0x486C, 0xB8E4, 0x9F5D, 0xBD6E, 0x43EF, 0xC4A6, 0x39A8, 0x31A4, 0xD337, 0xF28B,
      0xD532, 0x8B43, 0x6E59, 0xDAB7, 0x018C, 0xB164, 0x9CD2, 0x49E0, 0xD8B4, 0xACFA, 0xF307,
      0xCF25, 0xCAAF, 0xF48E, 0x47E9, 0x1018, 0x6FD5, 0xF088, 0x4A6F, 0x5C72, 0x3824, 0x57F1,
      0x73C7, 0x9751, 0xCB23, 0xA17C, 0xE89C, 0x3E21, 0x96DD, 0x61DC, 0x0D86, 0x0F85, 0xE090,
      0x7C42, 0x71C4, 0xCCAA, 0x90D8, 0x0605, 0xF701, 0x1C12, 0xC2A3, 0x6A5F, 0xAEF9, 0x69D0,
      0x1791, 0x9958, 0x3A27, 0x27B9, 0xD938, 0xEB13, 0x2BB3, 0x2233, 0xD2BB, 0xA970, 0x0789,
      0x33A7, 0x2DB6, 0x3C22, 0x1592, 0xC920, 0x8749, 0xAAFF, 0x5078, 0xA57A, 0x038F, 0x59F8,
      0x0980, 0x1A17, 0x65DA, 0xD731, 0x84C6, 0xD0B8, 0x82C3, 0x29B0, 0x5A77, 0x1E11, 0x7BCB,
      0xA8FC, 0x6DD6, 0x2C3A]"

definition Sbox1 :: "uint16 list" where
  "Sbox1 =
     [0xA5C6, 0x84F8, 0x99EE, 0x8DF6, 0x0DFF, 0xBDD6, 0xB1DE, 0x5491, 0x5060, 0x0302, 0xA9CE,
      0x7D56, 0x19E7, 0x62B5, 0xE64D, 0x9AEC, 0x458F, 0x9D1F, 0x4089, 0x87FA, 0x15EF, 0xEBB2,
      0xC98E, 0x0BFB, 0xEC41, 0x67B3, 0xFD5F, 0xEA45, 0xBF23, 0xF753, 0x96E4, 0x5B9B, 0xC275,
      0x1CE1, 0xAE3D, 0x6A4C, 0x5A6C, 0x417E, 0x02F5, 0x4F83, 0x5C68, 0xF451, 0x34D1, 0x08F9,
      0x93E2, 0x73AB, 0x5362, 0x3F2A, 0x0C08, 0x5295, 0x6546, 0x5E9D, 0x2830, 0xA137, 0x0F0A,
      0xB52F, 0x090E, 0x3624, 0x9B1B, 0x3DDF, 0x26CD, 0x694E, 0xCD7F, 0x9FEA, 0x1B12, 0x9E1D,
      0x7458, 0x2E34, 0x2D36, 0xB2DC, 0xEEB4, 0xFB5B, 0xF6A4, 0x4D76, 0x61B7, 0xCE7D, 0x7B52,
      0x3EDD, 0x715E, 0x9713, 0xF5A6, 0x68B9, 0x0000, 0x2CC1, 0x6040, 0x1FE3, 0xC879, 0xEDB6,
      0xBED4, 0x468D, 0xD967, 0x4B72, 0xDE94, 0xD498, 0xE8B0, 0x4A85, 0x6BBB, 0x2AC5, 0xE54F,
      0x16ED, 0xC586, 0xD79A, 0x5566, 0x9411, 0xCF8A, 0x10E9, 0x0604, 0x81FE, 0xF0A0, 0x4478,
      0xBA25, 0xE34B, 0xF3A2, 0xFE5D, 0xC080, 0x8A05, 0xAD3F, 0xBC21, 0x4870, 0x04F1, 0xDF63,
      0xC177, 0x75AF, 0x6342, 0x3020, 0x1AE5, 0x0EFD, 0x6DBF, 0x4C81, 0x1418, 0x3526, 0x2FC3,
      0xE1BE, 0xA235, 0xCC88, 0x392E, 0x5793, 0xF255, 0x82FC, 0x477A, 0xACC8, 0xE7BA, 0x2B32,
      0x95E6, 0xA0C0, 0x9819, 0xD19E, 0x7FA3, 0x6644, 0x7E54, 0xAB3B, 0x830B, 0xCA8C, 0x29C7,
      0xD36B, 0x3C28, 0x79A7, 0xE2BC, 0x1D16, 0x76AD, 0x3BDB, 0x5664, 0x4E74, 0x1E14, 0xDB92,
      0x0A0C, 0x6C48, 0xE4B8, 0x5D9F, 0x6EBD, 0xEF43, 0xA6C4, 0xA839, 0xA431, 0x37D3, 0x8BF2,
      0x32D5, 0x438B, 0x596E, 0xB7DA, 0x8C01, 0x64B1, 0xD29C, 0xE049, 0xB4D8, 0xFAAC, 0x07F3,
      0x25CF, 0xAFCA, 0x8EF4, 0xE947, 0x1810, 0xD56F, 0x88F0, 0x6F4A, 0x725C, 0x2438, 0xF157,
      0xC773, 0x5197, 0x23CB, 0x7CA1, 0x9CE8, 0x213E, 0xDD96, 0xDC61, 0x860D, 0x850F, 0x90E0,
      0x427C, 0xC471, 0xAACC, 0xD890, 0x0506, 0x01F7, 0x121C, 0xA3C2, 0x5F6A, 0xF9AE, 0xD069,
      0x9117, 0x5899, 0x273A, 0xB927, 0x38D9, 0x13EB, 0xB32B, 0x3322, 0xBBD2, 0x70A9, 0x8907,
      0xA733, 0xB62D, 0x223C, 0x9215, 0x20C9, 0x4987, 0xFFAA, 0x7850, 0x7AA5, 0x8F03, 0xF859,
      0x8009, 0x171A, 0xDA65, 0x31D7, 0xC684, 0xB8D0, 0xC382, 0xB029, 0x775A, 0x111E, 0xCB7B,
      0xFCA8, 0xD66D, 0x3A2C]"

definition S_lookup :: "uint16 \<Rightarrow> uint16" where
  "S_lookup v = Sbox0 ! unat (Lo8 v) XOR Sbox1 ! unat (Hi8 v)"

type_synonym p1k = "uint16 \<times> uint16 \<times> uint16 \<times> uint16 \<times> uint16"
type_synonym ppk = "uint16 \<times> uint16 \<times> uint16 \<times> uint16 \<times> uint16 \<times> uint16"

definition phase1_round :: "uint8 list \<Rightarrow> p1k \<Rightarrow> nat \<Rightarrow> p1k" where
  "phase1_round TK = (\<lambda>(p0, p1, p2, p3, p4) i.
     let p0 = p0 + S_lookup (p4 XOR TK16 TK (i mod 2 + 0));
         p1 = p1 + S_lookup (p0 XOR TK16 TK (i mod 2 + 2));
         p2 = p2 + S_lookup (p1 XOR TK16 TK (i mod 2 + 4));
         p3 = p3 + S_lookup (p2 XOR TK16 TK (i mod 2 + 6));
         p4 = p4 + S_lookup (p3 XOR TK16 TK (i mod 2 + 0));
         p4 = p4 + word_of_nat i
     in (p0, p1, p2, p3, p4))"

definition tkhash_phase1 :: "uint8 list \<Rightarrow> uint8 list \<Rightarrow> uint32 \<Rightarrow> p1k" where
  "tkhash_phase1 TK TA IV32 =
     foldl (phase1_round TK)
       (Lo16 IV32, Hi16 IV32, Mk16 (TA ! 1) (TA ! 0), Mk16 (TA ! 3) (TA ! 2), Mk16 (TA ! 5) (TA ! 4))
       [0..<8]"

definition phase2_mix :: "uint8 list \<Rightarrow> ppk \<Rightarrow> ppk" where
  "phase2_mix TK = (\<lambda>(p0, p1, p2, p3, p4, p5).
     let p0 = p0 + S_lookup (p5 XOR TK16 TK 0);
         p1 = p1 + S_lookup (p0 XOR TK16 TK 1);
         p2 = p2 + S_lookup (p1 XOR TK16 TK 2);
         p3 = p3 + S_lookup (p2 XOR TK16 TK 3);
         p4 = p4 + S_lookup (p3 XOR TK16 TK 4);
         p5 = p5 + S_lookup (p4 XOR TK16 TK 5);
         p0 = p0 + RotR1 (p5 XOR TK16 TK 6);
         p1 = p1 + RotR1 (p0 XOR TK16 TK 7);
         p2 = p2 + RotR1 p1;
         p3 = p3 + RotR1 p2;
         p4 = p4 + RotR1 p3;
         p5 = p5 + RotR1 p4
     in (p0, p1, p2, p3, p4, p5))"

definition tkhash_phase2 :: "uint8 list \<Rightarrow> p1k \<Rightarrow> uint16 \<Rightarrow> uint8 list" where
  "tkhash_phase2 TK = (\<lambda>(q0, q1, q2, q3, q4) IV16.
     case phase2_mix TK (q0, q1, q2, q3, q4, q4 + IV16) of (p0, p1, p2, p3, p4, p5) \<Rightarrow>
       [Hi8 IV16, (Hi8 IV16 OR 0x20) AND 0x7F, Lo8 IV16, Lo8 (drop_bit 1 (p5 XOR TK16 TK 0)),
        Lo8 p0, Hi8 p0, Lo8 p1, Hi8 p1, Lo8 p2, Hi8 p2, Lo8 p3, Hi8 p3, Lo8 p4, Hi8 p4,
        Lo8 p5, Hi8 p5])"

subsection \<open>Michael is a permutation of its state\<close>

lemma xor_left_cancel: "c XOR a = c XOR b \<longleftrightarrow> a = (b :: 'a::len word)"
  by (simp add: xor_cancel xor.commute [of c])

lemma tkip_micblock_inj: "tkip_micblock s = tkip_micblock t \<Longrightarrow> s = t"
proof -
  have round: "l = l' \<and> r = r'"
    if "l + (r XOR f l) = l' + (r' XOR f l')" "r XOR f l = r' XOR f l'"
    for l r l' r' :: uint32 and f :: "uint32 \<Rightarrow> uint32"
    using that by (simp add: xor_cancel)
  assume "tkip_micblock s = tkip_micblock t"
  then show ?thesis
    by (cases s; cases t) (auto simp: tkip_micblock_def Let_def xor_cancel)
qed

lemma mic_words_inj:
  "foldl (\<lambda>(l, r) w. tkip_micblock (l XOR w, r)) s ws = foldl (\<lambda>(l, r) w. tkip_micblock (l XOR w, r)) t ws
   \<Longrightarrow> s = t"
proof (induction ws arbitrary: s t)
  case (Cons w ws)
  obtain l r l' r' where st: "s = (l, r)" "t = (l', r')" by (cases s; cases t) auto
  have "tkip_micblock (l XOR w, r) = tkip_micblock (l' XOR w, r')" using Cons st by simp
  then have "(l XOR w, r) = (l' XOR w, r')" by (rule tkip_micblock_inj)
  then show ?case using st by (simp add: xor_cancel)
qed simp

lemma words32_append: "length xs mod 4 = 0 \<Longrightarrow> words32 (xs @ ys) = words32 xs @ words32 ys"
  by (induction xs rule: words32.induct) auto

lemma get32_inj: "get32 a b c d = get32 a' b' c' d' \<Longrightarrow> a = a' \<and> b = b' \<and> c = c' \<and> d = d'"
proof -
  assume eq: "get32 a b c d = get32 a' b' c' d'"
  have low: "bit x k \<Longrightarrow> k < 8" for x :: uint8 and k using bit_imp_le_length by fastforce
  have b: "bit (get32 a b c d) n = (if n < 8 then bit a n else if n < 16 then bit b (n - 8)
      else if n < 24 then bit c (n - 16) else n < 32 \<and> bit d (n - 24))" for a b c d n
    by (auto simp: get32_def bit_simps dest: low)
  have e: "bit (get32 a b c d) n = bit (get32 a' b' c' d') n" for n using eq by simp
  show ?thesis
  proof (intro conjI; rule bit_word_eqI)
    fix n assume "n < LENGTH(8)"
    then have n: "n < 8" by simp
    show "bit a n = bit a' n" using e [of n] n by (simp add: b)
    show "bit b n = bit b' n" using e [of "n + 8"] n by (simp add: b)
    show "bit c n = bit c' n" using e [of "n + 16"] n by (simp add: b)
    show "bit d n = bit d' n" using e [of "n + 24"] n by (simp add: b)
  qed
qed

subsection \<open>The terminator\<close>

lemma word_mod4: "(w mod 4 :: uint32) = 0 \<longleftrightarrow> unat w mod 4 = 0"
proof -
  have "unat (w mod 4) = unat w mod 4" by (simp add: unat_mod_distrib)
  then show ?thesis by (metis unat_eq_zero)
qed

lemma unat_plus1_mod4: "unat (w + 1 :: uint32) mod 4 = (unat w + 1) mod 4"
proof -
  have "unat (w + 1) = (unat w + 1) mod 4294967296" by (simp add: unat_word_ariths)
  then show ?thesis by (simp add: mod_mod_cancel)
qed

lemma eom_loop_pads:
  "(unat o' + p) mod 4 = 0 \<Longrightarrow> p < 4 \<Longrightarrow> mend + p \<le> length m \<Longrightarrow>
   eom_loop m mend o' =
     Some (take mend m @ replicate p 0 @ drop (mend + p) m, o' + word_of_nat p + 1)"
proof (induction p arbitrary: m mend o')
  case 0
  then show ?case by (simp add: eom_loop.simps word_mod4)
next
  case (Suc p)
  have nz: "unat o' mod 4 \<noteq> 0"
  proof
    assume "unat o' mod 4 = 0"
    then have "Suc p mod 4 = 0" using Suc.prems(1) by (metis add_0 mod_add_left_eq)
    then show False using Suc.prems(2) by simp
  qed
  let ?m = "take mend m @ [0] @ drop (mend + 1) m"
  have w: "write_mem m mend [0] = Some ?m" using Suc.prems(3) by (simp add: write_mem_def)
  have "(unat (o' + 1) + p) mod 4 = 0"
    using Suc.prems(1) unat_plus1_mod4 [of o'] by (metis add.commute add_Suc_right mod_add_left_eq plus_1_eq_Suc)
  then have "eom_loop ?m (mend + 1) (o' + 1) =
      Some (take (mend + 1) ?m @ replicate p 0 @ drop (mend + 1 + p) ?m, (o' + 1) + word_of_nat p + 1)"
    using Suc.prems by (intro Suc.IH) simp_all
  moreover have "take (mend + 1) ?m @ replicate p 0 @ drop (mend + 1 + p) ?m
      = take mend m @ replicate (Suc p) 0 @ drop (mend + Suc p) m"
    using Suc.prems(3) by (simp add: min_def replicate_append_same [symmetric] add.commute)
  ultimately show ?case
    using nz w by (subst eom_loop.simps) (simp add: word_mod4 algebra_simps)
qed

definition mic_pad :: "nat \<Rightarrow> nat" where
  "mic_pad k = (4 - (k + 5) mod 4) mod 4"

lemma mic_pad_props: "mic_pad k < 4" "(k + 5 + mic_pad k) mod 4 = 0"
proof -
  show "mic_pad k < 4" by (simp add: mic_pad_def)
  have "(j + (4 - j mod 4) mod 4) mod 4 = 0" for j :: nat
  proof -
    define r where "r = j mod 4"
    have "r < 4" by (simp add: r_def)
    then consider "r = 0" | "r = 1" | "r = 2" | "r = 3" by linarith
    then have "(r + (4 - r) mod 4) mod 4 = 0" by cases simp_all
    then show ?thesis unfolding r_def by (simp only: mod_add_left_eq)
  qed
  then show "(k + 5 + mic_pad k) mod 4 = 0" by (simp only: mic_pad_def)
qed

lemma tkip_mic_eom_eq:
  assumes "unat n + unat o0 + 8 < 4294967296" "length m = unat n"
    "length room = 5 + mic_pad (unat n + unat o0)"
  shows "tkip_mic_eom (m @ room @ rest) n o0 =
    Some (m @ 0x5a # replicate (4 + mic_pad (unat n + unat o0)) 0 @ rest,
      n + 5 + word_of_nat (mic_pad (unat n + unat o0)))"
proof -
  define p where "p = mic_pad (unat n + unat o0)"
  let ?m1 = "m @ [0x5a, 0, 0, 0, 0] @ drop 5 (room @ rest)"
  have w: "write_mem (m @ room @ rest) (unat n) [0x5a, 0, 0, 0, 0] = Some ?m1"
    using assms(2,3) by (simp add: write_mem_def)
  have u: "unat (o0 + (n + 5)) = unat n + unat o0 + 5"
    using assms(1) by (simp add: unat_word_ariths)
  have "(unat (o0 + (n + 5)) + p) mod 4 = 0" "p < 4"
    using mic_pad_props [of "unat n + unat o0"] by (simp_all add: u p_def)
  then have "eom_loop ?m1 (unat n + 5) (o0 + (n + 5)) =
      Some (take (unat n + 5) ?m1 @ replicate p 0 @ drop (unat n + 5 + p) ?m1,
        o0 + (n + 5) + word_of_nat p + 1)"
    using assms(2,3) by (intro eom_loop_pads) (simp_all add: p_def)
  moreover have "take (unat n + 5) ?m1 @ replicate p 0 @ drop (unat n + 5 + p) ?m1
      = m @ 0x5a # replicate (4 + p) 0 @ rest"
    using assms(2,3) by (simp add: p_def replicate_add eval_nat_numeral)
  ultimately show ?thesis
    using w by (simp add: tkip_mic_eom_def Let_def p_def algebra_simps)
qed

lemma terminator_unique:
  assumes "m @ 0x5a # replicate a 0 = m' @ 0x5a # replicate b (0 :: uint8)"
  shows "m = m'"
proof -
  have "dropWhile (\<lambda>x. x = 0) (replicate a 0 @ 0x5a # rev m) = 0x5a # rev m" for m :: "uint8 list" and a
    by (induction a) simp_all
  then have s: "dropWhile (\<lambda>x. x = 0) (rev (m @ 0x5a # replicate a 0)) = 0x5a # rev m"
    for m :: "uint8 list" and a by simp
  have "0x5a # rev m = (0x5a :: uint8) # rev m'" using s [of m a] s [of m' b] assms by simp
  then show ?thesis by simp
qed

subsection \<open>The key hash is injective\<close>

lemma phase1_round_inj: "phase1_round TK s i = phase1_round TK t i \<Longrightarrow> s = t"
  by (cases s; cases t) (auto simp: phase1_round_def Let_def)

lemma phase1_rounds_inj: "foldl (phase1_round TK) s is = foldl (phase1_round TK) t is \<Longrightarrow> s = t"
proof (induction "is" arbitrary: s t)
  case (Cons i "is")
  then have "phase1_round TK s i = phase1_round TK t i" by (metis foldl_Cons)
  then show ?case by (rule phase1_round_inj)
qed simp

lemma phase2_mix_inj: "phase2_mix TK s = phase2_mix TK t \<Longrightarrow> s = t"
  by (cases s; cases t) (auto simp: phase2_mix_def Let_def)

lemma Lo8_Hi8_inj: "Lo8 v = Lo8 w \<Longrightarrow> Hi8 v = Hi8 w \<Longrightarrow> v = w"
proof (rule bit_word_eqI)
  fix n assume eq: "Lo8 v = Lo8 w" "Hi8 v = Hi8 w" and n: "n < LENGTH(16)"
  have l: "bit (Lo8 x) k = bit x k" if "k < 8" for x k
    using that unfolding Lo8_def mask_ff by (simp add: bit_simps)
  have h: "bit (Hi8 x) k = bit x (8 + k)" if "k < 8" for x k
    using that unfolding Hi8_def mask_ff by (simp add: bit_simps)
  show "bit v n = bit w n"
    using l [of n v] l [of n w] h [of "n - 8" v] h [of "n - 8" w] eq n by (cases "n < 8") auto
qed

lemma Lo16_Hi16_inj: "Lo16 v = Lo16 w \<Longrightarrow> Hi16 v = Hi16 w \<Longrightarrow> v = w"
proof (rule bit_word_eqI)
  fix n assume eq: "Lo16 v = Lo16 w" "Hi16 v = Hi16 w" and n: "n < LENGTH(32)"
  have l: "bit (Lo16 x) k = bit x k" if "k < 16" for x k
    using that unfolding Lo16_def mask_ff by (simp add: bit_simps)
  have h: "bit (Hi16 x) k = bit x (16 + k)" if "k < 16" for x k
    using that unfolding Hi16_def mask_ff by (simp add: bit_simps)
  show "bit v n = bit w n"
    using l [of n v] l [of n w] h [of "n - 16" v] h [of "n - 16" w] eq n by (cases "n < 16") auto
qed

lemma Mk16_inj: "Mk16 a b = Mk16 c d \<Longrightarrow> a = c \<and> b = d"
proof -
  assume eq: "Mk16 a b = Mk16 c d"
  have low: "bit x k \<Longrightarrow> k < 8" for x :: uint8 and k using bit_imp_le_length by fastforce
  have l: "bit (Mk16 x y) k = bit y k" "bit (Mk16 x y) (8 + k) = bit x k" if "k < 8" for x y k
    using that by (auto simp: Mk16_def bit_simps dest: low)
  show ?thesis
  proof (intro conjI; rule bit_word_eqI)
    fix k assume "k < LENGTH(8)"
    then have "k < 8" by simp
    then show "bit a k = bit c k" "bit b k = bit d k"
      using l [of k a b] l [of k c d] eq by simp_all
  qed
qed

lemma tkhash_phase2_inj:
  assumes "tkhash_phase2 TK q IV = tkhash_phase2 TK q' IV'"
  shows "q = q' \<and> IV = IV'"
proof -
  obtain q0 q1 q2 q3 q4 r0 r1 r2 r3 r4 where q: "q = (q0, q1, q2, q3, q4)" "q' = (r0, r1, r2, r3, r4)"
    by (cases q; cases q') auto
  obtain p0 p1 p2 p3 p4 p5 where p: "phase2_mix TK (q0, q1, q2, q3, q4, q4 + IV) = (p0, p1, p2, p3, p4, p5)"
    by (metis prod_cases6)
  obtain s0 s1 s2 s3 s4 s5 where s: "phase2_mix TK (r0, r1, r2, r3, r4, r4 + IV') = (s0, s1, s2, s3, s4, s5)"
    by (metis prod_cases6)
  have "IV = IV'" "p0 = s0" "p1 = s1" "p2 = s2" "p3 = s3" "p4 = s4" "p5 = s5"
    using assms by (auto simp: tkhash_phase2_def q p s intro: Lo8_Hi8_inj)
  then have "IV = IV'" "phase2_mix TK (q0, q1, q2, q3, q4, q4 + IV) = phase2_mix TK (r0, r1, r2, r3, r4, r4 + IV')"
    using p s by simp_all
  then show ?thesis using phase2_mix_inj q by blast
qed

lemma tkhash_phase1_inj:
  assumes "length TA = 6" "length TA' = 6" "tkhash_phase1 TK TA IV = tkhash_phase1 TK TA' IV'"
  shows "TA = TA' \<and> IV = IV'"
proof -
  have "(Lo16 IV, Hi16 IV, Mk16 (TA ! 1) (TA ! 0), Mk16 (TA ! 3) (TA ! 2), Mk16 (TA ! 5) (TA ! 4)) =
    (Lo16 IV', Hi16 IV', Mk16 (TA' ! 1) (TA' ! 0), Mk16 (TA' ! 3) (TA' ! 2), Mk16 (TA' ! 5) (TA' ! 4))"
    using assms(3) unfolding tkhash_phase1_def by (rule phase1_rounds_inj)
  then have "IV = IV'" and "TA ! 0 = TA' ! 0" "TA ! 1 = TA' ! 1" "TA ! 2 = TA' ! 2" "TA ! 3 = TA' ! 3"
    "TA ! 4 = TA' ! 4" "TA ! 5 = TA' ! 5"
    by (auto dest: Mk16_inj intro: Lo16_Hi16_inj)
  moreover have "TA = TA'"
  proof (rule nth_equalityI)
    fix i assume "i < length TA"
    then consider "i = 0" | "i = 1" | "i = 2" | "i = 3" | "i = 4" | "i = 5" using assms(1) by linarith
    then show "TA ! i = TA' ! i" by cases (use calculation in simp_all)
  qed (simp add: assms)
  ultimately show ?thesis by blast
qed

subsection \<open>Properties\<close>

text \<open>
  C24: Per packet keys never repeat. Under one temporal key, two packets with different
  transmitter address, upper or lower initialisation vector get different RC4 keys, as the
  comments of the key hash promise.
\<close>

theorem tkip_rc4_key_unique:
  assumes "length TA = 6" "length TA' = 6" "(TA, IV32, IV16) \<noteq> (TA', IV32', IV16')"
  shows "tkhash_phase2 TK (tkhash_phase1 TK TA IV32) IV16 \<noteq>
    tkhash_phase2 TK (tkhash_phase1 TK TA' IV32') IV16'"
  using tkhash_phase2_inj [of TK "tkhash_phase1 TK TA IV32" IV16 "tkhash_phase1 TK TA' IV32'" IV16']
    tkhash_phase1_inj [OF assms(1,2), of TK IV32 IV32'] assms(3) by blast

theorem tkip_rc4_key_unique_witness:
  "tkhash_phase2 (replicate 16 7) (tkhash_phase1 (replicate 16 7) [0, 1, 2, 3, 4, 5] 0) 1 \<noteq>
   tkhash_phase2 (replicate 16 7) (tkhash_phase1 (replicate 16 7) [0, 1, 2, 3, 4, 5] 0) 2"
  by (rule tkip_rc4_key_unique) simp_all

text \<open>
  Michael separates keys and single words: for one message two different keys never give
  the same code, and for one key two messages that differ only in one aligned word never do.
\<close>

lemma tkip_mic_separates:
  "(\<forall>k0 k1 k0' k1' n m c. tkip_mic k0 k1 n m = Some c \<and> tkip_mic k0' k1' n m = Some c \<longrightarrow>
      k0 = k0' \<and> k1 = k1') \<and>
   (\<forall>k0 k1 xs ws ws' zs. length xs mod 4 = 0 \<and> length ws = 4 \<and> length ws' = 4 \<and> length zs mod 4 = 0 \<and>
      tkip_mic k0 k1 (length (xs @ ws @ zs)) (xs @ ws @ zs) =
      tkip_mic k0 k1 (length (xs @ ws' @ zs)) (xs @ ws' @ zs) \<longrightarrow> ws = ws')"
proof (intro conjI allI impI; (elim conjE)?)
  fix k0 k1 k0' k1' n m c
  assume "tkip_mic k0 k1 n m = Some c" "tkip_mic k0' k1' n m = Some c"
  then have "(k0, k1) = (k0', k1')"
    by (auto simp: tkip_mic_def dest!: mic_words_inj)
  then show "k0 = k0'" "k1 = k1'" by simp_all
next
  fix k0 k1 and xs ws ws' zs :: "uint8 list"
  assume l: "length xs mod 4 = 0" "length ws = 4" "length ws' = 4" "length zs mod 4 = 0"
    and eq: "tkip_mic k0 k1 (length (xs @ ws @ zs)) (xs @ ws @ zs) =
      tkip_mic k0 k1 (length (xs @ ws' @ zs)) (xs @ ws' @ zs)"
  obtain a b c d where w: "ws = [a, b, c, d]" using l(2) by (auto simp: numeral_eq_Suc length_Suc_conv)
  obtain a' b' c' d' where w': "ws' = [a', b', c', d']" using l(3) by (auto simp: numeral_eq_Suc length_Suc_conv)
  let ?f = "foldl (\<lambda>(l, r) w. tkip_micblock (l XOR w, r))"
  have full: "4 * ((length m + 3) div 4) = length m" if "length m mod 4 = 0" for m :: "uint8 list"
    using that by presburger
  have mic: "tkip_mic k0 k1 (length (xs @ vs @ zs)) (xs @ vs @ zs) =
      Some (?f (?f (?f (k0, k1) (words32 xs)) (words32 vs)) (words32 zs))" if "length vs = 4" for vs
  proof -
    have "length (xs @ vs @ zs) mod 4 = 0" using l that by (simp add: mod_add_eq [of "length xs", symmetric])
    note f = full [OF this]
    have "read_mem (xs @ vs @ zs) 0 (4 * ((length (xs @ vs @ zs) + 3) div 4)) = Some (xs @ vs @ zs)"
      unfolding f by (simp add: read_mem_def)
    then show ?thesis unfolding tkip_mic_def using l that by (simp add: words32_append)
  qed
  have "?f (?f (k0, k1) (words32 xs)) (words32 ws) = ?f (?f (k0, k1) (words32 xs)) (words32 ws')"
    using eq unfolding mic [OF l(2)] mic [OF l(3)] option.inject by (rule mic_words_inj)
  then have "get32 a b c d = get32 a' b' c' d'"
    by (cases "?f (k0, k1) (words32 xs)") (auto simp: w w' xor_left_cancel dest!: tkip_micblock_inj)
  then show "ws = ws'" using get32_inj by (simp add: w w')
qed

lemma tkip_mic_separates_witness:
  "tkip_mic 0 0 4 [1, 2, 3, 4] \<noteq> tkip_mic 0 1 4 [1, 2, 3, 4]"
proof -
  obtain c where "tkip_mic 0 0 4 [1, 2, 3, 4] = Some c"
    by (cases "tkip_mic 0 0 4 [1, 2, 3, 4]") (simp_all add: tkip_mic_def read_mem_def)
  then show ?thesis using tkip_mic_separates by (metis zero_neq_one)
qed

text \<open>
  The terminator. With room for it, \<open>tkip_mic_eom\<close> appends \<open>0x5a\<close> and 4 to 7 zero bytes,
  returns the new length, which ends the whole frame (offset \<open>o\<close> included) on a word boundary,
  and changes nothing else.
\<close>

lemma tkip_mic_eom_terminates:
  assumes "unat n + unat o0 + 8 < 2 ^ 32" "length m = unat n"
    "length room = 5 + mic_pad (unat n + unat o0)"
  shows "tkip_mic_eom (m @ room @ rest) n o0 =
      Some (m @ 0x5a # replicate (4 + mic_pad (unat n + unat o0)) 0 @ rest,
        n + 5 + word_of_nat (mic_pad (unat n + unat o0))) \<and>
    4 + mic_pad (unat n + unat o0) \<in> {4, 5, 6, 7} \<and>
    (unat o0 + (unat n + 5 + mic_pad (unat n + unat o0))) mod 4 = 0"
proof -
  have "mic_pad (unat n + unat o0) < 4" by (rule mic_pad_props)
  then have "4 + mic_pad (unat n + unat o0) \<in> {4, 5, 6, 7}" by auto
  then show ?thesis
    using tkip_mic_eom_eq [OF _ assms(2,3), of rest] assms(1) mic_pad_props [of "unat n + unat o0"]
    by (simp add: add_ac)
qed

lemma tkip_mic_eom_terminates_witness:
  "tkip_mic_eom ([1, 2] @ replicate 6 9 @ [8]) 2 0 =
      Some ([1, 2] @ 0x5a # replicate (4 + mic_pad (unat (2 :: uint32) + unat (0 :: uint32))) 0 @ [8],
        2 + 5 + word_of_nat (mic_pad (unat (2 :: uint32) + unat (0 :: uint32)))) \<and>
    mic_pad (unat (2 :: uint32) + unat (0 :: uint32)) = 1"
  using tkip_mic_eom_terminates [of 2 0 "[1, 2]" "replicate 6 9" "[8]"] by (simp add: mic_pad_def)

text \<open>
  Padding is unambiguous: different messages never have the same terminated form, whatever
  number of zero bytes follows the terminator.
\<close>

lemma tkip_padding_unique:
  assumes "m \<noteq> m'"
    and "length m = unat n" "unat n + unat o0 + 8 < 2 ^ 32" "length room = 5 + mic_pad (unat n + unat o0)"
    and "length m' = unat n'" "unat n' + unat o0' + 8 < 2 ^ 32" "length room' = 5 + mic_pad (unat n' + unat o0')"
  shows "map_option fst (tkip_mic_eom (m @ room) n o0) \<noteq> map_option fst (tkip_mic_eom (m' @ room') n' o0')"
proof -
  have "map_option fst (tkip_mic_eom (m @ room) n o0) = Some (m @ 0x5a # replicate (4 + mic_pad (unat n + unat o0)) 0)"
    using tkip_mic_eom_eq [of n o0 m room "[]"] assms(2-4) by simp
  moreover have "map_option fst (tkip_mic_eom (m' @ room') n' o0')
      = Some (m' @ 0x5a # replicate (4 + mic_pad (unat n' + unat o0')) 0)"
    using tkip_mic_eom_eq [of n' o0' m' room' "[]"] assms(5-7) by simp
  moreover have "m @ 0x5a # replicate (4 + mic_pad (unat n + unat o0)) 0
      \<noteq> m' @ 0x5a # replicate (4 + mic_pad (unat n' + unat o0')) 0"
    using terminator_unique assms(1) by blast
  ultimately show ?thesis by (simp only: option.inject not_False_eq_True)
qed

end
