(* ===== verification/Bcmutils.thy ===== *)
theory Bcmutils
  imports Prelude
begin

text \<open>
  The utilities of \<^verbatim>\<open>shared/bcmutils.c\<close> that parse and print: character classes, numbers, Ethernet and
  IP addresses, the element lists of 802.11 frames, and the byte counters the ciphers use. A string
  is the list of its bytes up to the terminating 0; what is left of it stands for a pointer into
  it. \<open>unsigned long\<close> has 32 bits.
\<close>

subsection \<open>Characters\<close>

definition bcm_ctype :: "uint8 list" where
  "bcm_ctype = [
   8, 8, 8, 8, 8, 8, 8, 8, 8, 40, 40, 40, 40, 40, 8, 8,
   8, 8, 8, 8, 8, 8, 8, 8, 8, 8, 8, 8, 8, 8, 8, 8,
   160, 16, 16, 16, 16, 16, 16, 16, 16, 16, 16, 16, 16, 16, 16, 16,
   4, 4, 4, 4, 4, 4, 4, 4, 4, 4, 16, 16, 16, 16, 16, 16,
   16, 65, 65, 65, 65, 65, 65, 1, 1, 1, 1, 1, 1, 1, 1, 1,
   1, 1, 1, 1, 1, 1, 1, 1, 1, 1, 1, 16, 16, 16, 16, 16,
   16, 66, 66, 66, 66, 66, 66, 2, 2, 2, 2, 2, 2, 2, 2, 2,
   2, 2, 2, 2, 2, 2, 2, 2, 2, 2, 2, 16, 16, 16, 16, 8,
   0, 0, 0, 0, 0, 0, 0, 0, 0, 0, 0, 0, 0, 0, 0, 0,
   0, 0, 0, 0, 0, 0, 0, 0, 0, 0, 0, 0, 0, 0, 0, 0,
   160, 16, 16, 16, 16, 16, 16, 16, 16, 16, 16, 16, 16, 16, 16, 16,
   16, 16, 16, 16, 16, 16, 16, 16, 16, 16, 16, 16, 16, 16, 16, 16,
   1, 1, 1, 1, 1, 1, 1, 1, 1, 1, 1, 1, 1, 1, 1, 1,
   1, 1, 1, 1, 1, 1, 1, 16, 1, 1, 1, 1, 1, 1, 1, 2,
   2, 2, 2, 2, 2, 2, 2, 2, 2, 2, 2, 2, 2, 2, 2, 2,
   2, 2, 2, 2, 2, 2, 2, 16, 2, 2, 2, 2, 2, 2, 2, 2]"

definition bcm_ismask :: "uint8 \<Rightarrow> uint8" where "bcm_ismask c = bcm_ctype ! unat c"

definition bcm_isdigit :: "uint8 \<Rightarrow> bool" where "bcm_isdigit c \<longleftrightarrow> bcm_ismask c AND 4 \<noteq> 0"
definition bcm_isxdigit :: "uint8 \<Rightarrow> bool" where "bcm_isxdigit c \<longleftrightarrow> bcm_ismask c AND 0x44 \<noteq> 0"
definition bcm_isspace :: "uint8 \<Rightarrow> bool" where "bcm_isspace c \<longleftrightarrow> bcm_ismask c AND 0x20 \<noteq> 0"
definition bcm_isupper :: "uint8 \<Rightarrow> bool" where "bcm_isupper c \<longleftrightarrow> bcm_ismask c AND 1 \<noteq> 0"
definition bcm_islower :: "uint8 \<Rightarrow> bool" where "bcm_islower c \<longleftrightarrow> bcm_ismask c AND 2 \<noteq> 0"
definition bcm_isprint :: "uint8 \<Rightarrow> bool" where "bcm_isprint c \<longleftrightarrow> bcm_ismask c AND 0x97 \<noteq> 0"

definition bcm_tolower :: "uint8 \<Rightarrow> uint8" where "bcm_tolower c = (if bcm_isupper c then c + 32 else c)"
definition bcm_toupper :: "uint8 \<Rightarrow> uint8" where "bcm_toupper c = (if bcm_islower c then c - 32 else c)"

subsection \<open>Numbers\<close>

definition digit_value :: "uint8 \<Rightarrow> uint32" where
  "digit_value c = (if bcm_isdigit c then ucast c - 48 else ucast (bcm_toupper c) - 65 + 10)"

text \<open>The digits: the value and the rest of the string, or -1 with \<open>*endp\<close> not set on overflow.\<close>

fun strtoul_digits :: "uint32 \<Rightarrow> bool \<Rightarrow> uint8 list \<Rightarrow> uint32 \<Rightarrow> uint32 \<Rightarrow> uint32 \<times> uint8 list option" where
  "strtoul_digits base neg [] result last_result = (result, Some [])"
| "strtoul_digits base neg (c # cp) result last_result =
     (if bcm_isxdigit c \<and> digit_value c < base
      then let result = result * base + digit_value c in
        if result < last_result \<and> \<not> neg then (- 1, None)
        else strtoul_digits base neg cp result result
      else (result, Some (c # cp)))"

text \<open>\<open>cp[k] == c\<close>, where behind the string there is a 0.\<close>

definition at_char :: "uint8 list \<Rightarrow> nat \<Rightarrow> uint8 \<Rightarrow> bool" where "at_char cp k c \<longleftrightarrow> k < length cp \<and> cp ! k = c"

definition bcm_strtoul :: "uint8 list \<Rightarrow> uint32 \<Rightarrow> uint32 \<times> uint8 list option" where
  "bcm_strtoul cp base =
     (let cp = dropWhile bcm_isspace cp;
          neg = at_char cp 0 45;
          cp = (if at_char cp 0 43 \<or> at_char cp 0 45 then drop 1 cp else cp);
          hex = at_char cp 0 48 \<and> (at_char cp 1 120 \<or> at_char cp 1 88);
          (base, cp) =
            (if base = 0
             then if at_char cp 0 48 then if hex then (16, drop 2 cp) else (8, drop 1 cp) else (10, cp)
             else if base = 16 \<and> hex then (base, drop 2 cp) else (base, cp));
          (result, endp) = strtoul_digits base neg cp 0 0
      in (if neg then - result else result, endp))"

definition bcm_atoi :: "uint8 list \<Rightarrow> int32" where "bcm_atoi s = fst (bcm_strtoul s 10)"

text \<open>\<open>%d\<close> for a number that is not negative, and \<open>%02x\<close>.\<close>

fun dec :: "nat \<Rightarrow> uint8 list" where
  "dec n = (if n < 10 then [48 + word_of_nat n] else dec (n div 10) @ [48 + word_of_nat (n mod 10)])"

declare dec.simps [simp del]

definition hexdig :: "uint8 \<Rightarrow> uint8" where "hexdig n = (if n < 10 then 48 + n else 87 + n)"

definition hex2 :: "uint8 \<Rightarrow> uint8 list" where "hex2 b = [hexdig (drop_bit 4 b), hexdig (b AND 0x0f)]"

subsection \<open>Addresses\<close>

text \<open>
  The loop of \<open>bcm_ether_atoe\<close> with \<open>n\<close> octets to go: the octets written and the result. When
  \<open>bcm_strtoul\<close> does not set the pointer, the loop goes on behind the character it stood on.
\<close>

fun atoe_loop :: "nat \<Rightarrow> uint8 list \<Rightarrow> uint8 list \<times> bool" where
  "atoe_loop 0 p = ([], True)"
| "atoe_loop (Suc n) p =
     (let (v, e) = bcm_strtoul p 16;
          p = (case e of None \<Rightarrow> p | Some q \<Rightarrow> q)
      in if p = [] \<or> n = 0 then ([ucast v], n = 0)
         else let (os, ok) = atoe_loop n (tl p) in (ucast v # os, ok))"

definition bcm_ether_atoe :: "uint8 list \<Rightarrow> uint8 list \<times> bool" where
  "bcm_ether_atoe p = atoe_loop 6 p"

definition bcm_ether_ntoa :: "uint8 list \<Rightarrow> uint8 list" where
  "bcm_ether_ntoa ea = hex2 (ea ! 0) @ 58 # hex2 (ea ! 1) @ 58 # hex2 (ea ! 2) @ 58 # hex2 (ea ! 3) @ 58 #
     hex2 (ea ! 4) @ 58 # hex2 (ea ! 5)"

definition bcm_ip_ntoa :: "uint8 list \<Rightarrow> uint8 list" where
  "bcm_ip_ntoa ia = dec (unat (ia ! 0)) @ 46 # dec (unat (ia ! 1)) @ 46 # dec (unat (ia ! 2)) @ 46 # dec (unat (ia ! 3))"

subsection \<open>Elements of frames\<close>

text \<open>
  An element is a tag, a length and that many bytes. Elements are named by their offset in the
  buffer, lengths are C integers. The result is \<open>None\<close> when a byte behind the buffer would be read.
\<close>

definition bcm_valid_tlv :: "uint8 list \<Rightarrow> nat \<Rightarrow> int \<Rightarrow> bool option" where
  "bcm_valid_tlv buf elt buflen =
     (if buflen < 2 then Some False
      else if length buf \<le> elt + 1 then None
      else Some (buflen \<ge> 2 + int (unat (buf ! (elt + 1)))))"

text \<open>The next element, if any, and \<open>*buflen\<close>.\<close>

definition bcm_next_tlv :: "uint8 list \<Rightarrow> nat \<Rightarrow> int \<Rightarrow> (nat option \<times> int) option" where
  "bcm_next_tlv buf elt buflen =
     (case bcm_valid_tlv buf elt buflen of None \<Rightarrow> None
      | Some False \<Rightarrow> Some (None, buflen)
      | Some True \<Rightarrow>
        let len = unat (buf ! (elt + 1)); elt = elt + 2 + len; buflen = buflen - (2 + int len) in
        (case bcm_valid_tlv buf elt buflen of None \<Rightarrow> None
         | Some ok \<Rightarrow> Some (if ok then Some elt else None, buflen)))"

function parse_tlvs :: "bool \<Rightarrow> uint8 list \<Rightarrow> nat \<Rightarrow> int \<Rightarrow> uint32 \<Rightarrow> nat option option" where
  "parse_tlvs ordered buf elt totlen key =
     (if totlen < 2 then Some None
      else if length buf \<le> elt + 1 then None
      else
        let id = ucast (buf ! elt); len = unat (buf ! (elt + 1)) in
        if ordered \<and> id > key then Some None
        else if id = key \<and> totlen \<ge> int len + 2 then Some (Some elt)
        else parse_tlvs ordered buf (elt + (len + 2)) (totlen - (int len + 2)) key)"
  by auto
termination by (relation "measure (\<lambda>(ordered, buf, elt, totlen, key). nat totlen)") (auto intro: order.strict_trans1 [of _ 0])

declare parse_tlvs.simps [simp del]

definition bcm_parse_tlvs :: "uint8 list \<Rightarrow> int \<Rightarrow> uint32 \<Rightarrow> nat option option" where
  "bcm_parse_tlvs buf buflen key = parse_tlvs False buf 0 buflen key"

definition bcm_parse_ordered_tlvs :: "uint8 list \<Rightarrow> int \<Rightarrow> uint32 \<Rightarrow> nat option option" where
  "bcm_parse_ordered_tlvs buf buflen key = parse_tlvs True buf 0 buflen key"

subsection \<open>Counters and bitmaps\<close>

text \<open>Numbers of several bytes, least significant first.\<close>

fun bcm_inc_bytes :: "uint8 list \<Rightarrow> uint8 \<Rightarrow> uint8 list" where
  "bcm_inc_bytes [] amount = []"
| "bcm_inc_bytes (n # num) amount =
     (let n = n + amount in if n \<ge> amount then n # num else n # bcm_inc_bytes num 1)"

text \<open>The loop of \<open>bcm_cmp_bytes\<close> from the index \<open>i - 1\<close> down.\<close>

fun cmp_bytes :: "uint8 list \<Rightarrow> uint8 list \<Rightarrow> nat \<Rightarrow> int" where
  "cmp_bytes arg1 arg2 0 = 0"
| "cmp_bytes arg1 arg2 (Suc i) =
     (if arg1 ! i \<noteq> arg2 ! i then int (unat (arg1 ! i)) - int (unat (arg2 ! i)) else cmp_bytes arg1 arg2 i)"

definition bcm_cmp_bytes :: "uint8 list \<Rightarrow> uint8 list \<Rightarrow> uint8 \<Rightarrow> int" where
  "bcm_cmp_bytes arg1 arg2 nbytes = cmp_bytes arg1 arg2 (unat nbytes)"

lemma clear_lowest_less: "tmp \<noteq> 0 \<Longrightarrow> unat (tmp AND (tmp - 1)) < unat (tmp :: uint8)"
proof -
  assume t: "tmp \<noteq> 0"
  have "tmp AND (tmp - 1) \<le> tmp - 1" by (rule word_and_le1)
  then have "unat (tmp AND (tmp - 1)) \<le> unat tmp - 1" using unat_minus_one [OF t] by (simp add: word_le_nat_alt)
  moreover have "unat tmp > 0" using t by (simp add: unat_gt_0)
  ultimately show ?thesis by linarith
qed

text \<open>\<open>while (tmp)\<close>: clearing the lowest bit.\<close>

function byte_bits :: "uint8 \<Rightarrow> uint32 \<Rightarrow> uint32" where
  "byte_bits tmp bitcount = (if tmp = 0 then bitcount else byte_bits (tmp AND (tmp - 1)) (bitcount + 1))"
  by auto
termination by (relation "measure (\<lambda>(tmp, bitcount). unat tmp)") (auto intro: clear_lowest_less)

declare byte_bits.simps [simp del]

definition bcm_bitcount :: "uint8 list \<Rightarrow> uint32" where
  "bcm_bitcount bitmap = fold byte_bits bitmap 0"

subsection \<open>Finding elements\<close>

text \<open>An element list and its encoding.\<close>

definition tlv :: "uint8 \<times> uint8 list \<Rightarrow> uint8 list" where
  "tlv e = fst e # word_of_nat (length (snd e)) # snd e"

definition tlvs :: "(uint8 \<times> uint8 list) list \<Rightarrow> uint8 list" where "tlvs es = concat (map tlv es)"

definition tlvs_ok :: "(uint8 \<times> uint8 list) list \<Rightarrow> bool" where "tlvs_ok es \<longleftrightarrow> (\<forall>e \<in> set es. length (snd e) < 256)"

lemma parse_tlvs_total: "totlen + int elt \<le> int (length buf) \<Longrightarrow> parse_tlvs ordered buf elt totlen key \<noteq> None"
proof (induction ordered buf elt totlen key rule: parse_tlvs.induct)
  case (1 ordered buf elt totlen key)
  show ?case
  proof (cases "totlen < 2")
    case False
    then have len: "\<not> length buf \<le> elt + 1" using 1(2) by linarith
    note ih = 1(1) [OF False len refl refl]
    show ?thesis using ih 1(2) False len by (subst parse_tlvs.simps) (simp add: Let_def)
  qed (simp add: parse_tlvs.simps)
qed

lemma tlv_at:
  assumes "length (snd e) < 256" "buf = pre @ tlv e @ rest"
  shows "buf ! length pre = fst e" "unat (buf ! (length pre + 1)) = length (snd e)" "length pre + 1 < length buf"
  using assms by (simp_all add: tlv_def nth_append unat_of_nat take_bit_nat_eq_self)

lemma parse_tlvs_finds:
  assumes "tlvs_ok es" "buf = pre @ tlvs es" "totlen = int (length (tlvs es))"
    "ordered \<Longrightarrow> sorted (map (\<lambda>e. unat (fst e)) es)"
  shows "case find (\<lambda>e. ucast (fst e) = key) es of
      None \<Rightarrow> parse_tlvs ordered buf (length pre) totlen key = Some None
    | Some e \<Rightarrow> \<exists>pre' rest. parse_tlvs ordered buf (length pre) totlen key = Some (Some (length pre')) \<and> buf = pre' @ tlv e @ rest"
  using assms
proof (induction es arbitrary: pre totlen)
  case Nil
  then show ?case by (subst parse_tlvs.simps) (simp add: tlvs_def)
next
  case (Cons e es)
  have l: "length (snd e) < 256" and b: "buf = pre @ tlv e @ tlvs es" using Cons.prems by (simp_all add: tlvs_ok_def tlvs_def)
  note at = tlv_at [OF l b]
  have tl: "totlen = int (length (snd e)) + 2 + int (length (tlvs es))" using Cons.prems(3) by (simp add: tlvs_def tlv_def)
  have unfold: "parse_tlvs ordered buf (length pre) totlen key =
      (if ordered \<and> ucast (fst e) > key then Some None
       else if ucast (fst e) = key then Some (Some (length pre))
       else parse_tlvs ordered buf (length (pre @ tlv e)) (int (length (tlvs es))) key)"
    using at tl by (subst parse_tlvs.simps) (simp add: Let_def tlv_def)
  show ?case
  proof (cases "ucast (fst e) = key")
    case True
    then have "parse_tlvs ordered buf (length pre) totlen key = Some (Some (length pre))" unfolding unfold by simp
    then show ?thesis using True b by auto
  next
    case False
    show ?thesis
    proof (cases "ordered \<and> ucast (fst e) > key")
      case True
      have "unat (fst e) \<le> unat (fst x)" if "x \<in> set es" for x using Cons.prems(4) True that by auto
      then have "(ucast (fst e) :: uint32) \<le> ucast (fst x)" if "x \<in> set es" for x
        using that by (simp add: word_le_nat_alt unsigned_ucast_eq take_bit_nat_eq_self unat8_less order.strict_trans [OF unat8_less])
      note le = this
      have "key < ucast (fst x)" if "x \<in> set (e # es)" for x
      proof (cases "x = e")
        case False
        then have "x \<in> set es" using that by simp
        from True have "key < ucast (fst e)" by (rule conjunct2)
        then show ?thesis using le [OF \<open>x \<in> set es\<close>] by (rule order_less_le_trans)
      qed (use True in simp)
      then have "find (\<lambda>e. ucast (fst e) = key) (e # es) = None"
        unfolding find_None_iff by (metis order_less_irrefl)
      then show ?thesis using unfold True by simp
    next
      case ok: False
      have "case find (\<lambda>e. ucast (fst e) = key) es of
          None \<Rightarrow> parse_tlvs ordered buf (length (pre @ tlv e)) (int (length (tlvs es))) key = Some None
        | Some e' \<Rightarrow> \<exists>pre' rest. parse_tlvs ordered buf (length (pre @ tlv e)) (int (length (tlvs es))) key = Some (Some (length pre')) \<and>
            buf = pre' @ tlv e' @ rest"
        by (rule Cons.IH) (use Cons.prems b in \<open>auto simp: tlvs_ok_def\<close>)
      moreover have "parse_tlvs ordered buf (length pre) totlen key =
          parse_tlvs ordered buf (length (pre @ tlv e)) (int (length (tlvs es))) key"
        unfolding unfold by (simp only: False ok if_False)
      ultimately show ?thesis using False by (cases "find (\<lambda>e. ucast (fst e) = key) es") simp_all
    qed
  qed
qed

text \<open>C32: Looking up an element. Whatever the buffer holds, the look-up ends and reads no byte behind
  the length it was given. In the encoding of a list of elements it finds the first element with
  the tag, completely contained in the buffer, or reports that there is none; for elements in
  ascending order the look-up that stops early finds the same.\<close>

theorem tlv_lookup_correct:
  assumes "tlvs_ok es"
  shows "(buflen \<le> int (length buf) \<longrightarrow> bcm_parse_tlvs buf buflen key \<noteq> None \<and> bcm_parse_ordered_tlvs buf buflen key \<noteq> None) \<and>
    (case find (\<lambda>e. ucast (fst e) = key) es of
       None \<Rightarrow> bcm_parse_tlvs (tlvs es) (int (length (tlvs es))) key = Some None
     | Some e \<Rightarrow> \<exists>pre rest. bcm_parse_tlvs (tlvs es) (int (length (tlvs es))) key = Some (Some (length pre)) \<and>
         tlvs es = pre @ tlv e @ rest) \<and>
    (sorted (map (\<lambda>e. unat (fst e)) es) \<longrightarrow>
       (case find (\<lambda>e. ucast (fst e) = key) es of
          None \<Rightarrow> bcm_parse_ordered_tlvs (tlvs es) (int (length (tlvs es))) key = Some None
        | Some e \<Rightarrow> \<exists>pre rest. bcm_parse_ordered_tlvs (tlvs es) (int (length (tlvs es))) key = Some (Some (length pre)) \<and>
            tlvs es = pre @ tlv e @ rest))"
proof (intro conjI impI)
  assume "buflen \<le> int (length buf)"
  then show "bcm_parse_tlvs buf buflen key \<noteq> None" "bcm_parse_ordered_tlvs buf buflen key \<noteq> None"
    using parse_tlvs_total [of buflen 0 buf] unfolding bcm_parse_tlvs_def bcm_parse_ordered_tlvs_def by simp_all
next
  show "case find (\<lambda>e. ucast (fst e) = key) es of
       None \<Rightarrow> bcm_parse_tlvs (tlvs es) (int (length (tlvs es))) key = Some None
     | Some e \<Rightarrow> \<exists>pre rest. bcm_parse_tlvs (tlvs es) (int (length (tlvs es))) key = Some (Some (length pre)) \<and>
         tlvs es = pre @ tlv e @ rest"
    unfolding bcm_parse_tlvs_def
    by (rule parse_tlvs_finds [OF assms, of "tlvs es" "[]", unfolded list.size]) simp_all
next
  assume sorted: "sorted (map (\<lambda>e. unat (fst e)) es)"
  show "case find (\<lambda>e. ucast (fst e) = key) es of
       None \<Rightarrow> bcm_parse_ordered_tlvs (tlvs es) (int (length (tlvs es))) key = Some None
     | Some e \<Rightarrow> \<exists>pre rest. bcm_parse_ordered_tlvs (tlvs es) (int (length (tlvs es))) key = Some (Some (length pre)) \<and>
         tlvs es = pre @ tlv e @ rest"
    unfolding bcm_parse_ordered_tlvs_def
    by (rule parse_tlvs_finds [OF assms, of "tlvs es" "[]", unfolded list.size]) (simp_all add: sorted)
qed

theorem tlv_lookup_correct_witness:
  "\<exists>pre rest. bcm_parse_tlvs (tlvs [(0, [1, 2]), (5, [9])]) 7 5 = Some (Some (length pre)) \<and>
     tlvs [(0, [1, 2]), (5, [9])] = pre @ tlv (5, [9]) @ rest"
  using tlv_lookup_correct [of "[(0, [1, 2]), (5, [9])]" 0 "[]" 5] by (simp add: tlvs_ok_def tlvs_def tlv_def)

subsection \<open>Reading back numbers and addresses\<close>

lemma ctype_at:
  "bcm_ismask 48 = 4" "bcm_ismask 49 = 4" "bcm_ismask 50 = 4" "bcm_ismask 51 = 4" "bcm_ismask 52 = 4" "bcm_ismask 53 = 4"
  "bcm_ismask 54 = 4" "bcm_ismask 55 = 4" "bcm_ismask 56 = 4" "bcm_ismask 57 = 4" "bcm_ismask 97 = 66" "bcm_ismask 98 = 66"
  "bcm_ismask 99 = 66" "bcm_ismask 100 = 66" "bcm_ismask 101 = 66" "bcm_ismask 102 = 66" "bcm_ismask 120 = 2" "bcm_ismask 88 = 1"
  "bcm_ismask 43 = 16" "bcm_ismask 45 = 16" "bcm_ismask 58 = 16" "bcm_ismask 108 = 2" "bcm_ismask 110 = 2" "bcm_ismask 117 = 2"
  by (simp_all add: bcm_ismask_def bcm_ctype_def)

lemma xdigit_not:
  assumes "bcm_isxdigit c"
  shows "\<not> bcm_isspace c" "c \<noteq> 43" "c \<noteq> 45" "c \<noteq> 120" "c \<noteq> 88"
proof -
  have "list_all (\<lambda>m. m AND 0x20 = 0 \<or> m AND 0x44 = 0) bcm_ctype" by (simp add: bcm_ctype_def)
  moreover have "length bcm_ctype = 256" by (simp add: bcm_ctype_def)
  ultimately have "bcm_ismask c AND 0x20 = 0 \<or> bcm_ismask c AND 0x44 = 0"
    unfolding bcm_ismask_def list_all_length using unat8_less [of c] by simp
  then show "\<not> bcm_isspace c" using assms by (simp add: bcm_isspace_def bcm_isxdigit_def)
qed (use assms in \<open>auto simp: bcm_isxdigit_def ctype_at\<close>)

definition digit_ok :: "uint32 \<Rightarrow> uint8 \<Rightarrow> bool" where "digit_ok base c \<longleftrightarrow> bcm_isxdigit c \<and> digit_value c < base"

definition digits_val :: "nat \<Rightarrow> nat \<Rightarrow> uint8 list \<Rightarrow> nat" where
  "digits_val base r cs = foldl (\<lambda>r c. r * base + unat (digit_value c)) r cs"

lemma digits_val_simps [simp]:
  "digits_val base r [] = r" "digits_val base r (c # cs) = digits_val base (r * base + unat (digit_value c)) cs"
  "digits_val base r (cs @ ds) = digits_val base (digits_val base r cs) ds"
  by (simp_all add: digits_val_def)

lemma digits_val_ge: "base > 0 \<Longrightarrow> r \<le> digits_val base r cs"
proof (induction cs arbitrary: r)
  case (Cons c cs)
  have "r \<le> r * base + unat (digit_value c)" using Cons.prems by (simp add: trans_le_add1)
  then show ?case using Cons.IH [OF Cons.prems, of "r * base + unat (digit_value c)"] by simp
qed simp

lemma strtoul_digits_run:
  assumes "\<forall>c \<in> set cs. digit_ok base c" "digits_val (unat base) (unat r) cs < 2 ^ 32" "prev \<le> r" "base > 0"
    "rest = [] \<or> \<not> digit_ok base (hd rest)"
  shows "strtoul_digits base False (cs @ rest) r prev = (word_of_nat (digits_val (unat base) (unat r) cs), Some rest)"
  using assms
proof (induction cs arbitrary: r prev)
  case Nil
  then show ?case by (cases rest) (auto simp: digit_ok_def)
next
  case (Cons c cs)
  have c: "bcm_isxdigit c" "digit_value c < base" using Cons.prems(1) by (simp_all add: digit_ok_def)
  have b: "unat base > 0" using Cons.prems(4) by (simp add: word_less_nat_alt)
  have "unat r * unat base + unat (digit_value c) < 2 ^ 32"
    using digits_val_ge [OF b, of "unat r * unat base + unat (digit_value c)" cs] Cons.prems(2) by simp
  then have v: "unat (r * base + digit_value c) = unat r * unat base + unat (digit_value c)"
    by (simp add: unat_word_ariths)
  have "unat r \<le> unat r * unat base" using b by simp
  then have ge: "r \<le> r * base + digit_value c" unfolding word_le_nat_alt v by linarith
  then have "\<not> r * base + digit_value c < prev" using Cons.prems(3) by (simp add: not_less)
  then have "strtoul_digits base False ((c # cs) @ rest) r prev =
      strtoul_digits base False (cs @ rest) (r * base + digit_value c) (r * base + digit_value c)"
    using c by (simp add: Let_def)
  also have "\<dots> = (word_of_nat (digits_val (unat base) (unat (r * base + digit_value c)) cs), Some rest)"
    by (rule Cons.IH) (use Cons.prems v in simp_all)
  finally show ?case by (simp add: v)
qed

lemma strtoul_run:
  assumes "\<forall>c \<in> set cs. digit_ok base c" "digits_val (unat base) 0 cs < 2 ^ 32" "cs \<noteq> []" "base = 10 \<or> base = 16 \<and> 2 \<le> length cs"
    "rest = [] \<or> \<not> digit_ok base (hd rest)"
  shows "bcm_strtoul (cs @ rest) base = (word_of_nat (digits_val (unat base) 0 cs), Some rest)"
proof -
  obtain c ds where cs: "cs = c # ds" using assms(3) by (cases cs) auto
  have x: "bcm_isxdigit d" if "d \<in> set cs" for d using assms(1) that by (simp add: digit_ok_def)
  have d: "dropWhile bcm_isspace (cs @ rest) = cs @ rest" using xdigit_not(1) [OF x, of c] by (simp add: cs)
  have s: "\<not> at_char (cs @ rest) 0 45" "\<not> at_char (cs @ rest) 0 43"
    using xdigit_not(2,3) [OF x, of c] by (simp_all add: cs at_char_def)
  have h: "\<not> (base = 16 \<and> at_char (cs @ rest) 0 48 \<and> (at_char (cs @ rest) 1 120 \<or> at_char (cs @ rest) 1 88))"
  proof
    assume a: "base = 16 \<and> at_char (cs @ rest) 0 48 \<and> (at_char (cs @ rest) 1 120 \<or> at_char (cs @ rest) 1 88)"
    then have "2 \<le> length cs" using assms(4) by auto
    then have "(cs @ rest) ! 1 \<in> set cs" by (auto simp: nth_append)
    then show False using a xdigit_not(4,5) [OF x] by (auto simp: at_char_def)
  qed
  have "base \<noteq> 0" "base > 0" using assms(4) by auto
  moreover have "strtoul_digits base False (cs @ rest) 0 0 = (word_of_nat (digits_val (unat base) 0 cs), Some rest)"
    using strtoul_digits_run [OF assms(1), of 0 0 rest] assms(2,5) \<open>base > 0\<close> by simp
  ultimately show ?thesis using s h by (auto simp: bcm_strtoul_def d Let_def)
qed

text \<open>The digits the printing side writes.\<close>

lemma dec_digit:
  assumes "n < 10"
  shows "digit_ok 10 (48 + word_of_nat n)" "unat (digit_value (48 + word_of_nat n)) = n"
proof -
  have "n \<in> {0, 1, 2, 3, 4, 5, 6, 7, 8, 9}" using assms by auto
  then show "digit_ok 10 (48 + word_of_nat n)" "unat (digit_value (48 + word_of_nat n)) = n"
    by (auto simp: digit_ok_def bcm_isxdigit_def digit_value_def bcm_isdigit_def ctype_at)
qed

lemma dec_props: "dec n \<noteq> [] \<and> (\<forall>c \<in> set (dec n). digit_ok 10 c) \<and> digits_val 10 0 (dec n) = n"
proof (induction n rule: dec.induct)
  case (1 n)
  show ?case
  proof (cases "n < 10")
    case True
    then show ?thesis using dec_digit [OF True] by (simp add: dec.simps [of n])
  next
    case False
    have "n mod 10 < 10" by simp
    note d = dec_digit [OF this]
    show ?thesis using 1 [OF False] d False by (simp add: dec.simps [of n])
  qed
qed

text \<open>C33: Numbers are read back. The decimal digits of any number below \<open>2\<^sup>3\<^sup>2\<close>, followed by nothing or
  by no digit, are read as that number and the pointer is left behind them. Larger numbers are not
  always refused: the check for overflow misses the wrap-around of 9999999999, which is read
  as 1410065407.\<close>

theorem strtoul_reads_decimal:
  assumes "n < 2 ^ 32" "rest = [] \<or> \<not> digit_ok 10 (hd rest)"
  shows "bcm_strtoul (dec n @ rest) 10 = (word_of_nat n, Some rest) \<and>
    bcm_strtoul (dec 9999999999) 10 = (1410065407, Some [])"
proof
  have u: "unat (10 :: uint32) = 10" by simp
  show "bcm_strtoul (dec n @ rest) 10 = (word_of_nat n, Some rest)"
    using strtoul_run [of "dec n" 10 rest] dec_props [of n] assms unfolding u by simp
  have "dec 9999999999 = [57, 57, 57, 57, 57, 57, 57, 57, 57, 57]" by (simp add: dec.simps)
  then show "bcm_strtoul (dec 9999999999) 10 = (1410065407, Some [])"
    by (simp add: bcm_strtoul_def at_char_def bcm_isspace_def ctype_at bcm_isxdigit_def digit_value_def bcm_isdigit_def)
qed

theorem strtoul_reads_decimal_witness: "fst (bcm_strtoul (dec 4294967295 @ [58]) 10) = 4294967295"
  using strtoul_reads_decimal [of 4294967295 "[58]"] by (simp add: digit_ok_def bcm_isxdigit_def ctype_at)

lemma nibble_digit:
  assumes "n < 16"
  shows "digit_ok 16 (hexdig n)" "unat (digit_value (hexdig n)) = unat n"
proof -
  have nib: "digit_ok 16 (hexdig (word_of_nat k)) \<and> unat (digit_value (hexdig (word_of_nat k))) = k" if "k < 16" for k
  proof -
    have "k \<in> {0, 1, 2, 3, 4, 5, 6, 7, 8, 9, 10, 11, 12, 13, 14, 15}" using that unfolding insert_iff empty_iff by presburger
    then show ?thesis
      by (auto simp: hexdig_def digit_ok_def bcm_isxdigit_def digit_value_def bcm_isdigit_def bcm_toupper_def bcm_islower_def ctype_at)
  qed
  have "unat n < 16" using assms by (simp add: word_less_nat_alt)
  then show "digit_ok 16 (hexdig n)" "unat (digit_value (hexdig n)) = unat n" using nib [of "unat n"] by simp_all
qed

lemma hex2_read:
  assumes "rest = [] \<or> hd rest = 58"
  shows "bcm_strtoul (hex2 b @ rest) 16 = (ucast b, Some rest)"
proof -
  let ?h = "drop_bit 4 b" and ?l = "b AND 0x0f"
  have "unat ?h = drop_bit 4 (unat b)" by (rule unat_drop_bit_eq)
  then have un: "unat ?h = unat b div 16" unfolding drop_bit_eq_div by simp
  have ul: "unat ?l = unat b mod 16" by (simp add: unsigned_and_eq take_bit_eq_mod flip: take_bit_eq_mask [of 4 "unat b", simplified mask_eq_exp_minus_1, simplified])
  have d: "digit_ok 16 (hexdig ?h)" "unat (digit_value (hexdig ?h)) = unat ?h" "digit_ok 16 (hexdig ?l)" "unat (digit_value (hexdig ?l)) = unat ?l"
    using nibble_digit [of ?h] nibble_digit [of ?l] un ul unat8_less [of b] by (simp_all add: word_less_nat_alt)
  have v: "digits_val 16 0 (hex2 b) = unat b" unfolding hex2_def using d un ul by simp
  have u: "unat (16 :: uint32) = 16" by simp
  have r: "rest = [] \<or> \<not> digit_ok 16 (hd rest)" using assms by (auto simp: digit_ok_def bcm_isxdigit_def ctype_at)
  have "bcm_strtoul (hex2 b @ rest) 16 = (word_of_nat (digits_val (unat (16 :: uint32)) 0 (hex2 b)), Some rest)"
    by (rule strtoul_run [OF _ _ _ _ r]) (use d v unat8_less [of b] in \<open>auto simp: hex2_def u\<close>)
  then show ?thesis by (simp add: u v)
qed

lemma octet_ucast [simp]: "ucast (ucast (x :: uint8) :: uint32) = x"
  by (rule bit_word_eqI) (simp add: bit_simps)

text \<open>An Ethernet address that is printed is read back: \<open>bcm_ether_atoe\<close> accepts what
  \<open>bcm_ether_ntoa\<close> writes, which fills its buffer of 18 bytes exactly, and gives the same octets.\<close>

lemma ether_address_roundtrip:
  assumes "length ea = 6"
  shows "bcm_ether_atoe (bcm_ether_ntoa ea) = (ea, True) \<and> length (bcm_ether_ntoa ea) + 1 = 18"
proof -
  obtain a b c d e f where ea: "ea = [a, b, c, d, e, f]"
    using assms by (auto simp: numeral_eq_Suc length_Suc_conv)
  have six: "(6 :: nat) = Suc (Suc (Suc (Suc (Suc (Suc 0)))))" by simp
  have r: "bcm_strtoul (hex2 x @ 58 # rest) 16 = (ucast x, Some (58 # rest))" "bcm_strtoul (hex2 x) 16 = (ucast x, Some [])" for x rest
    using hex2_read [of "58 # rest" x] hex2_read [of "[]" x] by simp_all
  have l: "length (hex2 x) = 2" for x by (simp add: hex2_def)
  show ?thesis unfolding ea bcm_ether_atoe_def bcm_ether_ntoa_def six by (simp add: r l)
qed

lemma ether_address_roundtrip_witness: "bcm_ether_atoe (bcm_ether_ntoa [0, 16, 24, 1, 2, 255]) = ([0, 16, 24, 1, 2, 255], True)"
  using ether_address_roundtrip [of "[0, 16, 24, 1, 2, 255]"] by simp

subsection \<open>Counters\<close>

fun num_of :: "uint8 list \<Rightarrow> nat" where
  "num_of [] = 0"
| "num_of (b # bs) = unat b + 256 * num_of bs"

lemma num_of_less: "num_of bs < 256 ^ length bs"
proof (induction bs)
  case (Cons b bs)
  then have "256 * num_of bs + 256 \<le> 256 * 256 ^ length bs" by simp
  then show ?case using unat8_less [of b] by simp
qed simp

lemma inc_bytes_num: "num_of (bcm_inc_bytes num a) = (num_of num + unat a) mod 256 ^ length num"
proof (induction num arbitrary: a)
  case (Cons n num)
  have lt: "num_of (n # num) < 256 ^ length (n # num)" by (rule num_of_less)
  show ?case
  proof (cases "unat n + unat a < 256")
    case True
    then have s: "unat (n + a) = unat n + unat a" by (simp add: unat_word_ariths)
    then have "n + a \<ge> a" by (simp add: word_le_nat_alt)
    moreover have "unat n + unat a + 256 * num_of num < 256 * 256 ^ length num"
    proof -
      have "256 * num_of num + 256 \<le> 256 * 256 ^ length num" using num_of_less [of num] by simp
      then show ?thesis using True by linarith
    qed
    ultimately show ?thesis using s by (simp add: Let_def algebra_simps)
  next
    case False
    then have s: "unat (n + a) = unat n + unat a - 256" using unat8_less [of n] unat8_less [of a]
      by (simp add: unat_word_ariths mod_if)
    then have c: "\<not> n + a \<ge> a" using unat8_less [of n] False unat8_less [of a] by (simp add: word_le_nat_alt)
    have "num_of (bcm_inc_bytes (n # num) a) = unat n + unat a - 256 + 256 * ((num_of num + 1) mod 256 ^ length num)"
      using c s Cons.IH [of 1] by (simp add: Let_def)
    also have "256 * ((num_of num + 1) mod 256 ^ length num) = (256 * (num_of num + 1)) mod 256 ^ length (n # num)"
      by (simp add: mult_mod_right)
    also have "unat n + unat a - 256 + (256 * (num_of num + 1)) mod 256 ^ length (n # num) =
        (unat n + unat a - 256 + 256 * (num_of num + 1)) mod 256 ^ length (n # num)"
    proof -
      let ?r = "(num_of num + 1) mod 256 ^ length num"
      have "?r < 256 ^ length num" by simp
      then have "256 * ?r + 256 \<le> 256 * 256 ^ length num" by (simp del: mod_less_divisor)
      then have "unat n + unat a - 256 + 256 * ?r < 256 ^ length (n # num)"
        using unat8_less [of n] unat8_less [of a] by simp
      then have "unat n + unat a - 256 + 256 * ?r = (unat n + unat a - 256 + 256 * ?r) mod 256 ^ length (n # num)"
        by (simp only: mod_less)
      also have "256 * ?r = (256 * (num_of num + 1)) mod 256 ^ length (n # num)" by (simp add: mult_mod_right)
      finally show ?thesis unfolding mod_add_right_eq .
    qed
    also have "unat n + unat a - 256 + 256 * (num_of num + 1) = num_of (n # num) + unat a" using False by simp
    finally show ?thesis .
  qed
qed simp

lemma inc_bytes_length: "length (bcm_inc_bytes num a) = length num"
  by (induction num a rule: bcm_inc_bytes.induct) (auto simp: Let_def)

lemma num_of_snoc: "num_of (bs @ [b]) = num_of bs + 256 ^ length bs * unat b"
  by (induction bs) (simp_all add: algebra_simps)

lemma cmp_bytes_num:
  assumes "i \<le> length a" "i \<le> length b"
  shows "sgn (cmp_bytes a b i) = sgn (int (num_of (take i a)) - int (num_of (take i b)))"
  using assms
proof (induction i)
  case (Suc i)
  have t: "take (Suc i) a = take i a @ [a ! i]" "take (Suc i) b = take i b @ [b ! i]"
    using Suc.prems by (simp_all add: take_Suc_conv_app_nth)
  have lt: "num_of (take i a) < 256 ^ i" "num_of (take i b) < 256 ^ i"
    using num_of_less [of "take i a"] num_of_less [of "take i b"] Suc.prems by simp_all
  have n: "num_of (take (Suc i) a) = num_of (take i a) + 256 ^ i * unat (a ! i)"
    "num_of (take (Suc i) b) = num_of (take i b) + 256 ^ i * unat (b ! i)"
    unfolding t num_of_snoc using Suc.prems by simp_all
  consider "a ! i = b ! i" | "unat (a ! i) < unat (b ! i)" | "unat (b ! i) < unat (a ! i)"
    by (metis linorder_neqE_nat unsigned_word_eqI)
  then show ?case
  proof cases
    case 1
    then show ?thesis using Suc n by simp
  next
    case 2
    then have "256 ^ i * unat (a ! i) + 256 ^ i \<le> 256 ^ i * unat (b ! i)"
      using mult_le_mono2 [of "Suc (unat (a ! i))" "unat (b ! i)" "256 ^ i"] by simp
    then have "num_of (take (Suc i) a) < num_of (take (Suc i) b)" using lt n by linarith
    then show ?thesis using 2 by (auto simp del: of_nat_unat)
  next
    case 3
    then have "256 ^ i * unat (b ! i) + 256 ^ i \<le> 256 ^ i * unat (a ! i)"
      using mult_le_mono2 [of "Suc (unat (b ! i))" "unat (a ! i)" "256 ^ i"] by simp
    then have "num_of (take (Suc i) b) < num_of (take (Suc i) a)" using lt n by linarith
    then show ?thesis using 3 by (auto simp del: of_nat_unat)
  qed
qed simp

text \<open>Packet counters. \<open>bcm_inc_bytes\<close> adds to a little-endian number of any length modulo its
  range, carrying as far as needed, and \<open>bcm_cmp_bytes\<close> orders numbers of equal length by value. So a
  counter that is incremented without wrapping compares greater than before, and exactly equal
  counters compare equal: the test the replay checks rest on.\<close>

lemma byte_counters_ordered:
  assumes "length num = unat n" "length num2 = unat n"
  shows "num_of (bcm_inc_bytes num amount) = (num_of num + unat amount) mod 256 ^ length num \<and>
    sgn (bcm_cmp_bytes num num2 n) = sgn (int (num_of num) - int (num_of num2)) \<and>
    (amount \<noteq> 0 \<and> num_of num + unat amount < 256 ^ length num \<longrightarrow> bcm_cmp_bytes (bcm_inc_bytes num amount) num n > 0)"
proof (intro conjI impI)
  show i: "num_of (bcm_inc_bytes num amount) = (num_of num + unat amount) mod 256 ^ length num" by (rule inc_bytes_num)
  show "sgn (bcm_cmp_bytes num num2 n) = sgn (int (num_of num) - int (num_of num2))"
    using cmp_bytes_num [of "unat n" num num2] assms by (simp add: bcm_cmp_bytes_def)
  assume a: "amount \<noteq> 0 \<and> num_of num + unat amount < 256 ^ length num"
  then have "unat amount > 0" by (simp add: unat_gt_0)
  moreover have "sgn (bcm_cmp_bytes (bcm_inc_bytes num amount) num n) = sgn (int (num_of (bcm_inc_bytes num amount)) - int (num_of num))"
    using cmp_bytes_num [of "unat n" "bcm_inc_bytes num amount" num] assms by (simp add: bcm_cmp_bytes_def inc_bytes_length)
  moreover have "num_of (bcm_inc_bytes num amount) = num_of num + unat amount" unfolding i using a by simp
  ultimately have "sgn (bcm_cmp_bytes (bcm_inc_bytes num amount) num n) = 1"
    using \<open>unat amount > 0\<close> by (simp del: of_nat_unat)
  then show "bcm_cmp_bytes (bcm_inc_bytes num amount) num n > 0" by (simp only: sgn_1_pos)
qed

lemma byte_counters_ordered_witness: "bcm_cmp_bytes (bcm_inc_bytes [255, 255, 3] 1) [255, 255, 3] 3 > 0"
  using byte_counters_ordered [of "[255, 255, 3]" 3 "[255, 255, 3]" 1] by simp

end
