(* ===== verification/Clist.thy ===== *)
theory Clist
  imports Prelude "HOL-Library.Monad_Syntax"
begin

text \<open>
  The circular doubly linked lists of \<^verbatim>\<open>include/emf/emf/clist.h\<close> on which the forwarding
  and the snooping databases are built. The \<open>next\<close> and \<open>prev\<close> fields of all list nodes are two
  functions on addresses; the operations are the assignments of the source, in order. They are
  shown to be the list operations that the database models use.
\<close>

subsection \<open>The operations\<close>

record 'p clist_mem =
  cl_next :: "'p \<Rightarrow> 'p"
  cl_prev :: "'p \<Rightarrow> 'p"

definition set_next :: "'p \<Rightarrow> 'p \<Rightarrow> 'p clist_mem \<Rightarrow> 'p clist_mem" where
  "set_next x y m = m\<lparr>cl_next := (cl_next m)(x := y)\<rparr>"

definition set_prev :: "'p \<Rightarrow> 'p \<Rightarrow> 'p clist_mem \<Rightarrow> 'p clist_mem" where
  "set_prev x y m = m\<lparr>cl_prev := (cl_prev m)(x := y)\<rparr>"

definition clist_init_head :: "'p \<Rightarrow> 'p clist_mem \<Rightarrow> 'p clist_mem" where
  "clist_init_head head m = set_next head head (set_prev head head m)"

definition clist_add_head :: "'p \<Rightarrow> 'p \<Rightarrow> 'p clist_mem \<Rightarrow> 'p clist_mem" where
  "clist_add_head head item m =
     (let m = set_prev (cl_next m head) item m;
          m = set_next item (cl_next m head) m;
          m = set_prev item head m
      in set_next head item m)"

definition clist_add_tail :: "'p \<Rightarrow> 'p \<Rightarrow> 'p clist_mem \<Rightarrow> 'p clist_mem" where
  "clist_add_tail head item m =
     (let m = set_next item head m;
          m = set_prev item (cl_prev m head) m;
          m = set_next (cl_prev m head) item m
      in set_prev head item m)"

definition clist_delete :: "'p \<Rightarrow> 'p clist_mem \<Rightarrow> 'p clist_mem" where
  "clist_delete item m =
     (let m = set_next (cl_prev m item) (cl_next m item) m
      in set_prev (cl_next m item) (cl_prev m item) m)"

definition clist_empty :: "'p \<Rightarrow> 'p clist_mem \<Rightarrow> bool" where
  "clist_empty h m \<longleftrightarrow> cl_next m h = h"

text \<open>
  \<open>clist_walk\<close> returns the nodes it calls \<open>fn\<close> on, in order. The loops over a list in the
  databases have the form of \<open>clist_nodes\<close>.
\<close>

partial_function (option) clist_walk_from :: "'p \<Rightarrow> 'p clist_mem \<Rightarrow> 'p \<Rightarrow> 'p list option" where
  "clist_walk_from head m ptr =
     (if cl_next m ptr \<noteq> head
      then do { ps \<leftarrow> clist_walk_from head m (cl_next m ptr); Some (ptr # ps) } else Some [])"

definition clist_walk :: "'p \<Rightarrow> 'p clist_mem \<Rightarrow> 'p list option" where
  "clist_walk head m = clist_walk_from head m head"

partial_function (option) clist_nodes_from :: "'p \<Rightarrow> 'p clist_mem \<Rightarrow> 'p \<Rightarrow> 'p list option" where
  "clist_nodes_from head m ptr =
     (if ptr \<noteq> head
      then do { ps \<leftarrow> clist_nodes_from head m (cl_next m ptr); Some (ptr # ps) } else Some [])"

definition clist_nodes :: "'p \<Rightarrow> 'p clist_mem \<Rightarrow> 'p list option" where
  "clist_nodes head m = clist_nodes_from head m (cl_next m head)"

subsection \<open>Lists in memory\<close>

fun dseg :: "'p clist_mem \<Rightarrow> 'p \<Rightarrow> 'p list \<Rightarrow> 'p \<Rightarrow> bool" where
  "dseg m a [] b \<longleftrightarrow> cl_next m a = b \<and> cl_prev m b = a"
| "dseg m a (x # xs) b \<longleftrightarrow> cl_next m a = x \<and> cl_prev m x = a \<and> dseg m x xs b"

definition is_clist :: "'p clist_mem \<Rightarrow> 'p \<Rightarrow> 'p list \<Rightarrow> bool" where
  "is_clist m h xs \<longleftrightarrow> dseg m h xs h \<and> distinct (h # xs)"

lemma dseg_append: "dseg m a (xs @ y # ys) b \<longleftrightarrow> dseg m a xs y \<and> dseg m y ys b"
  by (induction xs arbitrary: a) auto

lemma dseg_cong:
  "(\<And>x. x \<in> set (a # xs) \<Longrightarrow> cl_next m' x = cl_next m x) \<Longrightarrow>
   (\<And>x. x \<in> set (xs @ [b]) \<Longrightarrow> cl_prev m' x = cl_prev m x) \<Longrightarrow> dseg m' a xs b = dseg m a xs b"
  by (induction xs arbitrary: a) auto

lemma dseg_first: "dseg m a xs b \<Longrightarrow> cl_next m a = hd (xs @ [b]) \<and> cl_prev m (hd (xs @ [b])) = a"
  by (cases xs) auto

lemma dseg_last: "dseg m a xs b \<Longrightarrow> cl_prev m b = last (a # xs) \<and> cl_next m (last (a # xs)) = b"
  by (induction xs arbitrary: a) auto

lemma set_next_sel [simp]: "cl_next (set_next x y m) = (cl_next m)(x := y)" "cl_prev (set_next x y m) = cl_prev m"
  by (simp_all add: set_next_def)

lemma set_prev_sel [simp]: "cl_prev (set_prev x y m) = (cl_prev m)(x := y)" "cl_next (set_prev x y m) = cl_next m"
  by (simp_all add: set_prev_def)

lemma clist_init_head_rel: "is_clist (clist_init_head h m) h []"
  by (simp add: is_clist_def clist_init_head_def)

lemma clist_add_head_rel:
  assumes "is_clist m h xs" "i \<notin> set (h # xs)"
  shows "is_clist (clist_add_head h i m) h (i # xs)"
proof -
  let ?m = "clist_add_head h i m"
  have s: "dseg m h xs h" "distinct (h # xs)" using assms(1) by (auto simp: is_clist_def)
  show ?thesis
  proof (cases xs)
    case Nil
    then show ?thesis using assms s by (simp add: is_clist_def clist_add_head_def Let_def)
  next
    case (Cons x ys)
    then have x: "cl_next m h = x" "cl_prev m x = h" "dseg m x ys h" using s by auto
    have "dseg ?m x ys h = dseg m x ys h"
      using s assms(2) Cons x(1) by (intro dseg_cong) (auto simp: clist_add_head_def Let_def)
    then show ?thesis
      using x s assms(2) Cons by (auto simp: is_clist_def clist_add_head_def Let_def)
  qed
qed

lemma clist_add_tail_rel:
  assumes "is_clist m h xs" "i \<notin> set (h # xs)"
  shows "is_clist (clist_add_tail h i m) h (xs @ [i])"
proof -
  let ?m = "clist_add_tail h i m"
  have s: "dseg m h xs h" "distinct (h # xs)" using assms(1) by (auto simp: is_clist_def)
  show ?thesis
  proof (cases xs rule: rev_cases)
    case Nil
    then show ?thesis using assms s by (simp add: is_clist_def clist_add_tail_def Let_def)
  next
    case (snoc ys y)
    then have y: "dseg m h ys y" "cl_next m y = h" "cl_prev m h = y" using s by (auto simp: dseg_append)
    have "dseg ?m h ys y = dseg m h ys y"
      using s assms(2) snoc y(3) by (intro dseg_cong) (auto simp: clist_add_tail_def Let_def)
    then show ?thesis
      using y s assms(2) snoc
      by (auto simp: is_clist_def dseg_append clist_add_tail_def Let_def)
  qed
qed

lemma clist_delete_rel:
  assumes "is_clist m h (xs @ x # ys)"
  shows "is_clist (clist_delete x m) h (xs @ ys)"
proof -
  let ?m = "clist_delete x m" and ?a = "last (h # xs)" and ?b = "hd (ys @ [h])"
  have s: "dseg m h xs x" "dseg m x ys h" and d: "distinct (h # xs @ x # ys)"
    using assms by (auto simp: is_clist_def dseg_append)
  have ab: "cl_prev m x = ?a" "cl_next m x = ?b" using dseg_last [OF s(1)] dseg_first [OF s(2)] by auto
  have ne: "?a \<noteq> x" "?b \<noteq> x" using d by (auto simp: hd_append)
  have upd: "cl_next ?m = (cl_next m)(?a := ?b)" "cl_prev ?m = (cl_prev m)(?b := ?a)"
    using ab ne by (auto simp: clist_delete_def Let_def)
  have "dseg ?m h (xs @ ys) h"
  proof (cases xs rule: rev_cases)
    case Nil
    show ?thesis
    proof (cases ys)
      case (Cons z zs)
      have "dseg ?m z zs h = dseg m z zs h"
        using d Nil Cons by (intro dseg_cong) (auto simp: upd)
      then show ?thesis using s d Nil Cons by (simp add: upd)
    qed (use s Nil upd in simp)
  next
    case (snoc us u)
    have su: "dseg m h us u" using s(1) snoc by (simp add: dseg_append)
    have du: "dseg ?m h us u"
      using su d snoc by (subst dseg_cong [of h us ?m m u]) (auto simp: upd hd_append)
    show ?thesis
    proof (cases ys)
      case Nil
      then show ?thesis using du d snoc by (simp add: dseg_append upd)
    next
      case (Cons z zs)
      have "dseg ?m z zs h = dseg m z zs h"
        using d snoc Cons by (intro dseg_cong) (auto simp: upd)
      then show ?thesis using du s d snoc Cons by (simp add: dseg_append upd)
    qed
  qed
  then show ?thesis using d by (simp add: is_clist_def)
qed

lemma clist_empty_rel: "is_clist m h xs \<Longrightarrow> clist_empty h m \<longleftrightarrow> xs = []"
  by (cases xs) (auto simp: is_clist_def clist_empty_def)

lemma clist_nodes_from_rel:
  "dseg m a xs h \<Longrightarrow> h \<notin> set xs \<Longrightarrow> clist_nodes_from h m (cl_next m a) = Some xs"
  by (induction xs arbitrary: a) (auto simp: clist_nodes_from.simps)

lemma clist_nodes_rel: "is_clist m h xs \<Longrightarrow> clist_nodes h m = Some xs"
  using clist_nodes_from_rel [of m h xs h] by (auto simp: clist_nodes_def is_clist_def)

lemma clist_walk_from_rel:
  "dseg m a xs h \<Longrightarrow> h \<notin> set xs \<Longrightarrow> clist_walk_from h m a = Some (butlast (a # xs))"
  by (induction xs arbitrary: a) (auto simp: clist_walk_from.simps)

subsection \<open>Properties\<close>

datatype 'p clist_op = AddHead 'p | AddTail 'p | Delete 'p

fun clist_exec :: "'p \<Rightarrow> 'p clist_op \<Rightarrow> 'p clist_mem \<Rightarrow> 'p clist_mem" where
  "clist_exec h (AddHead i) m = clist_add_head h i m"
| "clist_exec h (AddTail i) m = clist_add_tail h i m"
| "clist_exec h (Delete i) m = clist_delete i m"

fun clist_spec :: "'p clist_op \<Rightarrow> 'p list \<Rightarrow> 'p list" where
  "clist_spec (AddHead i) xs = i # xs"
| "clist_spec (AddTail i) xs = xs @ [i]"
| "clist_spec (Delete i) xs = remove1 i xs"

text \<open>A node is added when it is in no list and deleted when it is in this one.\<close>

fun clist_pre :: "'p \<Rightarrow> 'p list \<Rightarrow> 'p clist_op list \<Rightarrow> bool" where
  "clist_pre h xs [] \<longleftrightarrow> True"
| "clist_pre h xs (op # ops) \<longleftrightarrow>
     (case op of Delete i \<Rightarrow> i \<in> set xs | AddHead i \<Rightarrow> i \<noteq> h \<and> i \<notin> set xs
      | AddTail i \<Rightarrow> i \<noteq> h \<and> i \<notin> set xs) \<and> clist_pre h (clist_spec op xs) ops"

lemma clist_step_rel:
  assumes "is_clist m h xs" "clist_pre h xs [op]"
  shows "is_clist (clist_exec h op m) h (clist_spec op xs)"
proof (cases op)
  case (Delete i)
  then obtain us vs where xs: "xs = us @ i # vs" using assms(2) by (auto dest: split_list)
  then have "remove1 i xs = us @ vs" using assms(1) by (simp add: is_clist_def remove1_append)
  then show ?thesis using clist_delete_rel [of m h us i vs] assms(1) Delete xs by simp
qed (use assms in \<open>auto intro!: clist_add_head_rel clist_add_tail_rel\<close>)

lemma clist_run_rel:
  "is_clist m h xs \<Longrightarrow> clist_pre h xs ops \<Longrightarrow>
   is_clist (fold (clist_exec h) ops m) h (fold clist_spec ops xs)"
proof (induction ops arbitrary: m xs)
  case (Cons op ops)
  then have "is_clist (clist_exec h op m) h (clist_spec op xs)" using clist_step_rel [of m h xs op] by simp
  then show ?case using Cons by simp
qed simp

text \<open>
  C31: The circular lists refine lists: from an initialised head, any sequence of additions at
  either end and deletions leaves a well formed ring whose nodes, visited the way the databases
  iterate, are exactly those of the list.
\<close>

theorem clist_refines_lists:
  assumes "clist_pre h [] ops"
  shows "clist_nodes h (fold (clist_exec h) ops (clist_init_head h m)) = Some (fold clist_spec ops []) \<and>
    (clist_empty h (fold (clist_exec h) ops (clist_init_head h m)) \<longleftrightarrow> fold clist_spec ops [] = [])"
  using clist_run_rel [OF clist_init_head_rel assms] by (metis clist_nodes_rel clist_empty_rel)

theorem clist_refines_lists_witness:
  "clist_nodes 0 (fold (clist_exec 0) [AddHead 1, AddTail 2, AddHead 3, Delete 1]
     (clist_init_head 0 \<lparr>cl_next = id, cl_prev = id\<rparr>)) = Some [3, 2 :: nat]"
  using clist_refines_lists [of 0 "[AddHead 1, AddTail 2, AddHead 3, Delete (1 :: nat)]"] by simp

text \<open>
  \<open>clist_walk\<close> calls its function on the list head, which is no element, and on every
  element but the last.
\<close>

lemma clist_walk_visits:
  assumes "is_clist m h xs"
  shows "clist_walk h m = Some (butlast (h # xs))"
  using clist_walk_from_rel [of m h xs h] assms by (simp add: clist_walk_def is_clist_def)

lemma clist_walk_visits_witness:
  "clist_walk 0 (clist_add_head 0 (1 :: nat) (clist_init_head 0 \<lparr>cl_next = id, cl_prev = id\<rparr>)) = Some [0]"
proof -
  have "is_clist (clist_add_head 0 (1 :: nat) (clist_init_head 0 \<lparr>cl_next = id, cl_prev = id\<rparr>)) 0 [1]"
    by (intro clist_add_head_rel clist_init_head_rel) simp
  from clist_walk_visits [OF this] show ?thesis by simp
qed

end
