(* ===== verification/Mfdb.thy ===== *)
theory Mfdb
  imports Clist
begin

text \<open>
  The multicast forwarding database of
  \<^verbatim>\<open>emf/emf/emfc.c\<close>. Group entries live in a memory \<open>mgrp_mem\<close> indexed by address, so that
  freeing and dangling pointers are visible; a hash chain is the list of the addresses on it and
  a group's interface entries are a list, as \<open>Clist\<close> justifies. The entry of the host interface
  list that \<open>mi_mhif\<close> points to is named by its interface, which identifies it. Interfaces are
  addresses, 0 is the null pointer.

  The results and the address of allocations are a parameter (\<open>emf_alloc\<close>). An operation is
  \<open>None\<close> when it dereferences a null or a
  freed pointer. Locks have no effect in the sequential model, except that
  \<open>emfc_mfdb_membership_find\<close> reports whether it returns with its lock held.
\<close>

subsection \<open>State\<close>

record emf_stats =
  igmp_frames :: uint32
  igmp_frames_fwd :: uint32
  igmp_frames_sentup :: uint32
  igmp_frames_dropped :: uint32
  mcast_data_frames :: uint32
  mcast_data_fwd :: uint32
  mcast_data_flooded :: uint32
  mcast_data_sentup :: uint32
  mcast_data_dropped :: uint32
  mfdb_cache_hits :: uint32
  mfdb_cache_misses :: uint32

record emfc_mi =
  mi_mhif :: "nat option"
  mi_ref :: uint32
  mi_data_fwd :: uint32

record emfc_mgrp =
  mgrp_ip :: uint32
  mi_head :: "emfc_mi list"

record emfc_iflist =
  if_ifp :: nat
  uffp_ref :: uint32
  rtport_ref :: uint32

record emfc_info =
  inst_id :: string
  mgrp_fdb :: "nat \<Rightarrow> nat list"
  mgrp_mem :: "nat \<Rightarrow> emfc_mgrp option"
  mhif_head :: "(nat \<times> uint32) list"
  mgrp_cache_ip :: uint32
  mgrp_cache :: "nat option"
  stats :: emf_stats
  emf_enable :: bool
  has_snooper :: bool
  iflist_head :: "emfc_iflist list"

definition SUCCESS :: int where "SUCCESS = 0"
definition FAILURE :: int where "FAILURE = - 1"

definition MFDB_HASHT_SIZE :: nat where "MFDB_HASHT_SIZE = 8"

definition MFDB_MGRP_HASH :: "uint32 \<Rightarrow> nat" where
  "MFDB_MGRP_HASH m =
     unat ((drop_bit 24 m + drop_bit 16 m + drop_bit 8 m + (m AND 0xff)) AND 7)"

definition zero_stats :: emf_stats where
  "zero_stats = \<lparr>igmp_frames = 0, igmp_frames_fwd = 0, igmp_frames_sentup = 0,
     igmp_frames_dropped = 0, mcast_data_frames = 0, mcast_data_fwd = 0, mcast_data_flooded = 0,
     mcast_data_sentup = 0, mcast_data_dropped = 0, mfdb_cache_hits = 0, mfdb_cache_misses = 0\<rparr>"

text \<open>
  The block \<open>emfc_init\<close> starts from: \<open>bzero\<close>, the fields it sets to null again, and the eight
  chains of \<open>emfc_mfdb_init\<close> empty.
\<close>

definition emfc_zero :: emfc_info where
  "emfc_zero = \<lparr>inst_id = [], mgrp_fdb = \<lambda>_. [], mgrp_mem = \<lambda>_. None, mhif_head = [], mgrp_cache_ip = 0,
     mgrp_cache = None, stats = zero_stats, emf_enable = False, has_snooper = False,
     iflist_head = []\<rparr>"

definition emfc_mfdb_init :: "emfc_info \<Rightarrow> emfc_info" where
  "emfc_mfdb_init e = e\<lparr>mgrp_fdb := \<lambda>i. if i < MFDB_HASHT_SIZE then [] else mgrp_fdb e i,
     mhif_head := []\<rparr>"

subsection \<open>Lookup\<close>

text \<open>Comparing the group addresses along a hash chain.\<close>

fun chain_find :: "(nat \<Rightarrow> emfc_mgrp option) \<Rightarrow> uint32 \<Rightarrow> nat list \<Rightarrow> nat option option" where
  "chain_find mem ip [] = Some None"
| "chain_find mem ip (p # ps) =
     (case mem p of None \<Rightarrow> None
      | Some g \<Rightarrow> if ip = mgrp_ip g then Some (Some p) else chain_find mem ip ps)"

definition emfc_mfdb_group_find :: "emfc_info \<Rightarrow> uint32 \<Rightarrow> (emfc_info \<times> nat option) option" where
  "emfc_mfdb_group_find e ip =
     (if ip = mgrp_cache_ip e
      then Some (e\<lparr>stats := (stats e)\<lparr>mfdb_cache_hits := mfdb_cache_hits (stats e) + 1\<rparr>\<rparr>, mgrp_cache e)
      else let e = e\<lparr>stats := (stats e)\<lparr>mfdb_cache_misses := mfdb_cache_misses (stats e) + 1\<rparr>\<rparr> in
        do { r \<leftarrow> chain_find (mgrp_mem e) ip (mgrp_fdb e (MFDB_MGRP_HASH ip));
             case r of None \<Rightarrow> Some (e, None)
             | Some p \<Rightarrow> Some (e\<lparr>mgrp_cache := Some p, mgrp_cache_ip := ip\<rparr>, Some p) })"

text \<open>The position of the entry for \<open>ifp\<close> in a group's interface list.\<close>

fun mi_index :: "nat \<Rightarrow> emfc_mi list \<Rightarrow> nat option option" where
  "mi_index ifp [] = Some None"
| "mi_index ifp (m # ms) =
     (case mi_mhif m of None \<Rightarrow> None
      | Some i \<Rightarrow> if ifp = i then Some (Some 0)
                  else map_option (map_option Suc) (mi_index ifp ms))"

definition emfc_mfdb_mi_entry_find :: "emfc_mgrp \<Rightarrow> nat \<Rightarrow> nat option option" where
  "emfc_mfdb_mi_entry_find g ifp = mi_index ifp (mi_head g)"

text \<open>The result: the group and position of the entry, and whether \<open>fdb_lock\<close> is still held.\<close>

definition emfc_mfdb_membership_find ::
  "emfc_info \<Rightarrow> uint32 \<Rightarrow> nat \<Rightarrow> (emfc_info \<times> (nat \<times> nat) option \<times> bool) option" where
  "emfc_mfdb_membership_find e ip ifp =
     do { (e, g) \<leftarrow> emfc_mfdb_group_find e ip;
          case g of None \<Rightarrow> Some (e, None, False)
          | Some p \<Rightarrow>
            do { grp \<leftarrow> mgrp_mem e p;
                 k \<leftarrow> emfc_mfdb_mi_entry_find grp ifp;
                 case k of None \<Rightarrow> Some (e, None, False)
                 | Some k \<Rightarrow> Some (e, Some (p, k), True) } }"

subsection \<open>Membership\<close>

record emf_alloc =
  new_mgrp :: nat
  ok_mgrp :: bool
  ok_mi :: bool
  ok_mhif :: bool

definition emfc_mfdb_mhif_add :: "emfc_info \<Rightarrow> nat \<Rightarrow> bool \<Rightarrow> emfc_info \<times> nat option" where
  "emfc_mfdb_mhif_add e ifp ok =
     (if ifp \<in> fst ` set (mhif_head e) then (e, Some ifp)
      else if \<not> ok then (e, None)
      else (e\<lparr>mhif_head := (ifp, 0) # mhif_head e\<rparr>, Some ifp))"

text \<open>Taking a group off its chain, forgetting a cache entry for it, and freeing it.\<close>

definition drop_group :: "emfc_info \<Rightarrow> nat \<Rightarrow> emfc_mgrp \<Rightarrow> emfc_info" where
  "drop_group e p grp =
     e\<lparr>mgrp_fdb := (mgrp_fdb e)(MFDB_MGRP_HASH (mgrp_ip grp) :=
           remove1 p (mgrp_fdb e (MFDB_MGRP_HASH (mgrp_ip grp)))),
       mgrp_cache_ip := (if mgrp_cache e = Some p then 0 else mgrp_cache_ip e),
       mgrp_mem := (mgrp_mem e)(p := None)\<rparr>"

definition set_group :: "emfc_info \<Rightarrow> nat \<Rightarrow> emfc_mgrp \<Rightarrow> emfc_info" where
  "set_group e p grp = e\<lparr>mgrp_mem := (mgrp_mem e)(p := Some grp)\<rparr>"

definition add_mi :: "emf_alloc \<Rightarrow> emfc_info \<Rightarrow> nat \<Rightarrow> emfc_mgrp \<Rightarrow> nat \<Rightarrow> emfc_info \<times> int" where
  "add_mi a e p grp ifp =
     (if \<not> ok_mi a then (if mi_head grp = [] then drop_group e p grp else e, FAILURE)
      else let (e, mhif) = emfc_mfdb_mhif_add e ifp (ok_mhif a);
               mi = \<lparr>mi_mhif = mhif, mi_ref = 1, mi_data_fwd = 0\<rparr>
           in (set_group e p (grp\<lparr>mi_head := mi # mi_head grp\<rparr>), SUCCESS))"

definition emfc_mfdb_membership_add ::
  "emf_alloc \<Rightarrow> emfc_info \<Rightarrow> uint32 \<Rightarrow> nat \<Rightarrow> (emfc_info \<times> int) option" where
  "emfc_mfdb_membership_add a e ip ifp =
     do { (e, g) \<leftarrow> emfc_mfdb_group_find e ip;
          case g of
            None \<Rightarrow>
              if \<not> ok_mgrp a then Some (e, FAILURE)
              else let grp = \<lparr>mgrp_ip = ip, mi_head = []\<rparr>;
                       e = set_group e (new_mgrp a) grp;
                       h = MFDB_MGRP_HASH ip;
                       e = e\<lparr>mgrp_fdb := (mgrp_fdb e)(h := new_mgrp a # mgrp_fdb e h)\<rparr>
                   in Some (add_mi a e (new_mgrp a) grp ifp)
          | Some p \<Rightarrow>
            do { grp \<leftarrow> mgrp_mem e p;
                 k \<leftarrow> emfc_mfdb_mi_entry_find grp ifp;
                 case k of None \<Rightarrow> Some (add_mi a e p grp ifp)
                 | Some k \<Rightarrow>
                   let mi = mi_head grp ! k;
                       mi = mi\<lparr>mi_ref := mi_ref mi + 1\<rparr>
                   in Some (set_group e p (grp\<lparr>mi_head := (mi_head grp)[k := mi]\<rparr>), SUCCESS) } }"

definition emfc_mfdb_membership_del :: "emfc_info \<Rightarrow> uint32 \<Rightarrow> nat \<Rightarrow> (emfc_info \<times> int) option" where
  "emfc_mfdb_membership_del e ip ifp =
     do { (e, g) \<leftarrow> emfc_mfdb_group_find e ip;
          case g of None \<Rightarrow> Some (e, FAILURE)
          | Some p \<Rightarrow>
            do { grp \<leftarrow> mgrp_mem e p;
                 k \<leftarrow> emfc_mfdb_mi_entry_find grp ifp;
                 case k of None \<Rightarrow> Some (e, FAILURE)
                 | Some k \<Rightarrow>
                   let mi = mi_head grp ! k;
                       mi = mi\<lparr>mi_ref := mi_ref mi - 1\<rparr>
                   in if mi_ref mi \<noteq> 0
                      then Some (set_group e p (grp\<lparr>mi_head := (mi_head grp)[k := mi]\<rparr>), SUCCESS)
                      else let grp = grp\<lparr>mi_head := take k (mi_head grp) @ drop (Suc k) (mi_head grp)\<rparr>;
                               e = set_group e p grp
                           in Some (if mi_head grp = [] then drop_group e p grp else e, SUCCESS) } }"

text \<open>
  The two loops of \<open>emfc_mfdb_clear\<close>: a chain is taken apart entry by entry from its head, then
  the next chain.
\<close>

fun clear_chain :: "emfc_info \<Rightarrow> nat \<Rightarrow> nat list \<Rightarrow> emfc_info option" where
  "clear_chain e i [] = Some e"
| "clear_chain e i (p # ps) =
     (case mgrp_mem e p of None \<Rightarrow> None
      | Some g \<Rightarrow> clear_chain (e\<lparr>mgrp_fdb := (mgrp_fdb e)(i := remove1 p (mgrp_fdb e i)),
                                 mgrp_mem := (mgrp_mem e)(p := None)\<rparr>) i ps)"

fun clear_chains :: "emfc_info \<Rightarrow> nat list \<Rightarrow> emfc_info option" where
  "clear_chains e [] = Some e"
| "clear_chains e (i # is) =
     (case clear_chain e i (mgrp_fdb e i) of None \<Rightarrow> None | Some e \<Rightarrow> clear_chains e is)"

definition emfc_mfdb_clear :: "emfc_info \<Rightarrow> emfc_info option" where
  "emfc_mfdb_clear e =
     (case clear_chains e [0..<MFDB_HASHT_SIZE] of None \<Rightarrow> None
      | Some e \<Rightarrow> Some (e\<lparr>mgrp_cache_ip := 0\<rparr>))"

text \<open>
  The listing: group address, interface and packet count of every entry, chain by chain. The
  \<open>size\<close> of the caller's buffer is not looked at.
\<close>

definition emfc_mfdb_list :: "emfc_info \<Rightarrow> uint32 \<Rightarrow> (uint32 \<times> nat option \<times> uint32) list" where
  "emfc_mfdb_list e sz =
     concat (map (\<lambda>i. concat (map (\<lambda>p.
       case mgrp_mem e p of None \<Rightarrow> []
       | Some g \<Rightarrow> map (\<lambda>mi. (mgrp_ip g, mi_mhif mi, mi_data_fwd mi)) (mi_head g))
         (mgrp_fdb e i))) [0..<MFDB_HASHT_SIZE])"

subsection \<open>The database's invariant\<close>

text \<open>
  A group's interface entries are valid: each points to a host interface entry, no interface
  occurs twice and no reference count is 0.
\<close>

definition mis_ok :: "emfc_info \<Rightarrow> emfc_mi list \<Rightarrow> bool" where
  "mis_ok e ms \<longleftrightarrow> (\<forall>m \<in> set ms. \<exists>i. mi_mhif m = Some i \<and> i \<in> fst ` set (mhif_head e) \<and> mi_ref m \<noteq> 0) \<and>
     distinct (map mi_mhif ms)"

definition mfdb_inv :: "emfc_info \<Rightarrow> bool" where
  "mfdb_inv e \<longleftrightarrow>
     (\<forall>h. distinct (mgrp_fdb e h)) \<and>
     (\<forall>h. \<forall>p \<in> set (mgrp_fdb e h). \<exists>g. mgrp_mem e p = Some g \<and> MFDB_MGRP_HASH (mgrp_ip g) = h) \<and>
     (\<forall>p g. mgrp_mem e p = Some g \<longrightarrow>
        p \<in> set (mgrp_fdb e (MFDB_MGRP_HASH (mgrp_ip g))) \<and> mi_head g \<noteq> [] \<and> mis_ok e (mi_head g)) \<and>
     (\<forall>p q g g'. mgrp_mem e p = Some g \<longrightarrow> mgrp_mem e q = Some g' \<longrightarrow> mgrp_ip g = mgrp_ip g' \<longrightarrow> p = q) \<and>
     (mgrp_cache_ip e \<noteq> 0 \<longrightarrow> (\<exists>p g. mgrp_cache e = Some p \<and> mgrp_mem e p = Some g \<and> mgrp_ip g = mgrp_cache_ip e))"

text \<open>The abstract content: how often each interface has been added to each group.\<close>

definition mi_refs :: "emfc_mi list \<Rightarrow> nat \<Rightarrow> nat" where
  "mi_refs ms ifp =
     (case find (\<lambda>m. mi_mhif m = Some ifp) ms of None \<Rightarrow> 0 | Some m \<Rightarrow> unat (mi_ref m))"

definition mfdb_refs :: "emfc_info \<Rightarrow> uint32 \<Rightarrow> nat \<Rightarrow> nat" where
  "mfdb_refs e ip ifp =
     (case chain_find (mgrp_mem e) ip (mgrp_fdb e (MFDB_MGRP_HASH ip)) of
        Some (Some p) \<Rightarrow> (case mgrp_mem e p of Some g \<Rightarrow> mi_refs (mi_head g) ifp | None \<Rightarrow> 0)
      | _ \<Rightarrow> 0)"

lemma chain_find_Some:
  assumes "\<forall>p \<in> set ps. \<exists>g. mem p = Some g" "p \<in> set ps" "mem p = Some g" "mgrp_ip g = ip"
    "\<And>q g'. mem q = Some g' \<Longrightarrow> mgrp_ip g' = ip \<Longrightarrow> q = p"
  shows "chain_find mem ip ps = Some (Some p)"
  using assms(1,2)
proof (induction ps)
  case (Cons q qs)
  obtain g' where g': "mem q = Some g'" using Cons.prems(1) by auto
  show ?case
  proof (cases "q = p")
    case False
    then have "ip \<noteq> mgrp_ip g'" using assms(5) g' by blast
    moreover have "chain_find mem ip qs = Some (Some p)"
      using Cons.prems False by (intro Cons.IH) simp_all
    ultimately show ?thesis using g' by simp
  qed (use assms(3,4) in simp)
qed simp

lemma chain_find_None:
  assumes "\<forall>p \<in> set ps. \<exists>g. mem p = Some g" "\<And>p g. p \<in> set ps \<Longrightarrow> mem p = Some g \<Longrightarrow> mgrp_ip g \<noteq> ip"
  shows "chain_find mem ip ps = Some None"
  using assms
proof (induction ps)
  case (Cons q qs)
  obtain g' where "mem q = Some g'" using Cons.prems(1) by auto
  then show ?case using Cons by auto
qed simp

text \<open>The group with a given address, as the chains know it.\<close>

definition group_at :: "emfc_info \<Rightarrow> uint32 \<Rightarrow> nat \<Rightarrow> emfc_mgrp \<Rightarrow> bool" where
  "group_at e ip p g \<longleftrightarrow> mgrp_mem e p = Some g \<and> mgrp_ip g = ip"

lemma chain_find_inv:
  assumes "mfdb_inv e"
  shows "group_at e ip p g \<Longrightarrow> chain_find (mgrp_mem e) ip (mgrp_fdb e (MFDB_MGRP_HASH ip)) = Some (Some p)"
    and "(\<nexists>p g. group_at e ip p g) \<Longrightarrow>
      chain_find (mgrp_mem e) ip (mgrp_fdb e (MFDB_MGRP_HASH ip)) = Some None"
proof -
  have c: "\<forall>p \<in> set (mgrp_fdb e h). \<exists>g. mgrp_mem e p = Some g" for h
    using assms by (fastforce simp: mfdb_inv_def)
  show "chain_find (mgrp_mem e) ip (mgrp_fdb e (MFDB_MGRP_HASH ip)) = Some (Some p)" if "group_at e ip p g"
    using that assms by (intro chain_find_Some [OF c, of p _ g]) (auto simp: mfdb_inv_def group_at_def)
  show "chain_find (mgrp_mem e) ip (mgrp_fdb e (MFDB_MGRP_HASH ip)) = Some None" if "\<nexists>p g. group_at e ip p g"
    using that by (intro chain_find_None [OF c]) (auto simp: group_at_def)
qed

lemma mfdb_refs_group: "mfdb_inv e \<Longrightarrow> group_at e ip p g \<Longrightarrow> mfdb_refs e ip ifp = mi_refs (mi_head g) ifp"
  by (simp add: mfdb_refs_def chain_find_inv(1)) (simp add: group_at_def)

lemma mfdb_refs_none: "mfdb_inv e \<Longrightarrow> \<nexists>p g. group_at e ip p g \<Longrightarrow> mfdb_refs e ip ifp = 0"
  by (simp add: mfdb_refs_def chain_find_inv(2))

text \<open>
  The lookup finds exactly the group with the address, through the cache or the chain; it
  changes only the cache and the counters. The address 0 of an empty cache is excluded.
\<close>

definition same_db :: "emfc_info \<Rightarrow> emfc_info \<Rightarrow> bool" where
  "same_db e e' \<longleftrightarrow> mgrp_fdb e' = mgrp_fdb e \<and> mgrp_mem e' = mgrp_mem e \<and> mhif_head e' = mhif_head e \<and>
     iflist_head e' = iflist_head e \<and> emf_enable e' = emf_enable e \<and> has_snooper e' = has_snooper e"

lemma group_find_spec:
  assumes inv: "mfdb_inv e" and ip: "ip \<noteq> 0"
  shows "\<exists>e' r. emfc_mfdb_group_find e ip = Some (e', r) \<and> mfdb_inv e' \<and> same_db e e' \<and>
    (case r of None \<Rightarrow> \<nexists>p g. group_at e ip p g | Some p \<Rightarrow> \<exists>g. group_at e ip p g)"
proof (cases "ip = mgrp_cache_ip e")
  case True
  then obtain p g where "mgrp_cache e = Some p" "group_at e ip p g"
    using inv ip unfolding mfdb_inv_def group_at_def by auto
  then show ?thesis
    using True inv by (auto simp: emfc_mfdb_group_find_def mfdb_inv_def mis_ok_def same_db_def)
next
  case False
  show ?thesis
  proof (cases "\<exists>p g. group_at e ip p g")
    case True
    then obtain p g where g: "group_at e ip p g" by auto
    then show ?thesis
      using False inv chain_find_inv(1) [OF inv g] ip
      by (auto simp: emfc_mfdb_group_find_def mfdb_inv_def mis_ok_def same_db_def group_at_def)
  next
    case none: False
    then show ?thesis
      using False inv chain_find_inv(2) [OF inv none]
      by (auto simp: emfc_mfdb_group_find_def mfdb_inv_def mis_ok_def same_db_def)
  qed
qed

lemma same_db_group_at: "same_db e e' \<Longrightarrow> group_at e' ip p g = group_at e ip p g"
  by (simp add: same_db_def group_at_def)

lemma same_db_refs: "same_db e e' \<Longrightarrow> mfdb_refs e' = mfdb_refs e"
  unfolding same_db_def by (elim conjE) (intro ext, simp only: mfdb_refs_def)

lemma mi_refs_simps [simp]:
  "mi_refs [] i = 0"
  "mi_refs (m # ms) i = (if mi_mhif m = Some i then unat (mi_ref m) else mi_refs ms i)"
  by (simp_all add: mi_refs_def)

lemma mi_refs_notin: "Some i \<notin> mi_mhif ` set ms \<Longrightarrow> mi_refs ms i = 0"
  by (induction ms) auto

text \<open>What the search of a group's interface list finds, and what replacing or removing the entry does.\<close>

lemma mi_index_total:
  assumes "\<forall>m \<in> set ms. mi_mhif m \<noteq> None"
  shows "\<exists>r. mi_index ifp ms = Some r"
  using assms by (induction ms) auto

lemma mi_index_None: "mi_index ifp ms = Some None \<Longrightarrow> Some ifp \<notin> mi_mhif ` set ms"
  by (induction ms) (auto split: option.splits if_splits)

lemma mi_index_Some:
  assumes "mi_index ifp ms = Some (Some k)"
  shows "k < length ms" "mi_mhif (ms ! k) = Some ifp" "mi_refs ms ifp = unat (mi_ref (ms ! k))"
    "mi_mhif m' = Some ifp \<Longrightarrow> map mi_mhif (ms[k := m']) = map mi_mhif ms"
    "mi_mhif m' = Some ifp \<Longrightarrow> mi_refs (ms[k := m']) = (mi_refs ms)(ifp := unat (mi_ref m'))"
  using assms
proof (induction ms arbitrary: k)
  case (Cons m ms)
  case 1 then show ?case using Cons(1) by (auto split: option.splits if_splits)
  case 2 then show ?case using Cons(2) by (auto split: option.splits if_splits)
  case 3 then show ?case using Cons(3) by (auto split: option.splits if_splits)
  case 4 then show ?case using Cons(4) by (auto split: option.splits if_splits)
  case 5 then show ?case using Cons(5) by (auto split: option.splits if_splits simp: fun_eq_iff)
qed simp_all

lemma mi_index_removed:
  assumes "mi_index ifp ms = Some (Some k)" "distinct (map mi_mhif ms)"
  shows "mi_refs (take k ms @ drop (Suc k) ms) = (mi_refs ms)(ifp := 0)"
  using assms
proof (induction ms arbitrary: k)
  case (Cons m ms)
  show ?case
  proof (cases "mi_mhif m = Some ifp")
    case True
    then have "mi_refs ms ifp = 0" using Cons.prems(2) by (intro mi_refs_notin) auto
    then show ?thesis using True Cons.prems by (auto simp: fun_eq_iff split: option.splits if_splits)
  next
    case False
    then obtain k' where k: "k = Suc k'" "mi_index ifp ms = Some (Some k')"
      using Cons.prems(1) by (auto split: option.splits if_splits)
    show ?thesis using Cons.IH [OF k(2)] Cons.prems(2) False k(1) by (auto simp: fun_eq_iff)
  qed
qed simp

subsection \<open>The operations on the database\<close>

lemma mfdb_invI:
  assumes "\<And>h. distinct (mgrp_fdb e h)"
    "\<And>h p. p \<in> set (mgrp_fdb e h) \<Longrightarrow> \<exists>g. mgrp_mem e p = Some g \<and> MFDB_MGRP_HASH (mgrp_ip g) = h"
    "\<And>p g. mgrp_mem e p = Some g \<Longrightarrow>
        p \<in> set (mgrp_fdb e (MFDB_MGRP_HASH (mgrp_ip g))) \<and> mi_head g \<noteq> [] \<and> mis_ok e (mi_head g)"
    "\<And>p q g g'. mgrp_mem e p = Some g \<Longrightarrow> mgrp_mem e q = Some g' \<Longrightarrow> mgrp_ip g = mgrp_ip g' \<Longrightarrow> p = q"
    "mgrp_cache_ip e \<noteq> 0 \<Longrightarrow> \<exists>p g. mgrp_cache e = Some p \<and> mgrp_mem e p = Some g \<and> mgrp_ip g = mgrp_cache_ip e"
  shows "mfdb_inv e"
  using assms unfolding mfdb_inv_def by blast

lemma mfdb_invD:
  assumes "mfdb_inv e"
  shows "distinct (mgrp_fdb e h)"
    "p \<in> set (mgrp_fdb e h) \<Longrightarrow> \<exists>g. mgrp_mem e p = Some g \<and> MFDB_MGRP_HASH (mgrp_ip g) = h"
    "mgrp_mem e p = Some g \<Longrightarrow> p \<in> set (mgrp_fdb e (MFDB_MGRP_HASH (mgrp_ip g)))"
    "mgrp_mem e p = Some g \<Longrightarrow> mi_head g \<noteq> []"
    "mgrp_mem e p = Some g \<Longrightarrow> mis_ok e (mi_head g)"
    "mgrp_mem e p = Some g \<Longrightarrow> mgrp_mem e q = Some g' \<Longrightarrow> mgrp_ip g = mgrp_ip g' \<Longrightarrow> p = q"
    "mgrp_cache_ip e \<noteq> 0 \<Longrightarrow> \<exists>p g. mgrp_cache e = Some p \<and> mgrp_mem e p = Some g \<and> mgrp_ip g = mgrp_cache_ip e"
  using assms unfolding mfdb_inv_def by blast+

text \<open>The reference counts of a database, from the groups it holds.\<close>

lemma mfdb_refs_eqI:
  assumes "mfdb_inv e"
    "\<And>ip p g i. group_at e ip p g \<Longrightarrow> f ip i = mi_refs (mi_head g) i"
    "\<And>ip i. \<nexists>p g. group_at e ip p g \<Longrightarrow> f ip i = 0"
  shows "mfdb_refs e = f"
proof (intro ext)
  fix ip i
  show "mfdb_refs e ip i = f ip i"
  proof (cases "\<exists>p g. group_at e ip p g")
    case True
    then show ?thesis using assms(2) mfdb_refs_group [OF assms(1)] by metis
  next
    case False
    then show ?thesis using assms(3) [OF False] mfdb_refs_none [OF assms(1) False] by simp
  qed
qed

lemma group_at_unique: "mfdb_inv e \<Longrightarrow> group_at e ip p g \<Longrightarrow> group_at e ip q g' \<Longrightarrow> q = p \<and> g' = g"
  using mfdb_invD(6) [of e p g q g'] by (auto simp: group_at_def)

lemma set_group_simps [simp]:
  "mgrp_fdb (set_group e p g) = mgrp_fdb e" "mgrp_mem (set_group e p g) = (mgrp_mem e)(p := Some g)"
  "mhif_head (set_group e p g) = mhif_head e" "mgrp_cache_ip (set_group e p g) = mgrp_cache_ip e"
  "mgrp_cache (set_group e p g) = mgrp_cache e" "iflist_head (set_group e p g) = iflist_head e"
  "mis_ok (set_group e p g) ms = mis_ok e ms"
  by (simp_all add: set_group_def mis_ok_def)

lemma drop_group_simps [simp]:
  "mgrp_fdb (drop_group e p g) h = (if h = MFDB_MGRP_HASH (mgrp_ip g) then remove1 p (mgrp_fdb e h) else mgrp_fdb e h)"
  "mgrp_mem (drop_group e p g) = (mgrp_mem e)(p := None)"
  "mhif_head (drop_group e p g) = mhif_head e"
  "mgrp_cache_ip (drop_group e p g) = (if mgrp_cache e = Some p then 0 else mgrp_cache_ip e)"
  "mgrp_cache (drop_group e p g) = mgrp_cache e" "iflist_head (drop_group e p g) = iflist_head e"
  "mis_ok (drop_group e p g) ms = mis_ok e ms"
  by (simp_all add: drop_group_def mis_ok_def)

lemma set_group_inv:
  assumes "mfdb_inv e" "group_at e ip p g" "mgrp_ip g' = ip" "mi_head g' \<noteq> []" "mis_ok e (mi_head g')"
  shows "mfdb_inv (set_group e p g')"
proof (rule mfdb_invI)
  show "distinct (mgrp_fdb (set_group e p g') h)" for h using assms(1) by (simp add: mfdb_invD)
  show "\<exists>g. mgrp_mem (set_group e p g') q = Some g \<and> MFDB_MGRP_HASH (mgrp_ip g) = h"
    if "q \<in> set (mgrp_fdb (set_group e p g') h)" for h q
    using that mfdb_invD(2) [OF assms(1), of q h] assms(2,3) by (auto simp: group_at_def)
  show "q \<in> set (mgrp_fdb (set_group e p g') (MFDB_MGRP_HASH (mgrp_ip ga))) \<and> mi_head ga \<noteq> [] \<and>
      mis_ok (set_group e p g') (mi_head ga)" if "mgrp_mem (set_group e p g') q = Some ga" for q ga
    using that mfdb_invD(3-5) [OF assms(1), of q ga] mfdb_invD(3) [OF assms(1), of p g] assms(2-)
    by (auto simp: group_at_def split: if_splits)
  show "q = r" if "mgrp_mem (set_group e p g') q = Some ga" "mgrp_mem (set_group e p g') r = Some gb"
    "mgrp_ip ga = mgrp_ip gb" for q r ga gb
    using that mfdb_invD(6) [OF assms(1), of q ga r gb] mfdb_invD(6) [OF assms(1), of p g r gb]
      mfdb_invD(6) [OF assms(1), of q ga p g] assms(2,3)
    by (auto simp: group_at_def split: if_splits)
  show "\<exists>q ga. mgrp_cache (set_group e p g') = Some q \<and> mgrp_mem (set_group e p g') q = Some ga \<and>
      mgrp_ip ga = mgrp_cache_ip (set_group e p g')" if "mgrp_cache_ip (set_group e p g') \<noteq> 0"
    using that mfdb_invD(7) [OF assms(1)] assms(2,3) by (auto simp: group_at_def)
qed

lemma set_group_refs:
  assumes "mfdb_inv e" "group_at e ip p g" "mgrp_ip g' = ip" "mi_head g' \<noteq> []" "mis_ok e (mi_head g')"
  shows "mfdb_refs (set_group e p g') = (mfdb_refs e)(ip := mi_refs (mi_head g'))"
proof (rule mfdb_refs_eqI [OF set_group_inv [OF assms]])
  fix ip' q ga i assume ga: "group_at (set_group e p g') ip' q ga"
  show "((mfdb_refs e)(ip := mi_refs (mi_head g'))) ip' i = mi_refs (mi_head ga) i"
  proof (cases "q = p")
    case False
    then have "group_at e ip' q ga" using ga by (simp add: group_at_def)
    moreover have "ip' \<noteq> ip" using calculation group_at_unique [OF assms(1,2)] False by auto
    ultimately show ?thesis by (simp add: mfdb_refs_group [OF assms(1)])
  qed (use ga assms(3) in \<open>auto simp: group_at_def\<close>)
next
  fix ip' i assume no: "\<nexists>q ga. group_at (set_group e p g') ip' q ga"
  have "group_at (set_group e p g') ip p g'" using assms(3) by (simp add: group_at_def)
  then have "ip' \<noteq> ip" using no by blast
  moreover have "\<nexists>q ga. group_at e ip' q ga"
  proof safe
    fix q ga assume q: "group_at e ip' q ga"
    then have "q \<noteq> p" using assms(2) calculation by (auto simp: group_at_def)
    then have "group_at (set_group e p g') ip' q ga" using q by (simp add: group_at_def)
    then show False using no by blast
  qed
  ultimately show "((mfdb_refs e)(ip := mi_refs (mi_head g'))) ip' i = 0"
    by (simp add: mfdb_refs_none [OF assms(1)])
qed

lemma drop_group_inv:
  assumes "mfdb_inv e" "group_at e ip p g"
  shows "mfdb_inv (drop_group e p g)"
proof (rule mfdb_invI)
  show "distinct (mgrp_fdb (drop_group e p g) h)" for h using assms(1) by (simp add: mfdb_invD)
  show "\<exists>ga. mgrp_mem (drop_group e p g) q = Some ga \<and> MFDB_MGRP_HASH (mgrp_ip ga) = h"
    if "q \<in> set (mgrp_fdb (drop_group e p g) h)" for h q
    using that mfdb_invD(2) [OF assms(1), of q h] assms(2) mfdb_invD(1) [OF assms(1), of h]
    by (auto simp: group_at_def split: if_splits)
  show "q \<in> set (mgrp_fdb (drop_group e p g) (MFDB_MGRP_HASH (mgrp_ip ga))) \<and> mi_head ga \<noteq> [] \<and>
      mis_ok (drop_group e p g) (mi_head ga)" if "mgrp_mem (drop_group e p g) q = Some ga" for q ga
    using that mfdb_invD(3-5) [OF assms(1), of q ga] mfdb_invD(1) [OF assms(1)]
    by (auto split: if_splits)
  show "q = r" if "mgrp_mem (drop_group e p g) q = Some ga" "mgrp_mem (drop_group e p g) r = Some gb"
    "mgrp_ip ga = mgrp_ip gb" for q r ga gb
    using that mfdb_invD(6) [OF assms(1), of q ga r gb] by (auto split: if_splits)
  show "\<exists>q ga. mgrp_cache (drop_group e p g) = Some q \<and> mgrp_mem (drop_group e p g) q = Some ga \<and>
      mgrp_ip ga = mgrp_cache_ip (drop_group e p g)" if "mgrp_cache_ip (drop_group e p g) \<noteq> 0"
    using that mfdb_invD(7) [OF assms(1)] by (auto split: if_splits)
qed

lemma drop_group_refs:
  assumes "mfdb_inv e" "group_at e ip p g"
  shows "mfdb_refs (drop_group e p g) = (mfdb_refs e)(ip := \<lambda>_. 0)"
proof (rule mfdb_refs_eqI [OF drop_group_inv [OF assms]])
  fix ip' q ga i assume ga: "group_at (drop_group e p g) ip' q ga"
  then have "q \<noteq> p" "group_at e ip' q ga" by (auto simp: group_at_def split: if_splits)
  moreover have "ip' \<noteq> ip" using calculation group_at_unique [OF assms] by auto
  ultimately show "((mfdb_refs e)(ip := \<lambda>_. 0)) ip' i = mi_refs (mi_head ga) i"
    by (simp add: mfdb_refs_group [OF assms(1)])
next
  fix ip' i assume no: "\<nexists>q ga. group_at (drop_group e p g) ip' q ga"
  have "\<nexists>q ga. group_at e ip' q ga" if "ip' \<noteq> ip"
  proof safe
    fix q ga assume q: "group_at e ip' q ga"
    then have "q \<noteq> p" using assms(2) that by (auto simp: group_at_def)
    then have "group_at (drop_group e p g) ip' q ga" using q by (simp add: group_at_def)
    then show False using no by blast
  qed
  then show "((mfdb_refs e)(ip := \<lambda>_. 0)) ip' i = 0" by (simp add: mfdb_refs_none [OF assms(1)])
qed

text \<open>A group linked at the head of its chain, as \<open>emfc_mfdb_membership_add\<close> does with a new one.\<close>

definition link_group :: "emfc_info \<Rightarrow> nat \<Rightarrow> emfc_mgrp \<Rightarrow> emfc_info" where
  "link_group e p g = (set_group e p g)\<lparr>mgrp_fdb := (mgrp_fdb e)(MFDB_MGRP_HASH (mgrp_ip g) :=
     p # mgrp_fdb e (MFDB_MGRP_HASH (mgrp_ip g)))\<rparr>"

lemma link_group_simps [simp]:
  "mgrp_fdb (link_group e p g) h = (if h = MFDB_MGRP_HASH (mgrp_ip g) then p # mgrp_fdb e h else mgrp_fdb e h)"
  "mgrp_mem (link_group e p g) = (mgrp_mem e)(p := Some g)" "mhif_head (link_group e p g) = mhif_head e"
  "mgrp_cache_ip (link_group e p g) = mgrp_cache_ip e" "mgrp_cache (link_group e p g) = mgrp_cache e"
  "mis_ok (link_group e p g) ms = mis_ok e ms" "iflist_head (link_group e p g) = iflist_head e"
  by (simp_all add: link_group_def mis_ok_def)

lemma link_group_inv:
  assumes "mfdb_inv e" "\<nexists>q ga. group_at e (mgrp_ip g) q ga" "mgrp_mem e p = None"
    "mi_head g \<noteq> []" "mis_ok e (mi_head g)"
  shows "mfdb_inv (link_group e p g)"
proof (rule mfdb_invI)
  have new: "p \<notin> set (mgrp_fdb e h)" for h using mfdb_invD(2) [OF assms(1), of p h] assms(3) by auto
  have ipne: "mgrp_ip ga \<noteq> mgrp_ip g" if "mgrp_mem e q = Some ga" for q ga
    using assms(2) that unfolding group_at_def by blast
  show "distinct (mgrp_fdb (link_group e p g) h)" for h using assms(1) new by (simp add: mfdb_invD)
  show "\<exists>ga. mgrp_mem (link_group e p g) q = Some ga \<and> MFDB_MGRP_HASH (mgrp_ip ga) = h"
    if "q \<in> set (mgrp_fdb (link_group e p g) h)" for h q
    using that mfdb_invD(2) [OF assms(1), of q h] assms(3) by (auto split: if_splits)
  show "q \<in> set (mgrp_fdb (link_group e p g) (MFDB_MGRP_HASH (mgrp_ip ga))) \<and> mi_head ga \<noteq> [] \<and>
      mis_ok (link_group e p g) (mi_head ga)" if "mgrp_mem (link_group e p g) q = Some ga" for q ga
    using that mfdb_invD(3-5) [OF assms(1), of q ga] assms(4,5) by (auto split: if_splits)
  show "q = r" if "mgrp_mem (link_group e p g) q = Some ga" "mgrp_mem (link_group e p g) r = Some gb"
    "mgrp_ip ga = mgrp_ip gb" for q r ga gb
    using that mfdb_invD(6) [OF assms(1), of q ga r gb] ipne [of r gb] ipne [of q ga]
    by (simp split: if_splits)
  show "\<exists>q ga. mgrp_cache (link_group e p g) = Some q \<and> mgrp_mem (link_group e p g) q = Some ga \<and>
      mgrp_ip ga = mgrp_cache_ip (link_group e p g)" if "mgrp_cache_ip (link_group e p g) \<noteq> 0"
    using that mfdb_invD(7) [OF assms(1)] assms(3) by (auto split: if_splits)
qed

lemma link_group_refs:
  assumes "mfdb_inv e" "\<nexists>q ga. group_at e (mgrp_ip g) q ga" "mgrp_mem e p = None"
    "mi_head g \<noteq> []" "mis_ok e (mi_head g)"
  shows "mfdb_refs (link_group e p g) = (mfdb_refs e)(mgrp_ip g := mi_refs (mi_head g))"
proof (rule mfdb_refs_eqI [OF link_group_inv [OF assms]])
  fix ip' q ga i assume ga: "group_at (link_group e p g) ip' q ga"
  show "((mfdb_refs e)(mgrp_ip g := mi_refs (mi_head g))) ip' i = mi_refs (mi_head ga) i"
  proof (cases "q = p")
    case False
    then have "group_at e ip' q ga" using ga by (simp add: group_at_def)
    moreover have "ip' \<noteq> mgrp_ip g" using calculation assms(2) by blast
    ultimately show ?thesis by (simp add: mfdb_refs_group [OF assms(1)])
  qed (use ga in \<open>auto simp: group_at_def\<close>)
next
  fix ip' i assume no: "\<nexists>q ga. group_at (link_group e p g) ip' q ga"
  have "group_at (link_group e p g) (mgrp_ip g) p g" by (simp add: group_at_def)
  then have "ip' \<noteq> mgrp_ip g" using no by blast
  moreover have "\<nexists>q ga. group_at e ip' q ga"
  proof safe
    fix q ga assume q: "group_at e ip' q ga"
    then have "q \<noteq> p" using assms(3) by (auto simp: group_at_def)
    then have "group_at (link_group e p g) ip' q ga" using q by (simp add: group_at_def)
    then show False using no by blast
  qed
  ultimately show "((mfdb_refs e)(mgrp_ip g := mi_refs (mi_head g))) ip' i = 0"
    by (simp add: mfdb_refs_none [OF assms(1)])
qed

text \<open>More host interface entries, and nothing else, keep the invariant and the counts.\<close>

lemma mhif_add_spec:
  assumes "emfc_mfdb_mhif_add e ifp ok = (e', r)"
  shows "mfdb_inv e \<Longrightarrow> mfdb_inv e'" "mfdb_refs e' = mfdb_refs e" "mgrp_mem e' = mgrp_mem e"
    "group_at e' ip p g = group_at e ip p g" "mgrp_fdb e' = mgrp_fdb e" "iflist_head e' = iflist_head e"
    "ok \<Longrightarrow> r = Some ifp \<and> ifp \<in> fst ` set (mhif_head e')"
    "mis_ok e ms \<Longrightarrow> mis_ok e' ms"
proof -
  have e': "e' = e\<lparr>mhif_head := mhif_head e'\<rparr>" and sub: "fst ` set (mhif_head e) \<subseteq> fst ` set (mhif_head e')"
    using assms by (auto simp: emfc_mfdb_mhif_add_def split: if_splits)
  have f: "mgrp_fdb e' = mgrp_fdb e" "mgrp_mem e' = mgrp_mem e" "mgrp_cache e' = mgrp_cache e"
    "mgrp_cache_ip e' = mgrp_cache_ip e" "iflist_head e' = iflist_head e" by (subst e', simp)+
  show "mgrp_mem e' = mgrp_mem e" "mgrp_fdb e' = mgrp_fdb e" "iflist_head e' = iflist_head e" by (fact f)+
  show "mfdb_refs e' = mfdb_refs e" by (intro ext) (simp only: mfdb_refs_def f)
  show "group_at e' ip p g = group_at e ip p g" by (simp add: group_at_def f)
  show ok: "mis_ok e' ms" if "mis_ok e ms" for ms using that sub unfolding mis_ok_def by fast
  show "mfdb_inv e'" if "mfdb_inv e" using that ok unfolding mfdb_inv_def f by blast
  show "r = Some ifp \<and> ifp \<in> fst ` set (mhif_head e')" if "ok"
    using assms that by (auto simp: emfc_mfdb_mhif_add_def split: if_splits)
qed

lemma mis_ok_Cons:
  assumes "mis_ok e ms" "Some ifp \<notin> mi_mhif ` set ms" "ifp \<in> fst ` set (mhif_head e)" "r \<noteq> 0"
  shows "mis_ok e (\<lparr>mi_mhif = Some ifp, mi_ref = r, mi_data_fwd = c\<rparr> # ms)"
  using assms by (auto simp: mis_ok_def)

lemma mi_refs_unit:
  "(mi_refs [\<lparr>mi_mhif = Some ifp, mi_ref = 1, mi_data_fwd = 0\<rparr>]) = (\<lambda>_. 0)(ifp := Suc 0)"
  by (auto simp: fun_eq_iff)

lemma drop_link_group:
  assumes "mfdb_inv e" "mgrp_mem e p = None"
  shows "drop_group (link_group e p g) p g = e"
proof -
  have "mgrp_cache e \<noteq> Some p \<or> mgrp_cache_ip e = 0" using mfdb_invD(7) [OF assms(1)] assms(2) by force
  moreover have "(mgrp_mem e)(p := None) = mgrp_mem e" using assms(2) by auto
  ultimately show ?thesis
    by (intro emfc_info.equality) (auto simp: drop_group_def link_group_def set_group_def)
qed

lemma mhif_add_link:
  "emfc_mfdb_mhif_add (link_group e p g) ifp ok =
     (link_group (fst (emfc_mfdb_mhif_add e ifp ok)) p g, snd (emfc_mfdb_mhif_add e ifp ok))"
  by (simp add: emfc_mfdb_mhif_add_def link_group_def set_group_def)

lemma set_link_group: "mgrp_ip g' = mgrp_ip g \<Longrightarrow> set_group (link_group e p g) p g' = link_group e p g'"
  by (simp add: link_group_def set_group_def)

lemma drop_set_group:
  "drop_group (set_group e p (g\<lparr>mi_head := ms\<rparr>)) p (g\<lparr>mi_head := ms\<rparr>) = drop_group e p g"
  by (simp add: drop_group_def set_group_def)

text \<open>The reference counts the database promises after adding and deleting.\<close>

definition refs_add :: "emf_alloc \<Rightarrow> (uint32 \<Rightarrow> nat \<Rightarrow> nat) \<Rightarrow> uint32 \<Rightarrow> nat \<Rightarrow> (uint32 \<Rightarrow> nat \<Rightarrow> nat) \<times> int" where
  "refs_add a f ip ifp =
     (if f ip ifp = 0 \<and> (\<not> ok_mi a \<or> \<not> ok_mgrp a \<and> f ip = (\<lambda>_. 0)) then (f, FAILURE)
      else (f(ip := (f ip)(ifp := Suc (f ip ifp))), SUCCESS))"

definition refs_del :: "(uint32 \<Rightarrow> nat \<Rightarrow> nat) \<Rightarrow> uint32 \<Rightarrow> nat \<Rightarrow> (uint32 \<Rightarrow> nat \<Rightarrow> nat) \<times> int" where
  "refs_del f ip ifp =
     (if f ip ifp = 0 then (f, FAILURE) else (f(ip := (f ip)(ifp := f ip ifp - 1)), SUCCESS))"

lemma mis_ok_refs_nonzero:
  assumes "mis_ok e ms" "ms \<noteq> []"
  shows "mi_refs ms \<noteq> (\<lambda>_. 0)"
proof
  assume z: "mi_refs ms = (\<lambda>_. 0)"
  obtain m ms' where ms: "ms = m # ms'" using assms(2) by (cases ms) auto
  obtain i where "mi_mhif m = Some i" "mi_ref m \<noteq> 0" using assms(1) ms by (auto simp: mis_ok_def)
  then have "mi_refs ms i \<noteq> 0" using ms by (simp add: unat_eq_0)
  then show False using z by simp
qed

lemma mis_ok_update:
  assumes "mis_ok e ms" "mi_index ifp ms = Some (Some k)" "mi_mhif m' = Some ifp" "mi_ref m' \<noteq> 0"
  shows "mis_ok e (ms[k := m'])"
proof -
  note ix = mi_index_Some [OF assms(2)]
  have ent: "\<exists>i. mi_mhif m = Some i \<and> i \<in> fst ` set (mhif_head e) \<and> mi_ref m \<noteq> 0" if "m \<in> set ms" for m
    using that assms(1) by (simp add: mis_ok_def)
  have "ifp \<in> fst ` set (mhif_head e)" using ent [OF nth_mem [OF ix(1)]] ix(2) by auto
  then have "\<exists>i. mi_mhif m = Some i \<and> i \<in> fst ` set (mhif_head e) \<and> mi_ref m \<noteq> 0"
    if "m \<in> set (ms[k := m'])" for m
  proof (cases "m = m'")
    case False
    then have "m \<in> set ms" using set_update_subset_insert [of ms k m'] that by blast
    then show ?thesis by (rule ent)
  qed (use assms(3,4) in simp)
  then show ?thesis using ix(4) [OF assms(3)] assms(1) by (simp add: mis_ok_def)
qed

lemma distinct_map_remove_nth: "distinct (map f xs) \<Longrightarrow> distinct (map f (take k xs @ drop (Suc k) xs))"
  by (induction xs arbitrary: k) (auto simp: take_Cons drop_Cons split: nat.splits dest: in_set_takeD in_set_dropD)

lemma mis_ok_remove: "mis_ok e ms \<Longrightarrow> mis_ok e (take k ms @ drop (Suc k) ms)"
  unfolding mis_ok_def
  by (elim conjE, rule conjI [OF _ distinct_map_remove_nth]) (auto dest: in_set_takeD in_set_dropD)

lemma add_mi_new:
  assumes inv: "mfdb_inv e" and none: "\<nexists>q ga. group_at e ip q ga" and fresh: "mgrp_mem e p = None"
    and ok: "ok_mhif a" "ok_mgrp a"
  shows "\<exists>e' r. add_mi a (link_group e p \<lparr>mgrp_ip = ip, mi_head = []\<rparr>) p \<lparr>mgrp_ip = ip, mi_head = []\<rparr> ifp = (e', r) \<and>
    mfdb_inv e' \<and> iflist_head e' = iflist_head e \<and> (mfdb_refs e', r) = refs_add a (mfdb_refs e) ip ifp"
proof -
  have zero: "mfdb_refs e ip = (\<lambda>_. 0)" using mfdb_refs_none [OF inv none] by auto
  show ?thesis
  proof (cases "ok_mi a")
    case False
    then show ?thesis using inv zero by (simp add: add_mi_def drop_link_group [OF inv fresh] refs_add_def)
  next
    case True
    obtain e1 r1 where m: "emfc_mfdb_mhif_add e ifp (ok_mhif a) = (e1, r1)" by force
    note s = mhif_add_spec [OF m]
    define g' where "g' = \<lparr>mgrp_ip = ip, mi_head = [\<lparr>mi_mhif = Some ifp, mi_ref = 1, mi_data_fwd = 0\<rparr>]\<rparr>"
    have mis: "mis_ok e1 (mi_head g')" using s(7) ok by (simp add: g'_def mis_ok_def)
    have g1: "\<nexists>q ga. group_at e1 (mgrp_ip g') q ga" "mgrp_mem e1 p = None" "mi_head g' \<noteq> []"
      using none fresh s(3,4) by (simp_all add: g'_def)
    have "add_mi a (link_group e p \<lparr>mgrp_ip = ip, mi_head = []\<rparr>) p \<lparr>mgrp_ip = ip, mi_head = []\<rparr> ifp =
        (link_group e1 p g', SUCCESS)"
      using True m s(7) ok by (simp add: add_mi_def mhif_add_link set_link_group g'_def)
    moreover have "mfdb_refs (link_group e1 p g') = (mfdb_refs e)(ip := (mfdb_refs e ip)(ifp := Suc (mfdb_refs e ip ifp)))"
      unfolding link_group_refs [OF s(1) [OF inv] g1 mis] s(2) zero using mi_refs_unit by (simp add: g'_def)
    ultimately show ?thesis
      using True ok link_group_inv [OF s(1) [OF inv] g1 mis] s(6) by (simp add: refs_add_def)
  qed
qed

lemma add_mi_old:
  assumes inv: "mfdb_inv e" and g: "group_at e ip p g" and ix: "mi_index ifp (mi_head g) = Some None"
    and ok: "ok_mhif a"
  shows "\<exists>e' r. add_mi a e p g ifp = (e', r) \<and> mfdb_inv e' \<and> iflist_head e' = iflist_head e \<and>
    (mfdb_refs e', r) = refs_add a (mfdb_refs e) ip ifp"
proof -
  have ne: "mi_head g \<noteq> []" and mok: "mis_ok e (mi_head g)" and ip: "mgrp_ip g = ip"
    using g mfdb_invD(4,5) [OF inv] by (auto simp: group_at_def)
  have refs: "mfdb_refs e ip = mi_refs (mi_head g)" using mfdb_refs_group [OF inv g] by auto
  have notin: "Some ifp \<notin> mi_mhif ` set (mi_head g)" by (rule mi_index_None [OF ix])
  show ?thesis
  proof (cases "ok_mi a")
    case False
    then show ?thesis using inv ne notin by (simp add: add_mi_def refs_add_def refs mi_refs_notin)
  next
    case True
    obtain e1 r1 where m: "emfc_mfdb_mhif_add e ifp (ok_mhif a) = (e1, r1)" by force
    note s = mhif_add_spec [OF m]
    define g' where "g' = g\<lparr>mi_head := \<lparr>mi_mhif = Some ifp, mi_ref = 1, mi_data_fwd = 0\<rparr> # mi_head g\<rparr>"
    have mis: "mis_ok e1 (mi_head g')" using mis_ok_Cons [OF s(8) [OF mok] notin] s(7) ok by (simp add: g'_def)
    have g1: "group_at e1 ip p g" "mgrp_ip g' = ip" "mi_head g' \<noteq> []" using g s(4) ip by (simp_all add: g'_def)
    have add: "add_mi a e p g ifp = (set_group e1 p g', SUCCESS)"
      using True m s(7) ok by (simp add: add_mi_def g'_def)
    have "mi_refs (mi_head g') = (mi_refs (mi_head g))(ifp := Suc (mi_refs (mi_head g) ifp))"
      using notin by (auto simp: g'_def fun_eq_iff mi_refs_notin)
    then have "mfdb_refs (set_group e1 p g') = (mfdb_refs e)(ip := (mfdb_refs e ip)(ifp := Suc (mfdb_refs e ip ifp)))"
      unfolding set_group_refs [OF s(1) [OF inv] g1 mis] s(2) refs by simp
    then show ?thesis
      using add True set_group_inv [OF s(1) [OF inv] g1 mis] s(6) mis_ok_refs_nonzero [OF mok ne]
      by (simp add: refs_add_def refs)
  qed
qed

lemma mis_ok_mhif: "mis_ok e ms \<Longrightarrow> \<forall>m \<in> set ms. mi_mhif m \<noteq> None"
  by (auto simp: mis_ok_def)

lemma membership_add_refs:
  assumes inv: "mfdb_inv e" and ip: "ip \<noteq> 0" and ok: "ok_mhif a" and fresh: "mgrp_mem e (new_mgrp a) = None"
    and bound: "Suc (mfdb_refs e ip ifp) < 2 ^ 32"
  shows "\<exists>e' r. emfc_mfdb_membership_add a e ip ifp = Some (e', r) \<and> mfdb_inv e' \<and>
    iflist_head e' = iflist_head e \<and> (mfdb_refs e', r) = refs_add a (mfdb_refs e) ip ifp"
proof -
  obtain e1 r1 where f: "emfc_mfdb_group_find e ip = Some (e1, r1)" and inv1: "mfdb_inv e1" and same: "same_db e e1"
    and r1: "case r1 of None \<Rightarrow> \<nexists>p g. group_at e ip p g | Some p \<Rightarrow> \<exists>g. group_at e ip p g"
    using group_find_spec [OF inv ip] by blast
  have e1: "mfdb_refs e1 = mfdb_refs e" "iflist_head e1 = iflist_head e" "mgrp_mem e1 = mgrp_mem e"
    using same_db_refs [OF same] same by (simp_all add: same_db_def)
  show ?thesis
  proof (cases r1)
    case None
    then have none: "\<nexists>p g. group_at e1 ip p g" using r1 same_db_group_at [OF same] by simp
    show ?thesis
    proof (cases "ok_mgrp a")
      case False
      have "mfdb_refs e ip = (\<lambda>_. 0)" using mfdb_refs_none [OF inv1 none] e1 by auto
      then show ?thesis using None f False inv1 e1 by (simp add: emfc_mfdb_membership_add_def refs_add_def)
    next
      case True
      have "emfc_mfdb_membership_add a e ip ifp = Some (add_mi a (link_group e1 (new_mgrp a)
          \<lparr>mgrp_ip = ip, mi_head = []\<rparr>) (new_mgrp a) \<lparr>mgrp_ip = ip, mi_head = []\<rparr> ifp)"
        using None f True by (simp add: emfc_mfdb_membership_add_def link_group_def Let_def)
      then show ?thesis using add_mi_new [OF inv1 none _ ok True] fresh e1 by force
    qed
  next
    case (Some p)
    then obtain g where g: "group_at e1 ip p g" using r1 same_db_group_at [OF same] by auto
    then have mem: "mgrp_mem e1 p = Some g" "mgrp_ip g = ip" by (auto simp: group_at_def)
    have mok: "mis_ok e1 (mi_head g)" using mfdb_invD(5) [OF inv1 mem(1)] .
    obtain k where k: "mi_index ifp (mi_head g) = Some k"
      using mi_index_total [OF mis_ok_mhif [OF mok]] by auto
    show ?thesis
    proof (cases k)
      case None
      then show ?thesis using f Some mem k add_mi_old [OF inv1 g _ ok] e1
        by (force simp: emfc_mfdb_membership_add_def emfc_mfdb_mi_entry_find_def)
    next
      case ks: (Some k')
      note ix = mi_index_Some [OF k [unfolded ks]]
      define m where "m = (mi_head g ! k')\<lparr>mi_ref := mi_ref (mi_head g ! k') + 1\<rparr>"
      define g' where "g' = g\<lparr>mi_head := (mi_head g)[k' := m]\<rparr>"
      have refs: "mfdb_refs e ip = mi_refs (mi_head g)" using mfdb_refs_group [OF inv1 g] e1 by auto
      have um: "unat (mi_ref m) = Suc (mfdb_refs e ip ifp)"
        using bound ix(3) by (simp add: m_def refs unat_word_ariths)
      then have mne: "mi_ref m \<noteq> 0" by (metis Zero_not_Suc unat_0)
      have mm: "mi_mhif m = Some ifp" using ix(2) by (simp add: m_def)
      have mis: "mis_ok e1 (mi_head g')" using mis_ok_update [OF mok k [unfolded ks] mm mne] by (simp add: g'_def)
      have g1: "mgrp_ip g' = ip" "mi_head g' \<noteq> []" using mem ix(1) by (auto simp: g'_def)
      have "emfc_mfdb_membership_add a e ip ifp = Some (set_group e1 p g', SUCCESS)"
        using f Some mem k ks
        by (simp add: emfc_mfdb_membership_add_def emfc_mfdb_mi_entry_find_def g'_def m_def Let_def)
      moreover have "mi_refs (mi_head g') = (mfdb_refs e ip)(ifp := Suc (mfdb_refs e ip ifp))"
        using ix(5) [OF mm] um by (simp add: g'_def refs)
      moreover have "mfdb_refs e ip ifp \<noteq> 0"
        using ix(3) mok nth_mem [OF ix(1)] by (auto simp: refs mis_ok_def unat_eq_0)
      ultimately show ?thesis
        using set_group_inv [OF inv1 g g1 mis] set_group_refs [OF inv1 g g1 mis] e1 by (simp add: refs_add_def)
    qed
  qed
qed

lemma membership_del_refs:
  assumes inv: "mfdb_inv e" and ip: "ip \<noteq> 0"
  shows "\<exists>e' r. emfc_mfdb_membership_del e ip ifp = Some (e', r) \<and> mfdb_inv e' \<and>
    iflist_head e' = iflist_head e \<and> (mfdb_refs e', r) = refs_del (mfdb_refs e) ip ifp"
proof -
  obtain e1 r1 where f: "emfc_mfdb_group_find e ip = Some (e1, r1)" and inv1: "mfdb_inv e1" and same: "same_db e e1"
    and r1: "case r1 of None \<Rightarrow> \<nexists>p g. group_at e ip p g | Some p \<Rightarrow> \<exists>g. group_at e ip p g"
    using group_find_spec [OF inv ip] by blast
  have e1: "mfdb_refs e1 = mfdb_refs e" "iflist_head e1 = iflist_head e"
    using same_db_refs [OF same] same by (simp_all add: same_db_def)
  show ?thesis
  proof (cases r1)
    case None
    then have none: "\<nexists>p g. group_at e1 ip p g" using r1 same_db_group_at [OF same] by simp
    then show ?thesis using None f inv1 e1 mfdb_refs_none [OF inv1 none]
      by (simp add: emfc_mfdb_membership_del_def refs_del_def)
  next
    case (Some p)
    then obtain g where g: "group_at e1 ip p g" using r1 same_db_group_at [OF same] by auto
    then have mem: "mgrp_mem e1 p = Some g" "mgrp_ip g = ip" by (auto simp: group_at_def)
    have mok: "mis_ok e1 (mi_head g)" using mfdb_invD(5) [OF inv1 mem(1)] .
    have refs: "mfdb_refs e ip = mi_refs (mi_head g)" using mfdb_refs_group [OF inv1 g] e1 by auto
    obtain k where k: "mi_index ifp (mi_head g) = Some k"
      using mi_index_total [OF mis_ok_mhif [OF mok]] by auto
    show ?thesis
    proof (cases k)
      case None
      then show ?thesis using f Some mem k inv1 e1 mi_index_None [of ifp "mi_head g"]
        by (simp add: emfc_mfdb_membership_del_def emfc_mfdb_mi_entry_find_def refs_del_def refs mi_refs_notin)
    next
      case ks: (Some k')
      note k' = k [unfolded ks] and ix = mi_index_Some [OF k [unfolded ks]]
      have nz: "mfdb_refs e ip ifp \<noteq> 0"
        using ix(3) mok nth_mem [OF ix(1)] by (auto simp: refs mis_ok_def unat_eq_0)
      define m where "m = (mi_head g ! k')\<lparr>mi_ref := mi_ref (mi_head g ! k') - 1\<rparr>"
      have um: "unat (mi_ref m) = mfdb_refs e ip ifp - 1"
        using nz ix(3) by (simp add: m_def refs unat_minus_one unat_eq_0)
      have mm: "mi_mhif m = Some ifp" using ix(2) by (simp add: m_def)
      define g' where "g' = g\<lparr>mi_head := if mi_ref m \<noteq> 0 then (mi_head g)[k' := m]
        else take k' (mi_head g) @ drop (Suc k') (mi_head g)\<rparr>"
      have ip': "mgrp_ip g' = ip" using mem by (simp add: g'_def)
      have mis: "mis_ok e1 (mi_head g')"
        using mis_ok_update [OF mok k' mm] mis_ok_remove [OF mok] by (simp add: g'_def)
      have ne: "mi_head g' \<noteq> []" if "mi_ref m \<noteq> 0" using that ix(1) by (auto simp: g'_def)
      have new: "mi_refs (mi_head g') = (mfdb_refs e ip)(ifp := mfdb_refs e ip ifp - 1)"
        using ix(5) [OF mm] um mi_index_removed [OF k'] mok by (auto simp: g'_def refs mis_ok_def)
      have del: "emfc_mfdb_membership_del e ip ifp =
          Some (if mi_head g' = [] then drop_group e1 p g else set_group e1 p g', SUCCESS)"
        using f Some mem k' ne
        by (simp add: drop_set_group emfc_mfdb_membership_del_def emfc_mfdb_mi_entry_find_def g'_def m_def Let_def)
      show ?thesis
      proof (cases "mi_head g' = []")
        case True
        then have "mi_refs (mi_head g') = (\<lambda>_. 0)" by (simp add: fun_eq_iff)
        then have "(mfdb_refs e ip)(ifp := mfdb_refs e ip ifp - 1) = (\<lambda>_. 0)" using new by simp
        then show ?thesis using True del nz drop_group_inv [OF inv1 g] drop_group_refs [OF inv1 g] e1
          by (simp add: refs_del_def)
      next
        case False
        then show ?thesis
          using del nz new set_group_inv [OF inv1 g ip' False mis] set_group_refs [OF inv1 g ip' False mis] e1
          by (simp add: refs_del_def)
      qed
    qed
  qed
qed

lemma clear_chain_result:
  assumes "mgrp_fdb e i = ps" "distinct ps" "\<forall>p \<in> set ps. mgrp_mem e p \<noteq> None"
  shows "clear_chain e i ps = Some (e\<lparr>mgrp_fdb := (mgrp_fdb e)(i := []),
    mgrp_mem := \<lambda>p. if p \<in> set ps then None else mgrp_mem e p\<rparr>)"
  using assms
proof (induction ps arbitrary: e)
  case Nil
  then have "(mgrp_fdb e)(i := []) = mgrp_fdb e" by auto
  then show ?case by simp
next
  case (Cons p ps)
  define e1 where "e1 = e\<lparr>mgrp_fdb := (mgrp_fdb e)(i := remove1 p (mgrp_fdb e i)), mgrp_mem := (mgrp_mem e)(p := None)\<rparr>"
  have "clear_chain e i (p # ps) = clear_chain e1 i ps" using Cons.prems by (auto simp: e1_def)
  also have "\<dots> = Some (e1\<lparr>mgrp_fdb := (mgrp_fdb e1)(i := []),
      mgrp_mem := \<lambda>q. if q \<in> set ps then None else mgrp_mem e1 q\<rparr>)"
    using Cons.prems by (intro Cons.IH) (auto simp: e1_def)
  also have "e1\<lparr>mgrp_fdb := (mgrp_fdb e1)(i := []), mgrp_mem := \<lambda>q. if q \<in> set ps then None else mgrp_mem e1 q\<rparr> =
      e\<lparr>mgrp_fdb := (mgrp_fdb e)(i := []), mgrp_mem := \<lambda>q. if q \<in> set (p # ps) then None else mgrp_mem e q\<rparr>"
    unfolding e1_def by (intro emfc_info.equality) auto
  finally show ?case .
qed

lemma clear_chains_result:
  assumes "distinct is" "\<forall>i \<in> set is. distinct (mgrp_fdb e i) \<and> (\<forall>p \<in> set (mgrp_fdb e i). mgrp_mem e p \<noteq> None)"
    "\<forall>i \<in> set is. \<forall>j \<in> set is. i \<noteq> j \<longrightarrow> set (mgrp_fdb e i) \<inter> set (mgrp_fdb e j) = {}"
  shows "clear_chains e is = Some (e\<lparr>mgrp_fdb := \<lambda>i. if i \<in> set is then [] else mgrp_fdb e i,
    mgrp_mem := \<lambda>p. if \<exists>i \<in> set is. p \<in> set (mgrp_fdb e i) then None else mgrp_mem e p\<rparr>)"
  using assms
proof (induction "is" arbitrary: e)
  case (Cons i "is")
  define e1 where "e1 = e\<lparr>mgrp_fdb := (mgrp_fdb e)(i := []),
    mgrp_mem := \<lambda>p. if p \<in> set (mgrp_fdb e i) then None else mgrp_mem e p\<rparr>"
  have "clear_chain e i (mgrp_fdb e i) = Some e1"
    unfolding e1_def using Cons.prems(2) by (intro clear_chain_result) auto
  then have "clear_chains e (i # is) = clear_chains e1 is" by simp
  also have "\<dots> = Some (e1\<lparr>mgrp_fdb := \<lambda>i. if i \<in> set is then [] else mgrp_fdb e1 i,
      mgrp_mem := \<lambda>p. if \<exists>i \<in> set is. p \<in> set (mgrp_fdb e1 i) then None else mgrp_mem e1 p\<rparr>)"
  proof (rule Cons.IH)
    show "distinct is" using Cons.prems(1) by simp
    show "\<forall>j \<in> set is. distinct (mgrp_fdb e1 j) \<and> (\<forall>p \<in> set (mgrp_fdb e1 j). mgrp_mem e1 p \<noteq> None)"
    proof
      fix j assume j: "j \<in> set is"
      have "j \<noteq> i" using j Cons.prems(1) by auto
      moreover have "set (mgrp_fdb e i) \<inter> set (mgrp_fdb e j) = {}"
        using Cons.prems(3) j calculation by simp
      ultimately show "distinct (mgrp_fdb e1 j) \<and> (\<forall>p \<in> set (mgrp_fdb e1 j). mgrp_mem e1 p \<noteq> None)"
        using Cons.prems(2) j by (auto simp: e1_def)
    qed
    show "\<forall>j \<in> set is. \<forall>k \<in> set is. j \<noteq> k \<longrightarrow> set (mgrp_fdb e1 j) \<inter> set (mgrp_fdb e1 k) = {}"
      using Cons.prems(3) by (simp add: e1_def)
  qed
  also have "e1\<lparr>mgrp_fdb := \<lambda>i. if i \<in> set is then [] else mgrp_fdb e1 i,
      mgrp_mem := \<lambda>p. if \<exists>i \<in> set is. p \<in> set (mgrp_fdb e1 i) then None else mgrp_mem e1 p\<rparr> =
    e\<lparr>mgrp_fdb := \<lambda>j. if j \<in> set (i # is) then [] else mgrp_fdb e j,
      mgrp_mem := \<lambda>p. if \<exists>j \<in> set (i # is). p \<in> set (mgrp_fdb e j) then None else mgrp_mem e p\<rparr>"
    unfolding e1_def using Cons.prems(1) by (intro emfc_info.equality) (auto simp: fun_eq_iff)
  finally show ?case .
qed simp

lemma MFDB_MGRP_HASH_bound: "MFDB_MGRP_HASH ip < MFDB_HASHT_SIZE"
proof -
  have "unat (w AND 7) \<le> 7" for w :: uint32
    using word_and_le1 [of w 7] by (simp add: word_le_nat_alt)
  then have "unat (w AND 7) < 8" for w :: uint32 by (rule le_less_trans) simp
  then show ?thesis unfolding MFDB_MGRP_HASH_def MFDB_HASHT_SIZE_def .
qed

lemma mfdb_clear_refs:
  assumes inv: "mfdb_inv e"
  shows "\<exists>e'. emfc_mfdb_clear e = Some e' \<and> mfdb_inv e' \<and> mfdb_refs e' = (\<lambda>_ _. 0) \<and>
    mgrp_mem e' = (\<lambda>_. None) \<and> iflist_head e' = iflist_head e"
proof -
  define e1 where "e1 = e\<lparr>mgrp_fdb := \<lambda>i. if i \<in> set [0..<MFDB_HASHT_SIZE] then [] else mgrp_fdb e i,
    mgrp_mem := \<lambda>p. if \<exists>i \<in> set [0..<MFDB_HASHT_SIZE]. p \<in> set (mgrp_fdb e i) then None else mgrp_mem e p\<rparr>"
  have mem: "mgrp_mem e p \<noteq> None" if "p \<in> set (mgrp_fdb e i)" for p i
    using mfdb_invD(2) [OF inv that] by auto
  have disj: "set (mgrp_fdb e i) \<inter> set (mgrp_fdb e j) = {}" if "i \<noteq> j" for i j
  proof (rule ccontr)
    assume "set (mgrp_fdb e i) \<inter> set (mgrp_fdb e j) \<noteq> {}"
    then obtain p where "p \<in> set (mgrp_fdb e i)" "p \<in> set (mgrp_fdb e j)" by auto
    then show False using mfdb_invD(2) [OF inv, of p i] mfdb_invD(2) [OF inv, of p j] that by auto
  qed
  have cl: "clear_chains e [0..<MFDB_HASHT_SIZE] = Some e1"
    unfolding e1_def using mfdb_invD(1) [OF inv] mem disj by (intro clear_chains_result) auto
  have big: "mgrp_fdb e h = []" if "\<not> h < MFDB_HASHT_SIZE" for h
  proof (rule ccontr)
    assume "mgrp_fdb e h \<noteq> []"
    then obtain p where "p \<in> set (mgrp_fdb e h)" by (cases "mgrp_fdb e h") auto
    then show False using mfdb_invD(2) [OF inv, of p h] MFDB_MGRP_HASH_bound that by metis
  qed
  have fdb: "mgrp_fdb e1 h = []" for h using big [of h] by (simp add: e1_def)
  have none: "mgrp_mem e1 p = None" for p
  proof (cases "mgrp_mem e p")
    case (Some g)
    then show ?thesis using mfdb_invD(3) [OF inv Some] MFDB_MGRP_HASH_bound [of "mgrp_ip g"]
      by (auto simp: e1_def)
  qed (simp add: e1_def)
  define e2 where "e2 = e1\<lparr>mgrp_cache_ip := 0\<rparr>"
  have inv2: "mfdb_inv e2" using fdb none by (intro mfdb_invI) (simp_all add: e2_def)
  have "mfdb_refs e2 = (\<lambda>_ _. 0)"
    by (intro mfdb_refs_eqI [OF inv2]) (simp_all add: group_at_def e2_def none)
  then show ?thesis using cl inv2 none by (auto simp: emfc_mfdb_clear_def e2_def e1_def)
qed

lemma mfdb_inv_init: "mfdb_inv emfc_zero" "mfdb_refs emfc_zero = (\<lambda>_ _. 0)"
proof -
  show i: "mfdb_inv emfc_zero" by (intro mfdb_invI) (simp_all add: emfc_zero_def)
  show "mfdb_refs emfc_zero = (\<lambda>_ _. 0)"
    by (intro mfdb_refs_eqI [OF i]) (simp_all add: group_at_def emfc_zero_def)
qed

lemma membership_find_refs:
  assumes inv: "mfdb_inv e" and ip: "ip \<noteq> 0"
  shows "\<exists>e' r. emfc_mfdb_membership_find e ip ifp = Some (e', r, r \<noteq> None) \<and> mfdb_inv e' \<and>
    mfdb_refs e' = mfdb_refs e \<and> (r \<noteq> None) = (mfdb_refs e ip ifp > 0)"
proof -
  obtain e1 r1 where f: "emfc_mfdb_group_find e ip = Some (e1, r1)" and inv1: "mfdb_inv e1" and same: "same_db e e1"
    and r1: "case r1 of None \<Rightarrow> \<nexists>p g. group_at e ip p g | Some p \<Rightarrow> \<exists>g. group_at e ip p g"
    using group_find_spec [OF inv ip] by blast
  note e1 = same_db_refs [OF same]
  show ?thesis
  proof (cases r1)
    case None
    then have none: "\<nexists>p g. group_at e1 ip p g" using r1 same_db_group_at [OF same] by simp
    then show ?thesis using None f inv1 e1 mfdb_refs_none [OF inv1 none]
      by (simp add: emfc_mfdb_membership_find_def)
  next
    case (Some p)
    then obtain g where g: "group_at e1 ip p g" using r1 same_db_group_at [OF same] by auto
    then have mem: "mgrp_mem e1 p = Some g" by (auto simp: group_at_def)
    have mok: "mis_ok e1 (mi_head g)" using mfdb_invD(5) [OF inv1 mem] .
    have refs: "mfdb_refs e ip = mi_refs (mi_head g)" using mfdb_refs_group [OF inv1 g] e1 by auto
    obtain k where k: "mi_index ifp (mi_head g) = Some k"
      using mi_index_total [OF mis_ok_mhif [OF mok]] by auto
    show ?thesis
    proof (cases k)
      case None
      then show ?thesis using f Some mem k inv1 e1 mi_index_None [of ifp "mi_head g"]
        by (simp add: emfc_mfdb_membership_find_def emfc_mfdb_mi_entry_find_def refs mi_refs_notin)
    next
      case ks: (Some k')
      note ix = mi_index_Some [OF k [unfolded ks]]
      have "mfdb_refs e ip ifp \<noteq> 0"
        using ix(3) mok nth_mem [OF ix(1)] by (auto simp: refs mis_ok_def unat_eq_0)
      then show ?thesis using f Some mem k ks inv1 e1
        by (simp add: emfc_mfdb_membership_find_def emfc_mfdb_mi_entry_find_def)
    qed
  qed
qed

subsection \<open>The contract of the database\<close>

text \<open>
  What the IGMP snooper and the configuration requests rely on: a database whose state is, to
  its clients, a reference count per group and interface. \<open>ready\<close> is what an addition needs of
  the allocator.
\<close>

fun repeat_op :: "nat \<Rightarrow> ('s \<Rightarrow> ('s \<times> int) option) \<Rightarrow> 's \<Rightarrow> ('s \<times> int list) option" where
  "repeat_op 0 f s = Some (s, [])"
| "repeat_op (Suc n) f s =
     (case f s of None \<Rightarrow> None
      | Some (s, r) \<Rightarrow> (case repeat_op n f s of None \<Rightarrow> None | Some (s, rs) \<Rightarrow> Some (s, r # rs)))"

locale membership_db =
  fixes inv :: "'s \<Rightarrow> bool"
    and ready :: "emf_alloc \<Rightarrow> 's \<Rightarrow> bool"
    and refs :: "'s \<Rightarrow> uint32 \<Rightarrow> nat \<Rightarrow> nat"
    and add :: "emf_alloc \<Rightarrow> 's \<Rightarrow> uint32 \<Rightarrow> nat \<Rightarrow> ('s \<times> int) option"
    and del :: "'s \<Rightarrow> uint32 \<Rightarrow> nat \<Rightarrow> ('s \<times> int) option"
  assumes add_law: "\<lbrakk>inv s; ip \<noteq> 0; ready a s; Suc (refs s ip i) < 2 ^ 32\<rbrakk> \<Longrightarrow>
      \<exists>s' r. add a s ip i = Some (s', r) \<and> inv s' \<and> (refs s', r) = refs_add a (refs s) ip i"
    and del_law: "\<lbrakk>inv s; ip \<noteq> 0\<rbrakk> \<Longrightarrow>
      \<exists>s' r. del s ip i = Some (s', r) \<and> inv s' \<and> (refs s', r) = refs_del (refs s) ip i"
begin

text \<open>As many deletions as the count succeed and end the membership; the next one fails.\<close>

lemma del_all:
  assumes "inv s" "ip \<noteq> 0" "refs s ip i = n"
  shows "\<exists>s' s''. repeat_op n (\<lambda>s. del s ip i) s = Some (s', replicate n SUCCESS) \<and> inv s' \<and>
    refs s' = (refs s)(ip := (refs s ip)(i := 0)) \<and> del s' ip i = Some (s'', FAILURE)"
  using assms
proof (induction n arbitrary: s)
  case 0
  then have "(refs s)(ip := (refs s ip)(i := 0)) = refs s" by (simp add: fun_upd_idem)
  then have "refs s = (refs s)(ip := (refs s ip)(i := 0))" by (rule sym)
  moreover obtain s' where "del s ip i = Some (s', FAILURE)"
    using del_law [OF 0(1,2), of i] 0(3) by (auto simp: refs_del_def)
  moreover have "repeat_op 0 (\<lambda>s. del s ip i) s = Some (s, replicate 0 SUCCESS)" by simp
  ultimately show ?case using 0(1) by blast
next
  case (Suc n)
  obtain s1 where d: "del s ip i = Some (s1, SUCCESS)" "inv s1"
    and r: "refs s1 = (refs s)(ip := (refs s ip)(i := n))"
    using del_law [OF Suc.prems(1,2), of i] Suc.prems(3) by (auto simp: refs_del_def)
  have "refs s1 ip i = n" using r by simp
  from Suc.IH [OF d(2) Suc.prems(2) this] show ?case using d r by (auto simp: fun_eq_iff)
qed

lemma add_then_del:
  assumes "inv s" "ip \<noteq> 0" "ready a s" "Suc (refs s ip i) < 2 ^ 32" "add a s ip i = Some (s1, SUCCESS)"
  shows "refs s1 ip i = Suc (refs s ip i) \<and> (\<exists>s2. del s1 ip i = Some (s2, SUCCESS) \<and> inv s2 \<and> refs s2 = refs s)"
proof -
  have s1: "inv s1" "refs s1 = (refs s)(ip := (refs s ip)(i := Suc (refs s ip i)))"
    using add_law [OF assms(1-4)] assms(5) by (auto simp: refs_add_def SUCCESS_def FAILURE_def split: if_splits)
  then show ?thesis using del_law [OF s1(1) assms(2), of i] by (auto simp: refs_del_def fun_upd_idem_iff)
qed

end

definition alloc_ready :: "emf_alloc \<Rightarrow> emfc_info \<Rightarrow> bool" where
  "alloc_ready a e \<longleftrightarrow> ok_mhif a \<and> mgrp_mem e (new_mgrp a) = None"

interpretation mfdb: membership_db mfdb_inv alloc_ready mfdb_refs emfc_mfdb_membership_add emfc_mfdb_membership_del
proof (unfold_locales, goal_cases)
  case (1 s ip a i)
  then show ?case using membership_add_refs [of s ip a i] by (auto simp: alloc_ready_def)
next
  case (2 s ip i)
  then show ?case using membership_del_refs [of s ip i] by auto
qed

text \<open>C20: The multicast forwarding database refines a table of reference counts. In a well-formed
  state every operation returns (no null or freed pointer is followed), leaves the state
  well-formed and acts on the counts as promised: an addition increments one count or, when an
  allocation it needs fails, changes nothing and fails; a deletion decrements one count and fails
  exactly when it is 0; clearing zeroes them; a lookup finds an entry exactly when its count is
  positive, and then returns with the lock still held.\<close>

theorem mfdb_refines_counts:
  assumes "mfdb_inv e" "ip \<noteq> 0"
  shows "(alloc_ready a e \<and> Suc (mfdb_refs e ip ifp) < 2 ^ 32 \<longrightarrow>
      (\<exists>e' r. emfc_mfdb_membership_add a e ip ifp = Some (e', r) \<and> mfdb_inv e' \<and>
        (mfdb_refs e', r) = refs_add a (mfdb_refs e) ip ifp)) \<and>
    (\<exists>e' r. emfc_mfdb_membership_del e ip ifp = Some (e', r) \<and> mfdb_inv e' \<and>
        (mfdb_refs e', r) = refs_del (mfdb_refs e) ip ifp) \<and>
    (\<exists>e'. emfc_mfdb_clear e = Some e' \<and> mfdb_inv e' \<and> mfdb_refs e' = (\<lambda>_ _. 0)) \<and>
    (\<exists>e' r. emfc_mfdb_membership_find e ip ifp = Some (e', r, r \<noteq> None) \<and> mfdb_inv e' \<and>
        mfdb_refs e' = mfdb_refs e \<and> (r \<noteq> None) = (mfdb_refs e ip ifp > 0))"
proof (intro conjI impI)
  show "\<exists>e' r. emfc_mfdb_membership_del e ip ifp = Some (e', r) \<and> mfdb_inv e' \<and>
      (mfdb_refs e', r) = refs_del (mfdb_refs e) ip ifp" by (rule mfdb.del_law [OF assms])
  show "\<exists>e'. emfc_mfdb_clear e = Some e' \<and> mfdb_inv e' \<and> mfdb_refs e' = (\<lambda>_ _. 0)"
    using mfdb_clear_refs [OF assms(1)] by auto
qed (use mfdb.add_law [OF assms, of a ifp] membership_find_refs [OF assms] in \<open>simp_all\<close>)

definition alloc_ex :: emf_alloc where
  "alloc_ex = \<lparr>new_mgrp = 9, ok_mgrp = True, ok_mi = True, ok_mhif = True\<rparr>"

theorem mfdb_refines_counts_witness:
  "\<exists>e' r. emfc_mfdb_membership_add alloc_ex emfc_zero 0xE1000001 5 = Some (e', r) \<and> mfdb_inv e' \<and>
     (mfdb_refs e', r) = refs_add alloc_ex (mfdb_refs emfc_zero) 0xE1000001 5"
proof -
  have "alloc_ready alloc_ex emfc_zero \<and> Suc (mfdb_refs emfc_zero 0xE1000001 5) < 2 ^ 32"
    by (simp add: mfdb_inv_init(2)) (simp add: alloc_ready_def alloc_ex_def emfc_zero_def)
  then show ?thesis using mfdb_refines_counts [OF mfdb_inv_init(1), of "0xE1000001" alloc_ex 5] by simp
qed

text \<open>A member stays in the database as often as it was added: an addition that succeeds is
  undone by one deletion, a count of \<open>n\<close> takes \<open>n\<close> deletions, all successful, and the one after
  them fails.\<close>

lemma mfdb_membership_counted:
  assumes "mfdb_inv e" "ip \<noteq> 0" "alloc_ready a e" "Suc (mfdb_refs e ip ifp) < 2 ^ 32"
    "emfc_mfdb_membership_add a e ip ifp = Some (e1, SUCCESS)"
  shows "(\<exists>e2. emfc_mfdb_membership_del e1 ip ifp = Some (e2, SUCCESS) \<and> mfdb_refs e2 = mfdb_refs e) \<and>
    (\<exists>e2 e3. repeat_op (Suc (mfdb_refs e ip ifp)) (\<lambda>e. emfc_mfdb_membership_del e ip ifp) e1 =
        Some (e2, replicate (Suc (mfdb_refs e ip ifp)) SUCCESS) \<and>
      mfdb_refs e2 ip ifp = 0 \<and> emfc_mfdb_membership_del e2 ip ifp = Some (e3, FAILURE))"
proof -
  have s: "mfdb_refs e1 ip ifp = Suc (mfdb_refs e ip ifp)"
    "\<exists>e2. emfc_mfdb_membership_del e1 ip ifp = Some (e2, SUCCESS) \<and> mfdb_refs e2 = mfdb_refs e"
    using mfdb.add_then_del [OF assms] by auto
  have inv: "mfdb_inv e1" using mfdb.add_law [OF assms(1-4)] assms(5) by auto
  show ?thesis using s mfdb.del_all [OF inv assms(2) s(1)] by auto
qed

lemma mfdb_membership_counted_witness:
  "\<exists>e1 e2. emfc_mfdb_membership_add alloc_ex emfc_zero 0xE1000001 5 = Some (e1, SUCCESS) \<and>
     emfc_mfdb_membership_del e1 0xE1000001 5 = Some (e2, SUCCESS) \<and> mfdb_refs e2 = mfdb_refs emfc_zero"
proof -
  have ready: "alloc_ready alloc_ex emfc_zero" by (simp add: alloc_ready_def alloc_ex_def emfc_zero_def)
  have z: "Suc (mfdb_refs emfc_zero 0xE1000001 5) < 2 ^ 32" by (simp add: mfdb_inv_init(2))
  obtain e1 where e1: "emfc_mfdb_membership_add alloc_ex emfc_zero 0xE1000001 5 = Some (e1, SUCCESS)"
    using mfdb.add_law [OF mfdb_inv_init(1) _ ready z] by (auto simp: refs_add_def alloc_ex_def)
  then show ?thesis using mfdb_membership_counted [OF mfdb_inv_init(1) _ ready z e1] by auto
qed

text \<open>The entries of the listing are the members.\<close>

lemma mi_refs_pos: "mis_ok e ms \<Longrightarrow> (mi_refs ms i > 0) = (Some i \<in> mi_mhif ` set ms)"
proof (induction ms)
  case (Cons m ms)
  then have "mis_ok e ms" by (auto simp: mis_ok_def)
  then show ?case using Cons by (auto simp: mis_ok_def unat_gt_0)
qed simp

lemma mfdb_refs_pos:
  assumes "mfdb_inv e"
  shows "(mfdb_refs e ip i > 0) = (\<exists>p g. group_at e ip p g \<and> Some i \<in> mi_mhif ` set (mi_head g))"
proof (cases "\<exists>p g. group_at e ip p g")
  case True
  then obtain p g where g: "group_at e ip p g" by auto
  then have "mis_ok e (mi_head g)" using mfdb_invD(5) [OF assms, of p g] by (simp add: group_at_def)
  then have "(mfdb_refs e ip i > 0) = (Some i \<in> mi_mhif ` set (mi_head g))"
    unfolding mfdb_refs_group [OF assms g] by (rule mi_refs_pos)
  then show ?thesis using group_at_unique [OF assms g] g by blast
next
  case False
  then show ?thesis using mfdb_refs_none [OF assms False] by simp
qed

lemma mfdb_list_mem:
  assumes "mfdb_inv e"
  shows "(ip, m, c) \<in> set (emfc_mfdb_list e sz) \<longleftrightarrow>
     (\<exists>p g. group_at e ip p g \<and> (\<exists>mi \<in> set (mi_head g). m = mi_mhif mi \<and> c = mi_data_fwd mi))"
proof -
  have "(\<exists>h < MFDB_HASHT_SIZE. p \<in> set (mgrp_fdb e h)) = (mgrp_mem e p \<noteq> None)" for p
  proof
    assume "\<exists>h < MFDB_HASHT_SIZE. p \<in> set (mgrp_fdb e h)"
    then obtain h where "p \<in> set (mgrp_fdb e h)" by blast
    from mfdb_invD(2) [OF assms this] show "mgrp_mem e p \<noteq> None" by auto
  next
    assume "mgrp_mem e p \<noteq> None"
    then obtain g where "mgrp_mem e p = Some g" by auto
    then show "\<exists>h < MFDB_HASHT_SIZE. p \<in> set (mgrp_fdb e h)"
      using mfdb_invD(3) [OF assms] MFDB_MGRP_HASH_bound by blast
  qed
  moreover have "(ip, m, c) \<in> set (emfc_mfdb_list e sz) \<longleftrightarrow>
     (\<exists>p. (\<exists>h < MFDB_HASHT_SIZE. p \<in> set (mgrp_fdb e h)) \<and> (\<exists>g. group_at e ip p g \<and>
        (\<exists>mi \<in> set (mi_head g). m = mi_mhif mi \<and> c = mi_data_fwd mi)))"
    by (force simp: emfc_mfdb_list_def group_at_def split: option.splits)
  ultimately show ?thesis by (auto simp: group_at_def)
qed

lemma distinct_map_concat:
  assumes "distinct ps" "\<And>p. p \<in> set ps \<Longrightarrow> distinct (map f (g p))"
    "\<And>p q x y. \<lbrakk>p \<in> set ps; q \<in> set ps; x \<in> set (g p); y \<in> set (g q); f x = f y\<rbrakk> \<Longrightarrow> p = q"
  shows "distinct (map f (concat (map g ps)))"
  using assms
proof (induction ps)
  case (Cons p ps)
  have "distinct (map f (concat (map g ps)))"
  proof (rule Cons.IH)
    show "distinct (map f (g q))" if "q \<in> set ps" for q using Cons.prems(2) [of q] that by simp
    show "q = r" if "q \<in> set ps" "r \<in> set ps" "x \<in> set (g q)" "y \<in> set (g r)" "f x = f y" for q r x y
      using Cons.prems(3) [of q r x y] that by simp
  qed (use Cons.prems(1) in simp)
  moreover have "f x \<noteq> f y" if "x \<in> set (g p)" "q \<in> set ps" "y \<in> set (g q)" for q x y
    using Cons.prems(3) [of p q x y] Cons.prems(1) that by auto
  ultimately show ?case using Cons.prems(2) [of p] by auto
qed simp

lemma mfdb_list_distinct:
  assumes inv: "mfdb_inv e"
  shows "distinct (map (\<lambda>(ip, m, c). (ip, m)) (emfc_mfdb_list e sz))"
proof -
  define f :: "uint32 \<times> nat option \<times> uint32 \<Rightarrow> uint32 \<times> nat option" where "f = (\<lambda>(ip, m, c). (ip, m))"
  define g where "g = (\<lambda>p. case mgrp_mem e p of None \<Rightarrow> []
    | Some g \<Rightarrow> map (\<lambda>mi. (mgrp_ip g, mi_mhif mi, mi_data_fwd mi)) (mi_head g))"
  have fst: "\<exists>gr. mgrp_mem e p = Some gr \<and> mgrp_ip gr = fst (f x)" if "x \<in> set (g p)" for p x
    using that by (cases "mgrp_mem e p") (auto simp: g_def f_def)
  have inner: "distinct (map f (g p))" for p
  proof (cases "mgrp_mem e p")
    case (Some gr)
    have "distinct (map (Pair (mgrp_ip gr)) (map mi_mhif (mi_head gr)))"
      unfolding distinct_map using mfdb_invD(5) [OF inv Some] by (simp add: mis_ok_def distinct_map inj_on_def)
    then show ?thesis by (simp add: Some g_def f_def comp_def)
  qed (simp add: g_def)
  have same: "p = q" if "x \<in> set (g p)" "y \<in> set (g q)" "f x = f y" for p q x y
    using fst [OF that(1)] fst [OF that(2)] that(3) mfdb_invD(6) [OF inv] by metis
  have chain: "distinct (map f (concat (map g (mgrp_fdb e h))))" for h
    by (rule distinct_map_concat [OF mfdb_invD(1) [OF inv] inner]) (rule same)
  have "distinct (map f (concat (map (\<lambda>h. concat (map g (mgrp_fdb e h))) [0..<MFDB_HASHT_SIZE])))"
  proof (rule distinct_map_concat [OF _ chain])
    fix h k x y assume "x \<in> set (concat (map g (mgrp_fdb e h)))" "y \<in> set (concat (map g (mgrp_fdb e k)))" "f x = f y"
    then obtain p q where pq: "p \<in> set (mgrp_fdb e h)" "x \<in> set (g p)" "q \<in> set (mgrp_fdb e k)" "y \<in> set (g q)" by auto
    then have "p = q" using same \<open>f x = f y\<close> by blast
    then show "h = k" using mfdb_invD(2) [OF inv pq(1)] mfdb_invD(2) [OF inv pq(3)] by auto
  qed simp
  then show ?thesis by (simp add: emfc_mfdb_list_def f_def g_def)
qed

text \<open>Listing the database gives one record per member and no other: an interface is listed for
  a group exactly when its reference count is positive, every record names an interface, and the
  records are distinct as pairs of group and interface. The size of the buffer the records are
  written to plays no part.\<close>

lemma mfdb_list_exact:
  assumes inv: "mfdb_inv e"
  shows "((\<exists>c. (ip, Some i, c) \<in> set (emfc_mfdb_list e sz)) \<longleftrightarrow> mfdb_refs e ip i > 0) \<and>
    (ip, None, c) \<notin> set (emfc_mfdb_list e sz) \<and>
    distinct (map (\<lambda>(ip, m, c). (ip, m)) (emfc_mfdb_list e sz)) \<and>
    emfc_mfdb_list e sz = emfc_mfdb_list e 0"
proof (intro conjI)
  show "(\<exists>c. (ip, Some i, c) \<in> set (emfc_mfdb_list e sz)) \<longleftrightarrow> mfdb_refs e ip i > 0"
    unfolding mfdb_list_mem [OF inv] mfdb_refs_pos [OF inv] by blast
  have "mi_mhif mi \<noteq> None" if "group_at e ip p g" "mi \<in> set (mi_head g)" for p g mi
    using that mfdb_invD(5) [OF inv, of p g] by (auto simp: group_at_def mis_ok_def)
  then show "(ip, None, c) \<notin> set (emfc_mfdb_list e sz)"
    unfolding mfdb_list_mem [OF inv] by metis
qed (simp_all add: mfdb_list_distinct [OF inv], simp add: emfc_mfdb_list_def)

lemma mfdb_list_exact_witness:
  "emfc_mfdb_list emfc_zero 64 = [] \<and> mfdb_refs emfc_zero 0xE1000001 5 = 0 \<and>
     (\<exists>c. (0xE1000001, Some 5, c) \<in> set (emfc_mfdb_list emfc_zero 64)) = (mfdb_refs emfc_zero 0xE1000001 5 > 0)"
  using mfdb_list_exact [OF mfdb_inv_init(1), of "0xE1000001" 5 64 0]
  by (simp add: mfdb_inv_init(2)) (simp add: emfc_mfdb_list_def emfc_zero_def)

end
