(* ===== verification/Emfc.thy ===== *)
theory Emfc
  imports Mfdb
begin

text \<open>
  The forwarding decision, the interface list, the configuration requests and the instance list
  of \<^verbatim>\<open>emf/emf/emfc.c\<close>, over the database of \<open>Mfdb\<close>.

  What a frame meets outside the module is a parameter (\<open>emf_env\<close>): the result of the \<open>k\<close>-th
  \<open>PKTDUP\<close> of the frame and of the wrapper's \<open>forward_fn\<close> for an interface. The registered
  snooper's \<open>input_fn\<close> is a function that may change the instance, since it calls back into the
  database. The calls of the wrapper are a trace of events that says which buffer each was given:
  a clone or the original. An interface is an address, a frame is the bytes from its IP header
  on, and a result is \<open>None\<close> when the code would follow a null or freed pointer or read past the
  header.
\<close>

subsection \<open>Events, environment and counters\<close>

definition EMF_DROP :: uint32 where "EMF_DROP = 0"
definition EMF_FORWARD :: uint32 where "EMF_FORWARD = 1"
definition EMF_NOP :: uint32 where "EMF_NOP = 1"
definition EMF_TAKEN :: uint32 where "EMF_TAKEN = 2"
definition EMF_FLOOD :: uint32 where "EMF_FLOOD = 10"
definition EMF_SENDUP :: uint32 where "EMF_SENDUP = 11"

datatype emf_buf = Clone | Original

datatype emf_event = Sendup emf_buf | Forward emf_buf nat | Free emf_buf

record emf_env =
  pkt_dup :: "nat \<Rightarrow> bool"
  fwd_ok :: "nat \<Rightarrow> bool"

definition IP_PROT_IGMP :: uint8 where "IP_PROT_IGMP = 2"

definition EMFC_STATS_INCR :: "((uint32 \<Rightarrow> uint32) \<Rightarrow> emf_stats \<Rightarrow> emf_stats) \<Rightarrow> emfc_info \<Rightarrow> emfc_info" where
  "EMFC_STATS_INCR member e = e\<lparr>stats := member (\<lambda>c. c + 1) (stats e)\<rparr>"

definition EMFC_PROT_STATS_INCR ::
  "uint8 \<Rightarrow> ((uint32 \<Rightarrow> uint32) \<Rightarrow> emf_stats \<Rightarrow> emf_stats) \<Rightarrow>
   ((uint32 \<Rightarrow> uint32) \<Rightarrow> emf_stats \<Rightarrow> emf_stats) \<Rightarrow> emfc_info \<Rightarrow> emfc_info" where
  "EMFC_PROT_STATS_INCR proto mem1 mem2 e =
     (if proto = IP_PROT_IGMP then EMFC_STATS_INCR mem1 e else EMFC_STATS_INCR mem2 e)"

subsection \<open>The IP header\<close>

definition IP_ISMULTI :: "uint32 \<Rightarrow> bool" where "IP_ISMULTI a \<longleftrightarrow> a AND 0xf0000000 = 0xe0000000"
definition MCAST_ADDR_LINKLOCAL :: "uint32 \<Rightarrow> bool" where
  "MCAST_ADDR_LINKLOCAL a \<longleftrightarrow> a AND 0xffffff00 = 0xe0000000"
definition MCAST_ADDR_UPNP_SSDP :: "uint32 \<Rightarrow> bool" where "MCAST_ADDR_UPNP_SSDP a \<longleftrightarrow> a = 0xeffffffa"

definition IP_VER :: "uint8 list \<Rightarrow> uint8" where "IP_VER iph = drop_bit 4 (iph ! 0 AND 0xf0)"
definition IPV4_PROT :: "uint8 list \<Rightarrow> uint8" where "IPV4_PROT iph = iph ! 9"

text \<open>\<open>ntoh32\<close> of the word at \<open>IPV4_DEST_IP_OFFSET\<close>: the bytes, most significant first.\<close>

definition dest_ip_of :: "uint8 list \<Rightarrow> uint32" where
  "dest_ip_of iph = get32 (iph ! 19) (iph ! 18) (iph ! 17) (iph ! 16)"

subsection \<open>Frames with no database entry\<close>

text \<open>
  The loop over the interface list: the instance, the number of \<open>PKTDUP\<close>s so far and the events
  are threaded; the result says whether the loop ran to its end, and \<open>mcast_flooded\<close>.
\<close>

fun unreg_flood :: "emf_env \<Rightarrow> nat \<Rightarrow> uint8 \<Rightarrow> emfc_iflist list \<Rightarrow> emfc_info \<Rightarrow> nat \<Rightarrow> uint32 \<Rightarrow>
    emfc_info \<times> emf_event list \<times> uint32 option" where
  "unreg_flood v ifp proto [] e k mcast_flooded = (e, [], Some mcast_flooded)"
| "unreg_flood v ifp proto (ptr # ps) e k mcast_flooded =
     (if ifp = if_ifp ptr then unreg_flood v ifp proto ps e k mcast_flooded
      else if (if proto = IP_PROT_IGMP then rtport_ref ptr = 0 else rtport_ref ptr + uffp_ref ptr = 0)
      then unreg_flood v ifp proto ps e k mcast_flooded
      else if \<not> pkt_dup v k
      then (EMFC_PROT_STATS_INCR proto igmp_frames_dropped_update mcast_data_dropped_update e, [], None)
      else
        let e = (if fwd_ok v (if_ifp ptr) then e
                 else EMFC_PROT_STATS_INCR proto igmp_frames_dropped_update mcast_data_dropped_update e);
            (e, evs, r) = unreg_flood v ifp proto ps e (k + 1) (mcast_flooded + 1)
        in (e, Forward Clone (if_ifp ptr) # evs, r))"

definition emfc_unreg_frame_handle :: "emf_env \<Rightarrow> emfc_info \<Rightarrow> nat \<Rightarrow> uint8 \<Rightarrow> bool \<Rightarrow>
    emfc_info \<times> emf_event list \<times> uint32" where
  "emfc_unreg_frame_handle v e ifp proto rt_port =
     (if \<not> rt_port \<and> \<not> pkt_dup v 0
      then (EMFC_PROT_STATS_INCR proto igmp_frames_dropped_update mcast_data_dropped_update e, [], EMF_DROP)
      else
        let (e, evs, k) =
              (if rt_port then (e, [], 0)
               else (EMFC_PROT_STATS_INCR proto igmp_frames_sentup_update mcast_data_sentup_update e,
                     [Sendup Clone], 1));
            (e, evs', r) = unreg_flood v ifp proto (iflist_head e) e k 0
        in case r of
             None \<Rightarrow> (e, evs @ evs', EMF_DROP)
           | Some mcast_flooded \<Rightarrow>
             let e = (if mcast_flooded > 0
                      then EMFC_PROT_STATS_INCR proto igmp_frames_fwd_update mcast_data_flooded_update e
                      else if rt_port
                      then EMFC_PROT_STATS_INCR proto igmp_frames_dropped_update mcast_data_dropped_update e
                      else e)
             in (e, evs @ evs' @ [Free Original], EMF_TAKEN))"

subsection \<open>Forwarding to the members of a group\<close>

text \<open>
  \<open>forward_fn(...) ? dropped++ : mhif_data_fwd++, mi_data_fwd++\<close> parses as
  \<open>(forward_fn(...) ? dropped++ : mhif_data_fwd++), mi_data_fwd++\<close>: the entry's own counter is
  incremented on failure too.
\<close>

definition count_fwd :: "emf_env \<Rightarrow> emfc_info \<Rightarrow> emfc_mi \<Rightarrow> nat \<Rightarrow> emfc_info \<times> emfc_mi" where
  "count_fwd v e mi i =
     (if fwd_ok v i
      then e\<lparr>mhif_head := map (\<lambda>(j, c). if j = i then (j, c + 1) else (j, c)) (mhif_head e)\<rparr>
      else EMFC_STATS_INCR mcast_data_dropped_update e,
      mi\<lparr>mi_data_fwd := mi_data_fwd mi + 1\<rparr>)"

text \<open>The loop over all but the last entry: every interface gets a clone.\<close>

fun mcast_clones :: "emf_env \<Rightarrow> nat \<Rightarrow> emfc_mi list \<Rightarrow> emfc_info \<Rightarrow> nat \<Rightarrow>
    (emfc_info \<times> emfc_mi list \<times> emf_event list \<times> bool) option" where
  "mcast_clones v ifp [] e k = Some (e, [], [], True)"
| "mcast_clones v ifp (mi # ms) e k =
     (case mi_mhif mi of None \<Rightarrow> None
      | Some i \<Rightarrow>
        if ifp = i
        then (case mcast_clones v ifp ms e k of None \<Rightarrow> None
              | Some (e, ms', evs, ok) \<Rightarrow> Some (e, mi # ms', evs, ok))
        else if \<not> pkt_dup v k
        then Some (EMFC_STATS_INCR mcast_data_dropped_update e, mi # ms, [], False)
        else let (e, mi') = count_fwd v e mi i in
          (case mcast_clones v ifp ms e (k + 1) of None \<Rightarrow> None
           | Some (e, ms', evs, ok) \<Rightarrow> Some (e, mi' # ms', Forward Clone i # evs, ok)))"

text \<open>The data frame's way through the group entry at address \<open>p\<close>.\<close>

definition mcast_forward :: "emf_env \<Rightarrow> emfc_info \<Rightarrow> nat \<Rightarrow> nat \<Rightarrow> bool \<Rightarrow>
    (emfc_info \<times> emf_event list \<times> uint32) option" where
  "mcast_forward v e p ifp rt_port =
     (case mgrp_mem e p of None \<Rightarrow> None
      | Some g \<Rightarrow>
        if \<not> rt_port \<and> \<not> pkt_dup v 0
        then Some (EMFC_STATS_INCR mcast_data_dropped_update e, [], EMF_DROP)
        else
          let (e, evs, k) = (if rt_port then (e, [], 0)
                             else (EMFC_STATS_INCR mcast_data_sentup_update e, [Sendup Clone], 1))
          in if mi_head g = [] then None
          else (case mcast_clones v ifp (butlast (mi_head g)) e k of None \<Rightarrow> None
            | Some (e, ms, evs', ok) \<Rightarrow>
              let last_mi = last (mi_head g);
                  e1 = set_group e p (g\<lparr>mi_head := ms @ [last_mi]\<rparr>)
              in if \<not> ok then Some (e1, evs @ evs', EMF_DROP)
              else (case mi_mhif last_mi of None \<Rightarrow> None
                | Some i \<Rightarrow>
                  if ifp \<noteq> i
                  then let (e, mi') = count_fwd v e last_mi i;
                           e = set_group e p (g\<lparr>mi_head := ms @ [mi']\<rparr>)
                       in Some (EMFC_STATS_INCR mcast_data_fwd_update e,
                                evs @ evs' @ [Forward Original i], EMF_TAKEN)
                  else Some (EMFC_STATS_INCR mcast_data_fwd_update e1,
                             evs @ evs' @ [Free Original], EMF_TAKEN))))"

text \<open>What the snooper's \<open>input_fn\<close> decides, and what it does to the instance.\<close>

type_synonym snooper_fn = "emfc_info \<Rightarrow> nat \<Rightarrow> uint8 list \<Rightarrow> bool \<Rightarrow> (emfc_info \<times> uint32) option"

definition emfc_input :: "snooper_fn \<Rightarrow> emf_env \<Rightarrow> emfc_info \<Rightarrow> nat \<Rightarrow> uint8 list \<Rightarrow> bool \<Rightarrow>
    (emfc_info \<times> emf_event list \<times> uint32) option" where
  "emfc_input input_fn v e ifp iph rt_port =
     (if length iph < 20 then None
      else let dest_ip = dest_ip_of iph in
        if \<not> IP_ISMULTI dest_ip \<or> \<not> emf_enable e then Some (e, [], EMF_NOP)
        else if IP_VER iph \<noteq> 4 then Some (e, [], EMF_NOP)
        else if IPV4_PROT iph = IP_PROT_IGMP \<and> has_snooper e
        then
          let e = EMFC_STATS_INCR igmp_frames_update e in
          (case input_fn e ifp iph rt_port of None \<Rightarrow> None
           | Some (e, action) \<Rightarrow>
             if action = EMF_DROP then Some (e, [], EMF_DROP)
             else if action = EMF_SENDUP
             then Some (EMFC_STATS_INCR igmp_frames_sentup_update e, [Sendup Original], EMF_TAKEN)
             else if action = EMF_FORWARD
             then Some (emfc_unreg_frame_handle v e ifp (IPV4_PROT iph) rt_port)
             else Some (EMFC_STATS_INCR igmp_frames_fwd_update e, [], EMF_NOP))
        else
          let e = EMFC_STATS_INCR mcast_data_frames_update e in
          if MCAST_ADDR_LINKLOCAL dest_ip \<or> MCAST_ADDR_UPNP_SSDP dest_ip then Some (e, [], EMF_NOP)
          else (case emfc_mfdb_group_find e dest_ip of None \<Rightarrow> None
            | Some (e, None) \<Rightarrow> Some (emfc_unreg_frame_handle v e ifp (IPV4_PROT iph) rt_port)
            | Some (e, Some p) \<Rightarrow> mcast_forward v e p ifp rt_port))"

subsection \<open>The interface list\<close>

text \<open>The entry for \<open>ifp\<close>, by its position; the predecessor \<open>prev\<close> is the position before it.\<close>

fun emfc_iflist_find :: "emfc_iflist list \<Rightarrow> nat \<Rightarrow> nat option" where
  "emfc_iflist_find [] ifp = None"
| "emfc_iflist_find (ptr # ps) ifp =
     (if if_ifp ptr = ifp then Some 0 else map_option Suc (emfc_iflist_find ps ifp))"

definition emfc_iflist_add :: "bool \<Rightarrow> emfc_info \<Rightarrow> nat \<Rightarrow> emfc_info \<times> int" where
  "emfc_iflist_add alloc e ifp =
     (if ifp = 0 then (e, FAILURE)
      else if emfc_iflist_find (iflist_head e) ifp \<noteq> None then (e, FAILURE)
      else if \<not> alloc then (e, FAILURE)
      else (e\<lparr>iflist_head := \<lparr>if_ifp = ifp, uffp_ref = 0, rtport_ref = 0\<rparr> # iflist_head e\<rparr>, SUCCESS))"

definition emfc_iflist_del :: "emfc_info \<Rightarrow> nat \<Rightarrow> emfc_info \<times> int" where
  "emfc_iflist_del e ifp =
     (if ifp = 0 then (e, FAILURE)
      else case emfc_iflist_find (iflist_head e) ifp of None \<Rightarrow> (e, FAILURE)
        | Some k \<Rightarrow> (e\<lparr>iflist_head := take k (iflist_head e) @ drop (Suc k) (iflist_head e)\<rparr>, SUCCESS))"

definition emfc_iflist_clear :: "emfc_info \<Rightarrow> emfc_info" where
  "emfc_iflist_clear e = e\<lparr>iflist_head := []\<rparr>"

definition emfc_uffp_add :: "bool \<Rightarrow> emfc_info \<Rightarrow> nat \<Rightarrow> emfc_info \<times> int" where
  "emfc_uffp_add alloc e ifp =
     (let e = fst (emfc_iflist_add alloc e ifp) in
      case emfc_iflist_find (iflist_head e) ifp of None \<Rightarrow> (e, SUCCESS)
      | Some k \<Rightarrow> (e\<lparr>iflist_head := (iflist_head e)[k := (iflist_head e ! k)\<lparr>uffp_ref := uffp_ref (iflist_head e ! k) + 1\<rparr>]\<rparr>,
                   SUCCESS))"

definition emfc_uffp_del :: "emfc_info \<Rightarrow> nat \<Rightarrow> emfc_info \<times> int" where
  "emfc_uffp_del e ifp =
     (case emfc_iflist_find (iflist_head e) ifp of None \<Rightarrow> (e, FAILURE)
      | Some k \<Rightarrow>
        let p = (iflist_head e ! k)\<lparr>uffp_ref := uffp_ref (iflist_head e ! k) - 1\<rparr>;
            e = e\<lparr>iflist_head := (iflist_head e)[k := p]\<rparr>
        in (if uffp_ref p = 0 \<and> rtport_ref p = 0 then fst (emfc_iflist_del e ifp) else e, SUCCESS))"

definition emfc_rtport_add :: "bool \<Rightarrow> emfc_info \<Rightarrow> nat \<Rightarrow> emfc_info \<times> int" where
  "emfc_rtport_add alloc e ifp =
     (let e = fst (emfc_iflist_add alloc e ifp) in
      case emfc_iflist_find (iflist_head e) ifp of None \<Rightarrow> (e, SUCCESS)
      | Some k \<Rightarrow> (e\<lparr>iflist_head := (iflist_head e)[k := (iflist_head e ! k)\<lparr>rtport_ref := rtport_ref (iflist_head e ! k) + 1\<rparr>]\<rparr>,
                   SUCCESS))"

definition emfc_rtport_del :: "emfc_info \<Rightarrow> nat \<Rightarrow> emfc_info \<times> int" where
  "emfc_rtport_del e ifp =
     (case emfc_iflist_find (iflist_head e) ifp of None \<Rightarrow> (e, FAILURE)
      | Some k \<Rightarrow>
        let p = (iflist_head e ! k)\<lparr>rtport_ref := rtport_ref (iflist_head e ! k) - 1\<rparr>;
            e = e\<lparr>iflist_head := (iflist_head e)[k := p]\<rparr>
        in (if rtport_ref p = 0 \<and> uffp_ref p = 0 then fst (emfc_iflist_del e ifp) else e, SUCCESS))"

text \<open>
  The listings: the interfaces written, or \<open>None\<close> (\<open>FAILURE\<close>) when an entry of 20 bytes no longer
  fits \<open>size\<close>, compared unsigned.
\<close>

fun if_list :: "(emfc_iflist \<Rightarrow> uint32) \<Rightarrow> emfc_iflist list \<Rightarrow> uint32 \<Rightarrow> uint32 \<Rightarrow> nat list option" where
  "if_list ref [] bytes sz = Some []"
| "if_list ref (ptr # ps) bytes sz =
     (if ref ptr = 0 then if_list ref ps bytes sz
      else if bytes + 20 > sz then None
      else map_option (Cons (if_ifp ptr)) (if_list ref ps (bytes + 20) sz))"

definition emfc_uffp_list :: "emfc_info \<Rightarrow> uint32 \<Rightarrow> nat list option" where
  "emfc_uffp_list e sz = if_list uffp_ref (iflist_head e) 0 sz"

definition emfc_rtport_list :: "emfc_info \<Rightarrow> uint32 \<Rightarrow> nat list option" where
  "emfc_rtport_list e sz = if_list rtport_ref (iflist_head e) 0 sz"

text \<open>\<open>sizeof(emf_stats_t)\<close> is 44.\<close>

definition emfc_stats_get :: "emfc_info \<Rightarrow> uint32 \<Rightarrow> emf_stats option" where
  "emfc_stats_get e sz = (if sz < 44 then None else Some (stats e))"

subsection \<open>Configuration requests\<close>

text \<open>
  A request: the header fields, what its \<open>arg\<close> holds when read as the structure the command uses
  (\<open>arg_bool\<close>, \<open>arg_ip\<close>, \<open>arg_if\<close>), and what the command wrote there (\<open>arg_out\<close>).
\<close>

datatype cfg_out = OutNone | OutMsg string | OutBool bool
  | OutMfdb "(uint32 \<times> nat option \<times> uint32) list" | OutIfs "nat list" | OutStats emf_stats

record emf_cfg_request =
  command_id :: uint32
  oper_type :: uint32
  status :: uint32
  cfg_size :: uint32
  arg_bool :: bool
  arg_ip :: uint32
  arg_if :: nat
  arg_out :: cfg_out

definition EMFCFG_STATUS_SUCCESS :: uint32 where "EMFCFG_STATUS_SUCCESS = 1"
definition EMFCFG_STATUS_FAILURE :: uint32 where "EMFCFG_STATUS_FAILURE = 2"
definition EMFCFG_STATUS_CMD_UNKNOWN :: uint32 where "EMFCFG_STATUS_CMD_UNKNOWN = 3"
definition EMFCFG_STATUS_OPER_UNKNOWN :: uint32 where "EMFCFG_STATUS_OPER_UNKNOWN = 4"

text \<open>What a request meets outside: the hook registration, the snooper's callbacks, allocation.\<close>

record cfg_env =
  hooks_ok :: bool
  enable_fn :: "emfc_info \<Rightarrow> emfc_info option"
  disable_fn :: "emfc_info \<Rightarrow> emfc_info option"
  cfg_alloc :: emf_alloc
  if_alloc :: bool

text \<open>\<open>cfg->status = s; cfg->size = sprintf(cfg->arg, msg)\<close>, and with \<open>+=\<close> on a size of \<open>n\<close>.\<close>

definition cfg_msg :: "uint32 \<Rightarrow> uint32 \<Rightarrow> string \<Rightarrow> emf_cfg_request \<Rightarrow> emf_cfg_request" where
  "cfg_msg s n msg c = c\<lparr>status := s, cfg_size := n + word_of_nat (length msg), arg_out := OutMsg msg\<rparr>"

definition emfc_cfg_emf_enable :: "cfg_env \<Rightarrow> emfc_info \<Rightarrow> emf_cfg_request \<Rightarrow> (emfc_info \<times> emf_cfg_request) option" where
  "emfc_cfg_emf_enable v e c =
     (if oper_type c = 1
      then Some (e, c\<lparr>arg_out := OutBool (emf_enable e), cfg_size := 1, status := EMFCFG_STATUS_SUCCESS\<rparr>)
      else if oper_type c = 2
      then
        if emf_enable e = arg_bool c
        then Some (e, cfg_msg EMFCFG_STATUS_FAILURE 0 (''Duplicate configuration request'' @ [CHR 0x0A]) c)
        else let e = e\<lparr>emf_enable := arg_bool c\<rparr> in
          if emf_enable e
          then
            if \<not> hooks_ok v
            then Some (e, cfg_msg EMFCFG_STATUS_FAILURE 0 (''Duplicate hooks registration'' @ [CHR 0x0A]) c)
            else do {
              e \<leftarrow> (if has_snooper e then enable_fn v e else Some e);
              Some (e, c\<lparr>status := EMFCFG_STATUS_SUCCESS\<rparr>) }
          else do {
            e \<leftarrow> (if has_snooper e then disable_fn v e else Some e);
            e \<leftarrow> emfc_mfdb_clear e;
            Some (emfc_iflist_clear e, c\<lparr>status := EMFCFG_STATUS_SUCCESS\<rparr>) }
      else Some (e, cfg_msg EMFCFG_STATUS_OPER_UNKNOWN 0 (''Unknown operation'' @ [CHR 0x0A]) c))"

text \<open>A command that only adds or deletes: \<open>size = 0\<close>, then success or a message.\<close>

definition cfg_result :: "string \<Rightarrow> emf_cfg_request \<Rightarrow> emfc_info \<times> int \<Rightarrow> emfc_info \<times> emf_cfg_request" where
  "cfg_result msg c r =
     (fst r, if snd r \<noteq> SUCCESS then cfg_msg EMFCFG_STATUS_FAILURE 0 (msg @ [CHR 0x0A]) c
             else c\<lparr>cfg_size := 0, status := EMFCFG_STATUS_SUCCESS\<rparr>)"

text \<open>A listing command: the data and success, or a message.\<close>

definition cfg_listing :: "string \<Rightarrow> emf_cfg_request \<Rightarrow> cfg_out option \<Rightarrow> emf_cfg_request" where
  "cfg_listing msg c r =
     (case r of None \<Rightarrow> cfg_msg EMFCFG_STATUS_FAILURE 0 (msg @ [CHR 0x0A]) c
      | Some out \<Rightarrow> c\<lparr>arg_out := out, status := EMFCFG_STATUS_SUCCESS\<rparr>)"

definition emfc_cfg_request_process ::
  "cfg_env \<Rightarrow> emfc_info \<Rightarrow> emf_cfg_request \<Rightarrow> (emfc_info \<times> emf_cfg_request) option" where
  "emfc_cfg_request_process v e c =
     (if command_id c = 1 then emfc_cfg_emf_enable v e c
      else if command_id c = 2 then
        map_option (cfg_result ''Unable to add entry'' c) (emfc_mfdb_membership_add (cfg_alloc v) e (arg_ip c) (arg_if c))
      else if command_id c = 3 then
        map_option (cfg_result ''MFDB entry not found'' c) (emfc_mfdb_membership_del e (arg_ip c) (arg_if c))
      else if command_id c = 5 then
        Some (e, c\<lparr>arg_out := OutMfdb (emfc_mfdb_list e (cfg_size c)), status := EMFCFG_STATUS_SUCCESS\<rparr>)
      else if command_id c = 4 then
        map_option (\<lambda>e. (e, c\<lparr>status := EMFCFG_STATUS_SUCCESS\<rparr>)) (emfc_mfdb_clear e)
      else if command_id c = 15 then
        Some (cfg_result ''Unknown interface, rtport add failed'' c (emfc_rtport_add (if_alloc v) e (arg_if c)))
      else if command_id c = 16 then
        Some (cfg_result ''Unknown interface, rtport del failed'' c (emfc_rtport_del e (arg_if c)))
      else if command_id c = 17 then
        Some (e, cfg_listing ''rtport list get failed'' c (map_option OutIfs (emfc_rtport_list e (cfg_size c))))
      else if command_id c = 12 then
        Some (cfg_result ''Unknown interface, UFFP add failed'' c (emfc_uffp_add (if_alloc v) e (arg_if c)))
      else if command_id c = 13 then
        Some (cfg_result ''Unknown interface, UFFP del failed'' c (emfc_uffp_del e (arg_if c)))
      else if command_id c = 14 then
        Some (e, cfg_listing ''UFFP list get failed'' c (map_option OutIfs (emfc_uffp_list e (cfg_size c))))
      else if command_id c = 18 then
        Some (e, cfg_listing ''EMF stats get failed'' c (map_option OutStats (emfc_stats_get e (cfg_size c))))
      else Some (e, cfg_msg EMFCFG_STATUS_CMD_UNKNOWN 0 (''Unknown command'' @ [CHR 0x0A]) c))"

subsection \<open>Instances\<close>

text \<open>The list of instances, newest first; an instance is named by its address.\<close>

type_synonym emfc_list = "(nat \<times> emfc_info) list"

fun emfc_instance_find :: "emfc_list \<Rightarrow> string \<Rightarrow> nat option" where
  "emfc_instance_find [] ident = None"
| "emfc_instance_find ((h, e) # l) ident = (if ident = inst_id e then Some h else emfc_instance_find l ident)"

definition update_instance :: "nat \<Rightarrow> (emfc_info \<Rightarrow> emfc_info) \<Rightarrow> emfc_list \<Rightarrow> emfc_list" where
  "update_instance h f l = map (\<lambda>(h', e). if h' = h then (h', f e) else (h', e)) l"

text \<open>\<open>has_input_fn\<close> is None for a null snooper and else whether its \<open>input_fn\<close> is set.\<close>

definition emfc_igmp_snooper_register :: "emfc_list \<Rightarrow> string \<Rightarrow> bool option \<Rightarrow> emfc_list \<times> nat option \<times> int" where
  "emfc_igmp_snooper_register l ident has_input_fn =
     (case has_input_fn of None \<Rightarrow> (l, None, FAILURE)
      | Some has_fn \<Rightarrow>
        (case emfc_instance_find l ident of None \<Rightarrow> (l, None, FAILURE)
         | Some h \<Rightarrow>
           if \<not> has_fn then (l, Some h, FAILURE)
           else (update_instance h (\<lambda>e. e\<lparr>has_snooper := True\<rparr>) l, Some h, SUCCESS)))"

definition emfc_igmp_snooper_unregister :: "emfc_list \<Rightarrow> nat \<Rightarrow> emfc_list" where
  "emfc_igmp_snooper_unregister l h = (if h = 0 then l else update_instance h (\<lambda>e. e\<lparr>has_snooper := False\<rparr>) l)"

text \<open>
  \<open>strncpy\<close> into 16 bytes whose last is then 0 keeps 15 characters. Allocation gives the address of
  the instance or fails; each lock creation succeeds or fails.
\<close>

definition emfc_init :: "bool \<Rightarrow> nat option \<Rightarrow> bool \<Rightarrow> bool \<Rightarrow> emfc_list \<Rightarrow> string \<Rightarrow> emfc_list \<times> nat option" where
  "emfc_init wrapper_ok alloc lock1 lock2 l ident =
     (if \<not> wrapper_ok then (l, None)
      else case alloc of None \<Rightarrow> (l, None)
        | Some h \<Rightarrow>
          if \<not> lock1 then (l, None)
          else if \<not> lock2 then (l, None)
          else ((h, (emfc_mfdb_init emfc_zero)\<lparr>inst_id := take 15 ident\<rparr>) # l, Some h))"

definition emfc_exit :: "emfc_list \<Rightarrow> nat \<Rightarrow> emfc_list option" where
  "emfc_exit l h =
     (case map_of l h of None \<Rightarrow> None
      | Some e \<Rightarrow>
        (case emfc_mfdb_clear e of None \<Rightarrow> None
         | Some e \<Rightarrow> Some (filter (\<lambda>(h', e). h' \<noteq> h) l)))"

subsection \<open>What forwarding leaves unchanged\<close>

text \<open>Equal but for the statistics and the packet counters of the host interface entries.\<close>

definition same_tables :: "emfc_info \<Rightarrow> emfc_info \<Rightarrow> bool" where
  "same_tables e e' \<longleftrightarrow> mgrp_fdb e' = mgrp_fdb e \<and> mgrp_mem e' = mgrp_mem e \<and>
     mgrp_cache_ip e' = mgrp_cache_ip e \<and> mgrp_cache e' = mgrp_cache e \<and>
     map fst (mhif_head e') = map fst (mhif_head e) \<and> iflist_head e' = iflist_head e"

lemma same_tables_refl [simp]: "same_tables e e"
  by (simp add: same_tables_def)

lemma same_tables_trans [trans]: "same_tables e e1 \<Longrightarrow> same_tables e1 e2 \<Longrightarrow> same_tables e e2"
  by (simp add: same_tables_def)

lemma same_tables_mis_ok: "same_tables e e' \<Longrightarrow> mis_ok e' ms = mis_ok e ms"
proof -
  assume "same_tables e e'"
  then have "fst ` set (mhif_head e') = fst ` set (mhif_head e)"
    by (metis same_tables_def list.set_map)
  then show ?thesis by (simp add: mis_ok_def)
qed

lemma same_tables_inv:
  assumes "same_tables e e'"
  shows "mfdb_inv e' = mfdb_inv e" "mfdb_refs e' = mfdb_refs e"
    "group_at e' ip p g = group_at e ip p g" "iflist_head e' = iflist_head e"
proof -
  have f: "mgrp_fdb e' = mgrp_fdb e" "mgrp_mem e' = mgrp_mem e" "mgrp_cache_ip e' = mgrp_cache_ip e"
    "mgrp_cache e' = mgrp_cache e" "iflist_head e' = iflist_head e"
    using assms by (simp_all add: same_tables_def)
  show "mfdb_inv e' = mfdb_inv e" unfolding mfdb_inv_def f same_tables_mis_ok [OF assms] ..
  show "mfdb_refs e' = mfdb_refs e" by (intro ext) (simp only: mfdb_refs_def f)
  show "group_at e' ip p g = group_at e ip p g" by (simp add: group_at_def f)
  show "iflist_head e' = iflist_head e" by (rule f)
qed

lemma same_tables_incr [simp]:
  "same_tables e (EMFC_STATS_INCR m e)" "same_tables e (EMFC_PROT_STATS_INCR proto m1 m2 e)"
  by (simp_all add: same_tables_def EMFC_STATS_INCR_def EMFC_PROT_STATS_INCR_def)

lemma incr_trans: "same_tables e e' \<Longrightarrow> same_tables e (EMFC_STATS_INCR m e')"
  "same_tables e e' \<Longrightarrow> same_tables e (EMFC_PROT_STATS_INCR proto m1 m2 e')"
  by (auto intro: same_tables_trans)

lemma count_fwd_same:
  assumes "count_fwd v e mi i = (e', mi')"
  shows "same_tables e e'" "mi_mhif mi' = mi_mhif mi" "mi_ref mi' = mi_ref mi"
  using assms by (auto simp: count_fwd_def same_tables_def EMFC_STATS_INCR_def split: if_splits)

subsection \<open>Who receives the frame and who owns it\<close>

fun receivers :: "emf_event list \<Rightarrow> nat list" where
  "receivers [] = []"
| "receivers (Forward b i # evs) = i # receivers evs"
| "receivers (Sendup b # evs) = receivers evs"
| "receivers (Free b # evs) = receivers evs"

fun uses_original :: "emf_event list \<Rightarrow> nat" where
  "uses_original [] = 0"
| "uses_original (Forward b i # evs) = (if b = Original then 1 else 0) + uses_original evs"
| "uses_original (Sendup b # evs) = (if b = Original then 1 else 0) + uses_original evs"
| "uses_original (Free b # evs) = (if b = Original then 1 else 0) + uses_original evs"

lemma receivers_append [simp]: "receivers (xs @ ys) = receivers xs @ receivers ys"
  by (induction xs rule: receivers.induct) simp_all

lemma uses_original_append [simp]: "uses_original (xs @ ys) = uses_original xs + uses_original ys"
  by (induction xs rule: uses_original.induct) simp_all

text \<open>An interface of the list takes an unregistered frame of protocol \<open>proto\<close> from \<open>ifp\<close>.\<close>

definition takes_unreg :: "nat \<Rightarrow> uint8 \<Rightarrow> emfc_iflist \<Rightarrow> bool" where
  "takes_unreg ifp proto ptr \<longleftrightarrow> if_ifp ptr \<noteq> ifp \<and>
     (if proto = IP_PROT_IGMP then rtport_ref ptr \<noteq> 0 else rtport_ref ptr + uffp_ref ptr \<noteq> 0)"

lemma unreg_flood_spec:
  assumes "unreg_flood v ifp proto ps e k n = (e', evs, r)"
  shows "same_tables e e'" "uses_original evs = 0" "Sendup b \<notin> set evs"
    "(\<forall>k. pkt_dup v k) \<Longrightarrow> r = Some (n + word_of_nat (length (filter (takes_unreg ifp proto) ps))) \<and>
       receivers evs = map if_ifp (filter (takes_unreg ifp proto) ps)"
  using assms
proof (induction ps arbitrary: e k n e' evs r)
  case (Cons ptr ps)
  note step = same_tables_trans [OF same_tables_incr(2)]
  case 1 then show ?case by (auto split: if_splits prod.splits simp: Let_def intro: Cons(1) step [OF Cons(1)])
  case 2 then show ?case using Cons(2) by (auto split: if_splits prod.splits simp: Let_def)
  case 3 then show ?case using Cons(3) by (fastforce split: if_splits prod.splits simp: Let_def)
  case 4
  show ?case
  proof (cases "takes_unreg ifp proto ptr")
    case False
    then have "unreg_flood v ifp proto ps e k n = (e', evs, r)"
      using 4(2) by (auto simp: takes_unreg_def split: if_splits)
    then show ?thesis using Cons(4) [OF 4(1)] False by simp
  next
    case True
    let ?e = "if fwd_ok v (if_ifp ptr) then e
      else EMFC_PROT_STATS_INCR proto igmp_frames_dropped_update mcast_data_dropped_update e"
    obtain evs1 where fl: "unreg_flood v ifp proto ps ?e (k + 1) (n + 1) = (e', evs1, r)"
      "evs = Forward Clone (if_ifp ptr) # evs1"
      using True 4 by (auto simp: takes_unreg_def Let_def split: if_splits prod.splits)
    then show ?thesis using Cons(4) [OF 4(1) fl(1)] True by (simp add: add_ac)
  qed
qed simp_all

lemma unreg_frame_spec:
  assumes "emfc_unreg_frame_handle v e ifp proto rt_port = (e', evs, r)"
  shows "same_tables e e'" "r = EMF_TAKEN \<and> uses_original evs = 1 \<or> r = EMF_DROP \<and> uses_original evs = 0"
    "(\<forall>k. pkt_dup v k) \<Longrightarrow> r = EMF_TAKEN \<and> (Sendup Clone \<in> set evs \<longleftrightarrow> \<not> rt_port) \<and>
       receivers evs = map if_ifp (filter (takes_unreg ifp proto) (iflist_head e))"
proof -
  define st where "st = (if rt_port then (e, [], 0)
    else (EMFC_PROT_STATS_INCR proto igmp_frames_sentup_update mcast_data_sentup_update e, [Sendup Clone], 1 :: nat))"
  obtain e1 evs1 k where st: "st = (e1, evs1, k)" by (cases st) auto
  then have s1: "same_tables e e1" "uses_original evs1 = 0" "receivers evs1 = []"
    "Sendup Clone \<in> set evs1 \<longleftrightarrow> \<not> rt_port"
    by (auto simp: st_def split: if_splits)
  obtain e2 evs2 r2 where fl: "unreg_flood v ifp proto (iflist_head e1) e1 k 0 = (e2, evs2, r2)" by (metis prod_cases3)
  note s2 = unreg_flood_spec [OF fl]
  have il: "iflist_head e1 = iflist_head e" using s1(1) by (simp add: same_tables_def)
  have s12: "same_tables e e2" using same_tables_trans [OF s1(1) s2(1)] .
  consider "\<not> rt_port \<and> \<not> pkt_dup v 0" "same_tables e e'" "evs = []" "r = EMF_DROP"
    | "rt_port \<or> pkt_dup v 0" "r2 = None" "e' = e2" "evs = evs1 @ evs2" "r = EMF_DROP"
    | "rt_port \<or> pkt_dup v 0" "\<exists>n. r2 = Some n" "same_tables e e'" "evs = evs1 @ evs2 @ [Free Original]" "r = EMF_TAKEN"
    using assms s12 fl st unfolding emfc_unreg_frame_handle_def st_def [symmetric]
    by (auto simp: Let_def split: if_splits option.splits intro: incr_trans)
  then show "same_tables e e'" "r = EMF_TAKEN \<and> uses_original evs = 1 \<or> r = EMF_DROP \<and> uses_original evs = 0"
    "(\<forall>k. pkt_dup v k) \<Longrightarrow> r = EMF_TAKEN \<and> (Sendup Clone \<in> set evs \<longleftrightarrow> \<not> rt_port) \<and>
       receivers evs = map if_ifp (filter (takes_unreg ifp proto) (iflist_head e))"
    using s12 s1 s2 il by (cases; auto)+
qed

text \<open>Entries that agree but for their packet counters.\<close>

definition same_entries :: "emfc_mi list \<Rightarrow> emfc_mi list \<Rightarrow> bool" where
  "same_entries ms ms' \<longleftrightarrow> map (\<lambda>m. (mi_mhif m, mi_ref m)) ms' = map (\<lambda>m. (mi_mhif m, mi_ref m)) ms"

lemma same_entries_simps [simp]:
  "same_entries [] []" "same_entries ms ms"
  "same_entries (m # ms) (m' # ms') \<longleftrightarrow> mi_mhif m' = mi_mhif m \<and> mi_ref m' = mi_ref m \<and> same_entries ms ms'"
  "same_entries [] (m' # ms') \<longleftrightarrow> False" "same_entries (m # ms) [] \<longleftrightarrow> False"
  by (auto simp: same_entries_def)

lemma same_entries_append: "same_entries a a' \<Longrightarrow> same_entries b b' \<Longrightarrow> same_entries (a @ b) (a' @ b')"
  by (simp add: same_entries_def)

lemma same_entries_facts:
  assumes "same_entries ms ms'"
  shows "mis_ok e ms' = mis_ok e ms" "mi_refs ms' = mi_refs ms" "(ms' = []) = (ms = [])"
proof -
  have "map mi_mhif ms' = map mi_mhif ms \<and> mi_refs ms' = mi_refs ms \<and> (ms' = []) = (ms = []) \<and>
    (\<forall>m \<in> set ms'. \<exists>i. mi_mhif m = Some i \<and> i \<in> fst ` set (mhif_head e) \<and> mi_ref m \<noteq> 0) =
      (\<forall>m \<in> set ms. \<exists>i. mi_mhif m = Some i \<and> i \<in> fst ` set (mhif_head e) \<and> mi_ref m \<noteq> 0)"
    using assms by (induction ms ms' rule: list_induct2') (simp_all add: fun_eq_iff)
  then show "mis_ok e ms' = mis_ok e ms" "mi_refs ms' = mi_refs ms" "(ms' = []) = (ms = [])"
    by (simp_all add: mis_ok_def)
qed

lemma mcast_clones_spec:
  assumes "\<forall>m \<in> set ms. mi_mhif m \<noteq> None"
  shows "\<exists>e' ms' evs ok. mcast_clones v ifp ms e k = Some (e', ms', evs, ok) \<and>
    same_tables e e' \<and> same_entries ms ms' \<and> uses_original evs = 0 \<and> Sendup Clone \<notin> set evs \<and>
    ((\<forall>k. pkt_dup v k) \<longrightarrow> ok \<and> receivers evs = filter (\<lambda>i. i \<noteq> ifp) (map (\<lambda>m. the (mi_mhif m)) ms))"
  using assms
proof (induction ms arbitrary: e k)
  case (Cons m ms)
  obtain i where i: "mi_mhif m = Some i" using Cons.prems by auto
  have ih: "\<exists>e' ms' evs ok. mcast_clones v ifp ms e k = Some (e', ms', evs, ok) \<and>
    same_tables e e' \<and> same_entries ms ms' \<and> uses_original evs = 0 \<and> Sendup Clone \<notin> set evs \<and>
    ((\<forall>k. pkt_dup v k) \<longrightarrow> ok \<and> receivers evs = filter (\<lambda>i. i \<noteq> ifp) (map (\<lambda>m. the (mi_mhif m)) ms))" for e k
    using Cons.IH Cons.prems by simp
  obtain e1 m' where c: "count_fwd v e m i = (e1, m')" by force
  note cs = count_fwd_same [OF c]
  consider "ifp = i" | "ifp \<noteq> i" "\<not> pkt_dup v k" | "ifp \<noteq> i" "pkt_dup v k" by blast
  then show ?case
  proof cases
    case 1 then show ?thesis using ih [of e k] i by auto
  next
    case 2 then show ?thesis using i by auto
  next
    case 3
    then show ?thesis using ih [of e1 "k + 1"] i c cs by (fastforce intro: same_tables_trans)
  qed
qed auto

lemma same_entries_group:
  assumes inv: "mfdb_inv e" and g: "group_at e ip p g" and same: "same_entries (mi_head g) ms'"
  shows "mfdb_inv (set_group e p (g\<lparr>mi_head := ms'\<rparr>))" "mfdb_refs (set_group e p (g\<lparr>mi_head := ms'\<rparr>)) = mfdb_refs e"
proof -
  let ?g = "g\<lparr>mi_head := ms'\<rparr>"
  have "mgrp_ip ?g = ip" "mi_head ?g \<noteq> []" "mis_ok e (mi_head ?g)"
    using g mfdb_invD(4,5) [OF inv, of p g] same_entries_facts [OF same] by (auto simp: group_at_def)
  note h = set_group_inv [OF inv g this] set_group_refs [OF inv g this]
  show "mfdb_inv (set_group e p ?g)" by (rule h)
  have "mfdb_refs e ip = mi_refs (mi_head ?g)"
    using mfdb_refs_group [OF inv g] same_entries_facts(2) [OF same] by (auto simp: fun_eq_iff)
  then show "mfdb_refs (set_group e p ?g) = mfdb_refs e" using h(2) by (simp add: fun_upd_idem)
qed

lemma mi_refs_last:
  assumes "ms \<noteq> []" "\<forall>m \<in> set ms. mi_mhif m \<noteq> None"
  shows "\<exists>i. mi_mhif (last ms) = Some i \<and>
    map (\<lambda>m. the (mi_mhif m)) ms = map (\<lambda>m. the (mi_mhif m)) (butlast ms) @ [i]"
proof (cases ms rule: rev_cases)
  case (snoc ms' m)
  then show ?thesis using assms(2) by auto
qed (use assms(1) in simp)

lemma mcast_forward_spec:
  assumes inv: "mfdb_inv e" and g: "group_at e ip p g"
  shows "\<exists>e' evs r. mcast_forward v e p ifp rt_port = Some (e', evs, r) \<and>
    mfdb_inv e' \<and> mfdb_refs e' = mfdb_refs e \<and> iflist_head e' = iflist_head e \<and>
    (r = EMF_TAKEN \<and> uses_original evs = 1 \<or> r = EMF_DROP \<and> uses_original evs = 0) \<and>
    ((\<forall>k. pkt_dup v k) \<longrightarrow> r = EMF_TAKEN \<and> (Sendup Clone \<in> set evs \<longleftrightarrow> \<not> rt_port) \<and>
       receivers evs = filter (\<lambda>i. i \<noteq> ifp) (map (\<lambda>m. the (mi_mhif m)) (mi_head g)))"
proof (cases "\<not> rt_port \<and> \<not> pkt_dup v 0")
  case True
  have "mgrp_mem e p = Some g" using g by (simp add: group_at_def)
  then show ?thesis
    using True inv same_tables_inv [OF same_tables_incr(1) [of e mcast_data_dropped_update]]
    by (auto simp: mcast_forward_def)
next
  case go: False
  define st where "st = (if rt_port then (e, [], 0)
    else (EMFC_STATS_INCR mcast_data_sentup_update e, [Sendup Clone], 1 :: nat))"
  obtain e1 evs1 k where st: "st = (e1, evs1, k)" by (cases st) auto
  then have s1: "same_tables e e1" "uses_original evs1 = 0" "receivers evs1 = []"
    "Sendup Clone \<in> set evs1 \<longleftrightarrow> \<not> rt_port"
    by (auto simp: st_def split: if_splits)
  have mem: "mgrp_mem e p = Some g" using g by (simp add: group_at_def)
  have ne: "mi_head g \<noteq> []" and ok: "\<forall>m \<in> set (mi_head g). mi_mhif m \<noteq> None"
    using mfdb_invD(4,5) [OF inv mem] mis_ok_mhif by auto
  obtain i where i: "mi_mhif (last (mi_head g)) = Some i"
    "map (\<lambda>m. the (mi_mhif m)) (mi_head g) = map (\<lambda>m. the (mi_mhif m)) (butlast (mi_head g)) @ [i]"
    using mi_refs_last [OF ne ok] by auto
  obtain e2 ms evs2 b where c: "mcast_clones v ifp (butlast (mi_head g)) e1 k = Some (e2, ms, evs2, b)"
    and s2: "same_tables e1 e2" "same_entries (butlast (mi_head g)) ms" "uses_original evs2 = 0" "Sendup Clone \<notin> set evs2"
      "(\<forall>k. pkt_dup v k) \<longrightarrow> b \<and> receivers evs2 = filter (\<lambda>i. i \<noteq> ifp) (map (\<lambda>m. the (mi_mhif m)) (butlast (mi_head g)))"
    using mcast_clones_spec [of "butlast (mi_head g)" v ifp e1 k] ok by (meson in_set_butlastD)
  have s12: "same_tables e e2" using same_tables_trans [OF s1(1) s2(1)] .
  obtain e3 mi' where cf: "count_fwd v e2 (last (mi_head g)) i = (e3, mi')" by force
  note cs = count_fwd_same [OF cf]
  have app: "same_entries (mi_head g) (ms @ [m])"
    if "mi_mhif m = mi_mhif (last (mi_head g))" "mi_ref m = mi_ref (last (mi_head g))" for m
    using same_entries_append [OF s2(2), of "[last (mi_head g)]" "[m]"] that ne by simp
  have fin: "mfdb_inv (set_group e' p (g\<lparr>mi_head := ms @ [m]\<rparr>))"
    "mfdb_refs (set_group e' p (g\<lparr>mi_head := ms @ [m]\<rparr>)) = mfdb_refs e" "iflist_head e' = iflist_head e"
    if "same_tables e e'" "mi_mhif m = mi_mhif (last (mi_head g))" "mi_ref m = mi_ref (last (mi_head g))" for e' m
    using same_entries_group [OF _ _ app [OF that(2,3)], of e' ip p] same_tables_inv [OF that(1)] inv g by auto
  have incr: "mfdb_inv (EMFC_STATS_INCR f e') = mfdb_inv e'" "mfdb_refs (EMFC_STATS_INCR f e') = mfdb_refs e'"
    "iflist_head (EMFC_STATS_INCR f e') = iflist_head e'" for f e'
    using same_tables_inv [OF same_tables_incr(1) [of e' f]] by simp_all
  have eq: "mcast_forward v e p ifp rt_port =
    (if \<not> b then Some (set_group e2 p (g\<lparr>mi_head := ms @ [last (mi_head g)]\<rparr>), evs1 @ evs2, EMF_DROP)
     else if ifp \<noteq> i then Some (EMFC_STATS_INCR mcast_data_fwd_update (set_group e3 p (g\<lparr>mi_head := ms @ [mi']\<rparr>)),
       evs1 @ evs2 @ [Forward Original i], EMF_TAKEN)
     else Some (EMFC_STATS_INCR mcast_data_fwd_update (set_group e2 p (g\<lparr>mi_head := ms @ [last (mi_head g)]\<rparr>)),
       evs1 @ evs2 @ [Free Original], EMF_TAKEN))"
    unfolding mcast_forward_def st_def [symmetric] mem option.case if_not_P [OF go] st prod.case
      Let_def if_not_P [OF ne] c i(1) cf by (cases "ifp = i") simp_all
  note fin2 = fin [OF s12, of "last (mi_head g)"] and fin3 = fin [OF same_tables_trans [OF s12 cs(1)] cs(2,3)]
  consider "\<not> b" | "b" "ifp \<noteq> i" | "b" "ifp = i" by blast
  then show ?thesis
    by (cases; unfold eq i(2)) (use s1 s2 fin2 fin3 in \<open>auto simp: incr\<close>)
qed

lemma ismulti_nonzero: "IP_ISMULTI ip \<Longrightarrow> ip \<noteq> 0"
  by (auto simp: IP_ISMULTI_def)

text \<open>A frame the data path of \<open>emfc_input\<close> looks up in the database.\<close>

definition data_frame :: "emfc_info \<Rightarrow> uint8 list \<Rightarrow> bool" where
  "data_frame e iph \<longleftrightarrow> 20 \<le> length iph \<and> IP_ISMULTI (dest_ip_of iph) \<and> emf_enable e \<and> IP_VER iph = 4 \<and>
     \<not> (IPV4_PROT iph = IP_PROT_IGMP \<and> has_snooper e) \<and>
     \<not> MCAST_ADDR_LINKLOCAL (dest_ip_of iph) \<and> \<not> MCAST_ADDR_UPNP_SSDP (dest_ip_of iph)"

lemma data_frame_input:
  assumes "data_frame e iph"
  shows "emfc_input f v e ifp iph rt_port =
    (case emfc_mfdb_group_find (EMFC_STATS_INCR mcast_data_frames_update e) (dest_ip_of iph) of None \<Rightarrow> None
     | Some (e, None) \<Rightarrow> Some (emfc_unreg_frame_handle v e ifp (IPV4_PROT iph) rt_port)
     | Some (e, Some p) \<Rightarrow> mcast_forward v e p ifp rt_port)"
  using assms by (auto simp: emfc_input_def data_frame_def Let_def)

lemma group_find_incr:
  assumes inv: "mfdb_inv e" and ip: "ip \<noteq> 0"
  shows "\<exists>e1 r. emfc_mfdb_group_find (EMFC_STATS_INCR m e) ip = Some (e1, r) \<and> mfdb_inv e1 \<and>
    mfdb_refs e1 = mfdb_refs e \<and> iflist_head e1 = iflist_head e \<and>
    (case r of None \<Rightarrow> \<nexists>p g. group_at e ip p g | Some p \<Rightarrow> \<exists>g. group_at e1 ip p g)"
proof -
  have st: "same_tables e (EMFC_STATS_INCR m e)" by simp
  note t = same_tables_inv [OF st]
  obtain e1 r where r: "emfc_mfdb_group_find (EMFC_STATS_INCR m e) ip = Some (e1, r)" "mfdb_inv e1"
    and s: "same_db (EMFC_STATS_INCR m e) e1"
    and c: "case r of None \<Rightarrow> \<nexists>p g. group_at (EMFC_STATS_INCR m e) ip p g
      | Some p \<Rightarrow> \<exists>g. group_at (EMFC_STATS_INCR m e) ip p g"
    using group_find_spec [of "EMFC_STATS_INCR m e" ip] inv ip t(1) by blast
  have "case r of None \<Rightarrow> \<nexists>p g. group_at e ip p g | Some p \<Rightarrow> \<exists>g. group_at e1 ip p g"
    using c t(3) same_db_group_at [OF s] by (simp split: option.splits)
  then show ?thesis using r same_db_refs [OF s] t s by (auto simp: same_db_def)
qed

lemma data_frame_delivered:
  assumes "mfdb_inv e" "data_frame e iph" "\<forall>k. pkt_dup v k" "mfdb_refs e (dest_ip_of iph) j > 0"
  shows "\<exists>e' evs. emfc_input f v e ifp iph rt_port = Some (e', evs, EMF_TAKEN) \<and>
    distinct (receivers evs) \<and>
    set (receivers evs) = {i. mfdb_refs e (dest_ip_of iph) i > 0 \<and> i \<noteq> ifp} \<and>
    (Sendup Clone \<in> set evs \<longleftrightarrow> \<not> rt_port) \<and> uses_original evs = 1 \<and>
    mfdb_inv e' \<and> mfdb_refs e' = mfdb_refs e"
proof -
  let ?ip = "dest_ip_of iph"
  have ip: "?ip \<noteq> 0" using assms(2) ismulti_nonzero by (auto simp: data_frame_def)
  obtain e1 r where r: "emfc_mfdb_group_find (EMFC_STATS_INCR mcast_data_frames_update e) ?ip = Some (e1, r)"
    "mfdb_inv e1" "mfdb_refs e1 = mfdb_refs e"
    "case r of None \<Rightarrow> \<nexists>p g. group_at e ?ip p g | Some p \<Rightarrow> \<exists>g. group_at e1 ?ip p g"
    using group_find_incr [OF assms(1) ip] by blast
  have "\<exists>p g. group_at e ?ip p g" using assms(4) mfdb_refs_pos [OF assms(1)] by blast
  then obtain p g where p: "r = Some p" and g: "group_at e1 ?ip p g" using r(4) by (cases r) auto
  have input: "emfc_input f v e ifp iph rt_port = mcast_forward v e1 p ifp rt_port"
    by (simp add: data_frame_input [OF assms(2)] r(1) p)
  have mok: "mis_ok e1 (mi_head g)" using mfdb_invD(5) [OF r(2), of p g] g by (simp add: group_at_def)
  have mems: "(mfdb_refs e ?ip i > 0) = (Some i \<in> mi_mhif ` set (mi_head g))" for i
    using mfdb_refs_group [OF r(2) g] mi_refs_pos [OF mok] r(3) by simp
  let ?is = "map (\<lambda>m. the (mi_mhif m)) (mi_head g)"
  have mh: "map mi_mhif (mi_head g) = map Some ?is" using mis_ok_mhif [OF mok] by auto
  have "distinct (map mi_mhif (mi_head g))" using mok by (simp add: mis_ok_def)
  then have "distinct ?is" unfolding mh distinct_map by simp
  moreover have "set ?is = {i. mfdb_refs e ?ip i > 0}"
    using mems mh by (metis (mono_tags, lifting) Collect_cong inj_Some inj_image_mem_iff list.set_map Collect_mem_eq)
  ultimately show ?thesis
    using mcast_forward_spec [OF r(2) g, of v ifp rt_port] assms(3) r(3) unfolding input
    by (auto simp: EMF_TAKEN_def EMF_DROP_def)
qed

text \<open>C7: Multicast delivery. In a well-formed, enabled instance a data frame for a group with
  members (and not link-local or SSDP), when buffers can be cloned, is forwarded exactly once to
  every member interface of its destination group except the one it came from, and to no other; a
  copy goes up the stack exactly when it came from a port; the frame is taken, and memberships
  do not change.\<close>

theorem mcast_delivers_to_members:
  assumes "mfdb_inv e" "data_frame e iph" "\<forall>k. pkt_dup v k" "mfdb_refs e (dest_ip_of iph) j > 0"
  shows "\<exists>e' evs. emfc_input f v e ifp iph rt_port = Some (e', evs, EMF_TAKEN) \<and>
    distinct (receivers evs) \<and>
    set (receivers evs) = {i. mfdb_refs e (dest_ip_of iph) i > 0 \<and> i \<noteq> ifp} \<and>
    (Sendup Clone \<in> set evs \<longleftrightarrow> \<not> rt_port) \<and> uses_original evs = 1 \<and>
    mfdb_inv e' \<and> mfdb_refs e' = mfdb_refs e"
  by (rule data_frame_delivered [OF assms])

text \<open>An instance with the interfaces 5 and 6 in the group 225.0.0.1, and a UDP frame for it.\<close>

definition ex_group :: emfc_mgrp where
  "ex_group = \<lparr>mgrp_ip = 0xE1000001, mi_head =
     [\<lparr>mi_mhif = Some 5, mi_ref = 1, mi_data_fwd = 0\<rparr>, \<lparr>mi_mhif = Some 6, mi_ref = 2, mi_data_fwd = 0\<rparr>]\<rparr>"

definition ex_base :: emfc_info where
  "ex_base = emfc_zero\<lparr>emf_enable := True, mhif_head := [(5, 0), (6, 0)],
     iflist_head := [\<lparr>if_ifp = 7, uffp_ref = 1, rtport_ref = 0\<rparr>, \<lparr>if_ifp = 8, uffp_ref = 0, rtport_ref = 0\<rparr>]\<rparr>"

definition ex_emfc :: emfc_info where "ex_emfc = link_group ex_base 9 ex_group"

definition ex_iph :: "uint8 list" where
  "ex_iph = [0x45, 0, 0, 0, 0, 0, 0, 0, 1, 17, 0, 0, 0, 0, 0, 0, 225, 0, 0, 1]"

lemma ex_base_facts: "mfdb_inv ex_base" "mfdb_refs ex_base = (\<lambda>_ _. 0)" "\<nexists>q g. group_at ex_base ip q g"
proof -
  show i: "mfdb_inv ex_base" by (intro mfdb_invI) (simp_all add: ex_base_def emfc_zero_def)
  show n: "\<nexists>q g. group_at ex_base ip q g" for ip by (simp add: ex_base_def emfc_zero_def group_at_def)
  show "mfdb_refs ex_base = (\<lambda>_ _. 0)" using n by (intro mfdb_refs_eqI [OF i]) auto
qed

lemma ex_emfc_facts:
  "mfdb_inv ex_emfc" "mfdb_refs ex_emfc 0xE1000001 6 = 2" "data_frame ex_emfc ex_iph"
  "data_frame ex_base ex_iph" "dest_ip_of ex_iph = 0xE1000001"
proof -
  have h: "mgrp_mem ex_base 9 = None" "mi_head ex_group \<noteq> []" "mis_ok ex_base (mi_head ex_group)"
    by (simp_all add: ex_base_def ex_group_def emfc_zero_def mis_ok_def)
  show "mfdb_inv ex_emfc" unfolding ex_emfc_def by (rule link_group_inv [OF ex_base_facts(1,3) h])
  show "mfdb_refs ex_emfc 0xE1000001 6 = 2"
    unfolding ex_emfc_def link_group_refs [OF ex_base_facts(1,3) h] by (simp add: ex_group_def)
  have "get32 1 0 0 225 = 0xE1000001" by (simp add: get32_def)
  then show d: "dest_ip_of ex_iph = 0xE1000001" by (simp add: dest_ip_of_def ex_iph_def)
  have f: "IP_ISMULTI 0xE1000001" "\<not> MCAST_ADDR_LINKLOCAL 0xE1000001" "\<not> MCAST_ADDR_UPNP_SSDP 0xE1000001"
    "IP_VER ex_iph = 4" "IPV4_PROT ex_iph \<noteq> IP_PROT_IGMP" "length ex_iph = 20"
    by (simp_all add: IP_ISMULTI_def MCAST_ADDR_LINKLOCAL_def MCAST_ADDR_UPNP_SSDP_def IP_VER_def
        IPV4_PROT_def IP_PROT_IGMP_def ex_iph_def)
  show "data_frame ex_base ex_iph" unfolding data_frame_def d using f by (simp add: ex_base_def)
  show "data_frame ex_emfc ex_iph"
    unfolding data_frame_def d using f by (simp add: ex_emfc_def link_group_def set_group_def ex_base_def)
qed

theorem mcast_delivers_to_members_witness:
  "\<exists>e' evs. emfc_input (\<lambda>_ _ _ _. None) \<lparr>pkt_dup = \<lambda>_. True, fwd_ok = \<lambda>_. True\<rparr> ex_emfc 6 ex_iph True =
      Some (e', evs, EMF_TAKEN) \<and>
    set (receivers evs) = {i. mfdb_refs ex_emfc (dest_ip_of ex_iph) i > 0 \<and> i \<noteq> 6}"
  using mcast_delivers_to_members [OF ex_emfc_facts(1,3), of "\<lparr>pkt_dup = \<lambda>_. True, fwd_ok = \<lambda>_. True\<rparr>" 6
      "\<lambda>_ _ _ _. None" 6 True] ex_emfc_facts(2,5) by auto

text \<open>Frames for groups without members. When buffers can be cloned, such a data frame is
  forwarded, in list order and once each, to the interfaces of the interface list that have a
  router port or flooding reference, other than its own, and the frame is taken.\<close>

lemma unregistered_data_flooded:
  assumes "mfdb_inv e" "data_frame e iph" "\<forall>k. pkt_dup v k" "\<forall>j. mfdb_refs e (dest_ip_of iph) j = 0"
  shows "\<exists>e' evs. emfc_input f v e ifp iph rt_port = Some (e', evs, EMF_TAKEN) \<and>
    receivers evs = map if_ifp (filter (takes_unreg ifp (IPV4_PROT iph)) (iflist_head e)) \<and>
    (Sendup Clone \<in> set evs \<longleftrightarrow> \<not> rt_port) \<and> mfdb_inv e' \<and> mfdb_refs e' = mfdb_refs e"
proof -
  let ?ip = "dest_ip_of iph"
  have ip: "?ip \<noteq> 0" using assms(2) ismulti_nonzero by (auto simp: data_frame_def)
  obtain e1 r where r: "emfc_mfdb_group_find (EMFC_STATS_INCR mcast_data_frames_update e) ?ip = Some (e1, r)"
    "mfdb_inv e1" "mfdb_refs e1 = mfdb_refs e" "iflist_head e1 = iflist_head e"
    "case r of None \<Rightarrow> \<nexists>p g. group_at e ?ip p g | Some p \<Rightarrow> \<exists>g. group_at e1 ?ip p g"
    using group_find_incr [OF assms(1) ip] by blast
  have "\<nexists>p g. group_at e1 ?ip p g"
  proof safe
    fix p g assume g: "group_at e1 ?ip p g"
    then have "mfdb_refs e1 ?ip = mi_refs (mi_head g)" using mfdb_refs_group [OF r(2)] by auto
    then show False using mis_ok_refs_nonzero [of e1 "mi_head g"] mfdb_invD(4,5) [OF r(2), of p g] g assms(4) r(3)
      by (auto simp: group_at_def)
  qed
  then have n: "r = None" using r(5) by (cases r) auto
  obtain e' evs r' where u: "emfc_unreg_frame_handle v e1 ifp (IPV4_PROT iph) rt_port = (e', evs, r')" by (metis prod_cases3)
  note s = unreg_frame_spec [OF u]
  show ?thesis
    using data_frame_input [OF assms(2), of f v ifp rt_port] r n u s(3) [OF assms(3)] same_tables_inv [OF s(1)] by auto
qed

lemma unregistered_data_flooded_witness:
  "\<exists>e' evs. emfc_input (\<lambda>_ _ _ _. None) \<lparr>pkt_dup = \<lambda>_. True, fwd_ok = \<lambda>_. True\<rparr> ex_base 6 ex_iph True =
      Some (e', evs, EMF_TAKEN) \<and> receivers evs = [7]"
  using unregistered_data_flooded [OF ex_base_facts(1) ex_emfc_facts(4), of "\<lparr>pkt_dup = \<lambda>_. True, fwd_ok = \<lambda>_. True\<rparr>"
      "\<lambda>_ _ _ _. None" 6 True] ex_base_facts(2)
  by (auto simp: takes_unreg_def ex_base_def IPV4_PROT_def IP_PROT_IGMP_def ex_iph_def)

text \<open>The whole instance: a well-formed database and one interface list entry per interface.\<close>

definition emf_inv :: "emfc_info \<Rightarrow> bool" where
  "emf_inv e \<longleftrightarrow> mfdb_inv e \<and> distinct (map if_ifp (iflist_head e))"

lemma emf_inv_cong:
  assumes "same_tables e e'"
  shows "emf_inv e' = emf_inv e"
  using same_tables_inv [OF assms] by (simp add: emf_inv_def)

definition owned :: "(emfc_info \<times> emf_event list \<times> uint32) option \<Rightarrow> bool" where
  "owned x \<longleftrightarrow> (\<exists>e' evs r. x = Some (e', evs, r) \<and> emf_inv e' \<and>
    r \<in> {EMF_DROP, EMF_NOP, EMF_TAKEN} \<and> uses_original evs = (if r = EMF_TAKEN then 1 else 0))"

lemma owned_simps:
  "owned (Some (e', evs, EMF_DROP)) \<longleftrightarrow> emf_inv e' \<and> uses_original evs = 0"
  "owned (Some (e', evs, EMF_NOP)) \<longleftrightarrow> emf_inv e' \<and> uses_original evs = 0"
  "owned (Some (e', evs, EMF_TAKEN)) \<longleftrightarrow> emf_inv e' \<and> uses_original evs = 1"
  by (auto simp: owned_def EMF_DROP_def EMF_TAKEN_def EMF_NOP_def)

lemma owned_unreg: "emf_inv e \<Longrightarrow> owned (Some (emfc_unreg_frame_handle v e ifp proto rt_port))"
proof -
  assume inv: "emf_inv e"
  obtain e' evs r' where u: "emfc_unreg_frame_handle v e ifp proto rt_port = (e', evs, r')" by (metis prod_cases3)
  show ?thesis using unreg_frame_spec(2) [OF u] emf_inv_cong [OF unreg_frame_spec(1) [OF u]] inv
    unfolding u by (auto simp: owned_simps)
qed

lemma owned_forward: "emf_inv e \<Longrightarrow> group_at e ip p g \<Longrightarrow> owned (mcast_forward v e p ifp rt_port)"
proof -
  assume a: "emf_inv e" "group_at e ip p g"
  have "EMF_DROP \<noteq> EMF_TAKEN" by (simp add: EMF_DROP_def EMF_TAKEN_def)
  then show ?thesis using mcast_forward_spec [of e ip p g v ifp rt_port] a by (auto simp: owned_simps emf_inv_def)
qed

lemma emf_inv_incr [simp]: "emf_inv (EMFC_STATS_INCR m e) = emf_inv e"
  by (rule emf_inv_cong) simp

text \<open>What is asked of the snooper: it returns from the frame and keeps the instance well formed.\<close>

definition snooper_ok :: "snooper_fn \<Rightarrow> emfc_info \<Rightarrow> nat \<Rightarrow> uint8 list \<Rightarrow> bool \<Rightarrow> bool" where
  "snooper_ok f e ifp iph rt_port \<longleftrightarrow>
     (\<exists>e' a. f (EMFC_STATS_INCR igmp_frames_update e) ifp iph rt_port = Some (e', a) \<and> emf_inv e')"

lemma snooper_ok_identity: "emf_inv e \<Longrightarrow> snooper_ok (\<lambda>e _ _ _. Some (e, a)) e ifp iph rt_port"
  by (simp add: snooper_ok_def)

lemma emfc_input_owned:
  assumes "emf_inv e" "20 \<le> length iph" "snooper_ok f e ifp iph rt_port"
  shows "owned (emfc_input f v e ifp iph rt_port)"
proof (cases "data_frame e iph")
  case True
  then have ip: "dest_ip_of iph \<noteq> 0" using ismulti_nonzero by (auto simp: data_frame_def)
  obtain e1 r where r: "emfc_mfdb_group_find (EMFC_STATS_INCR mcast_data_frames_update e) (dest_ip_of iph) = Some (e1, r)"
    "emf_inv e1" "case r of None \<Rightarrow> \<nexists>p g. group_at e (dest_ip_of iph) p g | Some p \<Rightarrow> \<exists>g. group_at e1 (dest_ip_of iph) p g"
    using group_find_incr [OF _ ip] assms(1) by (fastforce simp: emf_inv_def)
  show ?thesis
    unfolding data_frame_input [OF True] using r owned_unreg [OF r(2)] owned_forward [OF r(2)]
    by (auto split: option.splits)
next
  case False
  obtain e1 a where s: "f (EMFC_STATS_INCR igmp_frames_update e) ifp iph rt_port = Some (e1, a)" "emf_inv e1"
    using assms(3) by (auto simp: snooper_ok_def)
  show ?thesis
    using False assms(1,2) s owned_unreg [OF s(2)] by (auto simp: emfc_input_def data_frame_def Let_def owned_simps)
qed

text \<open>C19: Packet ownership. For every frame, environment and snooper that keeps the database
  well formed, \<open>emfc_input\<close> returns with a verdict, keeps the database well formed, and consumes
  the original buffer (sends it on, up, or frees it) exactly once when it answers \<open>EMF_TAKEN\<close> and
  never when it answers \<open>EMF_NOP\<close> or \<open>EMF_DROP\<close>, also when cloning fails half-way.\<close>

theorem emfc_input_owns_packet:
  assumes "emf_inv e" "20 \<le> length iph" "snooper_ok f e ifp iph rt_port"
  shows "\<exists>e' evs r. emfc_input f v e ifp iph rt_port = Some (e', evs, r) \<and> emf_inv e' \<and>
    r \<in> {EMF_DROP, EMF_NOP, EMF_TAKEN} \<and> uses_original evs = (if r = EMF_TAKEN then 1 else 0)"
  using emfc_input_owned [of e iph f ifp rt_port v] assms by (simp add: owned_def)

theorem emfc_input_owns_packet_witness:
  "\<exists>e' evs r. emfc_input (\<lambda>e _ _ _. Some (e, EMF_FLOOD)) \<lparr>pkt_dup = \<lambda>k. k = 0, fwd_ok = \<lambda>_. False\<rparr> ex_emfc 4 ex_iph False =
      Some (e', evs, r) \<and> uses_original evs = (if r = EMF_TAKEN then 1 else 0)"
proof -
  have "20 \<le> length ex_iph" using ex_emfc_facts(3) by (simp add: data_frame_def)
  moreover have "emf_inv ex_emfc"
    using ex_emfc_facts(1) by (simp add: emf_inv_def) (simp add: ex_emfc_def ex_base_def)
  ultimately show ?thesis
    using emfc_input_owns_packet [of ex_emfc ex_iph "\<lambda>e _ _ _. Some (e, EMF_FLOOD)" 4 False
      "\<lparr>pkt_dup = \<lambda>k. k = 0, fwd_ok = \<lambda>_. False\<rparr>"] snooper_ok_identity by blast
qed

subsection \<open>Port references\<close>

definition if_find :: "emfc_iflist list \<Rightarrow> nat \<Rightarrow> emfc_iflist option" where
  "if_find ps i = find (\<lambda>p. if_ifp p = i) ps"

lemma iflist_find_None: "emfc_iflist_find ps i = None \<longleftrightarrow> if_find ps i = None"
  by (induction ps) (auto simp: if_find_def)

lemma iflist_find_Some:
  assumes "emfc_iflist_find ps i = Some k"
  shows "k < length ps" "if_ifp (ps ! k) = i" "if_find ps i = Some (ps ! k)"
    "if_ifp q = i \<Longrightarrow> if_find (ps[k := q]) = (if_find ps)(i \<mapsto> q)"
    "if_ifp q = i \<Longrightarrow> map if_ifp (ps[k := q]) = map if_ifp ps"
    "if_ifp q = i \<Longrightarrow> emfc_iflist_find (ps[k := q]) i = Some k"
  using assms
proof (induction ps arbitrary: k)
  case (Cons p ps)
  case 1 then show ?case using Cons(1) by (auto split: if_splits)
  case 2 then show ?case using Cons(2) by (auto split: if_splits)
  case 3 then show ?case using Cons(3) by (auto split: if_splits simp: if_find_def)
  case 4 then show ?case using Cons(4) by (auto split: if_splits simp: if_find_def fun_eq_iff)
  case 5 then show ?case using Cons(5) by (auto split: if_splits)
  case 6 then show ?case using Cons(6) by (auto split: if_splits)
qed simp_all

lemma if_find_notin: "i \<notin> if_ifp ` set ps \<Longrightarrow> if_find ps i = None"
  by (induction ps) (auto simp: if_find_def)

lemma iflist_find_removed:
  assumes "emfc_iflist_find ps i = Some k" "distinct (map if_ifp ps)"
  shows "if_find (take k ps @ drop (Suc k) ps) = (if_find ps)(i := None)"
  using assms
proof (induction ps arbitrary: k)
  case (Cons p ps)
  show ?case
  proof (cases "if_ifp p = i")
    case True
    then have "if_find ps i = None" using Cons.prems(2) by (intro if_find_notin) auto
    then show ?thesis using True Cons.prems(1) by (auto simp: if_find_def fun_eq_iff)
  next
    case False
    then obtain k' where k: "k = Suc k'" "emfc_iflist_find ps i = Some k'" using Cons.prems(1) by auto
    then show ?thesis using Cons.IH [OF k(2)] Cons.prems(2) False by (auto simp: if_find_def fun_eq_iff)
  qed
qed simp

text \<open>
  The two kinds of reference behave alike: \<open>get\<close> and \<open>upd\<close> are the counter an operation works on,
  \<open>other\<close> the one it leaves alone.
\<close>

locale port_reference =
  fixes get :: "emfc_iflist \<Rightarrow> uint32"
    and upd :: "uint32 \<Rightarrow> emfc_iflist \<Rightarrow> emfc_iflist"
    and other :: "emfc_iflist \<Rightarrow> uint32"
    and add :: "bool \<Rightarrow> emfc_info \<Rightarrow> nat \<Rightarrow> emfc_info \<times> int"
    and del :: "emfc_info \<Rightarrow> nat \<Rightarrow> emfc_info \<times> int"
  assumes upd_laws: "get (upd c p) = c" "other (upd c p) = other p" "if_ifp (upd c p) = if_ifp p"
    and fresh: "get \<lparr>if_ifp = i, uffp_ref = 0, rtport_ref = 0\<rparr> = 0" "other \<lparr>if_ifp = i, uffp_ref = 0, rtport_ref = 0\<rparr> = 0"
    and add_law: "add alloc e i =
      (let e = fst (emfc_iflist_add alloc e i) in
       case emfc_iflist_find (iflist_head e) i of None \<Rightarrow> (e, SUCCESS)
       | Some k \<Rightarrow> (e\<lparr>iflist_head := (iflist_head e)[k := upd (get (iflist_head e ! k) + 1) (iflist_head e ! k)]\<rparr>, SUCCESS))"
    and del_law: "del e i =
      (case emfc_iflist_find (iflist_head e) i of None \<Rightarrow> (e, FAILURE)
       | Some k \<Rightarrow>
         let p = upd (get (iflist_head e ! k) - 1) (iflist_head e ! k);
             e = e\<lparr>iflist_head := (iflist_head e)[k := p]\<rparr>
         in (if get p = 0 \<and> other p = 0 then fst (emfc_iflist_del e i) else e, SUCCESS))"
begin

definition refs :: "emfc_info \<Rightarrow> nat \<Rightarrow> (uint32 \<times> uint32) option" where
  "refs e i = map_option (\<lambda>p. (get p, other p)) (if_find (iflist_head e) i)"

lemma add_refs:
  assumes "distinct (map if_ifp (iflist_head e))" "i \<noteq> 0"
  shows "distinct (map if_ifp (iflist_head (fst (add True e i)))) \<and> snd (add True e i) = SUCCESS \<and>
    refs (fst (add True e i)) = (refs e)(i \<mapsto> (case refs e i of None \<Rightarrow> (1, 0) | Some (c, d) \<Rightarrow> (c + 1, d)))"
proof (cases "emfc_iflist_find (iflist_head e) i")
  case None
  let ?p = "\<lparr>if_ifp = i, uffp_ref = 0, rtport_ref = 0\<rparr>"
  have f: "if_find (iflist_head e) i = None" using None iflist_find_None by simp
  have nin: "i \<notin> if_ifp ` set (iflist_head e)"
    using f by (auto simp: if_find_def find_None_iff)
  have a: "add True e i = (e\<lparr>iflist_head := upd 1 ?p # iflist_head e\<rparr>, SUCCESS)"
    using None assms(2) by (simp add: add_law emfc_iflist_add_def fresh)
  show ?thesis using nin assms f unfolding a
    by (auto simp: refs_def fun_eq_iff upd_laws fresh if_find_def)
next
  case (Some k)
  note k = iflist_find_Some [OF Some]
  define q where "q = upd (get (iflist_head e ! k) + 1) (iflist_head e ! k)"
  have q: "if_ifp q = i" "get q = get (iflist_head e ! k) + 1" "other q = other (iflist_head e ! k)"
    using k(2) by (simp_all add: q_def upd_laws)
  have a: "add True e i = (e\<lparr>iflist_head := (iflist_head e)[k := q]\<rparr>, SUCCESS)"
    using Some assms(2) by (simp add: add_law emfc_iflist_add_def q_def)
  show ?thesis using k(3) k(4,5) [OF q(1)] q assms(1) unfolding a by (auto simp: refs_def fun_eq_iff)
qed

lemma del_refs:
  assumes "distinct (map if_ifp (iflist_head e))" "i \<noteq> 0"
  shows "distinct (map if_ifp (iflist_head (fst (del e i)))) \<and>
    (case refs e i of None \<Rightarrow> del e i = (e, FAILURE)
     | Some (c, d) \<Rightarrow> snd (del e i) = SUCCESS \<and>
         refs (fst (del e i)) = (refs e)(i := if c = 1 \<and> d = 0 then None else Some (c - 1, d)))"
proof (cases "emfc_iflist_find (iflist_head e) i")
  case None
  then show ?thesis using iflist_find_None [of "iflist_head e" i] assms(1) by (simp add: refs_def del_law)
next
  case (Some k)
  note k = iflist_find_Some [OF Some]
  define q where "q = upd (get (iflist_head e ! k) - 1) (iflist_head e ! k)"
  have q: "if_ifp q = i" "get q = get (iflist_head e ! k) - 1" "other q = other (iflist_head e ! k)"
    using k(2) by (simp_all add: q_def upd_laws)
  let ?ps = "(iflist_head e)[k := q]"
  have dist: "distinct (map if_ifp ?ps)" using assms(1) k(5) [OF q(1)] by simp
  have r: "refs e i = Some (get (iflist_head e ! k), other (iflist_head e ! k))" using k(3) by (simp add: refs_def)
  show ?thesis
  proof (cases "get q = 0 \<and> other q = 0")
    case True
    then have d: "del e i = (e\<lparr>iflist_head := take k ?ps @ drop (Suc k) ?ps\<rparr>, SUCCESS)"
      using Some assms(2) k(6) [OF q(1)] by (simp add: del_law emfc_iflist_del_def q_def [symmetric] Let_def)
    have "refs (fst (del e i)) = (refs e)(i := None)"
      using iflist_find_removed [OF k(6) [OF q(1)] dist] k(4) [OF q(1)]
      unfolding d by (auto simp: refs_def fun_eq_iff simp del: take_update_cancel drop_update_cancel)
    then show ?thesis
      using distinct_map_remove_nth [OF dist, of k] True q r unfolding d
      by (simp del: take_update_cancel drop_update_cancel)
  next
    case False
    then have d: "del e i = (e\<lparr>iflist_head := ?ps\<rparr>, SUCCESS)"
      using Some by (auto simp: del_law q_def [symmetric] Let_def)
    show ?thesis using False dist q r k(4) [OF q(1)] unfolding d by (auto simp: refs_def fun_eq_iff)
  qed
qed

end

interpretation uffp: port_reference uffp_ref "\<lambda>c p. p\<lparr>uffp_ref := c\<rparr>" rtport_ref emfc_uffp_add emfc_uffp_del
  by unfold_locales (simp_all add: emfc_uffp_add_def emfc_uffp_del_def)

interpretation rtport: port_reference rtport_ref "\<lambda>c p. p\<lparr>rtport_ref := c\<rparr>" uffp_ref emfc_rtport_add emfc_rtport_del
  by unfold_locales (simp_all add: emfc_rtport_add_def emfc_rtport_del_def)

definition port_refs :: "emfc_info \<Rightarrow> nat \<Rightarrow> (uint32 \<times> uint32) option" where
  "port_refs e i = map_option (\<lambda>p. (uffp_ref p, rtport_ref p)) (if_find (iflist_head e) i)"

lemma refs_port_refs:
  "uffp.refs = port_refs" "rtport.refs = (\<lambda>e i. map_option (\<lambda>(u, r). (r, u)) (port_refs e i))"
  by (auto simp: fun_eq_iff uffp.refs_def rtport.refs_def port_refs_def option.map_comp comp_def)

text \<open>The interface list counts references per port and kind. Adding a flooding port counts
  up and creates the entry when it is missing; deleting counts down, fails for an unknown
  interface, and drops the entry when both counts are 0. A deletion does not look whether the
  count is already 0: then it succeeds and leaves the count \<open>2\<^sup>3\<^sup>2 - 1\<close>, so that the port takes
  unregistered frames from then on. Router ports behave alike.\<close>

lemma port_reference_counts:
  assumes "distinct (map if_ifp (iflist_head e))" "i \<noteq> 0"
  shows "port_refs (fst (emfc_uffp_add True e i)) =
      (port_refs e)(i \<mapsto> (case port_refs e i of None \<Rightarrow> (1, 0) | Some (u, r) \<Rightarrow> (u + 1, r))) \<and>
    (case port_refs e i of None \<Rightarrow> emfc_uffp_del e i = (e, FAILURE)
     | Some (u, r) \<Rightarrow> snd (emfc_uffp_del e i) = SUCCESS \<and>
         port_refs (fst (emfc_uffp_del e i)) =
           (port_refs e)(i := if u = 1 \<and> r = 0 then None else Some (if u = 0 then 2 ^ 32 - 1 else u - 1, r))) \<and>
    port_refs (fst (emfc_rtport_add True e i)) =
      (port_refs e)(i \<mapsto> (case port_refs e i of None \<Rightarrow> (0, 1) | Some (u, r) \<Rightarrow> (u, r + 1)))"
proof (intro conjI)
  note u = uffp.add_refs [OF assms, unfolded refs_port_refs] uffp.del_refs [OF assms, unfolded refs_port_refs]
  show "port_refs (fst (emfc_uffp_add True e i)) =
      (port_refs e)(i \<mapsto> (case port_refs e i of None \<Rightarrow> (1, 0) | Some (u, r) \<Rightarrow> (u + 1, r)))"
    using u(1) by blast
  have z: "(if c = 0 then 2 ^ 32 - 1 else c - 1) = c - 1" for c :: uint32 by simp
  show "case port_refs e i of None \<Rightarrow> emfc_uffp_del e i = (e, FAILURE)
     | Some (u, r) \<Rightarrow> snd (emfc_uffp_del e i) = SUCCESS \<and>
         port_refs (fst (emfc_uffp_del e i)) =
           (port_refs e)(i := if u = 1 \<and> r = 0 then None else Some (if u = 0 then 2 ^ 32 - 1 else u - 1, r))"
    using u(2) unfolding z by blast
  have "map_option (\<lambda>(u, r). (r, u)) (port_refs (fst (emfc_rtport_add True e i)) j) =
      map_option (\<lambda>(u, r). (r, u)) (((port_refs e)(i \<mapsto> (case port_refs e i of None \<Rightarrow> (0, 1) | Some (u, r) \<Rightarrow> (u, r + 1)))) j)" for j
    using fun_cong [OF conjunct2 [OF conjunct2 [OF rtport.add_refs [OF assms]]], of j]
    by (auto simp: refs_port_refs split: option.splits)
  moreover have "inj (map_option (\<lambda>(u :: uint32, r :: uint32). (r, u)))"
    by (rule option.inj_map) (auto simp: inj_on_def)
  ultimately show "port_refs (fst (emfc_rtport_add True e i)) =
      (port_refs e)(i \<mapsto> (case port_refs e i of None \<Rightarrow> (0, 1) | Some (u, r) \<Rightarrow> (u, r + 1)))"
    by (intro ext) (blast dest: injD)
qed

lemma port_reference_counts_witness:
  "port_refs (fst (emfc_uffp_del ex_base 8)) 8 = Some (2 ^ 32 - 1, 0)"
  using port_reference_counts [of ex_base 8] by (simp add: ex_base_def port_refs_def if_find_def)

subsection \<open>Runs\<close>

text \<open>
  An instance runs by frames and configuration requests. A request's allocations are fresh
  addresses, its group is not 0, and its reference count does not overflow; the callbacks of a
  registered snooper keep the instance well formed.
\<close>

definition keeps_inv :: "(emfc_info \<Rightarrow> emfc_info option) \<Rightarrow> bool" where
  "keeps_inv f \<longleftrightarrow> (\<forall>e. emf_inv e \<longrightarrow> (\<exists>e'. f e = Some e' \<and> emf_inv e'))"

definition cfg_pre :: "cfg_env \<Rightarrow> emfc_info \<Rightarrow> emf_cfg_request \<Rightarrow> bool" where
  "cfg_pre v e c \<longleftrightarrow> keeps_inv (enable_fn v) \<and> keeps_inv (disable_fn v) \<and> arg_ip c \<noteq> 0 \<and> arg_if c \<noteq> 0 \<and>
     alloc_ready (cfg_alloc v) e \<and> Suc (mfdb_refs e (arg_ip c) (arg_if c)) < 2 ^ 32"

inductive emf_reach :: "emfc_info \<Rightarrow> bool" where
  start: "emf_reach (emfc_mfdb_init emfc_zero)"
| config: "emf_reach e \<Longrightarrow> cfg_pre v e c \<Longrightarrow> emfc_cfg_request_process v e c = Some (e', c') \<Longrightarrow> emf_reach e'"
| frame: "emf_reach e \<Longrightarrow> snooper_ok f e ifp iph rt \<Longrightarrow>
    emfc_input f v e ifp iph rt = Some (e', evs, r) \<Longrightarrow> emf_reach e'"
| snooper: "emf_reach e \<Longrightarrow> emf_reach (e\<lparr>has_snooper := b\<rparr>)"

lemma emf_inv_snooper: "emf_inv (e\<lparr>has_snooper := b\<rparr>) = emf_inv e" "emf_inv (e\<lparr>emf_enable := b\<rparr>) = emf_inv e"
  by (auto intro!: emf_inv_cong simp: same_tables_def)

lemma mfdb_init_zero: "emfc_mfdb_init emfc_zero = emfc_zero"
  by (intro emfc_info.equality) (auto simp: emfc_mfdb_init_def emfc_zero_def)

lemma emf_inv_start: "emf_inv (emfc_mfdb_init emfc_zero)"
  unfolding mfdb_init_zero using mfdb_inv_init(1) by (simp add: emf_inv_def) (simp add: emfc_zero_def)

lemma clear_chain_enable: "clear_chain e i ps = Some e' \<Longrightarrow> emf_enable e' = emf_enable e"
  by (induction e i ps rule: clear_chain.induct) (auto split: option.splits)

lemma clear_chains_enable: "clear_chains e is = Some e' \<Longrightarrow> emf_enable e' = emf_enable e"
  by (induction e "is" rule: clear_chains.induct) (auto split: option.splits dest: clear_chain_enable)

lemma clear_keeps_enable: "emfc_mfdb_clear e = Some e' \<Longrightarrow> emf_enable e' = emf_enable e"
  by (auto simp: emfc_mfdb_clear_def split: option.splits dest: clear_chains_enable)

lemma clear_inv: "emf_inv e \<Longrightarrow> \<exists>e'. emfc_mfdb_clear e = Some e' \<and> emf_inv e' \<and> mfdb_refs e' = (\<lambda>_ _. 0)"
  using mfdb_clear_refs [of e] by (auto simp: emf_inv_def)

lemma iflist_only_inv:
  assumes "emf_inv e" "e' = e\<lparr>iflist_head := iflist_head e'\<rparr>" "distinct (map if_ifp (iflist_head e'))"
  shows "emf_inv e'"
proof -
  have f: "mgrp_fdb e' = mgrp_fdb e" "mgrp_mem e' = mgrp_mem e" "mgrp_cache e' = mgrp_cache e"
    "mgrp_cache_ip e' = mgrp_cache_ip e" "mhif_head e' = mhif_head e" by (subst assms(2), simp)+
  then have "mis_ok e' = mis_ok e" by (simp add: fun_eq_iff mis_ok_def)
  then show ?thesis using assms(1,3) unfolding emf_inv_def mfdb_inv_def f by simp
qed

lemma cfg_enable_inv:
  assumes "emf_inv e" "keeps_inv (enable_fn v)" "keeps_inv (disable_fn v)"
  shows "\<exists>e' c'. emfc_cfg_emf_enable v e c = Some (e', c') \<and> emf_inv e' \<and>
    (oper_type c = 2 \<and> emf_enable e \<and> \<not> arg_bool c \<longrightarrow> iflist_head e' = [] \<and> mfdb_refs e' = (\<lambda>_ _. 0))"
proof -
  have dis: "\<exists>e1 e2. (if has_snooper e' then disable_fn v e' else Some e') = Some e1 \<and> emfc_mfdb_clear e1 = Some e2 \<and>
      emf_inv (emfc_iflist_clear e2) \<and> iflist_head (emfc_iflist_clear e2) = [] \<and>
      mfdb_refs (emfc_iflist_clear e2) = (\<lambda>_ _. 0)" if i: "emf_inv e'" for e'
  proof -
    obtain e1 where e1: "(if has_snooper e' then disable_fn v e' else Some e') = Some e1" "emf_inv e1"
      using i assms(3) by (cases "has_snooper e'") (auto simp: keeps_inv_def)
    obtain e2 where e2: "emfc_mfdb_clear e1 = Some e2" "emf_inv e2" "mfdb_refs e2 = (\<lambda>_ _. 0)"
      using clear_inv [OF e1(2)] by blast
    have "emf_inv (emfc_iflist_clear e2)" by (rule iflist_only_inv [OF e2(2)]) (simp_all add: emfc_iflist_clear_def)
    moreover have "mfdb_refs (emfc_iflist_clear e2) = mfdb_refs e2"
      by (intro ext) (simp add: mfdb_refs_def emfc_iflist_clear_def split: option.splits)
    ultimately show ?thesis using e1(1) e2 by (auto simp: emfc_iflist_clear_def)
  qed
  have en: "\<exists>e1. (if has_snooper e' then enable_fn v e' else Some e') = Some e1 \<and> emf_inv e1" if "emf_inv e'" for e'
    using that assms(2) by (auto simp: keeps_inv_def)
  have upd: "emf_inv (e\<lparr>emf_enable := b\<rparr>)" for b using assms(1) by (simp add: emf_inv_snooper)
  show ?thesis
    using assms(1) en [OF upd [of True]] dis [OF upd [of False]] upd [of True]
    by (cases "arg_bool c") (auto simp: emfc_cfg_emf_enable_def Let_def)
qed

lemma port_ops_inv:
  assumes "emf_inv e" "i \<noteq> 0"
  shows "emf_inv (fst (emfc_uffp_add b e i))" "emf_inv (fst (emfc_rtport_add b e i))"
    "emf_inv (fst (emfc_uffp_del e i))" "emf_inv (fst (emfc_rtport_del e i))"
proof -
  have d: "distinct (map if_ifp (iflist_head e))" using assms(1) by (simp add: emf_inv_def)
  have only: "fst x = e\<lparr>iflist_head := iflist_head (fst x)\<rparr>"
    if "x \<in> {emfc_uffp_add b e i, emfc_rtport_add b e i, emfc_uffp_del e i, emfc_rtport_del e i}" for x
    using that by (auto simp: emfc_uffp_add_def emfc_rtport_add_def emfc_uffp_del_def emfc_rtport_del_def
        emfc_iflist_add_def emfc_iflist_del_def Let_def split: option.splits)
  have noalloc: "map if_ifp (iflist_head (fst (emfc_uffp_add False e i))) = map if_ifp (iflist_head e)"
    "map if_ifp (iflist_head (fst (emfc_rtport_add False e i))) = map if_ifp (iflist_head e)"
    using iflist_find_Some [of "iflist_head e" i]
    by (auto simp: emfc_uffp_add_def emfc_rtport_add_def emfc_iflist_add_def Let_def split: option.splits)
  have a: "distinct (map if_ifp (iflist_head (fst (emfc_uffp_add b e i))))"
    "distinct (map if_ifp (iflist_head (fst (emfc_rtport_add b e i))))"
    using uffp.add_refs [OF d assms(2)] rtport.add_refs [OF d assms(2)] noalloc d by (cases b; simp)+
  show "emf_inv (fst (emfc_uffp_add b e i))" by (rule iflist_only_inv [OF assms(1) only a(1)]) simp
  show "emf_inv (fst (emfc_rtport_add b e i))" by (rule iflist_only_inv [OF assms(1) only a(2)]) simp
  show "emf_inv (fst (emfc_uffp_del e i))"
    by (rule iflist_only_inv [OF assms(1) only]) (use uffp.del_refs [OF d assms(2)] in auto)
  show "emf_inv (fst (emfc_rtport_del e i))"
    by (rule iflist_only_inv [OF assms(1) only]) (use rtport.del_refs [OF d assms(2)] in auto)
qed

lemma cfg_request_inv:
  assumes inv: "emf_inv e" and pre: "cfg_pre v e c"
  shows "\<exists>e' c'. emfc_cfg_request_process v e c = Some (e', c') \<and> emf_inv e'"
proof -
  have m: "mfdb_inv e" and d: "distinct (map if_ifp (iflist_head e))" using inv by (simp_all add: emf_inv_def)
  have p: "keeps_inv (enable_fn v)" "keeps_inv (disable_fn v)" "arg_ip c \<noteq> 0" "arg_if c \<noteq> 0"
    "ok_mhif (cfg_alloc v)" "mgrp_mem e (new_mgrp (cfg_alloc v)) = None" "Suc (mfdb_refs e (arg_ip c) (arg_if c)) < 2 ^ 32"
    using pre by (auto simp: cfg_pre_def alloc_ready_def)
  have add: "\<exists>r. emfc_mfdb_membership_add (cfg_alloc v) e (arg_ip c) (arg_if c) = Some r \<and> emf_inv (fst r)"
    using membership_add_refs [OF m p(3,5,6,7)] d by (auto simp: emf_inv_def)
  have del: "\<exists>r. emfc_mfdb_membership_del e (arg_ip c) (arg_if c) = Some r \<and> emf_inv (fst r)"
    using membership_del_refs [OF m p(3)] d by (fastforce simp: emf_inv_def)
  show ?thesis
    using cfg_enable_inv [OF inv p(1,2), of c] add del clear_inv [OF inv] port_ops_inv [OF inv p(4)] inv
    unfolding emfc_cfg_request_process_def by (auto simp: cfg_result_def)
qed

lemma emf_reach_inv: "emf_reach e \<Longrightarrow> emf_inv e"
proof (induction rule: emf_reach.induct)
  case start
  show ?case by (rule emf_inv_start)
next
  case (config e v c e' c')
  then show ?case using cfg_request_inv [of e v c] by auto
next
  case (frame e f ifp iph rt v e' evs r)
  have "20 \<le> length iph" using frame.hyps(3) by (auto simp: emfc_input_def split: if_splits)
  then show ?case using emfc_input_owned [of e iph f ifp rt v] frame by (auto simp: owned_def)
next
  case (snooper e b)
  then show ?case by (simp add: emf_inv_snooper)
qed



text \<open>Disabling. A request that turns forwarding off in a reachable state empties the database
  and the interface list and reports success; from then on every frame is handed back to the
  bridge untouched. Repeating it is refused as a duplicate.\<close>

lemma emf_disable_clears:
  assumes "emf_reach e" "cfg_pre v e c" "command_id c = 1" "oper_type c = 2" "emf_enable e" "\<not> arg_bool c"
    "\<not> has_snooper e"
  shows "\<exists>e' c'. emfc_cfg_request_process v e c = Some (e', c') \<and> status c' = EMFCFG_STATUS_SUCCESS \<and>
    \<not> emf_enable e' \<and> iflist_head e' = [] \<and> mfdb_refs e' = (\<lambda>_ _. 0) \<and>
    (20 \<le> length iph \<longrightarrow> emfc_input f w e' ifp iph rt = Some (e', [], EMF_NOP)) \<and>
    (\<exists>c''. emfc_cfg_request_process v e' c = Some (e', c'') \<and> status c'' = EMFCFG_STATUS_FAILURE)"
proof -
  have inv: "emf_inv e" by (rule emf_reach_inv [OF assms(1)])
  have k: "keeps_inv (enable_fn v)" "keeps_inv (disable_fn v)" using assms(2) by (simp_all add: cfg_pre_def)
  obtain e' c' where r: "emfc_cfg_emf_enable v e c = Some (e', c')" "iflist_head e' = []" "mfdb_refs e' = (\<lambda>_ _. 0)"
    using cfg_enable_inv [OF inv k, of c] assms by auto
  obtain e2 where cl: "emfc_mfdb_clear (e\<lparr>emf_enable := False\<rparr>) = Some e2" "emf_enable e2 = False"
    using clear_keeps_enable [of "e\<lparr>emf_enable := False\<rparr>"] clear_inv [of "e\<lparr>emf_enable := False\<rparr>"] inv
    by (auto simp: emf_inv_snooper)
  have st: "status c' = EMFCFG_STATUS_SUCCESS" "\<not> emf_enable e'"
    using r(1) cl assms by (auto simp: emfc_cfg_emf_enable_def Let_def emfc_iflist_clear_def)
  have dup: "emfc_cfg_request_process v e' c = Some (e', cfg_msg EMFCFG_STATUS_FAILURE 0 (''Duplicate configuration request'' @ [CHR 0x0A]) c)"
    using st assms by (simp add: emfc_cfg_request_process_def emfc_cfg_emf_enable_def)
  show ?thesis
    using r st dup assms by (auto simp: emfc_cfg_request_process_def emfc_input_def Let_def cfg_msg_def)
qed

text \<open>A request that enables (\<open>True\<close>) or disables forwarding, and an environment for it.\<close>

definition ex_cfg :: "bool \<Rightarrow> emf_cfg_request" where
  "ex_cfg b = \<lparr>command_id = 1, oper_type = 2, status = 0, cfg_size = 1, arg_bool = b, arg_ip = 1, arg_if = 1,
     arg_out = OutNone\<rparr>"

definition ex_cenv :: cfg_env where
  "ex_cenv = \<lparr>hooks_ok = True, enable_fn = Some, disable_fn = Some, cfg_alloc = alloc_ex, if_alloc = True\<rparr>"

lemma emf_disable_clears_witness:
  "\<exists>e. emf_reach e \<and> emf_enable e \<and>
     (\<exists>e' c'. emfc_cfg_request_process ex_cenv e (ex_cfg False) = Some (e', c') \<and> \<not> emf_enable e')"
proof -
  let ?z = "emfc_mfdb_init emfc_zero" and ?e = "(emfc_mfdb_init emfc_zero)\<lparr>emf_enable := True\<rparr>"
  note z = mfdb_init_zero
  have refs: "mfdb_refs ?z = (\<lambda>_ _. 0)" "mfdb_refs ?e = (\<lambda>_ _. 0)"
    using mfdb_inv_init(2) same_tables_inv(2) [of emfc_zero "emfc_zero\<lparr>emf_enable := True\<rparr>"]
    by (simp_all add: z same_tables_def)
  have pre: "cfg_pre ex_cenv ?z (ex_cfg b)" "cfg_pre ex_cenv ?e (ex_cfg b)" for b
    unfolding cfg_pre_def keeps_inv_def refs
    by (simp_all add: emfc_mfdb_init_def ex_cenv_def ex_cfg_def alloc_ready_def alloc_ex_def emfc_zero_def)
  have on: "emfc_cfg_request_process ex_cenv ?z (ex_cfg True) = Some (?e, (ex_cfg True)\<lparr>status := EMFCFG_STATUS_SUCCESS\<rparr>)"
    by (simp add: emfc_cfg_request_process_def emfc_cfg_emf_enable_def ex_cfg_def ex_cenv_def emfc_mfdb_init_def emfc_zero_def)
  have r: "emf_reach ?e" by (rule emf_reach.config [OF emf_reach.start pre(1) on])
  show ?thesis
    using r emf_disable_clears [OF r pre(2), of False "[]" "\<lambda>_ _ _ _. None" undefined 0 False]
    by (auto simp: ex_cfg_def emfc_mfdb_init_def emfc_zero_def)
qed

end
