(* ===== verification/Igsdb.thy ===== *)
theory Igsdb
  imports Emfc
begin

text \<open>
  The IGMP snooping database of \<^verbatim>\<open>emf/igs/igsc_sdb.c\<close>: which hosts behind which interface are
  members of which group, kept beside the forwarding database it drives, and the one-shot timers of
  \<^verbatim>\<open>emf/igs/osl_linux.c\<close> that end memberships.

  A group entry holds its list of host entries and its list of interface entries; it is named by
  its group address, an interface entry by its interface (both are unique, as the invariant
  shows). A host entry has an address, which also names its timer. An armed timer is a host
  address with its interval (the timers of router entries are kept apart); an operation on a timer that is not live is a use after free and has
  the result \<open>None\<close>. The build without \<open>MEDIAROOM_IGMP_WAR\<close> is modelled.
\<close>

subsection \<open>State\<close>

record igsc_mi =
  si_ifp :: nat
  si_ref :: uint32

record igsc_mh =
  mh_addr :: nat
  mh_ip :: uint32
  mh_mi :: nat

record igsc_mgrp =
  sg_ip :: uint32
  mh_head :: "igsc_mh list"
  si_head :: "igsc_mi list"

record igs_stats =
  igmp_packets :: uint32
  igmp_queries :: uint32
  igmp_reports :: uint32
  igmp_v2reports :: uint32
  igmp_leaves :: uint32
  igmp_not_handled :: uint32
  igmp_mem_timeouts :: uint32
  igs_frames_fwd :: uint32
  igs_frames_sentup :: uint32
  igmp_mcast_groups :: uint32
  igmp_mcast_members :: uint32

record igsc_rtlist =
  rt_addr :: nat
  rt_ifp :: nat
  mr_ip :: uint32

record igsc_info =
  mgrp_sdb :: "nat \<Rightarrow> igsc_mgrp list"
  emf_handle :: emfc_info
  grp_mem_intv :: uint32
  query_intv :: uint32
  rtlist_head :: "igsc_rtlist list"
  igs_stats :: igs_stats
  timers :: "nat \<Rightarrow> uint32 option"
  rt_timers :: "nat \<Rightarrow> uint32 option"

definition IGSDB_HASHT_SIZE :: nat where "IGSDB_HASHT_SIZE = 8"

definition IGSDB_MGRP_HASH :: "uint32 \<Rightarrow> nat" where
  "IGSDB_MGRP_HASH m =
     unat ((drop_bit 24 m + drop_bit 16 m + drop_bit 8 m + (m AND 0xff)) AND 7)"

definition IGSC_STATS_INCR :: "((uint32 \<Rightarrow> uint32) \<Rightarrow> igs_stats \<Rightarrow> igs_stats) \<Rightarrow> igsc_info \<Rightarrow> igsc_info" where
  "IGSC_STATS_INCR member s = s\<lparr>igs_stats := member (\<lambda>c. c + 1) (igs_stats s)\<rparr>"

definition IGSC_STATS_DECR :: "((uint32 \<Rightarrow> uint32) \<Rightarrow> igs_stats \<Rightarrow> igs_stats) \<Rightarrow> igsc_info \<Rightarrow> igsc_info" where
  "IGSC_STATS_DECR member s = s\<lparr>igs_stats := member (\<lambda>c. c - 1) (igs_stats s)\<rparr>"

definition igsc_sdb_init :: "igsc_info \<Rightarrow> igsc_info" where
  "igsc_sdb_init s = s\<lparr>mgrp_sdb := \<lambda>i. if i < IGSDB_HASHT_SIZE then [] else mgrp_sdb s i\<rparr>"

subsection \<open>Timers\<close>

text \<open>Arming a new timer, re-arming one and deleting one; the latter two need it to be live.\<close>

definition osl_timer_add :: "nat \<Rightarrow> uint32 \<Rightarrow> igsc_info \<Rightarrow> igsc_info" where
  "osl_timer_add t ms s = s\<lparr>timers := (timers s)(t \<mapsto> ms)\<rparr>"

definition osl_timer_update :: "nat \<Rightarrow> uint32 \<Rightarrow> igsc_info \<Rightarrow> igsc_info option" where
  "osl_timer_update t ms s = (if timers s t = None then None else Some (s\<lparr>timers := (timers s)(t \<mapsto> ms)\<rparr>))"

definition osl_timer_del :: "nat \<Rightarrow> igsc_info \<Rightarrow> igsc_info option" where
  "osl_timer_del t s = (if timers s t = None then None else Some (s\<lparr>timers := (timers s)(t := None)\<rparr>))"

subsection \<open>Lookup\<close>

definition igsc_sdb_group_find :: "igsc_info \<Rightarrow> uint32 \<Rightarrow> igsc_mgrp option" where
  "igsc_sdb_group_find s ip = find (\<lambda>g. ip = sg_ip g) (mgrp_sdb s (IGSDB_MGRP_HASH ip))"

definition igsc_sdb_mh_entry_find :: "igsc_mgrp \<Rightarrow> uint32 \<Rightarrow> nat \<Rightarrow> igsc_mh option" where
  "igsc_sdb_mh_entry_find g host ifp = find (\<lambda>m. host = mh_ip m \<and> ifp = mh_mi m) (mh_head g)"

definition igsc_sdb_mi_entry_find :: "igsc_mgrp \<Rightarrow> nat \<Rightarrow> igsc_mi option" where
  "igsc_sdb_mi_entry_find g ifp = find (\<lambda>i. ifp = si_ifp i) (si_head g)"

definition igsc_sdb_member_find :: "igsc_info \<Rightarrow> uint32 \<Rightarrow> uint32 \<Rightarrow> nat \<Rightarrow> (igsc_mgrp \<times> igsc_mh) option" where
  "igsc_sdb_member_find s ip host ifp =
     (case igsc_sdb_group_find s ip of None \<Rightarrow> None
      | Some g \<Rightarrow> map_option (Pair g) (igsc_sdb_mh_entry_find g host ifp))"

subsection \<open>Changing entries\<close>

text \<open>Writing a group entry back, taking it off its chain, linking a new one at the head.\<close>

definition put_group :: "igsc_mgrp \<Rightarrow> igsc_info \<Rightarrow> igsc_info" where
  "put_group g s = (let h = IGSDB_MGRP_HASH (sg_ip g) in
     s\<lparr>mgrp_sdb := (mgrp_sdb s)(h := map (\<lambda>x. if sg_ip x = sg_ip g then g else x) (mgrp_sdb s h))\<rparr>)"

definition unlink_group :: "uint32 \<Rightarrow> igsc_info \<Rightarrow> igsc_info" where
  "unlink_group ip s = (let h = IGSDB_MGRP_HASH ip in
     s\<lparr>mgrp_sdb := (mgrp_sdb s)(h := filter (\<lambda>x. sg_ip x \<noteq> ip) (mgrp_sdb s h))\<rparr>)"

definition new_group :: "igsc_mgrp \<Rightarrow> igsc_info \<Rightarrow> igsc_info" where
  "new_group g s = (let h = IGSDB_MGRP_HASH (sg_ip g) in
     s\<lparr>mgrp_sdb := (mgrp_sdb s)(h := g # mgrp_sdb s h)\<rparr>)"

definition set_ref :: "nat \<Rightarrow> uint32 \<Rightarrow> igsc_mgrp \<Rightarrow> igsc_mgrp" where
  "set_ref ifp r g = g\<lparr>si_head := map (\<lambda>i. if si_ifp i = ifp then i\<lparr>si_ref := r\<rparr> else i) (si_head g)\<rparr>"

definition del_mi :: "nat \<Rightarrow> igsc_mgrp \<Rightarrow> igsc_mgrp" where
  "del_mi ifp g = g\<lparr>si_head := filter (\<lambda>i. si_ifp i \<noteq> ifp) (si_head g)\<rparr>"

definition del_mh :: "igsc_mh \<Rightarrow> igsc_mgrp \<Rightarrow> igsc_mgrp" where
  "del_mh mh g = g\<lparr>mh_head := filter (\<lambda>m. mh_addr m \<noteq> mh_addr mh) (mh_head g)\<rparr>"

definition add_mh :: "igsc_mh \<Rightarrow> igsc_mgrp \<Rightarrow> igsc_mgrp" where
  "add_mh mh g = g\<lparr>mh_head := mh # mh_head g\<rparr>"

text \<open>
  \<open>igsc_sdb_mh_delete\<close>: with the last host of the interface goes the membership in the
  forwarding database and the interface entry; when the forwarding database refuses, the routine
  returns with the count already at 0.
\<close>

definition igsc_sdb_mh_delete :: "igsc_info \<Rightarrow> igsc_mgrp \<Rightarrow> igsc_mh \<Rightarrow> igsc_info option" where
  "igsc_sdb_mh_delete s g mh =
     (case igsc_sdb_mi_entry_find g (mh_mi mh) of None \<Rightarrow> None
      | Some mi \<Rightarrow>
        let r = si_ref mi - 1; g = set_ref (mh_mi mh) r g;
            finish = (\<lambda>s g.
              let g = del_mh mh g; s = IGSC_STATS_DECR igmp_mcast_members_update s
              in if mh_head g = [] then IGSC_STATS_DECR igmp_mcast_groups_update (unlink_group (sg_ip g) s)
                 else put_group g s)
        in if r = 0
           then (case emfc_mfdb_membership_del (emf_handle s) (sg_ip g) (si_ifp mi) of None \<Rightarrow> None
                 | Some (e, ret) \<Rightarrow>
                   let s = s\<lparr>emf_handle := e\<rparr> in
                   if ret \<noteq> SUCCESS then Some (put_group g s)
                   else Some (finish s (del_mi (mh_mi mh) g)))
           else Some (finish s g))"

text \<open>The timer of the host entry at address \<open>a\<close> of the group \<open>ip\<close> fires: \<open>osl_timer\<close> disarms it,
  calls \<open>igsc_sdb_timer\<close> and frees it.\<close>

definition igsc_sdb_timer :: "igsc_info \<Rightarrow> uint32 \<Rightarrow> nat \<Rightarrow> igsc_info option" where
  "igsc_sdb_timer s ip a =
     (case igsc_sdb_group_find s ip of None \<Rightarrow> None
      | Some g \<Rightarrow>
        (case find (\<lambda>m. mh_addr m = a) (mh_head g) of None \<Rightarrow> None
         | Some mh \<Rightarrow> igsc_sdb_mh_delete (IGSC_STATS_INCR igmp_mem_timeouts_update s) g mh))"

definition osl_timer :: "igsc_info \<Rightarrow> uint32 \<Rightarrow> nat \<Rightarrow> igsc_info option" where
  "osl_timer s ip a = igsc_sdb_timer (s\<lparr>timers := (timers s)(a := None)\<rparr>) ip a"

text \<open>The allocations of an addition: group, host (with its address), timer, interface entry.\<close>

record sdb_alloc =
  ok_grp :: bool
  new_mh :: "nat option"
  ok_timer :: bool
  ok_if :: bool
  emf_al :: emf_alloc

text \<open>The clean-up at \<open>sdb_add_exit1\<close>: an empty group entry is taken off.\<close>

definition add_exit1 :: "igsc_mgrp \<Rightarrow> igsc_info \<Rightarrow> igsc_info \<times> int" where
  "add_exit1 g s = (if mh_head g = [] then unlink_group (sg_ip g) s else s, FAILURE)"

text \<open>From the allocation of the host entry on, with the group entry \<open>g\<close> linked.\<close>

definition add_host :: "sdb_alloc \<Rightarrow> igsc_info \<Rightarrow> igsc_mgrp \<Rightarrow> nat \<Rightarrow> uint32 \<Rightarrow> (igsc_info \<times> int) option" where
  "add_host al s g ifp host =
     (case new_mh al of None \<Rightarrow> Some (add_exit1 g s)
      | Some a \<Rightarrow>
        let s = IGSC_STATS_INCR igmp_mcast_members_update s in
        if \<not> ok_timer al then Some (add_exit1 g s)
        else
          let s = osl_timer_add a (grp_mem_intv s) s;
              mh = \<lparr>mh_addr = a, mh_ip = host, mh_mi = ifp\<rparr>;
              fail = (\<lambda>s. map_option (add_exit1 g) (osl_timer_del a s))
          in case igsc_sdb_mi_entry_find g ifp of
               Some mi \<Rightarrow> Some (put_group (add_mh mh (set_ref ifp (si_ref mi + 1) g)) s, SUCCESS)
             | None \<Rightarrow>
               (case emfc_mfdb_membership_add (emf_al al) (emf_handle s) (sg_ip g) ifp of None \<Rightarrow> None
                | Some (e, ret) \<Rightarrow>
                  let s = s\<lparr>emf_handle := e\<rparr> in
                  if ret \<noteq> SUCCESS then fail s
                  else if \<not> ok_if al
                  then (case emfc_mfdb_membership_del (emf_handle s) (sg_ip g) ifp of None \<Rightarrow> None
                        | Some (e, ret) \<Rightarrow> fail (s\<lparr>emf_handle := e\<rparr>))
                  else Some (put_group (add_mh mh (g\<lparr>si_head := \<lparr>si_ifp = ifp, si_ref = 1\<rparr> # si_head g\<rparr>)) s,
                             SUCCESS)))"

definition igsc_sdb_member_add ::
  "sdb_alloc \<Rightarrow> igsc_info \<Rightarrow> nat \<Rightarrow> uint32 \<Rightarrow> uint32 \<Rightarrow> (igsc_info \<times> int) option" where
  "igsc_sdb_member_add al s ifp ip host =
     (case igsc_sdb_group_find s ip of
        None \<Rightarrow>
          if \<not> ok_grp al then Some (s, FAILURE)
          else let g = \<lparr>sg_ip = ip, mh_head = [], si_head = []\<rparr>
               in add_host al (IGSC_STATS_INCR igmp_mcast_groups_update (new_group g s)) g ifp host
      | Some g \<Rightarrow>
        (case igsc_sdb_mh_entry_find g host ifp of
           Some mh \<Rightarrow> map_option (\<lambda>s. (s, SUCCESS)) (osl_timer_update (mh_addr mh) (grp_mem_intv s) s)
         | None \<Rightarrow> add_host al s g ifp host))"

definition igsc_sdb_member_del :: "igsc_info \<Rightarrow> nat \<Rightarrow> uint32 \<Rightarrow> uint32 \<Rightarrow> (igsc_info \<times> int) option" where
  "igsc_sdb_member_del s ifp ip host =
     (case igsc_sdb_member_find s ip host ifp of None \<Rightarrow> Some (s, FAILURE)
      | Some (g, mh) \<Rightarrow>
        (case osl_timer_del (mh_addr mh) s of None \<Rightarrow> None
         | Some s \<Rightarrow> map_option (\<lambda>s. (s, SUCCESS)) (igsc_sdb_mh_delete s g mh)))"

text \<open>
  The loop body \<open>igsc_sdb_clear\<close> and \<open>igsc_sdb_interface_del\<close> share: one host entry goes, the
  result of the forwarding database is not looked at and the member count is not decremented.
\<close>

definition drop_host :: "igsc_mh \<Rightarrow> igsc_info \<times> igsc_mgrp \<Rightarrow> (igsc_info \<times> igsc_mgrp) option" where
  "drop_host mh sg =
     (case igsc_sdb_mi_entry_find (snd sg) (mh_mi mh) of None \<Rightarrow> None
      | Some mi \<Rightarrow>
        let r = si_ref mi - 1; s = fst sg; g = set_ref (mh_mi mh) r (snd sg) in
        (case (if r = 0
               then map_option (\<lambda>er. (s\<lparr>emf_handle := fst er\<rparr>, del_mi (mh_mi mh) g))
                      (emfc_mfdb_membership_del (emf_handle s) (sg_ip g) (si_ifp mi))
               else Some (s, g)) of None \<Rightarrow> None
         | Some (s, g) \<Rightarrow> map_option (\<lambda>s. (s, del_mh mh g)) (osl_timer_del (mh_addr mh) s)))"

fun drop_hosts :: "(igsc_mh \<Rightarrow> bool) \<Rightarrow> igsc_mh list \<Rightarrow> igsc_info \<times> igsc_mgrp \<Rightarrow> (igsc_info \<times> igsc_mgrp) option" where
  "drop_hosts P [] sg = Some sg"
| "drop_hosts P (mh # ms) sg =
     (if \<not> P mh then drop_hosts P ms sg
      else case drop_host mh sg of None \<Rightarrow> None | Some sg \<Rightarrow> drop_hosts P ms sg)"

text \<open>One group entry: its hosts that satisfy \<open>P\<close>, then the entry itself when no host is left.\<close>

definition drop_in_group :: "(igsc_mh \<Rightarrow> bool) \<Rightarrow> igsc_mgrp \<Rightarrow> igsc_info \<Rightarrow> igsc_info option" where
  "drop_in_group P g s =
     (case drop_hosts P (mh_head g) (s, g) of None \<Rightarrow> None
      | Some (s, g) \<Rightarrow> Some (if mh_head g = [] then unlink_group (sg_ip g) s else put_group g s))"

fun drop_in_groups :: "(igsc_mh \<Rightarrow> bool) \<Rightarrow> igsc_mgrp list \<Rightarrow> igsc_info \<Rightarrow> igsc_info option" where
  "drop_in_groups P [] s = Some s"
| "drop_in_groups P (g # gs) s =
     (case drop_in_group P g s of None \<Rightarrow> None | Some s \<Rightarrow> drop_in_groups P gs s)"

fun drop_in_chains :: "(igsc_mh \<Rightarrow> bool) \<Rightarrow> nat list \<Rightarrow> igsc_info \<Rightarrow> igsc_info option" where
  "drop_in_chains P [] s = Some s"
| "drop_in_chains P (i # is) s =
     (case drop_in_groups P (mgrp_sdb s i) s of None \<Rightarrow> None | Some s \<Rightarrow> drop_in_chains P is s)"

text \<open>\<open>igsc_sdb_clear\<close> drops all hosts, so every group entry ends empty and is taken off.\<close>

definition igsc_sdb_clear :: "igsc_info \<Rightarrow> igsc_info option" where
  "igsc_sdb_clear s = drop_in_chains (\<lambda>_. True) [0..<IGSDB_HASHT_SIZE] s"

definition igsc_sdb_interface_del :: "igsc_info \<Rightarrow> nat \<Rightarrow> (igsc_info \<times> int) option" where
  "igsc_sdb_interface_del s ifp =
     (if ifp = 0 then Some (s, FAILURE)
      else map_option (\<lambda>s. (s, SUCCESS)) (drop_in_chains (\<lambda>m. mh_mi m = ifp) [0..<IGSDB_HASHT_SIZE] s))"

definition igsc_sdb_list :: "igsc_info \<Rightarrow> (uint32 \<times> uint32 \<times> nat) list" where
  "igsc_sdb_list s = concat (map (\<lambda>i. concat (map (\<lambda>g.
     map (\<lambda>m. (sg_ip g, mh_ip m, mh_mi m)) (mh_head g)) (mgrp_sdb s i))) [0..<IGSDB_HASHT_SIZE])"

subsection \<open>The chains as a table of groups\<close>

definition chains_ok :: "igsc_info \<Rightarrow> bool" where
  "chains_ok s \<longleftrightarrow> (\<forall>h. (\<forall>g \<in> set (mgrp_sdb s h). IGSDB_MGRP_HASH (sg_ip g) = h) \<and> distinct (map sg_ip (mgrp_sdb s h)))"

lemma find_unique:
  assumes "distinct (map f xs)" "x \<in> set xs"
  shows "find (\<lambda>y. f x = f y) xs = Some x"
  using assms
proof (induction xs)
  case (Cons y ys)
  then show ?case by (cases "x = y") (auto intro: rev_image_eqI)
qed simp

lemma find_map_replace: "find (\<lambda>x. k = f x) (map (\<lambda>x. if f x = f g then g else x) xs) =
    (if k = f g then map_option (\<lambda>_. g) (find (\<lambda>x. k = f x) xs) else find (\<lambda>x. k = f x) xs)"
  by (induction xs) auto

lemma find_filter_other: "find (\<lambda>x. k = f x) (filter (\<lambda>x. f x \<noteq> j) xs) = (if k = j then None else find (\<lambda>x. k = f x) xs)"
  by (induction xs) auto

lemma map_replace_keys: "map f (map (\<lambda>x. if f x = f g then g else x) xs) = map f xs"
  by (induction xs) auto

lemma group_find_ip: "igsc_sdb_group_find s ip = Some g \<Longrightarrow> sg_ip g = ip"
  by (auto simp: igsc_sdb_group_find_def find_Some_iff)

lemma group_find_mem:
  assumes "chains_ok s"
  shows "igsc_sdb_group_find s ip = Some g \<longleftrightarrow> sg_ip g = ip \<and> g \<in> set (mgrp_sdb s (IGSDB_MGRP_HASH ip))"
proof
  assume "igsc_sdb_group_find s ip = Some g"
  then show "sg_ip g = ip \<and> g \<in> set (mgrp_sdb s (IGSDB_MGRP_HASH ip))"
    by (auto simp: igsc_sdb_group_find_def find_Some_iff)
next
  assume g: "sg_ip g = ip \<and> g \<in> set (mgrp_sdb s (IGSDB_MGRP_HASH ip))"
  have "distinct (map sg_ip (mgrp_sdb s (IGSDB_MGRP_HASH ip)))" using assms by (simp add: chains_ok_def)
  then show "igsc_sdb_group_find s ip = Some g" using find_unique [of sg_ip _ g] g by (auto simp: igsc_sdb_group_find_def)
qed

lemma put_group_table:
  assumes "chains_ok s" "igsc_sdb_group_find s (sg_ip g) \<noteq> None"
  shows "chains_ok (put_group g s)" "igsc_sdb_group_find (put_group g s) = (igsc_sdb_group_find s)(sg_ip g \<mapsto> g)"
proof -
  show "chains_ok (put_group g s)"
    using assms(1) unfolding chains_ok_def put_group_def Let_def
    by (auto simp: map_replace_keys simp del: map_map split: if_splits)
  show "igsc_sdb_group_find (put_group g s) = (igsc_sdb_group_find s)(sg_ip g \<mapsto> g)"
    using assms(2) by (auto simp: igsc_sdb_group_find_def put_group_def Let_def find_map_replace fun_eq_iff)
qed

lemma unlink_group_table:
  assumes "chains_ok s"
  shows "chains_ok (unlink_group ip s)" "igsc_sdb_group_find (unlink_group ip s) = (igsc_sdb_group_find s)(ip := None)"
proof -
  show "chains_ok (unlink_group ip s)"
    using assms unfolding chains_ok_def unlink_group_def Let_def by (auto simp: distinct_map_filter)
  show "igsc_sdb_group_find (unlink_group ip s) = (igsc_sdb_group_find s)(ip := None)"
    by (auto simp: igsc_sdb_group_find_def unlink_group_def Let_def find_filter_other fun_eq_iff)
qed

lemma new_group_table:
  assumes "chains_ok s" "igsc_sdb_group_find s (sg_ip g) = None"
  shows "chains_ok (new_group g s)" "igsc_sdb_group_find (new_group g s) = (igsc_sdb_group_find s)(sg_ip g \<mapsto> g)"
proof -
  have "sg_ip g \<notin> sg_ip ` set (mgrp_sdb s (IGSDB_MGRP_HASH (sg_ip g)))"
    using assms(2) by (auto simp: igsc_sdb_group_find_def find_None_iff)
  then show "chains_ok (new_group g s)" using assms(1) by (auto simp: chains_ok_def new_group_def Let_def)
  show "igsc_sdb_group_find (new_group g s) = (igsc_sdb_group_find s)(sg_ip g \<mapsto> g)"
    using assms(2) by (auto simp: igsc_sdb_group_find_def new_group_def Let_def fun_eq_iff)
qed

lemma table_frame:
  "timers (put_group g s) = timers s" "emf_handle (put_group g s) = emf_handle s"
  "timers (unlink_group ip s) = timers s" "emf_handle (unlink_group ip s) = emf_handle s"
  "timers (new_group g s) = timers s" "emf_handle (new_group g s) = emf_handle s"
  "rtlist_head (put_group g s) = rtlist_head s" "rt_timers (put_group g s) = rt_timers s"
  "rtlist_head (unlink_group ip s) = rtlist_head s" "rt_timers (unlink_group ip s) = rt_timers s"
  "rtlist_head (new_group g s) = rtlist_head s" "rt_timers (new_group g s) = rt_timers s"
  by (simp_all add: put_group_def unlink_group_def new_group_def Let_def)

text \<open>Counters, timers and the forwarding database are not part of the chains.\<close>

lemma table_cong:
  assumes "mgrp_sdb s' = mgrp_sdb s"
  shows "igsc_sdb_group_find s' = igsc_sdb_group_find s" "chains_ok s' = chains_ok s"
  using assms by (simp_all add: igsc_sdb_group_find_def chains_ok_def fun_eq_iff)

lemma stats_frame [simp]:
  "mgrp_sdb (IGSC_STATS_INCR m s) = mgrp_sdb s" "mgrp_sdb (IGSC_STATS_DECR m s) = mgrp_sdb s"
  "timers (IGSC_STATS_INCR m s) = timers s" "timers (IGSC_STATS_DECR m s) = timers s"
  "emf_handle (IGSC_STATS_INCR m s) = emf_handle s" "emf_handle (IGSC_STATS_DECR m s) = emf_handle s"
  "rtlist_head (IGSC_STATS_INCR m s) = rtlist_head s" "rtlist_head (IGSC_STATS_DECR m s) = rtlist_head s"
  "rt_timers (IGSC_STATS_INCR m s) = rt_timers s" "rt_timers (IGSC_STATS_DECR m s) = rt_timers s"
  "grp_mem_intv (IGSC_STATS_INCR m s) = grp_mem_intv s" "query_intv (IGSC_STATS_INCR m s) = query_intv s"
  by (simp_all add: IGSC_STATS_INCR_def IGSC_STATS_DECR_def)

lemma stats_table [simp]:
  "igsc_sdb_group_find (IGSC_STATS_INCR m s) = igsc_sdb_group_find s"
  "igsc_sdb_group_find (IGSC_STATS_DECR m s) = igsc_sdb_group_find s"
  "chains_ok (IGSC_STATS_INCR m s) = chains_ok s" "chains_ok (IGSC_STATS_DECR m s) = chains_ok s"
  by (rule table_cong, simp)+

subsection \<open>The invariant\<close>

definition hosts_on :: "igsc_mgrp \<Rightarrow> nat \<Rightarrow> nat" where
  "hosts_on g i = length (filter (\<lambda>m. mh_mi m = i) (mh_head g))"

text \<open>A group entry: hosts are distinct, and every interface entry counts the hosts behind it.\<close>

definition sgroup_ok :: "igsc_mgrp \<Rightarrow> bool" where
  "sgroup_ok g \<longleftrightarrow> distinct (map mh_addr (mh_head g)) \<and> distinct (map (\<lambda>m. (mh_ip m, mh_mi m)) (mh_head g)) \<and>
     length (mh_head g) < 2 ^ 32 \<and> distinct (map si_ifp (si_head g)) \<and>
     (\<forall>i. map_option si_ref (igsc_sdb_mi_entry_find g i) =
        (if hosts_on g i = 0 then None else Some (word_of_nat (hosts_on g i))))"

text \<open>
  The tables together: the groups \<open>G\<close>, the armed host timers \<open>ts\<close> and the forwarding database \<open>e\<close>.
  Exactly the hosts have an armed timer, and what a host is a member of is in the forwarding
  database.
\<close>

definition tables_ok :: "(uint32 \<Rightarrow> igsc_mgrp option) \<Rightarrow> (nat \<Rightarrow> uint32 option) \<Rightarrow> emfc_info \<Rightarrow> bool" where
  "tables_ok G ts e \<longleftrightarrow>
     (\<forall>ip g. G ip = Some g \<longrightarrow> sg_ip g = ip \<and> ip \<noteq> 0 \<and> mh_head g \<noteq> [] \<and> sgroup_ok g) \<and>
     (\<forall>ip ip' g g' m m'. G ip = Some g \<longrightarrow> G ip' = Some g' \<longrightarrow> m \<in> set (mh_head g) \<longrightarrow> m' \<in> set (mh_head g') \<longrightarrow>
        mh_addr m = mh_addr m' \<longrightarrow> ip = ip') \<and>
     (\<forall>a. ts a \<noteq> None \<longleftrightarrow> (\<exists>ip g m. G ip = Some g \<and> m \<in> set (mh_head g) \<and> mh_addr m = a)) \<and>
     emf_inv e \<and> (\<forall>ip g i. G ip = Some g \<longrightarrow> hosts_on g i > 0 \<longrightarrow> mfdb_refs e ip i > 0)"

definition sdb_inv :: "igsc_info \<Rightarrow> bool" where
  "sdb_inv s \<longleftrightarrow> chains_ok s \<and> tables_ok (igsc_sdb_group_find s) (timers s) (emf_handle s)"

text \<open>The members, and the part of the forwarding database's counts that is not the snooper's.\<close>

definition host_in :: "igsc_mgrp \<Rightarrow> uint32 \<Rightarrow> nat \<Rightarrow> bool" where
  "host_in g host ifp \<longleftrightarrow> (\<exists>m \<in> set (mh_head g). mh_ip m = host \<and> mh_mi m = ifp)"

definition members :: "(uint32 \<Rightarrow> igsc_mgrp option) \<Rightarrow> (uint32 \<times> uint32 \<times> nat) set" where
  "members G = {(ip, host, ifp). \<exists>g. G ip = Some g \<and> host_in g host ifp}"

definition own_refs :: "(uint32 \<Rightarrow> igsc_mgrp option) \<Rightarrow> emfc_info \<Rightarrow> uint32 \<Rightarrow> nat \<Rightarrow> nat" where
  "own_refs G e ip i = mfdb_refs e ip i - (if \<exists>host. (ip, host, i) \<in> members G then 1 else 0)"

definition sdb_members :: "igsc_info \<Rightarrow> (uint32 \<times> uint32 \<times> nat) set" where
  "sdb_members s = members (igsc_sdb_group_find s)"

definition static_refs :: "igsc_info \<Rightarrow> uint32 \<Rightarrow> nat \<Rightarrow> nat" where
  "static_refs s = own_refs (igsc_sdb_group_find s) (emf_handle s)"

lemma tables_okD:
  assumes "tables_ok G ts e"
  shows "G ip = Some g \<Longrightarrow> sg_ip g = ip" "G ip = Some g \<Longrightarrow> ip \<noteq> 0" "G ip = Some g \<Longrightarrow> mh_head g \<noteq> []"
    "G ip = Some g \<Longrightarrow> sgroup_ok g"
    "G ip = Some g \<Longrightarrow> G ip' = Some g' \<Longrightarrow> m \<in> set (mh_head g) \<Longrightarrow> m' \<in> set (mh_head g') \<Longrightarrow> mh_addr m = mh_addr m' \<Longrightarrow> ip = ip'"
    "ts a \<noteq> None \<longleftrightarrow> (\<exists>ip g m. G ip = Some g \<and> m \<in> set (mh_head g) \<and> mh_addr m = a)"
    "emf_inv e" "G ip = Some g \<Longrightarrow> hosts_on g i > 0 \<Longrightarrow> mfdb_refs e ip i > 0"
  using assms unfolding tables_ok_def by (blast, blast, blast, blast, blast, blast, blast, blast)

lemma hosts_on_pos: "hosts_on g i > 0 \<longleftrightarrow> (\<exists>m \<in> set (mh_head g). mh_mi m = i)"
  by (auto simp: hosts_on_def filter_empty_conv)

lemma served_iff: "(\<exists>host. (ip, host, i) \<in> members G) \<longleftrightarrow> (\<exists>g. G ip = Some g \<and> hosts_on g i > 0)"
  by (auto simp: members_def hosts_on_pos host_in_def)

lemma members_same:
  assumes "tables_ok G ts e" "(ip, host, i) \<in> members G"
  shows "own_refs G e ip i + 1 = mfdb_refs e ip i"
proof -
  obtain g where g: "G ip = Some g" "hosts_on g i > 0" using assms(2) served_iff by blast
  then show ?thesis using tables_okD(8) [OF assms(1) g] assms(2) by (auto simp: own_refs_def)
qed

subsection \<open>One host less\<close>

lemma mi_find_set_ref:
  "igsc_sdb_mi_entry_find (set_ref i r g) j =
     map_option (\<lambda>x. if j = i then x\<lparr>si_ref := r\<rparr> else x) (igsc_sdb_mi_entry_find g j)"
proof -
  have "find (\<lambda>x. j = si_ifp x) (map (\<lambda>x. if si_ifp x = i then x\<lparr>si_ref := r\<rparr> else x) xs) =
    map_option (\<lambda>x. if j = i then x\<lparr>si_ref := r\<rparr> else x) (find (\<lambda>x. j = si_ifp x) xs)" for xs
    by (induction xs) auto
  then show ?thesis by (simp add: igsc_sdb_mi_entry_find_def set_ref_def)
qed

lemma mi_find_del_mi: "igsc_sdb_mi_entry_find (del_mi i g) j = (if j = i then None else igsc_sdb_mi_entry_find g j)"
  by (simp add: igsc_sdb_mi_entry_find_def del_mi_def find_filter_other)

lemma group_frame [simp]:
  "igsc_sdb_mi_entry_find (del_mh m g) = igsc_sdb_mi_entry_find g" "igsc_sdb_mi_entry_find (add_mh m g) = igsc_sdb_mi_entry_find g"
  "mh_head (set_ref i r g) = mh_head g" "mh_head (del_mi i g) = mh_head g"
  "sg_ip (set_ref i r g) = sg_ip g" "sg_ip (del_mi i g) = sg_ip g" "sg_ip (del_mh m g) = sg_ip g" "sg_ip (add_mh m g) = sg_ip g"
  "si_head (del_mh m g) = si_head g" "si_head (add_mh m g) = si_head g"
  "map si_ifp (si_head (set_ref i r g)) = map si_ifp (si_head g)" "si_head (del_mi i g) = filter (\<lambda>x. si_ifp x \<noteq> i) (si_head g)"
  "mh_head (del_mh m g) = filter (\<lambda>x. mh_addr x \<noteq> mh_addr m) (mh_head g)" "mh_head (add_mh m g) = m # mh_head g"
  by (auto simp: igsc_sdb_mi_entry_find_def fun_eq_iff del_mh_def add_mh_def set_ref_def del_mi_def)

lemma filter_addr_length:
  assumes "distinct (map mh_addr ms)" "m \<in> set ms"
  shows "length (filter (\<lambda>x. mh_mi x = i) (filter (\<lambda>x. mh_addr x \<noteq> mh_addr m) ms)) =
    length (filter (\<lambda>x. mh_mi x = i) ms) - (if i = mh_mi m then 1 else 0)"
  using assms
proof (induction ms)
  case (Cons x xs)
  show ?case
  proof (cases "x = m")
    case True
    then have "filter (\<lambda>y. mh_addr y \<noteq> mh_addr m) xs = xs" using Cons.prems(1) by (auto simp: filter_id_conv image_iff)
    then show ?thesis using True by auto
  next
    case False
    then have m: "m \<in> set xs" "mh_addr x \<noteq> mh_addr m" using Cons.prems by (auto intro: rev_image_eqI)
    have "length (filter (\<lambda>y. mh_mi y = mh_mi m) xs) > 0" using m(1) by (auto simp: filter_empty_conv)
    then show ?thesis using Cons.IH m Cons.prems(1) by auto
  qed
qed simp

lemma hosts_on_del_mh:
  assumes "distinct (map mh_addr (mh_head g))" "m \<in> set (mh_head g)"
  shows "hosts_on (del_mh m g) i = hosts_on g i - (if i = mh_mi m then 1 else 0)"
  unfolding hosts_on_def group_frame by (rule filter_addr_length [OF assms])

lemma hosts_on_frame [simp]:
  "hosts_on (set_ref i r g) = hosts_on g" "hosts_on (del_mi i g) = hosts_on g"
  "hosts_on (add_mh m g) j = hosts_on g j + (if mh_mi m = j then 1 else 0)"
  by (simp_all add: hosts_on_def fun_eq_iff)

lemma hosts_on_bound: "hosts_on g i \<le> length (mh_head g)"
  by (simp add: hosts_on_def)

lemma sgroup_okD:
  assumes "sgroup_ok g"
  shows "distinct (map mh_addr (mh_head g))" "distinct (map (\<lambda>m. (mh_ip m, mh_mi m)) (mh_head g))"
    "length (mh_head g) < 2 ^ 32" "distinct (map si_ifp (si_head g))"
    "map_option si_ref (igsc_sdb_mi_entry_find g i) = (if hosts_on g i = 0 then None else Some (word_of_nat (hosts_on g i)))"
  using assms unfolding sgroup_ok_def by (blast, blast, blast, blast, blast)

text \<open>The entry the code leaves behind when the host \<open>mh\<close> goes.\<close>

definition without_host :: "igsc_mh \<Rightarrow> igsc_mgrp \<Rightarrow> igsc_mgrp" where
  "without_host mh g = (let g' = set_ref (mh_mi mh) (word_of_nat (hosts_on g (mh_mi mh)) - 1) g in
     del_mh mh (if hosts_on g (mh_mi mh) = 1 then del_mi (mh_mi mh) g' else g'))"

lemma without_host_ok:
  assumes ok: "sgroup_ok g" and mh: "mh \<in> set (mh_head g)"
  shows "sgroup_ok (without_host mh g)" "sg_ip (without_host mh g) = sg_ip g"
    "mh_head (without_host mh g) = filter (\<lambda>m. mh_addr m \<noteq> mh_addr mh) (mh_head g)"
    "hosts_on (without_host mh g) i = hosts_on g i - (if i = mh_mi mh then 1 else 0)"
proof -
  let ?i = "mh_mi mh" and ?g = "without_host mh g"
  note d = sgroup_okD [OF ok]
  have pos: "hosts_on g ?i > 0" using mh hosts_on_pos by blast
  show ip: "sg_ip ?g = sg_ip g" and hd: "mh_head ?g = filter (\<lambda>m. mh_addr m \<noteq> mh_addr mh) (mh_head g)"
    by (auto simp: without_host_def Let_def)
  show h: "hosts_on ?g i = hosts_on g i - (if i = ?i then 1 else 0)" for i
    unfolding hosts_on_def hd by (rule filter_addr_length [OF d(1) mh])
  have sub: "word_of_nat (hosts_on g ?i) - 1 = (word_of_nat (hosts_on g ?i - 1) :: uint32)"
    using pos by (simp add: of_nat_diff)
  have look: "map_option si_ref (igsc_sdb_mi_entry_find ?g j) =
      (if hosts_on ?g j = 0 then None else Some (word_of_nat (hosts_on ?g j)))" for j
  proof (cases "j = ?i")
    case False
    then have "igsc_sdb_mi_entry_find ?g j = igsc_sdb_mi_entry_find g j"
      by (simp add: without_host_def Let_def mi_find_set_ref mi_find_del_mi option.map_ident)
    then show ?thesis using d(5) [of j] False by (simp add: h)
  next
    case True
    obtain mi where mi: "igsc_sdb_mi_entry_find g ?i = Some mi" using d(5) [of ?i] pos by auto
    show ?thesis
    proof (cases "hosts_on g ?i = 1")
      case one: True
      then have "igsc_sdb_mi_entry_find ?g j = None" by (simp add: True without_host_def Let_def mi_find_del_mi)
      then show ?thesis using one by (simp add: True h)
    next
      case False
      then have "?g = del_mh mh (set_ref ?i (word_of_nat (hosts_on g ?i - 1)) g)"
        unfolding without_host_def Let_def sub by simp
      then have "igsc_sdb_mi_entry_find ?g j = Some (mi\<lparr>si_ref := word_of_nat (hosts_on g ?i - 1)\<rparr>)"
        by (simp add: True mi_find_set_ref mi)
      then show ?thesis using False pos by (simp add: True h)
    qed
  qed
  have "distinct (map si_ifp (si_head ?g))"
    using d(4) by (auto simp: without_host_def Let_def distinct_map_filter simp del: map_map)
  moreover have "length (mh_head ?g) < 2 ^ 32"
    using d(3) length_filter_le [of "\<lambda>m. mh_addr m \<noteq> mh_addr mh" "mh_head g"] unfolding hd by (rule le_less_trans [rotated])
  ultimately show "sgroup_ok ?g"
    unfolding sgroup_ok_def using look d(1,2) by (simp add: hd distinct_map_filter)
qed

definition or_none :: "igsc_mgrp \<Rightarrow> igsc_mgrp option" where
  "or_none g = (if mh_head g = [] then None else Some g)"

lemma members_update:
  "(ip', h, i) \<in> members (G(ip := x)) \<longleftrightarrow>
     (if ip' = ip then \<exists>g. x = Some g \<and> host_in g h i else (ip', h, i) \<in> members G)"
  by (auto simp: members_def)

lemma without_host_members:
  assumes t: "tables_ok G ts e" and g: "G ip = Some g" and mh: "mh \<in> set (mh_head g)"
  shows "members (G(ip := or_none (without_host mh g))) = members G - {(ip, mh_ip mh, mh_mi mh)}"
proof -
  have ok: "sgroup_ok g" by (rule tables_okD(4) [OF t g])
  note w = without_host_ok [OF ok mh]
  have inj: "m = mh" if "m \<in> set (mh_head g)" "mh_addr m = mh_addr mh \<or> mh_ip m = mh_ip mh \<and> mh_mi m = mh_mi mh" for m
    using sgroup_okD(1,2) [OF ok] that mh unfolding distinct_map inj_on_def by fastforce
  have new: "host_in (without_host mh g) h i \<longleftrightarrow> host_in g h i \<and> (h, i) \<noteq> (mh_ip mh, mh_mi mh)" for h i
    unfolding host_in_def w(3) using inj by auto
  have "(\<exists>g'. or_none (without_host mh g) = Some g' \<and> host_in g' h i) \<longleftrightarrow> host_in (without_host mh g) h i" for h i
    by (auto simp: or_none_def host_in_def)
  then have "(ip', h, i) \<in> members (G(ip := or_none (without_host mh g))) \<longleftrightarrow>
      (ip', h, i) \<in> members G \<and> (ip', h, i) \<noteq> (ip, mh_ip mh, mh_mi mh)" for ip' h i
    unfolding members_update new using g by (auto simp: members_def)
  then show ?thesis by auto
qed

lemma without_host_table:
  assumes t: "tables_ok G ts e" and g: "G ip = Some g" and mh: "mh \<in> set (mh_head g)"
  shows "(G(ip := or_none (without_host mh g))) ip' = Some g' \<Longrightarrow>
      (ip' \<noteq> ip \<and> G ip' = Some g') \<or> (ip' = ip \<and> g' = without_host mh g \<and> mh_head (without_host mh g) \<noteq> [])"
    and "(G(ip := or_none (without_host mh g))) ip' = Some g' \<Longrightarrow>
      \<exists>g0. G ip' = Some g0 \<and> set (mh_head g') \<subseteq> set (mh_head g0)"
  using without_host_ok(3) [OF tables_okD(4) [OF t g] mh] g by (auto simp: or_none_def split: if_splits)

lemma without_host_timers:
  assumes t: "tables_ok G ts e" and g: "G ip = Some g" and mh: "mh \<in> set (mh_head g)"
  shows "(ts(mh_addr mh := None)) a \<noteq> None \<longleftrightarrow>
    (\<exists>ip' g' m. (G(ip := or_none (without_host mh g))) ip' = Some g' \<and> m \<in> set (mh_head g') \<and> mh_addr m = a)"
proof
  note td = tables_okD [OF t] and w = without_host_ok [OF tables_okD(4) [OF t g] mh] and G' = without_host_table(1) [OF t g mh]
    and old = without_host_table(2) [OF t g mh]
  assume a: "(ts(mh_addr mh := None)) a \<noteq> None"
  then have "a \<noteq> mh_addr mh" "ts a \<noteq> None" by (auto split: if_splits)
  then obtain ip' g' m where m: "G ip' = Some g'" "m \<in> set (mh_head g')" "mh_addr m = a" using td(6) [of a] by blast
  show "\<exists>ip' g' m. (G(ip := or_none (without_host mh g))) ip' = Some g' \<and> m \<in> set (mh_head g') \<and> mh_addr m = a"
  proof (cases "ip' = ip")
    case True
    then have "m \<in> set (mh_head (without_host mh g))" unfolding w(3) using True m g \<open>a \<noteq> mh_addr mh\<close> by auto
    then have "(G(ip := or_none (without_host mh g))) ip = Some (without_host mh g)" by (auto simp: or_none_def)
    then show ?thesis using \<open>m \<in> set (mh_head (without_host mh g))\<close> m(3) by blast
  next
    case False
    then have "(G(ip := or_none (without_host mh g))) ip' = Some g'" using m(1) by simp
    then show ?thesis using m by blast
  qed
next
  note td = tables_okD [OF t] and w = without_host_ok [OF tables_okD(4) [OF t g] mh] and G' = without_host_table(1) [OF t g mh]
    and old = without_host_table(2) [OF t g mh]
  assume "\<exists>ip' g' m. (G(ip := or_none (without_host mh g))) ip' = Some g' \<and> m \<in> set (mh_head g') \<and> mh_addr m = a"
  then obtain ip' g' m where m: "(G(ip := or_none (without_host mh g))) ip' = Some g'" "m \<in> set (mh_head g')" "mh_addr m = a" by blast
  have "a \<noteq> mh_addr mh"
    using G' [OF m(1)] m(2,3) w(3) td(5) [OF _ g _ mh, of ip' g' m] by auto
  moreover have "ts a \<noteq> None" using old [OF m(1)] m(2,3) td(6) [of a] by blast
  ultimately show "(ts(mh_addr mh := None)) a \<noteq> None" by simp
qed

lemma tables_without:
  assumes t: "tables_ok G ts e" and g: "G ip = Some g" and mh: "mh \<in> set (mh_head g)"
    and inv: "emf_inv e'" and refs: "mfdb_refs e' = (if hosts_on g (mh_mi mh) = 1
      then (mfdb_refs e)(ip := (mfdb_refs e ip)(mh_mi mh := mfdb_refs e ip (mh_mi mh) - 1)) else mfdb_refs e)"
  shows "tables_ok (G(ip := or_none (without_host mh g))) (ts(mh_addr mh := None)) e'"
proof -
  let ?i = "mh_mi mh" and ?g = "without_host mh g" and ?G = "G(ip := or_none (without_host mh g))"
  note td = tables_okD [OF t] and w = without_host_ok [OF tables_okD(4) [OF t g] mh] and G' = without_host_table(1) [OF t g mh]
    and old = without_host_table(2) [OF t g mh]
  show ?thesis
    unfolding tables_ok_def
  proof (intro conjI allI impI, goal_cases)
    case (1 ip' g')
    then show ?case using G' [OF 1] td(1) [of ip' g'] w(2) td(1) [OF g] by auto
  next
    case (2 ip' g')
    then show ?case using old [OF 2] td(2) by blast
  next
    case (3 ip' g')
    then show ?case using G' [OF 3] td(3) by auto
  next
    case (4 ip' g')
    then show ?case using G' [OF 4] td(4) w(1) by auto
  next
    case (5 ip1 ip2 g1 g2 m1 m2)
    obtain h1 h2 where h: "G ip1 = Some h1" "set (mh_head g1) \<subseteq> set (mh_head h1)" "G ip2 = Some h2" "set (mh_head g2) \<subseteq> set (mh_head h2)"
      using old [OF 5(1)] old [OF 5(2)] by blast
    show ?case by (rule td(5) [OF h(1,3) subsetD [OF h(2) 5(3)] subsetD [OF h(4) 5(4)] 5(5)])
  next
    case (6 a)
    show ?case by (rule without_host_timers [OF t g mh])
  next
    case 7
    show ?case by (rule inv)
  next
    case (8 ip' g' i)
    have "\<not> (ip' = ip \<and> i = ?i \<and> hosts_on g ?i = 1)" using G' [OF 8(1)] 8(2) w(4) by auto
    moreover have "mfdb_refs e ip' i > 0"
      using G' [OF 8(1)] 8(2) w(4) [of i] td(8) [of ip' g' i] td(8) [OF g, of i] by auto
    ultimately show ?case unfolding refs by auto
  qed
qed

text \<open>
  The step all deletions share: with \<open>mh\<close> goes its timer; when it was the last host of its group
  on the interface, the forwarding database's deletion succeeds, and otherwise it is not called.
\<close>

lemma tables_del:
  assumes t: "tables_ok G ts e" and g: "G ip = Some g" and mh: "mh \<in> set (mh_head g)"
  shows "\<exists>mi. igsc_sdb_mi_entry_find g (mh_mi mh) = Some mi \<and> si_ifp mi = mh_mi mh \<and>
      si_ref mi = word_of_nat (hosts_on g (mh_mi mh)) \<and> (si_ref mi - 1 = 0 \<longleftrightarrow> hosts_on g (mh_mi mh) = 1)"
    and "\<exists>e'. (if hosts_on g (mh_mi mh) = 1 then emfc_mfdb_membership_del e ip (mh_mi mh) = Some (e', SUCCESS) else e' = e) \<and>
      tables_ok (G(ip := or_none (without_host mh g))) (ts(mh_addr mh := None)) e' \<and>
      own_refs (G(ip := or_none (without_host mh g))) e' = own_refs G e \<and> iflist_head e' = iflist_head e"
proof -
  let ?i = "mh_mi mh" and ?g = "without_host mh g" and ?G = "G(ip := or_none (without_host mh g))"
  note td = tables_okD [OF t]
  have ok: "sgroup_ok g" by (rule td(4) [OF g])
  note w = without_host_ok [OF ok mh]
  have pos: "hosts_on g ?i > 0" using mh hosts_on_pos by blast
  have lt: "hosts_on g ?i < 2 ^ 32" using hosts_on_bound [of g ?i] sgroup_okD(3) [OF ok] by linarith
  obtain mi where mi: "igsc_sdb_mi_entry_find g ?i = Some mi" "si_ref mi = word_of_nat (hosts_on g ?i)"
    using sgroup_okD(5) [OF ok, of ?i] pos by auto
  have "unat (word_of_nat (hosts_on g ?i) :: uint32) = hosts_on g ?i" using lt by (simp add: unat_of_nat32)
  then have "si_ref mi - 1 = 0 \<longleftrightarrow> hosts_on g ?i = 1" unfolding mi(2) by (metis eq_iff_diff_eq_0 of_nat_1 unat_1)
  moreover have "si_ifp mi = ?i" using mi(1) by (auto simp: igsc_sdb_mi_entry_find_def find_Some_iff)
  ultimately show "\<exists>mi. igsc_sdb_mi_entry_find g ?i = Some mi \<and> si_ifp mi = ?i \<and>
      si_ref mi = word_of_nat (hosts_on g ?i) \<and> (si_ref mi - 1 = 0 \<longleftrightarrow> hosts_on g ?i = 1)" using mi by blast
  have mem: "members ?G = members G - {(ip, mh_ip mh, ?i)}" by (rule without_host_members [OF t g mh])
  have served: "(\<exists>h. (ip', h, i) \<in> members ?G) \<longleftrightarrow>
      (\<exists>h. (ip', h, i) \<in> members G) \<and> \<not> (ip' = ip \<and> i = ?i \<and> hosts_on g ?i = 1)" for ip' i
  proof -
    have "hosts_on ?g i > 0 \<Longrightarrow> mh_head ?g \<noteq> []" by (auto simp: hosts_on_def)
    then have "(\<exists>h. (ip', h, i) \<in> members ?G) \<longleftrightarrow> (if ip' = ip then hosts_on ?g i > 0 else (\<exists>g. G ip' = Some g \<and> hosts_on g i > 0))"
      unfolding served_iff by (auto simp: or_none_def)
    then show ?thesis unfolding served_iff w(4) using g pos by auto
  qed
  have ip0: "ip \<noteq> 0" by (rule td(2) [OF g])
  obtain e' where e': "if hosts_on g ?i = 1 then emfc_mfdb_membership_del e ip ?i = Some (e', SUCCESS) else e' = e"
    "emf_inv e'" "iflist_head e' = iflist_head e"
    "mfdb_refs e' = (if hosts_on g ?i = 1 then (mfdb_refs e)(ip := (mfdb_refs e ip)(?i := mfdb_refs e ip ?i - 1)) else mfdb_refs e)"
  proof (cases "hosts_on g ?i = 1")
    case True
    have "mfdb_refs e ip ?i > 0" by (rule td(8) [OF g pos])
    then show ?thesis
      using membership_del_refs [of e ip ?i] td(7) ip0 True that by (auto simp: emf_inv_def refs_del_def)
  qed (use that [of e] td(7) in auto)
  have own: "own_refs ?G e' = own_refs G e"
  proof (intro ext)
    fix ip' i
    have "mfdb_refs e ip ?i > 0" by (rule td(8) [OF g pos])
    moreover have "(ip, mh_ip mh, ?i) \<in> members G" using g mh by (auto simp: members_def host_in_def)
    ultimately show "own_refs ?G e' ip' i = own_refs G e ip' i"
      unfolding own_refs_def served e'(4) by auto
  qed
  have tab: "tables_ok ?G (ts(mh_addr mh := None)) e'" by (rule tables_without [OF t g mh e'(2,4)])
  show "\<exists>e'. (if hosts_on g ?i = 1 then emfc_mfdb_membership_del e ip ?i = Some (e', SUCCESS) else e' = e) \<and>
      tables_ok ?G (ts(mh_addr mh := None)) e' \<and> own_refs ?G e' = own_refs G e \<and> iflist_head e' = iflist_head e"
    using e'(1,3) own tab by blast
qed

subsection \<open>Deleting members\<close>

text \<open>What an operation on the memberships leaves alone.\<close>

definition sdb_frame :: "igsc_info \<Rightarrow> igsc_info \<Rightarrow> bool" where
  "sdb_frame s s' \<longleftrightarrow> rtlist_head s' = rtlist_head s \<and> rt_timers s' = rt_timers s \<and>
     iflist_head (emf_handle s') = iflist_head (emf_handle s) \<and> static_refs s' = static_refs s"

lemma sdb_frame_refl [simp]: "sdb_frame s s"
  by (simp add: sdb_frame_def)

lemma sdb_frame_trans: "sdb_frame s s1 \<Longrightarrow> sdb_frame s1 s2 \<Longrightarrow> sdb_frame s s2"
  by (simp add: sdb_frame_def)

definition commit :: "igsc_mgrp \<Rightarrow> igsc_info \<Rightarrow> igsc_info" where
  "commit g s = (if mh_head g = [] then unlink_group (sg_ip g) s else put_group g s)"

lemma commit_table:
  assumes "chains_ok s" "igsc_sdb_group_find s (sg_ip g) \<noteq> None"
  shows "chains_ok (commit g s)" "igsc_sdb_group_find (commit g s) = (igsc_sdb_group_find s)(sg_ip g := or_none g)"
    "timers (commit g s) = timers s" "emf_handle (commit g s) = emf_handle s"
    "rtlist_head (commit g s) = rtlist_head s" "rt_timers (commit g s) = rt_timers s"
  using put_group_table [OF assms] unlink_group_table [OF assms(1)] by (auto simp: commit_def or_none_def table_frame)

lemma mh_delete_eq:
  assumes "igsc_sdb_mi_entry_find g (mh_mi mh) = Some mi" "si_ifp mi = mh_mi mh"
    "si_ref mi = word_of_nat (hosts_on g (mh_mi mh))" "si_ref mi - 1 = 0 \<longleftrightarrow> hosts_on g (mh_mi mh) = 1"
    "if hosts_on g (mh_mi mh) = 1 then emfc_mfdb_membership_del (emf_handle s) (sg_ip g) (mh_mi mh) = Some (e', SUCCESS)
     else e' = emf_handle s"
  shows "\<exists>s1. igsc_sdb_mh_delete s g mh = Some s1 \<and>
    mgrp_sdb s1 = mgrp_sdb (commit (without_host mh g) (s\<lparr>emf_handle := e'\<rparr>)) \<and> emf_handle s1 = e' \<and>
    timers s1 = timers s \<and> rtlist_head s1 = rtlist_head s \<and> rt_timers s1 = rt_timers s"
proof (cases "hosts_on g (mh_mi mh) = 1")
  case True
  then show ?thesis using assms
    by (auto simp: igsc_sdb_mh_delete_def without_host_def commit_def Let_def IGSC_STATS_DECR_def put_group_def
        unlink_group_def)
next
  case False
  then show ?thesis using assms
    by (auto simp: igsc_sdb_mh_delete_def without_host_def commit_def Let_def IGSC_STATS_DECR_def put_group_def
        unlink_group_def)
qed

lemma mh_delete_spec:
  assumes ch: "chains_ok s" and t: "tables_ok (igsc_sdb_group_find s) ts (emf_handle s)"
    and ts: "timers s = ts(mh_addr mh := None)" and g: "igsc_sdb_group_find s ip = Some g" and mh: "mh \<in> set (mh_head g)"
  shows "\<exists>s'. igsc_sdb_mh_delete s g mh = Some s' \<and> sdb_inv s' \<and> sdb_frame s s' \<and>
    sdb_members s' = sdb_members s - {(ip, mh_ip mh, mh_mi mh)}"
proof -
  have ip: "sg_ip g = ip" by (rule tables_okD(1) [OF t g])
  obtain mi where mi: "igsc_sdb_mi_entry_find g (mh_mi mh) = Some mi" "si_ifp mi = mh_mi mh"
    "si_ref mi = word_of_nat (hosts_on g (mh_mi mh))" "si_ref mi - 1 = 0 \<longleftrightarrow> hosts_on g (mh_mi mh) = 1"
    using tables_del(1) [OF t g mh] by blast
  obtain e' where e': "if hosts_on g (mh_mi mh) = 1 then emfc_mfdb_membership_del (emf_handle s) ip (mh_mi mh) = Some (e', SUCCESS)
      else e' = emf_handle s"
    and tab: "tables_ok ((igsc_sdb_group_find s)(ip := or_none (without_host mh g))) (ts(mh_addr mh := None)) e'"
    and own: "own_refs ((igsc_sdb_group_find s)(ip := or_none (without_host mh g))) e' = own_refs (igsc_sdb_group_find s) (emf_handle s)"
    and ifl: "iflist_head e' = iflist_head (emf_handle s)"
    using tables_del(2) [OF t g mh] by blast
  obtain s' where s': "igsc_sdb_mh_delete s g mh = Some s'"
    "mgrp_sdb s' = mgrp_sdb (commit (without_host mh g) (s\<lparr>emf_handle := e'\<rparr>))" "emf_handle s' = e'"
    "timers s' = timers s" "rtlist_head s' = rtlist_head s" "rt_timers s' = rt_timers s"
    using mh_delete_eq [OF mi e' [folded ip]] by blast
  have c: "chains_ok (s\<lparr>emf_handle := e'\<rparr>)" "igsc_sdb_group_find (s\<lparr>emf_handle := e'\<rparr>) = igsc_sdb_group_find s"
    using ch by (simp_all add: table_cong [of "s\<lparr>emf_handle := e'\<rparr>" s])
  have sgi: "sg_ip (without_host mh g) = ip" using without_host_ok(2) [OF tables_okD(4) [OF t g] mh] ip by simp
  have ne: "igsc_sdb_group_find (s\<lparr>emf_handle := e'\<rparr>) (sg_ip (without_host mh g)) \<noteq> None" by (simp add: c(2) sgi g)
  have G: "igsc_sdb_group_find s' = (igsc_sdb_group_find s)(ip := or_none (without_host mh g))" and ch': "chains_ok s'"
    using commit_table(1,2) [OF c(1) ne] table_cong [OF s'(2)] c(2) sgi by simp_all
  have "sdb_members s' = sdb_members s - {(ip, mh_ip mh, mh_mi mh)}"
    unfolding sdb_members_def G by (rule without_host_members [OF t g mh])
  moreover have "sdb_frame s s'" using s' own ifl by (simp add: sdb_frame_def static_refs_def G)
  moreover have "sdb_inv s'" using ch' tab s' ts by (simp add: sdb_inv_def G)
  ultimately show ?thesis using s'(1) by blast
qed

lemma member_del_spec:
  assumes inv: "sdb_inv s"
  shows "\<exists>s'. igsc_sdb_member_del s ifp ip host =
      Some (s', if (ip, host, ifp) \<in> sdb_members s then SUCCESS else FAILURE) \<and>
    sdb_inv s' \<and> sdb_frame s s' \<and> sdb_members s' = sdb_members s - {(ip, host, ifp)}"
proof (cases "igsc_sdb_member_find s ip host ifp")
  case None
  then have "(ip, host, ifp) \<notin> sdb_members s"
    by (auto simp: igsc_sdb_member_find_def sdb_members_def members_def host_in_def igsc_sdb_mh_entry_find_def find_None_iff
        split: option.splits)
  then show ?thesis using None inv by (simp add: igsc_sdb_member_del_def)
next
  case (Some gm)
  obtain g mh where gm: "gm = (g, mh)" by force
  have g: "igsc_sdb_group_find s ip = Some g" and mh: "mh \<in> set (mh_head g)" "mh_ip mh = host" "mh_mi mh = ifp"
    using Some by (auto simp: gm igsc_sdb_member_find_def igsc_sdb_mh_entry_find_def find_Some_iff split: option.splits)
  have t: "tables_ok (igsc_sdb_group_find s) (timers s) (emf_handle s)" and ch: "chains_ok s" using inv by (simp_all add: sdb_inv_def)
  define s0 where "s0 = s\<lparr>timers := (timers s)(mh_addr mh := None)\<rparr>"
  have c: "chains_ok s0" "igsc_sdb_group_find s0 = igsc_sdb_group_find s" "emf_handle s0 = emf_handle s"
    using ch by (simp_all add: s0_def table_cong [of "s\<lparr>timers := (timers s)(mh_addr mh := None)\<rparr>" s])
  have "timers s (mh_addr mh) \<noteq> None" using tables_okD(6) [OF t, of "mh_addr mh"] g mh(1) by blast
  then have td: "osl_timer_del (mh_addr mh) s = Some s0" by (simp add: osl_timer_del_def s0_def)
  obtain s' where s': "igsc_sdb_mh_delete s0 g mh = Some s'" "sdb_inv s'" "sdb_frame s0 s'"
    "sdb_members s' = sdb_members s0 - {(ip, mh_ip mh, mh_mi mh)}"
    using mh_delete_spec [of s0 "timers s" mh ip g] c t g mh(1) by (auto simp: s0_def)
  have fr: "sdb_frame s s0" "sdb_members s0 = sdb_members s"
    using c by (simp_all add: sdb_frame_def static_refs_def sdb_members_def s0_def)
  have "(ip, host, ifp) \<in> sdb_members s" using g mh by (auto simp: sdb_members_def members_def host_in_def)
  then show ?thesis using s' mh sdb_frame_trans [OF fr(1) s'(3)] fr(2) Some gm td by (simp add: igsc_sdb_member_del_def)
qed

text \<open>The timer of a member fires: exactly that member goes.\<close>

lemma timer_spec:
  assumes inv: "sdb_inv s" and g: "igsc_sdb_group_find s ip = Some g" and mh: "mh \<in> set (mh_head g)"
  shows "\<exists>s'. osl_timer s ip (mh_addr mh) = Some s' \<and> sdb_inv s' \<and> sdb_frame s s' \<and>
    sdb_members s' = sdb_members s - {(ip, mh_ip mh, mh_mi mh)}"
proof -
  have t: "tables_ok (igsc_sdb_group_find s) (timers s) (emf_handle s)" and ch: "chains_ok s" using inv by (simp_all add: sdb_inv_def)
  define s0 where "s0 = s\<lparr>timers := (timers s)(mh_addr mh := None)\<rparr>"
  define s1 where "s1 = IGSC_STATS_INCR igmp_mem_timeouts_update s0"
  have c0: "igsc_sdb_group_find s0 = igsc_sdb_group_find s" "chains_ok s0"
    using ch by (simp_all add: s0_def table_cong [of "s\<lparr>timers := (timers s)(mh_addr mh := None)\<rparr>" s])
  have c: "chains_ok s1" "igsc_sdb_group_find s1 = igsc_sdb_group_find s" "emf_handle s1 = emf_handle s"
    "timers s1 = (timers s)(mh_addr mh := None)" "rtlist_head s1 = rtlist_head s" "rt_timers s1 = rt_timers s"
    using c0 by (simp_all add: s1_def s0_def)
  have "distinct (map mh_addr (mh_head g))" by (rule sgroup_okD(1) [OF tables_okD(4) [OF t g]])
  then have "find (\<lambda>m. mh_addr m = mh_addr mh) (mh_head g) = Some mh"
    using find_unique [of mh_addr "mh_head g" mh] mh by (simp add: eq_commute)
  then have eq: "osl_timer s ip (mh_addr mh) = igsc_sdb_mh_delete s1 g mh"
    using g c0 by (simp add: osl_timer_def igsc_sdb_timer_def s0_def [symmetric] s1_def)
  have fr: "sdb_frame s s1" "sdb_members s1 = sdb_members s"
    using c by (simp_all add: sdb_frame_def static_refs_def sdb_members_def)
  show ?thesis unfolding eq
    using mh_delete_spec [of s1 "timers s" mh ip g] c t g mh fr sdb_frame_trans [OF fr(1)] by auto
qed

subsection \<open>Clearing\<close>

text \<open>The table with the entry a loop is working on.\<close>

definition cur :: "igsc_info \<Rightarrow> igsc_mgrp \<Rightarrow> uint32 \<Rightarrow> igsc_mgrp option" where
  "cur s g = (igsc_sdb_group_find s)(sg_ip g := or_none g)"

definition loop_ok :: "igsc_info \<Rightarrow> igsc_mgrp \<Rightarrow> bool" where
  "loop_ok s g \<longleftrightarrow> chains_ok s \<and> igsc_sdb_group_find s (sg_ip g) \<noteq> None \<and> tables_ok (cur s g) (timers s) (emf_handle s)"

definition loop_frame :: "igsc_info \<Rightarrow> igsc_mgrp \<Rightarrow> igsc_info \<Rightarrow> igsc_mgrp \<Rightarrow> bool" where
  "loop_frame s g s' g' \<longleftrightarrow> mgrp_sdb s' = mgrp_sdb s \<and> rtlist_head s' = rtlist_head s \<and> rt_timers s' = rt_timers s \<and>
     iflist_head (emf_handle s') = iflist_head (emf_handle s) \<and> sg_ip g' = sg_ip g \<and>
     own_refs (cur s' g') (emf_handle s') = own_refs (cur s g) (emf_handle s)"

lemma drop_host_spec:
  assumes ok: "loop_ok s g" and mh: "mh \<in> set (mh_head g)"
  shows "\<exists>s'. drop_host mh (s, g) = Some (s', without_host mh g) \<and> loop_ok s' (without_host mh g) \<and>
    loop_frame s g s' (without_host mh g) \<and>
    members (cur s' (without_host mh g)) = members (cur s g) - {(sg_ip g, mh_ip mh, mh_mi mh)}"
proof -
  let ?g = "without_host mh g" and ?G = "cur s g"
  have ch: "chains_ok s" and ne: "igsc_sdb_group_find s (sg_ip g) \<noteq> None" and t: "tables_ok ?G (timers s) (emf_handle s)"
    using ok by (simp_all add: loop_ok_def)
  have g: "?G (sg_ip g) = Some g" using mh by (auto simp: cur_def or_none_def)
  have sgi: "sg_ip ?g = sg_ip g" by (rule without_host_ok(2) [OF tables_okD(4) [OF t g] mh])
  have upd: "?G(sg_ip g := or_none ?g) = (igsc_sdb_group_find s)(sg_ip g := or_none ?g)" by (simp add: cur_def)
  obtain mi where mi: "igsc_sdb_mi_entry_find g (mh_mi mh) = Some mi" "si_ifp mi = mh_mi mh"
    "si_ref mi = word_of_nat (hosts_on g (mh_mi mh))" "si_ref mi - 1 = 0 \<longleftrightarrow> hosts_on g (mh_mi mh) = 1"
    using tables_del(1) [OF t g mh] by blast
  obtain e' where e': "if hosts_on g (mh_mi mh) = 1 then emfc_mfdb_membership_del (emf_handle s) (sg_ip g) (mh_mi mh) = Some (e', SUCCESS)
      else e' = emf_handle s"
    and tab: "tables_ok ((igsc_sdb_group_find s)(sg_ip g := or_none ?g)) ((timers s)(mh_addr mh := None)) e'"
    and own: "own_refs ((igsc_sdb_group_find s)(sg_ip g := or_none ?g)) e' = own_refs ?G (emf_handle s)"
    and ifl: "iflist_head e' = iflist_head (emf_handle s)"
    using tables_del(2) [OF t g mh] unfolding upd by blast
  define s' where "s' = s\<lparr>emf_handle := e', timers := (timers s)(mh_addr mh := None)\<rparr>"
  have tm: "timers s (mh_addr mh) \<noteq> None" using tables_okD(6) [OF t, of "mh_addr mh"] g mh by blast
  have d: "drop_host mh (s, g) = Some (s', ?g)"
    using mi e' tm by (cases "hosts_on g (mh_mi mh) = 1")
      (auto simp: drop_host_def without_host_def Let_def osl_timer_del_def s'_def)
  have m: "mgrp_sdb s' = mgrp_sdb s" by (simp add: s'_def)
  have cur': "cur s' ?g = (igsc_sdb_group_find s)(sg_ip g := or_none ?g)"
    by (simp add: cur_def sgi table_cong(1) [OF m])
  have "loop_ok s' ?g"
    unfolding loop_ok_def cur' using tab ch ne sgi table_cong [OF m] by (simp add: s'_def)
  moreover have "loop_frame s g s' ?g" unfolding loop_frame_def cur' using own ifl sgi by (simp add: s'_def)
  moreover have "members (cur s' ?g) = members ?G - {(sg_ip g, mh_ip mh, mh_mi mh)}"
    unfolding cur' upd [symmetric] by (rule without_host_members [OF t g mh])
  ultimately show ?thesis using d by blast
qed

lemma drop_hosts_spec:
  assumes "loop_ok s g" "set ms \<subseteq> set (mh_head g)" "distinct (map mh_addr ms)"
  shows "\<exists>s' g'. drop_hosts (\<lambda>m. Q (mh_mi m)) ms (s, g) = Some (s', g') \<and> loop_ok s' g' \<and> loop_frame s g s' g' \<and>
    members (cur s' g') = members (cur s g) - {(sg_ip g, mh_ip m, mh_mi m) |m. m \<in> set ms \<and> Q (mh_mi m)}"
  using assms
proof (induction ms arbitrary: s g)
  case Nil
  then show ?case by (simp add: loop_frame_def)
next
  case (Cons mh ms)
  show ?case
  proof (cases "Q (mh_mi mh)")
    case False
    then show ?thesis using Cons.IH [of s g] Cons.prems by auto
  next
    case True
    have mh: "mh \<in> set (mh_head g)" using Cons.prems(2) by simp
    have t: "tables_ok (cur s g) (timers s) (emf_handle s)" using Cons.prems(1) by (simp add: loop_ok_def)
    have g: "cur s g (sg_ip g) = Some g" using mh by (auto simp: cur_def or_none_def)
    note w = without_host_ok [OF tables_okD(4) [OF t g] mh]
    obtain s1 where s1: "drop_host mh (s, g) = Some (s1, without_host mh g)" "loop_ok s1 (without_host mh g)"
      "loop_frame s g s1 (without_host mh g)"
      "members (cur s1 (without_host mh g)) = members (cur s g) - {(sg_ip g, mh_ip mh, mh_mi mh)}"
      using drop_host_spec [OF Cons.prems(1) mh] by blast
    have "set ms \<subseteq> set (mh_head (without_host mh g))"
      unfolding w(3) using Cons.prems(2,3) by (auto simp: image_iff)
    from Cons.IH [OF s1(2) this] Cons.prems(3)
    obtain s' g' where "drop_hosts (\<lambda>m. Q (mh_mi m)) ms (s1, without_host mh g) = Some (s', g')" "loop_ok s' g'"
      "loop_frame s1 (without_host mh g) s' g'" "members (cur s' g') = members (cur s1 (without_host mh g)) -
        {(sg_ip g, mh_ip m, mh_mi m) |m. m \<in> set ms \<and> Q (mh_mi m)}" by (auto simp: w(2))
    then show ?thesis using s1 True by (auto simp: loop_frame_def)
  qed
qed

lemma drop_in_group_spec:
  assumes inv: "sdb_inv s" and g: "igsc_sdb_group_find s (sg_ip g) = Some g"
  shows "\<exists>s'. drop_in_group (\<lambda>m. Q (mh_mi m)) g s = Some s' \<and> sdb_inv s' \<and> sdb_frame s s' \<and>
    sdb_members s' = {(ip, h, i) \<in> sdb_members s. \<not> (ip = sg_ip g \<and> Q i)} \<and>
    (\<forall>ip. ip \<noteq> sg_ip g \<longrightarrow> igsc_sdb_group_find s' ip = igsc_sdb_group_find s ip)"
proof -
  have t: "tables_ok (igsc_sdb_group_find s) (timers s) (emf_handle s)" and ch: "chains_ok s" using inv by (simp_all add: sdb_inv_def)
  have "mh_head g \<noteq> []" by (rule tables_okD(3) [OF t g])
  then have c: "cur s g = igsc_sdb_group_find s" using g by (auto simp: cur_def or_none_def)
  have ok: "loop_ok s g" using t ch g by (simp add: loop_ok_def c)
  have dist: "distinct (map mh_addr (mh_head g))" by (rule sgroup_okD(1) [OF tables_okD(4) [OF t g]])
  obtain s1 g1 where d: "drop_hosts (\<lambda>m. Q (mh_mi m)) (mh_head g) (s, g) = Some (s1, g1)" "loop_ok s1 g1" "loop_frame s g s1 g1"
    "members (cur s1 g1) = members (cur s g) - {(sg_ip g, mh_ip m, mh_mi m) |m. m \<in> set (mh_head g) \<and> Q (mh_mi m)}"
    using drop_hosts_spec [OF ok subset_refl dist, of Q] by blast
  define s' where "s' = commit g1 s1"
  have ok1: "chains_ok s1" "igsc_sdb_group_find s1 (sg_ip g1) \<noteq> None" "tables_ok (cur s1 g1) (timers s1) (emf_handle s1)"
    using d(2) by (simp_all add: loop_ok_def)
  note ct = commit_table [OF ok1(1,2)]
  have G: "igsc_sdb_group_find s' = cur s1 g1" using ct(2) by (simp add: s'_def cur_def)
  have "drop_in_group (\<lambda>m. Q (mh_mi m)) g s = Some s'" using d(1) by (simp add: drop_in_group_def s'_def commit_def)
  moreover have "sdb_inv s'" using ct ok1(3) by (simp add: sdb_inv_def G s'_def [symmetric])
  moreover have "sdb_frame s s'"
    using d(3) ct by (simp add: sdb_frame_def loop_frame_def static_refs_def G c) (simp add: s'_def)
  moreover have "sdb_members s' = {(ip, h, i) \<in> sdb_members s. \<not> (ip = sg_ip g \<and> Q i)}"
    unfolding sdb_members_def G d(4) c using g by (auto simp: members_def host_in_def)
  moreover have "\<forall>ip. ip \<noteq> sg_ip g \<longrightarrow> igsc_sdb_group_find s' ip = igsc_sdb_group_find s ip"
    using d(3) table_cong(1) [of s1 s] by (simp add: G cur_def loop_frame_def)
  ultimately show ?thesis by blast
qed

lemma drop_in_groups_spec:
  assumes "sdb_inv s" "distinct (map sg_ip gs)" "\<forall>g \<in> set gs. igsc_sdb_group_find s (sg_ip g) = Some g"
  shows "\<exists>s'. drop_in_groups (\<lambda>m. Q (mh_mi m)) gs s = Some s' \<and> sdb_inv s' \<and> sdb_frame s s' \<and>
    sdb_members s' = {(ip, h, i) \<in> sdb_members s. \<not> (ip \<in> sg_ip ` set gs \<and> Q i)} \<and>
    (\<forall>ip. ip \<notin> sg_ip ` set gs \<longrightarrow> igsc_sdb_group_find s' ip = igsc_sdb_group_find s ip)"
  using assms
proof (induction gs arbitrary: s)
  case Nil
  then show ?case by auto
next
  case (Cons g gs)
  obtain s1 where s1: "drop_in_group (\<lambda>m. Q (mh_mi m)) g s = Some s1" "sdb_inv s1" "sdb_frame s s1"
    "sdb_members s1 = {(ip, h, i) \<in> sdb_members s. \<not> (ip = sg_ip g \<and> Q i)}"
    "\<forall>ip. ip \<noteq> sg_ip g \<longrightarrow> igsc_sdb_group_find s1 ip = igsc_sdb_group_find s ip"
    using drop_in_group_spec [OF Cons.prems(1), of g Q] Cons.prems(3) by auto
  have "\<forall>x \<in> set gs. igsc_sdb_group_find s1 (sg_ip x) = Some x"
    using s1(5) Cons.prems(2,3) by (auto simp: image_iff)
  from Cons.IH [OF s1(2) _ this] Cons.prems(2)
  obtain s' where "drop_in_groups (\<lambda>m. Q (mh_mi m)) gs s1 = Some s'" "sdb_inv s'" "sdb_frame s1 s'"
    "sdb_members s' = {(ip, h, i) \<in> sdb_members s1. \<not> (ip \<in> sg_ip ` set gs \<and> Q i)}"
    "\<forall>ip. ip \<notin> sg_ip ` set gs \<longrightarrow> igsc_sdb_group_find s' ip = igsc_sdb_group_find s1 ip" by auto
  then show ?case using s1 by (auto intro: sdb_frame_trans)
qed

lemma drop_in_chains_spec:
  assumes "sdb_inv s" "distinct is"
  shows "\<exists>s'. drop_in_chains (\<lambda>m. Q (mh_mi m)) is s = Some s' \<and> sdb_inv s' \<and> sdb_frame s s' \<and>
    sdb_members s' = {(ip, h, i) \<in> sdb_members s. \<not> (IGSDB_MGRP_HASH ip \<in> set is \<and> Q i)}"
  using assms
proof (induction "is" arbitrary: s)
  case Nil
  then show ?case by auto
next
  case (Cons k "is")
  have ch: "chains_ok s" using Cons.prems(1) by (simp add: sdb_inv_def)
  have chain: "distinct (map sg_ip (mgrp_sdb s k))" "\<forall>g \<in> set (mgrp_sdb s k). IGSDB_MGRP_HASH (sg_ip g) = k"
    using ch by (auto simp: chains_ok_def)
  have find: "\<forall>g \<in> set (mgrp_sdb s k). igsc_sdb_group_find s (sg_ip g) = Some g"
    using group_find_mem [OF ch] chain(2) by auto
  obtain s1 where s1: "drop_in_groups (\<lambda>m. Q (mh_mi m)) (mgrp_sdb s k) s = Some s1" "sdb_inv s1" "sdb_frame s s1"
    "sdb_members s1 = {(ip, h, i) \<in> sdb_members s. \<not> (ip \<in> sg_ip ` set (mgrp_sdb s k) \<and> Q i)}"
    using drop_in_groups_spec [OF Cons.prems(1) chain(1) find, of Q] by blast
  have "ip \<in> sg_ip ` set (mgrp_sdb s k) \<longleftrightarrow> IGSDB_MGRP_HASH ip = k" if "(ip, h, i) \<in> sdb_members s" for ip h i
    using that group_find_mem [OF ch] chain(2) by (fastforce simp: sdb_members_def members_def)
  then have m1: "sdb_members s1 = {(ip, h, i) \<in> sdb_members s. \<not> (IGSDB_MGRP_HASH ip = k \<and> Q i)}"
    unfolding s1(4) by blast
  obtain s' where "drop_in_chains (\<lambda>m. Q (mh_mi m)) is s1 = Some s'" "sdb_inv s'" "sdb_frame s1 s'"
    "sdb_members s' = {(ip, h, i) \<in> sdb_members s1. \<not> (IGSDB_MGRP_HASH ip \<in> set is \<and> Q i)}"
    using Cons.IH [OF s1(2)] Cons.prems(2) by auto
  then show ?case using s1(1,3) m1 by (auto intro: sdb_frame_trans)
qed

lemma IGSDB_HASH_bound: "IGSDB_MGRP_HASH ip < IGSDB_HASHT_SIZE"
  using MFDB_MGRP_HASH_bound [of ip]
  by (simp add: IGSDB_MGRP_HASH_def IGSDB_HASHT_SIZE_def MFDB_MGRP_HASH_def MFDB_HASHT_SIZE_def)

lemma sdb_clear_spec:
  assumes "sdb_inv s"
  shows "\<exists>s'. igsc_sdb_clear s = Some s' \<and> sdb_inv s' \<and> sdb_frame s s' \<and> sdb_members s' = {}"
  using drop_in_chains_spec [OF assms, of "[0..<IGSDB_HASHT_SIZE]" "\<lambda>_. True"] IGSDB_HASH_bound
  by (auto simp: igsc_sdb_clear_def)

lemma sdb_interface_del_spec:
  assumes "sdb_inv s" "ifp \<noteq> 0"
  shows "\<exists>s'. igsc_sdb_interface_del s ifp = Some (s', SUCCESS) \<and> sdb_inv s' \<and> sdb_frame s s' \<and>
    sdb_members s' = {(ip, h, i) \<in> sdb_members s. i \<noteq> ifp}"
  using drop_in_chains_spec [OF assms(1), of "[0..<IGSDB_HASHT_SIZE]" "\<lambda>i. i = ifp"] IGSDB_HASH_bound assms(2)
  by (auto simp: igsc_sdb_interface_del_def)

subsection \<open>Adding a member\<close>

definition with_host :: "igsc_mh \<Rightarrow> igsc_mgrp \<Rightarrow> igsc_mgrp" where
  "with_host mh g = add_mh mh
     (if hosts_on g (mh_mi mh) = 0 then g\<lparr>si_head := \<lparr>si_ifp = mh_mi mh, si_ref = 1\<rparr> # si_head g\<rparr>
      else set_ref (mh_mi mh) (word_of_nat (hosts_on g (mh_mi mh)) + 1) g)"

lemma with_host_ok:
  assumes ok: "sgroup_ok g" and new: "\<not> host_in g (mh_ip mh) (mh_mi mh)" "mh_addr mh \<notin> mh_addr ` set (mh_head g)"
    and len: "Suc (length (mh_head g)) < 2 ^ 32"
  shows "sgroup_ok (with_host mh g)" "sg_ip (with_host mh g) = sg_ip g" "mh_head (with_host mh g) = mh # mh_head g"
    "hosts_on (with_host mh g) j = hosts_on g j + (if mh_mi mh = j then 1 else 0)"
proof -
  let ?g = "with_host mh g" and ?i = "mh_mi mh"
  note d = sgroup_okD [OF ok]
  show "sg_ip ?g = sg_ip g" and hd: "mh_head ?g = mh # mh_head g" by (simp_all add: with_host_def)
  show h: "hosts_on ?g j = hosts_on g j + (if ?i = j then 1 else 0)" for j by (simp add: hosts_on_def hd)
  have look: "map_option si_ref (igsc_sdb_mi_entry_find ?g j) = (if hosts_on ?g j = 0 then None else Some (word_of_nat (hosts_on ?g j)))" for j
  proof (cases "hosts_on g ?i = 0")
    case True
    then have "igsc_sdb_mi_entry_find ?g j = (if j = ?i then Some \<lparr>si_ifp = ?i, si_ref = 1\<rparr> else igsc_sdb_mi_entry_find g j)"
      by (auto simp: with_host_def igsc_sdb_mi_entry_find_def)
    then show ?thesis using d(5) [of j] True by (auto simp: h)
  next
    case False
    then have g': "igsc_sdb_mi_entry_find ?g j = igsc_sdb_mi_entry_find (set_ref ?i (word_of_nat (hosts_on g ?i) + 1) g) j"
      by (simp add: with_host_def)
    show ?thesis using d(5) [of j] False unfolding g' mi_find_set_ref by (cases "j = ?i") (auto simp: h)
  qed
  have "?i \<notin> si_ifp ` set (si_head g)" if "hosts_on g ?i = 0"
    using d(5) [of ?i] that by (auto simp: igsc_sdb_mi_entry_find_def find_None_iff)
  then have "distinct (map si_ifp (si_head ?g))" using d(4) by (auto simp: with_host_def simp del: map_map)
  moreover have "distinct (map (\<lambda>m. (mh_ip m, mh_mi m)) (mh_head ?g))" using d(2) new(1) by (auto simp: hd host_in_def)
  ultimately show "sgroup_ok ?g" unfolding sgroup_ok_def using look d(1) new(2) len by (simp add: hd)
qed

text \<open>
  The step of an addition: the entry of the host's group (missing or empty before, for the first
  member) gets the host, its timer is armed and, for the first host on the interface, the
  forwarding database has been told.
\<close>

lemma tables_add:
  assumes t: "tables_ok G ts e" and ip: "sg_ip g \<noteq> 0" and g: "G (sg_ip g) = or_none g" and ok: "sgroup_ok g"
    and new: "\<not> host_in g (mh_ip mh) (mh_mi mh)" "ts (mh_addr mh) = None" and len: "Suc (length (mh_head g)) < 2 ^ 32"
    and inv: "emf_inv e'" and refs: "mfdb_refs e' = (if hosts_on g (mh_mi mh) = 0
      then (mfdb_refs e)(sg_ip g := (mfdb_refs e (sg_ip g))(mh_mi mh := Suc (mfdb_refs e (sg_ip g) (mh_mi mh)))) else mfdb_refs e)"
  shows "tables_ok (G(sg_ip g \<mapsto> with_host mh g)) (ts(mh_addr mh \<mapsto> ms)) e'"
    "members (G(sg_ip g \<mapsto> with_host mh g)) = insert (sg_ip g, mh_ip mh, mh_mi mh) (members G)"
    "own_refs (G(sg_ip g \<mapsto> with_host mh g)) e' = own_refs G e"
proof -
  let ?ip = "sg_ip g" and ?g = "with_host mh g" and ?G = "G(sg_ip g \<mapsto> with_host mh g)"
  note td = tables_okD [OF t]
  have free: "mh_addr m \<noteq> mh_addr mh" if "G ip' = Some g'" "m \<in> set (mh_head g')" for ip' g' m
    using td(6) [of "mh_addr mh"] new(2) that by auto
  have hosts: "G ?ip = Some g" if "m \<in> set (mh_head g)" for m using that g by (auto simp: or_none_def)
  have addr: "mh_addr mh \<notin> mh_addr ` set (mh_head g)" using free hosts by fastforce
  note w = with_host_ok [OF ok new(1) addr len]
  have served: "(\<exists>h. (ip', h, i) \<in> members G) \<longleftrightarrow> (if ip' = ?ip then hosts_on g i > 0 else \<exists>g. G ip' = Some g \<and> hosts_on g i > 0)" for ip' i
    unfolding served_iff using g by (auto simp: or_none_def hosts_on_def)
  show mem: "members ?G = insert (?ip, mh_ip mh, mh_mi mh) (members G)"
  proof -
    have "host_in ?g h i \<longleftrightarrow> (h, i) = (mh_ip mh, mh_mi mh) \<or> host_in g h i" for h i by (auto simp: host_in_def w(3))
    moreover have "(?ip, h, i) \<in> members G \<longleftrightarrow> host_in g h i" for h i
      using g by (auto simp: members_def or_none_def host_in_def)
    ultimately show ?thesis by (auto simp: members_update split: if_splits)
  qed
  have served': "(\<exists>h. (ip', h, i) \<in> members ?G) \<longleftrightarrow> (\<exists>h. (ip', h, i) \<in> members G) \<or> ip' = ?ip \<and> i = mh_mi mh" for ip' i
    unfolding mem by auto
  show "own_refs ?G e' = own_refs G e"
    by (intro ext) (unfold own_refs_def served' served refs, auto)
  show "tables_ok ?G (ts(mh_addr mh \<mapsto> ms)) e'"
    unfolding tables_ok_def
  proof (intro conjI allI impI, goal_cases)
    case (1 ip' g') then show ?case using td(1) [of ip' g'] w(2) by (auto split: if_splits)
  next
    case (2 ip' g') then show ?case using td(2) [of ip' g'] ip by (auto split: if_splits)
  next
    case (3 ip' g') then show ?case using td(3) [of ip' g'] w(3) by (auto split: if_splits)
  next
    case (4 ip' g') then show ?case using td(4) [of ip' g'] w(1) by (auto split: if_splits)
  next
    case (5 ip1 ip2 g1 g2 m1 m2)
    have old: "ip' = ?ip \<and> g' = ?g \<and> m = mh \<or> (\<exists>g0. G ip' = Some g0 \<and> m \<in> set (mh_head g0))"
      if "?G ip' = Some g'" "m \<in> set (mh_head g')" for ip' g' m
      using that hosts [of m] w(3) by (auto split: if_splits)
    show ?case using old [OF 5(1,3)] old [OF 5(2,4)] 5(5) td(5) free by metis
  next
    case (6 a)
    have "(\<exists>ip' g' m. ?G ip' = Some g' \<and> m \<in> set (mh_head g') \<and> mh_addr m = a) \<longleftrightarrow>
        a = mh_addr mh \<or> (\<exists>ip' g' m. G ip' = Some g' \<and> m \<in> set (mh_head g') \<and> mh_addr m = a)" (is "?L \<longleftrightarrow> ?R")
    proof
      assume ?L
      then obtain ip' g' m where m: "?G ip' = Some g'" "m \<in> set (mh_head g')" "mh_addr m = a" by blast
      show ?R
      proof (cases "ip' = ?ip \<and> m \<noteq> mh")
        case True then show ?thesis using m w(3) hosts [of m] by auto
      next
        case False then show ?thesis using m by (cases "ip' = ?ip") auto
      qed
    next
      assume ?R
      moreover have "?G ?ip = Some ?g" "mh \<in> set (mh_head ?g)" by (simp_all add: w(3))
      moreover have "\<exists>g''. ?G ip' = Some g'' \<and> m \<in> set (mh_head g'')" if "G ip' = Some g'" "m \<in> set (mh_head g')" for ip' g' m
        using that g w(3) by (cases "ip' = ?ip") (auto simp: or_none_def split: if_splits)
      ultimately show ?L by blast
    qed
    then show ?case using td(6) [of a] by auto
  next
    case 7 show ?case by (rule inv)
  next
    case (8 ip' g' i)
    show ?case
    proof (cases "ip' = ?ip")
      case True
      have "mfdb_refs e ?ip i > 0" if "hosts_on g i > 0"
        using that td(8) [of ?ip g i] g by (auto simp: or_none_def hosts_on_def split: if_splits)
      then show ?thesis using True 8 w(4) [of i] unfolding refs by auto
    next
      case False then show ?thesis using 8 td(8) [of ip' g' i] unfolding refs by auto
    qed
  qed
qed

text \<open>What an addition needs of the allocator: fresh addresses, and counts short of overflow.\<close>

definition add_ready :: "sdb_alloc \<Rightarrow> igsc_info \<Rightarrow> uint32 \<Rightarrow> nat \<Rightarrow> bool" where
  "add_ready al s ip ifp \<longleftrightarrow> ip \<noteq> 0 \<and> (\<forall>a. new_mh al = Some a \<longrightarrow> timers s a = None) \<and>
     alloc_ready (emf_al al) (emf_handle s) \<and> Suc (mfdb_refs (emf_handle s) ip ifp) < 2 ^ 32 \<and>
     (\<forall>g. igsc_sdb_group_find s ip = Some g \<longrightarrow> Suc (length (mh_head g)) < 2 ^ 32)"

definition alloc_all :: "sdb_alloc \<Rightarrow> bool" where
  "alloc_all al \<longleftrightarrow> ok_grp al \<and> new_mh al \<noteq> None \<and> ok_timer al \<and> ok_if al \<and> ok_mgrp (emf_al al) \<and> ok_mi (emf_al al)"

text \<open>The outcome of an addition, relative to a table \<open>G\<close> and database \<open>e\<close> before it.\<close>

definition added :: "(uint32 \<Rightarrow> igsc_mgrp option) \<Rightarrow> igsc_info \<Rightarrow> sdb_alloc \<Rightarrow> uint32 \<times> uint32 \<times> nat \<Rightarrow> igsc_info \<times> int \<Rightarrow> bool" where
  "added G s al x r \<longleftrightarrow> sdb_inv (fst r) \<and> rtlist_head (fst r) = rtlist_head s \<and> rt_timers (fst r) = rt_timers s \<and>
     iflist_head (emf_handle (fst r)) = iflist_head (emf_handle s) \<and> static_refs (fst r) = own_refs G (emf_handle s) \<and>
     (snd r = SUCCESS \<and> sdb_members (fst r) = insert x (members G) \<or> snd r = FAILURE \<and> sdb_members (fst r) = members G) \<and>
     (alloc_all al \<longrightarrow> snd r = SUCCESS)"

lemma own_refs_cong: "mfdb_refs e' = mfdb_refs e \<Longrightarrow> own_refs G e' = own_refs G e"
  by (simp add: own_refs_def fun_eq_iff)

lemma tables_ok_emf: "tables_ok G ts e \<Longrightarrow> emf_inv e' \<Longrightarrow> mfdb_refs e' = mfdb_refs e \<Longrightarrow> tables_ok G ts e'"
  unfolding tables_ok_def by simp

lemma add_exit1_spec:
  assumes ch: "chains_ok s" and g: "igsc_sdb_group_find s (sg_ip g) = Some g" and t: "tables_ok (cur s g) (timers s') (emf_handle s')"
    and s': "mgrp_sdb s' = mgrp_sdb s" "rtlist_head s' = rtlist_head s" "rt_timers s' = rt_timers s"
      "iflist_head (emf_handle s') = iflist_head (emf_handle s)" "mfdb_refs (emf_handle s') = mfdb_refs (emf_handle s)"
    and al: "\<not> alloc_all al"
  shows "added (cur s g) s al x (add_exit1 g s')"
proof -
  define r where "r = fst (add_exit1 g s')"
  have ch': "chains_ok s'" using ch table_cong(2) [OF s'(1)] by simp
  have G: "igsc_sdb_group_find r = cur s g" and c: "chains_ok r"
    using unlink_group_table [OF ch', of "sg_ip g"] ch' g table_cong(1) [OF s'(1)]
    by (auto simp: r_def add_exit1_def cur_def or_none_def)
  have f: "timers r = timers s'" "emf_handle r = emf_handle s'" "rtlist_head r = rtlist_head s'" "rt_timers r = rt_timers s'"
    by (simp_all add: r_def add_exit1_def table_frame)
  have "own_refs (cur s g) (emf_handle s') = own_refs (cur s g) (emf_handle s)" by (rule own_refs_cong) (rule s')
  then show ?thesis
    unfolding added_def r_def [symmetric] using t c f s' al
    by (simp add: sdb_inv_def G static_refs_def sdb_members_def add_exit1_def)
qed

lemma put_host_spec:
  assumes ch: "chains_ok s" and g: "igsc_sdb_group_find s (sg_ip g) = Some g" and t: "tables_ok (cur s g) (timers s) (emf_handle s)"
    and ip: "sg_ip g \<noteq> 0" and ok: "sgroup_ok g" and new: "\<not> host_in g (mh_ip mh) (mh_mi mh)" "timers s (mh_addr mh) = None"
    and len: "Suc (length (mh_head g)) < 2 ^ 32"
    and inv: "emf_inv e'" and refs: "mfdb_refs e' = (if hosts_on g (mh_mi mh) = 0
      then (mfdb_refs (emf_handle s))(sg_ip g := (mfdb_refs (emf_handle s) (sg_ip g))(mh_mi mh := Suc (mfdb_refs (emf_handle s) (sg_ip g) (mh_mi mh))))
      else mfdb_refs (emf_handle s))"
    and s': "mgrp_sdb s' = mgrp_sdb s" "rtlist_head s' = rtlist_head s" "rt_timers s' = rt_timers s" "emf_handle s' = e'"
      "iflist_head e' = iflist_head (emf_handle s)" "timers s' = (timers s)(mh_addr mh \<mapsto> ms)"
  shows "added (cur s g) s al (sg_ip g, mh_ip mh, mh_mi mh) (put_group (with_host mh g) s', SUCCESS)"
proof -
  have g0: "cur s g (sg_ip g) = or_none g" by (simp add: cur_def)
  note a = tables_add [OF t ip g0 ok new len inv refs]
  have ch': "chains_ok s'" using ch table_cong(2) [OF s'(1)] by simp
  have gi: "sg_ip (with_host mh g) = sg_ip g" by (simp add: with_host_def)
  have ne: "igsc_sdb_group_find s' (sg_ip (with_host mh g)) \<noteq> None" using g table_cong(1) [OF s'(1)] gi by simp
  have G: "igsc_sdb_group_find (put_group (with_host mh g) s') = (cur s g)(sg_ip g \<mapsto> with_host mh g)"
    using put_group_table(2) [OF ch' ne] gi table_cong(1) [OF s'(1)] by (simp add: cur_def)
  show ?thesis
    unfolding added_def using a put_group_table(1) [OF ch' ne] s'
    by (simp add: sdb_inv_def static_refs_def sdb_members_def G table_frame)
qed

lemma add_host_spec:
  assumes ch: "chains_ok s" and g: "igsc_sdb_group_find s (sg_ip g) = Some g" and t: "tables_ok (cur s g) (timers s) (emf_handle s)"
    and ok: "sgroup_ok g" and new: "\<not> host_in g host ifp" and rdy: "add_ready al s (sg_ip g) ifp"
  shows "\<exists>r. add_host al s g ifp host = Some r \<and> added (cur s g) s al (sg_ip g, host, ifp) r"
proof -
  let ?e = "emf_handle s"
  have ip: "sg_ip g \<noteq> 0" and em: "alloc_ready (emf_al al) ?e" and bd: "Suc (mfdb_refs ?e (sg_ip g) ifp) < 2 ^ 32"
    and len: "Suc (length (mh_head g)) < 2 ^ 32" and fr: "\<And>a. new_mh al = Some a \<Longrightarrow> timers s a = None"
    using rdy g by (auto simp: add_ready_def)
  have inv: "emf_inv ?e" by (rule tables_okD(7) [OF t])
  show ?thesis
  proof (cases "new_mh al = None \<or> \<not> ok_timer al")
    case True
    have "added (cur s g) s al (sg_ip g, host, ifp) (add_exit1 g s')"
      if "s' = s \<or> s' = IGSC_STATS_INCR igmp_mcast_members_update s" for s'
      by (rule add_exit1_spec [OF ch g]) (use that t True in \<open>auto simp: alloc_all_def\<close>)
    note undone = this
    show ?thesis
    proof (cases "new_mh al")
      case None
      then have "add_host al s g ifp host = Some (add_exit1 g s)" by (simp add: add_host_def)
      then show ?thesis using undone [of s] by blast
    next
      case (Some a)
      then have "add_host al s g ifp host = Some (add_exit1 g (IGSC_STATS_INCR igmp_mcast_members_update s))"
        using True by (simp add: add_host_def Let_def)
      then show ?thesis using undone [of "IGSC_STATS_INCR igmp_mcast_members_update s"] by blast
    qed
  next
    case False
    then obtain a where a: "new_mh al = Some a" and tm: "ok_timer al" by auto
    let ?mh = "\<lparr>mh_addr = a, mh_ip = host, mh_mi = ifp\<rparr>"
    define s1 where "s1 = osl_timer_add a (grp_mem_intv s) (IGSC_STATS_INCR igmp_mcast_members_update s)"
    have s1: "mgrp_sdb s1 = mgrp_sdb s" "rtlist_head s1 = rtlist_head s" "rt_timers s1 = rt_timers s" "emf_handle s1 = ?e"
      "timers s1 = (timers s)(a \<mapsto> grp_mem_intv s)" by (simp_all add: s1_def osl_timer_add_def)
    note put = put_host_spec [OF ch g t ip ok, of ?mh, unfolded igsc_mh.simps, OF new fr [OF a] len]
    show ?thesis
    proof (cases "hosts_on g ifp = 0")
      case False
      obtain mi where mi: "igsc_sdb_mi_entry_find g ifp = Some mi" "si_ref mi = word_of_nat (hosts_on g ifp)"
        using sgroup_okD(5) [OF ok, of ifp] False by auto
      have "add_host al s g ifp host = Some (put_group (with_host ?mh g) s1, SUCCESS)"
        using a tm mi False by (simp add: add_host_def s1_def with_host_def)
      then show ?thesis using put [of ?e s1 "grp_mem_intv s" al] inv s1 False by auto
    next
      case True
      have none: "igsc_sdb_mi_entry_find g ifp = None" using sgroup_okD(5) [OF ok, of ifp] True by auto
      obtain e1 r1 where add: "emfc_mfdb_membership_add (emf_al al) ?e (sg_ip g) ifp = Some (e1, r1)" "emf_inv e1"
        "iflist_head e1 = iflist_head ?e" "(mfdb_refs e1, r1) = refs_add (emf_al al) (mfdb_refs ?e) (sg_ip g) ifp"
        using membership_add_refs [of ?e "sg_ip g" "emf_al al" ifp] inv ip em bd by (auto simp: emf_inv_def alloc_ready_def)
      have undo: "\<exists>r. map_option (add_exit1 g) (osl_timer_del a (s1\<lparr>emf_handle := e\<rparr>)) = Some r \<and>
          added (cur s g) s al (sg_ip g, host, ifp) r"
        if "emf_inv e" "mfdb_refs e = mfdb_refs ?e" "iflist_head e = iflist_head ?e" "\<not> alloc_all al" for e
      proof -
        let ?s = "s1\<lparr>emf_handle := e, timers := (timers s1)(a := None)\<rparr>"
        have tt: "timers ?s = timers s" using s1(5) fr [OF a] by (auto simp: fun_eq_iff)
        have "added (cur s g) s al (sg_ip g, host, ifp) (add_exit1 g ?s)"
          by (rule add_exit1_spec [OF ch g]) (use that s1 tables_ok_emf [OF t that(1,2)] tt in simp_all)
        then show ?thesis using s1(5) by (simp add: osl_timer_del_def)
      qed
      consider "r1 = FAILURE" "mfdb_refs e1 = mfdb_refs ?e" "\<not> alloc_all al"
        | "r1 = SUCCESS" "mfdb_refs e1 = (mfdb_refs ?e)(sg_ip g := (mfdb_refs ?e (sg_ip g))(ifp := Suc (mfdb_refs ?e (sg_ip g) ifp)))"
        using add(4) by (auto simp: refs_add_def alloc_all_def split: if_splits)
      then show ?thesis
      proof cases
        case 1
        have "add_host al s g ifp host = map_option (add_exit1 g) (osl_timer_del a (s1\<lparr>emf_handle := e1\<rparr>))"
          using a tm none add(1) 1(1) by (simp add: add_host_def s1_def [symmetric] s1(4) SUCCESS_def FAILURE_def)
        then show ?thesis using undo [OF add(2) 1(2) add(3) 1(3)] by simp
      next
        case 2
        show ?thesis
        proof (cases "ok_if al")
          case True
          have "add_host al s g ifp host = Some (put_group (with_host ?mh g) (s1\<lparr>emf_handle := e1\<rparr>), SUCCESS)"
            using a tm none add(1) 2(1) True \<open>hosts_on g ifp = 0\<close>
            by (simp add: add_host_def s1_def [symmetric] s1(4) with_host_def)
          then show ?thesis
            using put [of e1 "s1\<lparr>emf_handle := e1\<rparr>" "grp_mem_intv s" al] add(2,3) 2(2) s1 \<open>hosts_on g ifp = 0\<close> by auto
        next
          case False
          obtain e2 r2 where del: "emfc_mfdb_membership_del e1 (sg_ip g) ifp = Some (e2, r2)" "emf_inv e2"
            "iflist_head e2 = iflist_head e1" "mfdb_refs e2 = mfdb_refs ?e"
            using membership_del_refs [of e1 "sg_ip g" ifp] add(2) ip 2(2)
            by (auto simp: emf_inv_def refs_del_def fun_upd_idem_iff)
          have "add_host al s g ifp host = map_option (add_exit1 g) (osl_timer_del a (s1\<lparr>emf_handle := e2\<rparr>))"
            using a tm none add(1) 2(1) False del(1) by (simp add: add_host_def s1_def [symmetric] s1(4))
          then show ?thesis using undo [OF del(2,4)] del(3) add(3) False by (simp add: alloc_all_def)
        qed
      qed
    qed
  qed
qed

lemma member_add_spec:
  assumes inv: "sdb_inv s" and rdy: "add_ready al s ip ifp"
  shows "\<exists>s' r. igsc_sdb_member_add al s ifp ip host = Some (s', r) \<and> sdb_inv s' \<and> sdb_frame s s' \<and>
    (r = SUCCESS \<and> sdb_members s' = insert (ip, host, ifp) (sdb_members s) \<or> r = FAILURE \<and> sdb_members s' = sdb_members s) \<and>
    (alloc_all al \<longrightarrow> r = SUCCESS)"
proof -
  have t: "tables_ok (igsc_sdb_group_find s) (timers s) (emf_handle s)" and ch: "chains_ok s" using inv by (simp_all add: sdb_inv_def)
  have fin: ?thesis if "igsc_sdb_member_add al s ifp ip host = Some r" "added (igsc_sdb_group_find s) s al (ip, host, ifp) r" for r
    using that by (cases r) (auto simp: added_def sdb_frame_def static_refs_def sdb_members_def)
  show ?thesis
  proof (cases "igsc_sdb_group_find s ip")
    case None
    let ?g = "\<lparr>sg_ip = ip, mh_head = [], si_head = []\<rparr>"
    define s1 where "s1 = IGSC_STATS_INCR igmp_mcast_groups_update (new_group ?g s)"
    show ?thesis
    proof (cases "ok_grp al")
      case True
      have n: "chains_ok s1" "igsc_sdb_group_find s1 = (igsc_sdb_group_find s)(ip \<mapsto> ?g)"
        using new_group_table [OF ch, of ?g] None by (simp_all add: s1_def)
      have f: "timers s1 = timers s" "emf_handle s1 = emf_handle s" "rtlist_head s1 = rtlist_head s" "rt_timers s1 = rt_timers s"
        by (simp_all add: s1_def table_frame)
      have c: "cur s1 ?g = igsc_sdb_group_find s" using None by (auto simp: cur_def or_none_def n)
      have r1: "add_ready al s1 (sg_ip ?g) ifp" using rdy by (simp add: add_ready_def f n)
      have "\<exists>r. add_host al s1 ?g ifp host = Some r \<and> added (cur s1 ?g) s1 al (sg_ip ?g, host, ifp) r"
        by (rule add_host_spec [OF n(1)])
          (use n(2) t r1 in \<open>simp_all add: c f sgroup_ok_def igsc_sdb_mi_entry_find_def hosts_on_def host_in_def\<close>)
      then obtain r where r: "add_host al s1 ?g ifp host = Some r" "added (igsc_sdb_group_find s) s1 al (ip, host, ifp) r"
        unfolding c by auto
      have "igsc_sdb_member_add al s ifp ip host = Some r"
        using None True r(1) by (simp add: igsc_sdb_member_add_def s1_def)
      moreover have "added (igsc_sdb_group_find s) s al (ip, host, ifp) r"
        using r(2) by (simp add: added_def f)
      ultimately show ?thesis by (rule fin)
    qed (use None inv in \<open>simp add: igsc_sdb_member_add_def alloc_all_def\<close>)
  next
    case (Some g)
    have ip: "sg_ip g = ip" by (rule group_find_ip [OF Some])
    have c: "cur s g = igsc_sdb_group_find s" using Some tables_okD(3) [OF t Some] by (auto simp: cur_def or_none_def ip)
    show ?thesis
    proof (cases "igsc_sdb_mh_entry_find g host ifp")
      case None
      have "\<not> host_in g host ifp" using None by (auto simp: igsc_sdb_mh_entry_find_def find_None_iff host_in_def)
      then have "\<exists>r. add_host al s g ifp host = Some r \<and> added (cur s g) s al (sg_ip g, host, ifp) r"
        using add_host_spec [OF ch _ _ tables_okD(4) [OF t Some], of host ifp al] Some t rdy by (simp add: ip c)
      then show ?thesis using fin None Some by (auto simp: igsc_sdb_member_add_def c ip)
    next
      case old: (Some mh)
      then have mh: "mh \<in> set (mh_head g)" "mh_ip mh = host" "mh_mi mh = ifp"
        by (auto simp: igsc_sdb_mh_entry_find_def find_Some_iff)
      have live: "timers s (mh_addr mh) \<noteq> None" using tables_okD(6) [OF t, of "mh_addr mh"] Some mh by blast
      define s1 where "s1 = s\<lparr>timers := (timers s)(mh_addr mh \<mapsto> grp_mem_intv s)\<rparr>"
      have c1: "igsc_sdb_group_find s1 = igsc_sdb_group_find s" "chains_ok s1" using ch table_cong [of s1 s] by (simp_all add: s1_def)
      have f: "emf_handle s1 = emf_handle s" "rtlist_head s1 = rtlist_head s" "rt_timers s1 = rt_timers s"
        by (simp_all add: s1_def)
      have dom: "timers s1 a \<noteq> None \<longleftrightarrow> timers s a \<noteq> None" for a using live by (auto simp: s1_def)
      have "tables_ok (igsc_sdb_group_find s) (timers s1) (emf_handle s)" using t unfolding tables_ok_def dom .
      moreover have "(ip, host, ifp) \<in> members (igsc_sdb_group_find s)"
        using Some mh by (auto simp: members_def host_in_def)
      moreover have "igsc_sdb_member_add al s ifp ip host = Some (s1, SUCCESS)"
        using Some old live by (auto simp: igsc_sdb_member_add_def osl_timer_update_def s1_def)
      ultimately show ?thesis using c1
        by (simp add: sdb_inv_def f sdb_frame_def static_refs_def sdb_members_def insert_absorb)
    qed
  qed
qed

subsection \<open>Listing\<close>

lemma sdb_list_set:
  assumes ch: "chains_ok s"
  shows "set (igsc_sdb_list s) = sdb_members s"
proof -
  have g: "(\<exists>k < IGSDB_HASHT_SIZE. g \<in> set (mgrp_sdb s k)) \<longleftrightarrow> igsc_sdb_group_find s (sg_ip g) = Some g" for g
    using group_find_mem [OF ch, of "sg_ip g" g] IGSDB_HASH_bound ch by (auto simp: chains_ok_def)
  have "(ip, h, i) \<in> set (igsc_sdb_list s) \<longleftrightarrow>
      (\<exists>g. (\<exists>k < IGSDB_HASHT_SIZE. g \<in> set (mgrp_sdb s k)) \<and> sg_ip g = ip \<and> host_in g h i)" for ip h i
    unfolding igsc_sdb_list_def host_in_def by (simp add: image_iff Bex_def) blast
  moreover have "(\<exists>g. igsc_sdb_group_find s (sg_ip g) = Some g \<and> sg_ip g = ip \<and> host_in g h i) \<longleftrightarrow> (ip, h, i) \<in> sdb_members s" for ip h i
    using group_find_ip by (auto simp: sdb_members_def members_def)
  ultimately show ?thesis unfolding g by auto
qed

lemma sdb_list_distinct:
  assumes inv: "sdb_inv s"
  shows "distinct (igsc_sdb_list s)"
proof -
  have t: "tables_ok (igsc_sdb_group_find s) (timers s) (emf_handle s)" and ch: "chains_ok s" using inv by (simp_all add: sdb_inv_def)
  define f :: "igsc_mgrp \<Rightarrow> (uint32 \<times> uint32 \<times> nat) list" where "f = (\<lambda>g. map (\<lambda>m. (sg_ip g, mh_ip m, mh_mi m)) (mh_head g))"
  have chain: "\<And>k. distinct (map sg_ip (mgrp_sdb s k))" "\<And>g k. g \<in> set (mgrp_sdb s k) \<Longrightarrow> IGSDB_MGRP_HASH (sg_ip g) = k"
    using ch by (auto simp: chains_ok_def)
  have one: "distinct (map id (f g))" if g: "g \<in> set (mgrp_sdb s k)" for g k
  proof -
    have "igsc_sdb_group_find s (sg_ip g) = Some g" using group_find_mem [OF ch] g chain(2) [OF g] by auto
    then have "distinct (map (\<lambda>m. (mh_ip m, mh_mi m)) (mh_head g))" by (rule sgroup_okD(2) [OF tables_okD(4) [OF t]])
    then show ?thesis by (auto simp: f_def distinct_map inj_on_def)
  qed
  have key: "fst x = sg_ip g" if "x \<in> set (f g)" for x g using that by (auto simp: f_def)
  have row: "distinct (map id (concat (map f (mgrp_sdb s k))))" for k
  proof (rule distinct_map_concat)
    show "distinct (mgrp_sdb s k)" using chain(1) [of k] by (simp add: distinct_map)
    show "g = g'" if "g \<in> set (mgrp_sdb s k)" "g' \<in> set (mgrp_sdb s k)" "x \<in> set (f g)" "y \<in> set (f g')" "id x = id y" for g g' x y
      using inj_onD [of sg_ip "set (mgrp_sdb s k)" g g'] key [OF that(3)] key [OF that(4)] that chain(1) [of k]
      by (simp add: distinct_map)
  qed (rule one)
  have "distinct (map id (concat (map (\<lambda>k. concat (map f (mgrp_sdb s k))) [0..<IGSDB_HASHT_SIZE])))"
  proof (rule distinct_map_concat)
    show "j = k" if "x \<in> set (concat (map f (mgrp_sdb s j)))" "y \<in> set (concat (map f (mgrp_sdb s k)))" "id x = id y" for j k x y
    proof -
      note h = that
      obtain g g' where g: "g \<in> set (mgrp_sdb s j)" "x \<in> set (f g)" "g' \<in> set (mgrp_sdb s k)" "y \<in> set (f g')"
        using h(1,2) unfolding set_concat set_map by blast
      then show ?thesis using key [OF g(2)] key [OF g(4)] chain(2) [OF g(1)] chain(2) [OF g(3)] h(3) by simp
    qed
  qed (simp_all add: row [simplified])
  then show ?thesis by (simp add: igsc_sdb_list_def f_def)
qed

subsection \<open>Runs\<close>

text \<open>
  The operations the rest of the snooper performs on the database: a report, a leave, the expiry
  of a member's timer, the removal of an interface, and clearing.
\<close>

datatype sdb_op =
    Report sdb_alloc nat uint32 uint32
  | Leave nat uint32 uint32
  | Expire nat uint32 uint32
  | Interface_del nat
  | Clear_all

fun sdb_step :: "sdb_op \<Rightarrow> igsc_info \<Rightarrow> (igsc_info \<times> int) option" where
  "sdb_step (Report al ifp ip host) s = igsc_sdb_member_add al s ifp ip host"
| "sdb_step (Leave ifp ip host) s = igsc_sdb_member_del s ifp ip host"
| "sdb_step (Expire ifp ip host) s =
     (case igsc_sdb_member_find s ip host ifp of None \<Rightarrow> None
      | Some (g, mh) \<Rightarrow> map_option (\<lambda>s. (s, SUCCESS)) (osl_timer s ip (mh_addr mh)))"
| "sdb_step (Interface_del ifp) s = igsc_sdb_interface_del s ifp"
| "sdb_step Clear_all s = map_option (\<lambda>s. (s, SUCCESS)) (igsc_sdb_clear s)"

text \<open>When an operation can occur: reports need fresh addresses and counts below their limit,
  and only the timer of a member can expire.\<close>

fun op_ready :: "sdb_op \<Rightarrow> igsc_info \<Rightarrow> bool" where
  "op_ready (Report al ifp ip host) s = add_ready al s ip ifp"
| "op_ready (Expire ifp ip host) s = ((ip, host, ifp) \<in> sdb_members s)"
| "op_ready (Interface_del ifp) s = (ifp \<noteq> 0)"
| "op_ready _ s = True"

text \<open>What an operation promises: its effect on the set of members, and when it succeeds.\<close>

fun members_after :: "sdb_op \<Rightarrow> int \<Rightarrow> (uint32 \<times> uint32 \<times> nat) set \<Rightarrow> (uint32 \<times> uint32 \<times> nat) set" where
  "members_after (Report al ifp ip host) r M = (if r = SUCCESS then insert (ip, host, ifp) M else M)"
| "members_after (Leave ifp ip host) r M = M - {(ip, host, ifp)}"
| "members_after (Expire ifp ip host) r M = M - {(ip, host, ifp)}"
| "members_after (Interface_del ifp) r M = {(ip, h, i) \<in> M. i \<noteq> ifp}"
| "members_after Clear_all r M = {}"

fun must_succeed :: "sdb_op \<Rightarrow> (uint32 \<times> uint32 \<times> nat) set \<Rightarrow> bool" where
  "must_succeed (Report al ifp ip host) M = alloc_all al"
| "must_succeed (Leave ifp ip host) M = ((ip, host, ifp) \<in> M)"
| "must_succeed _ M = True"

lemma member_find_in:
  assumes "(ip, host, ifp) \<in> sdb_members s"
  shows "\<exists>g mh. igsc_sdb_member_find s ip host ifp = Some (g, mh) \<and> igsc_sdb_group_find s ip = Some g \<and>
    mh \<in> set (mh_head g) \<and> mh_ip mh = host \<and> mh_mi mh = ifp"
proof -
  obtain g m where g: "igsc_sdb_group_find s ip = Some g" "m \<in> set (mh_head g)" "mh_ip m = host" "mh_mi m = ifp"
    using assms by (auto simp: sdb_members_def members_def host_in_def)
  then have "igsc_sdb_mh_entry_find g host ifp \<noteq> None" by (auto simp: igsc_sdb_mh_entry_find_def find_None_iff)
  then obtain mh where "igsc_sdb_mh_entry_find g host ifp = Some mh" by blast
  then show ?thesis using g(1) by (auto simp: igsc_sdb_member_find_def igsc_sdb_mh_entry_find_def find_Some_iff)
qed

lemma sdb_step_spec:
  assumes inv: "sdb_inv s" and rdy: "op_ready op s"
  shows "\<exists>s' r. sdb_step op s = Some (s', r) \<and> sdb_inv s' \<and> sdb_frame s s' \<and>
    sdb_members s' = members_after op r (sdb_members s) \<and> (must_succeed op (sdb_members s) \<longrightarrow> r = SUCCESS)"
proof (cases op)
  case (Report al ifp ip host)
  obtain s' r where a: "igsc_sdb_member_add al s ifp ip host = Some (s', r)" "sdb_inv s'" "sdb_frame s s'"
    "r = SUCCESS \<and> sdb_members s' = insert (ip, host, ifp) (sdb_members s) \<or> r = FAILURE \<and> sdb_members s' = sdb_members s"
    "alloc_all al \<longrightarrow> r = SUCCESS"
    using member_add_spec [OF inv rdy [unfolded Report op_ready.simps], of host] by blast
  have "sdb_members s' = members_after op r (sdb_members s)" using a(4) unfolding Report
    by (elim disjE conjE) (simp_all add: SUCCESS_def FAILURE_def)
  then show ?thesis using a(1,2,3,5) unfolding Report by simp
next
  case (Leave ifp ip host)
  then show ?thesis using member_del_spec [OF inv, of ifp ip host] by auto
next
  case (Expire ifp ip host)
  then obtain g mh where g: "igsc_sdb_member_find s ip host ifp = Some (g, mh)" "igsc_sdb_group_find s ip = Some g"
    "mh \<in> set (mh_head g)" "mh_ip mh = host" "mh_mi mh = ifp" using member_find_in [of ip host ifp s] rdy by auto
  then show ?thesis using timer_spec [OF inv g(2,3)] Expire by auto
next
  case (Interface_del ifp)
  then show ?thesis using sdb_interface_del_spec [OF inv, of ifp] rdy by auto
next
  case Clear_all
  then show ?thesis using sdb_clear_spec [OF inv] by auto
qed

text \<open>States a run of operations leads to.\<close>

inductive sdb_reach :: "igsc_info \<Rightarrow> igsc_info \<Rightarrow> bool" for s0 where
  start: "sdb_reach s0 s0"
| step: "sdb_reach s0 s \<Longrightarrow> op_ready op s \<Longrightarrow> sdb_step op s = Some (s', r) \<Longrightarrow> sdb_reach s0 s'"

lemma sdb_reach_inv:
  assumes "sdb_reach s0 s" "sdb_inv s0"
  shows "sdb_inv s \<and> sdb_frame s0 s"
  using assms
proof (induction rule: sdb_reach.induct)
  case (step s op s' r)
  then show ?case using sdb_step_spec [of s op] sdb_frame_trans [of s0 s s'] by auto
qed simp

lemma refs_split:
  assumes "sdb_inv s"
  shows "mfdb_refs (emf_handle s) ip i = static_refs s ip i + (if \<exists>host. (ip, host, i) \<in> sdb_members s then 1 else 0)"
proof (cases "\<exists>host. (ip, host, i) \<in> sdb_members s")
  case True
  then obtain host where "(ip, host, i) \<in> members (igsc_sdb_group_find s)" by (auto simp: sdb_members_def)
  then have "static_refs s ip i + 1 = mfdb_refs (emf_handle s) ip i"
    unfolding static_refs_def using assms by (intro members_same) (auto simp: sdb_inv_def)
  then show ?thesis using True by simp
qed (simp add: static_refs_def own_refs_def sdb_members_def)

text \<open>The instance \<open>igsc_init\<close> starts from: zeroed, with the default intervals in milliseconds.\<close>

definition IGMPV2_QUERY_INTV :: uint32 where "IGMPV2_QUERY_INTV = 130000"
definition IGMPV2_GRP_MEM_INTV :: uint32 where "IGMPV2_GRP_MEM_INTV = 2 * IGMPV2_QUERY_INTV + 10000"

definition igsc_zero :: "emfc_info \<Rightarrow> igsc_info" where
  "igsc_zero e = \<lparr>mgrp_sdb = \<lambda>_. [], emf_handle = e, grp_mem_intv = IGMPV2_GRP_MEM_INTV, query_intv = IGMPV2_QUERY_INTV, rtlist_head = [],
     igs_stats = \<lparr>igmp_packets = 0, igmp_queries = 0, igmp_reports = 0, igmp_v2reports = 0, igmp_leaves = 0,
       igmp_not_handled = 0, igmp_mem_timeouts = 0, igs_frames_fwd = 0, igs_frames_sentup = 0, igmp_mcast_groups = 0,
       igmp_mcast_members = 0\<rparr>,
     timers = Map.empty, rt_timers = Map.empty\<rparr>"

lemma igsc_zero_inv:
  assumes "emf_inv e"
  shows "sdb_inv (igsc_sdb_init (igsc_zero e))" "sdb_members (igsc_sdb_init (igsc_zero e)) = {}"
    "static_refs (igsc_sdb_init (igsc_zero e)) = mfdb_refs e" "emf_handle (igsc_sdb_init (igsc_zero e)) = e"
proof -
  have c: "igsc_sdb_init (igsc_zero e) = igsc_zero e"
    by (intro igsc_info.equality) (auto simp: igsc_sdb_init_def igsc_zero_def)
  have n: "igsc_sdb_group_find (igsc_zero e) = (\<lambda>_. None)" by (simp add: igsc_sdb_group_find_def igsc_zero_def fun_eq_iff)
  show "sdb_members (igsc_sdb_init (igsc_zero e)) = {}" by (simp add: c n sdb_members_def members_def)
  show "sdb_inv (igsc_sdb_init (igsc_zero e))"
    unfolding c sdb_inv_def n using assms by (simp add: chains_ok_def tables_ok_def igsc_zero_def)
  show "emf_handle (igsc_sdb_init (igsc_zero e)) = e" unfolding c by (simp add: igsc_zero_def)
  show "static_refs (igsc_sdb_init (igsc_zero e)) = mfdb_refs e"
    unfolding c static_refs_def n own_refs_def members_def by (simp add: igsc_zero_def fun_eq_iff)
qed

text \<open>C9: The snooping database is a set of (group, host, interface) members. From a well-formed
  state every operation runs to its end, leaves a well-formed state and has exactly its effect on
  that set: a report adds its member (or, when memory or the forwarding database fails it,
  changes nothing), a leave and a timeout remove theirs, removing an interface removes all members
  behind it, clearing all; the memberships other parties hold in the forwarding database stay.\<close>

theorem igsdb_refines_members:
  assumes "sdb_inv s" "op_ready op s"
  shows "\<exists>s' r. sdb_step op s = Some (s', r) \<and> sdb_inv s' \<and> sdb_members s' = members_after op r (sdb_members s) \<and>
    static_refs s' = static_refs s \<and> (must_succeed op (sdb_members s) \<longrightarrow> r = SUCCESS)"
  using sdb_step_spec [OF assms] unfolding sdb_frame_def by blast

definition ex_sdb :: igsc_info where "ex_sdb = igsc_sdb_init (igsc_zero ex_emfc)"

definition ex_sal :: sdb_alloc where
  "ex_sal = \<lparr>ok_grp = True, new_mh = Some 100, ok_timer = True, ok_if = True, emf_al = \<lparr>new_mgrp = 20, ok_mgrp = True, ok_mi = True, ok_mhif = True\<rparr>\<rparr>"

lemma ex_sdb_facts:
  "emf_inv ex_emfc" "sdb_inv ex_sdb" "sdb_members ex_sdb = {}" "static_refs ex_sdb = mfdb_refs ex_emfc" "emf_handle ex_sdb = ex_emfc"
  "mfdb_refs ex_emfc 0xE1000001 3 = 0" "op_ready (Report ex_sal 3 0xE1000001 0xC0A80005) ex_sdb" "alloc_all ex_sal"
proof -
  have e: "ex_emfc = link_group ex_base 9 ex_group" by (rule ex_emfc_def)
  have h: "mgrp_mem ex_base 9 = None" "mi_head ex_group \<noteq> []" "mis_ok ex_base (mi_head ex_group)"
    by (simp_all add: ex_base_def ex_group_def emfc_zero_def mis_ok_def)
  show inv: "emf_inv ex_emfc"
    unfolding emf_inv_def using ex_emfc_facts(1) by (simp add: e link_group_def set_group_def ex_base_def)
  note z = igsc_zero_inv [OF inv, folded ex_sdb_def]
  show "sdb_inv ex_sdb" "sdb_members ex_sdb = {}" "static_refs ex_sdb = mfdb_refs ex_emfc" "emf_handle ex_sdb = ex_emfc" using z by auto
  show r: "mfdb_refs ex_emfc 0xE1000001 3 = 0"
    unfolding e link_group_refs [OF ex_base_facts(1,3) h] by (simp add: ex_group_def)
  have f: "timers ex_sdb = Map.empty" "igsc_sdb_group_find ex_sdb = (\<lambda>_. None)"
    by (auto simp: ex_sdb_def igsc_sdb_init_def igsc_zero_def igsc_sdb_group_find_def fun_eq_iff)
  have "mgrp_mem ex_emfc 20 = None" by (simp add: e link_group_def set_group_def ex_base_def emfc_zero_def)
  then show "op_ready (Report ex_sal 3 0xE1000001 0xC0A80005) ex_sdb"
    using f z(4) r by (simp add: add_ready_def ex_sal_def alloc_ready_def)
  show "alloc_all ex_sal" by (simp add: alloc_all_def ex_sal_def)
qed

theorem igsdb_refines_members_witness:
  "\<exists>s'. sdb_step (Report ex_sal 3 0xE1000001 0xC0A80005) ex_sdb = Some (s', SUCCESS) \<and>
    sdb_members s' = {(0xE1000001, 0xC0A80005, 3)}"
  using igsdb_refines_members [OF ex_sdb_facts(2,7)] ex_sdb_facts(3,8) by auto


lemma membership_enable:
  "emfc_mfdb_membership_add a e ip i = Some (e', r) \<Longrightarrow> emf_enable e' = emf_enable e \<and> has_snooper e' = has_snooper e"
  "emfc_mfdb_membership_del e ip i = Some (e', r) \<Longrightarrow> emf_enable e' = emf_enable e \<and> has_snooper e' = has_snooper e"
  by (auto simp: emfc_mfdb_membership_add_def emfc_mfdb_membership_del_def emfc_mfdb_group_find_def add_mi_def emfc_mfdb_mhif_add_def
      set_group_def drop_group_def Let_def split: Option.bind_splits option.splits prod.splits if_splits)

lemma member_add_enable:
  assumes "igsc_sdb_member_add al s ifp ip host = Some (s', r)"
  shows "emf_enable (emf_handle s') = emf_enable (emf_handle s) \<and> has_snooper (emf_handle s') = has_snooper (emf_handle s)"
  using assms
  by (auto simp: igsc_sdb_member_add_def add_host_def add_exit1_def osl_timer_add_def osl_timer_update_def osl_timer_del_def Let_def
      table_frame dest!: membership_enable split: option.splits if_splits prod.splits)


text \<open>C11: The snooper's own tables stay consistent. In every state reached from a new snooper the
  next operation runs to its end: no timer is updated or deleted after it was freed and no
  interface entry is missing. The armed timers are exactly those of the listed hosts, and the
  listing gives every member exactly once.\<close>

theorem sdb_runs_safe:
  assumes "emf_inv e" "sdb_reach (igsc_sdb_init (igsc_zero e)) s" "op_ready op s"
  shows "(\<exists>s' r. sdb_step op s = Some (s', r)) \<and>
    (timers s a \<noteq> None \<longleftrightarrow> (\<exists>ip g m. igsc_sdb_group_find s ip = Some g \<and> m \<in> set (mh_head g) \<and> mh_addr m = a)) \<and>
    distinct (igsc_sdb_list s) \<and> set (igsc_sdb_list s) = sdb_members s"
proof -
  have inv: "sdb_inv s" using sdb_reach_inv [OF assms(2) igsc_zero_inv(1) [OF assms(1)]] by simp
  then have "chains_ok s" "tables_ok (igsc_sdb_group_find s) (timers s) (emf_handle s)" by (simp_all add: sdb_inv_def)
  then show ?thesis
    using sdb_step_spec [OF inv assms(3)] sdb_list_distinct [OF inv] sdb_list_set tables_okD(6) by blast
qed

theorem sdb_runs_safe_witness:
  "\<exists>s'. sdb_step (Report ex_sal 3 0xE1000001 0xC0A80005) ex_sdb = Some s'"
  using sdb_runs_safe [OF ex_sdb_facts(1) sdb_reach.start, folded ex_sdb_def, OF ex_sdb_facts(7)] by auto

end
