(* ===== verification/Igmp.thy ===== *)
theory Igmp
  imports Igsdb
begin

text \<open>
  The IGMP snooper of \<^verbatim>\<open>emf/igs/igsc.c\<close>: what it does with IGMP frames the forwarder hands it, the
  list of multicast routers it has heard queries from, the query it sends when forwarding is
  turned on, and its configuration requests. The build without \<open>SUPPORT_IGMP_V3\<close> is modelled.

  A router entry has an address, which also names its timer. Frames are bytes; \<open>igmph\<close> is what
  follows the IP header in \<open>iph\<close>. A result is \<open>None\<close> where the code would read past the frame or
  use freed memory. Multi-byte fields are written in network byte order (\<open>be16\<close>, \<open>be32\<close>); an
  argument the code takes in network order is given by the number it stands for.
\<close>

subsection \<open>Reserved addresses\<close>

definition mc_addr_rsvd :: "(uint32 \<times> uint32) list" where
  "mc_addr_rsvd = map (\<lambda>a. (a, 0xffffffff))
     [0xe0000001, 0xe0000002, 0xe0000004, 0xe0000005, 0xe0000006, 0xe0000009, 0xe000000d, 0xe0000010,
      0xe00000fb, 0xe000ff87, 0xeffffffa]"

definition igsc_is_reserved :: "uint32 \<Rightarrow> bool" where
  "igsc_is_reserved addr \<longleftrightarrow> list_ex (\<lambda>(a, mask). addr AND mask = a AND mask) mc_addr_rsvd"

subsection \<open>Multicast routers\<close>

text \<open>The allocations for a router entry: the entry, the interface list entry and the timer.\<close>

record rt_alloc =
  new_rt :: "nat option"
  ok_rtif :: bool
  ok_rttimer :: bool

text \<open>The timer of the router entry at address \<open>a\<close> fires: \<open>osl_timer\<close> disarms it and calls the
  function below.\<close>

definition igsc_rtlist_timer :: "igsc_info \<Rightarrow> nat \<Rightarrow> igsc_info option" where
  "igsc_rtlist_timer s a =
     (case find (\<lambda>r. rt_addr r = a) (rtlist_head s) of None \<Rightarrow> None
      | Some rt \<Rightarrow>
        let s = s\<lparr>rtlist_head := filter (\<lambda>r. rt_addr r \<noteq> a) (rtlist_head s)\<rparr>
        in Some (if list_ex (\<lambda>r. rt_ifp r = rt_ifp rt) (rtlist_head s) then s
                 else s\<lparr>emf_handle := fst (emfc_rtport_del (emf_handle s) (rt_ifp rt))\<rparr>))"

definition osl_timer_rt :: "igsc_info \<Rightarrow> nat \<Rightarrow> igsc_info option" where
  "osl_timer_rt s a = igsc_rtlist_timer (s\<lparr>rt_timers := (rt_timers s)(a := None)\<rparr>) a"

definition igsc_rtlist_find :: "igsc_info \<Rightarrow> nat \<Rightarrow> uint32 \<Rightarrow> igsc_rtlist option" where
  "igsc_rtlist_find s ifp ip = find (\<lambda>r. rt_ifp r = ifp \<and> mr_ip r = ip) (rtlist_head s)"

definition igsc_rtlist_add :: "rt_alloc \<Rightarrow> igsc_info \<Rightarrow> nat \<Rightarrow> uint32 \<Rightarrow> (igsc_info \<times> int) option" where
  "igsc_rtlist_add al s ifp ip =
     (case igsc_rtlist_find s ifp ip of
        Some rt \<Rightarrow>
          if rt_timers s (rt_addr rt) = None then None
          else Some (s\<lparr>rt_timers := (rt_timers s)(rt_addr rt \<mapsto> query_intv s)\<rparr>, FAILURE)
      | None \<Rightarrow>
        (case new_rt al of None \<Rightarrow> Some (s, FAILURE)
         | Some a \<Rightarrow>
           let (e, ret) = emfc_rtport_add (ok_rtif al) (emf_handle s) ifp;
               s = s\<lparr>emf_handle := e\<rparr>
           in if ret \<noteq> SUCCESS then Some (s, FAILURE)
              else if \<not> ok_rttimer al
              then Some (s\<lparr>emf_handle := fst (emfc_rtport_del (emf_handle s) ifp)\<rparr>, FAILURE)
              else Some (s\<lparr>rt_timers := (rt_timers s)(a \<mapsto> query_intv s),
                           rtlist_head := \<lparr>rt_addr = a, rt_ifp = ifp, mr_ip = ip\<rparr> # rtlist_head s\<rparr>, SUCCESS)))"

text \<open>
  The loop of \<open>igsc_rtlist_clear\<close> goes on through the \<open>next\<close> field of the entry it has just freed.
  \<open>intact\<close> says that the allocator leaves the field readable; without that the loop has no result
  once there is an entry.
\<close>

fun rtlist_clear_loop :: "bool \<Rightarrow> igsc_rtlist list \<Rightarrow> igsc_info \<Rightarrow> igsc_info option" where
  "rtlist_clear_loop intact [] s = Some s"
| "rtlist_clear_loop intact (rt # rts) s =
     (if rt_timers s (rt_addr rt) = None then None
      else let s = s\<lparr>rt_timers := (rt_timers s)(rt_addr rt := None),
                     emf_handle := fst (emfc_rtport_del (emf_handle s) (rt_ifp rt)),
                     rtlist_head := filter (\<lambda>r. rt_addr r \<noteq> rt_addr rt) (rtlist_head s)\<rparr>
           in if \<not> intact then None else rtlist_clear_loop intact rts s)"

definition igsc_rtlist_clear :: "bool \<Rightarrow> igsc_info \<Rightarrow> igsc_info option" where
  "igsc_rtlist_clear intact s = rtlist_clear_loop intact (rtlist_head s) s"

text \<open>The loop of \<open>igsc_interface_rtport_del\<close>; the timers of the freed entries stay armed.\<close>

fun rtport_del_loop :: "nat \<Rightarrow> igsc_rtlist list \<Rightarrow> igsc_info \<Rightarrow> igsc_info" where
  "rtport_del_loop ifp [] s = s"
| "rtport_del_loop ifp (rt # rts) s =
     rtport_del_loop ifp rts
       (if rt_ifp rt = ifp
        then s\<lparr>emf_handle := fst (emfc_rtport_del (emf_handle s) (rt_ifp rt)),
               rtlist_head := filter (\<lambda>r. rt_addr r \<noteq> rt_addr rt) (rtlist_head s)\<rparr>
        else s)"

definition igsc_interface_rtport_del :: "igsc_info \<Rightarrow> nat \<Rightarrow> igsc_info \<times> int" where
  "igsc_interface_rtport_del s ifp = (rtport_del_loop ifp (rtlist_head s) s, SUCCESS)"

subsection \<open>Frames\<close>

definition IGMPV2_HOST_MEMBERSHIP_QUERY :: uint8 where "IGMPV2_HOST_MEMBERSHIP_QUERY = 0x11"
definition IGMPV2_HOST_MEMBERSHIP_REPORT :: uint8 where "IGMPV2_HOST_MEMBERSHIP_REPORT = 0x12"
definition IGMPV2_HOST_NEW_MEMBERSHIP_REPORT :: uint8 where "IGMPV2_HOST_NEW_MEMBERSHIP_REPORT = 0x16"
definition IGMPV2_LEAVE_GROUP_MESSAGE :: uint8 where "IGMPV2_LEAVE_GROUP_MESSAGE = 0x17"

definition IPV4_HLEN :: "uint8 list \<Rightarrow> nat" where "IPV4_HLEN iph = 4 * unat (iph ! 0 AND 0x0f)"

definition src_ip_of :: "uint8 list \<Rightarrow> uint32" where
  "src_ip_of iph = get32 (iph ! 15) (iph ! 14) (iph ! 13) (iph ! 12)"

definition grp_ip_of :: "uint8 list \<Rightarrow> uint32" where
  "grp_ip_of igmph = get32 (igmph ! 7) (igmph ! 6) (igmph ! 5) (igmph ! 4)"

definition igsc_input :: "sdb_alloc \<Rightarrow> rt_alloc \<Rightarrow> igsc_info \<Rightarrow> nat \<Rightarrow> uint8 list \<Rightarrow> uint8 list \<Rightarrow> bool \<Rightarrow>
    (igsc_info \<times> uint32) option" where
  "igsc_input al ral s ifp iph igmph from_rp =
     (let s = IGSC_STATS_INCR igmp_packets_update s in
      if from_rp then Some (IGSC_STATS_INCR igmp_not_handled_update s, EMF_FLOOD)
      else if length igmph < 8 \<or> length iph < 20 then None
      else
        let mgrp_ip = grp_ip_of igmph; mh_ip = src_ip_of iph; type = igmph ! 0 in
        if type = IGMPV2_HOST_NEW_MEMBERSHIP_REPORT
        then
          if igsc_is_reserved (dest_ip_of iph)
          then Some (IGSC_STATS_INCR igmp_not_handled_update s, EMF_FLOOD)
          else map_option (\<lambda>(s, ret). (s, if ret = SUCCESS then EMF_FORWARD else EMF_FLOOD))
                 (igsc_sdb_member_add al (IGSC_STATS_INCR igmp_v2reports_update s) ifp mgrp_ip mh_ip)
        else if type = IGMPV2_LEAVE_GROUP_MESSAGE
        then map_option (\<lambda>(s, ret). (s, EMF_FLOOD))
               (igsc_sdb_member_del (IGSC_STATS_INCR igmp_leaves_update s) ifp mgrp_ip mh_ip)
        else if type = IGMPV2_HOST_MEMBERSHIP_REPORT
        then Some (IGSC_STATS_INCR igmp_reports_update s, EMF_FLOOD)
        else if type = IGMPV2_HOST_MEMBERSHIP_QUERY
        then
          let s = IGSC_STATS_INCR igmp_queries_update s in
          if mh_ip \<noteq> 0 then map_option (\<lambda>(s, ret). (s, EMF_FLOOD)) (igsc_rtlist_add ral s ifp mh_ip)
          else Some (s, EMF_FLOOD)
        else Some (IGSC_STATS_INCR igmp_not_handled_update s, EMF_FLOOD))"

subsection \<open>The query\<close>

text \<open>The sum of the 16 bit words, an odd last byte taken as the high one.\<close>

fun cksum_sum :: "uint32 \<Rightarrow> uint8 list \<Rightarrow> uint32" where
  "cksum_sum acc [] = acc"
| "cksum_sum acc [b] = acc + push_bit 8 (ucast b)"
| "cksum_sum acc (a # b # buf) = cksum_sum (acc + ucast (push_bit 8 (ucast a) OR ucast b :: uint16)) buf"

text \<open>\<open>while (sum >> 16)\<close>: folding the carries back in.\<close>

function cksum_fold :: "uint32 \<Rightarrow> uint32" where
  "cksum_fold acc = (if drop_bit 16 acc \<noteq> 0 then cksum_fold ((acc AND 0xffff) + drop_bit 16 acc) else acc)"
  by auto

lemma high_half_nat: "unat (drop_bit 16 (w :: uint32)) = unat w div 65536"
proof -
  have "unat (drop_bit 16 w) = drop_bit 16 (unat w)" by (rule unat_drop_bit_eq)
  then show ?thesis unfolding drop_bit_eq_div by simp
qed

lemma fold_step_nat: "unat ((w AND 0xffff) + drop_bit 16 w :: uint32) = unat w mod 65536 + unat w div 65536"
proof -
  have m: "unat (w AND 0xffff) = unat w mod 65536"
    by (simp add: unsigned_and_eq take_bit_eq_mod flip: take_bit_eq_mask [of 16 "unat w", simplified mask_eq_exp_minus_1, simplified])
  have d: "unat (drop_bit 16 w) = unat w div 65536" by (rule high_half_nat)
  have "unat w div 65536 < 65536" using unat32_less [of w] by (simp add: div_less_iff_less_mult)
  then have "unat (w AND 0xffff) + unat (drop_bit 16 w) < 2 ^ 32" unfolding m d by (simp add: add_less_mono [of _ 65536 _ 65536, THEN less_trans])
  then show ?thesis using unat_add_lem [of "w AND 0xffff" "drop_bit 16 w"] m d by simp
qed

termination cksum_fold
proof (relation "measure unat", goal_cases)
  case (2 acc)
  then have "unat (drop_bit 16 acc) \<noteq> 0" unfolding unsigned_eq_0_iff .
  then have "unat acc div 65536 \<noteq> 0" unfolding high_half_nat .
  then have "unat acc mod 65536 + unat acc div 65536 < unat acc"
    using div_mult_mod_eq [of "unat acc" 65536] by linarith
  then show ?case by (simp add: fold_step_nat)
qed simp

declare cksum_fold.simps [simp del]

text \<open>The checksum as the number whose bytes \<open>hton16\<close> puts in network order.\<close>

definition inet_cksum :: "uint8 list \<Rightarrow> uint16" where
  "inet_cksum buf = ucast (NOT (cksum_fold (cksum_sum 0 buf)))"

definition be16 :: "uint16 \<Rightarrow> uint8 list" where "be16 x = [ucast (drop_bit 8 x), ucast x]"

definition be32 :: "uint32 \<Rightarrow> uint8 list" where
  "be32 x = [ucast (drop_bit 24 x), ucast (drop_bit 16 x), ucast (drop_bit 8 x), ucast x]"

definition put :: "nat \<Rightarrow> uint8 list \<Rightarrow> uint8 list \<Rightarrow> uint8 list" where
  "put k bs buf = take k buf @ bs @ drop (k + length bs) buf"

definition igsc_igmp_pkt_encap ::
  "uint8 list \<Rightarrow> uint32 \<Rightarrow> uint32 \<Rightarrow> uint8 \<Rightarrow> uint8 \<Rightarrow> uint32 \<Rightarrow> uint8 list" where
  "igsc_igmp_pkt_encap ip src_ip dest_ip igmp_type max_rsp grp_addr =
     (let ip = put 0 [0x45] ip;
          ip = put 1 [0xc0] ip;
          ip = put 2 (be16 28) ip;
          ip = put 4 (be16 0) ip;
          ip = put 6 (be16 0) ip;
          ip = put 8 [1] ip;
          ip = put 9 [IP_PROT_IGMP] ip;
          ip = put 10 (be16 0) ip;
          ip = put 12 (be32 src_ip) ip;
          ip = put 16 (be32 dest_ip) ip;
          ip = put 10 (be16 (inet_cksum (take 20 ip))) ip;
          ip = put 20 [igmp_type] ip;
          ip = put 21 [max_rsp] ip;
          ip = put 22 (be16 0) ip;
          ip = put 24 (be32 grp_addr) ip
      in put 22 (be16 (inet_cksum (take 28 ip))) ip)"

definition IPV4_MCADDR_ALLHOSTS :: uint32 where "IPV4_MCADDR_ALLHOSTS = 0xe0000001"

text \<open>\<open>buf\<close> is the uninitialised stack buffer of 256 bytes, \<open>igs_broadcast\<close> the wrapper's function.\<close>

definition igsc_igmp_query_send :: "uint8 list \<Rightarrow> (uint8 list \<Rightarrow> uint32 \<Rightarrow> int) \<Rightarrow> int" where
  "igsc_igmp_query_send buf igs_broadcast =
     (let ip = igsc_igmp_pkt_encap buf 0 IPV4_MCADDR_ALLHOSTS IGMPV2_HOST_MEMBERSHIP_QUERY (10000 div 100) 0
      in igs_broadcast (take 28 ip) IPV4_MCADDR_ALLHOSTS)"

definition igsc_emf_enabled :: "uint8 list \<Rightarrow> (uint8 list \<Rightarrow> uint32 \<Rightarrow> int) \<Rightarrow> int" where
  "igsc_emf_enabled buf igs_broadcast = (if igsc_igmp_query_send buf igs_broadcast \<noteq> SUCCESS then FAILURE else SUCCESS)"

definition igsc_emf_disabled :: "bool \<Rightarrow> igsc_info \<Rightarrow> (igsc_info \<times> int) option" where
  "igsc_emf_disabled intact s =
     (case igsc_sdb_clear s of None \<Rightarrow> None
      | Some s \<Rightarrow> map_option (\<lambda>s. (s, SUCCESS)) (igsc_rtlist_clear intact s))"

subsection \<open>Configuration requests, start and end\<close>

text \<open>\<open>sizeof(igs_stats_t)\<close> is 44.\<close>

definition igsc_stats_get :: "igsc_info \<Rightarrow> uint32 \<Rightarrow> igs_stats option" where
  "igsc_stats_get s sz = (if sz < 44 then None else Some (igs_stats s))"

text \<open>The size check counts \<open>sizeof(igs_cfg_rtport_list_t)\<close>, 4 bytes, for an entry of 20.\<close>

fun rtport_entries :: "igsc_rtlist list \<Rightarrow> uint32 \<Rightarrow> uint32 \<Rightarrow> (uint32 \<times> nat) list option" where
  "rtport_entries [] bytes sz = Some []"
| "rtport_entries (rt # rts) bytes sz =
     (if bytes + 4 > sz then None
      else map_option (Cons (mr_ip rt, rt_ifp rt)) (rtport_entries rts (bytes + 4) sz))"

definition igsc_rtport_list :: "igsc_info \<Rightarrow> uint32 \<Rightarrow> (uint32 \<times> nat) list option" where
  "igsc_rtport_list s sz = rtport_entries (rtlist_head s) 0 sz"

datatype igs_cfg_out = IgsNone | IgsMsg string | IgsStats igs_stats
  | IgsSdb "(uint32 \<times> uint32 \<times> nat) list" | IgsRtports "(uint32 \<times> nat) list"

record igs_cfg_request =
  igs_command_id :: uint32
  igs_status :: uint32
  igs_size :: uint32
  igs_out :: igs_cfg_out

definition igs_msg :: "uint32 \<Rightarrow> string \<Rightarrow> igs_cfg_request \<Rightarrow> igs_cfg_request" where
  "igs_msg st msg c = c\<lparr>igs_status := st, igs_size := word_of_nat (length msg), igs_out := IgsMsg msg\<rparr>"

definition igs_answer :: "string \<Rightarrow> igs_cfg_request \<Rightarrow> igs_cfg_out option \<Rightarrow> igs_cfg_request" where
  "igs_answer msg c r =
     (case r of None \<Rightarrow> igs_msg 2 (msg @ [CHR 0x0A]) c
      | Some out \<Rightarrow> c\<lparr>igs_out := out, igs_status := 1\<rparr>)"

text \<open>\<open>show\<close> stands for \<open>%d\<close>.\<close>

definition igsc_cfg_request_process :: "(uint32 \<Rightarrow> string) \<Rightarrow> igsc_info \<Rightarrow> igs_cfg_request \<Rightarrow> igs_cfg_request" where
  "igsc_cfg_request_process show_d s c =
     (if igs_command_id c = 6
      then igs_answer ''IGS stats get failed'' c (map_option IgsStats (igsc_stats_get s (igs_size c)))
      else if igs_command_id c = 4
      then igs_answer ''IGSDB listing failed'' c (Some (IgsSdb (igsc_sdb_list s)))
      else if igs_command_id c = 5
      then igs_answer ''RTPORT list get failed'' c (map_option IgsRtports (igsc_rtport_list s (igs_size c)))
      else igs_msg 3 (''Unknown command id '' @ show_d (igs_command_id c) @ [CHR 0x0A]) c)"

text \<open>
  Start: the instance \<open>ident\<close> of the forwarder gets the snooper; on failure it has none. The result
  is the forwarder's instances and the new snooper with the handle of its instance.
\<close>

definition igsc_init :: "bool \<Rightarrow> bool \<Rightarrow> bool \<Rightarrow> bool \<Rightarrow> emfc_list \<Rightarrow> string \<Rightarrow> emfc_list \<times> (nat \<times> igsc_info) option" where
  "igsc_init wrapper_ok alloc lock1 lock2 l ident =
     (if \<not> wrapper_ok then (l, None)
      else if \<not> alloc then (l, None)
      else if \<not> lock1 then (l, None)
      else case emfc_igmp_snooper_register l ident (Some True) of
          (l, None, ret) \<Rightarrow> (l, None)
        | (l, Some h, ret) \<Rightarrow>
          if ret \<noteq> SUCCESS then (l, None)
          else if \<not> lock2 then (emfc_igmp_snooper_unregister l h, None)
          else (l, map_option (\<lambda>e. (h, igsc_sdb_init (igsc_zero e))) (map_of l h)))"

text \<open>End: what is left is the forwarder's instance without a snooper.\<close>

definition igsc_exit :: "bool \<Rightarrow> igsc_info \<Rightarrow> emfc_info option" where
  "igsc_exit intact s =
     (let s = s\<lparr>emf_handle := (emf_handle s)\<lparr>has_snooper := False\<rparr>\<rparr> in
      case igsc_rtlist_clear intact s of None \<Rightarrow> None
      | Some s \<Rightarrow> map_option emf_handle (igsc_sdb_clear s))"

subsection \<open>The checksum is the one's complement sum\<close>

text \<open>The reference: the sum of the words as a number.\<close>

fun wsum :: "uint8 list \<Rightarrow> nat" where
  "wsum [] = 0"
| "wsum [b] = 256 * unat b"
| "wsum (a # b # bs) = 256 * unat a + unat b + wsum bs"

lemma word_of_bytes_nat: "unat (push_bit 8 (ucast a) OR ucast b :: uint16) = 256 * unat (a :: uint8) + unat (b :: uint8)"
proof -
  have d: "bit (push_bit 8 (ucast a) :: uint16) n \<Longrightarrow> \<not> bit (ucast b :: uint16) n" for n
    by (auto simp: bit_simps dest: bit_imp_le_length)
  have "push_bit 8 (ucast a) OR ucast b = push_bit 8 (ucast a) + (ucast b :: uint16)"
    using d by (intro disjunctive_add [symmetric]) auto
  moreover have "unat (push_bit 8 (ucast a) :: uint16) = 256 * unat a"
    using unat8_less [of a] by (simp add: push_bit_eq_mult unat_word_ariths unsigned_ucast_eq take_bit_nat_eq_self)
  moreover have "unat (ucast b :: uint16) = unat b"
    using unat8_less [of b] by (simp add: unsigned_ucast_eq take_bit_nat_eq_self)
  ultimately show ?thesis using unat8_less [of a] unat8_less [of b]
    by (simp add: unat_word_ariths)
qed

lemma cksum_sum_nat: "unat acc + wsum bs < 2 ^ 32 \<Longrightarrow> unat (cksum_sum acc bs) = unat acc + wsum bs"
proof (induction acc bs rule: cksum_sum.induct)
  case (2 acc b)
  have "unat (push_bit 8 (ucast b) :: uint32) = 256 * unat b"
    using unat8_less [of b] by (simp add: push_bit_eq_mult unat_word_ariths unsigned_ucast_eq take_bit_nat_eq_self)
  then show ?case using 2 by (simp add: unat_word_ariths)
next
  case (3 acc a b bs)
  have w: "unat (ucast (push_bit 8 (ucast a) OR ucast b :: uint16) :: uint32) = 256 * unat a + unat b"
    using unat16_less [of "push_bit 8 (ucast a) OR ucast b"]
    by (simp add: unsigned_ucast_eq take_bit_nat_eq_self word_of_bytes_nat)
  have "unat (acc + ucast (push_bit 8 (ucast a) OR ucast b :: uint16)) = unat acc + (256 * unat a + unat b)"
    using 3(2) w by (simp add: unat_word_ariths)
  then show ?case using 3 by simp
qed simp

lemma fold_nat: "unat (cksum_fold w) = (if unat w = 0 then 0 else (unat w - 1) mod 65535 + 1)"
proof (induction w rule: cksum_fold.induct)
  case (1 w)
  show ?case
  proof (cases "drop_bit 16 w = 0")
    case True
    then have "unat w div 65536 = 0" using high_half_nat [of w] by simp
    then have "unat w < 65536" by (simp add: div_eq_0_iff)
    then show ?thesis using True by (subst cksum_fold.simps) auto
  next
    case False
    let ?d = "unat w div 65536" and ?m = "unat w mod 65536"
    have d: "?d \<noteq> 0" using False high_half_nat [of w] unsigned_eq_0_iff [of "drop_bit 16 w"] by metis
    have w: "unat w = ?d * 65536 + ?m" by simp
    have "(unat w - 1) mod 65535 = (?d - 1 + ?m + 65535 * ?d) mod 65535"
      using d by (subst w) (simp add: algebra_simps)
    also have "\<dots> = (?d - 1 + ?m) mod 65535" by (rule mod_mult_self2)
    also have "\<dots> = (?m + ?d - 1) mod 65535" using d by (simp add: add.commute)
    finally have "(unat w - 1) mod 65535 = (?m + ?d - 1) mod 65535" .
    moreover have "unat w \<noteq> 0" using d by auto
    ultimately show ?thesis using 1 [OF False] False d by (subst cksum_fold.simps) (simp add: fold_step_nat)
  qed
qed

lemma inet_cksum_nat:
  assumes "wsum bs < 2 ^ 32"
  shows "unat (inet_cksum bs) + (if wsum bs = 0 then 0 else (wsum bs - 1) mod 65535 + 1) = 65535"
proof -
  let ?f = "cksum_fold (cksum_sum 0 bs)"
  have f: "unat ?f = (if wsum bs = 0 then 0 else (wsum bs - 1) mod 65535 + 1)"
    using fold_nat [of "cksum_sum 0 bs"] cksum_sum_nat [of 0 bs] assms by simp
  then have lt: "unat ?f < 65536" using mod_less_divisor [of 65535 "wsum bs - 1"] by auto
  have u: "unat (ucast ?f :: uint16) = unat ?f" using lt by (simp add: unsigned_ucast_eq take_bit_nat_eq_self)
  have "inet_cksum bs = NOT (ucast ?f)" unfolding inet_cksum_def by (rule bit_eqI) (auto simp: bit_simps)
  then have "inet_cksum bs = - 1 - ucast ?f" by (simp add: not_eq_complement)
  then have "unat (inet_cksum bs) = 65535 - unat (ucast ?f :: uint16)"
    using unat_sub [of "ucast ?f :: uint16" "- 1"] by (simp add: unsigned_minus_1_eq_mask mask_eq_exp_minus_1)
  then show ?thesis using u f lt by simp
qed

lemma cksum_ok_iff:
  assumes "wsum bs < 2 ^ 32"
  shows "inet_cksum bs = 0 \<longleftrightarrow> wsum bs > 0 \<and> 65535 dvd wsum bs"
proof -
  have "inet_cksum bs = 0 \<longleftrightarrow> unat (inet_cksum bs) = 0" by (simp add: unsigned_eq_0_iff)
  also have "\<dots> \<longleftrightarrow> wsum bs > 0 \<and> (wsum bs - 1) mod 65535 = 65534" using inet_cksum_nat [OF assms] by (auto split: if_splits)
  also have "\<dots> \<longleftrightarrow> wsum bs > 0 \<and> 65535 dvd wsum bs"
    by (cases "wsum bs") (auto simp: mod_Suc dvd_eq_mod_eq_0 split: if_splits)
  finally show ?thesis .
qed

text \<open>Whatever the words sum up to, adding the checksum makes the sum a positive multiple.\<close>

lemma cksum_completes:
  assumes "wsum bs < 2 ^ 32"
  shows "65535 dvd wsum bs + unat (inet_cksum bs) \<and> wsum bs + unat (inet_cksum bs) > 0"
proof (cases "wsum bs")
  case 0
  then show ?thesis using inet_cksum_nat [OF assms] by simp
next
  case (Suc n)
  have "n + 1 + unat (inet_cksum bs) = 65535 * (n div 65535) + 65535"
  proof -
    have "unat (inet_cksum bs) + n mod 65535 = 65534" using inet_cksum_nat [OF assms] Suc by simp
    then show ?thesis using div_mult_mod_eq [of n 65535] by linarith
  qed
  then show ?thesis using Suc by (metis Suc_eq_plus1 add_gr_0 dvd_add dvd_refl dvd_triv_left zero_less_Suc)
qed

lemma wsum_append: "even (length xs) \<Longrightarrow> wsum (xs @ ys) = wsum xs + wsum ys"
  by (induction xs rule: wsum.induct) auto

lemma wsum_bound: "wsum bs \<le> 65535 * length bs"
proof (induction bs rule: wsum.induct)
  case (2 b)
  then show ?case using unat8_less [of b] by simp
next
  case (3 a b bs)
  then show ?case using unat8_less [of a] unat8_less [of b] by simp
qed simp

lemma wsum_be16: "wsum (be16 c) = unat c"
proof -
  have "push_bit 8 (ucast (ucast (drop_bit 8 c) :: uint8)) OR ucast (ucast c :: uint8) = c"
    by (rule bit_eqI) (auto simp: bit_simps)
  then show ?thesis using word_of_bytes_nat [of "ucast (drop_bit 8 c)" "ucast c"] by (simp add: be16_def)
qed

text \<open>The packet: its bytes do not depend on what the buffer held.\<close>

definition ip_hdr :: "uint32 \<Rightarrow> uint32 \<Rightarrow> uint16 \<Rightarrow> uint8 list" where
  "ip_hdr src dst c = [0x45, 0xc0, 0, 28, 0, 0, 0, 0, 1, 2] @ be16 c @ be32 src @ be32 dst"

definition igmp_hdr :: "uint8 \<Rightarrow> uint8 \<Rightarrow> uint32 \<Rightarrow> uint16 \<Rightarrow> uint8 list" where
  "igmp_hdr type rsp grp c = [type, rsp] @ be16 c @ be32 grp"

lemma put_next:
  assumes "k = length w" "n = k + length bs" "n \<le> length buf"
  shows "put k bs (w @ drop k buf) = (w @ bs) @ drop n buf"
  using assms by (simp add: put_def add.commute)

lemma put_at: "length p = k \<Longrightarrow> length m = length bs \<Longrightarrow> put k bs (p @ m @ r) = p @ bs @ r"
  by (simp add: put_def)

lemma pkt_encap_bytes:
  assumes b: "28 \<le> length buf" and c: "c = inet_cksum (ip_hdr src dst 0)"
    and c2: "c2 = inet_cksum (ip_hdr src dst c @ igmp_hdr type rsp grp 0)"
  shows "igsc_igmp_pkt_encap buf src dst type rsp grp = ip_hdr src dst c @ igmp_hdr type rsp grp c2 @ drop 28 buf"
proof -
  let ?w = "[0x45, 0xc0, 0, 28, 0, 0, 0, 0, 1, 2] :: uint8 list" and ?z = "be16 0"
  have z: "be16 28 = [0, 28]" "?z = [0, 0]" by (simp_all add: be16_def)
  have len: "length (be16 x) = 2" "length (be32 y) = 4" for x y by (simp_all add: be16_def be32_def)
  have s: "put 0 [0x45] buf = [0x45] @ drop 1 buf"
    "put 1 [0xc0] ([0x45] @ drop 1 buf) = [0x45, 0xc0] @ drop 2 buf"
    "put 2 (be16 28) ([0x45, 0xc0] @ drop 2 buf) = [0x45, 0xc0, 0, 28] @ drop 4 buf"
    "put 4 ?z ([0x45, 0xc0, 0, 28] @ drop 4 buf) = [0x45, 0xc0, 0, 28, 0, 0] @ drop 6 buf"
    "put 6 ?z ([0x45, 0xc0, 0, 28, 0, 0] @ drop 6 buf) = [0x45, 0xc0, 0, 28, 0, 0, 0, 0] @ drop 8 buf"
    "put 8 [1] ([0x45, 0xc0, 0, 28, 0, 0, 0, 0] @ drop 8 buf) = [0x45, 0xc0, 0, 28, 0, 0, 0, 0, 1] @ drop 9 buf"
    "put 9 [IP_PROT_IGMP] ([0x45, 0xc0, 0, 28, 0, 0, 0, 0, 1] @ drop 9 buf) = ?w @ drop 10 buf"
    "put 10 ?z (?w @ drop 10 buf) = (?w @ ?z) @ drop 12 buf"
    "put 12 (be32 src) ((?w @ ?z) @ drop 12 buf) = (?w @ ?z @ be32 src) @ drop 16 buf"
    "put 16 (be32 dst) ((?w @ ?z @ be32 src) @ drop 16 buf) = ip_hdr src dst 0 @ drop 20 buf"
    using b put_next [of 0 "[]" 1 "[0x45]" buf] put_next [of 1 "[0x45]" 2 "[0xc0]" buf] put_next [of 2 "[0x45, 0xc0]" 4 "be16 28" buf]
      put_next [of 4 "[0x45, 0xc0, 0, 28]" 6 ?z buf] put_next [of 6 "[0x45, 0xc0, 0, 28, 0, 0]" 8 ?z buf]
      put_next [of 8 "[0x45, 0xc0, 0, 28, 0, 0, 0, 0]" 9 "[1]" buf] put_next [of 9 "[0x45, 0xc0, 0, 28, 0, 0, 0, 0, 1]" 10 "[IP_PROT_IGMP]" buf]
      put_next [of 10 ?w 12 ?z buf] put_next [of 12 "?w @ ?z" 16 "be32 src" buf] put_next [of 16 "?w @ ?z @ be32 src" 20 "be32 dst" buf]
    by (simp_all add: len z IP_PROT_IGMP_def ip_hdr_def)
  have l: "length (ip_hdr src dst x) = 20" for x by (simp add: ip_hdr_def len)
  have t: "take 20 (ip_hdr src dst 0 @ drop 20 buf) = ip_hdr src dst 0" by (simp add: l)
  have u: "put 10 (be16 c) (ip_hdr src dst 0 @ drop 20 buf) = ip_hdr src dst c @ drop 20 buf"
    using put_at [of ?w 10 ?z "be16 c" "be32 src @ be32 dst @ drop 20 buf"] by (simp add: len ip_hdr_def)
  let ?h = "ip_hdr src dst c"
  have v: "put 20 [type] (?h @ drop 20 buf) = (?h @ [type]) @ drop 21 buf"
    "put 21 [rsp] ((?h @ [type]) @ drop 21 buf) = (?h @ [type, rsp]) @ drop 22 buf"
    "put 22 ?z ((?h @ [type, rsp]) @ drop 22 buf) = (?h @ [type, rsp] @ ?z) @ drop 24 buf"
    "put 24 (be32 grp) ((?h @ [type, rsp] @ ?z) @ drop 24 buf) = ?h @ igmp_hdr type rsp grp 0 @ drop 28 buf"
    using b put_next [of 20 ?h 21 "[type]" buf] put_next [of 21 "?h @ [type]" 22 "[rsp]" buf]
      put_next [of 22 "?h @ [type, rsp]" 24 ?z buf] put_next [of 24 "?h @ [type, rsp] @ ?z" 28 "be32 grp" buf]
    by (simp_all add: l len igmp_hdr_def)
  have t2: "take 28 (?h @ igmp_hdr type rsp grp 0 @ drop 28 buf) = ?h @ igmp_hdr type rsp grp 0"
    by (simp add: l igmp_hdr_def len)
  have "put 22 (be16 c2) (?h @ igmp_hdr type rsp grp 0 @ drop 28 buf) = ?h @ igmp_hdr type rsp grp c2 @ drop 28 buf"
    using put_at [of "?h @ [type, rsp]" 22 ?z "be16 c2" "be32 grp @ drop 28 buf"] by (simp add: l len igmp_hdr_def)
  then show ?thesis
    unfolding igsc_igmp_pkt_encap_def Let_def s t c [symmetric] u v t2 c2 [symmetric] .
qed

lemma hdr_sums:
  "wsum (ip_hdr src dst c) = wsum (ip_hdr src dst 0) + unat c" "length (ip_hdr src dst c) = 20"
  "wsum (igmp_hdr type rsp grp c) = wsum (igmp_hdr type rsp grp 0) + unat c" "length (igmp_hdr type rsp grp c) = 8"
  using wsum_be16 [of c] wsum_be16 [of 0] by (simp_all add: ip_hdr_def igmp_hdr_def be16_def be32_def)

lemma be32_get32:
  "get32 (be32 x ! 3) (be32 x ! 2) (be32 x ! 1) (be32 x ! 0) = x"
  by (simp add: be32_def)

text \<open>C26: The query the snooper sends is a valid IGMP packet. For any source, destination, type (not
  0), response time and group, and whatever the stack buffer held, both the IP header checksum and
  the IGMP checksum verify. The latter is computed over the IP header too, which does no harm
  since a header with its checksum adds a multiple of 65535. The snooper's own parser reads the
  fields back.\<close>

theorem igmp_packet_valid:
  assumes "28 \<le> length buf" "type \<noteq> 0"
  shows "let p = igsc_igmp_pkt_encap buf src dst type rsp grp in
    inet_cksum (take 20 p) = 0 \<and> inet_cksum (take 8 (drop 20 p)) = 0 \<and> length p = length buf \<and>
    IP_VER p = 4 \<and> IPV4_HLEN p = 20 \<and> IPV4_PROT p = IP_PROT_IGMP \<and> src_ip_of p = src \<and> dest_ip_of p = dst \<and>
    drop 20 p ! 0 = type \<and> grp_ip_of (drop 20 p) = grp"
proof -
  define p where "p = igsc_igmp_pkt_encap buf src dst type rsp grp"
  define c where "c = inet_cksum (ip_hdr src dst 0)"
  define h where "h = ip_hdr src dst c"
  define c2 where "c2 = inet_cksum (h @ igmp_hdr type rsp grp 0)"
  define g where "g = igmp_hdr type rsp grp c2"
  have p: "p = h @ g @ drop 28 buf"
    unfolding p_def g_def c2_def h_def by (rule pkt_encap_bytes [OF assms(1) c_def refl])
  have len: "length h = 20" "length g = 8" by (simp_all add: h_def g_def hdr_sums)
  have bd: "wsum bs < 2 ^ 32" if "length bs \<le> 28" for bs using wsum_bound [of bs] that by simp
  have wh: "65535 dvd wsum h \<and> wsum h > 0"
    using cksum_completes [OF bd, of "ip_hdr src dst 0"] by (simp add: hdr_sums(2) h_def c_def hdr_sums(1) [of src dst "inet_cksum _"])
  have app: "wsum (h @ igmp_hdr type rsp grp 0) = wsum h + wsum (igmp_hdr type rsp grp 0)" by (rule wsum_append) (simp add: len)
  have "65535 dvd wsum h + wsum g"
    using cksum_completes [OF bd, of "h @ igmp_hdr type rsp grp 0"]
    by (simp add: len hdr_sums(4) app g_def c2_def [symmetric] hdr_sums(3) [of type rsp grp c2] add.assoc)
  then have dg: "65535 dvd wsum g" using wh dvd_add_right_iff [of 65535 "wsum h" "wsum g"] by blast
  have "unat type > 0" using assms(2) by (simp add: unsigned_eq_0_iff flip: neq0_conv)
  then have pg: "wsum g > 0" by (simp add: g_def igmp_hdr_def)
  have t: "take 20 p = h" "take 8 (drop 20 p) = g" "drop 20 p = g @ drop 28 buf" by (simp_all add: p len)
  have ck: "inet_cksum h = 0" "inet_cksum g = 0" using cksum_ok_iff [OF bd] wh dg pg len by simp_all
  have lp: "length p = length buf" using assms(1) by (simp add: p len)
  have f: "IP_VER p = 4" "IPV4_HLEN p = 20" "IPV4_PROT p = IP_PROT_IGMP" "src_ip_of p = src" "dest_ip_of p = dst"
    by (simp_all add: p h_def ip_hdr_def be16_def be32_def IP_VER_def IPV4_HLEN_def IPV4_PROT_def IP_PROT_IGMP_def src_ip_of_def dest_ip_of_def)
  have "(g @ drop 28 buf) ! 0 = type" "grp_ip_of (g @ drop 28 buf) = grp"
    by (simp_all add: g_def igmp_hdr_def be16_def be32_def grp_ip_of_def)
  then show ?thesis using ck lp f by (simp add: p_def [symmetric] t(1,2)) (simp add: t(3))
qed

theorem igmp_packet_valid_witness:
  "inet_cksum (take 20 (igsc_igmp_pkt_encap (replicate 256 0xaa) 0 IPV4_MCADDR_ALLHOSTS IGMPV2_HOST_MEMBERSHIP_QUERY 100 0)) = 0"
  using igmp_packet_valid [of "replicate 256 0xaa" IGMPV2_HOST_MEMBERSHIP_QUERY 0 IPV4_MCADDR_ALLHOSTS 100 0]
  by (simp add: Let_def IGMPV2_HOST_MEMBERSHIP_QUERY_def)

subsection \<open>The router list\<close>

definition rt_ok :: "igsc_info \<Rightarrow> bool" where
  "rt_ok s \<longleftrightarrow> distinct (map rt_addr (rtlist_head s)) \<and> distinct (map (\<lambda>r. (rt_ifp r, mr_ip r)) (rtlist_head s)) \<and>
     (\<forall>r \<in> set (rtlist_head s). rt_timers s (rt_addr r) \<noteq> None \<and> rt_ifp r \<noteq> 0)"

definition routers :: "igsc_info \<Rightarrow> (nat \<times> uint32) set" where
  "routers s = (\<lambda>r. (rt_ifp r, mr_ip r)) ` set (rtlist_head s)"

definition igs_inv :: "igsc_info \<Rightarrow> bool" where
  "igs_inv s \<longleftrightarrow> sdb_inv s \<and> rt_ok s"

text \<open>What an operation on routers leaves alone.\<close>

definition same_members :: "igsc_info \<Rightarrow> igsc_info \<Rightarrow> bool" where
  "same_members s s' \<longleftrightarrow> sdb_members s' = sdb_members s \<and> static_refs s' = static_refs s \<and>
     mfdb_refs (emf_handle s') = mfdb_refs (emf_handle s)"

lemma same_members_refl [simp]: "same_members s s"
  by (simp add: same_members_def)

lemma same_members_trans: "same_members s s1 \<Longrightarrow> same_members s1 s2 \<Longrightarrow> same_members s s2"
  by (simp add: same_members_def)

lemma sdb_inv_other:
  assumes "sdb_inv s" "mgrp_sdb s' = mgrp_sdb s" "timers s' = timers s" "emf_inv (emf_handle s')"
    "mfdb_refs (emf_handle s') = mfdb_refs (emf_handle s)"
  shows "sdb_inv s' \<and> same_members s s'"
proof -
  note c = table_cong [OF assms(2)]
  have "tables_ok (igsc_sdb_group_find s) (timers s) (emf_handle s')"
    using tables_ok_emf assms(1,4,5) by (auto simp: sdb_inv_def)
  then show ?thesis
    using assms(1,3,5) own_refs_cong [OF assms(5)] by (simp add: sdb_inv_def c same_members_def sdb_members_def static_refs_def)
qed

lemma rtport_same_refs:
  "mfdb_refs (fst (emfc_rtport_add b e i)) = mfdb_refs e" "mfdb_refs (fst (emfc_rtport_del e i)) = mfdb_refs e"
  by (auto simp: mfdb_refs_def fun_eq_iff emfc_rtport_add_def emfc_rtport_del_def emfc_iflist_add_def emfc_iflist_del_def Let_def
      split: option.splits)

lemma sdb_inv_emf: "sdb_inv s \<Longrightarrow> emf_inv (emf_handle s)"
  by (auto simp: sdb_inv_def dest: tables_okD(7))

lemma rtlist_find_iff: "igsc_rtlist_find s ifp ip = None \<longleftrightarrow> (ifp, ip) \<notin> routers s"
  by (auto simp: igsc_rtlist_find_def find_None_iff routers_def)

lemma rtlist_add_spec:
  assumes inv: "igs_inv s" and ifp: "ifp \<noteq> 0" and fr: "\<And>a. new_rt al = Some a \<Longrightarrow> a \<notin> rt_addr ` set (rtlist_head s)"
  shows "\<exists>s' r. igsc_rtlist_add al s ifp ip = Some (s', r) \<and> igs_inv s' \<and> same_members s s' \<and>
    (routers s' = insert (ifp, ip) (routers s) \<or> routers s' = routers s \<and> (new_rt al = None \<or> \<not> ok_rttimer al))"
proof (cases "igsc_rtlist_find s ifp ip")
  case (Some rt)
  then have rt: "rt \<in> set (rtlist_head s)" "rt_ifp rt = ifp" "mr_ip rt = ip" by (auto simp: igsc_rtlist_find_def find_Some_iff)
  let ?s = "s\<lparr>rt_timers := (rt_timers s)(rt_addr rt \<mapsto> query_intv s)\<rparr>"
  have live: "rt_timers s (rt_addr rt) \<noteq> None" using inv rt(1) by (auto simp: igs_inv_def rt_ok_def)
  have "sdb_inv ?s \<and> same_members s ?s" using inv by (intro sdb_inv_other) (auto simp: igs_inv_def dest: sdb_inv_emf)
  moreover have "rt_ok ?s" using inv by (auto simp: igs_inv_def rt_ok_def)
  moreover have "routers ?s = insert (ifp, ip) (routers s)" using rt by (auto simp: routers_def)
  moreover have "igsc_rtlist_add al s ifp ip = Some (?s, FAILURE)" using Some live by (auto simp: igsc_rtlist_add_def)
  ultimately show ?thesis by (auto simp: igs_inv_def)
next
  case None
  let ?e = "fst (emfc_rtport_add (ok_rtif al) (emf_handle s) ifp)"
  have sd: "sdb_inv s" and rk: "rt_ok s" using inv by (simp_all add: igs_inv_def)
  have e: "emf_inv ?e" "mfdb_refs ?e = mfdb_refs (emf_handle s)" "snd (emfc_rtport_add (ok_rtif al) (emf_handle s) ifp) = SUCCESS"
    using port_ops_inv(2) [OF sdb_inv_emf [OF sd] ifp] rtport_same_refs(1)
    by (auto simp: emfc_rtport_add_def Let_def split: option.splits)
  show ?thesis
  proof (cases "new_rt al")
    case (Some a)
    show ?thesis
    proof (cases "ok_rttimer al")
      case True
      let ?s = "s\<lparr>emf_handle := ?e, rt_timers := (rt_timers s)(a \<mapsto> query_intv s),
        rtlist_head := \<lparr>rt_addr = a, rt_ifp = ifp, mr_ip = ip\<rparr> # rtlist_head s\<rparr>"
      have "sdb_inv ?s \<and> same_members s ?s" by (rule sdb_inv_other [OF sd]) (use e in simp_all)
      moreover have "rt_ok ?s" using rk fr [OF Some] None ifp rtlist_find_iff [of s ifp ip] by (auto simp: rt_ok_def routers_def)
      moreover have "routers ?s = insert (ifp, ip) (routers s)" by (simp add: routers_def)
      moreover have "igsc_rtlist_add al s ifp ip = Some (?s, SUCCESS)"
        using None Some True e(3) by (simp add: igsc_rtlist_add_def case_prod_beta)
      ultimately show ?thesis by (auto simp: igs_inv_def)
    next
      case False
      let ?s = "s\<lparr>emf_handle := fst (emfc_rtport_del ?e ifp)\<rparr>"
      have "sdb_inv ?s \<and> same_members s ?s"
        by (rule sdb_inv_other [OF sd]) (use e port_ops_inv(4) [OF e(1) ifp] rtport_same_refs(2) [of ?e ifp] in simp_all)
      moreover have "rt_ok ?s" "routers ?s = routers s" using rk by (auto simp: rt_ok_def routers_def)
      moreover have "igsc_rtlist_add al s ifp ip = Some (?s, FAILURE)"
        using None Some False e(3) by (simp add: igsc_rtlist_add_def case_prod_beta)
      ultimately show ?thesis using False by (auto simp: igs_inv_def)
    qed
  qed (use None inv in \<open>simp add: igsc_rtlist_add_def\<close>)
qed

text \<open>One router entry less, with or without giving the port reference back.\<close>

lemma rt_drop_inv:
  assumes inv: "igs_inv s" and rt: "rt \<in> set (rtlist_head s)"
    and e: "e = emf_handle s \<or> e = fst (emfc_rtport_del (emf_handle s) (rt_ifp rt))"
    and s': "mgrp_sdb s' = mgrp_sdb s" "timers s' = timers s" "emf_handle s' = e"
      "rtlist_head s' = filter (\<lambda>r. rt_addr r \<noteq> rt_addr rt) (rtlist_head s)"
      "\<And>a. a \<noteq> rt_addr rt \<Longrightarrow> rt_timers s' a = rt_timers s a"
  shows "igs_inv s'" "same_members s s'" "routers s' = routers s - {(rt_ifp rt, mr_ip rt)}"
proof -
  have sd: "sdb_inv s" and rk: "rt_ok s" and i0: "rt_ifp rt \<noteq> 0" using inv rt by (auto simp: igs_inv_def rt_ok_def)
  have "emf_inv e" "mfdb_refs e = mfdb_refs (emf_handle s)"
    using e sdb_inv_emf [OF sd] port_ops_inv(4) [OF sdb_inv_emf [OF sd] i0] rtport_same_refs(2) by auto
  then have o: "sdb_inv s' \<and> same_members s s'" using sdb_inv_other [OF sd s'(1,2)] s'(3) by simp
  have "rt_ok s'" using rk s'(5) by (auto simp: rt_ok_def s'(4) distinct_map_filter)
  then show "igs_inv s'" "same_members s s'" using o by (simp_all add: igs_inv_def)
  have inj: "r = rt" if "r \<in> set (rtlist_head s)" "rt_addr r = rt_addr rt \<or> rt_ifp r = rt_ifp rt \<and> mr_ip r = mr_ip rt" for r
    using rk that rt unfolding rt_ok_def distinct_map inj_on_def by fastforce
  show "routers s' = routers s - {(rt_ifp rt, mr_ip rt)}" unfolding routers_def s'(4) using inj by auto
qed

lemma rt_timer_spec:
  assumes inv: "igs_inv s" and rt: "rt \<in> set (rtlist_head s)"
  shows "\<exists>s'. osl_timer_rt s (rt_addr rt) = Some s' \<and> igs_inv s' \<and> same_members s s' \<and>
    routers s' = routers s - {(rt_ifp rt, mr_ip rt)}"
proof -
  have "distinct (map rt_addr (rtlist_head s))" using inv by (simp add: igs_inv_def rt_ok_def)
  then have "find (\<lambda>r. rt_addr rt = rt_addr r) (rtlist_head s) = Some rt" by (rule find_unique [OF _ rt])
  moreover have "find (\<lambda>r. rt_addr r = rt_addr rt) (rtlist_head s) = find (\<lambda>r. rt_addr rt = rt_addr r) (rtlist_head s)"
    by (rule arg_cong [where f = "\<lambda>P. find P (rtlist_head s)"]) auto
  ultimately have f: "find (\<lambda>r. rt_addr r = rt_addr rt) (rtlist_head s) = Some rt" by (rule trans [rotated])
  let ?l = "filter (\<lambda>r. rt_addr r \<noteq> rt_addr rt) (rtlist_head s)"
  define s' where "s' = s\<lparr>rt_timers := (rt_timers s)(rt_addr rt := None), rtlist_head := ?l,
    emf_handle := if list_ex (\<lambda>r. rt_ifp r = rt_ifp rt) ?l then emf_handle s else fst (emfc_rtport_del (emf_handle s) (rt_ifp rt))\<rparr>"
  have "osl_timer_rt s (rt_addr rt) = Some s'" using f by (simp add: osl_timer_rt_def igsc_rtlist_timer_def s'_def)
  moreover note rt_drop_inv [OF inv rt, of "emf_handle s'" s']
  ultimately show ?thesis by (auto simp: s'_def)
qed

lemma rtlist_clear_spec:
  assumes "igs_inv s" "rts = rtlist_head s"
  shows "\<exists>s'. rtlist_clear_loop True rts s = Some s' \<and> igs_inv s' \<and> same_members s s' \<and> routers s' = {}"
  using assms
proof (induction rts arbitrary: s)
  case (Cons rt rts)
  have rt: "rt \<in> set (rtlist_head s)" using Cons.prems(2) [symmetric] by simp
  have live: "rt_timers s (rt_addr rt) \<noteq> None" using Cons.prems(1) rt by (auto simp: igs_inv_def rt_ok_def)
  define s1 where "s1 = s\<lparr>rt_timers := (rt_timers s)(rt_addr rt := None),
    emf_handle := fst (emfc_rtport_del (emf_handle s) (rt_ifp rt)),
    rtlist_head := filter (\<lambda>r. rt_addr r \<noteq> rt_addr rt) (rtlist_head s)\<rparr>"
  have i: "igs_inv s1" "same_members s s1"
    by (rule rt_drop_inv [OF Cons.prems(1) rt, of "emf_handle s1"], simp_all add: s1_def)+
  have "distinct (map rt_addr (rt # rts))" using Cons.prems by (simp add: igs_inv_def rt_ok_def)
  then have "filter (\<lambda>r. rt_addr r \<noteq> rt_addr rt) (rt # rts) = rts" by (auto simp: filter_id_conv image_iff)
  then have "rts = rtlist_head s1" unfolding s1_def using Cons.prems(2) by simp
  from Cons.IH [OF i(1) this] obtain s' where
    "rtlist_clear_loop True rts s1 = Some s'" "igs_inv s'" "same_members s1 s'" "routers s' = {}" by blast
  then show ?case using live same_members_trans [OF i(2)] by (auto simp: s1_def)
qed (simp add: routers_def)

lemma rtport_del_loop_spec:
  assumes "igs_inv s" "set rts \<subseteq> set (rtlist_head s)" "distinct (map rt_addr rts)"
  shows "igs_inv (rtport_del_loop ifp rts s) \<and> same_members s (rtport_del_loop ifp rts s) \<and>
    routers (rtport_del_loop ifp rts s) = routers s - (\<lambda>r. (rt_ifp r, mr_ip r)) ` {r \<in> set rts. rt_ifp r = ifp}"
  using assms
proof (induction rts arbitrary: s)
  case (Cons rt rts)
  show ?case
  proof (cases "rt_ifp rt = ifp")
    case True
    define s1 where "s1 = s\<lparr>emf_handle := fst (emfc_rtport_del (emf_handle s) (rt_ifp rt)),
      rtlist_head := filter (\<lambda>r. rt_addr r \<noteq> rt_addr rt) (rtlist_head s)\<rparr>"
    have rt: "rt \<in> set (rtlist_head s)" using Cons.prems(2) by simp
    have i: "igs_inv s1" "same_members s s1" "routers s1 = routers s - {(rt_ifp rt, mr_ip rt)}"
      by (rule rt_drop_inv [OF Cons.prems(1) rt, of "emf_handle s1"], simp_all add: s1_def)+
    have "set rts \<subseteq> set (rtlist_head s1)" using Cons.prems(2,3) by (auto simp: s1_def image_iff)
    note ih = Cons.IH [OF i(1) this]
    have "{r \<in> set (rt # rts). rt_ifp r = ifp} = insert rt {r \<in> set rts. rt_ifp r = ifp}" using True by auto
    moreover have "rtport_del_loop ifp (rt # rts) s = rtport_del_loop ifp rts s1" using True by (simp add: s1_def)
    ultimately show ?thesis using ih Cons.prems(3) i(3) same_members_trans [OF i(2)] by auto
  next
    case False
    have "{r \<in> set (rt # rts). rt_ifp r = ifp} = {r \<in> set rts. rt_ifp r = ifp}" using False by auto
    then show ?thesis using Cons False by simp
  qed
qed simp

lemma interface_rtport_del_spec:
  assumes "igs_inv s"
  shows "igs_inv (fst (igsc_interface_rtport_del s ifp)) \<and> same_members s (fst (igsc_interface_rtport_del s ifp)) \<and>
    routers (fst (igsc_interface_rtport_del s ifp)) = {(i, ip) \<in> routers s. i \<noteq> ifp}"
proof -
  have "distinct (map rt_addr (rtlist_head s))" using assms by (simp add: igs_inv_def rt_ok_def)
  from rtport_del_loop_spec [OF assms subset_refl this, of ifp] show ?thesis
    by (auto simp: igsc_interface_rtport_del_def routers_def)
qed

subsection \<open>What a frame does to the snooper\<close>

lemma stats_inv [simp]:
  "igs_inv (IGSC_STATS_INCR m s) = igs_inv s" "routers (IGSC_STATS_INCR m s) = routers s"
  "sdb_members (IGSC_STATS_INCR m s) = sdb_members s" "static_refs (IGSC_STATS_INCR m s) = static_refs s"
  "sdb_inv (IGSC_STATS_INCR m s) = sdb_inv s" "add_ready al (IGSC_STATS_INCR m s) ip i = add_ready al s ip i"
  by (simp_all add: igs_inv_def rt_ok_def routers_def sdb_inv_def sdb_members_def static_refs_def add_ready_def)

lemma frame_routers: "sdb_frame s s' \<Longrightarrow> rt_ok s' = rt_ok s \<and> routers s' = routers s \<and> static_refs s' = static_refs s"
  by (simp add: sdb_frame_def rt_ok_def routers_def)

text \<open>When a frame can be handled: it is long enough, came from a port, and what it makes the
  snooper allocate is fresh.\<close>

definition input_ready :: "sdb_alloc \<Rightarrow> rt_alloc \<Rightarrow> igsc_info \<Rightarrow> nat \<Rightarrow> uint8 list \<Rightarrow> uint8 list \<Rightarrow> bool" where
  "input_ready al ral s ifp iph igmph \<longleftrightarrow> 8 \<le> length igmph \<and> 20 \<le> length iph \<and> ifp \<noteq> 0 \<and>
     (igmph ! 0 = IGMPV2_HOST_NEW_MEMBERSHIP_REPORT \<and> \<not> igsc_is_reserved (dest_ip_of iph) \<longrightarrow>
        add_ready al s (grp_ip_of igmph) ifp) \<and>
     (\<forall>a. new_rt ral = Some a \<longrightarrow> a \<notin> rt_addr ` set (rtlist_head s))"

text \<open>What the snooper learns from a frame with verdict \<open>act\<close>.\<close>

definition learnt :: "uint8 \<Rightarrow> uint32 \<Rightarrow> uint32 \<times> uint32 \<times> nat \<Rightarrow> (uint32 \<times> uint32 \<times> nat) set \<Rightarrow> (uint32 \<times> uint32 \<times> nat) set" where
  "learnt type act x M =
     (if type = IGMPV2_HOST_NEW_MEMBERSHIP_REPORT \<and> act = EMF_FORWARD then insert x M
      else if type = IGMPV2_LEAVE_GROUP_MESSAGE then M - {x} else M)"

lemmas igmp_types = IGMPV2_HOST_MEMBERSHIP_QUERY_def IGMPV2_HOST_MEMBERSHIP_REPORT_def
  IGMPV2_HOST_NEW_MEMBERSHIP_REPORT_def IGMPV2_LEAVE_GROUP_MESSAGE_def EMF_FORWARD_def EMF_FLOOD_def

definition snooped :: "sdb_alloc \<Rightarrow> rt_alloc \<Rightarrow> igsc_info \<Rightarrow> nat \<Rightarrow> uint8 list \<Rightarrow> uint8 list \<Rightarrow> igsc_info \<times> uint32 \<Rightarrow> bool" where
  "snooped al ral s ifp iph igmph r \<longleftrightarrow> (case r of (s', act) \<Rightarrow>
     igs_inv s' \<and> static_refs s' = static_refs s \<and>
     sdb_members s' = learnt (igmph ! 0) act (grp_ip_of igmph, src_ip_of iph, ifp) (sdb_members s) \<and>
     act \<in> {EMF_FORWARD, EMF_FLOOD} \<and>
     (igmph ! 0 = IGMPV2_HOST_NEW_MEMBERSHIP_REPORT \<and> \<not> igsc_is_reserved (dest_ip_of iph) \<and> alloc_all al \<longrightarrow> act = EMF_FORWARD) \<and>
     (act = EMF_FORWARD \<longrightarrow> igmph ! 0 = IGMPV2_HOST_NEW_MEMBERSHIP_REPORT \<and> \<not> igsc_is_reserved (dest_ip_of iph)) \<and>
     (if igmph ! 0 = IGMPV2_HOST_MEMBERSHIP_QUERY \<and> src_ip_of iph \<noteq> 0
      then routers s' \<in> {routers s, insert (ifp, src_ip_of iph) (routers s)} \<and>
        (new_rt ral \<noteq> None \<and> ok_rttimer ral \<longrightarrow> routers s' = insert (ifp, src_ip_of iph) (routers s))
      else routers s' = routers s))"

lemma igsc_input_spec:
  assumes inv: "igs_inv s" and rdy: "input_ready al ral s ifp iph igmph"
  shows "\<exists>r. igsc_input al ral s ifp iph igmph False = Some r \<and> snooped al ral s ifp iph igmph r"
proof -
  let ?s = "IGSC_STATS_INCR igmp_packets_update s" and ?t = "igmph ! 0" and ?x = "(grp_ip_of igmph, src_ip_of iph, ifp)"
  have len: "\<not> (length igmph < 8 \<or> length iph < 20)" "ifp \<noteq> 0" using rdy by (auto simp: input_ready_def)
  have sd: "sdb_inv s" and rk: "rt_ok s" using inv by (simp_all add: igs_inv_def)
  consider (report) "?t = IGMPV2_HOST_NEW_MEMBERSHIP_REPORT" "\<not> igsc_is_reserved (dest_ip_of iph)"
    | (leave) "?t = IGMPV2_LEAVE_GROUP_MESSAGE" | (query) "?t = IGMPV2_HOST_MEMBERSHIP_QUERY" "src_ip_of iph \<noteq> 0"
    | (other) "?t = IGMPV2_HOST_NEW_MEMBERSHIP_REPORT \<Longrightarrow> igsc_is_reserved (dest_ip_of iph)" "?t \<noteq> IGMPV2_LEAVE_GROUP_MESSAGE"
        "?t = IGMPV2_HOST_MEMBERSHIP_QUERY \<Longrightarrow> src_ip_of iph = 0" by blast
  then show ?thesis
  proof cases
    case report
    have "add_ready al s (grp_ip_of igmph) ifp" using rdy report by (simp add: input_ready_def)
    then obtain s' r where a: "igsc_sdb_member_add al (IGSC_STATS_INCR igmp_v2reports_update ?s) ifp (grp_ip_of igmph) (src_ip_of iph) = Some (s', r)"
      "sdb_inv s'" "sdb_frame (IGSC_STATS_INCR igmp_v2reports_update ?s) s'"
      "r = SUCCESS \<and> sdb_members s' = insert ?x (sdb_members s) \<or> r = FAILURE \<and> sdb_members s' = sdb_members s"
      "alloc_all al \<longrightarrow> r = SUCCESS"
      using member_add_spec [of "IGSC_STATS_INCR igmp_v2reports_update ?s" al "grp_ip_of igmph" ifp "src_ip_of iph"] sd by auto
    note fr = frame_routers [OF a(3)]
    have i: "igsc_input al ral s ifp iph igmph False = Some (s', if r = SUCCESS then EMF_FORWARD else EMF_FLOOD)"
      using a(1) len report by (simp add: igsc_input_def)
    have "rt_ok s'" using fr rk by (simp add: rt_ok_def)
    then show ?thesis
      unfolding i using a(2,5) fr a(4) report by (auto simp: snooped_def learnt_def igs_inv_def igmp_types SUCCESS_def FAILURE_def)
  next
    case leave
    obtain s' r where a: "igsc_sdb_member_del (IGSC_STATS_INCR igmp_leaves_update ?s) ifp (grp_ip_of igmph) (src_ip_of iph) = Some (s', r)"
      "sdb_inv s'" "sdb_frame (IGSC_STATS_INCR igmp_leaves_update ?s) s'" "sdb_members s' = sdb_members s - {?x}"
      using member_del_spec [of "IGSC_STATS_INCR igmp_leaves_update ?s" ifp "grp_ip_of igmph" "src_ip_of iph"] sd by auto
    note fr = frame_routers [OF a(3)]
    have i: "igsc_input al ral s ifp iph igmph False = Some (s', EMF_FLOOD)"
      using a(1) len leave by (simp add: igsc_input_def igmp_types)
    have "rt_ok s'" using fr rk by (simp add: rt_ok_def)
    then show ?thesis unfolding i using a(2,4) fr leave by (auto simp: snooped_def learnt_def igs_inv_def igmp_types)
  next
    case query
    have fresh: "\<And>a. new_rt ral = Some a \<Longrightarrow> a \<notin> rt_addr ` set (rtlist_head (IGSC_STATS_INCR igmp_queries_update ?s))"
      using rdy by (simp add: input_ready_def)
    obtain s' r where a: "igsc_rtlist_add ral (IGSC_STATS_INCR igmp_queries_update ?s) ifp (src_ip_of iph) = Some (s', r)" "igs_inv s'"
      "same_members (IGSC_STATS_INCR igmp_queries_update ?s) s'"
      "routers s' = insert (ifp, src_ip_of iph) (routers s) \<or> routers s' = routers s \<and> (new_rt ral = None \<or> \<not> ok_rttimer ral)"
      using rtlist_add_spec [of "IGSC_STATS_INCR igmp_queries_update ?s" ifp ral "src_ip_of iph", OF _ len(2) fresh] inv by auto
    have i: "igsc_input al ral s ifp iph igmph False = Some (s', EMF_FLOOD)"
      using a(1) len query by (simp add: igsc_input_def igmp_types)
    show ?thesis unfolding i using a(2,3,4) query by (auto simp: snooped_def learnt_def igmp_types same_members_def)
  next
    case other
    then have "\<exists>m. igsc_input al ral s ifp iph igmph False = Some (IGSC_STATS_INCR m ?s, EMF_FLOOD)"
      using len by (auto simp: igsc_input_def Let_def)
    then obtain m where m: "igsc_input al ral s ifp iph igmph False = Some (IGSC_STATS_INCR m ?s, EMF_FLOOD)" by blast
    have "snooped al ral s ifp iph igmph (IGSC_STATS_INCR m ?s, EMF_FLOOD)"
      using inv other by (auto simp: snooped_def learnt_def igmp_types)
    then show ?thesis using m by blast
  qed
qed

text \<open>C12: What the snooper learns. An IGMP frame from a port is always handled to the end. A version 2
  report that is not for a reserved address makes its sender a member of the group on the
  interface and is forwarded, unless memory runs out; a leave ends exactly that membership; a
  query with a source address makes its sender a known router of the interface; no other frame
  changes members or routers, and all of them are flooded. Frames from a router port teach
  nothing. Memberships held by others in the forwarding database never change.\<close>

theorem snooper_learns:
  assumes "igs_inv s" "input_ready al ral s ifp iph igmph"
  shows "(\<exists>s' act. igsc_input al ral s ifp iph igmph False = Some (s', act) \<and> igs_inv s' \<and> static_refs s' = static_refs s \<and>
     sdb_members s' = learnt (igmph ! 0) act (grp_ip_of igmph, src_ip_of iph, ifp) (sdb_members s) \<and>
     act \<in> {EMF_FORWARD, EMF_FLOOD} \<and>
     (igmph ! 0 = IGMPV2_HOST_NEW_MEMBERSHIP_REPORT \<and> \<not> igsc_is_reserved (dest_ip_of iph) \<and> alloc_all al \<longrightarrow> act = EMF_FORWARD) \<and>
     (act = EMF_FORWARD \<longrightarrow> igmph ! 0 = IGMPV2_HOST_NEW_MEMBERSHIP_REPORT \<and> \<not> igsc_is_reserved (dest_ip_of iph)) \<and>
     (if igmph ! 0 = IGMPV2_HOST_MEMBERSHIP_QUERY \<and> src_ip_of iph \<noteq> 0
      then routers s' \<in> {routers s, insert (ifp, src_ip_of iph) (routers s)} \<and>
        (new_rt ral \<noteq> None \<and> ok_rttimer ral \<longrightarrow> routers s' = insert (ifp, src_ip_of iph) (routers s))
      else routers s' = routers s)) \<and>
    (\<exists>s'. igsc_input al ral s ifp iph igmph True = Some (s', EMF_FLOOD) \<and> igs_inv s' \<and> sdb_members s' = sdb_members s \<and>
     routers s' = routers s)"
proof -
  obtain s' act where i: "igsc_input al ral s ifp iph igmph False = Some (s', act)" and sn: "snooped al ral s ifp iph igmph (s', act)"
    using igsc_input_spec [OF assms] by (metis surj_pair)
  have rp: "igsc_input al ral s ifp iph igmph True =
      Some (IGSC_STATS_INCR igmp_not_handled_update (IGSC_STATS_INCR igmp_packets_update s), EMF_FLOOD)"
    by (simp add: igsc_input_def Let_def)
  show ?thesis
    by (rule conjI, rule exI [of _ s'], rule exI [of _ act], rule conjI [OF i sn [unfolded snooped_def prod.case]])
      (use assms(1) in \<open>simp add: rp\<close>)
qed

definition ex_report :: "uint8 list" where "ex_report = [0x16, 0, 0, 0, 225, 0, 0, 1]"

definition ex_rtal :: rt_alloc where "ex_rtal = \<lparr>new_rt = Some 300, ok_rtif = True, ok_rttimer = True\<rparr>"

lemma ex_igs_facts: "igs_inv ex_sdb" "routers ex_sdb = {}" "rtlist_head ex_sdb = []" "grp_ip_of ex_report = 0xE1000001"
proof -
  show r: "rtlist_head ex_sdb = []" by (simp add: ex_sdb_def igsc_sdb_init_def igsc_zero_def)
  show "igs_inv ex_sdb" "routers ex_sdb = {}" using ex_sdb_facts(2) by (simp_all add: igs_inv_def rt_ok_def routers_def r)
  show "grp_ip_of ex_report = 0xE1000001" by (simp add: grp_ip_of_def ex_report_def get32_def)
qed

lemma ex_input_ready: "input_ready ex_sal ex_rtal ex_sdb 3 ex_iph ex_report" "\<not> igsc_is_reserved 0xE1000001"
  using ex_sdb_facts(7) ex_igs_facts(3,4)
  by (auto simp: input_ready_def ex_report_def ex_iph_def igsc_is_reserved_def mc_addr_rsvd_def)

theorem snooper_learns_witness:
  "\<exists>s' x. igsc_input ex_sal ex_rtal ex_sdb 3 ex_iph ex_report False = Some (s', EMF_FORWARD) \<and> sdb_members s' = {x}"
proof -
  have t: "ex_report ! 0 = IGMPV2_HOST_NEW_MEMBERSHIP_REPORT" by (simp add: ex_report_def IGMPV2_HOST_NEW_MEMBERSHIP_REPORT_def)
  show ?thesis
    using snooper_learns [OF ex_igs_facts(1) ex_input_ready(1)] ex_sdb_facts(3,8) ex_input_ready(2) ex_emfc_facts(5)
    by (auto simp: t learnt_def)
qed

text \<open>C28: Two routers on one port leave a stale router port. When queries of two routers arrive on an
  interface that is not in the interface list, and then both time out, the snooper knows no router
  there any more but the forwarder still counts one router port reference: every addition counted
  one, but only the last timeout gave one back. The port goes on receiving all unregistered
  frames.\<close>

theorem router_port_reference_leaks:
  assumes "igs_inv s" "ifp \<noteq> 0" "\<forall>ip. (ifp, ip) \<notin> routers s" "port_refs (emf_handle s) ifp = None" "ip1 \<noteq> ip2" "a1 \<noteq> a2"
    "a1 \<notin> rt_addr ` set (rtlist_head s)" "a2 \<notin> rt_addr ` set (rtlist_head s)"
  shows "\<exists>s1 s2 s3 s4. igsc_rtlist_add \<lparr>new_rt = Some a1, ok_rtif = True, ok_rttimer = True\<rparr> s ifp ip1 = Some (s1, SUCCESS) \<and>
    igsc_rtlist_add \<lparr>new_rt = Some a2, ok_rtif = True, ok_rttimer = True\<rparr> s1 ifp ip2 = Some (s2, SUCCESS) \<and>
    osl_timer_rt s2 a1 = Some s3 \<and> osl_timer_rt s3 a2 = Some s4 \<and> routers s4 = routers s \<and>
    port_refs (emf_handle s4) ifp = Some (0, 1)"
proof -
  define rt1 rt2 where "rt1 = \<lparr>rt_addr = a1, rt_ifp = ifp, mr_ip = ip1\<rparr>" and "rt2 = \<lparr>rt_addr = a2, rt_ifp = ifp, mr_ip = ip2\<rparr>"
  let ?e = "emf_handle s" and ?l = "rtlist_head s"
  define e1 where "e1 = fst (emfc_rtport_add True ?e ifp)"
  define e2 where "e2 = fst (emfc_rtport_add True e1 ifp)"
  define s1 where "s1 = s\<lparr>emf_handle := e1, rt_timers := (rt_timers s)(a1 \<mapsto> query_intv s), rtlist_head := rt1 # ?l\<rparr>"
  define s2 where "s2 = s1\<lparr>emf_handle := e2, rt_timers := (rt_timers s1)(a2 \<mapsto> query_intv s1), rtlist_head := rt2 # rt1 # ?l\<rparr>"
  define s3 where "s3 = s2\<lparr>rt_timers := (rt_timers s2)(a1 := None), rtlist_head := rt2 # ?l\<rparr>"
  define s4 where "s4 = s3\<lparr>rt_timers := (rt_timers s3)(a2 := None), rtlist_head := ?l, emf_handle := fst (emfc_rtport_del e2 ifp)\<rparr>"
  have none: "rt_ifp r \<noteq> ifp" if "r \<in> set ?l" for r using that assms(3) by (auto simp: routers_def)
  have fl: "filter (\<lambda>r. rt_addr r \<noteq> a) ?l = ?l" if "a \<notin> rt_addr ` set ?l" for a using that by (auto simp: filter_id_conv)
  have d: "distinct (map if_ifp (iflist_head ?e))" using assms(1) by (auto simp: igs_inv_def emf_inv_def dest!: sdb_inv_emf)
  note r1 = rtport.add_refs [OF d assms(2), folded e1_def]
  note r2 = rtport.add_refs [OF conjunct1 [OF r1] assms(2), folded e2_def]
  note r3 = rtport.del_refs [OF conjunct1 [OF r2] assms(2)]
  have "rtport.refs ?e ifp = None" using assms(4) by (simp add: refs_port_refs)
  then have "rtport.refs e2 ifp = Some (2, 0)" using r1 r2 by simp
  then have "rtport.refs (fst (emfc_rtport_del e2 ifp)) ifp = Some (1, 0)" using r3 by auto
  then have p: "port_refs (emf_handle s4) ifp = Some (0, 1)" by (auto simp: refs_port_refs s4_def)
  have n1: "igsc_rtlist_find s ifp ip1 = None" unfolding rtlist_find_iff using assms(3) by simp
  have n2: "igsc_rtlist_find s1 ifp ip2 = None" unfolding rtlist_find_iff using assms(3,5) by (auto simp: routers_def s1_def rt1_def)
  have p1: "emfc_rtport_add True ?e ifp = (e1, SUCCESS)" "emfc_rtport_add True e1 ifp = (e2, SUCCESS)"
    using r1 r2 by (simp_all add: e1_def e2_def prod_eq_iff)
  have "igsc_rtlist_add \<lparr>new_rt = Some a1, ok_rtif = True, ok_rttimer = True\<rparr> s ifp ip1 = Some (s1, SUCCESS)"
    using n1 p1 by (simp add: igsc_rtlist_add_def s1_def rt1_def)
  moreover have "igsc_rtlist_add \<lparr>new_rt = Some a2, ok_rtif = True, ok_rttimer = True\<rparr> s1 ifp ip2 = Some (s2, SUCCESS)"
    using n2 p1 by (simp add: igsc_rtlist_add_def s1_def s2_def rt2_def)
  moreover have "osl_timer_rt s2 a1 = Some s3"
    using assms(6) fl [OF assms(7)] by (simp add: osl_timer_rt_def igsc_rtlist_timer_def s3_def s2_def rt1_def rt2_def)
  moreover have "osl_timer_rt s3 a2 = Some s4"
    using fl [OF assms(8)] none by (auto simp: osl_timer_rt_def igsc_rtlist_timer_def s4_def s3_def s2_def rt2_def list_ex_iff)
  moreover have "routers s4 = routers s" by (simp add: s4_def routers_def)
  ultimately show ?thesis using p by blast
qed

theorem router_port_reference_leaks_witness:
  "\<exists>s1 s2 s3 s4. osl_timer_rt s2 1 = Some s3 \<and> osl_timer_rt s3 2 = Some s4 \<and> routers s4 = {} \<and>
    port_refs (emf_handle s4) 3 = Some (0, 1) \<and>
    igsc_rtlist_add \<lparr>new_rt = Some 1, ok_rtif = True, ok_rttimer = True\<rparr> ex_sdb 3 0xC0A80001 = Some (s1, SUCCESS)"
proof -
  have "port_refs (emf_handle ex_sdb) 3 = None"
    by (simp add: ex_sdb_facts(5) port_refs_def if_find_def ex_emfc_def link_group_def set_group_def ex_base_def)
  then show ?thesis
    using router_port_reference_leaks [OF ex_igs_facts(1), of 3 "0xC0A80001" "0xC0A80002" 1 2] ex_igs_facts(2,3) by auto
qed

text \<open>Turning forwarding off. When freed entries stay readable, the snooper's callback forgets all
  members and routers, and in the forwarding database only the memberships of other parties
  remain; the same holds when the snooper exits. The loop over the routers reads each entry after
  it was freed, so without that allowance the callback has no defined result as soon as one
  router is known.\<close>

lemma snooper_disable_clears:
  assumes "igs_inv s"
  shows "(\<exists>s'. igsc_emf_disabled True s = Some (s', SUCCESS) \<and> igs_inv s' \<and> sdb_members s' = {} \<and> routers s' = {} \<and>
      mfdb_refs (emf_handle s') = static_refs s) \<and>
    (\<exists>e. igsc_exit True s = Some e \<and> emf_inv e \<and> mfdb_refs e = static_refs s) \<and>
    (igsc_emf_disabled False s = None \<longleftrightarrow> routers s \<noteq> {})"
proof (intro conjI)
  have sd: "sdb_inv s" and rk: "rt_ok s" using assms by (simp_all add: igs_inv_def)
  obtain s1 where s1: "igsc_sdb_clear s = Some s1" "sdb_inv s1" "sdb_frame s s1" "sdb_members s1 = {}"
    using sdb_clear_spec [OF sd] by blast
  note fr = frame_routers [OF s1(3)]
  have i1: "igs_inv s1" using s1(2) rk fr by (simp add: igs_inv_def)
  obtain s2 where s2: "igsc_rtlist_clear True s1 = Some s2" "igs_inv s2" "same_members s1 s2" "routers s2 = {}"
    using rtlist_clear_spec [OF i1 refl] by (auto simp: igsc_rtlist_clear_def)
  have "mfdb_refs (emf_handle s1) = static_refs s" using refs_split [OF s1(2)] s1(4) fr by (simp add: fun_eq_iff)
  then show "\<exists>s'. igsc_emf_disabled True s = Some (s', SUCCESS) \<and> igs_inv s' \<and> sdb_members s' = {} \<and> routers s' = {} \<and>
      mfdb_refs (emf_handle s') = static_refs s"
    using s1 s2 by (auto simp: igsc_emf_disabled_def same_members_def)
  have "rtlist_clear_loop False (rtlist_head s1) s1 = None \<longleftrightarrow> rtlist_head s1 \<noteq> []" by (cases "rtlist_head s1") auto
  then show "igsc_emf_disabled False s = None \<longleftrightarrow> routers s \<noteq> {}"
    using s1(1) fr by (auto simp: igsc_emf_disabled_def igsc_rtlist_clear_def routers_def)
  define s0 where "s0 = s\<lparr>emf_handle := (emf_handle s)\<lparr>has_snooper := False\<rparr>\<rparr>"
  have "same_tables (emf_handle s) (emf_handle s0)" by (simp add: same_tables_def s0_def)
  from same_tables_inv(2) [OF this] have o: "sdb_inv s0 \<and> same_members s s0"
    by (intro sdb_inv_other [OF sd]) (use sdb_inv_emf [OF sd] in \<open>simp_all add: s0_def emf_inv_snooper\<close>)
  have i0: "igs_inv s0" using o rk by (simp add: igs_inv_def rt_ok_def s0_def)
  obtain t1 where t1: "igsc_rtlist_clear True s0 = Some t1" "igs_inv t1" "same_members s0 t1"
    using rtlist_clear_spec [OF i0 refl] by (auto simp: igsc_rtlist_clear_def)
  have t: "sdb_inv t1" using t1(2) by (simp add: igs_inv_def)
  obtain t2 where t2: "igsc_sdb_clear t1 = Some t2" "sdb_inv t2" "sdb_frame t1 t2" "sdb_members t2 = {}"
    using sdb_clear_spec [OF t] by blast
  have "mfdb_refs (emf_handle t2) = static_refs s"
    using refs_split [OF t2(2)] t2(3,4) t1(3) o by (simp add: fun_eq_iff sdb_frame_def same_members_def)
  then show "\<exists>e. igsc_exit True s = Some e \<and> emf_inv e \<and> mfdb_refs e = static_refs s"
    using t1(1) t2 sdb_inv_emf [OF t2(2)] by (simp add: igsc_exit_def s0_def)
qed

lemma snooper_disable_clears_witness:
  "\<exists>s'. igsc_emf_disabled True ex_sdb = Some (s', SUCCESS) \<and> mfdb_refs (emf_handle s') = mfdb_refs ex_emfc"
  using snooper_disable_clears [OF ex_igs_facts(1)] ex_sdb_facts(4) by auto

text \<open>C27: A report for the group 0.0.0.0 makes the forwarder use a freed entry. Deleting the cached group
  marks the cache empty by the address 0 but keeps its pointer; the snooper
  checks the group address of a report only by an assertion, which release builds compile out, and
  looking up the address 0 hits that mark. The state the theorem
  asks for is left by any host that joins and leaves a group.\<close>

theorem zero_group_report_uses_freed_entry:
  assumes "mgrp_cache_ip (emf_handle s) = 0" "mgrp_cache (emf_handle s) = Some p" "mgrp_mem (emf_handle s) p = None"
    "igsc_sdb_group_find s 0 = None" "ok_grp al" "new_mh al = Some a" "ok_timer al"
    "8 \<le> length igmph" "20 \<le> length iph" "igmph ! 0 = IGMPV2_HOST_NEW_MEMBERSHIP_REPORT" "grp_ip_of igmph = 0"
    "\<not> igsc_is_reserved (dest_ip_of iph)"
  shows "igsc_input al ral s ifp iph igmph False = None"
proof -
  have "emfc_mfdb_membership_add (emf_al al) (emf_handle s) 0 ifp = None"
    using assms(1,2,3) by (simp add: emfc_mfdb_membership_add_def emfc_mfdb_group_find_def)
  then have "igsc_sdb_member_add al (IGSC_STATS_INCR igmp_v2reports_update (IGSC_STATS_INCR igmp_packets_update s)) ifp 0 (src_ip_of iph) = None"
    using assms(4-7)
    by (simp add: igsc_sdb_member_add_def add_host_def Let_def osl_timer_add_def igsc_sdb_mi_entry_find_def table_frame)
  then show ?thesis using assms(8-12) by (simp add: igsc_input_def)
qed

definition ex_left :: "emfc_info option" where
  "ex_left = (case emfc_mfdb_membership_add \<lparr>new_mgrp = 20, ok_mgrp = True, ok_mi = True, ok_mhif = True\<rparr> emfc_zero 0xE1000001 3 of
     None \<Rightarrow> None
   | Some (e, _) \<Rightarrow> map_option fst (emfc_mfdb_membership_del e 0xE1000001 3))"

theorem zero_group_report_uses_freed_entry_witness:
  "\<exists>e. ex_left = Some e \<and>
    igsc_input ex_sal ex_rtal (igsc_zero e) 3 ex_iph [0x16, 0, 0, 0, 0, 0, 0, 0] False = None"
proof -
  obtain e where e: "ex_left = Some e" "mgrp_cache_ip e = 0" "mgrp_cache e = Some 20" "mgrp_mem e 20 = None"
    by (simp add: ex_left_def emfc_mfdb_membership_add_def emfc_mfdb_membership_del_def emfc_mfdb_group_find_def emfc_zero_def
        add_mi_def emfc_mfdb_mhif_add_def set_group_def drop_group_def emfc_mfdb_mi_entry_find_def Let_def)
  have "igsc_sdb_group_find (igsc_zero e) 0 = None" "emf_handle (igsc_zero e) = e" by (simp_all add: igsc_sdb_group_find_def igsc_zero_def)
  moreover have "grp_ip_of [0x16, 0, 0, 0, 0, 0, 0, 0] = 0" by (simp add: grp_ip_of_def get32_def)
  ultimately show ?thesis
    using zero_group_report_uses_freed_entry [of "igsc_zero e" 20 ex_sal 100 "[0x16, 0, 0, 0, 0, 0, 0, 0]" ex_iph ex_rtal 3]
      e ex_input_ready(2) ex_emfc_facts(5)
    by (intro exI [of _ e]) (simp add: ex_sal_def ex_iph_def IGMPV2_HOST_NEW_MEMBERSHIP_REPORT_def)
qed

end
