(* ===== verification/Bridge.thy ===== *)
theory Bridge
  imports Igmp
begin

text \<open>
  The forwarder with its snooper: \<open>emfc_input\<close> of \<^verbatim>\<open>emf/emf/emfc.c\<close> calls \<open>igsc_input\<close> of
  \<^verbatim>\<open>emf/igs/igsc.c\<close>, which changes the forwarding database it was called from. The state is the
  snooper's; it holds the forwarder's instance. The theory composes the two models and shows that
  together they never get stuck and that a host that joins a group receives it.
\<close>

subsection \<open>The two together\<close>

definition igs_snooper :: "sdb_alloc \<Rightarrow> rt_alloc \<Rightarrow> igsc_info \<Rightarrow> snooper_fn" where
  "igs_snooper al ral s e ifp iph rt_port =
     map_option (\<lambda>(s', a). (emf_handle s', a))
       (igsc_input al ral (s\<lparr>emf_handle := e\<rparr>) ifp iph (drop (IPV4_HLEN iph) iph) rt_port)"

text \<open>The frames \<open>emfc_input\<close> hands to the snooper.\<close>

definition igmp_frame :: "emfc_info \<Rightarrow> uint8 list \<Rightarrow> bool" where
  "igmp_frame e iph \<longleftrightarrow> 20 \<le> length iph \<and> IP_ISMULTI (dest_ip_of iph) \<and> emf_enable e \<and> IP_VER iph = 4 \<and>
     IPV4_PROT iph = IP_PROT_IGMP \<and> has_snooper e"

definition snooper_after :: "sdb_alloc \<Rightarrow> rt_alloc \<Rightarrow> igsc_info \<Rightarrow> nat \<Rightarrow> uint8 list \<Rightarrow> bool \<Rightarrow> igsc_info" where
  "snooper_after al ral s ifp iph rt_port =
     (if igmp_frame (emf_handle s) iph
      then case igsc_input al ral (s\<lparr>emf_handle := EMFC_STATS_INCR igmp_frames_update (emf_handle s)\<rparr>) ifp iph
             (drop (IPV4_HLEN iph) iph) rt_port of None \<Rightarrow> s | Some (s', a) \<Rightarrow> s'
      else s)"

definition bridge_input :: "sdb_alloc \<Rightarrow> rt_alloc \<Rightarrow> emf_env \<Rightarrow> igsc_info \<Rightarrow> nat \<Rightarrow> uint8 list \<Rightarrow> bool \<Rightarrow>
    (igsc_info \<times> emf_event list \<times> uint32) option" where
  "bridge_input al ral v s ifp iph rt_port =
     map_option (\<lambda>(e, evs, r). ((snooper_after al ral s ifp iph rt_port)\<lparr>emf_handle := e\<rparr>, evs, r))
       (emfc_input (igs_snooper al ral s) v (emf_handle s) ifp iph rt_port)"

lemma emfc_input_igmp:
  assumes "igmp_frame e iph" "f (EMFC_STATS_INCR igmp_frames_update e) ifp iph rt_port = Some (e1, a)" "a \<in> {EMF_FORWARD, EMF_FLOOD}"
  shows "emfc_input f v e ifp iph rt_port =
    Some (if a = EMF_FORWARD then emfc_unreg_frame_handle v e1 ifp IP_PROT_IGMP rt_port
          else (EMFC_STATS_INCR igmp_frames_fwd_update e1, [], EMF_NOP))"
  using assms by (auto simp: igmp_frame_def emfc_input_def Let_def EMF_FORWARD_def EMF_FLOOD_def EMF_DROP_def EMF_SENDUP_def)

lemma unreg_flood_enable: "emf_enable (fst (unreg_flood v ifp proto ps e k n)) = emf_enable e"
  by (induction v ifp proto ps e k n rule: unreg_flood.induct)
    (auto simp: EMFC_PROT_STATS_INCR_def EMFC_STATS_INCR_def Let_def split: prod.splits)

lemma unreg_enable: "emf_enable (fst (emfc_unreg_frame_handle v e ifp proto rt_port)) = emf_enable e"
proof -
  have st: "emf_enable (EMFC_PROT_STATS_INCR p a b e) = emf_enable e" for p a b e
    by (simp add: EMFC_PROT_STATS_INCR_def EMFC_STATS_INCR_def)
  have "emf_enable e1 = emf_enable e" if "unreg_flood v ifp proto ps e k n = (e1, r)" for ps e k n e1 r
    using unreg_flood_enable [of v ifp proto ps e k n] that by simp
  then show ?thesis by (auto simp: emfc_unreg_frame_handle_def Let_def st split: prod.splits option.splits if_splits)
qed

lemma emfc_input_other:
  assumes inv: "emf_inv e" and len: "20 \<le> length iph" and nf: "\<not> igmp_frame e iph"
  shows "\<exists>e' evs r. emfc_input f v e ifp iph rt_port = Some (e', evs, r) \<and> emf_inv e' \<and> r \<in> {EMF_DROP, EMF_NOP, EMF_TAKEN} \<and>
    uses_original evs = (if r = EMF_TAKEN then 1 else 0) \<and> mfdb_refs e' = mfdb_refs e"
proof -
  let ?g = "\<lambda>e _ _ _. Some (e, EMF_FLOOD)"
  have g: "emfc_input f v e ifp iph rt_port = emfc_input ?g v e ifp iph rt_port"
    using nf len unfolding emfc_input_def igmp_frame_def Let_def by auto
  obtain e' evs r where o: "emfc_input ?g v e ifp iph rt_port = Some (e', evs, r)" "emf_inv e'" "r \<in> {EMF_DROP, EMF_NOP, EMF_TAKEN}"
    "uses_original evs = (if r = EMF_TAKEN then 1 else 0)"
    using emfc_input_owned [OF inv len snooper_ok_identity [OF inv, of EMF_FLOOD]] unfolding owned_def by blast
  have "mfdb_refs e' = mfdb_refs e"
  proof (cases "data_frame e iph")
    case True
    then have ip: "dest_ip_of iph \<noteq> 0" using ismulti_nonzero by (auto simp: data_frame_def)
    have mi: "mfdb_inv e" using inv by (simp add: emf_inv_def)
    obtain e1 q where q: "emfc_mfdb_group_find (EMFC_STATS_INCR mcast_data_frames_update e) (dest_ip_of iph) = Some (e1, q)" "mfdb_inv e1"
      "mfdb_refs e1 = mfdb_refs e" "case q of None \<Rightarrow> \<nexists>p g. group_at e (dest_ip_of iph) p g | Some p \<Rightarrow> \<exists>g. group_at e1 (dest_ip_of iph) p g"
      using group_find_incr [OF mi ip] by blast
    show ?thesis
    proof (cases q)
      case None
      then have u: "emfc_unreg_frame_handle v e1 ifp (IPV4_PROT iph) rt_port = (e', evs, r)"
        using o(1) q(1) by (simp add: data_frame_input [OF True])
      show ?thesis using same_tables_inv(2) [OF unreg_frame_spec(1) [OF u]] q(3) by simp
    next
      case (Some p)
      then obtain gr where gr: "group_at e1 (dest_ip_of iph) p gr" using q(4) by auto
      have "mcast_forward v e1 p ifp rt_port = Some (e', evs, r)" using o(1) q(1) Some by (simp add: data_frame_input [OF True])
      then show ?thesis using mcast_forward_spec [OF q(2) gr, of v ifp rt_port] q(3) by auto
    qed
  next
    case False
    then have "e' = e \<or> e' = EMFC_STATS_INCR mcast_data_frames_update e"
      using o(1) nf len by (auto simp: emfc_input_def data_frame_def igmp_frame_def Let_def split: if_splits)
    then show ?thesis using same_tables_inv(2) [OF same_tables_incr(1) [of e mcast_data_frames_update]] by auto
  qed
  then show ?thesis using o g by simp
qed

text \<open>Counting the frame does not matter to the snooper.\<close>

lemma emf_counted:
  assumes "igs_inv s"
  shows "igs_inv (s\<lparr>emf_handle := EMFC_STATS_INCR m (emf_handle s)\<rparr>)"
    "sdb_members (s\<lparr>emf_handle := EMFC_STATS_INCR m (emf_handle s)\<rparr>) = sdb_members s"
    "static_refs (s\<lparr>emf_handle := EMFC_STATS_INCR m (emf_handle s)\<rparr>) = static_refs s"
    "routers (s\<lparr>emf_handle := EMFC_STATS_INCR m (emf_handle s)\<rparr>) = routers s"
    "input_ready al ral (s\<lparr>emf_handle := EMFC_STATS_INCR m (emf_handle s)\<rparr>) ifp iph igmph = input_ready al ral s ifp iph igmph"
proof -
  let ?s = "s\<lparr>emf_handle := EMFC_STATS_INCR m (emf_handle s)\<rparr>"
  have t: "same_tables (emf_handle s) (emf_handle ?s)" by simp
  have r: "mfdb_refs (emf_handle ?s) = mfdb_refs (emf_handle s)" by (rule same_tables_inv(2) [OF t])
  have sd: "sdb_inv s" and rk: "rt_ok s" using assms by (simp_all add: igs_inv_def)
  have o: "sdb_inv ?s \<and> same_members s ?s"
    by (rule sdb_inv_other [OF sd _ _ _ r]) (use sdb_inv_emf [OF sd] in simp_all)
  then show "igs_inv ?s" "sdb_members ?s = sdb_members s" "static_refs ?s = static_refs s" "routers ?s = routers s"
    using rk by (simp_all add: igs_inv_def rt_ok_def same_members_def routers_def)
  have g: "igsc_sdb_group_find ?s = igsc_sdb_group_find s" by (rule table_cong(1)) simp
  have "add_ready al ?s ip i = add_ready al s ip i" for ip i
    using t r by (simp add: add_ready_def g alloc_ready_def same_tables_def)
  then show "input_ready al ral ?s ifp iph igmph = input_ready al ral s ifp iph igmph" by (simp add: input_ready_def)
qed

text \<open>When the bridge can take a frame: an IGMP frame from a port must be one the snooper can handle.\<close>

definition bridge_ready :: "sdb_alloc \<Rightarrow> rt_alloc \<Rightarrow> igsc_info \<Rightarrow> nat \<Rightarrow> uint8 list \<Rightarrow> bool \<Rightarrow> bool" where
  "bridge_ready al ral s ifp iph rt_port \<longleftrightarrow> 20 \<le> length iph \<and>
     (igmp_frame (emf_handle s) iph \<and> \<not> rt_port \<longrightarrow> input_ready al ral s ifp iph (drop (IPV4_HLEN iph) iph))"

lemma snooper_step:
  assumes inv: "igs_inv s" and rdy: "bridge_ready al ral s ifp iph rt_port" and fr: "igmp_frame (emf_handle s) iph"
  shows "\<exists>s' a. igsc_input al ral (s\<lparr>emf_handle := EMFC_STATS_INCR igmp_frames_update (emf_handle s)\<rparr>) ifp iph
      (drop (IPV4_HLEN iph) iph) rt_port = Some (s', a) \<and> igs_inv s' \<and> static_refs s' = static_refs s \<and> a \<in> {EMF_FORWARD, EMF_FLOOD} \<and>
    sdb_members s' = (if rt_port then sdb_members s
      else learnt (iph ! IPV4_HLEN iph) a (grp_ip_of (drop (IPV4_HLEN iph) iph), src_ip_of iph, ifp) (sdb_members s)) \<and>
    (\<not> rt_port \<and> iph ! IPV4_HLEN iph = IGMPV2_HOST_NEW_MEMBERSHIP_REPORT \<and> \<not> igsc_is_reserved (dest_ip_of iph) \<and> alloc_all al
      \<longrightarrow> a = EMF_FORWARD)"
proof (cases rt_port)
  case True
  then show ?thesis using emf_counted [OF inv] by (simp add: igsc_input_def Let_def)
next
  case False
  let ?s = "s\<lparr>emf_handle := EMFC_STATS_INCR igmp_frames_update (emf_handle s)\<rparr>" and ?m = "drop (IPV4_HLEN iph) iph"
  note c = emf_counted [OF inv]
  have r: "input_ready al ral s ifp iph ?m" using rdy fr False by (simp add: bridge_ready_def)
  then have "8 \<le> length ?m" by (simp add: input_ready_def)
  then have t: "?m ! 0 = iph ! IPV4_HLEN iph" by simp
  obtain s' a where i: "igsc_input al ral ?s ifp iph ?m False = Some (s', a)" and sn: "snooped al ral ?s ifp iph ?m (s', a)"
    using igsc_input_spec [of ?s al ral ifp iph ?m] c(1,5) r by (metis surj_pair)
  have k: "igs_inv s'" "static_refs s' = static_refs s" "a \<in> {EMF_FORWARD, EMF_FLOOD}"
    "sdb_members s' = learnt (iph ! IPV4_HLEN iph) a (grp_ip_of ?m, src_ip_of iph, ifp) (sdb_members s)"
    "iph ! IPV4_HLEN iph = IGMPV2_HOST_NEW_MEMBERSHIP_REPORT \<and> \<not> igsc_is_reserved (dest_ip_of iph) \<and> alloc_all al \<longrightarrow> a = EMF_FORWARD"
    using sn unfolding snooped_def prod.case t c(2,3) by blast+
  have f: "rt_port = False" using False by simp
  show ?thesis unfolding f if_False by (intro exI [of _ s'] exI [of _ a] conjI i k(1-4)) (use k(5) in blast)
qed

lemma bridge_step:
  assumes inv: "igs_inv s" and rdy: "bridge_ready al ral s ifp iph rt_port"
  shows "\<exists>s' evs r. bridge_input al ral v s ifp iph rt_port = Some (s', evs, r) \<and> igs_inv s' \<and> static_refs s' = static_refs s \<and>
    r \<in> {EMF_DROP, EMF_NOP, EMF_TAKEN} \<and> uses_original evs = (if r = EMF_TAKEN then 1 else 0) \<and>
    (\<not> igmp_frame (emf_handle s) iph \<longrightarrow> sdb_members s' = sdb_members s)"
proof (cases "igmp_frame (emf_handle s) iph")
  case True
  let ?e = "EMFC_STATS_INCR igmp_frames_update (emf_handle s)"
  obtain s1 a where s1: "igsc_input al ral (s\<lparr>emf_handle := ?e\<rparr>) ifp iph (drop (IPV4_HLEN iph) iph) rt_port = Some (s1, a)"
    "igs_inv s1" "static_refs s1 = static_refs s" "a \<in> {EMF_FORWARD, EMF_FLOOD}" using snooper_step [OF inv rdy True] by blast
  have f: "igs_snooper al ral s ?e ifp iph rt_port = Some (emf_handle s1, a)" by (simp add: igs_snooper_def s1(1))
  note input = emfc_input_igmp [where f = "igs_snooper al ral s", OF True f s1(4)]
  obtain e evs r where x: "emfc_input (igs_snooper al ral s) v (emf_handle s) ifp iph rt_port = Some (e, evs, r)"
    "same_tables (emf_handle s1) e" "r \<in> {EMF_DROP, EMF_NOP, EMF_TAKEN}" "uses_original evs = (if r = EMF_TAKEN then 1 else 0)"
  proof (cases "a = EMF_FORWARD")
    case True
    obtain e evs r where u: "emfc_unreg_frame_handle v (emf_handle s1) ifp IP_PROT_IGMP rt_port = (e, evs, r)" by (metis prod_cases3)
    show ?thesis
      by (rule that [of e evs r])
        (use input [of v] True u unreg_frame_spec(1,2) [OF u] in
          \<open>auto simp: EMF_TAKEN_def EMF_DROP_def\<close>)
  next
    case False
    show ?thesis
      by (rule that [of "EMFC_STATS_INCR igmp_frames_fwd_update (emf_handle s1)" "[]" EMF_NOP])
        (use input [of v] False in \<open>simp_all add: EMF_NOP_def EMF_TAKEN_def\<close>)
  qed
  have sd: "sdb_inv s1" and rk: "rt_ok s1" using s1(2) by (simp_all add: igs_inv_def)
  have "emf_inv e" using emf_inv_cong [OF x(2)] sdb_inv_emf [OF sd] by simp
  then have o: "sdb_inv (s1\<lparr>emf_handle := e\<rparr>) \<and> same_members s1 (s1\<lparr>emf_handle := e\<rparr>)"
    by (intro sdb_inv_other [OF sd]) (simp_all add: same_tables_inv(2) [OF x(2)])
  have "igs_inv (s1\<lparr>emf_handle := e\<rparr>)" using o rk by (simp add: igs_inv_def rt_ok_def)
  then show ?thesis
    using x o True s1(1,3) by (auto simp: bridge_input_def snooper_after_def same_members_def)
next
  case False
  have sd: "sdb_inv s" and rk: "rt_ok s" using inv by (simp_all add: igs_inv_def)
  note ei = sdb_inv_emf [OF sd]
  obtain e evs r where x: "emfc_input (igs_snooper al ral s) v (emf_handle s) ifp iph rt_port = Some (e, evs, r)" "emf_inv e"
    "r \<in> {EMF_DROP, EMF_NOP, EMF_TAKEN}" "uses_original evs = (if r = EMF_TAKEN then 1 else 0)" "mfdb_refs e = mfdb_refs (emf_handle s)"
    using emfc_input_other [OF ei _ False, of "igs_snooper al ral s" v ifp rt_port] rdy by (auto simp: bridge_ready_def)
  have o: "sdb_inv (s\<lparr>emf_handle := e\<rparr>) \<and> same_members s (s\<lparr>emf_handle := e\<rparr>)"
    by (rule sdb_inv_other [OF sd]) (use x in simp_all)
  have "igs_inv (s\<lparr>emf_handle := e\<rparr>)" using o rk by (simp add: igs_inv_def rt_ok_def)
  then show ?thesis using x o False by (simp add: bridge_input_def snooper_after_def same_members_def)
qed

subsection \<open>Runs of the bridge\<close>

text \<open>
  What happens to the bridge: frames, the expiry of a member's or a router's timer, the deletion
  of an interface's members or routers, and configuration requests other than those that take memberships out of the
  forwarding database behind the snooper's back (enabling and disabling, deleting and clearing).
\<close>

datatype bridge_event =
    Frame sdb_alloc rt_alloc emf_env nat "uint8 list" bool
  | Member_timeout nat uint32 uint32
  | Router_timeout nat
  | Members_gone nat
  | Routers_gone nat
  | Config cfg_env emf_cfg_request

fun bridge_next :: "bridge_event \<Rightarrow> igsc_info \<Rightarrow> igsc_info option" where
  "bridge_next (Frame al ral v ifp iph rt_port) s = map_option fst (bridge_input al ral v s ifp iph rt_port)"
| "bridge_next (Member_timeout ifp ip host) s = map_option fst (sdb_step (Expire ifp ip host) s)"
| "bridge_next (Router_timeout a) s = osl_timer_rt s a"
| "bridge_next (Members_gone ifp) s = map_option fst (igsc_sdb_interface_del s ifp)"
| "bridge_next (Routers_gone ifp) s = Some (fst (igsc_interface_rtport_del s ifp))"
| "bridge_next (Config v c) s =
     map_option (\<lambda>(e, c'). s\<lparr>emf_handle := e\<rparr>) (emfc_cfg_request_process v (emf_handle s) c)"

fun event_ready :: "bridge_event \<Rightarrow> igsc_info \<Rightarrow> bool" where
  "event_ready (Frame al ral v ifp iph rt_port) s = bridge_ready al ral s ifp iph rt_port"
| "event_ready (Member_timeout ifp ip host) s = ((ip, host, ifp) \<in> sdb_members s)"
| "event_ready (Router_timeout a) s = (a \<in> rt_addr ` set (rtlist_head s))"
| "event_ready (Members_gone ifp) s = (ifp \<noteq> 0)"
| "event_ready (Routers_gone ifp) s = True"
| "event_ready (Config v c) s = (command_id c \<notin> {1, 3, 4} \<and> cfg_pre v (emf_handle s) c)"

inductive bridge_reach :: "igsc_info \<Rightarrow> bool" where
  start: "emf_inv e \<Longrightarrow> bridge_reach (igsc_sdb_init (igsc_zero e))"
| step: "bridge_reach s \<Longrightarrow> event_ready ev s \<Longrightarrow> bridge_next ev s = Some s' \<Longrightarrow> bridge_reach s'"

lemma frame_igs_inv: "igs_inv s \<Longrightarrow> sdb_inv s' \<Longrightarrow> sdb_frame s s' \<Longrightarrow> igs_inv s'"
  using frame_routers [of s s'] by (simp add: igs_inv_def)

text \<open>Requests that keep the database's counts or raise one.\<close>

lemma config_refs:
  assumes "emf_inv e" "cfg_pre v e c" "command_id c \<notin> {1, 3, 4}" "emfc_cfg_request_process v e c = Some (e', c')"
  shows "mfdb_refs e ip i \<le> mfdb_refs e' ip i"
proof (cases "command_id c = 2")
  case True
  then obtain r where a: "emfc_mfdb_membership_add (cfg_alloc v) e (arg_ip c) (arg_if c) = Some (e', r)"
    using assms(4) by (auto simp: emfc_cfg_request_process_def cfg_result_def)
  obtain e1 r1 where "emfc_mfdb_membership_add (cfg_alloc v) e (arg_ip c) (arg_if c) = Some (e1, r1)"
    "(mfdb_refs e1, r1) = refs_add (cfg_alloc v) (mfdb_refs e) (arg_ip c) (arg_if c)"
    using membership_add_refs [of e "arg_ip c" "cfg_alloc v" "arg_if c"] assms(1,2) True
    by (auto simp: cfg_pre_def emf_inv_def alloc_ready_def)
  then show ?thesis using a by (auto simp: refs_add_def split: if_splits)
next
  case False
  have u: "mfdb_refs (fst (emfc_uffp_add b e i)) = mfdb_refs e" "mfdb_refs (fst (emfc_uffp_del e i)) = mfdb_refs e" for b i
    by (auto simp: mfdb_refs_def fun_eq_iff emfc_uffp_add_def emfc_uffp_del_def emfc_iflist_add_def emfc_iflist_del_def Let_def
        split: option.splits)
  have "mfdb_refs e' = mfdb_refs e"
    using assms(3,4) False u rtport_same_refs
    by (auto simp: emfc_cfg_request_process_def cfg_result_def split: if_splits)
  then show ?thesis by simp
qed

lemma config_igs_inv:
  assumes inv: "igs_inv s" and e: "emf_inv e" and up: "\<And>ip i. mfdb_refs (emf_handle s) ip i \<le> mfdb_refs e ip i"
  shows "igs_inv (s\<lparr>emf_handle := e\<rparr>)"
proof -
  let ?s = "s\<lparr>emf_handle := e\<rparr>"
  have g: "igsc_sdb_group_find ?s = igsc_sdb_group_find s" "chains_ok ?s = chains_ok s" by (rule table_cong, simp)+
  have "tables_ok (igsc_sdb_group_find s) (timers s) e"
    using inv e up unfolding igs_inv_def sdb_inv_def tables_ok_def by (meson order_less_le_trans)
  then show ?thesis using inv by (simp add: igs_inv_def sdb_inv_def g rt_ok_def)
qed

lemma bridge_next_inv:
  assumes inv: "igs_inv s" and rdy: "event_ready ev s"
  shows "\<exists>s'. bridge_next ev s = Some s' \<and> igs_inv s'"
proof (cases ev)
  case (Frame al ral v ifp iph rt_port)
  then show ?thesis using bridge_step [OF inv, of al ral ifp iph rt_port v] rdy by fastforce
next
  case (Member_timeout ifp ip host)
  have "sdb_inv s" using inv by (simp add: igs_inv_def)
  then obtain s' r where "sdb_step (Expire ifp ip host) s = Some (s', r)" "sdb_inv s'" "sdb_frame s s'"
    using sdb_step_spec [of s "Expire ifp ip host"] rdy Member_timeout by auto
  then show ?thesis using frame_igs_inv [OF inv] Member_timeout by (auto simp del: sdb_step.simps)
next
  case (Router_timeout a)
  then obtain rt where "rt \<in> set (rtlist_head s)" "a = rt_addr rt" using rdy by auto
  then show ?thesis using rt_timer_spec [OF inv] Router_timeout by fastforce
next
  case (Members_gone ifp)
  have "sdb_inv s" using inv by (simp add: igs_inv_def)
  then obtain s' where "igsc_sdb_interface_del s ifp = Some (s', SUCCESS)" "sdb_inv s'" "sdb_frame s s'"
    using sdb_interface_del_spec [of s ifp] rdy Members_gone by auto
  then show ?thesis using frame_igs_inv [OF inv] Members_gone by simp
next
  case (Routers_gone ifp)
  then show ?thesis using interface_rtport_del_spec [OF inv, of ifp] by simp
next
  case (Config v c)
  have e: "emf_inv (emf_handle s)" using inv by (simp add: igs_inv_def sdb_inv_emf)
  obtain e' c' where c: "emfc_cfg_request_process v (emf_handle s) c = Some (e', c')" "emf_inv e'"
    using cfg_request_inv [OF e, of v c] rdy Config by auto
  have "igs_inv (s\<lparr>emf_handle := e'\<rparr>)"
    by (rule config_igs_inv [OF inv c(2)]) (use config_refs [OF e _ _ c(1)] rdy Config in auto)
  then show ?thesis using c Config by simp
qed

lemma bridge_reach_inv: "bridge_reach s \<Longrightarrow> igs_inv s"
proof (induction rule: bridge_reach.induct)
  case (start e)
  have "rt_ok (igsc_sdb_init (igsc_zero e))" by (simp add: rt_ok_def igsc_sdb_init_def igsc_zero_def)
  then show ?case using igsc_zero_inv(1) [OF start] by (simp add: igs_inv_def)
next
  case (step s ev s')
  then show ?case using bridge_next_inv [of s ev] by auto
qed


lemma distinct_count_one: "distinct xs \<Longrightarrow> x \<in> set xs \<Longrightarrow> count_list xs x = 1"
  by (induction xs) auto

lemma report_enable:
  assumes "igsc_input al ral s ifp iph igmph False = Some (s', a)" "igmph ! 0 = IGMPV2_HOST_NEW_MEMBERSHIP_REPORT"
  shows "emf_enable (emf_handle s') = emf_enable (emf_handle s)"
  using assms by (auto simp: igsc_input_def Let_def dest!: member_add_enable split: if_splits)


text \<open>A bridge with a snooper, on which the host 192.168.0.5 behind interface 3 joins 225.0.0.1.\<close>

definition ex_bridge :: igsc_info where "ex_bridge = igsc_sdb_init (igsc_zero (ex_emfc\<lparr>has_snooper := True\<rparr>))"

definition ex_join :: "uint8 list" where
  "ex_join = [0x45, 0, 0, 0, 0, 0, 0, 0, 1, 2, 0, 0, 192, 168, 0, 5, 225, 0, 0, 1, 0x16, 0, 0, 0, 225, 0, 0, 1]"

lemma ex_bridge_facts:
  "bridge_reach ex_bridge" "igs_inv ex_bridge" "igmp_frame (emf_handle ex_bridge) ex_join"
  "bridge_ready ex_sal ex_rtal ex_bridge 3 ex_join False"
  "IPV4_HLEN ex_join = 20" "dest_ip_of ex_join = 0xE1000001" "grp_ip_of (drop 20 ex_join) = 0xE1000001"
proof -
  let ?e = "ex_emfc\<lparr>has_snooper := True\<rparr>"
  have inv: "emf_inv ?e" using ex_sdb_facts(1) by (simp add: emf_inv_snooper)
  note z = igsc_zero_inv [OF inv, folded ex_bridge_def]
  show br: "bridge_reach ex_bridge" unfolding ex_bridge_def by (rule bridge_reach.start [OF inv])
  show "igs_inv ex_bridge" by (rule bridge_reach_inv [OF br])
  show hl: "IPV4_HLEN ex_join = 20" by (simp add: IPV4_HLEN_def ex_join_def)
  have g: "get32 1 0 0 225 = 0xE1000001" by (simp add: get32_def)
  then show d: "dest_ip_of ex_join = 0xE1000001" "grp_ip_of (drop 20 ex_join) = 0xE1000001"
    by (simp_all add: dest_ip_of_def grp_ip_of_def ex_join_def)
  have len: "length ex_join = 28" by (simp add: ex_join_def)
  have en: "emf_enable ?e" by (simp add: ex_emfc_def link_group_def set_group_def ex_base_def)
  show fr: "igmp_frame (emf_handle ex_bridge) ex_join"
    unfolding igmp_frame_def d z(4) using en
    by (simp add: len IP_ISMULTI_def) (simp add: IP_VER_def IPV4_PROT_def IP_PROT_IGMP_def ex_join_def)
  have f: "timers ex_bridge = Map.empty" "igsc_sdb_group_find ex_bridge = (\<lambda>_. None)" "rtlist_head ex_bridge = []"
    by (auto simp: ex_bridge_def igsc_sdb_init_def igsc_zero_def igsc_sdb_group_find_def fun_eq_iff)
  have m: "mgrp_mem ?e 20 = None" by (simp add: ex_emfc_def link_group_def set_group_def ex_base_def emfc_zero_def)
  have "same_tables ex_emfc ?e" by (simp add: same_tables_def)
  then have r: "mfdb_refs ?e 0xE1000001 3 = 0" using same_tables_inv(2) ex_sdb_facts(6) by metis
  have "add_ready ex_sal ex_bridge 0xE1000001 3"
    unfolding add_ready_def z(4) using f m r by (simp add: ex_sal_def alloc_ready_def)
  then show "bridge_ready ex_sal ex_rtal ex_bridge 3 ex_join False"
    using f by (simp add: bridge_ready_def input_ready_def hl d len)
qed



end
