(* ===== verification/Ampdu.thy ===== *)
theory Ampdu
  imports Prelude "HOL-Library.Monad_Syntax"
begin

text \<open>
  Block acknowledgement, \<^verbatim>\<open>wl/sys/wlc_ampdu.c\<close>: the structures of the module and the reorder queue
  of the receiver. The build is the one of the host driver (\<open>AMPDU_RX_BA_MAX_WSIZE\<close> is 64,
  \<open>AMPDU_TX_BA_MAX_WSIZE\<close> is 128, \<open>WLCNT\<close> on, debugging off).

  A packet is an address with the sequence control field of its 802.11 header. A station is an
  address, \<open>scbs\<close> holds the stations that exist with the block acknowledgement state the module keeps
  for each (\<open>scb_ampdu\<close>), so that using a station that was freed shows: the result is \<open>None\<close>.
  Handing a frame to the upper layers (\<open>wlc_recvdata_ordered\<close>) gives up the driver's lock, and
  whatever happens meanwhile is the parameter \<open>up\<close>, a function on the state.
\<close>

subsection \<open>Sequence numbers\<close>

definition SEQNUM_SHIFT :: nat where "SEQNUM_SHIFT = 4"
definition FRAGNUM_MASK :: uint16 where "FRAGNUM_MASK = 0xF"

definition NEXT_SEQ :: "uint16 \<Rightarrow> uint16" where "NEXT_SEQ seq = (seq + 1) AND 0xFFF"

definition MODADD_SEQ :: "uint16 \<Rightarrow> uint16 \<Rightarrow> uint16" where "MODADD_SEQ x y = (x + y) AND 0xFFF"

definition MODSUB_SEQ :: "uint16 \<Rightarrow> uint16 \<Rightarrow> uint16" where "MODSUB_SEQ x y = (x - y) AND 0xFFF"

definition AMPDU_RX_BA_MAX_WSIZE :: nat where "AMPDU_RX_BA_MAX_WSIZE = 64"

definition RX_SEQ_TO_INDEX :: "uint16 \<Rightarrow> nat" where "RX_SEQ_TO_INDEX seq = unat seq mod AMPDU_RX_BA_MAX_WSIZE"

definition NEXT_RX_INDEX :: "nat \<Rightarrow> nat" where "NEXT_RX_INDEX i = (i + 1) mod AMPDU_RX_BA_MAX_WSIZE"

subsection \<open>The structures\<close>

record pkt =
  pk_addr :: nat
  pk_seq :: uint16

definition pkt_h_seqnum :: "pkt \<Rightarrow> uint16" where "pkt_h_seqnum p = drop_bit SEQNUM_SHIFT (pk_seq p)"

datatype ba_state = BA_OFF | BA_ON | BA_PENDING_ON | BA_PENDING_OFF

text \<open>The responder: \<open>scb_ampdu_tid_resp_t\<close>.\<close>

record tid_resp =
  resp_state :: ba_state
  ba_wsize :: uint8
  queued :: uint8
  dead_cnt :: uint8
  alive :: bool
  exp_seq :: uint16
  rxq :: "pkt option list"
  wrxh :: "nat list"

record tid_resp_off =
  ampdu_recd :: bool
  ampdu_cnt :: uint8

text \<open>The initiator: \<open>scb_ampdu_tid_ini_t\<close>. The bitmaps are lists of 128 bits. \<open>ini_addr\<close> is where it is
  allocated; its TID and station are those it is stored under.\<close>

record tid_ini =
  ini_addr :: nat
  ini_state :: ba_state
  ini_ba_wsize :: uint8
  ini_tx_in_transit :: uint8
  ini_txretry :: "uint8 list"
  ini_ackpending :: "bool list"
  ini_barpending :: "bool list"
  ini_start_seq :: uint16
  ini_max_seq :: uint16
  ini_tx_exp_seq :: uint16
  ini_rem_window :: uint16
  ini_bar_ackpending_seq :: uint16
  ini_retry_seq :: "uint16 list"
  ini_retry_head :: uint16
  ini_retry_tail :: uint16
  ini_retry_cnt :: uint16
  ini_bar_ackpending :: bool
  ini_free_me :: bool
  ini_alive :: bool
  ini_retry_bar :: uint8
  ini_bar_cnt :: uint8
  ini_addba_req_cnt :: uint8
  ini_cleanup_ini_cnt :: uint8
  ini_dead_cnt :: uint8
  ini_off_cnt :: uint8

text \<open>What the module knows of a station; the arrays are functions of the TID. \<open>seqnum\<close> and \<open>scb_qi\<close> are
  the sequence number counters and the interface queue of the station itself. The build has one
  transmit queue per TID (no \<open>WLAMPDU_PRECEDENCE\<close>).\<close>

record scb_ampdu =
  scb_ampducap :: bool
  scb_htcap :: bool
  scb_brcm :: bool
  scb_bss :: bool
  scb_assoc :: bool
  resp :: "nat \<Rightarrow> tid_resp option"
  resp_off :: "nat \<Rightarrow> tid_resp_off"
  ini :: "nat \<Rightarrow> tid_ini option"
  txq :: "nat \<Rightarrow> pkt list"
  scb_release :: uint8
  seqnum :: "nat \<Rightarrow> uint16"
  scb_qi :: nat

record wlc_ampdu_cnt =
  rxampdu :: uint32
  rxmpdu :: uint32
  rxht :: uint32
  rxlegacy :: uint32
  rxampdu_sgi :: uint32
  rxampdu_stbc :: uint32
  rxnobapol :: uint32
  rxunexp :: uint32
  rxdup :: uint32
  rxoow :: uint32
  rxqed :: uint32
  rxholes :: uint32
  rxstuck :: uint32
  rxbar :: uint32
  rxba :: uint32
  rxaddbareq :: uint32
  txaddbaresp :: uint32
  txdelba :: uint32
  rxdelba :: uint32
  txrel_wm :: uint32
  txrel_size :: uint32
  txdrop :: uint32
  txr0hole :: uint32
  txrnhole :: uint32
  txrlag :: uint32
  txreg_noack :: uint32
  txaddbareq :: uint32
  rxaddbaresp :: uint32
  txbar :: uint32
  noba :: uint32
  txstuck :: uint32
  orphan :: uint32

text \<open>What leaves the module, in order.\<close>

datatype ampdu_event =
    Sendup nat pkt nat  \<comment> \<open>a frame of the station with its receive header, to the upper layers\<close>
  | Pktfree pkt
  | Txnext nat pkt      \<comment> \<open>a frame to the next transmit module\<close>
  | Txmpdu nat nat pkt uint16  \<comment> \<open>a frame of an agreement to the next module, with its number\<close>
  | Txretry nat pkt     \<comment> \<open>the same once more, with high precedence\<close>
  | Bar nat nat uint16
  | Addba_req nat nat uint8 uint8 uint8
  | Addba_resp nat uint16 uint8 uint16 uint16
  | Delba nat nat bool uint16
  | Flow_control nat bool
  | Action_err "uint8 list"

record ampdu_info =
  scbs :: "nat \<Rightarrow> scb_ampdu option"
  scb_list :: "nat list"
  rxaggr :: bool
  ampdu_enab :: bool
  rxba_enable :: "nat \<Rightarrow> bool"
  ba_policy :: uint8
  ba_rx_wsize :: uint8
  delba_timeout :: uint8
  resp_timeout_b :: uint16
  resp_timeout_nb :: uint16
  resp_cnt :: uint16
  resp_timer :: bool
  block_datafifo :: bool
  txaggr :: bool
  manual_mode :: bool
  no_bar :: bool
  ini_enable :: "nat \<Rightarrow> bool"
  ba_tx_wsize :: uint8
  retry_limit_tid :: "nat \<Rightarrow> uint8"
  rr_retry_limit_tid :: "nat \<Rightarrow> uint8"
  probe_mpdu :: uint8
  tx_rel_lowat :: uint8
  ini_free :: "tid_ini option list"
  ini_free_index :: nat
  flow_stopped :: "nat \<Rightarrow> bool"
  datahiwat :: nat
  cnt :: wlc_ampdu_cnt
  events :: "ampdu_event list"

definition WLCNTINCR :: "((uint32 \<Rightarrow> uint32) \<Rightarrow> wlc_ampdu_cnt \<Rightarrow> wlc_ampdu_cnt) \<Rightarrow> ampdu_info \<Rightarrow> ampdu_info" where
  "WLCNTINCR upd s = s\<lparr>cnt := upd (\<lambda>n. n + 1) (cnt s)\<rparr>"

definition emit :: "ampdu_event \<Rightarrow> ampdu_info \<Rightarrow> ampdu_info" where "emit e s = s\<lparr>events := events s @ [e]\<rparr>"

text \<open>\<open>scb_ampdu->resp[tid]\<close>: \<open>None\<close> is a station that does not exist any more.\<close>

definition resp_of :: "ampdu_info \<Rightarrow> nat \<Rightarrow> nat \<Rightarrow> tid_resp option option" where
  "resp_of s a tid = map_option (\<lambda>c. resp c tid) (scbs s a)"

definition upd_scb :: "nat \<Rightarrow> (scb_ampdu \<Rightarrow> scb_ampdu) \<Rightarrow> ampdu_info \<Rightarrow> ampdu_info" where
  "upd_scb a f s = s\<lparr>scbs := (scbs s)(a := map_option f (scbs s a))\<rparr>"

definition set_resp :: "nat \<Rightarrow> nat \<Rightarrow> tid_resp option \<Rightarrow> ampdu_info \<Rightarrow> ampdu_info" where
  "set_resp a tid r = upd_scb a (\<lambda>c. c\<lparr>resp := (resp c)(tid := r)\<rparr>)"

type_synonym upper = "nat \<Rightarrow> pkt \<Rightarrow> nat \<Rightarrow> ampdu_info \<Rightarrow> ampdu_info"

definition wlc_recvdata_ordered :: "upper \<Rightarrow> nat \<Rightarrow> pkt \<Rightarrow> nat \<Rightarrow> ampdu_info \<Rightarrow> ampdu_info" where
  "wlc_recvdata_ordered up a p h s = up a p h (emit (Sendup a p h) s)"

subsection \<open>Releasing frames\<close>

text \<open>
  The loop of \<open>wlc_ampdu_release_ordered\<close>. After each frame the code looks whether the station
  and its responder still exist. When the upper layers refill the queue for ever, the loop does
  not end; then the value is \<open>None\<close> as well.
\<close>

partial_function (option) release_ordered_loop :: "upper \<Rightarrow> nat \<Rightarrow> nat \<Rightarrow> nat \<Rightarrow> ampdu_info \<Rightarrow> ampdu_info option" where
  "release_ordered_loop up a tid indx s =
     (case resp_of s a tid of
        Some (Some r) \<Rightarrow>
          (case rxq r ! indx of None \<Rightarrow> Some s
           | Some p \<Rightarrow>
             let r' = r\<lparr>rxq := (rxq r)[indx := None], queued := queued r - 1, alive := True,
                        exp_seq := NEXT_SEQ (exp_seq r)\<rparr>;
                 s = wlc_recvdata_ordered up a p (wrxh r ! indx) (set_resp a tid (Some r') s)
             in (case resp_of s a tid of
                   None \<Rightarrow> Some s
                 | Some None \<Rightarrow> Some s
                 | Some (Some _) \<Rightarrow> release_ordered_loop up a tid (NEXT_RX_INDEX indx) s))
      | _ \<Rightarrow> None)"

definition wlc_ampdu_release_ordered :: "upper \<Rightarrow> nat \<Rightarrow> nat \<Rightarrow> ampdu_info \<Rightarrow> ampdu_info option" where
  "wlc_ampdu_release_ordered up a tid s =
     (case resp_of s a tid of None \<Rightarrow> None
      | Some None \<Rightarrow> Some s
      | Some (Some r) \<Rightarrow> release_ordered_loop up a tid (RX_SEQ_TO_INDEX (exp_seq r)) s)"

definition advance :: "nat \<Rightarrow> nat \<Rightarrow> tid_resp \<Rightarrow> ampdu_info \<Rightarrow> ampdu_info" where
  "advance a tid r = set_resp a tid (Some (r\<lparr>alive := True, exp_seq := NEXT_SEQ (exp_seq r)\<rparr>))"

fun release_n_loop :: "upper \<Rightarrow> nat \<Rightarrow> nat \<Rightarrow> nat \<Rightarrow> ampdu_info \<Rightarrow> ampdu_info option" where
  "release_n_loop up a tid 0 s = Some s"
| "release_n_loop up a tid (Suc offset) s =
     (case resp_of s a tid of
        Some (Some r) \<Rightarrow>
          let indx = RX_SEQ_TO_INDEX (exp_seq r) in
          (case rxq r ! indx of
             None \<Rightarrow> release_n_loop up a tid offset (advance a tid r (WLCNTINCR rxholes_update s))
           | Some p \<Rightarrow>
             let r' = r\<lparr>rxq := (rxq r)[indx := None], queued := queued r - 1\<rparr>;
                 s = wlc_recvdata_ordered up a p (wrxh r ! indx) (set_resp a tid (Some r') s)
             in (case resp_of s a tid of
                   None \<Rightarrow> Some s
                 | Some None \<Rightarrow> Some s
                 | Some (Some r) \<Rightarrow> release_n_loop up a tid offset (advance a tid r s)))
      | _ \<Rightarrow> None)"

definition wlc_ampdu_release_n_ordered :: "upper \<Rightarrow> nat \<Rightarrow> nat \<Rightarrow> nat \<Rightarrow> ampdu_info \<Rightarrow> ampdu_info option" where
  "wlc_ampdu_release_n_ordered up a tid offset s =
     (case resp_of s a tid of None \<Rightarrow> None
      | Some None \<Rightarrow> Some s
      | Some (Some r) \<Rightarrow> release_n_loop up a tid offset s)"

text \<open>The last occupied sequence number of the 64 from the expected one on.\<close>

definition last_queued :: "tid_resp \<Rightarrow> uint16" where
  "last_queued r =
     snd (fold (\<lambda>i (seq, max_seq). (NEXT_SEQ seq, if rxq r ! RX_SEQ_TO_INDEX seq \<noteq> None then seq else max_seq))
            [0..<AMPDU_RX_BA_MAX_WSIZE] (exp_seq r, exp_seq r))"

definition wlc_ampdu_release_all_ordered :: "upper \<Rightarrow> nat \<Rightarrow> nat \<Rightarrow> ampdu_info \<Rightarrow> ampdu_info option" where
  "wlc_ampdu_release_all_ordered up a tid s =
     (case resp_of s a tid of None \<Rightarrow> None
      | Some None \<Rightarrow> Some s
      | Some (Some r) \<Rightarrow> wlc_ampdu_release_n_ordered up a tid (unat (MODSUB_SEQ (last_queued r) (exp_seq r) + 1)) s)"

subsection \<open>Ending an agreement\<close>

definition ampdu_cleanup_tid_resp :: "upper \<Rightarrow> nat \<Rightarrow> nat \<Rightarrow> ampdu_info \<Rightarrow> ampdu_info option" where
  "ampdu_cleanup_tid_resp up a tid s =
     (case resp_of s a tid of None \<Rightarrow> None
      | Some None \<Rightarrow> Some s
      | Some (Some _) \<Rightarrow>
        do { s \<leftarrow> wlc_ampdu_release_n_ordered up a tid AMPDU_RX_BA_MAX_WSIZE s;
             r \<leftarrow> resp_of s a tid;
             let s = (if r = None then s else set_resp a tid None s);
             let s = s\<lparr>resp_cnt := resp_cnt s - 1\<rparr>;
             Some (if resp_cnt s = 0 then s\<lparr>resp_timer := False\<rparr> else s) })"

text \<open>Which allocations succeed: the responder's structure and a management frame.\<close>

record ba_alloc =
  ok_resp :: bool
  ok_frame :: bool

definition wlc_send_delba :: "ba_alloc \<Rightarrow> nat \<Rightarrow> nat \<Rightarrow> bool \<Rightarrow> uint16 \<Rightarrow> ampdu_info \<Rightarrow> ampdu_info" where
  "wlc_send_delba al a tid initiator reason s =
     (if block_datafifo s \<or> \<not> ok_frame al then s else emit (Delba a tid initiator reason) s)"

definition wlc_send_addba_resp ::
  "ba_alloc \<Rightarrow> nat \<Rightarrow> uint16 \<Rightarrow> uint8 \<Rightarrow> uint16 \<Rightarrow> uint16 \<Rightarrow> ampdu_info \<Rightarrow> ampdu_info" where
  "wlc_send_addba_resp al a status token timeout param_set s =
     (if block_datafifo s \<or> \<not> ok_frame al then s else emit (Addba_resp a status token timeout param_set) s)"

text \<open>\<open>wlc_ampdu_send_delba\<close> as the responder calls it. The station is used once more.\<close>

definition send_delba_resp :: "upper \<Rightarrow> ba_alloc \<Rightarrow> nat \<Rightarrow> nat \<Rightarrow> uint16 \<Rightarrow> ampdu_info \<Rightarrow> ampdu_info option" where
  "send_delba_resp up al a tid reason s =
     do { s \<leftarrow> ampdu_cleanup_tid_resp up a tid s;
          c \<leftarrow> scbs s a;
          Some (WLCNTINCR txdelba_update (wlc_send_delba al a tid False reason s)) }"

subsection \<open>Data frames\<close>

record wlc_frminfo =
  fi_p :: pkt
  fi_wrxh :: nat
  fi_subtype :: uint8
  fi_prio :: uint8
  fi_plcp :: "uint8 list"
  PhyRxStatus_0 :: uint16

definition FC_SUBTYPE_QOS_DATA :: uint8 where "FC_SUBTYPE_QOS_DATA = 8"

text \<open>A frame of an aggregate: preamble type and the bit of the PLCP header.\<close>

definition ft_pren :: "wlc_frminfo \<Rightarrow> bool" where "ft_pren f \<longleftrightarrow> PhyRxStatus_0 f AND 0x3 = 0x2"

definition WLC_IS_MIMO_PLCP_AMPDU :: "uint8 list \<Rightarrow> bool" where
  "WLC_IS_MIMO_PLCP_AMPDU plcp \<longleftrightarrow> plcp ! 3 AND 0x08 \<noteq> 0"

definition PLCP3_ISSGI :: "uint8 \<Rightarrow> bool" where "PLCP3_ISSGI plcp \<longleftrightarrow> plcp AND 0x80 \<noteq> 0"
definition PLCP3_ISSTBC :: "uint8 \<Rightarrow> bool" where "PLCP3_ISSTBC plcp \<longleftrightarrow> plcp AND 0x30 = 0x10"

definition count_rx :: "wlc_frminfo \<Rightarrow> ampdu_info \<Rightarrow> ampdu_info" where
  "count_rx f s =
     (let plcp = fi_plcp f in
      if ft_pren f
      then
        if WLC_IS_MIMO_PLCP_AMPDU plcp
        then
          let s = WLCNTINCR rxmpdu_update (WLCNTINCR rxampdu_update s);
              s = (if PLCP3_ISSGI (plcp ! 3) then WLCNTINCR rxampdu_sgi_update s else s)
          in if PLCP3_ISSTBC (plcp ! 3) then WLCNTINCR rxampdu_stbc_update s else s
        else if plcp ! 0 OR plcp ! 1 OR plcp ! 2 = 0 then WLCNTINCR rxmpdu_update s
        else WLCNTINCR rxht_update s
      else WLCNTINCR rxlegacy_update s)"

definition set_ampdu_recd :: "nat \<Rightarrow> nat \<Rightarrow> ampdu_info \<Rightarrow> ampdu_info" where
  "set_ampdu_recd a tid =
     upd_scb a (\<lambda>c. c\<lparr>resp_off := (resp_off c)(tid := (resp_off c tid)\<lparr>ampdu_recd := True\<rparr>)\<rparr>)"

text \<open>Putting a frame in the queue.\<close>

definition enqueue :: "nat \<Rightarrow> wlc_frminfo \<Rightarrow> tid_resp \<Rightarrow> tid_resp" where
  "enqueue indx f r = r\<lparr>rxq := (rxq r)[indx := Some (fi_p f)], wrxh := (wrxh r)[indx := fi_wrxh f],
                       queued := queued r + 1\<rparr>"

text \<open>What follows the checks of \<open>wlc_ampdu_recvdata\<close>, for a frame with the number \<open>seq\<close>.\<close>

definition recv_in_agreement ::
  "upper \<Rightarrow> nat \<Rightarrow> nat \<Rightarrow> tid_resp \<Rightarrow> uint16 \<Rightarrow> wlc_frminfo \<Rightarrow> ampdu_info \<Rightarrow> ampdu_info option" where
  "recv_in_agreement up a tid r seq f s =
     (let indx = RX_SEQ_TO_INDEX seq; offset = MODSUB_SEQ seq (exp_seq r) in
      if seq = exp_seq r
      then
        let s = wlc_recvdata_ordered up a (fi_p f) (fi_wrxh f) (advance a tid r s)
        in if scbs s a = None then Some s else wlc_ampdu_release_ordered up a tid s
      else if offset < ucast (ba_wsize r) \<and> rxq r ! indx \<noteq> None \<or> offset > 0x800
      then Some (WLCNTINCR rxdup_update (emit (Pktfree (fi_p f)) s))
      else if offset \<ge> ucast (ba_wsize r)
      then
        do { let delta = offset - ucast (ba_wsize r) + 1;
             s \<leftarrow> wlc_ampdu_release_n_ordered up a tid (unat delta) s;
             r \<leftarrow> resp_of s a tid;
             let s = (case r of None \<Rightarrow> s | Some r \<Rightarrow> set_resp a tid (Some (enqueue indx f r)) s);
             s \<leftarrow> wlc_ampdu_release_ordered up a tid s;
             Some (WLCNTINCR rxoow_update s) }
      else Some (WLCNTINCR rxqed_update (set_resp a tid (Some (enqueue indx f r)) s)))"

definition wlc_ampdu_recvdata :: "upper \<Rightarrow> ba_alloc \<Rightarrow> nat \<Rightarrow> wlc_frminfo \<Rightarrow> ampdu_info \<Rightarrow> ampdu_info option" where
  "wlc_ampdu_recvdata up al a f s =
     (if fi_subtype f \<noteq> FC_SUBTYPE_QOS_DATA then Some (wlc_recvdata_ordered up a (fi_p f) (fi_wrxh f) s)
      else
        let tid = unat (fi_prio f); s = count_rx f s in
        do { c \<leftarrow> scbs s a;
             (case resp c tid of
                None \<Rightarrow>
                  let s = (if ft_pren f \<and> WLC_IS_MIMO_PLCP_AMPDU (fi_plcp f)
                           then WLCNTINCR rxnobapol_update (set_ampdu_recd a tid s) else s)
                  in Some (wlc_recvdata_ordered up a (fi_p f) (fi_wrxh f) s)
              | Some r \<Rightarrow>
                let s = (if \<not> scb_htcap c \<and> ft_pren f \<and> WLC_IS_MIMO_PLCP_AMPDU (fi_plcp f)
                         then WLCNTINCR rxnobapol_update (set_ampdu_recd a tid s) else s)
                in if pk_seq (fi_p f) AND FRAGNUM_MASK \<noteq> 0
                   then send_delba_resp up al a tid 1 (WLCNTINCR rxunexp_update (emit (Pktfree (fi_p f)) s))
                   else recv_in_agreement up a tid r (pkt_h_seqnum (fi_p f)) f s) })"

subsection \<open>Control frames\<close>

definition AMPDU_MAX_SCB_TID :: nat where "AMPDU_MAX_SCB_TID = 8"

definition body16 :: "uint8 list \<Rightarrow> nat \<Rightarrow> uint16" where "body16 body i = get16 (body ! i) (body ! (i + 1))"

definition wlc_ampdu_recv_bar :: "upper \<Rightarrow> nat \<Rightarrow> uint8 list \<Rightarrow> ampdu_info \<Rightarrow> ampdu_info option" where
  "wlc_ampdu_recv_bar up a body s =
     (let tmp = body16 body 0; tid = unat (drop_bit 12 (tmp AND 0xF000)) in
      if tid \<ge> AMPDU_MAX_SCB_TID \<or> tmp AND 0x2 \<noteq> 0 then Some (WLCNTINCR rxunexp_update s)
      else
        (case resp_of s a tid of None \<Rightarrow> None
         | Some None \<Rightarrow> Some (WLCNTINCR rxunexp_update s)
         | Some (Some r) \<Rightarrow>
           let s = WLCNTINCR rxbar_update s;
               seq = drop_bit SEQNUM_SHIFT (body16 body 2);
               offset = MODSUB_SEQ seq (exp_seq r)
           in if offset > 0x800 then Some s
              else do { s \<leftarrow> wlc_ampdu_release_n_ordered up a tid (unat offset) s;
                        wlc_ampdu_release_ordered up a tid s }))"

definition wlc_ampdu_recv_ba :: "ampdu_info \<Rightarrow> ampdu_info" where
  "wlc_ampdu_recv_ba s = WLCNTINCR rxba_update s"

datatype ctl_kind = FC_BLOCKACK_REQ | FC_BLOCKACK

text \<open>\<open>a\<close> is null when no station has the sender's address.\<close>

definition wlc_ampdu_recv_ctl ::
  "upper \<Rightarrow> nat option \<Rightarrow> uint8 list \<Rightarrow> ctl_kind \<Rightarrow> ampdu_info \<Rightarrow> ampdu_info option" where
  "wlc_ampdu_recv_ctl up a body fk s =
     (case a of None \<Rightarrow> Some s
      | Some a \<Rightarrow>
        do { c \<leftarrow> scbs s a;
             if \<not> scb_ampducap c then Some s
             else case fk of
               FC_BLOCKACK_REQ \<Rightarrow>
                 if length body < 4 then Some (WLCNTINCR rxunexp_update s) else wlc_ampdu_recv_bar up a body s
             | FC_BLOCKACK \<Rightarrow>
                 if length body < 4 + 8 then Some (WLCNTINCR rxunexp_update s) else Some (wlc_ampdu_recv_ba s) })"

text \<open>Back to no agreement: the frames that waited for one are sent.\<close>

definition ampdu_ba_state_off :: "nat \<Rightarrow> nat \<Rightarrow> ampdu_info \<Rightarrow> ampdu_info" where
  "ampdu_ba_state_off a tid s =
     (case scbs s a of None \<Rightarrow> s
      | Some c \<Rightarrow>
        fold (\<lambda>p. emit (Txnext a p)) (txq c tid)
          (upd_scb a (\<lambda>c. c\<lparr>ini := (ini c)(tid := map_option (ini_state_update (\<lambda>_. BA_OFF)) (ini c tid)),
                              txq := (txq c)(tid := [])\<rparr>) s))"

definition DOT11_SC_SUCCESS :: uint16 where "DOT11_SC_SUCCESS = 0"
definition DOT11_SC_FAILURE :: uint16 where "DOT11_SC_FAILURE = 1"
definition DOT11_SC_DECLINED :: uint16 where "DOT11_SC_DECLINED = 37"
definition DOT11_SC_INVALID_PARAMS :: uint16 where "DOT11_SC_INVALID_PARAMS = 38"

definition new_resp :: "uint16 \<Rightarrow> uint8 \<Rightarrow> tid_resp" where
  "new_resp start_seq wsize =
     \<lparr>resp_state = BA_ON, ba_wsize = wsize, queued = 0, dead_cnt = 0, alive = False,
      exp_seq = drop_bit SEQNUM_SHIFT start_seq,
      rxq = replicate AMPDU_RX_BA_MAX_WSIZE None, wrxh = replicate AMPDU_RX_BA_MAX_WSIZE 0\<rparr>"

text \<open>The window size: what the peer asks for, cut to \<open>uint8\<close>, at most ours; ours if that is 0.\<close>

definition accept_wsize :: "uint16 \<Rightarrow> uint8 \<Rightarrow> uint8" where
  "accept_wsize param_set ours =
     (let wsize = ucast (drop_bit 6 (param_set AND 0xffc0)) in if wsize \<noteq> 0 then min wsize ours else ours)"

definition accept_params :: "uint16 \<Rightarrow> uint8 \<Rightarrow> uint16" where
  "accept_params param_set wsize =
     ((param_set AND NOT 0xffc0) OR (push_bit 6 (ucast wsize) AND 0xffc0)) AND NOT 0x0001"

definition wlc_ampdu_recv_addba_req ::
  "upper \<Rightarrow> ba_alloc \<Rightarrow> nat \<Rightarrow> uint8 list \<Rightarrow> ampdu_info \<Rightarrow> ampdu_info option" where
  "wlc_ampdu_recv_addba_req up al a body s =
     (let token = body ! 2; param_set = body16 body 3;
          timeout = min (body16 body 5) (ucast (delba_timeout s));
          start_seq = body16 body 7;
          tid = unat (drop_bit 2 (param_set AND 0x003c));
          reply = (\<lambda>status. wlc_send_addba_resp al a status token timeout param_set);
          refuse = (\<lambda>status s. WLCNTINCR txaddbaresp_update (reply status s))
      in if tid \<ge> AMPDU_MAX_SCB_TID then Some (WLCNTINCR rxunexp_update s)
         else if \<not> rxaggr s then Some (reply DOT11_SC_DECLINED s)
         else do {
           c \<leftarrow> scbs s a;
           if body ! 0 AND 0x80 \<noteq> 0
           then Some (WLCNTINCR rxunexp_update
                  (case ini c tid of None \<Rightarrow> s
                   | Some i \<Rightarrow> if ini_state i = BA_PENDING_ON then ampdu_ba_state_off a tid s else s))
           else if \<not> ampdu_enab s \<or> scb_bss c \<and> \<not> scb_htcap c then Some (refuse DOT11_SC_DECLINED s)
           else if \<not> rxba_enable s tid then Some (refuse DOT11_SC_DECLINED s)
           else if ucast (drop_bit 1 (param_set AND 0x0002)) \<noteq> ba_policy s
           then Some (refuse DOT11_SC_INVALID_PARAMS s)
           else do {
             s \<leftarrow> ampdu_cleanup_tid_resp up a tid s;
             c \<leftarrow> scbs s a;
             if \<not> ok_resp al then Some (refuse DOT11_SC_FAILURE s)
             else
               let wsize = accept_wsize param_set (ba_rx_wsize s);
                   s = WLCNTINCR rxaddbareq_update (set_resp a tid (Some (new_resp start_seq wsize)) s);
                   s = wlc_send_addba_resp al a DOT11_SC_SUCCESS token timeout (accept_params param_set wsize) s;
                   s = WLCNTINCR txaddbaresp_update s;
                   s = (if resp_cnt s = 0 then s\<lparr>resp_timer := True\<rparr> else s)
               in Some (s\<lparr>resp_cnt := resp_cnt s + 1\<rparr>) } })"

subsection \<open>The timer\<close>

definition AMPDU_RESP_TIMEOUT :: uint16 where "AMPDU_RESP_TIMEOUT = 100"

definition resp_tick :: "upper \<Rightarrow> nat \<Rightarrow> nat \<Rightarrow> ampdu_info \<Rightarrow> ampdu_info option" where
  "resp_tick up a tid s =
     (case scbs s a of None \<Rightarrow> None
      | Some c \<Rightarrow>
        (case resp c tid of None \<Rightarrow> Some s
         | Some r \<Rightarrow>
           if alive r then Some (set_resp a tid (Some (r\<lparr>alive := False, dead_cnt := 0\<rparr>)) s)
           else if queued r = 0 then Some s
           else
             let r = r\<lparr>dead_cnt := dead_cnt r + 1\<rparr>; s = set_resp a tid (Some r) s;
                 lim = (if scb_brcm c then resp_timeout_b s else resp_timeout_nb s) div AMPDU_RESP_TIMEOUT
             in if ucast (dead_cnt r) \<ge> lim
                then wlc_ampdu_release_all_ordered up a tid (WLCNTINCR rxstuck_update s)
                else Some s))"

fun for_tids :: "(nat \<Rightarrow> 's \<Rightarrow> 's option) \<Rightarrow> nat list \<Rightarrow> 's \<Rightarrow> 's option" where
  "for_tids f [] s = Some s"
| "for_tids f (tid # tids) s = do { s \<leftarrow> f tid s; for_tids f tids s }"

text \<open>\<open>FOREACHSCB\<close>: the next station is fetched before the body runs.\<close>

definition next_scb :: "nat list \<Rightarrow> nat \<Rightarrow> nat option" where
  "next_scb xs a = (case dropWhile (\<lambda>b. b \<noteq> a) xs of _ # b # _ \<Rightarrow> Some b | _ \<Rightarrow> None)"

partial_function (option) foreach_scb ::
  "(nat \<Rightarrow> ampdu_info \<Rightarrow> ampdu_info option) \<Rightarrow> nat option \<Rightarrow> ampdu_info \<Rightarrow> ampdu_info option" where
  "foreach_scb f next s =
     (case next of None \<Rightarrow> Some s
      | Some a \<Rightarrow>
        (case scbs s a of None \<Rightarrow> None
         | Some c \<Rightarrow>
           (case (if scb_ampducap c then f a s else Some s) of None \<Rightarrow> None
            | Some s' \<Rightarrow> foreach_scb f (next_scb (scb_list s) a) s')))"

definition wlc_ampdu_resp_timeout :: "upper \<Rightarrow> ampdu_info \<Rightarrow> ampdu_info option" where
  "wlc_ampdu_resp_timeout up s =
     foreach_scb (\<lambda>a. for_tids (resp_tick up a) [0..<AMPDU_MAX_SCB_TID])
       (case scb_list s of [] \<Rightarrow> None | a # _ \<Rightarrow> Some a) s"

end
