(* ===== verification/AmpduRx.thy ===== *)
theory AmpduRx
  imports Ampdu "HOL-Library.Multiset"
begin

text \<open>
  The reorder queue of \<^theory_text>\<open>Ampdu\<close> against a window over unbounded frame numbers: the next number to
  deliver and a partial map of the frames received ahead of it. On the air a number is sent modulo
  4096, and in the queue a frame is stored at its number modulo 64.
\<close>

subsection \<open>The window\<close>

type_synonym buf = "nat \<Rightarrow> (pkt \<times> nat) option"

text \<open>The frames numbered from \<open>lo\<close> below \<open>hi\<close>, in order, and the buffer without those below \<open>hi\<close>.\<close>

definition inwin :: "buf \<Rightarrow> nat \<Rightarrow> nat \<Rightarrow> (nat \<times> pkt \<times> nat) list" where
  "inwin b lo hi = List.map_filter (\<lambda>n. map_option (Pair n) (b n)) [lo..<hi]"

definition above :: "nat \<Rightarrow> buf \<Rightarrow> buf" where "above hi b = (\<lambda>n. if n < hi then None else b n)"

text \<open>The first free number from \<open>lo\<close> on, at most \<open>w\<close> further.\<close>

definition first_gap :: "nat \<Rightarrow> buf \<Rightarrow> nat \<Rightarrow> nat" where
  "first_gap w b lo = lo + length (takeWhile (\<lambda>n. b n \<noteq> None) [lo..<lo + w])"

lemma inwin_empty [simp]: "hi \<le> lo \<Longrightarrow> inwin b lo hi = []"
  by (simp add: inwin_def map_filter_simps)

lemma inwin_Cons: "lo < hi \<Longrightarrow> inwin b lo hi = (case b lo of None \<Rightarrow> [] | Some d \<Rightarrow> [(lo, d)]) @ inwin b (Suc lo) hi"
  by (simp add: inwin_def upt_conv_Cons map_filter_simps split: option.split)

lemma inwin_append: "lo \<le> m \<Longrightarrow> m \<le> hi \<Longrightarrow> inwin b lo hi = inwin b lo m @ inwin b m hi"
  using upt_add_eq_append [of lo m "hi - m"] by (simp add: inwin_def List.map_filter_def)

lemma inwin_cong: "(\<And>n. lo \<le> n \<Longrightarrow> n < hi \<Longrightarrow> b n = b' n) \<Longrightarrow> inwin b lo hi = inwin b' lo hi"
proof (induction "hi - lo" arbitrary: lo)
  case (Suc k)
  then show ?case using inwin_Cons [of lo hi b] inwin_Cons [of lo hi b'] by simp
qed simp

lemma inwin_above [simp]: "m \<le> lo \<Longrightarrow> inwin (above m b) lo hi = inwin b lo hi"
  by (rule inwin_cong) (simp add: above_def)

lemma inwin_None: "(\<And>n. lo \<le> n \<Longrightarrow> n < hi \<Longrightarrow> b n = None) \<Longrightarrow> inwin b lo hi = []"
  using inwin_cong [of lo hi b "\<lambda>_. None"] by (simp add: inwin_def List.map_filter_def)

lemma set_inwin: "(n, d) \<in> set (inwin b lo hi) \<longleftrightarrow> lo \<le> n \<and> n < hi \<and> b n = Some d"
  by (force simp: inwin_def List.map_filter_def)

lemma sorted_inwin: "sorted_wrt (<) (map fst (inwin b lo hi))"
proof (induction "hi - lo" arbitrary: lo)
  case (Suc k)
  have "\<forall>x \<in> set (map fst (inwin b (Suc lo) hi)). lo < x" by (auto simp: set_inwin)
  then show ?case using Suc inwin_Cons [of lo hi b] by (auto split: option.split)
qed simp

lemma above_above [simp]: "above m (above k b) = above (max m k) b"
  by (auto simp: above_def fun_eq_iff)

lemma above_id: "(\<And>n. n < m \<Longrightarrow> b n = None) \<Longrightarrow> above m b = b"
  by (auto simp: above_def fun_eq_iff)

lemma first_gapI:
  assumes "\<And>i. i < k \<Longrightarrow> b (lo + i) \<noteq> None" "b (lo + k) = None" "k \<le> w"
  shows "first_gap w b lo = lo + k"
proof -
  have "[lo..<lo + w] = [lo..<lo + k] @ [lo + k..<lo + w]"
    using assms(3) upt_add_eq_append [of lo "lo + k" "w - k"] by simp
  moreover have "\<forall>n \<in> set [lo..<lo + k]. b n \<noteq> None"
  proof
    fix n assume "n \<in> set [lo..<lo + k]"
    then have "n = lo + (n - lo)" "n - lo < k" by auto
    then show "b n \<noteq> None" using assms(1) [of "n - lo"] by metis
  qed
  moreover have "takeWhile (\<lambda>n. b n \<noteq> None) [lo + k..<lo + w] = []"
    using assms(2) by (cases "k < w") (simp_all add: upt_conv_Cons)
  ultimately have "takeWhile (\<lambda>n. b n \<noteq> None) [lo..<lo + w] = [lo..<lo + k]"
    using takeWhile_append2 [of "[lo..<lo + k]" "\<lambda>n. b n \<noteq> None" "[lo + k..<lo + w]"] by (metis append_Nil2)
  then show ?thesis unfolding first_gap_def by simp
qed

lemma first_gapE:
  assumes "b (lo + w) = None"
  obtains k where "first_gap w b lo = lo + k" "k \<le> w" "\<And>i. i < k \<Longrightarrow> b (lo + i) \<noteq> None" "b (lo + k) = None"
proof -
  let ?k = "LEAST k. b (lo + k) = None"
  have k: "b (lo + ?k) = None" "?k \<le> w" by (rule LeastI [of _ w], rule assms) (rule Least_le, rule assms)
  have "b (lo + i) \<noteq> None" if "i < ?k" for i using not_less_Least [OF that] .
  then show ?thesis using that [of ?k] first_gapI [of ?k b lo w] k by blast
qed

subsection \<open>Sequence numbers modulo 4096\<close>

lemma unat_mask12: "unat (x AND 0xFFF :: uint16) = unat x mod 4096"
  by (simp add: unsigned_and_eq take_bit_eq_mod flip: take_bit_eq_mask [of 12 "unat x", simplified mask_eq_exp_minus_1, simplified])

lemma NEXT_SEQ_mod: "unat s = n mod 4096 \<Longrightarrow> unat (NEXT_SEQ s) = Suc n mod 4096"
proof -
  assume s: "unat s = n mod 4096"
  have "unat s + 1 < 65536" using s by simp
  then have "unat (s + 1) = unat s + 1" by (simp add: unat_word_ariths)
  then show ?thesis using s by (simp add: NEXT_SEQ_def unat_mask12 mod_Suc_eq)
qed

lemma MODSUB_SEQ_nat: "unat x < 4096 \<Longrightarrow> unat y < 4096 \<Longrightarrow> unat (MODSUB_SEQ x y) = (unat x + 4096 - unat y) mod 4096"
proof -
  assume a: "unat x < 4096" "unat y < 4096"
  have "unat (x - y) = (unat x + 65536 - unat y) mod 65536"
    using a unat16_less [of x] by (simp add: unat_sub_if' mod_if)
  moreover have "(unat x + 65536 - unat y) mod 65536 mod 4096 = (unat x + 65536 - unat y) mod 4096"
    by (rule mod_mod_cancel) simp
  moreover have "unat x + 65536 - unat y = (unat x + 4096 - unat y) + 4096 * 15" using a by simp
  ultimately show ?thesis by (simp only: MODSUB_SEQ_def unat_mask12 mod_mult_self2)
qed
subsection \<open>Queue and window\<close>

definition wsize :: "tid_resp \<Rightarrow> nat" where "wsize r = unat (ba_wsize r)"

text \<open>The queue \<open>r\<close> implements the window with the next number \<open>m\<close> and the frames \<open>b\<close>.\<close>

definition win_rel :: "tid_resp \<Rightarrow> nat \<Rightarrow> buf \<Rightarrow> bool" where
  "win_rel r m b \<longleftrightarrow>
     length (rxq r) = 64 \<and> length (wrxh r) = 64 \<and> 0 < wsize r \<and> wsize r \<le> 64 \<and>
     unat (exp_seq r) = m mod 4096 \<and>
     (\<forall>n. b n \<noteq> None \<longrightarrow> m \<le> n \<and> n < m + wsize r) \<and>
     (\<forall>n p h. b n = Some (p, h) \<longrightarrow> unat (pkt_h_seqnum p) = n mod 4096) \<and>
     (\<forall>n. m \<le> n \<and> n < m + 64 \<longrightarrow>
        rxq r ! (n mod 64) = map_option fst (b n) \<and> (\<forall>d. b n = Some d \<longrightarrow> wrxh r ! (n mod 64) = snd d)) \<and>
     unat (queued r) = card (dom b)"

lemma win_relD:
  assumes "win_rel r m b"
  shows "length (rxq r) = 64" "length (wrxh r) = 64" "0 < wsize r" "wsize r \<le> 64" "unat (exp_seq r) = m mod 4096"
    "\<And>n. b n \<noteq> None \<Longrightarrow> m \<le> n \<and> n < m + wsize r"
    "\<And>n. n < m \<or> m + wsize r \<le> n \<Longrightarrow> b n = None"
    "\<And>n p h. b n = Some (p, h) \<Longrightarrow> unat (pkt_h_seqnum p) = n mod 4096"
    "\<And>n. m \<le> n \<Longrightarrow> n < m + 64 \<Longrightarrow> rxq r ! (n mod 64) = map_option fst (b n)"
    "\<And>n d. m \<le> n \<Longrightarrow> n < m + 64 \<Longrightarrow> b n = Some d \<Longrightarrow> wrxh r ! (n mod 64) = snd d"
    "unat (queued r) = card (dom b)"
proof -
  note w = assms [unfolded win_rel_def]
  show "length (rxq r) = 64" "length (wrxh r) = 64" "0 < wsize r" "wsize r \<le> 64" "unat (exp_seq r) = m mod 4096"
    "unat (queued r) = card (dom b)" using w by blast+
  show i: "\<And>n. b n \<noteq> None \<Longrightarrow> m \<le> n \<and> n < m + wsize r" using w by blast
  show "\<And>n. n < m \<or> m + wsize r \<le> n \<Longrightarrow> b n = None" using i by (meson leD)
  show "\<And>n p h. b n = Some (p, h) \<Longrightarrow> unat (pkt_h_seqnum p) = n mod 4096"
    "\<And>n. m \<le> n \<Longrightarrow> n < m + 64 \<Longrightarrow> rxq r ! (n mod 64) = map_option fst (b n)"
    "\<And>n d. m \<le> n \<Longrightarrow> n < m + 64 \<Longrightarrow> b n = Some d \<Longrightarrow> wrxh r ! (n mod 64) = snd d" using w by blast+
qed

lemma win_dom: "win_rel r m b \<Longrightarrow> dom b \<subseteq> {m..<m + wsize r}"
  using win_relD(6) by fastforce

lemma win_finite: "win_rel r m b \<Longrightarrow> finite (dom b)"
  using win_dom finite_subset finite_atLeastLessThan by metis

text \<open>The index of the expected number and of the one behind it.\<close>

lemma index_mod: "unat s = n mod 4096 \<Longrightarrow> RX_SEQ_TO_INDEX s = n mod 64"
  unfolding RX_SEQ_TO_INDEX_def AMPDU_RX_BA_MAX_WSIZE_def by (simp add: mod_mod_cancel)

lemma NEXT_RX_INDEX_mod: "NEXT_RX_INDEX (n mod 64) = Suc n mod 64"
  unfolding NEXT_RX_INDEX_def AMPDU_RX_BA_MAX_WSIZE_def by (simp add: mod_Suc_eq)

lemma mod_window_inj: "m \<le> i \<Longrightarrow> i < m + 64 \<Longrightarrow> m \<le> n \<Longrightarrow> n < m + 64 \<Longrightarrow> i mod 64 = n mod 64 \<Longrightarrow> i = (n :: nat)"
proof -
  have le: "x = y" if "x \<le> y" "m \<le> x" "y < m + 64" "x mod 64 = y mod 64" for x y :: nat
  proof -
    have "64 dvd y - x" using that(1,4) mod_eq_dvd_iff_nat [of x y 64] by simp
    moreover have "y - x < 64" using that(2,3) by linarith
    ultimately have "y - x = 0" using nat_dvd_not_less [of "y - x" 64] by (cases "y - x = 0") simp_all
    then show ?thesis using that(1) by simp
  qed
  assume "m \<le> i" "i < m + 64" "m \<le> n" "n < m + 64" "i mod 64 = n mod 64"
  then show ?thesis using le [of i n] le [of n i] by (cases "i \<le> n") simp_all
qed

text \<open>Taking the frame at the expected number, if any, and moving on.\<close>

lemma win_step:
  assumes "win_rel r m b" "rxq r' = (rxq r)[m mod 64 := None]" "wrxh r' = wrxh r" "ba_wsize r' = ba_wsize r"
    "exp_seq r' = NEXT_SEQ (exp_seq r)" "queued r' = (if b m = None then queued r else queued r - 1)"
  shows "win_rel r' (Suc m) (above (Suc m) b)"
proof -
  note w = win_relD [OF assms(1)]
  have ws: "wsize r' = wsize r" by (simp add: wsize_def assms(4))
  have d: "dom (above (Suc m) b) = dom b - {m}"
  proof (rule set_eqI)
    fix n
    show "n \<in> dom (above (Suc m) b) \<longleftrightarrow> n \<in> dom b - {m}"
      using w(6) [of n] by (cases "n < Suc m") (auto simp: above_def dom_def)
  qed
  have q: "unat (queued r') = card (dom (above (Suc m) b))"
  proof (cases "b m = None")
    case True
    then have "dom b - {m} = dom b" by auto
    then show ?thesis using True w(11) by (simp add: d assms(6))
  next
    case False
    then have m: "m \<in> dom b" by auto
    then have "0 < card (dom b)" using win_finite [OF assms(1)] card_gt_0_iff by blast
    then have "queued r \<noteq> 0" using w(11) by (metis less_numeral_extra(3) unsigned_0)
    moreover have "queued r' = queued r - 1" using False by (simp only: assms(6) if_False)
    ultimately show ?thesis using m win_finite [OF assms(1)] w(11) by (simp add: d unat_minus_one)
  qed
  have slots: "rxq r' ! (n mod 64) = map_option fst (above (Suc m) b n) \<and>
      (\<forall>d. above (Suc m) b n = Some d \<longrightarrow> wrxh r' ! (n mod 64) = snd d)" if n: "Suc m \<le> n" "n < Suc m + 64" for n
  proof (cases "n = m + 64")
    case True
    then have "n mod 64 = m mod 64" by simp
    moreover have "above (Suc m) b n = None" using w(4,7) True by (simp add: above_def)
    ultimately show ?thesis using w(1) by (simp add: assms(2))
  next
    case False
    then have i: "m \<le> n" "n < m + 64" "n \<noteq> m" using n by auto
    then have "n mod 64 \<noteq> m mod 64" using mod_window_inj [of m n m] by auto
    then show ?thesis using w(9,10) [OF i(1,2)] i n by (simp add: assms(2,3) above_def)
  qed
  have bnd: "Suc m \<le> n \<and> n < Suc m + wsize r" if "above (Suc m) b n \<noteq> None" for n
    using that w(6) [of n] by (auto simp: above_def split: if_splits)
  have num: "unat (pkt_h_seqnum p) = n mod 4096" if "above (Suc m) b n = Some (p, h)" for n p h
    using that w(8) [of n p h] by (simp add: above_def split: if_splits)
  have e: "unat (exp_seq r') = Suc m mod 4096" unfolding assms(5) by (rule NEXT_SEQ_mod) (rule w(5))
  show ?thesis unfolding win_rel_def ws
    using bnd num slots q e w(1,2,3,4) by (simp add: assms(2,3))
qed
subsection \<open>Releasing frames moves the window\<close>

text \<open>Delivery that does not come back into the module.\<close>

definition quiet :: "upper \<Rightarrow> bool" where "quiet up \<longleftrightarrow> (\<forall>a p h s. up a p h s = s)"

lemma quietD: "quiet up \<Longrightarrow> wlc_recvdata_ordered up a p h s = emit (Sendup a p h) s"
  by (simp add: quiet_def wlc_recvdata_ordered_def)

definition sendups :: "nat \<Rightarrow> (nat \<times> pkt \<times> nat) list \<Rightarrow> ampdu_event list" where
  "sendups a = map (\<lambda>(n, p, h). Sendup a p h)"

lemma sendups_simps [simp]:
  "sendups a [] = []" "sendups a ((n, p, h) # ds) = Sendup a p h # sendups a ds" "sendups a (ds @ es) = sendups a ds @ sendups a es"
  by (simp_all add: sendups_def)

lemma resp_of_set [simp]: "resp_of s a tid = Some r \<Longrightarrow> resp_of (set_resp a tid r' s) a tid = Some r'"
  by (auto simp: resp_of_def set_resp_def upd_scb_def)

lemma resp_of_emit [simp]: "resp_of (emit e s) = resp_of s"
  by (simp add: resp_of_def emit_def fun_eq_iff)

lemma resp_of_cnt [simp]: "resp_of (WLCNTINCR u s) = resp_of s"
  by (simp add: resp_of_def WLCNTINCR_def fun_eq_iff)

lemma events_simps [simp]:
  "events (emit e s) = events s @ [e]" "events (WLCNTINCR u s) = events s" "events (set_resp a tid r s) = events s"
  by (simp_all add: emit_def WLCNTINCR_def set_resp_def upd_scb_def)

lemma set_resp_set [simp]: "set_resp a tid r (set_resp a tid r' s) = set_resp a tid r s"
  by (cases s) (simp add: set_resp_def upd_scb_def option.map_comp o_def)

text \<open>Only the responder, the counters, the statistics of the station and the trace have changed.\<close>

definition zero_cnt :: wlc_ampdu_cnt where
  "zero_cnt =
     \<lparr>rxampdu = 0, rxmpdu = 0, rxht = 0, rxlegacy = 0, rxampdu_sgi = 0, rxampdu_stbc = 0, rxnobapol = 0, rxunexp = 0,
      rxdup = 0, rxoow = 0, rxqed = 0, rxholes = 0, rxstuck = 0, rxbar = 0, rxba = 0, rxaddbareq = 0, txaddbaresp = 0,
      txdelba = 0,
      rxdelba = 0, txrel_wm = 0, txrel_size = 0, txdrop = 0, txr0hole = 0, txrnhole = 0, txrlag = 0, txreg_noack = 0, txaddbareq = 0,
      rxaddbaresp = 0, txbar = 0, noba = 0, txstuck = 0, orphan = 0\<rparr>"

definition core :: "nat \<Rightarrow> nat \<Rightarrow> ampdu_info \<Rightarrow> ampdu_info" where
  "core a tid s =
     (upd_scb a (\<lambda>c. c\<lparr>resp := (resp c)(tid := None), resp_off := (\<lambda>_. \<lparr>ampdu_recd = False, ampdu_cnt = 0\<rparr>)\<rparr>) s)
       \<lparr>cnt := zero_cnt, events := []\<rparr>"

definition same_but :: "nat \<Rightarrow> nat \<Rightarrow> ampdu_info \<Rightarrow> ampdu_info \<Rightarrow> bool" where
  "same_but a tid s s' \<longleftrightarrow> core a tid s' = core a tid s"

lemma core_simps [simp]:
  "core a tid (set_resp a tid r s) = core a tid s" "core a tid (emit e s) = core a tid s" "core a tid (WLCNTINCR u s) = core a tid s"
  "core a tid (set_ampdu_recd a tid' s) = core a tid s"
  by (simp_all add: core_def set_resp_def upd_scb_def emit_def WLCNTINCR_def set_ampdu_recd_def option.map_comp o_def)

lemma same_but_refl: "same_but a tid s s"
  by (simp add: same_but_def)

lemma same_but_set: "same_but a tid s s' \<Longrightarrow> same_but a tid s (set_resp a tid r s')"
  by (simp add: same_but_def)

lemma same_but_emit: "same_but a tid s s' \<Longrightarrow> same_but a tid s (emit e s')"
  by (simp add: same_but_def)

lemma same_but_cnt: "same_but a tid s s' \<Longrightarrow> same_but a tid s (WLCNTINCR u s')"
  by (simp add: same_but_def)

lemma same_but_trans: "same_but a tid s s' \<Longrightarrow> same_but a tid s' s'' \<Longrightarrow> same_but a tid s s''"
  by (simp add: same_but_def)

lemmas same_but_intros = same_but_set same_but_emit same_but_cnt

lemma release_n_refines:
  assumes "quiet up" "resp_of s a tid = Some (Some r)" "win_rel r m b"
  shows "\<exists>s' r'. release_n_loop up a tid k s = Some s' \<and> resp_of s' a tid = Some (Some r') \<and>
    win_rel r' (m + k) (above (m + k) b) \<and> wsize r' = wsize r \<and> dead_cnt r' = dead_cnt r \<and> (k > 0 \<longrightarrow> alive r') \<and> (k = 0 \<longrightarrow> alive r' = alive r) \<and>
    events s' = events s @ sendups a (inwin b m (m + k)) \<and> same_but a tid s s'"
  using assms(2,3)
proof (induction k arbitrary: s r m b)
  case 0
  have "above m b = b" by (rule above_id) (use win_relD(7) [OF 0(2)] in blast)
  moreover have "same_but a tid s s" by (rule same_but_refl)
  ultimately show ?case using 0 by (intro exI [of _ s] exI [of _ r]) simp
next
  case (Suc k)
  note w = win_relD [OF Suc.prems(2)]
  have indx: "RX_SEQ_TO_INDEX (exp_seq r) = m mod 64" by (rule index_mod) (rule w(5))
  have slot: "rxq r ! (m mod 64) = map_option fst (b m)" by (rule w(9)) simp_all
  obtain s1 r1 where step: "release_n_loop up a tid (Suc k) s = release_n_loop up a tid k s1"
      "resp_of s1 a tid = Some (Some r1)" "win_rel r1 (Suc m) (above (Suc m) b)" "wsize r1 = wsize r" "dead_cnt r1 = dead_cnt r" "alive r1"
      "events s1 = events s @ sendups a (case b m of None \<Rightarrow> [] | Some d \<Rightarrow> [(m, d)])" "same_but a tid s s1"
  proof (cases "b m")
    case None
    let ?r1 = "r\<lparr>alive := True, exp_seq := NEXT_SEQ (exp_seq r)\<rparr>"
    have "(rxq r)[m mod 64 := None] = rxq r" using slot None by (metis list_update_id option.map_disc_iff)
    then have "win_rel ?r1 (Suc m) (above (Suc m) b)" by (intro win_step [OF Suc.prems(2)]) (simp_all add: None)
    moreover have "same_but a tid s (advance a tid r (WLCNTINCR rxholes_update s))"
      unfolding advance_def by (intro same_but_intros same_but_refl)
    ultimately show ?thesis
      by (intro that [of "advance a tid r (WLCNTINCR rxholes_update s)" ?r1])
        (simp_all add: Suc.prems(1) Let_def indx slot None advance_def wsize_def)
  next
    case (Some d)
    obtain p h where d: "d = (p, h)" by fastforce
    have h: "wrxh r ! (m mod 64) = h" using w(10) [of m d] Some d by simp
    let ?r0 = "r\<lparr>rxq := (rxq r)[m mod 64 := None], queued := queued r - 1\<rparr>"
    let ?r1 = "?r0\<lparr>alive := True, exp_seq := NEXT_SEQ (exp_seq ?r0)\<rparr>"
    let ?s0 = "emit (Sendup a p h) (set_resp a tid (Some ?r0) s)"
    have "win_rel ?r1 (Suc m) (above (Suc m) b)" by (intro win_step [OF Suc.prems(2)]) (simp_all add: Some)
    moreover have "same_but a tid s (advance a tid ?r0 ?s0)"
      unfolding advance_def by (intro same_but_intros same_but_refl)
    ultimately show ?thesis
      by (intro that [of "advance a tid ?r0 ?s0" ?r1])
        (simp_all add: Suc.prems(1) Let_def indx slot Some d h advance_def wsize_def quietD [OF assms(1)])
  qed
  obtain s' r' where fin: "release_n_loop up a tid k s1 = Some s'" "resp_of s' a tid = Some (Some r')"
      "win_rel r' (Suc m + k) (above (Suc m + k) (above (Suc m) b))" "wsize r' = wsize r1" "dead_cnt r' = dead_cnt r1" "alive r'"
      "events s' = events s1 @ sendups a (inwin (above (Suc m) b) (Suc m) (Suc m + k))" "same_but a tid s1 s'"
    using Suc.IH [OF step(2,3)] step(6) by (cases k) auto
  have "inwin b m (m + Suc k) = (case b m of None \<Rightarrow> [] | Some d \<Rightarrow> [(m, d)]) @ inwin b (Suc m) (Suc m + k)"
    by (subst inwin_Cons) simp_all
  then have "events s' = events s @ sendups a (inwin b m (m + Suc k))" using fin(7) step(7) by simp
  moreover have "same_but a tid s s'" using same_but_trans step(8) fin(8) by blast
  ultimately show ?case using fin step(1,4,5) by (intro exI [of _ s'] exI [of _ r']) simp
qed
lemma release_loop_refines:
  assumes "quiet up" "resp_of s a tid = Some (Some r)" "win_rel r m b"
    "\<And>i. i < k \<Longrightarrow> b (m + i) \<noteq> None" "b (m + k) = None"
  shows "\<exists>s' r'. release_ordered_loop up a tid (m mod 64) s = Some s' \<and> resp_of s' a tid = Some (Some r') \<and>
    win_rel r' (m + k) (above (m + k) b) \<and> wsize r' = wsize r \<and> dead_cnt r' = dead_cnt r \<and> (k > 0 \<longrightarrow> alive r') \<and> (k = 0 \<longrightarrow> alive r' = alive r) \<and>
    events s' = events s @ sendups a (inwin b m (m + k)) \<and> same_but a tid s s'"
  using assms(2-5)
proof (induction k arbitrary: s r m b)
  case 0
  have "above m b = b" by (rule above_id) (use win_relD(7) [OF 0(2)] in blast)
  moreover have "rxq r ! (m mod 64) = None" using win_relD(9) [OF 0(2), of m] 0(4) by simp
  ultimately show ?case using 0 same_but_refl [of a tid s]
    by (intro exI [of _ s] exI [of _ r]) (simp add: release_ordered_loop.simps)
next
  case (Suc k)
  note w = win_relD [OF Suc.prems(2)]
  obtain p h where d: "b m = Some (p, h)" using Suc.prems(3) [of 0] by auto
  have slot: "rxq r ! (m mod 64) = Some p" and h: "wrxh r ! (m mod 64) = h"
    using w(9) [of m] w(10) [of m "(p, h)"] d by simp_all
  let ?r1 = "r\<lparr>rxq := (rxq r)[m mod 64 := None], queued := queued r - 1, alive := True, exp_seq := NEXT_SEQ (exp_seq r)\<rparr>"
  let ?s1 = "emit (Sendup a p h) (set_resp a tid (Some ?r1) s)"
  have step: "release_ordered_loop up a tid (m mod 64) s = release_ordered_loop up a tid (Suc m mod 64) ?s1"
    using slot h Suc.prems(1)
    by (subst release_ordered_loop.simps) (simp add: Let_def quietD [OF assms(1)] NEXT_RX_INDEX_mod)
  have r1: "win_rel ?r1 (Suc m) (above (Suc m) b)" by (intro win_step [OF Suc.prems(2)]) (simp_all add: d)
  have "\<exists>s' r'. release_ordered_loop up a tid (Suc m mod 64) ?s1 = Some s' \<and> resp_of s' a tid = Some (Some r') \<and>
      win_rel r' (Suc m + k) (above (Suc m + k) (above (Suc m) b)) \<and> wsize r' = wsize ?r1 \<and> dead_cnt r' = dead_cnt ?r1 \<and> (k > 0 \<longrightarrow> alive r') \<and>
      (k = 0 \<longrightarrow> alive r' = alive ?r1) \<and>
      events s' = events ?s1 @ sendups a (inwin (above (Suc m) b) (Suc m) (Suc m + k)) \<and> same_but a tid ?s1 s'"
  proof (rule Suc.IH)
    show "resp_of ?s1 a tid = Some (Some ?r1)" using Suc.prems(1) by simp
    show "above (Suc m) b (Suc m + i) \<noteq> None" if "i < k" for i using Suc.prems(3) [of "Suc i"] that by (simp add: above_def)
    show "above (Suc m) b (Suc m + k) = None" using Suc.prems(4) by (simp add: above_def)
  qed (rule r1)
  then obtain s' r' where fin: "release_ordered_loop up a tid (Suc m mod 64) ?s1 = Some s'" "resp_of s' a tid = Some (Some r')"
      "win_rel r' (Suc m + k) (above (Suc m + k) (above (Suc m) b))" "wsize r' = wsize r" "dead_cnt r' = dead_cnt r" "alive r'"
      "events s' = events s @ Sendup a p h # sendups a (inwin b (Suc m) (Suc m + k))" "same_but a tid ?s1 s'"
    by (cases k) (auto simp: wsize_def)
  have "same_but a tid s s'" using fin(8) by (simp add: same_but_def)
  moreover have "inwin b m (m + Suc k) = (m, p, h) # inwin b (Suc m) (Suc m + k)" by (subst inwin_Cons) (simp_all add: d)
  ultimately show ?case using fin step by (intro exI [of _ s'] exI [of _ r']) simp
qed

text \<open>Releasing what is in order takes the window to its first gap.\<close>

lemma release_ordered_refines:
  assumes "quiet up" "resp_of s a tid = Some (Some r)" "win_rel r m b"
  shows "\<exists>s' r'. wlc_ampdu_release_ordered up a tid s = Some s' \<and> resp_of s' a tid = Some (Some r') \<and>
    win_rel r' (first_gap (wsize r) b m) (above (first_gap (wsize r) b m) b) \<and> wsize r' = wsize r \<and> dead_cnt r' = dead_cnt r \<and> (alive r \<longrightarrow> alive r') \<and>
    (b m = None \<longrightarrow> alive r' = alive r) \<and>
    events s' = events s @ sendups a (inwin b m (first_gap (wsize r) b m)) \<and> same_but a tid s s'"
proof -
  note w = win_relD [OF assms(3)]
  have "b (m + wsize r) = None" by (rule w(7)) simp
  then obtain k where k: "first_gap (wsize r) b m = m + k" "\<And>i. i < k \<Longrightarrow> b (m + i) \<noteq> None" "b (m + k) = None"
    by (rule first_gapE) blast
  have "RX_SEQ_TO_INDEX (exp_seq r) = m mod 64" by (rule index_mod) (rule w(5))
  then have "wlc_ampdu_release_ordered up a tid s = release_ordered_loop up a tid (m mod 64) s"
    using assms(2) by (simp add: wlc_ampdu_release_ordered_def)
  moreover have "k = 0" if "b m = None" using k(2) [of 0] that by (cases k) auto
  ultimately show ?thesis using release_loop_refines [OF assms k(2,3)] unfolding k(1) by (cases "k = 0") auto
qed

text \<open>Putting a frame in the window.\<close>

lemma enqueue_win:
  assumes "win_rel r m b" "m \<le> n" "n < m + wsize r" "b n = None" "unat (pkt_h_seqnum (fi_p f)) = n mod 4096"
  shows "win_rel (enqueue (n mod 64) f r) m (b(n \<mapsto> (fi_p f, fi_wrxh f)))"
proof -
  note w = win_relD [OF assms(1)]
  let ?r = "enqueue (n mod 64) f r" and ?b = "b(n \<mapsto> (fi_p f, fi_wrxh f))"
  have ws: "wsize ?r = wsize r" by (simp add: wsize_def enqueue_def)
  have slots: "rxq ?r ! (i mod 64) = map_option fst (?b i) \<and> (\<forall>d. ?b i = Some d \<longrightarrow> wrxh ?r ! (i mod 64) = snd d)"
    if i: "m \<le> i" "i < m + 64" for i
  proof (cases "i = n")
    case True
    then show ?thesis using w(1,2) by (simp add: enqueue_def)
  next
    case False
    have "n < m + 64" using assms(3) w(4) by linarith
    then have "i mod 64 \<noteq> n mod 64" using mod_window_inj [of m i n] i False assms(2) by auto
    then show ?thesis using w(9,10) [OF i] False by (simp add: enqueue_def)
  qed
  have fin: "finite (dom b)" by (rule win_finite [OF assms(1)])
  have "dom b \<subseteq> {m..<m + wsize r} - {n}" using win_dom [OF assms(1)] assms(4) by auto
  then have "card (dom b) \<le> card ({m..<m + wsize r} - {n})" by (rule card_mono [rotated]) simp
  then have c: "card (dom b) < 64" using assms(2,3) w(3,4) by simp
  have "unat (queued r + 1) = card (dom b) + 1" using c w(11) by (simp add: unat_word_ariths)
  moreover have "card (dom ?b) = card (dom b) + 1" using fin assms(4) by (simp add: domIff)
  ultimately have q: "unat (queued ?r) = card (dom ?b)" by (simp add: enqueue_def)
  have bnd: "m \<le> i \<and> i < m + wsize r" if "?b i \<noteq> None" for i
    using that w(6) [of i] assms(2,3) by (cases "i = n") auto
  have num: "unat (pkt_h_seqnum p) = i mod 4096" if "?b i = Some (p, h)" for i p h
    using that w(8) [of i p h] assms(5) by (cases "i = n") auto
  show ?thesis unfolding win_rel_def ws using bnd num slots q w(1-5) by (simp add: enqueue_def)
qed
subsection \<open>A frame arrives\<close>

text \<open>
  The specification: a frame that is behind the window or already there is dropped; one ahead of it
  first pushes the window so that it is the last in it; then everything up to the first
  gap is delivered. The result has the new window, what was delivered and whether the frame was
  taken.
\<close>

definition win_recv :: "nat \<Rightarrow> nat \<Rightarrow> pkt \<times> nat \<Rightarrow> nat \<times> buf \<Rightarrow> (nat \<times> buf) \<times> (nat \<times> pkt \<times> nat) list \<times> bool" where
  "win_recv w n d = (\<lambda>(m, b).
     if n < m \<or> b n \<noteq> None then ((m, b), [], False)
     else let lo = max m (n + 1 - w); b1 = (above lo b)(n \<mapsto> d); hi = first_gap w b1 lo
          in ((hi, above hi b1), inwin b m lo @ inwin b1 lo hi, True))"

text \<open>A block acknowledgement request moves the window to its number.\<close>

definition win_bar :: "nat \<Rightarrow> nat \<Rightarrow> nat \<times> buf \<Rightarrow> (nat \<times> buf) \<times> (nat \<times> pkt \<times> nat) list" where
  "win_bar w n = (\<lambda>(m, b).
     if n < m then ((m, b), [])
     else let b1 = above n b; hi = first_gap w b1 n in ((hi, above hi b1), inwin b m n @ inwin b1 n hi))"

text \<open>A number is understood when it is less than half the number space away.\<close>

definition in_sync :: "nat \<Rightarrow> nat \<Rightarrow> bool" where "in_sync m n \<longleftrightarrow> n \<le> m + 2048 \<and> m \<le> n + 2047"

lemma mod4096_ahead:
  fixes n m :: nat
  assumes "m \<le> n" "n - m < 4096"
  shows "(n mod 4096 + 4096 - m mod 4096) mod 4096 = n - m"
proof -
  obtain k where n: "n = m + k" using assms(1) le_Suc_ex by blast
  show ?thesis using assms(2) unfolding n by (simp add: mod_if [of "m mod 4096 + k"] mod_add_left_eq [symmetric, of m])
qed

lemma mod4096_behind:
  fixes n m :: nat
  assumes "n < m" "m - n < 4096"
  shows "(n mod 4096 + 4096 - m mod 4096) mod 4096 = 4096 - (m - n)"
proof -
  obtain k where m: "m = n + k" "0 < k" "k < 4096" using assms by (metis add_diff_cancel_left' less_imp_add_positive)
  define N where "N = n mod 4096"
  have N: "N < 4096" by (simp add: N_def)
  have e: "m mod 4096 = (N + k) mod 4096" by (simp add: m N_def mod_add_left_eq)
  have k: "m - n = k" using m by simp
  have lt: "4096 - k < 4096" using m(2) by simp
  show ?thesis
  proof (cases "N + k < 4096")
    case True
    then have "N + 4096 - m mod 4096 = 4096 - k" unfolding e by simp
    then show ?thesis using lt unfolding N_def [symmetric] k by simp
  next
    case False
    then have "m mod 4096 = N + k - 4096" unfolding e using N m(3) by (simp add: le_mod_geq)
    then have "N + 4096 - m mod 4096 = (4096 - k) + 4096" using False N m(3) by simp
    then show ?thesis using lt unfolding N_def [symmetric] k by (simp only: mod_add_self2 mod_less)
  qed
qed
lemma in_sync_offset:
  assumes "in_sync m n" "unat seq = n mod 4096" "unat e = m mod 4096"
  shows "seq = e \<longleftrightarrow> n = m" "n < m \<Longrightarrow> MODSUB_SEQ seq e > 0x800"
    "m \<le> n \<Longrightarrow> unat (MODSUB_SEQ seq e) = n - m" "m \<le> n \<Longrightarrow> \<not> MODSUB_SEQ seq e > 0x800"
proof -
  have b: "unat seq < 4096" "unat e < 4096" using assms by simp_all
  have o: "unat (MODSUB_SEQ seq e) = (n mod 4096 + 4096 - m mod 4096) mod 4096"
    using MODSUB_SEQ_nat [OF b] assms by simp
  show ahead: "unat (MODSUB_SEQ seq e) = n - m" if "m \<le> n"
    unfolding o by (rule mod4096_ahead [OF that]) (use assms(1) in \<open>unfold in_sync_def, linarith\<close>)
  have behind: "unat (MODSUB_SEQ seq e) = 4096 - (m - n)" if "n < m"
    unfolding o by (rule mod4096_behind [OF that]) (use assms(1) in \<open>unfold in_sync_def, linarith\<close>)
  show "n < m \<Longrightarrow> MODSUB_SEQ seq e > 0x800" using behind assms(1) by (simp add: word_less_nat_alt in_sync_def)
  show "m \<le> n \<Longrightarrow> \<not> MODSUB_SEQ seq e > 0x800" using ahead assms(1) by (simp add: word_less_nat_alt in_sync_def)
  show "seq = e \<longleftrightarrow> n = m"
  proof
    assume "seq = e"
    then have "unat (MODSUB_SEQ seq e) = 0" by (simp add: MODSUB_SEQ_def)
    then show "n = m" using ahead behind assms(1) by (cases "n < m") (auto simp: in_sync_def)
  qed (use assms(2,3) in \<open>simp add: word_unat_eq_iff\<close>)
qed
text \<open>What a step of the queue does, against the new window \<open>m'\<close>, \<open>b'\<close> and the events.\<close>

definition steps_to :: "nat \<Rightarrow> nat \<Rightarrow> tid_resp \<Rightarrow> ampdu_info \<Rightarrow> ampdu_info option \<Rightarrow> nat \<times> buf \<Rightarrow> ampdu_event list \<Rightarrow> bool" where
  "steps_to a tid r s res = (\<lambda>(m', b') es.
     \<exists>s' r'. res = Some s' \<and> resp_of s' a tid = Some (Some r') \<and> win_rel r' m' b' \<and> b' m' = None \<and> wsize r' = wsize r \<and>
       dead_cnt r' = dead_cnt r \<and> (alive r \<longrightarrow> alive r') \<and>
       events s' = events s @ es \<and> same_but a tid s s')"

lemma first_gap_None: "b (lo + w) = None \<Longrightarrow> b (first_gap w b lo) = None"
  by (erule first_gapE [of b lo w]) simp

lemma recv_expected:
  assumes "quiet up" "resp_of s a tid = Some (Some r)" "win_rel r m b" "b m = None"
    "pkt_h_seqnum (fi_p f) = exp_seq r"
  shows "steps_to a tid r s (recv_in_agreement up a tid r (exp_seq r) f s)
    (fst (win_recv (wsize r) m (fi_p f, fi_wrxh f) (m, b))) (sendups a (fst (snd (win_recv (wsize r) m (fi_p f, fi_wrxh f) (m, b)))))"
proof -
  note w = win_relD [OF assms(3)]
  let ?d = "(fi_p f, fi_wrxh f)" and ?w = "wsize r"
  let ?r1 = "r\<lparr>alive := True, exp_seq := NEXT_SEQ (exp_seq r)\<rparr>"
  let ?s1 = "emit (Sendup a (fi_p f) (fi_wrxh f)) (advance a tid r s)"
  let ?b1 = "b(m \<mapsto> ?d)"
  have slot: "(rxq r)[m mod 64 := None] = rxq r" using w(9) [of m] assms(4) by (metis list_update_id option.map_disc_iff le_refl less_add_same_cancel1 zero_less_numeral)
  have r1: "win_rel ?r1 (Suc m) (above (Suc m) b)"
    by (rule win_step [OF assms(3)]) (simp_all add: slot assms(4))
  have ab: "above (Suc m) b = b" by (rule above_id) (use w(7) assms(4) in \<open>auto simp: less_Suc_eq\<close>)
  have bw: "b (Suc m + ?w) = None" using w(7) [of "Suc m + ?w"] by simp
  obtain k where k: "first_gap ?w b (Suc m) = Suc m + k" "k \<le> ?w" "\<And>i. i < k \<Longrightarrow> b (Suc m + i) \<noteq> None" "b (Suc m + k) = None"
    using first_gapE [of b "Suc m" ?w, OF bw] by metis
  have kw: "Suc k \<le> ?w"
  proof (cases k)
    case 0 then show ?thesis using w(3) by simp
  next
    case (Suc i)
    then have "b (Suc m + i) \<noteq> None" using k(3) [of i] by simp
    then show ?thesis using w(6) [of "Suc m + i"] Suc by simp
  qed
  have gap: "first_gap ?w ?b1 m = m + Suc k"
  proof (rule first_gapI [OF _ _ kw])
    show "?b1 (m + i) \<noteq> None" if "i < Suc k" for i using k(3) [of "i - 1"] that by (cases i) auto
    show "?b1 (m + Suc k) = None" using k(4) by simp
  qed
  have ws: "wsize ?r1 = ?w" by (simp add: wsize_def)
  have "resp_of ?s1 a tid = Some (Some ?r1)" using assms(2) by (simp add: advance_def)
  from release_ordered_refines [OF assms(1) this r1] obtain s' r' where fin:
    "wlc_ampdu_release_ordered up a tid ?s1 = Some s'" "resp_of s' a tid = Some (Some r')"
    "win_rel r' (Suc m + k) (above (Suc m + k) b)" "wsize r' = ?w" "dead_cnt r' = dead_cnt r" "alive r'"
    "events s' = events ?s1 @ sendups a (inwin b (Suc m) (Suc m + k))" "same_but a tid ?s1 s'"
    unfolding ab ws k(1) by auto
  have "scbs ?s1 a \<noteq> None" using assms(2) by (auto simp: resp_of_def advance_def emit_def set_resp_def upd_scb_def)
  then obtain c where "scbs ?s1 a = Some c" by blast
  then have res: "recv_in_agreement up a tid r (exp_seq r) f s = Some s'"
    using fin(1) by (simp add: recv_in_agreement_def Let_def quietD [OF assms(1)])
  have win: "win_recv ?w m ?d (m, b) = ((Suc m + k, above (Suc m + k) b), (m, ?d) # inwin b (Suc m) (Suc m + k), True)"
  proof -
    have "max m (m + 1 - ?w) = m" using w(3) by simp
    moreover have "above m b = b" by (rule above_id) (use w(7) in blast)
    moreover have "inwin ?b1 m (m + Suc k) = (m, ?d) # inwin ?b1 (Suc m) (m + Suc k)" by (subst inwin_Cons) simp_all
    moreover have "inwin ?b1 (Suc m) (m + Suc k) = inwin b (Suc m) (Suc m + k)" by (simp, rule inwin_cong) simp
    moreover have "above (m + Suc k) ?b1 = above (Suc m + k) b" by (auto simp: above_def fun_eq_iff)
    ultimately show ?thesis using assms(4) gap by (simp add: win_recv_def Let_def)
  qed
  have "same_but a tid s s'" using fin(8) by (simp add: same_but_def advance_def)
  moreover have "events s' = events s @ Sendup a (fi_p f) (fi_wrxh f) # sendups a (inwin b (Suc m) (Suc m + k))"
    using fin(7) by (simp add: advance_def)
  moreover have "above (Suc m + k) b (Suc m + k) = None" using k(4) by (simp add: above_def)
  ultimately show ?thesis unfolding steps_to_def win fst_conv snd_conv prod.case
    using res fin(2-6) by (intro exI [of _ s'] exI [of _ r']) simp
qed

lemma recv_dup:
  assumes "quiet up" "resp_of s a tid = Some (Some r)" "win_rel r m b" "b m = None" "in_sync m n" "n \<noteq> m"
    "unat (pkt_h_seqnum (fi_p f)) = n mod 4096" "n < m \<or> b n \<noteq> None"
  shows "steps_to a tid r s (recv_in_agreement up a tid r (pkt_h_seqnum (fi_p f)) f s) (m, b) [Pktfree (fi_p f)]"
proof -
  note w = win_relD [OF assms(3)]
  note o = in_sync_offset [OF assms(5,7) w(5)]
  let ?seq = "pkt_h_seqnum (fi_p f)"
  have "MODSUB_SEQ ?seq (exp_seq r) < ucast (ba_wsize r) \<and> rxq r ! RX_SEQ_TO_INDEX ?seq \<noteq> None \<or> MODSUB_SEQ ?seq (exp_seq r) > 0x800"
  proof (cases "n < m")
    case True
    then show ?thesis using o(2) by blast
  next
    case False
    then have n: "m \<le> n" "n < m + wsize r" "b n \<noteq> None" using assms(8) w(6) by blast+
    have "RX_SEQ_TO_INDEX ?seq = n mod 64" by (rule index_mod) (rule assms(7))
    moreover have "rxq r ! (n mod 64) = map_option fst (b n)" by (rule w(9)) (use n w(4) in simp_all)
    moreover have "MODSUB_SEQ ?seq (exp_seq r) < ucast (ba_wsize r)"
      using o(3) [OF n(1)] n(1,2) by (simp add: word_less_nat_alt wsize_def unsigned_ucast_eq take_bit_nat_eq_self unat8_less order.strict_trans [OF unat8_less])
    ultimately show ?thesis using n(3) by auto
  qed
  moreover have "?seq \<noteq> exp_seq r" using o(1) assms(6) by blast
  ultimately have "recv_in_agreement up a tid r ?seq f s = Some (WLCNTINCR rxdup_update (emit (Pktfree (fi_p f)) s))"
    unfolding recv_in_agreement_def Let_def by (simp only: if_True if_False)
  then show ?thesis unfolding steps_to_def using assms(2-4)
    by (auto simp: same_but_def)
qed

lemma recv_queue:
  assumes "quiet up" "resp_of s a tid = Some (Some r)" "win_rel r m b" "b m = None" "in_sync m n" "m < n" "b n = None" "n < m + wsize r"
    "unat (pkt_h_seqnum (fi_p f)) = n mod 4096"
  shows "steps_to a tid r s (recv_in_agreement up a tid r (pkt_h_seqnum (fi_p f)) f s) (m, b(n \<mapsto> (fi_p f, fi_wrxh f))) []"
proof -
  note w = win_relD [OF assms(3)]
  note o = in_sync_offset [OF assms(5,9) w(5)]
  let ?seq = "pkt_h_seqnum (fi_p f)"
  have n: "m \<le> n" using assms(6) by simp
  have i: "RX_SEQ_TO_INDEX ?seq = n mod 64" by (rule index_mod) (rule assms(9))
  have "rxq r ! (n mod 64) = map_option fst (b n)" by (rule w(9)) (use n assms(8) w(4) in simp_all)
  then have free: "rxq r ! RX_SEQ_TO_INDEX ?seq = None" using i assms(7) by simp
  have lt: "\<not> MODSUB_SEQ ?seq (exp_seq r) \<ge> ucast (ba_wsize r)"
    using o(3) [OF n] assms(6,8) by (simp add: word_le_nat_alt wsize_def unsigned_ucast_eq take_bit_nat_eq_self unat8_less order.strict_trans [OF unat8_less])
  have ne: "\<not> ?seq = exp_seq r" using o(1) assms(6) by simp
  have nodup: "\<not> (MODSUB_SEQ ?seq (exp_seq r) < ucast (ba_wsize r) \<and> rxq r ! RX_SEQ_TO_INDEX ?seq \<noteq> None \<or> MODSUB_SEQ ?seq (exp_seq r) > 0x800)"
    using o(4) [OF n] free by blast
  have "recv_in_agreement up a tid r ?seq f s = Some (WLCNTINCR rxqed_update (set_resp a tid (Some (enqueue (n mod 64) f r)) s))"
    unfolding recv_in_agreement_def Let_def by (simp only: ne nodup [unfolded i] lt if_False i)
  moreover have "win_rel (enqueue (n mod 64) f r) m (b(n \<mapsto> (fi_p f, fi_wrxh f)))"
    by (rule enqueue_win [OF assms(3) n assms(8,7,9)])
  moreover have "wsize (enqueue (n mod 64) f r) = wsize r" "dead_cnt (enqueue (n mod 64) f r) = dead_cnt r"
      "alive (enqueue (n mod 64) f r) = alive r" by (simp_all add: wsize_def enqueue_def)
  ultimately show ?thesis unfolding steps_to_def using assms(2,4,6) by (auto simp: same_but_def)
qed
lemma release_n_ordered_loop:
  "resp_of s a tid = Some (Some r) \<Longrightarrow> wlc_ampdu_release_n_ordered up a tid k s = release_n_loop up a tid k s"
  by (simp add: wlc_ampdu_release_n_ordered_def)

lemma ucast_wsize: "unat (ucast (ba_wsize r) :: uint16) = wsize r"
  by (simp add: wsize_def unsigned_ucast_eq take_bit_nat_eq_self unat8_less order.strict_trans [OF unat8_less])

lemma recv_beyond:
  assumes "quiet up" "resp_of s a tid = Some (Some r)" "win_rel r m b" "b m = None" "in_sync m n" "m + wsize r \<le> n"
    "unat (pkt_h_seqnum (fi_p f)) = n mod 4096"
  shows "steps_to a tid r s (recv_in_agreement up a tid r (pkt_h_seqnum (fi_p f)) f s)
    (fst (win_recv (wsize r) n (fi_p f, fi_wrxh f) (m, b))) (sendups a (fst (snd (win_recv (wsize r) n (fi_p f, fi_wrxh f) (m, b)))))"
proof -
  note w = win_relD [OF assms(3)]
  note o = in_sync_offset [OF assms(5,7) w(5)]
  let ?seq = "pkt_h_seqnum (fi_p f)" and ?w = "wsize r"
  let ?off = "MODSUB_SEQ ?seq (exp_seq r)"
  define lo where "lo = n + 1 - ?w"
  have n: "m \<le> n" "m \<noteq> n" "m < lo" "lo \<le> n" "n < lo + ?w" using assms(6) w(3) by (simp_all add: lo_def)
  have off: "unat ?off = n - m" by (rule o(3)) (rule n(1))
  have ge: "?off \<ge> ucast (ba_wsize r)" unfolding word_le_nat_alt off ucast_wsize using assms(6) by simp
  have ne: "\<not> ?seq = exp_seq r" using o(1) n(2) by simp
  have nodup: "\<not> (?off < ucast (ba_wsize r) \<and> rxq r ! RX_SEQ_TO_INDEX ?seq \<noteq> None \<or> ?off > 0x800)"
    using o(4) [OF n(1)] ge by (meson leD)
  have "unat (?off - ucast (ba_wsize r)) = n - m - ?w"
    using ge unfolding word_le_nat_alt by (subst unat_sub) (simp_all add: word_le_nat_alt off ucast_wsize)
  moreover have "n - m - ?w + 1 < 65536" using assms(5) unfolding in_sync_def by linarith
  ultimately have delta: "unat (?off - ucast (ba_wsize r) + 1) = lo - m"
    using assms(6) w(3) by (simp add: unat_word_ariths lo_def)
  obtain s1 r1 where s1: "release_n_loop up a tid (lo - m) s = Some s1" "resp_of s1 a tid = Some (Some r1)"
      "win_rel r1 lo (above lo b)" "wsize r1 = ?w" "dead_cnt r1 = dead_cnt r" "alive r1" "events s1 = events s @ sendups a (inwin b m lo)" "same_but a tid s s1"
    using release_n_refines [OF assms(1-3), of "lo - m"] n(3) by auto
  have i: "RX_SEQ_TO_INDEX ?seq = n mod 64" by (rule index_mod) (rule assms(7))
  let ?r2 = "enqueue (n mod 64) f r1" and ?b1 = "(above lo b)(n \<mapsto> (fi_p f, fi_wrxh f))"
  let ?s2 = "set_resp a tid (Some ?r2) s1"
  have bn: "above lo b n = None" using w(7) [of n] assms(6) by (simp add: above_def)
  have r2: "win_rel ?r2 lo ?b1"
    by (rule enqueue_win [OF s1(3)]) (use n s1(4) bn assms(7) in simp_all)
  have w2: "wsize ?r2 = ?w" using s1(4) by (simp add: wsize_def enqueue_def)
  have "resp_of ?s2 a tid = Some (Some ?r2)" using s1(2) by simp
  from release_ordered_refines [OF assms(1) this r2] obtain s' r' where fin:
    "wlc_ampdu_release_ordered up a tid ?s2 = Some s'" "resp_of s' a tid = Some (Some r')"
    "win_rel r' (first_gap ?w ?b1 lo) (above (first_gap ?w ?b1 lo) ?b1)" "wsize r' = ?w" "dead_cnt r' = dead_cnt ?r2" "alive ?r2 \<longrightarrow> alive r'"
    "events s' = events ?s2 @ sendups a (inwin ?b1 lo (first_gap ?w ?b1 lo))" "same_but a tid ?s2 s'"
    unfolding w2 by blast
  have res: "recv_in_agreement up a tid r ?seq f s = Some (WLCNTINCR rxoow_update s')"
    unfolding recv_in_agreement_def Let_def
    by (simp only: ne nodup [unfolded i] ge if_False if_True delta release_n_ordered_loop [OF assms(2)] s1(1,2) i fin(1) bind.bind_lunit option.case)
  have win: "win_recv ?w n (fi_p f, fi_wrxh f) (m, b) =
      ((first_gap ?w ?b1 lo, above (first_gap ?w ?b1 lo) ?b1), inwin b m lo @ inwin ?b1 lo (first_gap ?w ?b1 lo), True)"
  proof -
    have "max m (n + 1 - ?w) = lo" using n(3) by (simp add: lo_def)
    moreover have "b n = None" using w(7) [of n] assms(6) by simp
    ultimately show ?thesis using n(1) unfolding win_recv_def by (simp add: Let_def)
  qed
  have "?b1 (lo + ?w) = None" using w(7) [of "lo + ?w"] n by (simp add: above_def)
  then have "above (first_gap ?w ?b1 lo) ?b1 (first_gap ?w ?b1 lo) = None" using first_gap_None [of ?b1 lo ?w] by (simp add: above_def)
  moreover have "same_but a tid s s'" using s1(8) fin(8) by (simp add: same_but_def)
  ultimately show ?thesis unfolding steps_to_def win fst_conv snd_conv prod.case res
    using fin(2-7) s1(5-7) by (intro exI [of _ "WLCNTINCR rxoow_update s'"] exI [of _ r']) (simp add: same_but_def enqueue_def)
qed

text \<open>In the middle of the window nothing is delivered.\<close>

lemma win_recv_queue:
  assumes "m < n" "n < m + w" "b n = None" "b m = None" "\<And>i. i < m \<Longrightarrow> b i = None" "w > 0"
  shows "win_recv w n d (m, b) = ((m, b(n \<mapsto> d)), [], True)"
proof -
  have "max m (n + 1 - w) = m" using assms(2) by simp
  moreover have ab: "above m b = b" by (rule above_id) (rule assms(5))
  moreover have "first_gap w (b(n \<mapsto> d)) m = m" using first_gapI [of 0 "b(n \<mapsto> d)" m w] assms by simp
  moreover have "above m (b(n \<mapsto> d)) = b(n \<mapsto> d)" by (rule above_id) (use assms in simp)
  ultimately show ?thesis using assms(1,3) by (simp add: win_recv_def Let_def)
qed

lemma recv_refines:
  assumes "quiet up" "resp_of s a tid = Some (Some r)" "win_rel r m b" "b m = None" "in_sync m n"
    "unat (pkt_h_seqnum (fi_p f)) = n mod 4096"
  shows "case win_recv (wsize r) n (fi_p f, fi_wrxh f) (m, b) of (mb', ds, taken) \<Rightarrow>
    steps_to a tid r s (recv_in_agreement up a tid r (pkt_h_seqnum (fi_p f)) f s) mb'
      (sendups a ds @ (if taken then [] else [Pktfree (fi_p f)]))"
proof -
  note w = win_relD [OF assms(3)]
  let ?d = "(fi_p f, fi_wrxh f)"
  consider "n < m \<or> b n \<noteq> None" | "n = m" | "m < n" "n < m + wsize r" "b n = None" | "m + wsize r \<le> n" "b n = None" by linarith
  then show ?thesis
  proof cases
    case 1
    then have "win_recv (wsize r) n ?d (m, b) = ((m, b), [], False)" by (auto simp: win_recv_def)
    then show ?thesis using recv_dup [OF assms(1-5) _ assms(6) 1] 1 assms(4) by (cases "n = m") auto
  next
    case 2
    have "pkt_h_seqnum (fi_p f) = exp_seq r" using assms(6) w(5) 2 by (simp add: word_unat_eq_iff)
    moreover have "snd (snd (win_recv (wsize r) m ?d (m, b)))" using assms(4) by (simp add: win_recv_def Let_def)
    ultimately show ?thesis using recv_expected [OF assms(1-4), of f] unfolding 2
      by (cases "win_recv (wsize r) m ?d (m, b)") (simp split: prod.splits)
  next
    case 3
    have "win_recv (wsize r) n ?d (m, b) = ((m, b(n \<mapsto> ?d)), [], True)"
      by (rule win_recv_queue) (use 3 assms(4) w(3,7) in simp_all)
    then show ?thesis using recv_queue [OF assms(1-5) 3(1,3,2) assms(6)] by simp
  next
    case 4
    have "snd (snd (win_recv (wsize r) n ?d (m, b)))" using 4 by (simp add: win_recv_def Let_def)
    then show ?thesis using recv_beyond [OF assms(1-5) 4(1) assms(6)]
      by (cases "win_recv (wsize r) n ?d (m, b)") (simp split: prod.splits)
  qed
qed
lemma resp_of_recd [simp]: "resp_of (set_ampdu_recd a' tid' s) = resp_of s"
  by (auto simp: resp_of_def set_ampdu_recd_def upd_scb_def fun_eq_iff option.map_comp o_def)

lemma events_recd [simp]: "events (set_ampdu_recd a' tid' s) = events s"
  by (simp add: set_ampdu_recd_def upd_scb_def)

lemma count_rx_simps [simp]:
  "resp_of (count_rx f s) = resp_of s" "events (count_rx f s) = events s" "core a tid (count_rx f s) = core a tid s"
  "scbs (count_rx f s) = scbs s"
  by (simp_all add: count_rx_def Let_def) (simp_all add: WLCNTINCR_def)

lemma steps_to_from:
  assumes "steps_to a tid r s1 res x es" "events s1 = events s" "core a tid s1 = core a tid s"
  shows "steps_to a tid r s res x es"
  using assms unfolding steps_to_def same_but_def by (cases x) simp

text \<open>A data frame of the agreement, not a fragment.\<close>

definition data_frame :: "nat \<Rightarrow> nat \<Rightarrow> wlc_frminfo \<Rightarrow> bool" where
  "data_frame tid n f \<longleftrightarrow> fi_subtype f = FC_SUBTYPE_QOS_DATA \<and> unat (fi_prio f) = tid \<and>
     pk_seq (fi_p f) AND FRAGNUM_MASK = 0 \<and> unat (pkt_h_seqnum (fi_p f)) = n mod 4096"

lemma recvdata_refines:
  assumes "quiet up" "resp_of s a tid = Some (Some r)" "win_rel r m b" "b m = None" "in_sync m n" "data_frame tid n f"
  shows "case win_recv (wsize r) n (fi_p f, fi_wrxh f) (m, b) of (mb', ds, taken) \<Rightarrow>
    steps_to a tid r s (wlc_ampdu_recvdata up al a f s) mb' (sendups a ds @ (if taken then [] else [Pktfree (fi_p f)]))"
proof -
  obtain c where c: "scbs s a = Some c" "resp c tid = Some r" using assms(2) by (auto simp: resp_of_def)
  define s1 where "s1 = (if \<not> scb_htcap c \<and> ft_pren f \<and> WLC_IS_MIMO_PLCP_AMPDU (fi_plcp f)
      then WLCNTINCR rxnobapol_update (set_ampdu_recd a tid (count_rx f s)) else count_rx f s)"
  have s1: "resp_of s1 = resp_of s" "events s1 = events s" "core a tid s1 = core a tid s" by (simp_all add: s1_def)
  have "wlc_ampdu_recvdata up al a f s = recv_in_agreement up a tid r (pkt_h_seqnum (fi_p f)) f s1"
    using assms(6) c by (simp add: wlc_ampdu_recvdata_def Let_def data_frame_def s1_def)
  then show ?thesis
    using recv_refines [OF assms(1) _ assms(3-5), of s1 a tid f] steps_to_from [OF _ s1(2,3), of r] assms(2,6)
    by (auto simp: s1(1) data_frame_def split: prod.splits)
qed

subsection \<open>Requests and the timer\<close>

definition bar_frame :: "nat \<Rightarrow> nat \<Rightarrow> uint8 list \<Rightarrow> bool" where
  "bar_frame tid n body \<longleftrightarrow> unat (drop_bit 12 (body16 body 0 AND 0xF000)) = tid \<and> tid < AMPDU_MAX_SCB_TID \<and>
     body16 body 0 AND 0x2 = 0 \<and> unat (drop_bit SEQNUM_SHIFT (body16 body 2)) = n mod 4096"

lemma recv_bar_refines:
  assumes "quiet up" "resp_of s a tid = Some (Some r)" "win_rel r m b" "b m = None" "in_sync m n" "bar_frame tid n body"
  shows "case win_bar (wsize r) n (m, b) of (mb', ds) \<Rightarrow>
    steps_to a tid r s (wlc_ampdu_recv_bar up a body s) mb' (sendups a ds)"
proof -
  note w = win_relD [OF assms(3)]
  have num: "unat (drop_bit SEQNUM_SHIFT (body16 body 2)) = n mod 4096" using assms(6) by (simp add: bar_frame_def)
  note o = in_sync_offset [OF assms(5) num w(5)]
  let ?off = "MODSUB_SEQ (drop_bit SEQNUM_SHIFT (body16 body 2)) (exp_seq r)"
  let ?s0 = "WLCNTINCR rxbar_update s"
  have bar: "wlc_ampdu_recv_bar up a body s =
      (if ?off > 0x800 then Some ?s0
       else do { s \<leftarrow> wlc_ampdu_release_n_ordered up a tid (unat ?off) ?s0; wlc_ampdu_release_ordered up a tid s })"
    using assms(2,6) by (simp add: wlc_ampdu_recv_bar_def Let_def bar_frame_def)
  have r0: "resp_of ?s0 a tid = Some (Some r)" using assms(2) by simp
  show ?thesis
  proof (cases "n < m")
    case True
    then have "wlc_ampdu_recv_bar up a body s = Some ?s0" using o(2) unfolding bar by simp
    then show ?thesis using True assms(2-4) by (auto simp: win_bar_def steps_to_def same_but_def)
  next
    case False
    then have n: "m \<le> n" by simp
    obtain s1 r1 where s1: "release_n_loop up a tid (n - m) ?s0 = Some s1" "resp_of s1 a tid = Some (Some r1)"
        "win_rel r1 n (above n b)" "wsize r1 = wsize r" "dead_cnt r1 = dead_cnt r" "alive r \<longrightarrow> alive r1" "events s1 = events s @ sendups a (inwin b m n)" "core a tid s1 = core a tid s"
      using release_n_refines [OF assms(1) r0 assms(3), of "n - m"] n by (cases "n - m = 0") (auto simp: same_but_def)
    have "wlc_ampdu_recv_bar up a body s = wlc_ampdu_release_ordered up a tid s1"
      unfolding bar using o(3,4) [OF n] by (simp add: release_n_ordered_loop [OF r0] s1(1))
    moreover obtain s' r' where fin: "wlc_ampdu_release_ordered up a tid s1 = Some s'" "resp_of s' a tid = Some (Some r')"
        "win_rel r' (first_gap (wsize r) (above n b) n) (above (first_gap (wsize r) (above n b) n) (above n b))"
        "wsize r' = wsize r" "dead_cnt r' = dead_cnt r1" "alive r1 \<longrightarrow> alive r'" "events s' = events s1 @ sendups a (inwin (above n b) n (first_gap (wsize r) (above n b) n))"
        "core a tid s' = core a tid s1"
      using release_ordered_refines [OF assms(1) s1(2,3)] unfolding s1(4) same_but_def by blast
    moreover have "above n b (n + wsize r) = None" using w(7) [of "n + wsize r"] n by (simp add: above_def)
    then have "above (first_gap (wsize r) (above n b) n) (above n b) (first_gap (wsize r) (above n b) n) = None"
      using first_gap_None [of "above n b" n "wsize r"] by (simp add: above_def)
    ultimately show ?thesis unfolding steps_to_def same_but_def using False s1(5-8) by (auto simp: win_bar_def Let_def)
  qed
qed
lemma last_queued_fold:
  assumes "win_rel r m b" "k \<le> 64"
  shows "\<exists>seq mx j. fold (\<lambda>i (seq, max_seq). (NEXT_SEQ seq, if rxq r ! RX_SEQ_TO_INDEX seq \<noteq> None then seq else max_seq))
      [0..<k] (exp_seq r, exp_seq r) = (seq, mx) \<and> unat seq = (m + k) mod 4096 \<and> unat mx = (m + j) mod 4096 \<and>
      (j = 0 \<or> j < k) \<and> (\<forall>i. j < i \<and> i < k \<longrightarrow> b (m + i) = None)"
  using assms(2)
proof (induction k)
  case 0
  then show ?case using win_relD(5) [OF assms(1)] by (intro exI [of _ "exp_seq r"] exI [of _ 0]) simp
next
  case (Suc k)
  note w = win_relD [OF assms(1)]
  obtain seq mx j where ih: "fold (\<lambda>i (seq, max_seq). (NEXT_SEQ seq, if rxq r ! RX_SEQ_TO_INDEX seq \<noteq> None then seq else max_seq))
      [0..<k] (exp_seq r, exp_seq r) = (seq, mx)" "unat seq = (m + k) mod 4096" "unat mx = (m + j) mod 4096"
      "j = 0 \<or> j < k" "\<forall>i. j < i \<and> i < k \<longrightarrow> b (m + i) = None"
    using Suc.IH Suc.prems by auto
  have slot: "rxq r ! RX_SEQ_TO_INDEX seq = map_option fst (b (m + k))"
    unfolding index_mod [OF ih(2)] by (rule w(9)) (use Suc.prems in simp_all)
  have nx: "unat (NEXT_SEQ seq) = (m + Suc k) mod 4096" using NEXT_SEQ_mod [OF ih(2)] by simp
  show ?case
  proof (cases "b (m + k) = None")
    case True
    then have "\<forall>i. j < i \<and> i < Suc k \<longrightarrow> b (m + i) = None" using ih(5) less_Suc_eq by auto
    then show ?thesis using True ih(1,3,4) nx slot
      by (intro exI [of _ "NEXT_SEQ seq"] exI [of _ mx] exI [of _ j]) auto
  next
    case False
    then show ?thesis using ih(1,2) nx slot
      by (intro exI [of _ "NEXT_SEQ seq"] exI [of _ seq] exI [of _ k]) auto
  qed
qed

text \<open>Everything that waits is delivered, over the holes.\<close>

lemma release_all_refines:
  assumes "quiet up" "resp_of s a tid = Some (Some r)" "win_rel r m b"
  shows "\<exists>j s' r'. j \<le> 64 \<and> 0 < j \<and> (\<forall>n. m + j \<le> n \<longrightarrow> b n = None) \<and> wlc_ampdu_release_all_ordered up a tid s = Some s' \<and>
    resp_of s' a tid = Some (Some r') \<and> win_rel r' (m + j) (\<lambda>_. None) \<and> wsize r' = wsize r \<and> alive r' \<and>
    events s' = events s @ sendups a (inwin b m (m + j)) \<and> same_but a tid s s'"
proof -
  note w = win_relD [OF assms(3)]
  obtain seq mx j where l: "fold (\<lambda>i (seq, max_seq). (NEXT_SEQ seq, if rxq r ! RX_SEQ_TO_INDEX seq \<noteq> None then seq else max_seq))
      [0..<64] (exp_seq r, exp_seq r) = (seq, mx)" "unat mx = (m + j) mod 4096"
      "j = 0 \<or> j < 64" "\<forall>i. j < i \<and> i < 64 \<longrightarrow> b (m + i) = None"
    using last_queued_fold [OF assms(3), of 64] by auto
  then have lq: "last_queued r = mx" by (simp add: last_queued_def AMPDU_RX_BA_MAX_WSIZE_def)
  have j: "j < 64" using l(3) by auto
  have "in_sync m (m + j)" using j by (simp add: in_sync_def)
  then have "unat (MODSUB_SEQ mx (exp_seq r)) = j" using in_sync_offset(3) [OF _ l(2) w(5)] by simp
  then have off: "unat (MODSUB_SEQ mx (exp_seq r) + 1) = j + 1" using j by (simp add: unat_word_ariths)
  have none: "b n = None" if "m + (j + 1) \<le> n" for n
  proof (cases "n < m + 64")
    case True
    then have "j < n - m" "n - m < 64" using that by auto
    then have "b (m + (n - m)) = None" using l(4) by blast
    then show ?thesis using that by simp
  next
    case False
    then show ?thesis using w(4) w(7) [of n] by simp
  qed
  then have "above (m + (j + 1)) b = (\<lambda>_. None)" by (auto simp: above_def fun_eq_iff)
  moreover obtain s' r' where rel: "release_n_loop up a tid (j + 1) s = Some s'" "resp_of s' a tid = Some (Some r')"
      "win_rel r' (m + (j + 1)) (above (m + (j + 1)) b)" "wsize r' = wsize r" "alive r'"
      "events s' = events s @ sendups a (inwin b m (m + (j + 1)))" "same_but a tid s s'"
    using release_n_refines [OF assms, of "j + 1"] by auto
  moreover have "wlc_ampdu_release_all_ordered up a tid s = Some s'"
    using assms(2) rel(1) by (simp only: wlc_ampdu_release_all_ordered_def option.case lq off release_n_ordered_loop)
  ultimately show ?thesis using none j by (intro exI [of _ "j + 1"] exI [of _ s'] exI [of _ r']) simp
qed

lemma win_rel_cong:
  "win_rel r m b \<Longrightarrow> rxq r' = rxq r \<Longrightarrow> wrxh r' = wrxh r \<Longrightarrow> ba_wsize r' = ba_wsize r \<Longrightarrow> exp_seq r' = exp_seq r \<Longrightarrow>
    queued r' = queued r \<Longrightarrow> win_rel r' m b"
  by (simp add: win_rel_def wsize_def)

text \<open>
  A tick of the timer. A responder that made progress is marked; one that did not and has frames
  waiting counts, and at the limit gives up waiting.
\<close>

definition resp_limit :: "nat \<Rightarrow> ampdu_info \<Rightarrow> uint16" where
  "resp_limit a s = (case scbs s a of None \<Rightarrow> 0
     | Some c \<Rightarrow> (if scb_brcm c then resp_timeout_b s else resp_timeout_nb s) div AMPDU_RESP_TIMEOUT)"

lemma tick_refines:
  assumes "quiet up" "resp_of s a tid = Some (Some r)" "win_rel r m b" "b m = None"
  shows "\<exists>s' r'. resp_tick up a tid s = Some s' \<and> resp_of s' a tid = Some (Some r') \<and> wsize r' = wsize r \<and> same_but a tid s s' \<and>
    (if \<not> alive r \<and> b \<noteq> (\<lambda>_. None) \<and> ucast (dead_cnt r + 1) \<ge> resp_limit a s
     then \<exists>j > 0. j \<le> 64 \<and> (\<forall>n. m + j \<le> n \<longrightarrow> b n = None) \<and> win_rel r' (m + j) (\<lambda>_. None) \<and> alive r' \<and>
       events s' = events s @ sendups a (inwin b m (m + j))
     else win_rel r' m b \<and> events s' = events s \<and> \<not> alive r' \<and>
       dead_cnt r' = (if alive r then 0 else if b = (\<lambda>_. None) then dead_cnt r else dead_cnt r + 1))"
proof -
  note w = win_relD [OF assms(3)]
  obtain c where c: "scbs s a = Some c" "resp c tid = Some r" using assms(2) by (auto simp: resp_of_def)
  have q: "queued r = 0 \<longleftrightarrow> b = (\<lambda>_. None)"
  proof -
    have "queued r = 0 \<longleftrightarrow> card (dom b) = 0" by (simp only: w(11) [symmetric] unat_eq_0)
    then show ?thesis using win_finite [OF assms(3)] by (simp add: dom_eq_empty_conv)
  qed
  consider "alive r" | "\<not> alive r" "queued r = 0" | "\<not> alive r" "queued r \<noteq> 0" by blast
  then show ?thesis
  proof cases
    case 1
    let ?r = "r\<lparr>alive := False, dead_cnt := 0\<rparr>"
    have "win_rel ?r m b" by (rule win_rel_cong [OF assms(3)]) simp_all
    then show ?thesis using 1 c assms(2)
      by (intro exI [of _ "set_resp a tid (Some ?r) s"] exI [of _ ?r]) (simp add: resp_tick_def same_but_def wsize_def)
  next
    case 2
    then show ?thesis using c assms(2,3) q
      by (intro exI [of _ s] exI [of _ r]) (simp add: resp_tick_def same_but_def)
  next
    case 3
    let ?r = "r\<lparr>dead_cnt := dead_cnt r + 1\<rparr>"
    let ?s = "set_resp a tid (Some ?r) s"
    have r: "win_rel ?r m b" by (rule win_rel_cong [OF assms(3)]) simp_all
    have lim: "resp_limit a s = (if scb_brcm c then resp_timeout_b s else resp_timeout_nb s) div AMPDU_RESP_TIMEOUT"
      by (simp add: resp_limit_def c)
    have tick: "resp_tick up a tid s = (if ucast (dead_cnt r + 1) \<ge> resp_limit a s
        then wlc_ampdu_release_all_ordered up a tid (WLCNTINCR rxstuck_update ?s) else Some ?s)"
      using 3 c by (simp add: resp_tick_def Let_def lim set_resp_def upd_scb_def)
    show ?thesis
    proof (cases "ucast (dead_cnt r + 1) \<ge> resp_limit a s")
      case True
      have "resp_of (WLCNTINCR rxstuck_update ?s) a tid = Some (Some ?r)" using assms(2) by simp
      from release_all_refines [OF assms(1) this r] obtain j s' r' where rel:
        "j \<le> 64" "0 < j" "\<forall>n. m + j \<le> n \<longrightarrow> b n = None"
        "wlc_ampdu_release_all_ordered up a tid (WLCNTINCR rxstuck_update ?s) = Some s'"
        "resp_of s' a tid = Some (Some r')" "win_rel r' (m + j) (\<lambda>_. None)" "wsize r' = wsize ?r" "alive r'"
        "events s' = events s @ sendups a (inwin b m (m + j))" "core a tid s' = core a tid s"
        unfolding same_but_def by auto
      have "b \<noteq> (\<lambda>_. None)" using q 3(2) by blast
      then have cond: "\<not> alive r \<and> b \<noteq> (\<lambda>_. None) \<and> ucast (dead_cnt r + 1) \<ge> resp_limit a s" using 3(1) True by blast
      have "wsize r' = wsize r" using rel(7) by (simp add: wsize_def)
      then show ?thesis unfolding if_P [OF cond] same_but_def using rel True unfolding tick
        by (intro exI [of _ s'] exI [of _ r'] conjI exI [of _ j]) simp_all
    next
      case False
      then have "resp_tick up a tid s = Some ?s" unfolding tick by simp
      moreover have "b \<noteq> (\<lambda>_. None)" using q 3(2) by blast
      ultimately show ?thesis using False 3(1) r assms(2)
        by (intro exI [of _ ?s] exI [of _ ?r]) (simp add: same_but_def wsize_def)
    qed
  qed
qed
subsection \<open>Order and conservation in the window\<close>

definition win_ok :: "nat \<Rightarrow> nat \<Rightarrow> buf \<Rightarrow> bool" where
  "win_ok w m b \<longleftrightarrow> 0 < w \<and> b m = None \<and> (\<forall>n. b n \<noteq> None \<longrightarrow> m \<le> n \<and> n < m + w)"

lemma win_rel_ok: "win_rel r m b \<Longrightarrow> b m = None \<Longrightarrow> win_ok (wsize r) m b"
  using win_relD(3,6) unfolding win_ok_def by blast

abbreviation contents :: "nat \<Rightarrow> nat \<Rightarrow> buf \<Rightarrow> (nat \<times> pkt \<times> nat) list" where
  "contents w m b \<equiv> inwin b m (m + w)"

lemma contents_slide:
  assumes "\<And>n. b n \<noteq> None \<Longrightarrow> n < m + w" "m \<le> lo"
  shows "contents w m b = inwin b m lo @ contents w lo (above lo b)"
proof -
  have "inwin b (m + w) (lo + w) = []" by (rule inwin_None) (use assms(1) in \<open>meson leD\<close>)
  then have "contents w m b = inwin b m (lo + w)" using inwin_append [of m "m + w" "lo + w" b] assms(2) by simp
  then show ?thesis using inwin_append [of m lo "lo + w" b] assms(2) by simp
qed

lemma contents_insert:
  assumes "lo \<le> n" "n < hi" "b n = None"
  shows "mset (inwin (b(n \<mapsto> d)) lo hi) = add_mset (n, d) (mset (inwin b lo hi))"
proof -
  have s: "inwin b' lo hi = inwin b' lo n @ (case b' n of None \<Rightarrow> [] | Some d \<Rightarrow> [(n, d)]) @ inwin b' (Suc n) hi" for b'
    using inwin_append [of lo n hi b'] inwin_Cons [of n hi b'] assms by simp
  have "inwin (b(n \<mapsto> d)) lo n = inwin b lo n" "inwin (b(n \<mapsto> d)) (Suc n) hi = inwin b (Suc n) hi"
    by (rule inwin_cong, simp)+
  then show ?thesis using s [of b] s [of "b(n \<mapsto> d)"] assms(3) by simp
qed

lemma first_gap_bounds: "lo \<le> first_gap w b lo" "first_gap w b lo \<le> lo + w"
  using length_takeWhile_le [of "\<lambda>n. b n \<noteq> None" "[lo..<lo + w]"] by (simp_all add: first_gap_def)

text \<open>Numbers that came out of a window that moved from \<open>m\<close> to \<open>m'\<close>.\<close>

definition delivered_between :: "nat \<Rightarrow> nat \<Rightarrow> (nat \<times> pkt \<times> nat) list \<Rightarrow> bool" where
  "delivered_between m m' ds \<longleftrightarrow> m \<le> m' \<and> sorted_wrt (<) (map fst ds) \<and> (\<forall>x \<in> set ds. m \<le> fst x \<and> fst x < m')"

lemma delivered_between_inwin: "m \<le> m' \<Longrightarrow> delivered_between m m' (inwin b m m')"
  by (auto simp: delivered_between_def sorted_inwin set_inwin)

lemma delivered_between_append:
  assumes "delivered_between m m1 ds" "delivered_between m1 m2 es"
  shows "delivered_between m m2 (ds @ es)"
proof -
  have "fst x < fst y" if "x \<in> set ds" "y \<in> set es" for x y
    using assms that unfolding delivered_between_def by (meson order_less_le_trans)
  then show ?thesis using assms unfolding delivered_between_def by (fastforce simp: sorted_wrt_append)
qed

lemma delivered_between_Nil [simp]: "delivered_between m m []"
  by (simp add: delivered_between_def)

lemma win_recv_props:
  assumes "win_ok w m b" "win_recv w n d (m, b) = ((m', b'), ds, taken)"
  shows "delivered_between m m' ds" "taken \<longleftrightarrow> \<not> (n < m \<or> b n \<noteq> None)"
    "taken \<Longrightarrow> mset ds + mset (contents w m' b') = add_mset (n, d) (mset (contents w m b))"
    "\<not> taken \<Longrightarrow> ds = [] \<and> m' = m \<and> b' = b" "m' \<le> max (m + w) (n + 1)"
proof -
  have w: "0 < w" "\<And>n. b n \<noteq> None \<Longrightarrow> n < m + w" using assms(1) unfolding win_ok_def by blast+
  show t: "taken \<longleftrightarrow> \<not> (n < m \<or> b n \<noteq> None)" "\<not> taken \<Longrightarrow> ds = [] \<and> m' = m \<and> b' = b"
    using assms(2) by (auto simp: win_recv_def Let_def split: if_splits)
  define lo where "lo = max m (n + 1 - w)"
  define b1 where "b1 = (above lo b)(n \<mapsto> d)"
  define hi where "hi = first_gap w b1 lo"
  have gap: "lo \<le> hi" "hi \<le> lo + w" unfolding hi_def by (rule first_gap_bounds)+
  have yes: "m' = hi \<and> b' = above hi b1 \<and> ds = inwin b m lo @ inwin b1 lo hi \<and> m \<le> n \<and> b n = None" if taken
    by (cases "b n") (use assms(2) that t(1) in \<open>auto simp: win_recv_def Let_def lo_def b1_def hi_def split: if_splits\<close>)
  have lo: "m \<le> lo" "n < lo + w" using w(1) by (auto simp: lo_def)
  show "delivered_between m m' ds"
  proof (cases taken)
    case True
    then show ?thesis using yes delivered_between_append [OF delivered_between_inwin delivered_between_inwin, of m lo hi b b1] lo gap by auto
  qed (use t(2) in simp)
  show "m' \<le> max (m + w) (n + 1)"
  proof (cases taken)
    case True
    have "lo = m \<or> lo + w = n + 1" using w(1) unfolding lo_def by linarith
    then show ?thesis using True yes gap by auto
  qed (use t(2) in simp)
  assume taken
  note y = yes [OF this]
  have ln: "lo \<le> n" using y w(1) by (simp add: lo_def)
  have "contents w m b = inwin b m lo @ contents w lo (above lo b)" by (rule contents_slide [OF w(2) lo(1)])
  moreover have "mset (contents w lo b1) = add_mset (n, d) (mset (contents w lo (above lo b)))"
    unfolding b1_def by (rule contents_insert) (use ln lo y in \<open>simp_all add: above_def\<close>)
  moreover have "contents w lo b1 = inwin b1 lo hi @ contents w hi (above hi b1)"
  proof (rule contents_slide [OF _ gap(1)])
    show "i < lo + w" if "b1 i \<noteq> None" for i
      using that w(2) [of i] lo unfolding b1_def by (cases "i = n") (auto simp: above_def split: if_splits)
  qed
  ultimately show "mset ds + mset (contents w m' b') = add_mset (n, d) (mset (contents w m b))" using y by simp
qed

lemma win_bar_props:
  assumes "win_ok w m b" "win_bar w n (m, b) = ((m', b'), ds)"
  shows "delivered_between m m' ds" "mset ds + mset (contents w m' b') = mset (contents w m b)" "m' \<le> max m (n + w)"
proof -
  have w: "\<And>n. b n \<noteq> None \<Longrightarrow> n < m + w" using assms(1) unfolding win_ok_def by blast
  define b1 where "b1 = above n b"
  define hi where "hi = first_gap w b1 n"
  have gap: "n \<le> hi" "hi \<le> n + w" unfolding hi_def by (rule first_gap_bounds)+
  have no: "ds = [] \<and> m' = m \<and> b' = b" if "n < m" using assms(2) that by (simp add: win_bar_def)
  have yes: "m' = hi \<and> b' = above hi b1 \<and> ds = inwin b m n @ inwin b1 n hi" if "\<not> n < m"
    using assms(2) that by (auto simp: win_bar_def Let_def b1_def hi_def simp del: above_above inwin_above)
  show "delivered_between m m' ds"
  proof (cases "n < m")
    case False
    then show ?thesis using yes delivered_between_append [OF delivered_between_inwin delivered_between_inwin, of m n hi b b1] gap by auto
  qed (use no in simp)
  show "m' \<le> max m (n + w)" using no yes gap by (cases "n < m") auto
  show "mset ds + mset (contents w m' b') = mset (contents w m b)"
  proof (cases "n < m")
    case False
    have "contents w m b = inwin b m n @ contents w n b1" unfolding b1_def by (rule contents_slide [OF w]) (use False in simp_all)
    moreover have "contents w n b1 = inwin b1 n hi @ contents w hi (above hi b1)"
    proof (rule contents_slide [OF _ gap(1)])
      show "i < n + w" if "b1 i \<noteq> None" for i
        using that w [of i] False unfolding b1_def by (auto simp: above_def split: if_splits)
    qed
    ultimately show ?thesis using yes [OF False] by simp
  qed (use no in simp)
qed

text \<open>The frames in the queue are the contents of the window.\<close>

definition queue :: "tid_resp \<Rightarrow> pkt list" where "queue r = List.map_filter (\<lambda>x. x) (rxq r)"

lemma mset_indices: "mset (map (\<lambda>n. n mod 64) [m..<m + 64]) = mset [0..<64 :: nat]"
proof (induction m)
  case 0
  have "map (\<lambda>n. n mod 64) [0..<64] = [0..<64 :: nat]" by (rule map_idI) simp
  then show ?case by simp
next
  case (Suc m)
  have "[m..<m + 64] = m # [Suc m..<m + 64]" "[Suc m..<Suc m + 64] = [Suc m..<m + 64] @ [m + 64]"
    by (simp_all add: upt_conv_Cons)
  then show ?case using Suc by simp
qed

lemma mset_map_filter: "mset (List.map_filter f xs) = image_mset (\<lambda>x. the (f x)) (filter_mset (\<lambda>x. f x \<noteq> None) (mset xs))"
  by (simp add: List.map_filter_def o_def)

lemma queue_contents:
  assumes "win_rel r m b"
  shows "mset (queue r) = mset (map (\<lambda>(n, p, h). p) (contents (wsize r) m b))"
proof -
  note w = win_relD [OF assms]
  have "rxq r = map (\<lambda>i. rxq r ! i) [0..<64]" using map_nth [of "rxq r"] w(1) by simp
  then have "mset (rxq r) = image_mset (\<lambda>i. rxq r ! i) (mset [0..<64])" by (metis mset_map)
  also have "\<dots> = mset (map (\<lambda>n. rxq r ! (n mod 64)) [m..<m + 64])"
    unfolding mset_indices [of m, symmetric] by (simp add: image_mset.compositionality o_def)
  also have "map (\<lambda>n. rxq r ! (n mod 64)) [m..<m + 64] = map (\<lambda>n. map_option fst (b n)) [m..<m + 64]"
    by (rule map_cong [OF refl]) (use w(9) in simp)
  finally have "mset (queue r) = mset (List.map_filter (\<lambda>n. map_option fst (b n)) [m..<m + 64])"
    unfolding queue_def mset_map_filter by (simp add: filter_mset_image_mset image_mset.compositionality o_def)
  also have "List.map_filter (\<lambda>n. map_option fst (b n)) [m..<m + 64] = map (\<lambda>(n, p, h). p) (inwin b m (m + 64))"
    by (auto simp: inwin_def List.map_filter_def split: prod.splits)
  also have "inwin b m (m + 64) = contents (wsize r) m b"
  proof -
    have "inwin b (m + wsize r) (m + 64) = []" by (rule inwin_None) (use w(7) in blast)
    then show ?thesis using inwin_append [of m "m + wsize r" "m + 64" b] w(4) by simp
  qed
  finally show ?thesis .
qed
subsection \<open>Runs\<close>

text \<open>What one responder meets: frames and requests with their true numbers, and ticks of its timer.\<close>

datatype ba_op = Data nat wlc_frminfo | Bar nat "uint8 list" | Tick

fun ba_exec :: "upper \<Rightarrow> ba_alloc \<Rightarrow> nat \<Rightarrow> nat \<Rightarrow> ba_op \<Rightarrow> ampdu_info \<Rightarrow> ampdu_info option" where
  "ba_exec up al a tid (Data n f) s = wlc_ampdu_recvdata up al a f s"
| "ba_exec up al a tid (Bar n body) s = wlc_ampdu_recv_bar up a body s"
| "ba_exec up al a tid Tick s = resp_tick up a tid s"

fun ba_run :: "upper \<Rightarrow> ba_alloc \<Rightarrow> nat \<Rightarrow> nat \<Rightarrow> ba_op list \<Rightarrow> ampdu_info \<Rightarrow> ampdu_info option" where
  "ba_run up al a tid [] s = Some s"
| "ba_run up al a tid (op # ops) s = do { s \<leftarrow> ba_exec up al a tid op s; ba_run up al a tid ops s }"

text \<open>How far the window has moved, from the expected numbers.\<close>

definition moved :: "nat \<Rightarrow> nat \<Rightarrow> ampdu_info \<Rightarrow> ampdu_info \<Rightarrow> nat" where
  "moved a tid s s' =
     (case (resp_of s a tid, resp_of s' a tid) of
        (Some (Some r), Some (Some r')) \<Rightarrow> unat (MODSUB_SEQ (exp_seq r') (exp_seq r))
      | _ \<Rightarrow> 0)"

text \<open>
  The assumption of the protocol: each frame carries its number modulo 4096 and arrives while
  that number is less than half the number space away from the window, which starts at \<open>m\<close>.
\<close>

fun op_ok :: "nat \<Rightarrow> nat \<Rightarrow> ba_op \<Rightarrow> bool" where
  "op_ok tid m (Data n f) \<longleftrightarrow> data_frame tid n f \<and> in_sync m n"
| "op_ok tid m (Bar n body) \<longleftrightarrow> bar_frame tid n body \<and> in_sync m n"
| "op_ok tid m Tick \<longleftrightarrow> True"

fun understood :: "upper \<Rightarrow> ba_alloc \<Rightarrow> nat \<Rightarrow> nat \<Rightarrow> ba_op list \<Rightarrow> ampdu_info \<Rightarrow> nat \<Rightarrow> bool" where
  "understood up al a tid [] s m \<longleftrightarrow> True"
| "understood up al a tid (op # ops) s m \<longleftrightarrow> op_ok tid m op \<and>
     (case ba_exec up al a tid op s of None \<Rightarrow> True
      | Some s' \<Rightarrow> understood up al a tid ops s' (m + moved a tid s s'))"

fun arrival :: "ba_op \<Rightarrow> (nat \<times> pkt \<times> nat) list" where
  "arrival (Data n f) = [(n, fi_p f, fi_wrxh f)]"
| "arrival _ = []"

lemma moved_nat:
  assumes "win_rel r m b" "win_rel r' m' b'" "m \<le> m'" "m' - m < 4096" "resp_of s a tid = Some (Some r)" "resp_of s' a tid = Some (Some r')"
  shows "m' = m + moved a tid s s'"
proof -
  have e: "unat (exp_seq r) = m mod 4096" "unat (exp_seq r') = m' mod 4096" using win_relD(5) assms(1,2) by blast+
  have "unat (MODSUB_SEQ (exp_seq r') (exp_seq r)) = (m' mod 4096 + 4096 - m mod 4096) mod 4096"
    using MODSUB_SEQ_nat [of "exp_seq r'" "exp_seq r"] unfolding e by simp
  also have "\<dots> = m' - m" by (rule mod4096_ahead [OF assms(3,4)])
  finally show ?thesis using assms(3,5,6) by (simp add: moved_def)
qed

definition resp_patient :: "nat \<Rightarrow> ampdu_info \<Rightarrow> tid_resp \<Rightarrow> bool" where
  "resp_patient a s r \<longleftrightarrow> alive r \<or> unat (dead_cnt r) < unat (resp_limit a s)"

lemma resp_limit_core: "core a tid s' = core a tid s \<Longrightarrow> resp_limit a s' = resp_limit a s"
proof -
  assume c: "core a tid s' = core a tid s"
  have "map_option scb_brcm (scbs (core a tid x) a) = map_option scb_brcm (scbs x a)"
    "resp_timeout_b (core a tid x) = resp_timeout_b x" "resp_timeout_nb (core a tid x) = resp_timeout_nb x" for x
    by (simp_all add: core_def upd_scb_def option.map_comp o_def)
  then have "map_option scb_brcm (scbs s' a) = map_option scb_brcm (scbs s a)" "resp_timeout_b s' = resp_timeout_b s"
    "resp_timeout_nb s' = resp_timeout_nb s" using c by metis+
  then show ?thesis by (auto simp: resp_limit_def split: option.splits)
qed

lemma ba_step:
  assumes "quiet up" "resp_of s a tid = Some (Some r)" "win_rel r m b" "b m = None" "op_ok tid m op" "resp_patient a s r" "0 < unat (resp_limit a s)"
  obtains s' r' b' ds fr where "ba_exec up al a tid op s = Some s'" "resp_of s' a tid = Some (Some r')"
    "win_rel r' (m + moved a tid s s') b'" "b' (m + moved a tid s s') = None" "wsize r' = wsize r" "same_but a tid s s'"
    "resp_patient a s' r'" "delivered_between m (m + moved a tid s s') ds"
    "events s' = events s @ sendups a ds @ map (\<lambda>(n, p, h). Pktfree p) fr"
    "mset ds + mset (contents (wsize r) (m + moved a tid s s') b') + mset fr = mset (contents (wsize r) m b) + mset (arrival op)"
proof (cases op)
  case (Data n f)
  let ?d = "(fi_p f, fi_wrxh f)"
  obtain m' b' ds taken where win: "win_recv (wsize r) n ?d (m, b) = ((m', b'), ds, taken)" by (metis prod.collapse)
  note p = win_recv_props [OF win_rel_ok [OF assms(3,4)] win]
  have ok: "data_frame tid n f" "in_sync m n" using assms(5) Data by simp_all
  obtain s' r' where st: "wlc_ampdu_recvdata up al a f s = Some s'" "resp_of s' a tid = Some (Some r')" "win_rel r' m' b'" "b' m' = None"
      "wsize r' = wsize r" "dead_cnt r' = dead_cnt r" "alive r \<longrightarrow> alive r'"
      "events s' = events s @ sendups a ds @ (if taken then [] else [Pktfree (fi_p f)])" "same_but a tid s s'"
    using recvdata_refines [OF assms(1-4) ok(2,1), of al] unfolding win steps_to_def by auto
  have "m \<le> m'" using p(1) by (simp add: delivered_between_def)
  moreover have "m' - m < 4096" using p(5) ok(2) win_relD(4) [OF assms(3)] unfolding in_sync_def by linarith
  ultimately have m': "m' = m + moved a tid s s'" by (rule moved_nat [OF assms(3) st(3) _ _ assms(2) st(2)])
  have pt: "resp_patient a s' r'"
    using assms(6) st(6,7,9) resp_limit_core [of a tid s' s] by (auto simp: resp_patient_def same_but_def)
  show ?thesis
    by (rule that [of s' r' b' ds "if taken then [] else [(n, ?d)]"])
      (use st p pt Data in \<open>auto simp flip: m'\<close>)
next
  case (Bar n body)
  obtain m' b' ds where win: "win_bar (wsize r) n (m, b) = ((m', b'), ds)" by (metis prod.collapse)
  note p = win_bar_props [OF win_rel_ok [OF assms(3,4)] win]
  have ok: "bar_frame tid n body" "in_sync m n" using assms(5) Bar by simp_all
  obtain s' r' where st: "wlc_ampdu_recv_bar up a body s = Some s'" "resp_of s' a tid = Some (Some r')" "win_rel r' m' b'" "b' m' = None"
      "wsize r' = wsize r" "dead_cnt r' = dead_cnt r" "alive r \<longrightarrow> alive r'"
      "events s' = events s @ sendups a ds" "same_but a tid s s'"
    using recv_bar_refines [OF assms(1-4) ok(2,1)] unfolding win steps_to_def by auto
  have "m \<le> m'" using p(1) by (simp add: delivered_between_def)
  moreover have "m' - m < 4096" using p(3) ok(2) win_relD(4) [OF assms(3)] unfolding in_sync_def by linarith
  ultimately have m': "m' = m + moved a tid s s'" by (rule moved_nat [OF assms(3) st(3) _ _ assms(2) st(2)])
  have pt: "resp_patient a s' r'"
    using assms(6) st(6,7,9) resp_limit_core [of a tid s' s] by (auto simp: resp_patient_def same_but_def)
  show ?thesis
    by (rule that [of s' r' b' ds "[]"]) (use st p pt Bar in \<open>auto simp flip: m'\<close>)
next
  case Tick
  have w64: "wsize r \<le> 64" "\<And>n. b n \<noteq> None \<Longrightarrow> n < m + wsize r" using win_relD(4,6) [OF assms(3)] by blast+
  let ?go = "\<not> alive r \<and> b \<noteq> (\<lambda>_. None) \<and> ucast (dead_cnt r + 1) \<ge> resp_limit a s"
  obtain s' r' where st: "resp_tick up a tid s = Some s'" "resp_of s' a tid = Some (Some r')" "wsize r' = wsize r" "same_but a tid s s'"
      "if ?go then \<exists>j > 0. j \<le> 64 \<and> (\<forall>n. m + j \<le> n \<longrightarrow> b n = None) \<and> win_rel r' (m + j) (\<lambda>_. None) \<and> alive r' \<and>
         events s' = events s @ sendups a (inwin b m (m + j))
       else win_rel r' m b \<and> events s' = events s \<and> \<not> alive r' \<and>
         dead_cnt r' = (if alive r then 0 else if b = (\<lambda>_. None) then dead_cnt r else dead_cnt r + 1)"
    using tick_refines [OF assms(1-4)] by metis
  show ?thesis
  proof (cases ?go)
    case True
    then obtain j where j: "j > 0" "j \<le> 64" "\<And>n. m + j \<le> n \<Longrightarrow> b n = None" "win_rel r' (m + j) (\<lambda>_. None)" "alive r'"
        "events s' = events s @ sendups a (inwin b m (m + j))" using st(5) by auto
    have m': "m + j = m + moved a tid s s'" by (rule moved_nat [OF assms(3) j(4) _ _ assms(2) st(2)]) (use j(2) in simp_all)
    have "contents (wsize r) m b = inwin b m (m + j) @ contents (wsize r) (m + j) (above (m + j) b)"
      by (rule contents_slide [OF w64(2)]) simp_all
    moreover have "contents (wsize r) (m + j) (above (m + j) b) = []" by (rule inwin_None) (simp add: above_def j(3))
    moreover have "inwin (\<lambda>_. None) (m + j) (m + j + wsize r) = []" by (rule inwin_None) simp
    ultimately have acc: "mset (inwin b m (m + j)) + mset (contents (wsize r) (m + j) (\<lambda>_. None)) = mset (contents (wsize r) m b)" by simp
    show ?thesis
      by (rule that [of s' r' "\<lambda>_. None" "inwin b m (m + j)" "[]"])
        (use st(1-4) j(4-6) acc Tick delivered_between_inwin [of m "m + j" b] in \<open>auto simp: resp_patient_def simp flip: m'\<close>)
  next
    case False
    then have st': "win_rel r' m b" "events s' = events s" "\<not> alive r'"
        "dead_cnt r' = (if alive r then 0 else if b = (\<lambda>_. None) then dead_cnt r else dead_cnt r + 1)"
      unfolding if_not_P [OF False] using st(5) by simp_all
    have m': "m = m + moved a tid s s'" by (rule moved_nat [OF assms(3) st'(1) _ _ assms(2) st(2)]) simp_all
    have lim: "resp_limit a s' = resp_limit a s" using st(4) resp_limit_core [of a tid s' s] by (simp add: same_but_def)
    have "resp_patient a s' r'"
    proof -
      consider "alive r" | "\<not> alive r" "b = (\<lambda>_. None)" | "\<not> alive r" "b \<noteq> (\<lambda>_. None)" by blast
      then show ?thesis
      proof cases
        case 1
        then show ?thesis using st'(4) assms(7) by (simp add: resp_patient_def lim)
      next
        case 2
        then show ?thesis using st'(4) assms(6) by (simp add: resp_patient_def lim)
      next
        case 3
        then have "\<not> ucast (dead_cnt r + 1) \<ge> resp_limit a s" using False by blast
        then have "unat (dead_cnt r + 1) < unat (resp_limit a s)"
          by (simp add: word_le_nat_alt not_le unsigned_ucast_eq take_bit_nat_eq_self unat8_less order.strict_trans [OF unat8_less])
        then show ?thesis using 3 st'(4) by (simp add: resp_patient_def lim)
      qed
    qed
    then show ?thesis
      by (intro that [of s' r' b "[]" "[]"]) (use st(1-4) st' m' assms(4) Tick in auto)
  qed
qed
lemma mset_chain:
  assumes "A + C1 + F1 = C0 + P" "D + C2 + F2 = C1 + Q"
  shows "(A + D) + C2 + (F1 + F2) = C0 + (P + (Q :: 'a multiset))"
proof -
  have "(A + D) + C2 + (F1 + F2) = A + F1 + (D + C2 + F2)" by (simp add: ac_simps)
  also have "\<dots> = A + F1 + (C1 + Q)" by (simp only: assms(2))
  also have "\<dots> = A + C1 + F1 + Q" by (simp add: ac_simps)
  also have "\<dots> = C0 + P + Q" by (simp only: assms(1))
  finally show ?thesis by (simp add: ac_simps)
qed

lemma ba_run_window:
  assumes "quiet up" "resp_of s a tid = Some (Some r)" "win_rel r m b" "b m = None" "understood up al a tid ops s m"
    "resp_patient a s r" "0 < unat (resp_limit a s)"
  shows "\<exists>s' r' m' b' es ds fr. ba_run up al a tid ops s = Some s' \<and> resp_of s' a tid = Some (Some r') \<and> win_rel r' m' b' \<and> b' m' = None \<and>
    wsize r' = wsize r \<and> same_but a tid s s' \<and> resp_patient a s' r' \<and> delivered_between m m' ds \<and>
    events s' = events s @ es \<and> filter (\<lambda>e. \<forall>p. e \<noteq> Pktfree p) es = sendups a ds \<and>
    filter (\<lambda>e. \<exists>p. e = Pktfree p) es = map (\<lambda>(n, p, h). Pktfree p) fr \<and>
    mset ds + mset (contents (wsize r) m' b') + mset fr = mset (contents (wsize r) m b) + mset (concat (map arrival ops))"
  using assms(2-7)
proof (induction ops arbitrary: s r m b)
  case Nil
  then show ?case
    by (intro exI [of _ s] exI [of _ r] exI [of _ m] exI [of _ b] exI [of _ "[]"]) (simp add: same_but_refl)
next
  case (Cons op ops)
  have ok: "op_ok tid m op" using Cons.prems(4) by simp
  obtain s1 r1 b1 ds1 fr1 where 1: "ba_exec up al a tid op s = Some s1" "resp_of s1 a tid = Some (Some r1)"
    "win_rel r1 (m + moved a tid s s1) b1" "b1 (m + moved a tid s s1) = None" "wsize r1 = wsize r" "same_but a tid s s1"
    "resp_patient a s1 r1" "delivered_between m (m + moved a tid s s1) ds1"
    "events s1 = events s @ sendups a ds1 @ map (\<lambda>(n, p, h). Pktfree p) fr1"
    "mset ds1 + mset (contents (wsize r) (m + moved a tid s s1) b1) + mset fr1 = mset (contents (wsize r) m b) + mset (arrival op)"
    using ba_step [OF assms(1) Cons.prems(1-3) ok Cons.prems(5,6), of al] .
  let ?m1 = "m + moved a tid s s1"
  have u: "understood up al a tid ops s1 ?m1" using Cons.prems(4) 1(1) by simp
  have l: "0 < unat (resp_limit a s1)" using Cons.prems(6) 1(6) resp_limit_core [of a tid s1 s] by (simp add: same_but_def)
  obtain s' r' m' b' es ds fr where
    2: "ba_run up al a tid ops s1 = Some s'" "resp_of s' a tid = Some (Some r')" "win_rel r' m' b'" "b' m' = None"
    "wsize r' = wsize r1" "same_but a tid s1 s'" "resp_patient a s' r'" "delivered_between ?m1 m' ds"
    "events s' = events s1 @ es" "filter (\<lambda>e. \<forall>p. e \<noteq> Pktfree p) es = sendups a ds"
    "filter (\<lambda>e. \<exists>p. e = Pktfree p) es = map (\<lambda>(n, p, h). Pktfree p) fr"
    "mset ds + mset (contents (wsize r1) m' b') + mset fr = mset (contents (wsize r1) ?m1 b1) + mset (concat (map arrival ops))"
    using Cons.IH [OF 1(2,3,4) u 1(7) l] by (elim exE conjE) (rule that)
  let ?es = "sendups a ds1 @ map (\<lambda>(n, p, h). Pktfree p) fr1 @ es"
  have f: "filter (\<lambda>e. \<forall>p. e \<noteq> Pktfree p) (sendups a xs) = sendups a xs" "filter (\<lambda>e. \<exists>p. e = Pktfree p) (sendups a xs) = []"
    "filter (\<lambda>e. \<forall>p. e \<noteq> Pktfree p) (map (\<lambda>(n, p, h). Pktfree p) fr') = []"
    "filter (\<lambda>e. \<exists>p. e = Pktfree p) (map (\<lambda>(n, p, h). Pktfree p) fr') = map (\<lambda>(n, p, h). Pktfree p) fr'"
    for xs :: "(nat \<times> pkt \<times> nat) list" and fr' :: "(nat \<times> pkt \<times> nat) list"
    by (auto simp: sendups_def filter_empty_conv filter_id_conv)
  have "filter (\<lambda>e. \<forall>p. e \<noteq> Pktfree p) ?es = sendups a (ds1 @ ds)" using f 2(10) by simp
  moreover have "filter (\<lambda>e. \<exists>p. e = Pktfree p) ?es = map (\<lambda>(n, p, h). Pktfree p) (fr1 @ fr)" using f 2(11) by simp
  moreover have "events s' = events s @ ?es" using 1(9) 2(9) by simp
  moreover have "delivered_between m m' (ds1 @ ds)" by (rule delivered_between_append [OF 1(8) 2(8)])
  moreover have "same_but a tid s s'" using same_but_trans [OF 1(6) 2(6)] .
  moreover have "mset (ds1 @ ds) + mset (contents (wsize r) m' b') + mset (fr1 @ fr) =
      mset (contents (wsize r) m b) + mset (concat (map arrival (op # ops)))"
    using mset_chain [OF 1(10) 2(12) [unfolded 1(5)]] by simp
  moreover have "ba_run up al a tid (op # ops) s = Some s'" using 1(1) 2(1) by simp
  ultimately show ?case using 2(2-5,7) 1(5)
    by (intro exI [of _ s'] exI [of _ r'] exI [of _ m'] exI [of _ b'] exI [of _ ?es] exI [of _ "ds1 @ ds"] exI [of _ "fr1 @ fr"]) simp
qed
lemma new_resp_win:
  assumes "0 < unat w" "unat w \<le> 64" "unat (drop_bit SEQNUM_SHIFT start) = m mod 4096"
  shows "win_rel (new_resp start w) m (\<lambda>_. None)"
proof -
  have "rxq (new_resp start w) ! (n mod 64) = None" for n
    by (simp add: new_resp_def AMPDU_RX_BA_MAX_WSIZE_def)
  then show ?thesis using assms
    by (simp add: win_rel_def wsize_def) (simp add: new_resp_def AMPDU_RX_BA_MAX_WSIZE_def)
qed

lemma new_resp_patient: "0 < unat (resp_limit a s) \<Longrightarrow> resp_patient a s (new_resp start w)"
  by (simp add: resp_patient_def new_resp_def)

subsection \<open>What the receiver guarantees\<close>

definition is_free :: "ampdu_event \<Rightarrow> bool" where "is_free e \<longleftrightarrow> (\<exists>p. e = Pktfree p)"

lemma is_free_filters:
  "filter is_free es = filter (\<lambda>e. \<exists>p. e = Pktfree p) es" "filter (\<lambda>e. \<not> is_free e) es = filter (\<lambda>e. \<forall>p. e \<noteq> Pktfree p) es"
  by (simp_all add: is_free_def [abs_def])


lemma ba_run_append: "ba_run up al a tid (xs @ ys) s = do { s \<leftarrow> ba_run up al a tid xs s; ba_run up al a tid ys s }"
  by (induction xs arbitrary: s) (auto split: Option.bind_splits)

lemma understood_ticks: "understood up al a tid (replicate k Tick) s m"
  by (induction k arbitrary: s m) (auto split: option.splits)

lemma understood_append: "understood up al a tid ops s m \<Longrightarrow> understood up al a tid (ops @ replicate k Tick) s m"
  by (induction ops arbitrary: s m) (auto simp: understood_ticks split: option.splits)

text \<open>Ticks needed until a responder gives up waiting.\<close>

definition ticks_left :: "nat \<Rightarrow> ampdu_info \<Rightarrow> tid_resp \<Rightarrow> nat" where
  "ticks_left a s r = (if alive r then unat (resp_limit a s) + 1 else unat (resp_limit a s) - unat (dead_cnt r))"

lemma ticks_flush:
  assumes "quiet up" "resp_of s a tid = Some (Some r)" "win_rel r m b" "b m = None" "resp_patient a s r" "0 < unat (resp_limit a s)" "unat (resp_limit a s) < 256"
    "b = (\<lambda>_. None) \<or> ticks_left a s r \<le> k"
  shows "\<exists>s' r' m'. ba_run up al a tid (replicate k Tick) s = Some s' \<and> resp_of s' a tid = Some (Some r') \<and> win_rel r' m' (\<lambda>_. None)"
  using assms(2-8)
proof (induction k arbitrary: s r m b)
  case 0
  have "b = (\<lambda>_. None)" using 0(4,7) by (auto simp: ticks_left_def resp_patient_def split: if_splits)
  then show ?case using 0(1,2) by auto
next
  case (Suc k)
  let ?go = "\<not> alive r \<and> b \<noteq> (\<lambda>_. None) \<and> ucast (dead_cnt r + 1) \<ge> resp_limit a s"
  obtain s1 r1 where st: "resp_tick up a tid s = Some s1" "resp_of s1 a tid = Some (Some r1)" "wsize r1 = wsize r" "same_but a tid s s1"
      "if ?go then \<exists>j > 0. j \<le> 64 \<and> (\<forall>n. m + j \<le> n \<longrightarrow> b n = None) \<and> win_rel r1 (m + j) (\<lambda>_. None) \<and> alive r1 \<and>
         events s1 = events s @ sendups a (inwin b m (m + j))
       else win_rel r1 m b \<and> events s1 = events s \<and> \<not> alive r1 \<and>
         dead_cnt r1 = (if alive r then 0 else if b = (\<lambda>_. None) then dead_cnt r else dead_cnt r + 1)"
    using tick_refines [OF assms(1) Suc.prems(1-3)] by metis
  have lim: "resp_limit a s1 = resp_limit a s" using st(4) resp_limit_core [of a tid s1 s] by (simp add: same_but_def)
  have run: "ba_run up al a tid (replicate (Suc k) Tick) s = ba_run up al a tid (replicate k Tick) s1" using st(1) by simp
  have lim': "0 < unat (resp_limit a s1)" "unat (resp_limit a s1) < 256" using Suc.prems(5,6) lim by simp_all
  show ?case
  proof (cases ?go)
    case True
    then obtain j where "win_rel r1 (m + j) (\<lambda>_. None)" "alive r1" using st(5) by auto
    then show ?thesis unfolding run using Suc.IH [OF st(2) _ refl _ lim', of "m + j"] by (simp add: resp_patient_def)
  next
    case False
    then have st': "win_rel r1 m b" "\<not> alive r1"
        "dead_cnt r1 = (if alive r then 0 else if b = (\<lambda>_. None) then dead_cnt r else dead_cnt r + 1)"
      unfolding if_not_P [OF False] using st(5) by simp_all
    have "resp_patient a s1 r1 \<and> (b = (\<lambda>_. None) \<or> ticks_left a s1 r1 \<le> k)"
    proof (cases "alive r \<or> b = (\<lambda>_. None)")
      case True
      then show ?thesis using st'(2,3) Suc.prems(4,5,7) by (auto simp: resp_patient_def ticks_left_def lim split: if_splits)
    next
      case wait: False
      then have "\<not> ucast (dead_cnt r + 1) \<ge> resp_limit a s" using False by blast
      then have "unat (dead_cnt r + 1) < unat (resp_limit a s)"
        by (simp add: word_le_nat_alt not_le unsigned_ucast_eq take_bit_nat_eq_self unat8_less order.strict_trans [OF unat8_less])
      moreover have "unat (dead_cnt r + 1) = unat (dead_cnt r) + 1"
        using Suc.prems(4,6) wait by (simp add: resp_patient_def unat_word_ariths)
      ultimately show ?thesis using wait st'(2,3) Suc.prems(7) by (simp add: resp_patient_def ticks_left_def lim)
    qed
    then show ?thesis unfolding run using Suc.IH [OF st(2) st'(1) Suc.prems(3) _ lim'] by blast
  qed
qed

text \<open>C13: No frame waits for ever. After whatever has happened in an agreement, once the timer has
  ticked one time more than the limit without anything arriving, the queue is empty: every frame
  that arrived was delivered in order or freed as late or duplicate. The limit must fit the 8 bits
  of the tick counter.\<close>

theorem reorder_gives_up_waiting:
  assumes "quiet up" "resp_of s a tid = Some (Some (new_resp start w))" "0 < unat w" "unat w \<le> 64"
    "unat (drop_bit SEQNUM_SHIFT start) = m mod 4096" "understood up al a tid ops s m"
    "0 < unat (resp_limit a s)" "unat (resp_limit a s) < 256"
  shows "\<exists>s' r' es ds fr. ba_run up al a tid (ops @ replicate (unat (resp_limit a s) + 1) Tick) s = Some s' \<and>
    resp_of s' a tid = Some (Some r') \<and> queue r' = [] \<and>
    events s' = events s @ es \<and> filter (\<lambda>e. \<not> is_free e) es = sendups a ds \<and> sorted_wrt (<) (map fst ds) \<and>
    filter is_free es = map (\<lambda>(n, p, h). Pktfree p) fr \<and> mset (concat (map arrival ops)) = mset ds + mset fr"
proof -
  note win = new_resp_win [OF assms(3-5)]
  let ?ticks = "replicate (unat (resp_limit a s) + 1) Tick"
  let ?w = "wsize (new_resp start w)"
  obtain s1 r1 m1 b1 where 1: "ba_run up al a tid ops s = Some s1" "resp_of s1 a tid = Some (Some r1)" "win_rel r1 m1 b1" "b1 m1 = None"
      "same_but a tid s s1" "resp_patient a s1 r1"
    using ba_run_window [OF assms(1,2) win refl assms(6) new_resp_patient [OF assms(7)] assms(7)] by (elim exE conjE) (rule that)
  have lim: "resp_limit a s1 = resp_limit a s" using 1(5) resp_limit_core [of a tid s1 s] by (simp add: same_but_def)
  have "ticks_left a s1 r1 \<le> unat (resp_limit a s) + 1"
    unfolding ticks_left_def lim by (cases "alive r1"; simp only: if_True if_False; linarith)
  from ticks_flush [OF assms(1) 1(2,3,4,6) _ _ disjI2 [OF this], of al] assms(7,8) obtain s2 r2 m2 where
    2: "ba_run up al a tid ?ticks s1 = Some s2" "resp_of s2 a tid = Some (Some r2)" "win_rel r2 m2 (\<lambda>_. None)"
    unfolding lim by blast
  have run: "ba_run up al a tid (ops @ ?ticks) s = Some s2" using 1(1) 2(1) by (simp only: ba_run_append bind.bind_lunit)
  have "understood up al a tid (ops @ ?ticks) s m" by (rule understood_append [OF assms(6)])
  from ba_run_window [OF assms(1,2) win refl this new_resp_patient [OF assms(7)] assms(7)]
  obtain s3 r' m' b' es ds fr where
    3: "ba_run up al a tid (ops @ ?ticks) s = Some s3" "resp_of s3 a tid = Some (Some r')" "win_rel r' m' b'" "b' m' = None"
    "wsize r' = ?w" "same_but a tid s s3" "resp_patient a s3 r'" "delivered_between m m' ds"
    "events s3 = events s @ es" "filter (\<lambda>e. \<forall>p. e \<noteq> Pktfree p) es = sendups a ds"
    "filter (\<lambda>e. \<exists>p. e = Pktfree p) es = map (\<lambda>(n, p, h). Pktfree p) fr"
    "mset ds + mset (contents ?w m' b') + mset fr = mset (contents ?w m (\<lambda>_. None)) + mset (concat (map arrival (ops @ ?ticks)))"
    by (elim exE conjE) (rule that)
  have s3: "s3 = s2" using 3(1) run by simp
  have r: "r' = r2" using 3(2) 2(2) s3 by simp
  have "contents (wsize r2) m2 (\<lambda>_. None) = []" by (rule inwin_None) simp
  then have q: "queue r2 = []" using queue_contents [OF 2(3)] by simp
  then have "contents ?w m' b' = []" using queue_contents [OF 3(3)] by (simp flip: 3(5) add: r)
  moreover have "contents ?w m (\<lambda>_. None) = []" by (rule inwin_None) simp
  moreover have "concat (map arrival ?ticks) = []" by (simp del: replicate.simps)
  ultimately have "mset (concat (map arrival ops)) = mset ds + mset fr" using 3(12) by simp
  moreover have "sorted_wrt (<) (map fst ds)" using 3(8) by (simp add: delivered_between_def)
  ultimately show ?thesis using run 2(2) q 3(9-11) s3 unfolding is_free_filters
    by (intro exI [of _ s2] exI [of _ r2] exI [of _ es] exI [of _ ds] exI [of _ fr]) simp
qed

subsection \<open>An example\<close>

definition demo_scb :: scb_ampdu where
  "demo_scb = \<lparr>scb_ampducap = True, scb_htcap = True, scb_brcm = False, scb_bss = True, scb_assoc = True,
     resp = (\<lambda>_. None)(5 := Some (new_resp 0 64)),
     resp_off = (\<lambda>_. \<lparr>ampdu_recd = False, ampdu_cnt = 0\<rparr>), ini = (\<lambda>_. None), txq = (\<lambda>_. []),
     scb_release = 32, seqnum = (\<lambda>_. 0), scb_qi = 0\<rparr>"

definition demo :: ampdu_info where
  "demo = \<lparr>scbs = (\<lambda>_. None)(7 := Some demo_scb), scb_list = [7], rxaggr = True, ampdu_enab = True, rxba_enable = (\<lambda>_. True),
     ba_policy = 1, ba_rx_wsize = 64, delba_timeout = 0, resp_timeout_b = 1000, resp_timeout_nb = 200, resp_cnt = 1,
     resp_timer = True, block_datafifo = False, txaggr = True, manual_mode = False, no_bar = False,
     ini_enable = (\<lambda>_. True), ba_tx_wsize = 64, retry_limit_tid = (\<lambda>_. 5), rr_retry_limit_tid = (\<lambda>_. 2), probe_mpdu = 2,
     tx_rel_lowat = 1, ini_free = replicate 10 None, ini_free_index = 0, flow_stopped = (\<lambda>_. False), datahiwat = 255, cnt = zero_cnt, events = []\<rparr>"

definition demo_frame :: "uint16 \<Rightarrow> wlc_frminfo" where
  "demo_frame n = \<lparr>fi_p = \<lparr>pk_addr = unat n, pk_seq = push_bit 4 n\<rparr>, fi_wrxh = 0, fi_subtype = 8, fi_prio = 5,
     fi_plcp = [0, 0, 0, 0, 0, 0], PhyRxStatus_0 = 0\<rparr>"

lemmas demo_defs = demo_def demo_scb_def demo_frame_def new_resp_def

definition demo_up :: upper where "demo_up = (\<lambda>a p h s. s)"

lemma demo_facts:
  "quiet demo_up" "resp_of demo 7 5 = Some (Some (new_resp 0 64))" "0 < unat (64 :: uint8)" "unat (64 :: uint8) \<le> 64"
  "unat (drop_bit SEQNUM_SHIFT (0 :: uint16)) = 0 mod 4096" "resp_limit 7 demo = 2"
  by (simp_all add: demo_up_def quiet_def demo_def demo_scb_def resp_of_def resp_limit_def AMPDU_RESP_TIMEOUT_def)

lemma understood_last: "(case x of None \<Rightarrow> True | Some s' \<Rightarrow> understood up al a tid [] s' (f s')) = True"
  by (simp split: option.split)

lemma demo_understood:
  "understood demo_up \<lparr>ok_resp = True, ok_frame = True\<rparr> 7 5 [Data 1 (demo_frame 1), Tick, Data 0 (demo_frame 0)] demo 0"
  unfolding understood.simps(2) understood_last
  by (simp add: demo_defs data_frame_def in_sync_def FC_SUBTYPE_QOS_DATA_def FRAGNUM_MASK_def pkt_h_seqnum_def SEQNUM_SHIFT_def
      wlc_ampdu_recvdata_def recv_in_agreement_def resp_of_def AMPDU_RX_BA_MAX_WSIZE_def RX_SEQ_TO_INDEX_def MODSUB_SEQ_def
      count_rx_def ft_pren_def WLCNTINCR_def set_resp_def upd_scb_def enqueue_def moved_def resp_tick_def AMPDU_RESP_TIMEOUT_def Let_def word_le_nat_alt)


lemma reorder_gives_up_waiting_witness:
  "\<exists>s' r' es ds fr. ba_run demo_up \<lparr>ok_resp = True, ok_frame = True\<rparr> 7 5
      ([Data 1 (demo_frame 1), Tick, Data 0 (demo_frame 0)] @ replicate (unat (resp_limit 7 demo) + 1) Tick) demo = Some s' \<and>
    resp_of s' 7 5 = Some (Some r') \<and> queue r' = [] \<and>
    events s' = events demo @ es \<and> filter (\<lambda>e. \<not> is_free e) es = sendups 7 ds \<and> sorted_wrt (<) (map fst ds) \<and>
    filter is_free es = map (\<lambda>(n, p, h). Pktfree p) fr \<and>
    mset (concat (map arrival [Data 1 (demo_frame 1), Tick, Data 0 (demo_frame 0)])) = mset ds + mset fr"
  by (rule reorder_gives_up_waiting [OF demo_facts(1-5) demo_understood]) (simp_all add: demo_facts(6))

end
