(* ===== verification/AmpduAgree.thy ===== *)
theory AmpduAgree
  imports AmpduRx
begin

text \<open>
  The agreements of all stations, \<^verbatim>\<open>wl/sys/wlc_ampdu.c\<close>: the invariant of the receiver's state and
  that every entry point of the module keeps it and returns, whatever sequence numbers arrive; the
  window an agreement is set up with; and what happens when the upper layers free a station while
  its frames are delivered.
\<close>

definition MAXSCB :: nat where "MAXSCB = 64"

text \<open>An agreement's queue is a window. The true number of the window is at least 4096, so that
  every number on the air has a true number within half the number space.\<close>

definition resp_ok :: "tid_resp \<Rightarrow> bool" where
  "resp_ok r \<longleftrightarrow> (\<exists>m b. 4096 \<le> m \<and> win_rel r m b \<and> b m = None)"

definition agreements :: "ampdu_info \<Rightarrow> (nat \<times> nat) set" where
  "agreements s = {(a, tid). \<exists>r. resp_of s a tid = Some (Some r)}"

definition stations :: "ampdu_info \<Rightarrow> nat set" where "stations s = {a. \<exists>x. resp_of s a 0 = Some x}"

definition ampdu_ok :: "ampdu_info \<Rightarrow> bool" where
  "ampdu_ok s \<longleftrightarrow>
     distinct (scb_list s) \<and> set (scb_list s) = stations s \<and> length (scb_list s) \<le> MAXSCB \<and>
     (\<forall>a tid r. resp_of s a tid = Some (Some r) \<longrightarrow> tid < AMPDU_MAX_SCB_TID \<and> resp_ok r) \<and>
     resp_cnt s = of_nat (card (agreements s)) \<and> (resp_timer s \<longleftrightarrow> agreements s \<noteq> {}) \<and>
     0 < unat (ba_rx_wsize s) \<and> unat (ba_rx_wsize s) \<le> 64"

lemma ampdu_okD:
  assumes "ampdu_ok s"
  shows "distinct (scb_list s)" "set (scb_list s) = stations s" "length (scb_list s) \<le> MAXSCB"
    "resp_of s a tid = Some (Some r) \<Longrightarrow> tid < AMPDU_MAX_SCB_TID" "resp_of s a tid = Some (Some r) \<Longrightarrow> resp_ok r"
    "resp_cnt s = of_nat (card (agreements s))" "resp_timer s \<longleftrightarrow> agreements s \<noteq> {}"
    "0 < unat (ba_rx_wsize s)" "unat (ba_rx_wsize s) \<le> 64"
  using assms unfolding ampdu_ok_def by blast+

lemma stations_scbs: "stations s = {a. scbs s a \<noteq> None}"
  by (auto simp: stations_def resp_of_def)

subsection \<open>What the steps leave alone\<close>

lemma resp_of_core: "(a', tid') \<noteq> (a, tid) \<Longrightarrow> resp_of (core a tid s) a' tid' = resp_of s a' tid'"
  by (auto simp: resp_of_def core_def upd_scb_def option.map_comp o_def)

lemma core_fields:
  "scb_list (core a tid s) = scb_list s" "resp_cnt (core a tid s) = resp_cnt s" "resp_timer (core a tid s) = resp_timer s"
  "ba_rx_wsize (core a tid s) = ba_rx_wsize s"
  by (simp_all add: core_def upd_scb_def)

lemma same_but_resp_of: "same_but a tid s s' \<Longrightarrow> (a', tid') \<noteq> (a, tid) \<Longrightarrow> resp_of s' a' tid' = resp_of s a' tid'"
  using resp_of_core [of a' tid' a tid s] resp_of_core [of a' tid' a tid s'] by (simp add: same_but_def)

lemma same_but_fields:
  assumes "same_but a tid s s'"
  shows "scb_list s' = scb_list s" "resp_cnt s' = resp_cnt s" "resp_timer s' = resp_timer s" "ba_rx_wsize s' = ba_rx_wsize s"
  using assms core_fields [of a tid s] core_fields [of a tid s'] unfolding same_but_def by simp_all

lemma stations_any: "a \<in> stations s \<longleftrightarrow> (\<exists>x. resp_of s a tid = Some x)"
  by (auto simp: stations_def resp_of_def)

lemma resp_of_station: "resp_of s a tid = Some x \<Longrightarrow> a \<in> stations s"
  using stations_any by blast

lemma same_but_stations: "same_but a tid s s' \<Longrightarrow> stations s' = stations s"
proof -
  assume "same_but a tid s s'"
  then have "core a tid s' = core a tid s" by (simp add: same_but_def)
  moreover have "stations (core a tid x) = stations x" for x
    by (auto simp: stations_scbs core_def upd_scb_def)
  ultimately show ?thesis by metis
qed

text \<open>A step that changes the responder of one agreement, and counters and events.\<close>

lemma ok_same_but:
  assumes "ampdu_ok s" "same_but a tid s s'" "resp_of s a tid = Some (Some r)" "resp_of s' a tid = Some (Some r')" "resp_ok r'"
  shows "ampdu_ok s'"
proof -
  note other = same_but_resp_of [OF assms(2)]
  have ag: "agreements s' = agreements s"
  proof -
    have "(\<exists>x. resp_of s' a' t = Some (Some x)) \<longleftrightarrow> (\<exists>x. resp_of s a' t = Some (Some x))" for a' t
      using other [of a' t] assms(3,4) by (cases "(a', t) = (a, tid)") auto
    then show ?thesis by (simp add: agreements_def)
  qed
  have "t < AMPDU_MAX_SCB_TID \<and> resp_ok x" if "resp_of s' a' t = Some (Some x)" for a' t x
  proof (cases "(a', t) = (a, tid)")
    case True
    then show ?thesis using that assms(4,5) ampdu_okD(4) [OF assms(1,3)] by simp
  next
    case False
    then have "resp_of s a' t = Some (Some x)" using other [OF False] that by simp
    then show ?thesis using ampdu_okD(4,5) [OF assms(1)] by blast
  qed
  then show ?thesis using assms(1) unfolding ampdu_ok_def same_but_fields [OF assms(2)] same_but_stations [OF assms(2)] ag by blast
qed

text \<open>A step that changes no responder.\<close>

lemma ok_cong:
  assumes "ampdu_ok s" "resp_of s' = resp_of s" "scb_list s' = scb_list s" "resp_cnt s' = resp_cnt s" "resp_timer s' = resp_timer s"
    "ba_rx_wsize s' = ba_rx_wsize s"
  shows "ampdu_ok s'"
  using assms unfolding ampdu_ok_def stations_def agreements_def by simp

lemma ok_emit [simp]: "ampdu_ok s \<Longrightarrow> ampdu_ok (emit e s)"
  by (rule ok_cong) (simp_all add: emit_def resp_of_def fun_eq_iff)

lemma ok_cnt [simp]: "ampdu_ok s \<Longrightarrow> ampdu_ok (WLCNTINCR u s)"
  by (rule ok_cong) (simp_all add: WLCNTINCR_def resp_of_def fun_eq_iff)

lemma ok_recd [simp]: "ampdu_ok s \<Longrightarrow> ampdu_ok (set_ampdu_recd a tid s)"
  by (rule ok_cong) (simp_all add: set_ampdu_recd_def upd_scb_def resp_of_def fun_eq_iff option.map_comp o_def)

lemma ok_count_rx [simp]: "ampdu_ok s \<Longrightarrow> ampdu_ok (count_rx f s)"
  by (simp add: count_rx_def Let_def)

subsection \<open>Every number is understood\<close>

lemma in_sync_exists:
  assumes "4096 \<le> m" "q < 4096"
  shows "\<exists>n. in_sync m n \<and> n mod 4096 = q"
proof -
  define k e where "k = m div 4096" and "e = m mod 4096"
  have m: "m = 4096 * k + e" "e < 4096" "1 \<le> k" using assms(1) by (simp_all add: k_def e_def)
  consider "e \<le> q" "q - e \<le> 2048" | "e \<le> q" "2048 < q - e" | "q < e" "e - q \<le> 2047" | "q < e" "2047 < e - q" by linarith
  then have "\<exists>j. j \<le> k + 1 \<and> in_sync m (4096 * j + q)"
  proof cases
    case 1 then show ?thesis using m by (intro exI [of _ k]) (simp add: in_sync_def)
  next
    case 2
    obtain i where i: "k = i + 1" using m(3) by (metis le_add_diff_inverse2)
    show ?thesis using 2 m assms(2) unfolding i by (intro exI [of _ i]) (simp add: in_sync_def)
  next
    case 3 then show ?thesis using m by (intro exI [of _ k]) (simp add: in_sync_def)
  next
    case 4 then show ?thesis using m by (intro exI [of _ "k + 1"]) (simp add: in_sync_def)
  qed
  then obtain j where "in_sync m (4096 * j + q)" by blast
  then show ?thesis using assms(2) by (intro exI [of _ "4096 * j + q"]) simp
qed

lemma resp_okE:
  assumes "resp_ok r" "q < 4096"
  obtains m b n where "4096 \<le> m" "win_rel r m b" "b m = None" "in_sync m n" "q = n mod 4096"
  using assms in_sync_exists unfolding resp_ok_def by metis

lemma seq_bound: "unat (drop_bit SEQNUM_SHIFT (x :: uint16)) < 4096"
  using unsigned_less [of x, where 'a=nat] unfolding SEQNUM_SHIFT_def unat_drop_bit_eq
  by (simp add: drop_bit_eq_div)

subsection \<open>Every step keeps the invariant\<close>

lemma ok_steps_to:
  assumes "ampdu_ok s" "resp_of s a tid = Some (Some r)" "steps_to a tid r s res (m', b') es" "4096 \<le> m'"
  shows "\<exists>s'. res = Some s' \<and> ampdu_ok s'"
proof -
  obtain s' r' where "res = Some s'" "resp_of s' a tid = Some (Some r')" "win_rel r' m' b'" "b' m' = None" "same_but a tid s s'"
    using assms(3) by (auto simp: steps_to_def)
  then show ?thesis using ok_same_but [OF assms(1) _ assms(2)] assms(4) unfolding resp_ok_def by blast
qed

lemma ok_data:
  assumes "quiet up" "ampdu_ok s" "resp_of s a tid = Some (Some r)" "fi_subtype f = FC_SUBTYPE_QOS_DATA" "unat (fi_prio f) = tid"
    "pk_seq (fi_p f) AND FRAGNUM_MASK = 0"
  shows "\<exists>s'. wlc_ampdu_recvdata up al a f s = Some s' \<and> ampdu_ok s'"
proof -
  obtain m b n where w: "4096 \<le> m" "win_rel r m b" "b m = None" "in_sync m n" "unat (pkt_h_seqnum (fi_p f)) = n mod 4096"
    using resp_okE [OF ampdu_okD(5) [OF assms(2,3)] seq_bound] unfolding pkt_h_seqnum_def by blast
  obtain m' b' ds t where win: "win_recv (wsize r) n (fi_p f, fi_wrxh f) (m, b) = ((m', b'), ds, t)" by (metis surj_pair)
  have "data_frame tid n f" using assms(4-6) w(5) by (simp add: data_frame_def)
  from recvdata_refines [OF assms(1,3) w(2-4) this, of al]
  have st: "steps_to a tid r s (wlc_ampdu_recvdata up al a f s) (m', b') (sendups a ds @ (if t then [] else [Pktfree (fi_p f)]))"
    by (simp add: win)
  have "m \<le> m'" using win_recv_props(1) [OF win_rel_ok [OF w(2,3)] win] by (simp add: delivered_between_def)
  then show ?thesis using ok_steps_to [OF assms(2,3) st] w(1) by simp
qed

lemma ok_bar:
  assumes "quiet up" "ampdu_ok s" "a \<in> stations s"
  shows "\<exists>s'. wlc_ampdu_recv_bar up a body s = Some s' \<and> ampdu_ok s'"
proof -
  let ?tmp = "body16 body 0"
  let ?tid = "unat (drop_bit 12 (?tmp AND 0xF000))"
  obtain x where x: "resp_of s a ?tid = Some x" using assms(3) stations_any by blast
  consider "?tid \<ge> AMPDU_MAX_SCB_TID \<or> ?tmp AND 0x2 \<noteq> 0" | "x = None" | r where "x = Some r" "?tid < AMPDU_MAX_SCB_TID" "?tmp AND 0x2 = 0"
    by (cases x) force+
  then show ?thesis
  proof cases
    case 1 then show ?thesis using assms(2) by (auto simp: wlc_ampdu_recv_bar_def Let_def)
  next
    case 2 then show ?thesis using x assms(2) by (simp add: wlc_ampdu_recv_bar_def Let_def)
  next
    case (3 r)
    then have r: "resp_of s a ?tid = Some (Some r)" using x by simp
    obtain m b n where w: "4096 \<le> m" "win_rel r m b" "b m = None" "in_sync m n" "unat (drop_bit SEQNUM_SHIFT (body16 body 2)) = n mod 4096"
      using resp_okE [OF ampdu_okD(5) [OF assms(2) r] seq_bound] by blast
    obtain m' b' ds where win: "win_bar (wsize r) n (m, b) = ((m', b'), ds)" by (metis surj_pair)
    have "bar_frame ?tid n body" using 3 w(5) by (simp add: bar_frame_def)
    from recv_bar_refines [OF assms(1) r w(2-4) this]
    have st: "steps_to a ?tid r s (wlc_ampdu_recv_bar up a body s) (m', b') (sendups a ds)" by (simp add: win)
    have "m \<le> m'" using win_bar_props(1) [OF win_rel_ok [OF w(2,3)] win] by (simp add: delivered_between_def)
    then show ?thesis using ok_steps_to [OF assms(2) r st] w(1) by simp
  qed
qed

lemma ok_tick:
  assumes "quiet up" "ampdu_ok s" "a \<in> stations s"
  shows "\<exists>s'. resp_tick up a tid s = Some s' \<and> ampdu_ok s' \<and> scb_list s' = scb_list s \<and> stations s' = stations s"
proof -
  obtain x where x: "resp_of s a tid = Some x" using assms(3) stations_any by blast
  show ?thesis
  proof (cases x)
    case None
    then show ?thesis using x assms(2) by (auto simp: resp_tick_def resp_of_def)
  next
    case (Some r)
    then have r: "resp_of s a tid = Some (Some r)" using x by simp
    obtain m b where w: "4096 \<le> m" "win_rel r m b" "b m = None" using ampdu_okD(5) [OF assms(2) r] by (auto simp: resp_ok_def)
    let ?go = "\<not> alive r \<and> b \<noteq> (\<lambda>_. None) \<and> ucast (dead_cnt r + 1) \<ge> resp_limit a s"
    obtain s' r' where s': "resp_tick up a tid s = Some s'" "resp_of s' a tid = Some (Some r')" "same_but a tid s s'"
      "if ?go then \<exists>j > 0. j \<le> 64 \<and> (\<forall>n. m + j \<le> n \<longrightarrow> b n = None) \<and> win_rel r' (m + j) (\<lambda>_. None) \<and> alive r' \<and>
         events s' = events s @ sendups a (inwin b m (m + j))
       else win_rel r' m b \<and> events s' = events s \<and> \<not> alive r' \<and>
         dead_cnt r' = (if alive r then 0 else if b = (\<lambda>_. None) then dead_cnt r else dead_cnt r + 1)"
      using tick_refines [OF assms(1) r w(2,3)] by (elim exE conjE) (rule that)
    have "resp_ok r'"
    proof (cases ?go)
      case True
      then obtain j where "win_rel r' (m + j) (\<lambda>_. None)" using s'(4) unfolding if_P [OF True] by blast
      then show ?thesis unfolding resp_ok_def using w(1) by (intro exI [of _ "m + j"] exI [of _ "\<lambda>_. None"]) simp
    next
      case False
      then have "win_rel r' m b" using s'(4) unfolding if_not_P [OF False] by blast
      then show ?thesis using w unfolding resp_ok_def by blast
    qed
    from ok_same_but [OF assms(2) s'(3) r s'(2) this] same_but_fields(1) [OF s'(3)] same_but_stations [OF s'(3)]
    show ?thesis using s'(1) by blast
  qed
qed

lemma card_agreements:
  assumes "ampdu_ok s"
  shows "finite (agreements s)" "card (agreements s) \<le> 512"
proof -
  have sub: "agreements s \<subseteq> set (scb_list s) \<times> {..<8}"
    using ampdu_okD(4) [OF assms] unfolding ampdu_okD(2) [OF assms] agreements_def
    by (auto intro: resp_of_station simp: AMPDU_MAX_SCB_TID_def)
  have fin: "finite (set (scb_list s) \<times> {..<8 :: nat})" by simp
  show "finite (agreements s)" by (rule finite_subset [OF sub fin])
  have "card (agreements s) \<le> card (set (scb_list s) \<times> {..<8 :: nat})" by (rule card_mono [OF fin sub])
  also have "\<dots> \<le> 64 * 8"
    using ampdu_okD(1,3) [OF assms] by (simp add: card_cartesian_product distinct_card MAXSCB_def)
  finally show "card (agreements s) \<le> 512" by simp
qed

text \<open>Whether the counter is 0 tells whether there is an agreement.\<close>

lemma of_nat_card_0: "n \<le> 512 \<Longrightarrow> (of_nat n :: uint16) = 0 \<longleftrightarrow> n = 0"
  by (simp add: word_unat_eq_iff unsigned_of_nat take_bit_nat_eq_self)

lemma set_resp_resp_of: "a \<in> stations s \<Longrightarrow> resp_of (set_resp a tid x s) a' t = (if (a', t) = (a, tid) then Some x else resp_of s a' t)"
  by (auto simp: resp_of_def set_resp_def upd_scb_def stations_scbs)

lemma set_resp_fields [simp]:
  "scb_list (set_resp a tid x s) = scb_list s" "resp_cnt (set_resp a tid x s) = resp_cnt s" "resp_timer (set_resp a tid x s) = resp_timer s"
  "ba_rx_wsize (set_resp a tid x s) = ba_rx_wsize s" "stations (set_resp a tid x s) = stations s"
  by (auto simp: set_resp_def upd_scb_def stations_scbs)

text \<open>Ending an agreement delivers what waits and counts it off.\<close>

lemma cleanup_refines:
  assumes "quiet up" "resp_of s a tid = Some (Some r)" "win_rel r m b"
  shows "\<exists>s1. ampdu_cleanup_tid_resp up a tid s =
      Some ((set_resp a tid None s1)\<lparr>resp_cnt := resp_cnt s - 1, resp_timer := resp_timer s \<and> resp_cnt s \<noteq> 1\<rparr>) \<and>
    same_but a tid s s1 \<and> events s1 = events s @ sendups a (contents (wsize r) m b)"
proof -
  obtain s1 r1 where s1: "release_n_loop up a tid 64 s = Some s1" "resp_of s1 a tid = Some (Some r1)" "same_but a tid s s1"
      "events s1 = events s @ sendups a (inwin b m (m + 64))"
    using release_n_refines [OF assms, of 64] by blast
  have "inwin b m (m + 64) = contents (wsize r) m b"
  proof -
    have "inwin b (m + wsize r) (m + 64) = []" by (rule inwin_None) (use win_relD(7) [OF assms(3)] in \<open>meson not_le\<close>)
    then show ?thesis using inwin_append [of m "m + wsize r" "m + 64" b] win_relD(4) [OF assms(3)] by simp
  qed
  moreover have "resp_cnt s - 1 = 0 \<longleftrightarrow> resp_cnt s = 1" by simp
  ultimately show ?thesis
    using s1 same_but_fields(2,3) [OF s1(3)] assms(2)
    by (intro exI [of _ s1])
      (auto simp: ampdu_cleanup_tid_resp_def Let_def AMPDU_RX_BA_MAX_WSIZE_def release_n_ordered_loop set_resp_def upd_scb_def)
qed

lemma ok_cleanup:
  assumes "quiet up" "ampdu_ok s" "a \<in> stations s"
  shows "\<exists>s'. ampdu_cleanup_tid_resp up a tid s = Some s' \<and> ampdu_ok s' \<and> resp_of s' a tid = Some None \<and>
    stations s' = stations s"
proof -
  obtain x where x: "resp_of s a tid = Some x" using assms(3) stations_any by blast
  show ?thesis
  proof (cases x)
    case None
    then show ?thesis using x assms(2) by (simp add: ampdu_cleanup_tid_resp_def)
  next
    case (Some r)
    then have r: "resp_of s a tid = Some (Some r)" using x by simp
    obtain m b where w: "win_rel r m b" using ampdu_okD(5) [OF assms(2) r] by (auto simp: resp_ok_def)
    obtain s1 where s1: "ampdu_cleanup_tid_resp up a tid s =
        Some ((set_resp a tid None s1)\<lparr>resp_cnt := resp_cnt s - 1, resp_timer := resp_timer s \<and> resp_cnt s \<noteq> 1\<rparr>)"
        "same_but a tid s s1"
      using cleanup_refines [OF assms(1) r w] by blast
    let ?s' = "(set_resp a tid None s1)\<lparr>resp_cnt := resp_cnt s - 1, resp_timer := resp_timer s \<and> resp_cnt s \<noteq> 1\<rparr>"
    have a1: "a \<in> stations s1" using assms(3) same_but_stations [OF s1(2)] by simp
    have resp: "resp_of ?s' a' t = (if (a', t) = (a, tid) then Some None else resp_of s a' t)" for a' t
      using set_resp_resp_of [OF a1, of tid None a' t] same_but_resp_of [OF s1(2), of a' t] by (simp add: resp_of_def)
    have st: "stations ?s' = stations s" using same_but_stations [OF s1(2)] by (simp add: stations_scbs set_resp_def upd_scb_def) auto
    have ag: "agreements ?s' = agreements s - {(a, tid)}" by (auto simp: agreements_def resp split: if_splits)
    have mem: "(a, tid) \<in> agreements s" using r by (simp add: agreements_def)
    note fin = card_agreements [OF assms(2)]
    define n where "n = card (agreements s - {(a, tid)})"
    have n: "card (agreements s) = Suc n" unfolding n_def using card_Suc_Diff1 [OF fin(1) mem] by simp
    then have n512: "n \<le> 512" using fin(2) by simp
    have cnt: "resp_cnt s = of_nat (Suc n)" using ampdu_okD(6) [OF assms(2)] n by simp
    have "resp_cnt s \<noteq> 1 \<longleftrightarrow> n \<noteq> 0" unfolding cnt using of_nat_card_0 [OF n512] by simp
    moreover have "n \<noteq> 0 \<longleftrightarrow> agreements s - {(a, tid)} \<noteq> {}" unfolding n_def using fin(1) by simp
    ultimately have timer: "resp_timer ?s' \<longleftrightarrow> agreements ?s' \<noteq> {}" using ampdu_okD(7) [OF assms(2)] mem unfolding ag by auto
    have cnt': "resp_cnt ?s' = of_nat (card (agreements ?s'))" unfolding ag n_def [symmetric] using cnt by simp
    have all: "t < AMPDU_MAX_SCB_TID \<and> resp_ok y" if "resp_of ?s' a' t = Some (Some y)" for a' t y
      using that ampdu_okD(4,5) [OF assms(2), of a' t y] unfolding resp by (auto split: if_splits)
    have "ampdu_ok ?s'" unfolding ampdu_ok_def using cnt' timer all st ampdu_okD(1-3,8,9) [OF assms(2)] same_but_fields(1,4) [OF s1(2)]
      by simp
    moreover have "resp_of ?s' a tid = Some None" unfolding resp by simp
    ultimately show ?thesis using s1(1) st by blast
  qed
qed

text \<open>Starting an agreement where none is.\<close>

lemma accept_wsize_bounds:
  assumes "0 < unat ours"
  shows "0 < unat (accept_wsize param_set ours)" "unat (accept_wsize param_set ours) \<le> unat ours"
  using assms by (simp_all add: accept_wsize_def Let_def min_def word_le_nat_alt word_gt_0 unat_gt_0)

lemma ok_start:
  assumes "ampdu_ok s" "resp_of s a tid = Some None" "tid < AMPDU_MAX_SCB_TID"
  assumes s1: "s1 = set_resp a tid (Some (new_resp start (accept_wsize param_set (ba_rx_wsize s)))) s"
  shows "ampdu_ok (s1\<lparr>resp_cnt := resp_cnt s + 1, resp_timer := resp_timer s \<or> resp_cnt s = 0\<rparr>)"
proof -
  let ?r = "new_resp start (accept_wsize param_set (ba_rx_wsize s))"
  let ?s' = "s1\<lparr>resp_cnt := resp_cnt s + 1, resp_timer := resp_timer s \<or> resp_cnt s = 0\<rparr>"
  have st: "a \<in> stations s" by (rule resp_of_station [OF assms(2)])
  have resp: "resp_of ?s' a' t = (if (a', t) = (a, tid) then Some (Some ?r) else resp_of s a' t)" for a' t
    using set_resp_resp_of [OF st, of tid "Some ?r" a' t] by (simp add: resp_of_def s1)
  have sts: "stations ?s' = stations s" using st by (auto simp: stations_scbs s1 set_resp_def upd_scb_def)
  have ag: "agreements ?s' = insert (a, tid) (agreements s)" by (auto simp: agreements_def resp)
  have new: "(a, tid) \<notin> agreements s" using assms(2) by (simp add: agreements_def)
  note fin = card_agreements [OF assms(1)]
  have cnt: "resp_cnt ?s' = of_nat (card (agreements ?s'))" unfolding ag using new fin(1) ampdu_okD(6) [OF assms(1)] by simp
  have "resp_cnt s = 0 \<longleftrightarrow> agreements s = {}" using of_nat_card_0 [OF fin(2)] fin(1) ampdu_okD(6) [OF assms(1)] by simp
  then have timer: "resp_timer ?s' \<longleftrightarrow> agreements ?s' \<noteq> {}" unfolding ag using ampdu_okD(7) [OF assms(1)] by auto
  note b = accept_wsize_bounds [OF ampdu_okD(8) [OF assms(1)], of param_set]
  have "unat (drop_bit SEQNUM_SHIFT start) = (4096 + unat (drop_bit SEQNUM_SHIFT start)) mod 4096"
    using seq_bound [of start] by simp
  from new_resp_win [OF b(1) order.trans [OF b(2) ampdu_okD(9) [OF assms(1)]] this]
  have "resp_ok ?r" unfolding resp_ok_def
    by (intro exI [of _ "4096 + unat (drop_bit SEQNUM_SHIFT start)"] exI [of _ "\<lambda>_. None"]) simp
  then have all: "t < AMPDU_MAX_SCB_TID \<and> resp_ok y" if "resp_of ?s' a' t = Some (Some y)" for a' t y
    using that ampdu_okD(4,5) [OF assms(1), of a' t y] assms(3) unfolding resp by (auto split: if_splits)
  show ?thesis unfolding ampdu_ok_def using cnt timer all sts ampdu_okD(1-3,8,9) [OF assms(1)] by (simp add: s1)
qed

lemma send_addba_resp_fields [simp]:
  "resp_of (wlc_send_addba_resp al a st tok tm ps s) = resp_of s" "scb_list (wlc_send_addba_resp al a st tok tm ps s) = scb_list s"
  "resp_cnt (wlc_send_addba_resp al a st tok tm ps s) = resp_cnt s" "resp_timer (wlc_send_addba_resp al a st tok tm ps s) = resp_timer s"
  "ba_rx_wsize (wlc_send_addba_resp al a st tok tm ps s) = ba_rx_wsize s"
  by (simp_all add: wlc_send_addba_resp_def emit_def resp_of_def fun_eq_iff)

lemma cnt_fields [simp]:
  "scb_list (WLCNTINCR u s) = scb_list s" "resp_cnt (WLCNTINCR u s) = resp_cnt s" "resp_timer (WLCNTINCR u s) = resp_timer s"
  "ba_rx_wsize (WLCNTINCR u s) = ba_rx_wsize s" "stations (WLCNTINCR u s) = stations s" "scbs (WLCNTINCR u s) = scbs s"
  by (simp_all add: WLCNTINCR_def stations_scbs)

lemma ok_send [simp]:
  "ampdu_ok s \<Longrightarrow> ampdu_ok (wlc_send_addba_resp al a st tok tm ps s)" "ampdu_ok s \<Longrightarrow> ampdu_ok (wlc_send_delba al a tid i reason s)"
  by (simp_all add: wlc_send_addba_resp_def wlc_send_delba_def)

lemma stations_simps [simp]:
  "stations (emit e s) = stations s" "stations (set_ampdu_recd a tid s) = stations s" "stations (count_rx f s) = stations s"
  by (auto simp: stations_scbs emit_def set_ampdu_recd_def upd_scb_def count_rx_def Let_def WLCNTINCR_def)

lemma ok_state_off: "ampdu_ok s \<Longrightarrow> ampdu_ok (ampdu_ba_state_off a tid s)"
proof -
  have fold: "ampdu_ok s \<Longrightarrow> ampdu_ok (fold (\<lambda>p. emit (Txnext a p)) ps s)" for ps s by (induction ps arbitrary: s) simp_all
  assume "ampdu_ok s"
  then have "ampdu_ok (upd_scb a (\<lambda>c. c\<lparr>ini := (ini c)(tid := map_option (ini_state_update (\<lambda>_. BA_OFF)) (ini c tid)),
                              txq := (txq c)(tid := [])\<rparr>) s)"
    by (rule ok_cong) (simp_all add: upd_scb_def resp_of_def fun_eq_iff option.map_comp o_def)
  then show ?thesis using fold \<open>ampdu_ok s\<close> by (simp add: ampdu_ba_state_off_def split: option.split)
qed

lemma resp_of_scbs: "resp_of (s\<lparr>resp_cnt := n, resp_timer := t\<rparr>) = resp_of s" "resp_of (s\<lparr>resp_cnt := n\<rparr>) = resp_of s"
  "resp_of (s\<lparr>resp_timer := t\<rparr>) = resp_of s"
  by (simp_all add: resp_of_def fun_eq_iff)

lemma ok_addba_req:
  assumes "quiet up" "ampdu_ok s" "a \<in> stations s"
  shows "\<exists>s'. wlc_ampdu_recv_addba_req up al a body s = Some s' \<and> ampdu_ok s'"
proof -
  let ?ps = "body16 body 3"
  let ?tid = "unat (drop_bit 2 (?ps AND 0x003c))"
  obtain c where c: "scbs s a = Some c" using assms(3) by (auto simp: stations_scbs)
  let ?early = "?tid \<ge> AMPDU_MAX_SCB_TID \<or> \<not> rxaggr s \<or> body ! 0 AND 0x80 \<noteq> 0 \<or> \<not> ampdu_enab s \<or> scb_bss c \<and> \<not> scb_htcap c \<or>
    \<not> rxba_enable s ?tid \<or> ucast (drop_bit 1 (?ps AND 0x0002)) \<noteq> ba_policy s"
  show ?thesis
  proof (cases ?early)
    case True
    then show ?thesis using assms(2) c ok_state_off [OF assms(2)]
      by (auto simp: wlc_ampdu_recv_addba_req_def Let_def split: option.splits)
  next
    case False
    obtain s1 where s1: "ampdu_cleanup_tid_resp up a ?tid s = Some s1" "ampdu_ok s1" "resp_of s1 a ?tid = Some None"
      using ok_cleanup [OF assms] by blast
    obtain c1 where c1: "scbs s1 a = Some c1" using s1(3) by (auto simp: resp_of_def)
    show ?thesis
    proof (cases "ok_resp al")
      case no: False
      then show ?thesis using False c c1 s1(1,2) by (auto simp: wlc_ampdu_recv_addba_req_def Let_def)
    next
      case True
      let ?w = "accept_wsize ?ps (ba_rx_wsize s1)"
      let ?s2 = "set_resp a ?tid (Some (new_resp (body16 body 7) ?w)) s1"
      let ?s4 = "WLCNTINCR txaddbaresp_update (wlc_send_addba_resp al a DOT11_SC_SUCCESS (body ! 2)
        (min (body16 body 5) (ucast (delba_timeout s))) (accept_params ?ps ?w) (WLCNTINCR rxaddbareq_update ?s2))"
      let ?s' = "(if resp_cnt ?s4 = 0 then ?s4\<lparr>resp_timer := True\<rparr> else ?s4)\<lparr>resp_cnt := resp_cnt ?s4 + 1\<rparr>"
      have "wlc_ampdu_recv_addba_req up al a body s = Some ?s'"
        using False True c c1 s1(1) by (auto simp: wlc_ampdu_recv_addba_req_def Let_def)
      moreover have "ampdu_ok ?s'"
      proof (rule ok_cong)
        show "ampdu_ok (?s2\<lparr>resp_cnt := resp_cnt s1 + 1, resp_timer := resp_timer s1 \<or> resp_cnt s1 = 0\<rparr>)"
          by (rule ok_start [OF s1(2,3) _ refl]) (use False in simp)
        have "resp_of ?s' = resp_of ?s4" by (simp only: resp_of_scbs split: if_split) simp
        also have "\<dots> = resp_of ?s2" by simp
        finally show "resp_of ?s' = resp_of (?s2\<lparr>resp_cnt := resp_cnt s1 + 1, resp_timer := resp_timer s1 \<or> resp_cnt s1 = 0\<rparr>)"
          by (simp only: resp_of_scbs ampdu_info.simps)
      qed simp_all
      ultimately show ?thesis by blast
    qed
  qed
qed

lemma ok_send_delba_resp:
  assumes "quiet up" "ampdu_ok s" "a \<in> stations s"
  shows "\<exists>s'. send_delba_resp up al a tid reason s = Some s' \<and> ampdu_ok s'"
proof -
  obtain s1 where s1: "ampdu_cleanup_tid_resp up a tid s = Some s1" "ampdu_ok s1" "resp_of s1 a tid = Some None"
    using ok_cleanup [OF assms] by blast
  obtain c1 where "scbs s1 a = Some c1" using s1(3) by (auto simp: resp_of_def)
  then show ?thesis using s1(1,2) by (simp add: send_delba_resp_def)
qed

lemma ok_recvdata:
  assumes "quiet up" "ampdu_ok s" "a \<in> stations s"
  shows "\<exists>s'. wlc_ampdu_recvdata up al a f s = Some s' \<and> ampdu_ok s'"
proof -
  let ?tid = "unat (fi_prio f)"
  obtain c where c: "scbs s a = Some c" using assms(3) by (auto simp: stations_scbs)
  have cx: "scbs (count_rx f s) a = Some c" using c by (simp add: count_rx_def Let_def WLCNTINCR_def)
  consider "fi_subtype f \<noteq> FC_SUBTYPE_QOS_DATA" | "fi_subtype f = FC_SUBTYPE_QOS_DATA" "resp c ?tid = None"
    | r where "fi_subtype f = FC_SUBTYPE_QOS_DATA" "resp c ?tid = Some r" "pk_seq (fi_p f) AND FRAGNUM_MASK \<noteq> 0"
    | r where "fi_subtype f = FC_SUBTYPE_QOS_DATA" "resp c ?tid = Some r" "pk_seq (fi_p f) AND FRAGNUM_MASK = 0"
    by (cases "resp c ?tid") auto
  then show ?thesis
  proof cases
    case 1 then show ?thesis using assms(1,2) by (simp add: wlc_ampdu_recvdata_def quietD)
  next
    case 2 then show ?thesis using assms(1,2) cx by (simp add: wlc_ampdu_recvdata_def quietD Let_def)
  next
    case (3 r)
    define s1 where "s1 = WLCNTINCR rxunexp_update (emit (Pktfree (fi_p f))
      (if \<not> scb_htcap c \<and> ft_pren f \<and> WLC_IS_MIMO_PLCP_AMPDU (fi_plcp f)
       then WLCNTINCR rxnobapol_update (set_ampdu_recd a ?tid (count_rx f s)) else count_rx f s))"
    have "ampdu_ok s1" "a \<in> stations s1" using assms(2,3) by (simp_all add: s1_def)
    moreover have "wlc_ampdu_recvdata up al a f s = send_delba_resp up al a ?tid 1 s1"
      using 3 cx by (simp add: wlc_ampdu_recvdata_def Let_def s1_def)
    ultimately show ?thesis using ok_send_delba_resp [OF assms(1)] by simp
  next
    case (4 r)
    then have "resp_of s a ?tid = Some (Some r)" using c by (simp add: resp_of_def)
    then show ?thesis using ok_data [OF assms(1,2) _ 4(1) refl 4(3)] by blast
  qed
qed

lemma ok_recv_ctl:
  assumes "quiet up" "ampdu_ok s" "\<And>a'. a = Some a' \<Longrightarrow> a' \<in> stations s"
  shows "\<exists>s'. wlc_ampdu_recv_ctl up a body fk s = Some s' \<and> ampdu_ok s'"
proof (cases a)
  case None then show ?thesis using assms(2) by (simp add: wlc_ampdu_recv_ctl_def)
next
  case (Some a')
  then have st: "a' \<in> stations s" using assms(3) by blast
  then obtain c where "scbs s a' = Some c" by (auto simp: stations_scbs)
  then show ?thesis using Some assms(2) ok_bar [OF assms(1,2) st, of body]
    by (cases fk) (simp_all add: wlc_ampdu_recv_ctl_def wlc_ampdu_recv_ba_def)
qed

lemma ok_for_tids:
  assumes "quiet up"
  shows "ampdu_ok s \<Longrightarrow> a \<in> stations s \<Longrightarrow>
    \<exists>s'. for_tids (resp_tick up a) tids s = Some s' \<and> ampdu_ok s' \<and> scb_list s' = scb_list s \<and> stations s' = stations s"
proof (induction tids arbitrary: s)
  case Nil then show ?case by simp
next
  case (Cons tid tids)
  obtain s1 where s1: "resp_tick up a tid s = Some s1" "ampdu_ok s1" "scb_list s1 = scb_list s" "stations s1 = stations s"
    using ok_tick [OF assms Cons.prems] by blast
  moreover have "a \<in> stations s1" using Cons.prems s1 by simp
  ultimately show ?case using Cons.IH [of s1] by simp
qed

lemma next_scb_append: "distinct (xs @ a # ys) \<Longrightarrow> next_scb (xs @ a # ys) a = (case ys of [] \<Rightarrow> None | b # _ \<Rightarrow> Some b)"
proof -
  assume "distinct (xs @ a # ys)"
  then have "dropWhile (\<lambda>b. b \<noteq> a) (xs @ a # ys) = a # ys" by (subst dropWhile_append2) auto
  then show ?thesis by (simp add: next_scb_def split: list.split)
qed

text \<open>The timer visits every station once.\<close>

lemma ok_foreach_scb:
  assumes f: "\<And>a s. ampdu_ok s \<Longrightarrow> a \<in> stations s \<Longrightarrow>
    \<exists>s'. f a s = Some s' \<and> ampdu_ok s' \<and> scb_list s' = scb_list s \<and> stations s' = stations s"
  shows "ampdu_ok s \<Longrightarrow> scb_list s = xs @ ys \<Longrightarrow>
    \<exists>s'. foreach_scb f (case ys of [] \<Rightarrow> None | a # _ \<Rightarrow> Some a) s = Some s' \<and> ampdu_ok s'"
proof (induction ys arbitrary: xs s)
  case Nil then show ?case by (subst foreach_scb.simps) simp
next
  case (Cons a ys)
  have a: "a \<in> stations s" using ampdu_okD(2) [OF Cons.prems(1)] Cons.prems(2) by (metis in_set_conv_decomp)
  obtain c where c: "scbs s a = Some c" using a by (auto simp: stations_scbs)
  obtain s1 where s1: "(if scb_ampducap c then f a s else Some s) = Some s1" "ampdu_ok s1" "scb_list s1 = scb_list s"
    using f [OF Cons.prems(1) a] Cons.prems(1) by (cases "scb_ampducap c") auto
  have nxt: "next_scb (scb_list s) a = (case ys of [] \<Rightarrow> None | b # _ \<Rightarrow> Some b)"
    using next_scb_append [of xs a ys] ampdu_okD(1) [OF Cons.prems(1)] unfolding Cons.prems(2) by blast
  have "foreach_scb f (Some a) s = foreach_scb f (case ys of [] \<Rightarrow> None | b # _ \<Rightarrow> Some b) s1"
    by (subst foreach_scb.simps) (simp only: option.case c s1(1) nxt)
  moreover have "scb_list s1 = (xs @ [a]) @ ys" using s1(3) Cons.prems(2) by simp
  ultimately show ?case using Cons.IH [OF s1(2)] by simp
qed

lemma ok_resp_timeout:
  assumes "quiet up" "ampdu_ok s"
  shows "\<exists>s'. wlc_ampdu_resp_timeout up s = Some s' \<and> ampdu_ok s'"
proof -
  have "for_tids (resp_tick up a) [0..<AMPDU_MAX_SCB_TID] s = for_tids (resp_tick up a) [0..<AMPDU_MAX_SCB_TID] s" for a s by (rule refl)
  from ok_foreach_scb [of "\<lambda>a. for_tids (resp_tick up a) [0..<AMPDU_MAX_SCB_TID]" s "[]" "scb_list s"] ok_for_tids [OF assms(1)] assms(2)
  show ?thesis by (simp add: wlc_ampdu_resp_timeout_def)
qed

subsection \<open>The module\<close>

text \<open>The entry points of the receiver, with the allocations that succeed.\<close>

datatype ampdu_op =
    Recv_data ba_alloc nat wlc_frminfo
  | Recv_ctl "nat option" "uint8 list" ctl_kind
  | Recv_addba_req ba_alloc nat "uint8 list"
  | Resp_timeout
  | Cleanup_resp nat nat

fun ampdu_exec :: "upper \<Rightarrow> ampdu_op \<Rightarrow> ampdu_info \<Rightarrow> ampdu_info option" where
  "ampdu_exec up (Recv_data al a f) s = wlc_ampdu_recvdata up al a f s"
| "ampdu_exec up (Recv_ctl a body fk) s = wlc_ampdu_recv_ctl up a body fk s"
| "ampdu_exec up (Recv_addba_req al a body) s = wlc_ampdu_recv_addba_req up al a body s"
| "ampdu_exec up Resp_timeout s = wlc_ampdu_resp_timeout up s"
| "ampdu_exec up (Cleanup_resp a tid) s = ampdu_cleanup_tid_resp up a tid s"

text \<open>The callers look the station up first; the frame's body was checked for its length.\<close>

fun op_valid :: "ampdu_op \<Rightarrow> ampdu_info \<Rightarrow> bool" where
  "op_valid (Recv_data al a f) s \<longleftrightarrow> a \<in> stations s \<and> unat (fi_prio f) < AMPDU_MAX_SCB_TID \<and> length (fi_plcp f) = 6"
| "op_valid (Recv_ctl a body fk) s \<longleftrightarrow> (case a of None \<Rightarrow> True | Some a \<Rightarrow> a \<in> stations s)"
| "op_valid (Recv_addba_req al a body) s \<longleftrightarrow> a \<in> stations s \<and> 9 \<le> length body"
| "op_valid Resp_timeout s \<longleftrightarrow> True"
| "op_valid (Cleanup_resp a tid) s \<longleftrightarrow> a \<in> stations s \<and> tid < AMPDU_MAX_SCB_TID"

text \<open>States of the receiver: any configuration without agreements, and what the operations make of it.\<close>

inductive ampdu_reachable :: "upper \<Rightarrow> ampdu_info \<Rightarrow> bool" for up where
  init: "distinct (scb_list s) \<Longrightarrow> set (scb_list s) = {a. scbs s a \<noteq> None} \<Longrightarrow> length (scb_list s) \<le> MAXSCB \<Longrightarrow>
    (\<And>a c. scbs s a = Some c \<Longrightarrow> resp c = (\<lambda>_. None)) \<Longrightarrow> resp_cnt s = 0 \<Longrightarrow> \<not> resp_timer s \<Longrightarrow>
    0 < unat (ba_rx_wsize s) \<Longrightarrow> unat (ba_rx_wsize s) \<le> AMPDU_RX_BA_MAX_WSIZE \<Longrightarrow> ampdu_reachable up s"
| step: "ampdu_reachable up s \<Longrightarrow> op_valid x s \<Longrightarrow> ampdu_exec up x s = Some s' \<Longrightarrow> ampdu_reachable up s'"

lemma ok_exec:
  assumes "quiet up" "ampdu_ok s" "op_valid x s"
  shows "\<exists>s'. ampdu_exec up x s = Some s' \<and> ampdu_ok s'"
proof (cases x)
  case (Recv_data al a f) then show ?thesis using assms ok_recvdata [OF assms(1,2), of a al f] by simp
next
  case (Recv_ctl a body fk) then show ?thesis using assms ok_recv_ctl [OF assms(1,2), of a body fk] by (simp split: option.splits)
next
  case (Recv_addba_req al a body) then show ?thesis using assms ok_addba_req [OF assms(1,2), of a al body] by simp
next
  case Resp_timeout then show ?thesis using ok_resp_timeout [OF assms(1,2)] by simp
next
  case (Cleanup_resp a tid)
  then have "a \<in> stations s" using assms(3) by simp
  from ok_cleanup [OF assms(1,2) this, of tid] show ?thesis using Cleanup_resp by auto
qed

lemma init_ok:
  assumes "distinct (scb_list s)" "set (scb_list s) = {a. scbs s a \<noteq> None}" "length (scb_list s) \<le> MAXSCB"
    "\<And>a c. scbs s a = Some c \<Longrightarrow> resp c = (\<lambda>_. None)" "resp_cnt s = 0" "\<not> resp_timer s" "0 < unat (ba_rx_wsize s)"
    "unat (ba_rx_wsize s) \<le> AMPDU_RX_BA_MAX_WSIZE"
  shows "ampdu_ok s"
proof -
  have no: "resp_of s a tid \<noteq> Some (Some r)" for a tid r
    using assms(4) by (auto simp: resp_of_def)
  then have "agreements s = {}" by (simp add: agreements_def)
  then show ?thesis using assms no unfolding ampdu_ok_def by (simp add: stations_scbs AMPDU_RX_BA_MAX_WSIZE_def)
qed

lemma reachable_ok:
  assumes "ampdu_reachable up s" "quiet up"
  shows "ampdu_ok s"
  using assms(1)
proof (induction)
  case (init s) then show ?case by (rule init_ok)
next
  case (step s x s') then show ?case using ok_exec [OF assms(2) step.IH step.hyps(2)] by auto
qed

text \<open>What the window relation says of the queue itself.\<close>

lemma length_contents:
  assumes "win_rel r m b"
  shows "length (contents (wsize r) m b) = card (dom b)"
proof -
  let ?xs = "contents (wsize r) m b"
  have "distinct (map fst ?xs)" using sorted_inwin [of b m "m + wsize r"] by (simp add: strict_sorted_iff)
  then have "length ?xs = card (set (map fst ?xs))" using distinct_card by fastforce
  moreover have "set (map fst ?xs) = dom b"
  proof
    show "set (map fst ?xs) \<subseteq> dom b" by (auto simp: set_inwin)
    show "dom b \<subseteq> set (map fst ?xs)"
    proof
      fix n assume "n \<in> dom b"
      then obtain d where "b n = Some d" by blast
      moreover have "\<not> (n < m \<or> m + wsize r \<le> n)" using win_relD(7) [OF assms, of n] \<open>b n = Some d\<close> by (metis option.distinct(1))
      ultimately have "(n, d) \<in> set ?xs" by (simp add: set_inwin)
      then show "n \<in> set (map fst ?xs)" by force
    qed
  qed
  ultimately show ?thesis by simp
qed

lemma slot_number:
  fixes m i :: nat
  assumes "i < 64"
  shows "\<exists>n. m \<le> n \<and> n < m + 64 \<and> n mod 64 = i"
proof -
  define k e where "k = m div 64" and "e = m mod 64"
  have m: "m = 64 * k + e" "e < 64" by (simp_all add: k_def e_def)
  show ?thesis
  proof (cases "e \<le> i")
    case True then show ?thesis using m assms by (intro exI [of _ "64 * k + i"]) simp
  next
    case False then show ?thesis using m assms by (intro exI [of _ "64 * Suc k + i"]) (simp only: mod_mult_self4, simp)
  qed
qed

lemma resp_ok_queue:
  assumes "resp_ok r"
  shows "unat (queued r) = length (queue r)" "rxq r ! RX_SEQ_TO_INDEX (exp_seq r) = None"
    "i < 64 \<Longrightarrow> rxq r ! i = Some p \<Longrightarrow>
      RX_SEQ_TO_INDEX (pkt_h_seqnum p) = i \<and> unat (MODSUB_SEQ (pkt_h_seqnum p) (exp_seq r)) < unat (ba_wsize r)"
proof -
  obtain m b where w: "win_rel r m b" "b m = None" using assms by (auto simp: resp_ok_def)
  note d = win_relD [OF w(1)]
  have "length (queue r) = length (map (\<lambda>(n, p, h). p) (contents (wsize r) m b))"
    using queue_contents [OF w(1)] by (metis size_mset)
  then show "unat (queued r) = length (queue r)" using length_contents [OF w(1)] d(11) by simp
  have "RX_SEQ_TO_INDEX (exp_seq r) = m mod 64" using d(5) by (rule index_mod)
  then show "rxq r ! RX_SEQ_TO_INDEX (exp_seq r) = None" using d(9) [of m] w(2) by simp
  assume i: "i < 64" "rxq r ! i = Some p"
  obtain n where n: "m \<le> n" "n < m + 64" "n mod 64 = i" using slot_number [OF i(1)] by blast
  have "map_option fst (b n) = Some p" using d(9) [OF n(1,2)] i(2) unfolding n(3) by simp
  then obtain h where h: "b n = Some (p, h)" by (cases "b n") auto
  then have seq: "unat (pkt_h_seqnum p) = n mod 4096" using d(8) by blast
  have "\<not> (n < m \<or> m + wsize r \<le> n)" using d(7) [of n] h by (metis option.distinct(1))
  then have lt: "n < m + wsize r" by simp
  have "in_sync m n" using n lt d(4) by (simp add: in_sync_def)
  from in_sync_offset(3) [OF this seq d(5) n(1)] lt
  have "unat (MODSUB_SEQ (pkt_h_seqnum p) (exp_seq r)) < unat (ba_wsize r)" using n(1) by (simp add: wsize_def)
  then show "RX_SEQ_TO_INDEX (pkt_h_seqnum p) = i \<and> unat (MODSUB_SEQ (pkt_h_seqnum p) (exp_seq r)) < unat (ba_wsize r)"
    using index_mod [OF seq] n(3) by simp
qed

text \<open>The receiver never gets stuck and its bookkeeping is exact. From a configuration without
  agreements, after any operations, with any sequence numbers: the next operation returns; the
  agreement counter is the number of agreements and the timer runs exactly when there is one; in
  every queue the counter is the number of waiting frames, each frame is in the slot of its number
  and inside the window, and the frame that is expected next is not among them.\<close>

lemma ampdu_runs_safe:
  assumes "quiet up" "ampdu_reachable up s" "op_valid x s"
  shows "\<exists>s'. ampdu_exec up x s = Some s' \<and> unat (resp_cnt s') = card (agreements s') \<and> (resp_timer s' \<longleftrightarrow> agreements s' \<noteq> {}) \<and>
    (\<forall>a tid r. resp_of s' a tid = Some (Some r) \<longrightarrow> tid < AMPDU_MAX_SCB_TID \<and> unat (queued r) = length (queue r) \<and>
       rxq r ! RX_SEQ_TO_INDEX (exp_seq r) = None \<and>
       (\<forall>i < AMPDU_RX_BA_MAX_WSIZE. \<forall>p. rxq r ! i = Some p \<longrightarrow>
          RX_SEQ_TO_INDEX (pkt_h_seqnum p) = i \<and> unat (MODSUB_SEQ (pkt_h_seqnum p) (exp_seq r)) < unat (ba_wsize r)))"
proof -
  obtain s' where s': "ampdu_exec up x s = Some s'" "ampdu_ok s'"
    using ok_exec [OF assms(1) reachable_ok [OF assms(2,1)] assms(3)] by blast
  have "unat (of_nat (card (agreements s')) :: uint16) = card (agreements s')"
    using card_agreements(2) [OF s'(2)] by (simp add: unsigned_of_nat take_bit_nat_eq_self)
  then have "unat (resp_cnt s') = card (agreements s')" using ampdu_okD(6) [OF s'(2)] by simp
  then show ?thesis unfolding AMPDU_RX_BA_MAX_WSIZE_def
    using s'(1) ampdu_okD(7) [OF s'(2)] ampdu_okD(4) [OF s'(2)] resp_ok_queue [OF ampdu_okD(5) [OF s'(2)]] by blast
qed

definition demo0 :: ampdu_info where
  "demo0 = demo\<lparr>scbs := (\<lambda>_. None)(7 := Some (demo_scb\<lparr>resp := (\<lambda>_. None)\<rparr>)), resp_cnt := 0, resp_timer := False\<rparr>"

definition demo_addba :: "uint8 list" where "demo_addba = [3, 0, 1, 0x16, 0x10, 0, 0, 0, 0]"

lemma ampdu_runs_safe_witness:
  "\<exists>s'. ampdu_exec demo_up (Recv_addba_req \<lparr>ok_resp = True, ok_frame = True\<rparr> 7 demo_addba) demo0 = Some s' \<and>
    unat (resp_cnt s') = card (agreements s') \<and> (resp_timer s' \<longleftrightarrow> agreements s' \<noteq> {}) \<and>
    (\<forall>a tid r. resp_of s' a tid = Some (Some r) \<longrightarrow> tid < AMPDU_MAX_SCB_TID \<and> unat (queued r) = length (queue r) \<and>
       rxq r ! RX_SEQ_TO_INDEX (exp_seq r) = None \<and>
       (\<forall>i < AMPDU_RX_BA_MAX_WSIZE. \<forall>p. rxq r ! i = Some p \<longrightarrow>
          RX_SEQ_TO_INDEX (pkt_h_seqnum p) = i \<and> unat (MODSUB_SEQ (pkt_h_seqnum p) (exp_seq r)) < unat (ba_wsize r)))"
proof (rule ampdu_runs_safe [OF demo_facts(1)])
  show "ampdu_reachable demo_up demo0"
    by (rule init) (auto simp: demo0_def demo_def MAXSCB_def AMPDU_RX_BA_MAX_WSIZE_def split: if_splits)
  show "op_valid (Recv_addba_req \<lparr>ok_resp = True, ok_frame = True\<rparr> 7 demo_addba) demo0"
    by (simp add: stations_scbs demo0_def demo_addba_def)
qed

subsection \<open>Stations that disappear during delivery\<close>

text \<open>Upper layers that free the station whose frame they get.\<close>

definition frees :: "upper \<Rightarrow> bool" where "frees up \<longleftrightarrow> (\<forall>a p h s. scbs (up a p h s) a = None)"

lemma freesD: "frees up \<Longrightarrow> scbs (wlc_recvdata_ordered up a p h s) a = None"
  by (simp add: frees_def wlc_recvdata_ordered_def)

lemma frees_resp_of: "frees up \<Longrightarrow> resp_of (wlc_recvdata_ordered up a p h s) a tid = None"
  using freesD [of up a p h s] by (simp add: resp_of_def)

text \<open>The release loop notices that the station is gone and returns; then there is no station.\<close>

lemma release_n_frees:
  assumes "frees up"
  shows "resp_of s a tid = Some (Some r) \<Longrightarrow> win_rel r m b \<Longrightarrow> b k \<noteq> None \<Longrightarrow> k < m + j \<Longrightarrow>
    \<exists>s'. release_n_loop up a tid j s = Some s' \<and> scbs s' a = None"
proof (induction j arbitrary: s r m b)
  case 0
  then show ?case using win_relD(7) [of r m b k] by (metis add.right_neutral)
next
  case (Suc j)
  note w = win_relD [OF Suc.prems(2)]
  have indx: "RX_SEQ_TO_INDEX (exp_seq r) = m mod 64" by (rule index_mod) (rule w(5))
  have slot: "rxq r ! (m mod 64) = map_option fst (b m)" by (rule w(9)) simp_all
  show ?case
  proof (cases "b m")
    case None
    let ?r1 = "r\<lparr>alive := True, exp_seq := NEXT_SEQ (exp_seq r)\<rparr>"
    let ?s1 = "advance a tid r (WLCNTINCR rxholes_update s)"
    have "(rxq r)[m mod 64 := None] = rxq r" using slot None by (metis list_update_id option.map_disc_iff)
    then have r1: "win_rel ?r1 (Suc m) (above (Suc m) b)" by (intro win_step [OF Suc.prems(2)]) (simp_all add: None)
    have "k \<noteq> m" "\<not> k < m" using None Suc.prems(3) w(7) [of k] by metis+
    then have "above (Suc m) b k \<noteq> None" using Suc.prems(3) by (simp add: above_def)
    moreover have "resp_of ?s1 a tid = Some (Some ?r1)" using Suc.prems(1) by (simp add: advance_def)
    ultimately have "\<exists>s'. release_n_loop up a tid j ?s1 = Some s' \<and> scbs s' a = None"
      using Suc.IH [OF _ r1] Suc.prems(4) by simp
    then show ?thesis by (simp add: Suc.prems(1) Let_def indx slot None)
  next
    case (Some d)
    then show ?thesis using freesD [OF assms] frees_resp_of [OF assms]
      by (simp add: Suc.prems(1) Let_def indx slot)
  qed
qed

text \<open>C15: Where the station is used after it was freed. When the upper layers free the station on delivery: a frame
  at the expected number is handled properly; but a frame beyond the window that pushes out a
  waiting frame, and a request that releases one, read the station's state after the loop has
  returned because the station is gone.\<close>

theorem freed_station_used:
  assumes "frees up" "resp_of s a tid = Some (Some r)" "win_rel r m b" "b m = None" "b k \<noteq> None" "in_sync m n"
  shows "(data_frame tid m f \<longrightarrow> (\<exists>s'. wlc_ampdu_recvdata up al a f s = Some s' \<and> scbs s' a = None)) \<and>
    (data_frame tid n f \<and> k + wsize r \<le> n \<longrightarrow> wlc_ampdu_recvdata up al a f s = None) \<and>
    (bar_frame tid n body \<and> k < n \<longrightarrow> wlc_ampdu_recv_bar up a body s = None)"
proof -
  note w = win_relD [OF assms(3)]
  have mk: "m \<le> k" "k < m + wsize r" using w(6) [of k] assms(5) by simp_all
  obtain c where c: "scbs s a = Some c" "resp c tid = Some r" using assms(2) by (auto simp: resp_of_def)
  define s1 where "s1 = (if \<not> scb_htcap c \<and> ft_pren f \<and> WLC_IS_MIMO_PLCP_AMPDU (fi_plcp f)
      then WLCNTINCR rxnobapol_update (set_ampdu_recd a tid (count_rx f s)) else count_rx f s)"
  have s1: "resp_of s1 a tid = Some (Some r)" using assms(2) by (simp add: s1_def)
  have recv: "wlc_ampdu_recvdata up al a f s = recv_in_agreement up a tid r (pkt_h_seqnum (fi_p f)) f s1" if "data_frame tid q f" for q
    using that c by (simp add: wlc_ampdu_recvdata_def Let_def data_frame_def s1_def)
  have gone: "wlc_ampdu_release_n_ordered up a tid j x \<bind> g = None"
    if "resp_of x a tid = Some (Some r)" "k < m + j" "\<And>y. scbs y a = None \<Longrightarrow> g y = None" for x j and g :: "ampdu_info \<Rightarrow> ampdu_info option"
    using release_n_frees [OF assms(1) that(1) assms(3,5) that(2)] that(3) by (auto simp: release_n_ordered_loop [OF that(1)])
  have 1: "\<exists>s'. wlc_ampdu_recvdata up al a f s = Some s' \<and> scbs s' a = None" if d: "data_frame tid m f"
  proof -
    have "pkt_h_seqnum (fi_p f) = exp_seq r" using d w(5) by (simp add: data_frame_def word_unat_eq_iff)
    then show ?thesis using recv [OF d] freesD [OF assms(1)] by (simp add: recv_in_agreement_def Let_def)
  qed
  have 2: "wlc_ampdu_recvdata up al a f s = None" if d: "data_frame tid n f" "k + wsize r \<le> n"
  proof -
    let ?seq = "pkt_h_seqnum (fi_p f)"
    have num: "unat ?seq = n mod 4096" using d(1) by (simp add: data_frame_def)
    note o = in_sync_offset [OF assms(6) num w(5)]
    have mn: "m + wsize r \<le> n" "m \<le> n" "n \<noteq> m" using d(2) mk w(3) by simp_all
    have off: "unat (MODSUB_SEQ ?seq (exp_seq r)) = n - m" using o(3) mn(2) by blast
    have ge: "ucast (ba_wsize r) \<le> MODSUB_SEQ ?seq (exp_seq r)"
      unfolding word_le_nat_alt off ucast_wsize using mn(1) by linarith
    let ?delta = "MODSUB_SEQ ?seq (exp_seq r) - ucast (ba_wsize r) + 1"
    have sub: "unat (MODSUB_SEQ ?seq (exp_seq r) - ucast (ba_wsize r)) = n - m - wsize r"
      using unat_sub [OF ge] off ucast_wsize by simp
    have "n - m < 4096" using assms(6) unfolding in_sync_def by linarith
    then have delta: "unat ?delta = n - m - wsize r + 1" using sub by (simp add: unat_word_ariths)
    have "recv_in_agreement up a tid r ?seq f s1 = wlc_ampdu_release_n_ordered up a tid (unat ?delta) s1 \<bind>
        (\<lambda>s. resp_of s a tid \<bind> (\<lambda>r. wlc_ampdu_release_ordered up a tid
          (case r of None \<Rightarrow> s | Some r \<Rightarrow> set_resp a tid (Some (enqueue (RX_SEQ_TO_INDEX ?seq) f r)) s) \<bind>
            (\<lambda>s. Some (WLCNTINCR rxoow_update s))))"
      using o(1) o(4) [OF mn(2)] mn(3) ge leD [OF ge] unfolding recv_in_agreement_def Let_def by simp
    also have "\<dots> = None" by (rule gone [OF s1]) (use d(2) mk delta in \<open>simp_all add: resp_of_def\<close>)
    finally show ?thesis using recv [OF d(1)] by simp
  qed
  have 3: "wlc_ampdu_recv_bar up a body s = None" if d: "bar_frame tid n body" "k < n"
  proof -
    let ?seq = "drop_bit SEQNUM_SHIFT (body16 body 2)"
    have num: "unat ?seq = n mod 4096" using d(1) by (simp add: bar_frame_def)
    note o = in_sync_offset [OF assms(6) num w(5)]
    have mn: "m \<le> n" using d(2) mk by simp
    let ?s0 = "WLCNTINCR rxbar_update s"
    have "wlc_ampdu_recv_bar up a body s =
        wlc_ampdu_release_n_ordered up a tid (unat (MODSUB_SEQ ?seq (exp_seq r))) ?s0 \<bind> wlc_ampdu_release_ordered up a tid"
      using assms(2) d(1) o(4) [OF mn] by (simp add: wlc_ampdu_recv_bar_def Let_def bar_frame_def)
    also have "\<dots> = None"
      by (rule gone) (use assms(2) o(3) [OF mn] d(2) mn in \<open>simp_all add: wlc_ampdu_release_ordered_def resp_of_def\<close>)
    finally show ?thesis .
  qed
  show ?thesis using 1 2 3 by blast
qed

definition kick_up :: upper where "kick_up = (\<lambda>a p h s. s\<lparr>scbs := (scbs s)(a := None)\<rparr>)"

definition demo_queue :: "nat \<Rightarrow> (pkt \<times> nat) option" where "demo_queue = (\<lambda>_. None)(1 := Some (fi_p (demo_frame 1), 0))"

definition demo1 :: ampdu_info where
  "demo1 = set_resp 7 5 (Some (enqueue 1 (demo_frame 1) (new_resp 0 2))) demo"

lemma demo1_win: "win_rel (enqueue 1 (demo_frame 1) (new_resp 0 2)) 0 demo_queue"
proof -
  have d: "dom demo_queue = {1}" by (auto simp: demo_queue_def)
  show ?thesis unfolding win_rel_def d
    by (auto simp: enqueue_def demo_frame_def new_resp_def wsize_def AMPDU_RX_BA_MAX_WSIZE_def demo_queue_def pkt_h_seqnum_def
        SEQNUM_SHIFT_def nth_list_update split: if_splits)
qed

lemma demo1_frees:
  "frees kick_up" "resp_of demo1 7 5 = Some (Some (enqueue 1 (demo_frame 1) (new_resp 0 2)))"
  unfolding demo1_def by (rule resp_of_set [OF demo_facts(2)] | simp add: frees_def kick_up_def)+

lemma demo_beyond: "data_frame 5 3 (demo_frame 3)" "wsize (enqueue 1 (demo_frame 1) (new_resp 0 2)) = 2"
    "bar_frame 5 3 [0, 0x50, 0x30, 0]"
  by (simp_all add: data_frame_def demo_frame_def FC_SUBTYPE_QOS_DATA_def FRAGNUM_MASK_def pkt_h_seqnum_def SEQNUM_SHIFT_def
      wsize_def enqueue_def new_resp_def bar_frame_def body16_def get16_def AMPDU_MAX_SCB_TID_def)

lemma freed_station_used_witness:
  "wlc_ampdu_recvdata kick_up \<lparr>ok_resp = True, ok_frame = True\<rparr> 7 (demo_frame 3) demo1 = None \<and>
    wlc_ampdu_recv_bar kick_up 7 [0, 0x50, 0x30, 0] demo1 = None"
proof -
  have q: "demo_queue 0 = None" "demo_queue 1 \<noteq> None" by (simp_all add: demo_queue_def)
  have "in_sync 0 3" by (simp add: in_sync_def)
  from freed_station_used [OF demo1_frees demo1_win q this, of "demo_frame 3" "\<lparr>ok_resp = True, ok_frame = True\<rparr>" "[0, 0x50, 0x30, 0]"]
  show ?thesis using demo_beyond by simp
qed

subsection \<open>What an agreement is set up with\<close>

lemma size_field: "drop_bit 6 (x :: uint16) AND 1023 = drop_bit 6 x"
proof -
  have m: "(1023 :: uint16) = mask 10" by (simp add: mask_eq_exp_minus_1)
  show ?thesis unfolding m by (rule bit_eqI) (auto simp: bit_simps dest: bit_imp_le_length)
qed

lemma accept_wsize_nat:
  assumes "0 < unat ours"
  shows "unat (accept_wsize param_set ours) =
    (let asked = unat (drop_bit 6 param_set) mod 256 in if asked = 0 then unat ours else min asked (unat ours))"
proof -
  let ?w = "ucast (drop_bit 6 param_set) :: uint8"
  have w: "unat ?w = unat (drop_bit 6 param_set) mod 256" by (simp add: unsigned_ucast_eq take_bit_eq_mod)
  have z: "?w = 0 \<longleftrightarrow> unat (drop_bit 6 param_set) mod 256 = 0" unfolding w [symmetric] by (simp only: unat_eq_0)
  have "accept_wsize param_set ours = (if ?w \<noteq> 0 then min ?w ours else ours)"
    by (simp add: accept_wsize_def Let_def size_field)
  then show ?thesis unfolding Let_def w [symmetric] by (simp add: min_def word_le_nat_alt unat_eq_0)
qed

lemma bit_accept_params:
  "bit (accept_params ps w) n \<longleftrightarrow> n < 16 \<and> n \<noteq> 0 \<and> (if n < 6 then bit ps n else bit w (n - 6))"
proof -
  have m: "(0xffc0 :: uint16) = NOT (mask 6)" "(0x0001 :: uint16) = mask 1" by (simp_all add: mask_eq_exp_minus_1)
  show ?thesis unfolding accept_params_def m bit_and_iff bit_or_iff bit_not_iff_eq bit_push_bit_iff bit_mask_iff
    by (auto simp: bit_simps dest: bit_imp_le_length)
qed

lemma accept_params_fields:
  "drop_bit 6 (accept_params ps w) = ucast w" "accept_params ps w AND 0x3e = ps AND 0x3e"
proof -
  have m: "(0x3e :: uint16) = push_bit 1 (mask 5)" by (simp add: mask_eq_exp_minus_1)
  show "drop_bit 6 (accept_params ps w) = ucast w"
    by (rule bit_eqI) (auto simp: bit_drop_bit_eq bit_accept_params bit_ucast_iff dest: bit_imp_le_length)
  show "accept_params ps w AND 0x3e = ps AND 0x3e"
    unfolding m by (rule bit_eqI) (simp only: bit_and_iff bit_accept_params bit_push_bit_iff bit_mask_iff possible_bit_word, auto)
qed

lemma cleanup_delivers:
  assumes "quiet up" "ampdu_ok s" "scbs s a = Some c"
  obtains s1 ds where "ampdu_cleanup_tid_resp up a tid s = Some s1" "resp_of s1 a tid = Some None"
    "events s1 = events s @ sendups a ds" "sorted_wrt (<) (map fst ds)"
    "mset (map (\<lambda>(n, p, h). p) ds) = mset (case resp c tid of None \<Rightarrow> [] | Some r \<Rightarrow> queue r)"
    "ba_rx_wsize s1 = ba_rx_wsize s" "block_datafifo s1 = block_datafifo s"
proof (cases "resp c tid")
  case None
  then show ?thesis using assms(3) by (intro that [of s "[]"]) (simp_all add: ampdu_cleanup_tid_resp_def resp_of_def)
next
  case (Some r)
  then have r: "resp_of s a tid = Some (Some r)" using assms(3) by (simp add: resp_of_def)
  obtain m b where w: "win_rel r m b" using ampdu_okD(5) [OF assms(2) r] by (auto simp: resp_ok_def)
  obtain s1 where s1: "ampdu_cleanup_tid_resp up a tid s =
      Some ((set_resp a tid None s1)\<lparr>resp_cnt := resp_cnt s - 1, resp_timer := resp_timer s \<and> resp_cnt s \<noteq> 1\<rparr>)"
      "same_but a tid s s1" "events s1 = events s @ sendups a (contents (wsize r) m b)"
    using cleanup_refines [OF assms(1) r w] by blast
  let ?s' = "(set_resp a tid None s1)\<lparr>resp_cnt := resp_cnt s - 1, resp_timer := resp_timer s \<and> resp_cnt s \<noteq> 1\<rparr>"
  have "a \<in> stations s1" using same_but_stations [OF s1(2)] resp_of_station [OF r] by simp
  then have resp: "resp_of ?s' a tid = Some None" using set_resp_resp_of [of a s1 tid None a tid] by (simp add: resp_of_scbs)
  have "block_datafifo (core a tid x) = block_datafifo x" for x by (simp add: core_def upd_scb_def)
  then have "block_datafifo s1 = block_datafifo s" using s1(2) unfolding same_but_def by metis
  then show ?thesis using Some s1(3) same_but_fields(4) [OF s1(2)] queue_contents [OF w]
    by (intro that [OF s1(1) resp, of "contents (wsize r) m b"]) (simp_all add: set_resp_def upd_scb_def sorted_inwin)
qed

text \<open>A request that the station accepts.\<close>

definition acceptable :: "scb_ampdu \<Rightarrow> uint8 list \<Rightarrow> ampdu_info \<Rightarrow> bool" where
  "acceptable c body s \<longleftrightarrow>
     (let tid = unat (drop_bit 2 (body16 body 3 AND 0x003c)) in
      tid < AMPDU_MAX_SCB_TID \<and> rxaggr s \<and> body ! 0 AND 0x80 = 0 \<and> ampdu_enab s \<and> (scb_bss c \<longrightarrow> scb_htcap c) \<and> rxba_enable s tid \<and>
      ucast (drop_bit 1 (body16 body 3 AND 0x0002)) = ba_policy s)"

text \<open>C14: Both ends agree on the window. An acceptable request for an agreement (structure and frame allocated) first
  delivers, in order, what waited under an earlier agreement; then there is an empty queue that
  expects the requested number; the window it works with is the one the response announces, the
  peer's or ours if smaller, where the peer's size counts modulo 256 and 0 leaves the choice to us.\<close>

theorem addba_agreement:
  assumes "quiet up" "ampdu_reachable up s" "scbs s a = Some c" "acceptable c body s" "ok_resp al" "ok_frame al" "\<not> block_datafifo s"
  defines "tid \<equiv> unat (drop_bit 2 (body16 body 3 AND 0x003c))"
  shows "\<exists>s' r ds ps. wlc_ampdu_recv_addba_req up al a body s = Some s' \<and> resp_of s' a tid = Some (Some r) \<and> queue r = [] \<and>
    exp_seq r = drop_bit SEQNUM_SHIFT (body16 body 7) \<and>
    unat (ba_wsize r) = (let asked = unat (drop_bit 6 (body16 body 3)) mod 256; ours = unat (ba_rx_wsize s)
                         in if asked = 0 then ours else min asked ours) \<and>
    events s' = events s @ sendups a ds @ [Addba_resp a DOT11_SC_SUCCESS (body ! 2) (min (body16 body 5) (ucast (delba_timeout s))) ps] \<and>
    mset (map (\<lambda>(n, p, h). p) ds) = mset (case resp c tid of None \<Rightarrow> [] | Some r \<Rightarrow> queue r) \<and> sorted_wrt (<) (map fst ds) \<and>
    drop_bit 6 ps = ucast (ba_wsize r) \<and> ps AND 0x3e = body16 body 3 AND 0x3e"
proof -
  note ok = reachable_ok [OF assms(2,1)]
  let ?ps = "body16 body 3"
  obtain s1 ds where s1: "ampdu_cleanup_tid_resp up a tid s = Some s1" "resp_of s1 a tid = Some None"
    "events s1 = events s @ sendups a ds" "sorted_wrt (<) (map fst ds)"
    "mset (map (\<lambda>(n, p, h). p) ds) = mset (case resp c tid of None \<Rightarrow> [] | Some r \<Rightarrow> queue r)"
    "ba_rx_wsize s1 = ba_rx_wsize s" "block_datafifo s1 = block_datafifo s"
    using cleanup_delivers [OF assms(1) ok assms(3)] by metis
  obtain c1 where c1: "scbs s1 a = Some c1" using s1(2) by (auto simp: resp_of_def)
  let ?w = "accept_wsize ?ps (ba_rx_wsize s)"
  let ?r = "new_resp (body16 body 7) ?w"
  let ?s2 = "set_resp a tid (Some ?r) s1"
  let ?s3 = "WLCNTINCR rxaddbareq_update ?s2"
  let ?e = "Addba_resp a DOT11_SC_SUCCESS (body ! 2) (min (body16 body 5) (ucast (delba_timeout s))) (accept_params ?ps ?w)"
  let ?s4 = "WLCNTINCR txaddbaresp_update (emit ?e ?s3)"
  let ?s5 = "if resp_cnt ?s4 = 0 then ?s4\<lparr>resp_timer := True\<rparr> else ?s4"
  let ?s' = "?s5\<lparr>resp_cnt := resp_cnt ?s5 + 1\<rparr>"
  have bl: "block_datafifo ?s3 = block_datafifo s" using s1(7) by (simp add: WLCNTINCR_def set_resp_def upd_scb_def)
  then have snd: "wlc_send_addba_resp al a DOT11_SC_SUCCESS (body ! 2) (min (body16 body 5) (ucast (delba_timeout s)))
      (accept_params ?ps ?w) ?s3 = emit ?e ?s3"
    using assms(6,7) by (simp add: wlc_send_addba_resp_def)
  have run: "wlc_ampdu_recv_addba_req up al a body s = Some ?s'"
  proof -
    have g: "\<not> tid \<ge> AMPDU_MAX_SCB_TID" "\<not> \<not> rxaggr s" "\<not> body ! 0 AND 0x80 \<noteq> 0" "\<not> (\<not> ampdu_enab s \<or> scb_bss c \<and> \<not> scb_htcap c)"
      "\<not> \<not> rxba_enable s tid" "\<not> ucast (drop_bit 1 (?ps AND 0x0002)) \<noteq> ba_policy s" "\<not> \<not> ok_resp al"
      using assms(4,5) unfolding acceptable_def Let_def tid_def [symmetric] not_le by blast+
    show ?thesis unfolding wlc_ampdu_recv_addba_req_def Let_def tid_def [symmetric]
      by (simp only: if_not_P [OF g(1)] if_not_P [OF g(2)] if_not_P [OF g(3)] if_not_P [OF g(4)] if_not_P [OF g(5)] if_not_P [OF g(6)]
          if_not_P [OF g(7)] assms(3) s1(1) c1 snd s1(6) bind.bind_lunit)
  qed
  have st: "a \<in> stations s1" by (rule resp_of_station [OF s1(2)])
  have "events ?s' = events ?s4" by (simp only: ampdu_info.simps split: if_split) simp
  then have ev: "events ?s' = events s @ sendups a ds @ [?e]" using s1(3) by simp
  have "resp_of ?s' = resp_of ?s4" by (simp only: resp_of_scbs split: if_split) simp
  then have resp: "resp_of ?s' a tid = Some (Some ?r)" using set_resp_resp_of [OF st] by simp
  have "queue ?r = []" by (simp add: queue_def new_resp_def map_filter_def AMPDU_RX_BA_MAX_WSIZE_def)
  moreover have "unat (ba_wsize ?r) = (let asked = unat (drop_bit 6 ?ps) mod 256; ours = unat (ba_rx_wsize s)
      in if asked = 0 then ours else min asked ours)"
    using accept_wsize_nat [OF ampdu_okD(8) [OF ok], of ?ps] by (simp add: new_resp_def Let_def)
  moreover have "exp_seq ?r = drop_bit SEQNUM_SHIFT (body16 body 7)" "ba_wsize ?r = ?w" by (simp_all add: new_resp_def)
  ultimately show ?thesis using run resp ev s1(4,5) accept_params_fields [of ?ps ?w]
    by (intro exI [of _ ?s'] exI [of _ ?r] exI [of _ ds] exI [of _ "accept_params ?ps ?w"] conjI) simp_all
qed

lemma addba_agreement_witness:
  "\<exists>s' r ds ps. wlc_ampdu_recv_addba_req demo_up \<lparr>ok_resp = True, ok_frame = True\<rparr> 7 demo_addba demo0 = Some s' \<and>
    resp_of s' 7 (unat (drop_bit 2 (body16 demo_addba 3 AND 0x003c))) = Some (Some r) \<and> queue r = [] \<and>
    exp_seq r = drop_bit SEQNUM_SHIFT (body16 demo_addba 7) \<and>
    unat (ba_wsize r) = (let asked = unat (drop_bit 6 (body16 demo_addba 3)) mod 256; ours = unat (ba_rx_wsize demo0)
                         in if asked = 0 then ours else min asked ours) \<and>
    events s' = events demo0 @ sendups 7 ds @
      [Addba_resp 7 DOT11_SC_SUCCESS (demo_addba ! 2) (min (body16 demo_addba 5) (ucast (delba_timeout demo0))) ps] \<and>
    mset (map (\<lambda>(n, p, h). p) ds) = mset (case resp (demo_scb\<lparr>resp := (\<lambda>_. None)\<rparr>) (unat (drop_bit 2 (body16 demo_addba 3 AND 0x003c)))
      of None \<Rightarrow> [] | Some r \<Rightarrow> queue r) \<and> sorted_wrt (<) (map fst ds) \<and>
    drop_bit 6 ps = ucast (ba_wsize r) \<and> ps AND 0x3e = body16 demo_addba 3 AND 0x3e"
proof (rule addba_agreement [OF demo_facts(1)])
  show "ampdu_reachable demo_up demo0"
    by (rule init) (auto simp: demo0_def demo_def MAXSCB_def AMPDU_RX_BA_MAX_WSIZE_def split: if_splits)
  have ps: "body16 demo_addba 3 = 0x1016" by (simp add: body16_def demo_addba_def get16_def)
  show "acceptable (demo_scb\<lparr>resp := (\<lambda>_. None)\<rparr>) demo_addba demo0"
    by (simp add: acceptable_def ps) (simp add: demo_addba_def demo0_def demo_def demo_scb_def AMPDU_MAX_SCB_TID_def)
qed (simp_all add: demo0_def demo_def)

end
