(* ===== verification/AmpduTx.thy ===== *)
theory AmpduTx
  imports Ampdu
begin

text \<open>
  The initiator of block acknowledgement agreements, \<^verbatim>\<open>wl/sys/wlc_ampdu.c\<close>: one agreement, its transmit
  window and what happens to its frames. Aggregation is done by the host (\<open>AMPDU_HOST_ENAB\<close>).

  A routine of the source that gets an initiator works here on a \<open>link\<close>: the initiator with the transmit queue
  and the sequence number counter of its TID, the statistics, the flow control bit and the trace.
  What it reads and does not change is in a \<open>tx_conf\<close>. The next transmit module takes a frame and
  does not come back into this one before the routine has returned.
\<close>

subsection \<open>Constants\<close>

definition AMPDU_TX_BA_MAX_WSIZE :: nat where "AMPDU_TX_BA_MAX_WSIZE = 128"
definition AMPDU_BA_BITS_IN_BITMAP :: nat where "AMPDU_BA_BITS_IN_BITMAP = 64"
definition AMPDU_BAR_RETRY_CNT :: uint8 where "AMPDU_BAR_RETRY_CNT = 50"

definition AMPDU_R_BAR_DISABLED :: uint8 where "AMPDU_R_BAR_DISABLED = 0"
definition AMPDU_R_BAR_NO_BUFFER :: uint8 where "AMPDU_R_BAR_NO_BUFFER = 1"
definition AMPDU_R_BAR_CALLBACK_FAIL :: uint8 where "AMPDU_R_BAR_CALLBACK_FAIL = 2"
definition AMPDU_R_BAR_HALF_RETRY_CNT :: uint8 where "AMPDU_R_BAR_HALF_RETRY_CNT = 3"
definition AMPDU_R_BAR_BLOCKED :: uint8 where "AMPDU_R_BAR_BLOCKED = 4"

definition TX_SEQ_TO_INDEX :: "uint16 \<Rightarrow> nat" where "TX_SEQ_TO_INDEX seq = unat seq mod AMPDU_TX_BA_MAX_WSIZE"

definition NEXT_TX_INDEX :: "nat \<Rightarrow> nat" where "NEXT_TX_INDEX i = (i + 1) mod AMPDU_TX_BA_MAX_WSIZE"

text \<open>\<open>n\<close> indices of the ring from \<open>i\<close> on.\<close>

definition tx_indices :: "nat \<Rightarrow> nat \<Rightarrow> nat list" where
  "tx_indices i n = map (\<lambda>j. (i + j) mod AMPDU_TX_BA_MAX_WSIZE) [0..<n]"

subsection \<open>The link\<close>

text \<open>What becomes of a block ack request handed to the lower layers: sent, no buffer, or sent without a
  callback.\<close>

datatype bar_out = BAR_SENT | BAR_NO_BUFFER | BAR_CALLBACK_FAIL

record tx_conf =
  cf_sta :: nat
  cf_tid :: nat
  cf_no_bar :: bool
  cf_blocked :: bool
  cf_bar :: bar_out
  cf_tx_rel_lowat :: uint8
  cf_release :: uint8
  cf_hiwat :: nat
  cf_others :: nat   \<comment> \<open>frames in the station's queue for other TIDs\<close>
  cf_qi :: nat

record link =
  lk_ini :: tid_ini
  lk_txq :: "pkt list"
  lk_seqnum :: uint16
  lk_stopped :: bool
  lk_cnt :: wlc_ampdu_cnt
  lk_events :: "ampdu_event list"

definition upd_ini :: "(tid_ini \<Rightarrow> tid_ini) \<Rightarrow> link \<Rightarrow> link" where "upd_ini f l = l\<lparr>lk_ini := f (lk_ini l)\<rparr>"

definition lk_emit :: "ampdu_event \<Rightarrow> link \<Rightarrow> link" where "lk_emit e l = l\<lparr>lk_events := lk_events l @ [e]\<rparr>"

definition WLCNTADD :: "((uint32 \<Rightarrow> uint32) \<Rightarrow> wlc_ampdu_cnt \<Rightarrow> wlc_ampdu_cnt) \<Rightarrow> uint32 \<Rightarrow> link \<Rightarrow> link" where
  "WLCNTADD upd n l = l\<lparr>lk_cnt := upd (\<lambda>m. m + n) (lk_cnt l)\<rparr>"

subsection \<open>Releasing frames\<close>

definition release_one :: "tx_conf \<Rightarrow> pkt \<Rightarrow> link \<Rightarrow> link" where
  "release_one cf p l =
     (let seq = lk_seqnum l AND 0xFFF; indx = TX_SEQ_TO_INDEX seq in
      lk_emit (Txmpdu (cf_sta cf) (cf_tid cf) p seq)
        (upd_ini (\<lambda>i. i\<lparr>ini_ackpending := (ini_ackpending i)[indx := True], ini_max_seq := seq\<rparr>)
          (l\<lparr>lk_txq := tl (lk_txq l), lk_seqnum := lk_seqnum l + 1\<rparr>)))"

text \<open>The only caller asks for at most as many frames as are queued. The sum of the guard is an \<open>int\<close>.\<close>

definition wlc_ampdu_release :: "tx_conf \<Rightarrow> uint16 \<Rightarrow> link \<Rightarrow> link" where
  "wlc_ampdu_release cf release l =
     (let i = lk_ini l; seq = lk_seqnum l AND 0xFFF; delta = MODSUB_SEQ seq (MODADD_SEQ (ini_max_seq i) 1) in
      if unat delta + unat release > unat (ini_rem_window i) then l
      else fold (release_one cf) (take (unat release) (lk_txq l))
             (upd_ini (\<lambda>i. i\<lparr>ini_rem_window := ini_rem_window i - (release + delta),
                             ini_tx_in_transit := ini_tx_in_transit i + ucast release\<rparr>) l))"

text \<open>How many frames may go, and why now.\<close>

definition tx_release :: "tx_conf \<Rightarrow> link \<Rightarrow> uint16" where
  "tx_release cf l = min (ini_rem_window (lk_ini l)) (min (of_nat (length (lk_txq l))) (ucast (cf_release cf)))"

definition tx_decision :: "tx_conf \<Rightarrow> bool \<Rightarrow> link \<Rightarrow> nat" where
  "tx_decision cf force l =
     (if force then 1 else if ini_tx_in_transit (lk_ini l) < cf_tx_rel_lowat cf then 2
      else if tx_release cf l = ucast (cf_release cf) then 4 else 0)"

definition wlc_ampdu_txeval :: "tx_conf \<Rightarrow> bool \<Rightarrow> link \<Rightarrow> link" where
  "wlc_ampdu_txeval cf force l =
     (let release = tx_release cf l; decision = tx_decision cf force l in
      if ini_state (lk_ini l) \<noteq> BA_ON \<or> release = 0 \<or> decision = 0 then l
      else wlc_ampdu_release cf release
             (if decision = 2 then WLCNTADD txrel_wm_update (ucast release) l
              else if decision \<ge> 3 then WLCNTADD txrel_size_update (ucast release) l else l))"

text \<open>How many numbers at the start of the window wait for nothing.\<close>

definition settled :: "tid_ini \<Rightarrow> nat" where
  "settled i =
     (let range = unat (MODSUB_SEQ (MODADD_SEQ (ini_max_seq i) 1) (ini_start_seq i)) in
      length (takeWhile (\<lambda>indx. \<not> ini_ackpending i ! indx \<and> \<not> ini_barpending i ! indx)
        (tx_indices (TX_SEQ_TO_INDEX (ini_start_seq i)) range)))"

definition wlc_ampdu_ini_move_window :: "tx_conf \<Rightarrow> link \<Rightarrow> link" where
  "wlc_ampdu_ini_move_window cf l =
     (let i = lk_ini l; n = settled i in
      if ini_ba_wsize i = 0 then l
      else wlc_ampdu_txeval cf False
        (upd_ini (\<lambda>i. i\<lparr>ini_start_seq := MODADD_SEQ (ini_start_seq i) (of_nat n),
                        ini_rem_window := ini_rem_window i + of_nat n,
                        ini_alive := (n \<noteq> 0 \<or> ini_alive i)\<rparr>) l))"

definition wlc_ampdu_txflowcontrol :: "tx_conf \<Rightarrow> link \<Rightarrow> link" where
  "wlc_ampdu_txflowcontrol cf l =
     (let total = cf_others cf + length (lk_txq l) + unat (ini_tx_in_transit (lk_ini l)) in
      if lk_stopped l
      then if total \<le> cf_hiwat cf then lk_emit (Flow_control (cf_qi cf) False) (l\<lparr>lk_stopped := False\<rparr>) else l
      else if total \<ge> cf_hiwat cf then lk_emit (Flow_control (cf_qi cf) True) (l\<lparr>lk_stopped := True\<rparr>) else l)"

subsection \<open>Block ack requests\<close>

text \<open>A frame that was given up.\<close>

definition bar_clear :: "nat \<Rightarrow> tid_ini \<Rightarrow> tid_ini" where
  "bar_clear indx i =
     (if ini_barpending i ! indx
      then
        let i = i\<lparr>ini_barpending := (ini_barpending i)[indx := False]\<rparr>
        in if ini_ackpending i ! indx
           then i\<lparr>ini_ackpending := (ini_ackpending i)[indx := False], ini_txretry := (ini_txretry i)[indx := 0],
                  ini_tx_in_transit := ini_tx_in_transit i - 1\<rparr>
           else i
      else i)"

text \<open>\<open>wlc_send_bar_complete\<close> up to the next request, for an initiator that is in use.\<close>

definition bar_done :: "tx_conf \<Rightarrow> bool \<Rightarrow> link \<Rightarrow> link" where
  "bar_done cf acked l =
     (let l = upd_ini (\<lambda>i. i\<lparr>ini_bar_ackpending := False\<rparr>) l; i = lk_ini l;
          indx = TX_SEQ_TO_INDEX (ini_start_seq i); endindex = TX_SEQ_TO_INDEX (ini_bar_ackpending_seq i);
          n = (endindex + AMPDU_TX_BA_MAX_WSIZE - indx) mod AMPDU_TX_BA_MAX_WSIZE;
          l = (if acked then wlc_ampdu_ini_move_window cf (upd_ini (fold bar_clear (tx_indices indx n)) l) else l)
      in wlc_ampdu_txflowcontrol cf l)"

text \<open>The offset of the last number in the window that is to be given up.\<close>

definition last_barpending :: "tid_ini \<Rightarrow> nat option" where
  "last_barpending i =
     fold (\<lambda>j r. if ini_barpending i ! ((TX_SEQ_TO_INDEX (ini_start_seq i) + j) mod AMPDU_TX_BA_MAX_WSIZE) then Some j else r)
       [0..<unat (ini_ba_wsize i) - unat (ini_rem_window i)] None"

lemma bar_cnt_release [simp]: "ini_bar_cnt (lk_ini (fold (release_one cf) ps l)) = ini_bar_cnt (lk_ini l)"
  by (induction ps arbitrary: l) (simp_all add: release_one_def Let_def lk_emit_def upd_ini_def)

lemma lk_ini_cnt [simp]: "lk_ini (WLCNTADD u n l) = lk_ini l"
  by (simp add: WLCNTADD_def)

lemma lk_ini_upd [simp]: "lk_ini (upd_ini f l) = f (lk_ini l)"
  by (simp add: upd_ini_def)

lemma bar_cnt_wlc_release [simp]: "ini_bar_cnt (lk_ini (wlc_ampdu_release cf n l)) = ini_bar_cnt (lk_ini l)"
  by (simp add: wlc_ampdu_release_def Let_def)

lemma bar_cnt_txeval [simp]: "ini_bar_cnt (lk_ini (wlc_ampdu_txeval cf f l)) = ini_bar_cnt (lk_ini l)"
  by (simp add: wlc_ampdu_txeval_def Let_def)

lemma bar_cnt_move [simp]: "ini_bar_cnt (lk_ini (wlc_ampdu_ini_move_window cf l)) = ini_bar_cnt (lk_ini l)"
  by (simp add: wlc_ampdu_ini_move_window_def Let_def)

lemma lk_ini_flow [simp]: "lk_ini (wlc_ampdu_txflowcontrol cf l) = lk_ini l"
  by (simp add: wlc_ampdu_txflowcontrol_def Let_def lk_emit_def)

lemma bar_cnt_clear [simp]: "ini_bar_cnt (fold bar_clear xs i) = ini_bar_cnt i"
  by (induction xs arbitrary: i) (simp_all add: bar_clear_def Let_def)

lemma bar_cnt_done [simp]: "ini_bar_cnt (lk_ini (bar_done cf acked l)) = ini_bar_cnt (lk_ini l)"
  by (simp add: bar_done_def Let_def)

text \<open>\<open>wlc_ampdu_send_bar\<close>. With \<open>no_bar\<close> set the request counts as sent and acknowledged at once, and
  \<open>wlc_send_bar_complete\<close> calls the routine again; the retry counter bounds the recursion.\<close>

function (sequential) wlc_ampdu_send_bar :: "tx_conf \<Rightarrow> bool \<Rightarrow> link \<Rightarrow> link" where
  "wlc_ampdu_send_bar cf start l =
     (let i = lk_ini l; retry = (\<lambda>why. upd_ini (\<lambda>i. i\<lparr>ini_retry_bar := why\<rparr>)) in
      if ini_bar_ackpending i \<or> ini_state i \<noteq> BA_ON \<or> ini_bar_cnt i \<ge> AMPDU_BAR_RETRY_CNT then l
      else if ini_bar_cnt i = drop_bit 1 AMPDU_BAR_RETRY_CNT
      then retry AMPDU_R_BAR_HALF_RETRY_CNT (upd_ini (\<lambda>i. i\<lparr>ini_bar_cnt := ini_bar_cnt i + 1\<rparr>) l)
      else
        (case (if start then Some (ini_start_seq i)
               else map_option (\<lambda>offset. MODADD_SEQ (ini_start_seq i) (of_nat (offset + 1))) (last_barpending i)) of
           None \<Rightarrow> upd_ini (\<lambda>i. i\<lparr>ini_bar_cnt := 0\<rparr>) l
         | Some seq \<Rightarrow>
           let sent = upd_ini (\<lambda>i. i\<lparr>ini_bar_cnt := ini_bar_cnt i + 1, ini_bar_ackpending := True, ini_bar_ackpending_seq := seq\<rparr>)
           in if cf_no_bar cf then wlc_ampdu_send_bar cf False (bar_done cf True (sent l))
              else if cf_blocked cf then retry AMPDU_R_BAR_BLOCKED l
              else if cf_bar cf = BAR_NO_BUFFER then retry AMPDU_R_BAR_NO_BUFFER l
              else
                let l = lk_emit (Bar (cf_sta cf) (cf_tid cf) seq) l
                in if cf_bar cf = BAR_CALLBACK_FAIL then retry AMPDU_R_BAR_CALLBACK_FAIL l
                   else sent (WLCNTADD txbar_update 1 l)))"
  by pat_completeness auto

lemma bar_cnt_step: "\<not> (n :: uint8) \<ge> AMPDU_BAR_RETRY_CNT \<Longrightarrow> 50 - unat (n + 1) < 50 - unat n"
proof -
  assume "\<not> n \<ge> AMPDU_BAR_RETRY_CNT"
  then have "unat n < 50" by (simp add: word_le_nat_alt AMPDU_BAR_RETRY_CNT_def)
  moreover from this have "unat (n + 1) = unat n + 1" by (simp add: unat_word_ariths)
  ultimately show ?thesis by simp
qed

termination wlc_ampdu_send_bar
  by (relation "measure (\<lambda>(cf, start, l). 50 - unat (ini_bar_cnt (lk_ini l)))") (simp, simp add: upd_ini_def bar_cnt_step)

declare wlc_ampdu_send_bar.simps [simp del]

definition wlc_send_bar_complete :: "tx_conf \<Rightarrow> bool \<Rightarrow> link \<Rightarrow> link" where
  "wlc_send_bar_complete cf acked l = wlc_ampdu_send_bar cf False (bar_done cf acked l)"

subsection \<open>Completion\<close>

definition ack_clear :: "nat \<Rightarrow> tid_ini \<Rightarrow> tid_ini" where
  "ack_clear indx i =
     i\<lparr>ini_ackpending := (ini_ackpending i)[indx := False], ini_barpending := (ini_barpending i)[indx := False],
       ini_txretry := (ini_txretry i)[indx := 0], ini_tx_in_transit := ini_tx_in_transit i - 1\<rparr>"

definition set_barpending :: "nat \<Rightarrow> tid_ini \<Rightarrow> tid_ini" where
  "set_barpending indx i = i\<lparr>ini_barpending := (ini_barpending i)[indx := True]\<rparr>"

text \<open>Noting a frame that is sent once more.\<close>

definition note_retry :: "uint16 \<Rightarrow> uint8 \<Rightarrow> tid_ini \<Rightarrow> tid_ini" where
  "note_retry seq n i =
     i\<lparr>ini_txretry := (ini_txretry i)[TX_SEQ_TO_INDEX seq := n],
       ini_retry_seq := (ini_retry_seq i)[unat (ini_retry_tail i) := seq],
       ini_retry_tail := of_nat (NEXT_TX_INDEX (unat (ini_retry_tail i))), ini_retry_cnt := ini_retry_cnt i + 1\<rparr>"

text \<open>\<open>outside\<close>: the number is not in the window.\<close>

definition outside :: "uint16 \<Rightarrow> tid_ini \<Rightarrow> bool" where
  "outside seq i \<longleftrightarrow> MODSUB_SEQ seq (ini_start_seq i) \<ge> ucast (ini_ba_wsize i)"

text \<open>A frame of an agreement that was sent alone; \<open>pmq\<close>: suppressed by an access point for a station
  that sleeps.\<close>

definition wlc_ampdu_dotxstatus_regmpdu :: "tx_conf \<Rightarrow> bool \<Rightarrow> bool \<Rightarrow> uint16 \<Rightarrow> link \<Rightarrow> link" where
  "wlc_ampdu_dotxstatus_regmpdu cf acked pmq seq l =
     (let indx = TX_SEQ_TO_INDEX seq; i = lk_ini l in
      if outside seq i then l
      else if \<not> ini_ackpending i ! indx then l
      else if acked
      then wlc_ampdu_txflowcontrol cf (wlc_ampdu_ini_move_window cf (upd_ini (ack_clear indx) l))
      else
        let l = WLCNTADD txreg_noack_update 1 l
        in if pmq then upd_ini (\<lambda>i. note_retry seq (ini_txretry i ! indx + 1) i) l
           else wlc_ampdu_txflowcontrol cf (wlc_ampdu_send_bar cf False (upd_ini (set_barpending indx) l)))"

text \<open>
  An aggregate: its frames with their numbers; the block ack, if any came: its start and bitmap;
  whether frames are to be retried at all; the retry limits; whether the aggregate probes a rate.
\<close>

record ampdu_status =
  st_frames :: "(pkt \<times> uint16) list"
  st_ba :: "(uint16 \<times> bool list) option"
  st_retry :: bool
  st_retry_limit :: uint8
  st_rr_retry_limit :: uint8
  st_probe :: bool

definition acked_by :: "(uint16 \<times> bool list) option \<Rightarrow> uint16 \<Rightarrow> bool" where
  "acked_by ba seq =
     (case ba of None \<Rightarrow> False
      | Some (start, bitmap) \<Rightarrow>
        let bindex = unat (MODSUB_SEQ seq start) in bindex < AMPDU_BA_BITS_IN_BITMAP \<and> bitmap ! bindex)"

text \<open>One frame of the aggregate; the flag tells that a request is to be sent.\<close>

definition tx_complete_one :: "tx_conf \<Rightarrow> ampdu_status \<Rightarrow> pkt \<times> uint16 \<Rightarrow> link \<times> bool \<Rightarrow> link \<times> bool" where
  "tx_complete_one cf st = (\<lambda>(p, seq) (l, send_bar).
     (let i = lk_ini l; indx = TX_SEQ_TO_INDEX seq; txretry = ini_txretry i ! indx in
      if outside seq i then (lk_emit (Pktfree p) l, send_bar)
      else if acked_by (st_ba st) seq
      then (lk_emit (Pktfree p) (if ini_ackpending i ! indx then upd_ini (ack_clear indx) l else l), send_bar)
      else if st_retry st \<and> txretry < st_retry_limit st
      then
        (lk_emit (Txretry (cf_sta cf) p)
          (upd_ini (note_retry seq (if st_probe st \<and> txretry < st_rr_retry_limit st then st_rr_retry_limit st else txretry + 1)) l),
         send_bar)
      else (lk_emit (Pktfree p) (upd_ini (set_barpending indx) l), True)))"

definition wlc_ampdu_dotxstatus_complete :: "tx_conf \<Rightarrow> ampdu_status \<Rightarrow> link \<Rightarrow> link" where
  "wlc_ampdu_dotxstatus_complete cf st l =
     (let l = (if st_ba st = None then WLCNTADD noba_update 1 l else l);
          (l, send_bar) = fold (tx_complete_one cf st) (st_frames st) (l, False);
          l = (if send_bar then wlc_ampdu_send_bar cf False l else l)
      in wlc_ampdu_ini_move_window cf l)"

subsection \<open>Frames on their way down\<close>

definition pop_retry :: "tid_ini \<Rightarrow> tid_ini" where
  "pop_retry i =
     i\<lparr>ini_retry_seq := (ini_retry_seq i)[unat (ini_retry_head i) := 0],
       ini_retry_head := of_nat (NEXT_TX_INDEX (unat (ini_retry_head i))), ini_retry_cnt := ini_retry_cnt i - 1\<rparr>"

definition retry_head :: "tid_ini \<Rightarrow> uint16" where "retry_head i = ini_retry_seq i ! unat (ini_retry_head i)"

text \<open>Retried frames that got lost before this one; the number is in the queue, so \<open>ini_retry_cnt\<close> turns
  are enough.\<close>

fun rnhole_loop :: "nat \<Rightarrow> uint16 \<Rightarrow> link \<Rightarrow> link" where
  "rnhole_loop 0 seq l = l"
| "rnhole_loop (Suc n) seq l =
     (if retry_head (lk_ini l) = seq then l
      else rnhole_loop n seq
        (WLCNTADD txrnhole_update 1
          (upd_ini (\<lambda>i. pop_retry (set_barpending (TX_SEQ_TO_INDEX (retry_head i)) i)) l)))"

definition exp_first_try :: "tx_conf \<Rightarrow> uint16 \<Rightarrow> link \<Rightarrow> link option" where
  "exp_first_try cf seq l =
     (let i = lk_ini l; offset = MODSUB_SEQ seq (ini_tx_exp_seq i); next = (\<lambda>i. i\<lparr>ini_tx_exp_seq := NEXT_SEQ seq\<rparr>) in
      if ini_tx_exp_seq i = seq then Some (upd_ini next l)
      else if offset > 0x800 then None
      else if outside seq i then None
      else Some (upd_ini next (wlc_ampdu_send_bar cf False
             (upd_ini (fold set_barpending (tx_indices (TX_SEQ_TO_INDEX (ini_tx_exp_seq i)) (unat offset)))
               (WLCNTADD txr0hole_update (ucast offset) l)))))"

definition exp_retried :: "tx_conf \<Rightarrow> uint16 \<Rightarrow> link \<Rightarrow> link option" where
  "exp_retried cf seq l =
     (let i = lk_ini l; n = unat (ini_retry_cnt i) in
      if n \<noteq> 0 \<and> retry_head i = seq then Some (upd_ini pop_retry l)
      else if seq \<in> set (map (\<lambda>x. ini_retry_seq i ! x) (tx_indices (unat (ini_retry_head i)) n))
      then Some (upd_ini pop_retry (wlc_ampdu_send_bar cf False (rnhole_loop n seq l)))
      else None)"

text \<open>Whether the frame is sent.\<close>

definition ampdu_is_exp_seq :: "tx_conf \<Rightarrow> uint16 \<Rightarrow> link \<Rightarrow> link \<times> bool" where
  "ampdu_is_exp_seq cf seq l =
     (let indx = TX_SEQ_TO_INDEX seq; txretry = ini_txretry (lk_ini l) ! indx in
      (case (if txretry = 0 then exp_first_try cf seq l else exp_retried cf seq l) of
         None \<Rightarrow> (WLCNTADD txrlag_update 1 l, False)
       | Some l \<Rightarrow>
         if txretry \<noteq> 0 \<and> ini_state (lk_ini l) = BA_PENDING_OFF then (upd_ini (set_barpending indx) l, False)
         else (l, True)))"

subsection \<open>Starting and ending an agreement\<close>

definition new_ini :: "nat \<Rightarrow> tid_ini" where
  "new_ini addr =
     \<lparr>ini_addr = addr, ini_state = BA_PENDING_ON, ini_ba_wsize = 0, ini_tx_in_transit = 0,
      ini_txretry = replicate AMPDU_TX_BA_MAX_WSIZE 0, ini_ackpending = replicate AMPDU_TX_BA_MAX_WSIZE False,
      ini_barpending = replicate AMPDU_TX_BA_MAX_WSIZE False, ini_start_seq = 0, ini_max_seq = 0, ini_tx_exp_seq = 0,
      ini_rem_window = 0, ini_bar_ackpending_seq = 0, ini_retry_seq = replicate AMPDU_TX_BA_MAX_WSIZE 0, ini_retry_head = 0,
      ini_retry_tail = 0, ini_retry_cnt = 0, ini_bar_ackpending = False, ini_free_me = False, ini_alive = False,
      ini_retry_bar = AMPDU_R_BAR_DISABLED, ini_bar_cnt = 0, ini_addba_req_cnt = 0, ini_cleanup_ini_cnt = 0, ini_dead_cnt = 0,
      ini_off_cnt = 0\<rparr>"

text \<open>The peer accepts: the window starts at the next number.\<close>

definition ini_turn_on :: "uint8 \<Rightarrow> link \<Rightarrow> link" where
  "ini_turn_on wsize l =
     (let start = lk_seqnum l AND 0xFFF in
      upd_ini (\<lambda>i. i\<lparr>ini_ba_wsize := wsize, ini_rem_window := ucast wsize, ini_start_seq := start, ini_tx_exp_seq := start,
                      ini_max_seq := MODSUB_SEQ start 1, ini_state := BA_ON\<rparr>) l)"

text \<open>\<open>moved\<close>: frames for this agreement that waited in the driver's queue and now go to the end of ours.\<close>

definition ini_accepted :: "tx_conf \<Rightarrow> uint8 \<Rightarrow> pkt list \<Rightarrow> link \<Rightarrow> link" where
  "ini_accepted cf wsize moved l =
     (let l = wlc_ampdu_send_bar cf True (WLCNTADD rxaddbaresp_update 1 (ini_turn_on wsize l));
          l = l\<lparr>lk_txq := lk_txq l @ moved\<rparr>
      in wlc_ampdu_txeval cf False l)"

text \<open>What \<open>ampdu_cleanup_tid_ini\<close> does before it looks whether the initiator can go.\<close>

definition ini_wind_down :: "tx_conf \<Rightarrow> link \<Rightarrow> link" where
  "ini_wind_down cf l =
     (let l = upd_ini (\<lambda>i. i\<lparr>ini_state := BA_PENDING_OFF\<rparr>) l in
      if ini_bar_ackpending (lk_ini l) then l
      else fold (\<lambda>indx l. if ini_barpending (lk_ini l) ! indx then wlc_ampdu_ini_move_window cf (upd_ini (bar_clear indx) l) else l)
             [0..<AMPDU_TX_BA_MAX_WSIZE] l)"

end
