(* ===== verification/AmpduStep.thy ===== *)
theory AmpduStep
  imports AmpduTx
begin

text \<open>
  How the routines of \<^theory_text>\<open>AmpduTx\<close> are put together: a preorder on links that holds for the elementary
  changes (\<open>link_relation\<close>) holds for every routine, from \<open>wlc_ampdu_txeval\<close> to the completions and
  requests. \<^theory_text>\<open>AmpduWin\<close> uses it for the transmit window, \<^theory_text>\<open>AmpduSafe\<close> for the fields beside it.
\<close>

lemma tx_indices_less: "\<forall>k \<in> set (tx_indices i n). k < 128"
  by (auto simp: tx_indices_def AMPDU_TX_BA_MAX_WSIZE_def)

lemma tx_release_bound: "unat (tx_release cf l) \<le> length (lk_txq l)"
proof -
  have "unat (tx_release cf l) \<le> unat (of_nat (length (lk_txq l)) :: uint16)"
    unfolding tx_release_def word_le_nat_alt [symmetric] by (rule order.trans [OF min.cobounded2 min.cobounded1])
  also have "\<dots> \<le> length (lk_txq l)" by (simp add: unsigned_of_nat take_bit_nat_less_eq_self)
  finally show ?thesis .
qed

text \<open>Moving the start of the window over what is settled.\<close>

definition move_start :: "nat \<Rightarrow> tid_ini \<Rightarrow> tid_ini" where
  "move_start n i = i\<lparr>ini_start_seq := MODADD_SEQ (ini_start_seq i) (of_nat n), ini_rem_window := ini_rem_window i + of_nat n,
                     ini_alive := (n \<noteq> 0 \<or> ini_alive i)\<rparr>"

lemma move_window_start:
  "wlc_ampdu_ini_move_window cf l =
     (if ini_ba_wsize (lk_ini l) = 0 then l else wlc_ampdu_txeval cf False (upd_ini (move_start (settled (lk_ini l))) l))"
  unfolding wlc_ampdu_ini_move_window_def Let_def move_start_def [abs_def] ..

definition bar_sent :: "uint16 \<Rightarrow> tid_ini \<Rightarrow> tid_ini" where
  "bar_sent seq i = i\<lparr>ini_bar_cnt := ini_bar_cnt i + 1, ini_bar_ackpending := True, ini_bar_ackpending_seq := seq\<rparr>"

lemma bar_sent_unfold:
  "(\<lambda>i. i\<lparr>ini_bar_cnt := ini_bar_cnt i + 1, ini_bar_ackpending := True, ini_bar_ackpending_seq := seq\<rparr>) = bar_sent seq"
  by (rule ext) (simp add: bar_sent_def)

subsection \<open>Preorders on links\<close>

locale link_relation =
  fixes R :: "link \<Rightarrow> link \<Rightarrow> bool"
  assumes same: "R l l"
    and trans: "R l l' \<Longrightarrow> R l' l'' \<Longrightarrow> R l l''"
    and cnt: "R l (WLCNTADD u x l)"
    and event: "(\<And>a t p q. e \<noteq> Txmpdu a t p q) \<Longrightarrow> R l (lk_emit e l)"
    and stopped: "R l (l\<lparr>lk_stopped := b\<rparr>)"
    and release: "unat n \<le> length (lk_txq l) \<Longrightarrow> n \<noteq> 0 \<Longrightarrow> R l (wlc_ampdu_release cf n l)"
    and window: "ini_ba_wsize (lk_ini l) \<noteq> 0 \<Longrightarrow> R l (upd_ini (move_start (settled (lk_ini l))) l)"
    and clear: "\<forall>k \<in> set ks. k < 128 \<Longrightarrow> R l (upd_ini (fold bar_clear ks) l)"
    and ack: "\<not> outside seq (lk_ini l) \<Longrightarrow> ini_ackpending (lk_ini l) ! TX_SEQ_TO_INDEX seq \<Longrightarrow> unat seq < 4096 \<Longrightarrow>
      R l (upd_ini (ack_clear (TX_SEQ_TO_INDEX seq)) l)"
    and set: "R l (upd_ini (fold set_barpending ks) l)"
    and retried: "R l (upd_ini (note_retry seq y) l)"
    and popped: "R l (upd_ini pop_retry l)"
    and pending: "R l (upd_ini (\<lambda>i. i\<lparr>ini_bar_ackpending := False\<rparr>) l)"
    and why: "R l (upd_ini (\<lambda>i. i\<lparr>ini_retry_bar := w\<rparr>) l)"
    and count: "R l (upd_ini (\<lambda>i. i\<lparr>ini_bar_cnt := g i\<rparr>) l)"
    and sent: "R l (upd_ini (bar_sent seq) l)"
    and expect: "R l (upd_ini (\<lambda>i. i\<lparr>ini_tx_exp_seq := seq\<rparr>) l)"
begin

lemmas trans3 = trans [OF _ trans]

lemma txeval: "R l (wlc_ampdu_txeval cf force l)"
proof (cases "ini_state (lk_ini l) \<noteq> BA_ON \<or> tx_release cf l = 0 \<or> tx_decision cf force l = 0")
  case True
  then show ?thesis by (simp add: wlc_ampdu_txeval_def Let_def same)
next
  case False
  define l1 where "l1 = (if tx_decision cf force l = 2 then WLCNTADD txrel_wm_update (ucast (tx_release cf l)) l
      else if tx_decision cf force l \<ge> 3 then WLCNTADD txrel_size_update (ucast (tx_release cf l)) l else l)"
  have "R l l1" by (simp add: l1_def cnt same)
  moreover have "lk_txq l1 = lk_txq l" by (simp add: l1_def WLCNTADD_def)
  then have "R l1 (wlc_ampdu_release cf (tx_release cf l) l1)" using release tx_release_bound False by metis
  moreover have "wlc_ampdu_txeval cf force l = wlc_ampdu_release cf (tx_release cf l) l1"
    unfolding wlc_ampdu_txeval_def Let_def if_not_P [OF False] l1_def ..
  ultimately show ?thesis using trans by metis
qed

lemma flow: "R l (wlc_ampdu_txflowcontrol cf l)"
proof -
  have "R l (lk_emit (Flow_control q b) (l\<lparr>lk_stopped := b\<rparr>))" for q b
    by (rule trans [OF stopped event]) simp
  then show ?thesis by (simp add: wlc_ampdu_txflowcontrol_def Let_def same)
qed

lemma move: "R l (wlc_ampdu_ini_move_window cf l)"
  using trans [OF window txeval] same by (simp add: move_window_start)

lemma bar_done_step: "R l (bar_done cf acked l)"
proof -
  let ?l1 = "upd_ini (\<lambda>i. i\<lparr>ini_bar_ackpending := False\<rparr>) l"
  have 2: "R ?l1 (upd_ini (fold bar_clear (tx_indices a n)) ?l1)" for a n by (rule clear [OF tx_indices_less])
  show ?thesis unfolding bar_done_def Let_def
    by (rule trans [OF _ flow], cases acked) (simp_all only: if_True if_False pending trans [OF trans [OF pending 2] move])
qed

lemma send_bar: "R l (wlc_ampdu_send_bar cf start l)"
proof (induction cf start l rule: wlc_ampdu_send_bar.induct)
  case (1 cf start l)
  let ?i = "lk_ini l"
  let ?seq = "if start then Some (ini_start_seq ?i)
    else map_option (\<lambda>offset. MODADD_SEQ (ini_start_seq ?i) (of_nat (offset + 1))) (last_barpending ?i)"
  have bar: "R x (lk_emit (ampdu_event.Bar a t q) x)" for x a t q by (rule event) simp
  show ?case
  proof (cases "ini_bar_ackpending ?i \<or> ini_state ?i \<noteq> BA_ON \<or> ini_bar_cnt ?i \<ge> AMPDU_BAR_RETRY_CNT")
    case True
    then show ?thesis by (subst wlc_ampdu_send_bar.simps) (simp add: Let_def same)
  next
    case go: False
    show ?thesis
    proof (cases "ini_bar_cnt ?i = drop_bit 1 AMPDU_BAR_RETRY_CNT")
      case True
      show ?thesis
        by (subst wlc_ampdu_send_bar.simps) (simp only: Let_def if_not_P [OF go] if_P [OF True] trans [OF count why])
    next
      case half: False
      show ?thesis
      proof (cases ?seq)
        case None
        show ?thesis by (subst wlc_ampdu_send_bar.simps) (simp only: Let_def if_not_P [OF go] if_not_P [OF half] None option.case count)
      next
        case (Some seq)
        have "R (bar_done cf True (upd_ini (bar_sent seq) l)) (wlc_ampdu_send_bar cf False (bar_done cf True (upd_ini (bar_sent seq) l)))"
          if "cf_no_bar cf" unfolding bar_sent_unfold [symmetric] by (rule 1 [OF refl refl go half Some refl that])
        then have nb: "R l (wlc_ampdu_send_bar cf False (bar_done cf True (upd_ini (bar_sent seq) l)))" if "cf_no_bar cf"
          using that trans [OF sent trans [OF bar_done_step]] by blast
        show ?thesis
          apply (subst wlc_ampdu_send_bar.simps)
          apply (simp only: Let_def if_not_P [OF go] if_not_P [OF half] Some option.case bar_sent_unfold)
          apply (cases "cf_no_bar cf")
           apply (simp only: if_True nb)
          apply (cases "cf_blocked cf")
           apply (simp only: if_True if_False why)
          apply (cases "cf_bar cf")
            apply (simp_all only: bar_out.distinct if_True if_False why trans [OF bar why] trans3 [OF bar cnt sent] simp_thms)
          done
      qed
    qed
  qed
qed

lemma bar_complete: "R l (wlc_send_bar_complete cf acked l)"
  unfolding wlc_send_bar_complete_def by (rule trans [OF bar_done_step send_bar])

lemma regmpdu: "unat seq < 4096 \<Longrightarrow> R l (wlc_ampdu_dotxstatus_regmpdu cf acked pmq seq l)"
proof -
  assume seq: "unat seq < 4096"
  have "R x (upd_ini (set_barpending k) x)" for x k using set [of x "[k]"] by simp
  then have give: "R x (wlc_ampdu_txflowcontrol cf (wlc_ampdu_send_bar cf False (upd_ini (set_barpending k) x)))" for x k
    using trans3 [OF _ send_bar flow] by blast
  have retry: "R x (upd_ini (\<lambda>i. note_retry seq (ini_txretry i ! k + 1) i) x)" for x k
    using retried [of x seq "ini_txretry (lk_ini x) ! k + 1"] by (simp add: upd_ini_def)
  show ?thesis
    unfolding wlc_ampdu_dotxstatus_regmpdu_def Let_def
    using trans3 [OF ack move flow] trans [OF cnt retry] trans [OF cnt give] same seq by (simp split: if_split)
qed

lemma complete_one:
  assumes "unat (snd f) < 4096"
  shows "R (fst lb) (fst (tx_complete_one cf st f lb))"
proof -
  have free: "R x (lk_emit (Pktfree p) x)" "R x (lk_emit (Txretry a p) x)" for x p a by (rule event, simp)+
  obtain p seq l b where e: "f = (p, seq)" "lb = (l, b)" by fastforce
  have ack: "R l (lk_emit (Pktfree p) (upd_ini (ack_clear (TX_SEQ_TO_INDEX seq)) l))"
    if "\<not> outside seq (lk_ini l)" "ini_ackpending (lk_ini l) ! TX_SEQ_TO_INDEX seq"
    by (rule trans [OF ack [OF that] free(1)]) (use assms e in simp)
  have ret: "R l (lk_emit (Txretry a p) (upd_ini (note_retry seq n) l))" for a n by (rule trans [OF retried free(2)])
  have give: "R l (lk_emit (Pktfree p) (upd_ini (set_barpending k) l))" for k
    using trans [OF set [of l "[k]"] free(1)] by simp
  show ?thesis unfolding tx_complete_one_def e Let_def prod.case fst_conv
    using ack ret give free by (simp split: if_split)
qed

lemma complete_fold: "\<forall>f \<in> List.set fs. unat (snd f) < 4096 \<Longrightarrow> R (fst lb) (fst (fold (tx_complete_one cf st) fs lb))"
proof (induction fs arbitrary: lb)
  case (Cons f fs)
  then show ?case using trans [OF complete_one [of f lb cf st]] by simp
qed (simp add: same)

lemma complete:
  assumes "\<forall>f \<in> List.set (st_frames st). unat (snd f) < 4096"
  shows "R l (wlc_ampdu_dotxstatus_complete cf st l)"
proof -
  define l0 where "l0 = (if st_ba st = None then WLCNTADD noba_update 1 l else l)"
  obtain l1 b where f: "fold (tx_complete_one cf st) (st_frames st) (l0, False) = (l1, b)" by fastforce
  have "R l l0" by (simp add: l0_def cnt same)
  moreover have "R l0 l1" using complete_fold [OF assms, of "(l0, False)" cf st] by (simp add: f)
  moreover have "R l1 (if b then wlc_ampdu_send_bar cf False l1 else l1)" by (simp add: send_bar same)
  moreover have "wlc_ampdu_dotxstatus_complete cf st l = wlc_ampdu_ini_move_window cf (if b then wlc_ampdu_send_bar cf False l1 else l1)"
    unfolding wlc_ampdu_dotxstatus_complete_def Let_def l0_def [symmetric] f by simp
  ultimately show ?thesis by (metis trans move)
qed

lemma rnhole: "R l (rnhole_loop n seq l)"
proof (induction n arbitrary: l)
  case (Suc n)
  let ?k = "TX_SEQ_TO_INDEX (retry_head (lk_ini l))"
  have "R l (upd_ini pop_retry (upd_ini (set_barpending ?k) l))" using trans [OF set [of l "[?k]"] popped] by simp
  then have "R l (upd_ini (\<lambda>i. pop_retry (set_barpending (TX_SEQ_TO_INDEX (retry_head i)) i)) l)" by (simp add: upd_ini_def)
  then show ?case using trans [OF _ trans [OF cnt Suc.IH]] same by simp
qed (simp add: same)

lemma is_exp_seq: "R l (fst (ampdu_is_exp_seq cf seq l))"
proof -
  have 1: "R l l'" if "exp_first_try cf seq l = Some l'" for l'
    using that trans [OF cnt trans [OF set trans [OF send_bar expect]]] expect
    by (auto simp: exp_first_try_def Let_def split: if_splits)
  have 2: "R l l'" if "exp_retried cf seq l = Some l'" for l'
    using that trans [OF rnhole trans [OF send_bar popped]] popped
    by (auto simp: exp_retried_def Let_def tx_indices_def split: if_splits)
  have "R x (upd_ini (set_barpending k) x)" for x k using set [of x "[k]"] by simp
  then show ?thesis
    using trans [OF 1] trans [OF 2] 1 2 cnt
    by (auto simp: ampdu_is_exp_seq_def Let_def split: option.splits if_splits)
qed

text \<open>The end of an agreement, after it was marked as such.\<close>

lemma wind_down: "R (upd_ini (\<lambda>i. i\<lparr>ini_state := BA_PENDING_OFF\<rparr>) l) (ini_wind_down cf l)"
proof -
  let ?g = "\<lambda>indx l. if ini_barpending (lk_ini l) ! indx then wlc_ampdu_ini_move_window cf (upd_ini (bar_clear indx) l) else l"
  have g: "R x (?g k x)" if "k < 128" for k x
    using that trans [OF clear [of "[k]" x] move] same by simp
  have "R x (fold ?g ks x)" if "\<forall>k \<in> List.set ks. k < 128" for x ks
    using that
  proof (induction ks arbitrary: x)
    case (Cons k ks)
    have "k < 128" "\<forall>k \<in> List.set ks. k < 128" using Cons.prems by simp_all
    from trans [OF g [OF this(1)] Cons.IH [OF this(2)]] show ?case by (simp only: fold_simps)
  qed (simp add: same)
  then show ?thesis by (simp add: ini_wind_down_def Let_def AMPDU_TX_BA_MAX_WSIZE_def same)
qed

end

end
