(* ===== verification/AmpduWin.thy ===== *)
theory AmpduWin
  imports AmpduStep AmpduRx
begin

text \<open>
  The transmit window: what the fields of an initiator mean in terms of true, unbounded sequence
  numbers; that every routine of \<^theory_text>\<open>AmpduTx\<close> keeps that meaning; and what follows for the frames.
\<close>

subsection \<open>The window\<close>

text \<open>\<open>M\<close> is the start of the window, \<open>T\<close> the next number to use, \<open>A\<close> the numbers whose
  acknowledgement is awaited. Before an agreement is accepted its window has size 0.\<close>

definition tx_rel :: "tid_ini \<Rightarrow> nat \<Rightarrow> nat \<Rightarrow> nat set \<Rightarrow> bool" where
  "tx_rel i M T A \<longleftrightarrow>
     length (ini_ackpending i) = 128 \<and> length (ini_barpending i) = 128 \<and> length (ini_txretry i) = 128 \<and>
     unat (ini_start_seq i) = M mod 4096 \<and> (ini_ba_wsize i \<noteq> 0 \<longrightarrow> unat (MODADD_SEQ (ini_max_seq i) 1) = T mod 4096) \<and> M \<le> T \<and>
     T - M + unat (ini_rem_window i) = unat (ini_ba_wsize i) \<and> unat (ini_ba_wsize i) \<le> 128 \<and> A \<subseteq> {M..<T} \<and>
     (\<forall>k < 128. ini_ackpending i ! k \<longleftrightarrow> k \<in> (\<lambda>n. n mod 128) ` A) \<and> unat (ini_tx_in_transit i) = card A"

lemma tx_relD:
  assumes "tx_rel i M T A"
  shows "length (ini_ackpending i) = 128" "length (ini_barpending i) = 128" "length (ini_txretry i) = 128"
    "unat (ini_start_seq i) = M mod 4096" "ini_ba_wsize i \<noteq> 0 \<Longrightarrow> unat (MODADD_SEQ (ini_max_seq i) 1) = T mod 4096" "M \<le> T"
    "T - M + unat (ini_rem_window i) = unat (ini_ba_wsize i)" "unat (ini_ba_wsize i) \<le> 128" "A \<subseteq> {M..<T}"
    "\<And>k. k < 128 \<Longrightarrow> ini_ackpending i ! k \<longleftrightarrow> k \<in> (\<lambda>n. n mod 128) ` A" "unat (ini_tx_in_transit i) = card A"
    "T \<le> M + 128" "T - M < 4096" "finite A" "card A \<le> 128"
proof -
  show "length (ini_ackpending i) = 128" "length (ini_barpending i) = 128" "length (ini_txretry i) = 128"
    "unat (ini_start_seq i) = M mod 4096" "ini_ba_wsize i \<noteq> 0 \<Longrightarrow> unat (MODADD_SEQ (ini_max_seq i) 1) = T mod 4096" "M \<le> T"
    "T - M + unat (ini_rem_window i) = unat (ini_ba_wsize i)" "unat (ini_ba_wsize i) \<le> 128" "A \<subseteq> {M..<T}"
    "\<And>k. k < 128 \<Longrightarrow> ini_ackpending i ! k \<longleftrightarrow> k \<in> (\<lambda>n. n mod 128) ` A" "unat (ini_tx_in_transit i) = card A"
    using assms unfolding tx_rel_def by blast+
  then show l: "T \<le> M + 128" "T - M < 4096" by linarith+
  show fin: "finite A" using \<open>A \<subseteq> {M..<T}\<close> finite_subset by blast
  have "card A \<le> card {M..<T}" by (rule card_mono) (use \<open>A \<subseteq> {M..<T}\<close> in auto)
  then show "card A \<le> 128" using l(1) by simp
qed

lemma mod128_inj: "M \<le> i \<Longrightarrow> i < M + 128 \<Longrightarrow> M \<le> n \<Longrightarrow> n < M + 128 \<Longrightarrow> i mod 128 = n mod 128 \<Longrightarrow> i = (n :: nat)"
proof (induction i n rule: linorder_wlog)
  case (le i n)
  then have "(n - i) mod 128 = 0" by (metis mod_eq_dvd_iff_nat mod_0_imp_dvd dvd_imp_mod_0)
  moreover have "n - i < 128" using le by linarith
  ultimately show ?case using le by simp
qed auto

lemma tx_index_mod: "unat s = n mod 4096 \<Longrightarrow> TX_SEQ_TO_INDEX s = n mod 128"
  by (simp add: TX_SEQ_TO_INDEX_def AMPDU_TX_BA_MAX_WSIZE_def mod_mod_cancel)

lemma tx_indices_mod: "tx_indices (n mod 128) k = map (\<lambda>j. (n + j) mod 128) [0..<k]"
  by (simp add: tx_indices_def AMPDU_TX_BA_MAX_WSIZE_def mod_add_left_eq)

lemma ackpending_iff:
  assumes "tx_rel i M T A" "M \<le> n" "n < M + 128"
  shows "ini_ackpending i ! (n mod 128) \<longleftrightarrow> n \<in> A"
proof
  assume "ini_ackpending i ! (n mod 128)"
  then obtain k where k: "k \<in> A" "n mod 128 = k mod 128" using tx_relD(10) [OF assms(1), of "n mod 128"] by auto
  have "M \<le> k" "k < M + 128" using k(1) tx_relD(9,12) [OF assms(1)] by (auto dest: subsetD)
  then show "n \<in> A" using mod128_inj [of M n k] assms(2,3) k by simp
next
  assume "n \<in> A"
  then show "ini_ackpending i ! (n mod 128)" using tx_relD(10) [OF assms(1), of "n mod 128"] by auto
qed

lemma MODADD_SEQ_mod: "unat x = n mod 4096 \<Longrightarrow> unat (MODADD_SEQ x (of_nat k)) = (n + k) mod 4096"
proof -
  assume x: "unat x = n mod 4096"
  have "unat (MODADD_SEQ x (of_nat k)) = (unat x + unat (of_nat k :: uint16)) mod 65536 mod 4096"
    unfolding MODADD_SEQ_def unat_mask12 by (simp add: unat_word_ariths)
  also have "\<dots> = (unat x + k mod 65536) mod 4096" by (simp add: unsigned_of_nat take_bit_eq_mod mod_mod_cancel)
  also have "\<dots> = (unat x + k mod 65536 mod 4096) mod 4096" by (simp add: mod_add_right_eq)
  also have "k mod 65536 mod 4096 = k mod 4096" by (simp add: mod_mod_cancel)
  finally show ?thesis unfolding x by (simp add: mod_add_eq)
qed

text \<open>A change of fields that are not part of the window.\<close>

lemma tx_rel_cong:
  assumes "tx_rel i M T A" "ini_ackpending i' = ini_ackpending i" "length (ini_barpending i') = 128" "length (ini_txretry i') = 128"
    "ini_start_seq i' = ini_start_seq i" "ini_max_seq i' = ini_max_seq i" "ini_rem_window i' = ini_rem_window i"
    "ini_ba_wsize i' = ini_ba_wsize i" "ini_tx_in_transit i' = ini_tx_in_transit i"
  shows "tx_rel i' M T A"
  using assms unfolding tx_rel_def by simp

subsection \<open>Moving the window\<close>

lemma settled_spec:
  assumes "tx_rel i M T A" "ini_ba_wsize i \<noteq> 0"
  shows "settled i \<le> T - M" "n \<in> A \<Longrightarrow> M + settled i \<le> n"
proof -
  note w = tx_relD [OF assms(1)]
  have r: "unat (MODSUB_SEQ (MODADD_SEQ (ini_max_seq i) 1) (ini_start_seq i)) = T - M"
    using MODSUB_SEQ_nat [of "MODADD_SEQ (ini_max_seq i) 1" "ini_start_seq i"] mod4096_ahead [OF w(6,13)] unfolding w(4) w(5) [OF assms(2)] by simp
  let ?P = "\<lambda>indx. \<not> ini_ackpending i ! indx \<and> \<not> ini_barpending i ! indx"
  let ?xs = "map (\<lambda>j. (M + j) mod 128) [0..<T - M]"
  have s: "settled i = length (takeWhile ?P ?xs)"
    unfolding settled_def r Let_def tx_index_mod [OF w(4)] tx_indices_mod ..
  show "settled i \<le> T - M" unfolding s using length_takeWhile_le [of ?P ?xs] by simp
  assume n: "n \<in> A"
  show "M + settled i \<le> n"
  proof (rule ccontr)
    assume "\<not> M + settled i \<le> n"
    moreover have "M \<le> n" "n < T" using n w(9) by auto
    ultimately have lt: "n - M < length (takeWhile ?P ?xs)" and nx: "n - M < T - M" by (simp_all add: s)
    have "?P (takeWhile ?P ?xs ! (n - M))" by (rule set_takeWhileD [OF nth_mem [OF lt], THEN conjunct2])
    moreover have "takeWhile ?P ?xs ! (n - M) = n mod 128" using takeWhile_nth [OF lt] nx \<open>M \<le> n\<close> by simp
    moreover have "n < M + 128" using \<open>n < T\<close> w(12) by simp
    ultimately show False using ackpending_iff [OF assms(1) \<open>M \<le> n\<close>] n by simp
  qed
qed

lemma move_rel:
  assumes "tx_rel i M T A" "ini_ba_wsize i \<noteq> 0"
  shows "tx_rel (i\<lparr>ini_start_seq := MODADD_SEQ (ini_start_seq i) (of_nat (settled i)),
      ini_rem_window := ini_rem_window i + of_nat (settled i), ini_alive := x\<rparr>) (M + settled i) T A"
proof -
  note w = tx_relD [OF assms(1)] and s = settled_spec [OF assms]
  have "unat (ini_rem_window i + of_nat (settled i)) = unat (ini_rem_window i) + settled i"
    using s(1) w(7,8) by (simp add: unat_word_ariths unsigned_of_nat take_bit_nat_eq_self)
  then show ?thesis
    using w s MODADD_SEQ_mod [OF w(4), of "settled i"] unfolding tx_rel_def by auto
qed

subsection \<open>Acknowledgements\<close>

text \<open>Clearing one bit.\<close>

lemma clear_rel:
  assumes "tx_rel i M T A" "k < 128" "ini_ackpending i ! k"
    "ini_ackpending i' = (ini_ackpending i)[k := False]" "length (ini_barpending i') = 128" "length (ini_txretry i') = 128"
    "ini_start_seq i' = ini_start_seq i" "ini_max_seq i' = ini_max_seq i" "ini_rem_window i' = ini_rem_window i"
    "ini_ba_wsize i' = ini_ba_wsize i" "ini_tx_in_transit i' = ini_tx_in_transit i - 1"
  shows "\<exists>n \<in> A. n mod 128 = k \<and> tx_rel i' M T (A - {n})"
proof -
  note w = tx_relD [OF assms(1)]
  obtain n where n: "n \<in> A" "n mod 128 = k" using w(10) [OF assms(2)] assms(3) by auto
  have "card A \<noteq> 0" using n(1) w(14) by auto
  then have c: "unat (ini_tx_in_transit i') = card (A - {n})"
    using w(11,14) n(1) assms(11) by (simp add: unat_minus_one unat_eq_0 [symmetric])
  have bit: "ini_ackpending i' ! j \<longleftrightarrow> j \<in> (\<lambda>n. n mod 128) ` (A - {n})" if j: "j < 128" for j
  proof (cases "j = k")
    case True
    have bnd: "M \<le> x" "x < M + 128" if "x \<in> A" for x using that w(9,12) by (auto dest!: subsetD)
    have "x = n" if "x \<in> A" "x mod 128 = k" for x
      using mod128_inj [of M x n] that n bnd by simp
    then show ?thesis using True w(1) assms(2,4) by auto
  next
    case False
    have "ini_ackpending i' ! j = ini_ackpending i ! j" using False by (simp add: assms(4))
    also have "\<dots> \<longleftrightarrow> j \<in> (\<lambda>n. n mod 128) ` (A - {n})" unfolding w(10) [OF j] using False n(2) by auto
    finally show ?thesis .
  qed
  have "tx_rel i' M T (A - {n})"
    unfolding tx_rel_def assms(4-10) using w(1-9) c bit assms(4-6) by auto
  then show ?thesis using n by blast
qed

lemma ack_clear_rel:
  assumes "tx_rel i M T A" "\<not> outside seq i" "ini_ackpending i ! TX_SEQ_TO_INDEX seq" "unat seq < 4096"
  shows "\<exists>n \<in> A. n mod 4096 = unat seq \<and> tx_rel (ack_clear (TX_SEQ_TO_INDEX seq) i) M T (A - {n})"
proof -
  note w = tx_relD [OF assms(1)]
  have k: "TX_SEQ_TO_INDEX seq < 128" by (simp add: TX_SEQ_TO_INDEX_def AMPDU_TX_BA_MAX_WSIZE_def)
  obtain n where n: "n \<in> A" "n mod 128 = TX_SEQ_TO_INDEX seq" "tx_rel (ack_clear (TX_SEQ_TO_INDEX seq) i) M T (A - {n})"
    using clear_rel [OF assms(1) k assms(3), of "ack_clear (TX_SEQ_TO_INDEX seq) i"] w(1-3) unfolding ack_clear_def by auto
  define v where "v = unat (MODSUB_SEQ seq (ini_start_seq i))"
  have start: "unat (ini_start_seq i) < 4096" unfolding w(4) by simp
  have v: "v = (unat seq + 4096 - M mod 4096) mod 4096"
    using MODSUB_SEQ_nat [OF assms(4) start] unfolding w(4) v_def .
  have "v < unat (ini_ba_wsize i)"
    using assms(2) unfolding outside_def word_le_nat_alt v_def
    by (simp add: not_le unsigned_ucast_eq take_bit_nat_eq_self unat8_less order.strict_trans [OF unat8_less])
  then have v128: "v < 128" using w(8) by linarith
  have q: "(M + v) mod 4096 = unat seq"
  proof -
    have "(M + v) mod 4096 = (M mod 4096 + (unat seq + 4096 - M mod 4096)) mod 4096" unfolding v by (metis mod_add_left_eq mod_add_right_eq)
    also have "M mod 4096 + (unat seq + 4096 - M mod 4096) = unat seq + 4096"
      using mod_less_divisor [of 4096 M] by linarith
    finally show ?thesis using assms(4) by simp
  qed
  have "(M + v) mod 128 = n mod 128" unfolding n(2) using tx_index_mod [of seq "M + v"] q by simp
  moreover have "M \<le> n" "n < M + 128" using n(1) w(9,12) by (auto dest!: subsetD)
  ultimately have "n = M + v" using mod128_inj [of M n "M + v"] v128 by simp
  then show ?thesis using n(1,3) q by blast
qed

lemma bar_clear_rel:
  assumes "tx_rel i M T A" "k < 128"
  shows "\<exists>A' \<subseteq> A. tx_rel (bar_clear k i) M T A'"
proof (cases "ini_barpending i ! k \<and> ini_ackpending i ! k")
  case True
  note w = tx_relD [OF assms(1)]
  obtain n where "n \<in> A" "tx_rel (bar_clear k i) M T (A - {n})"
    using clear_rel [OF assms, of "bar_clear k i"] True w(1-3) unfolding bar_clear_def Let_def by auto
  then show ?thesis by blast
next
  case False
  note w = tx_relD [OF assms(1)]
  have "tx_rel (bar_clear k i) M T A"
    by (rule tx_rel_cong [OF assms(1)]) (use False w(1-3) in \<open>auto simp: bar_clear_def Let_def\<close>)
  then show ?thesis by blast
qed

lemma fold_bar_clear_rel: "tx_rel i M T A \<Longrightarrow> \<forall>k \<in> set xs. k < 128 \<Longrightarrow> \<exists>A' \<subseteq> A. tx_rel (fold bar_clear xs i) M T A'"
proof (induction xs arbitrary: i A)
  case (Cons x xs)
  obtain A1 where A1: "A1 \<subseteq> A" "tx_rel (bar_clear x i) M T A1" using bar_clear_rel [OF Cons.prems(1), of x] Cons.prems(2) by auto
  then obtain A2 where "A2 \<subseteq> A1" "tx_rel (fold bar_clear xs (bar_clear x i)) M T A2" using Cons.IH [OF A1(2)] Cons.prems(2) by auto
  then show ?case using A1(1) by auto
qed auto

subsection \<open>Releasing frames\<close>

lemma release_rel:
  assumes "tx_rel i M T A" "unat seq = S mod 4096" "T \<le> S" "Suc S - T \<le> unat (ini_rem_window i)"
  shows "tx_rel (i\<lparr>ini_ackpending := (ini_ackpending i)[TX_SEQ_TO_INDEX seq := True], ini_max_seq := seq,
      ini_rem_window := ini_rem_window i - of_nat (Suc S - T), ini_tx_in_transit := ini_tx_in_transit i + 1\<rparr>) M (Suc S) (insert S A)"
proof -
  note w = tx_relD [OF assms(1)]
  have S: "S \<notin> A" "M \<le> S" "S < M + 128" using assms(3,4) w(6-9) by auto
  have "Suc S - T \<le> 128" using assms(4) w(7,8) by linarith
  then have "unat (of_nat (Suc S - T) :: uint16) = Suc S - T" by (simp add: unsigned_of_nat take_bit_nat_eq_self)
  then have rem: "unat (ini_rem_window i - of_nat (Suc S - T)) = unat (ini_rem_window i) - (Suc S - T)"
    using assms(4) unat_sub [of "of_nat (Suc S - T)" "ini_rem_window i"] by (simp add: word_le_nat_alt)
  have "card (insert S A) \<le> card {M..<M + 128}" by (rule card_mono) (use S w(9,12) in auto)
  then have "card A + 1 \<le> 128" using S(1) w(14) by simp
  then have trans: "unat (ini_tx_in_transit i + 1) = card (insert S A)"
    using w(11) S(1) w(14) by (simp add: unat_word_ariths)
  have k: "TX_SEQ_TO_INDEX seq = S mod 128" by (rule tx_index_mod [OF assms(2)])
  have bit: "(ini_ackpending i)[TX_SEQ_TO_INDEX seq := True] ! j \<longleftrightarrow> j \<in> (\<lambda>n. n mod 128) ` insert S A" if "j < 128" for j
    using w(10) [OF that] w(1) that unfolding k by (cases "j = S mod 128") auto
  have seq: "unat (MODADD_SEQ seq 1) = Suc S mod 4096" using MODADD_SEQ_mod [OF assms(2), of 1] by simp
  show ?thesis unfolding tx_rel_def
    using w(1-9) rem trans bit seq S assms(3,4) by auto
qed

definition sent :: "ampdu_event list \<Rightarrow> (pkt \<times> uint16) list" where
  "sent = List.map_filter (\<lambda>e. case e of Txmpdu a t p q \<Rightarrow> Some (p, q) | _ \<Rightarrow> None)"

lemma sent_append: "sent (es @ fs) = sent es @ sent fs"
  by (simp add: sent_def List.map_filter_def)

text \<open>Frames with their true numbers, as they were sent.\<close>

definition numbered :: "(nat \<times> pkt) list \<Rightarrow> (pkt \<times> uint16) list" where
  "numbered = map (\<lambda>(n, p). (p, of_nat (n mod 4096)))"

lemma seqnum_next: "unat (x AND 0xFFF :: uint16) = S mod 4096 \<Longrightarrow> unat ((x + 1) AND 0xFFF) = Suc S mod 4096"
proof -
  assume "unat (x AND 0xFFF) = S mod 4096"
  then have x: "unat x mod 4096 = S mod 4096" by (simp add: unat_mask12)
  have "unat ((x + 1) AND 0xFFF) = (unat x + 1) mod 65536 mod 4096" unfolding unat_mask12 by (simp add: unat_word_ariths)
  also have "\<dots> = (unat x + 1) mod 4096" by (simp add: mod_mod_cancel)
  also have "\<dots> = Suc S mod 4096" using x by (metis Suc_eq_plus1 mod_Suc_eq)
  finally show ?thesis .
qed

lemma release_loop:
  assumes "tx_rel ((lk_ini l)\<lparr>ini_rem_window := R, ini_tx_in_transit := C\<rparr>) M T A" "unat (lk_seqnum l AND 0xFFF) = S mod 4096" "T \<le> S"
    "S - T + length ps \<le> unat R" "lk_txq l = ps @ q" "ps \<noteq> []"
  shows "tx_rel ((lk_ini (fold (release_one cf) ps l))\<lparr>ini_rem_window := R - of_nat (S - T + length ps), ini_tx_in_transit := C + of_nat (length ps)\<rparr>)
      M (S + length ps) (A \<union> {S..<S + length ps}) \<and>
    lk_txq (fold (release_one cf) ps l) = q \<and>
    sent (lk_events (fold (release_one cf) ps l)) = sent (lk_events l) @ numbered (zip [S..<S + length ps] ps) \<and>
    unat (lk_seqnum (fold (release_one cf) ps l) AND 0xFFF) = (S + length ps) mod 4096 \<and>
    ini_rem_window (lk_ini (fold (release_one cf) ps l)) = ini_rem_window (lk_ini l) \<and>
    ini_tx_in_transit (lk_ini (fold (release_one cf) ps l)) = ini_tx_in_transit (lk_ini l) \<and>
    ini_ba_wsize (lk_ini (fold (release_one cf) ps l)) = ini_ba_wsize (lk_ini l)"
  using assms
proof (induction ps arbitrary: l R C T A S)
  case (Cons p ps)
  let ?i = "(lk_ini l)\<lparr>ini_rem_window := R, ini_tx_in_transit := C\<rparr>"
  let ?seq = "lk_seqnum l AND 0xFFF"
  let ?l1 = "release_one cf p l"
  have rem: "Suc S - T \<le> unat (ini_rem_window ?i)" using Cons.prems(3,4) by simp
  have i1: "(lk_ini ?l1)\<lparr>ini_rem_window := R - of_nat (Suc S - T), ini_tx_in_transit := C + 1\<rparr> =
      ?i\<lparr>ini_ackpending := (ini_ackpending ?i)[TX_SEQ_TO_INDEX ?seq := True], ini_max_seq := ?seq,
        ini_rem_window := ini_rem_window ?i - of_nat (Suc S - T), ini_tx_in_transit := ini_tx_in_transit ?i + 1\<rparr>"
    by (simp add: release_one_def Let_def lk_emit_def)
  have r1: "tx_rel ((lk_ini ?l1)\<lparr>ini_rem_window := R - of_nat (Suc S - T), ini_tx_in_transit := C + 1\<rparr>) M (Suc S) (insert S A)"
    unfolding i1 by (rule release_rel [OF Cons.prems(1,2,3) rem])
  have q1: "lk_txq ?l1 = ps @ q" using Cons.prems(5) by (simp add: release_one_def Let_def lk_emit_def upd_ini_def)
  have "?seq = of_nat (unat ?seq)" by simp
  then have "?seq = of_nat (S mod 4096)" unfolding Cons.prems(2) .
  then have e1: "sent (lk_events ?l1) = sent (lk_events l) @ [(p, of_nat (S mod 4096))]"
    by (simp add: release_one_def Let_def lk_emit_def upd_ini_def sent_append) (simp add: sent_def List.map_filter_def)
  have s1: "unat (lk_seqnum ?l1 AND 0xFFF) = Suc S mod 4096"
    using seqnum_next [OF Cons.prems(2)] by (simp add: release_one_def Let_def lk_emit_def upd_ini_def)
  have f1: "ini_rem_window (lk_ini ?l1) = ini_rem_window (lk_ini l)" "ini_tx_in_transit (lk_ini ?l1) = ini_tx_in_transit (lk_ini l)"
      "ini_ba_wsize (lk_ini ?l1) = ini_ba_wsize (lk_ini l)"
    by (simp_all add: release_one_def Let_def lk_emit_def)
  show ?case
  proof (cases "ps = []")
    case True
    then show ?thesis using r1 q1 e1 s1 f1 Cons.prems(3)
      by (simp add: numbered_def Suc_diff_le)
  next
    case False
    have "unat (of_nat (Suc S - T) :: uint16) = Suc S - T"
      using rem unat16_less [of R] by (simp add: unsigned_of_nat take_bit_nat_eq_self)
    then have "unat (R - of_nat (Suc S - T)) = unat R - (Suc S - T)"
      using rem unat_sub [of "of_nat (Suc S - T)" R] by (simp add: word_le_nat_alt)
    then have l1: "Suc S - Suc S + length ps \<le> unat (R - of_nat (Suc S - T))" using Cons.prems(3,4) by simp
    note ih = Cons.IH [OF r1 s1 order.refl l1 q1 False]
    have R: "R - of_nat (Suc S - T) - of_nat (Suc S - Suc S + length ps) = R - of_nat (S - T + length (p # ps))"
      using Cons.prems(3) by (simp add: Suc_diff_le)
    have C: "C + 1 + of_nat (length ps) = C + of_nat (length (p # ps))" by simp
    have A: "insert S A \<union> {Suc S..<Suc S + length ps} = A \<union> {S..<S + length (p # ps)}" by auto
    have "[S..<S + length (p # ps)] = S # [Suc S..<Suc S + length ps]" by (simp add: upt_conv_Cons del: upt_Suc)
    then have Z: "numbered (zip [S..<S + length (p # ps)] (p # ps)) = (p, of_nat (S mod 4096)) # numbered (zip [Suc S..<Suc S + length ps] ps)"
      by (simp add: numbered_def)
    show ?thesis using ih unfolding R C A e1 f1 fold_Cons o_apply Z by (simp del: of_nat_Suc)
  qed
qed simp

subsection \<open>Steps\<close>

text \<open>\<open>steps l l'\<close>: the window moves on; frames leave the queue at its front and get the numbers from the
  counter \<open>S\<close> on, when that is less than a window past \<open>T\<close>.\<close>

definition step_to :: "nat \<Rightarrow> nat \<Rightarrow> nat set \<Rightarrow> nat \<Rightarrow> link \<Rightarrow> link \<Rightarrow> nat \<Rightarrow> nat set \<Rightarrow> (nat \<times> pkt) list \<Rightarrow> bool" where
  "step_to M T A S l l' M' A' ds \<longleftrightarrow>
     tx_rel (lk_ini l') M' (if ds = [] then T else S + length ds) A' \<and> M \<le> M' \<and> A' \<subseteq> A \<union> fst ` set ds \<and>
     ini_ba_wsize (lk_ini l') = ini_ba_wsize (lk_ini l) \<and> lk_txq l = map snd ds @ lk_txq l' \<and>
     sent (lk_events l') = sent (lk_events l) @ numbered ds \<and> map fst ds = [S..<S + length ds] \<and>
     unat (lk_seqnum l' AND 0xFFF) = (S + length ds) mod 4096 \<and> (ds \<noteq> [] \<longrightarrow> S < T + unat (ini_ba_wsize (lk_ini l)))"

definition steps :: "link \<Rightarrow> link \<Rightarrow> bool" where
  "steps l l' \<longleftrightarrow> (\<forall>M T A S. tx_rel (lk_ini l) M T A \<and> T \<le> S \<and> S < T + 4096 \<and> unat (lk_seqnum l AND 0xFFF) = S mod 4096 \<longrightarrow>
     (\<exists>M' A' ds. step_to M T A S l l' M' A' ds))"

lemma stepsI:
  "(\<And>M T A S. tx_rel (lk_ini l) M T A \<Longrightarrow> T \<le> S \<Longrightarrow> S < T + 4096 \<Longrightarrow> unat (lk_seqnum l AND 0xFFF) = S mod 4096 \<Longrightarrow> \<exists>M' A' ds. step_to M T A S l l' M' A' ds) \<Longrightarrow>
   steps l l'"
  unfolding steps_def by blast

lemma stepsD:
  "steps l l' \<Longrightarrow> tx_rel (lk_ini l) M T A \<Longrightarrow> T \<le> S \<Longrightarrow> S < T + 4096 \<Longrightarrow> unat (lk_seqnum l AND 0xFFF) = S mod 4096 \<Longrightarrow> \<exists>M' A' ds. step_to M T A S l l' M' A' ds"
  unfolding steps_def by blast

lemma step_toD:
  assumes "step_to M T A S l l' M' A' ds"
  shows "tx_rel (lk_ini l') M' (if ds = [] then T else S + length ds) A'" "M \<le> M'" "A' \<subseteq> A \<union> fst ` set ds"
    "ini_ba_wsize (lk_ini l') = ini_ba_wsize (lk_ini l)" "lk_txq l = map snd ds @ lk_txq l'"
    "sent (lk_events l') = sent (lk_events l) @ numbered ds" "map fst ds = [S..<S + length ds]"
    "unat (lk_seqnum l' AND 0xFFF) = (S + length ds) mod 4096" "ds \<noteq> [] \<Longrightarrow> S < T + unat (ini_ba_wsize (lk_ini l))"
  using assms unfolding step_to_def by blast+

lemma numbered_append: "numbered (ds @ es) = numbered ds @ numbered es"
  by (simp add: numbered_def)

lemma steps_trans:
  assumes "steps l l'" "steps l' l''"
  shows "steps l l''"
proof (rule stepsI)
  fix M T A S assume r: "tx_rel (lk_ini l) M T A" "T \<le> S" "S < T + 4096" "unat (lk_seqnum l AND 0xFFF) = S mod 4096"
  obtain M1 A1 ds where st1: "step_to M T A S l l' M1 A1 ds" using stepsD [OF assms(1) r] by blast
  note 1 = step_toD [OF st1]
  let ?T1 = "if ds = [] then T else S + length ds"
  have "?T1 \<le> S + length ds" "S + length ds < ?T1 + 4096" using r(2,3) by simp_all
  from stepsD [OF assms(2) 1(1) this 1(8)] obtain M2 A2 es where
    st2: "step_to M1 ?T1 A1 (S + length ds) l' l'' M2 A2 es" by blast
  note 2 = step_toD [OF st2]
  have "tx_rel (lk_ini l'') M2 (if ds @ es = [] then T else S + length (ds @ es)) A2"
    using 2(1) by (cases "es = []"; cases "ds = []") (simp_all add: add.assoc)
  moreover have "A2 \<subseteq> A \<union> fst ` set (ds @ es)" using 1(3) 2(3) by auto
  moreover have "map fst (ds @ es) = [S..<S + length (ds @ es)]"
    using upt_add_eq_append [of S "S + length ds" "length es"] 1(7) 2(7) by (simp add: add.assoc)
  moreover have "S < T + unat (ini_ba_wsize (lk_ini l))" if "ds @ es \<noteq> []"
    using that 1(9) 2(9) 1(4) by (cases "ds = []") auto
  ultimately have "step_to M T A S l l'' M2 A2 (ds @ es)"
    unfolding step_to_def using 1(2,4,5,6) 2(2,4,5,6,8) by (simp add: numbered_append add.assoc)
  then show "\<exists>M' A' ds. step_to M T A S l l'' M' A' ds" by blast
qed

text \<open>Steps that send nothing.\<close>

lemma steps_quiet:
  assumes "\<And>M T A. tx_rel (lk_ini l) M T A \<Longrightarrow> \<exists>M' A'. tx_rel (lk_ini l') M' T A' \<and> M \<le> M' \<and> A' \<subseteq> A"
    "ini_ba_wsize (lk_ini l') = ini_ba_wsize (lk_ini l)" "lk_txq l' = lk_txq l" "sent (lk_events l') = sent (lk_events l)"
    "lk_seqnum l' = lk_seqnum l"
  shows "steps l l'"
proof (rule stepsI)
  fix M T A S assume r: "tx_rel (lk_ini l) M T A" "T \<le> S" "S < T + 4096" "unat (lk_seqnum l AND 0xFFF) = S mod 4096"
  obtain M' A' where "tx_rel (lk_ini l') M' T A'" "M \<le> M'" "A' \<subseteq> A" using assms(1) [OF r(1)] by blast
  then have "step_to M T A S l l' M' A' []" unfolding step_to_def using assms(2-5) r(4) by (simp add: numbered_def)
  then show "\<exists>M' A' ds. step_to M T A S l l' M' A' ds" by blast
qed

lemma steps_same:
  "lk_ini l' = lk_ini l \<Longrightarrow> lk_txq l' = lk_txq l \<Longrightarrow> sent (lk_events l') = sent (lk_events l) \<Longrightarrow> lk_seqnum l' = lk_seqnum l \<Longrightarrow> steps l l'"
  by (rule steps_quiet) auto

lemma steps_refl [simp]: "steps l l"
  by (rule steps_same) simp_all

lemma steps_cnt [simp]: "steps l (WLCNTADD u n l)"
  by (rule steps_same) (simp_all add: WLCNTADD_def)

lemma steps_emit: "(\<And>a t p q. e \<noteq> Txmpdu a t p q) \<Longrightarrow> steps l (lk_emit e l)"
  by (rule steps_same) (cases e; simp add: lk_emit_def sent_append; simp add: sent_def List.map_filter_def)+

lemma steps_upd:
  assumes "\<And>M T A. tx_rel (lk_ini l) M T A \<Longrightarrow> \<exists>M' A'. tx_rel (f (lk_ini l)) M' T A' \<and> M \<le> M' \<and> A' \<subseteq> A"
    "ini_ba_wsize (f (lk_ini l)) = ini_ba_wsize (lk_ini l)"
  shows "steps l (upd_ini f l)"
  by (rule steps_quiet) (use assms in \<open>simp_all add: upd_ini_def\<close>)

text \<open>Changes beside the window.\<close>

lemma steps_beside:
  assumes "ini_ackpending (f (lk_ini l)) = ini_ackpending (lk_ini l)"
    "length (ini_barpending (f (lk_ini l))) = length (ini_barpending (lk_ini l))"
    "length (ini_txretry (f (lk_ini l))) = length (ini_txretry (lk_ini l))"
    "ini_start_seq (f (lk_ini l)) = ini_start_seq (lk_ini l)" "ini_max_seq (f (lk_ini l)) = ini_max_seq (lk_ini l)"
    "ini_rem_window (f (lk_ini l)) = ini_rem_window (lk_ini l)" "ini_ba_wsize (f (lk_ini l)) = ini_ba_wsize (lk_ini l)"
    "ini_tx_in_transit (f (lk_ini l)) = ini_tx_in_transit (lk_ini l)"
  shows "steps l (upd_ini f l)"
proof (rule steps_upd)
  fix M T A assume r: "tx_rel (lk_ini l) M T A"
  have "tx_rel (f (lk_ini l)) M T A"
    by (rule tx_rel_cong [OF r assms(1) _ _ assms(4-8)]) (simp_all add: assms(2,3) tx_relD(2,3) [OF r])
  then show "\<exists>M' A'. tx_rel (f (lk_ini l)) M' T A' \<and> M \<le> M' \<and> A' \<subseteq> A" by blast
qed (rule assms(7))

lemma release_blocked: "unat (MODSUB_SEQ (lk_seqnum l AND 0xFFF) (MODADD_SEQ (ini_max_seq (lk_ini l)) 1)) + unat n > unat (ini_rem_window (lk_ini l)) \<Longrightarrow>
    wlc_ampdu_release cf n l = l"
  by (simp add: wlc_ampdu_release_def Let_def)

lemma steps_release:
  assumes "unat n \<le> length (lk_txq l)" "n \<noteq> 0"
  shows "steps l (wlc_ampdu_release cf n l)"
proof (rule stepsI)
  fix M T A S assume r: "tx_rel (lk_ini l) M T A" "T \<le> S" "S < T + 4096" "unat (lk_seqnum l AND 0xFFF) = S mod 4096"
  note w = tx_relD [OF r(1)]
  let ?i = "lk_ini l" and ?seq = "lk_seqnum l AND 0xFFF" and ?ps = "take (unat n) (lk_txq l)"
  let ?delta = "MODSUB_SEQ ?seq (MODADD_SEQ (ini_max_seq ?i) 1)"
  show "\<exists>M' A' ds. step_to M T A S l (wlc_ampdu_release cf n l) M' A' ds"
  proof (cases "unat ?delta + unat n > unat (ini_rem_window ?i)")
    case True
    then show ?thesis using stepsD [OF steps_refl r] by (simp add: release_blocked)
  next
    case False
    have "0 < unat n" using assms(2) by (simp add: unat_gt_0)
    then have "0 < unat (ini_rem_window ?i)" using False by linarith
    then have "unat (ini_ba_wsize ?i) \<noteq> 0" using w(7) by linarith
    then have "ini_ba_wsize ?i \<noteq> 0" by auto
    note w5 = w(5) [OF this]
    have b: "unat ?seq < 4096" "unat (MODADD_SEQ (ini_max_seq ?i) 1) < 4096" by (simp_all add: unat_mask12 w5)
    have "S - T < 4096" using r(2,3) by linarith
    then have d: "unat ?delta = S - T" using MODSUB_SEQ_nat [OF b] mod4096_ahead [OF r(2)] unfolding w5 r(4) by simp
    let ?l0 = "upd_ini (\<lambda>i. i\<lparr>ini_rem_window := ini_rem_window i - (n + ?delta), ini_tx_in_transit := ini_tx_in_transit i + ucast n\<rparr>) l"
    have len: "length ?ps = unat n" using assms(1) by simp
    have ne: "?ps \<noteq> []" using len assms(2) by (metis list.size(3) unat_eq_0)
    have q: "lk_txq ?l0 = ?ps @ drop (unat n) (lk_txq l)" by (simp add: upd_ini_def)
    have i0: "(lk_ini ?l0)\<lparr>ini_rem_window := ini_rem_window ?i, ini_tx_in_transit := ini_tx_in_transit ?i\<rparr> = ?i" by simp
    have pre: "tx_rel ((lk_ini ?l0)\<lparr>ini_rem_window := ini_rem_window ?i, ini_tx_in_transit := ini_tx_in_transit ?i\<rparr>) M T A"
      unfolding i0 by (rule r)
    have s0: "unat (lk_seqnum ?l0 AND 0xFFF) = S mod 4096" using r(4) by (simp add: upd_ini_def)
    have ST: "S - T + length ?ps \<le> unat (ini_rem_window ?i)" using False len d by simp
    note loop = release_loop [OF pre s0 r(2) ST q ne, of cf]
    let ?l' = "fold (release_one cf) ?ps ?l0"
    have l': "wlc_ampdu_release cf n l = ?l'" using False by (simp add: wlc_ampdu_release_def Let_def)
    have "(of_nat (S - T + length ?ps) :: uint16) = n + ?delta" unfolding len d [symmetric] by simp
    moreover have "(of_nat (length ?ps) :: uint8) = ucast n" unfolding len by simp
    ultimately have fin: "(lk_ini ?l')\<lparr>ini_rem_window := ini_rem_window ?i - of_nat (S - T + length ?ps),
        ini_tx_in_transit := ini_tx_in_transit ?i + of_nat (length ?ps)\<rparr> = lk_ini ?l'"
      using loop by simp
    let ?ds = "zip [S..<S + length ?ps] ?ps"
    have ds: "length ?ds = length ?ps" "?ds \<noteq> []" "map fst ?ds = [S..<S + length ?ps]" "map snd ?ds = ?ps"
      using ne by (auto simp: zip_eq_Nil_iff)
    have "fst ` set ?ds = {S..<S + length ?ps}" using ds(3) by (metis set_map set_upt)
    moreover have "S < T + unat (ini_ba_wsize ?i)" using ST ne w(7) by (cases ?ps) auto
    moreover have "lk_txq l = map snd ?ds @ lk_txq ?l'" using conjunct1 [OF conjunct2 [OF loop]] unfolding ds(4) by simp
    ultimately have "step_to M T A S l ?l' M (A \<union> {S..<S + length ?ps}) ?ds"
      unfolding step_to_def ds(1) if_not_P [OF ds(2)] using loop unfolding fin using ds(3) by (simp add: upd_ini_def)
    then show ?thesis unfolding l' by blast
  qed
qed

subsection \<open>Every routine is a step\<close>

lemma steps_window:
  assumes "ini_ba_wsize (lk_ini l) \<noteq> 0"
  shows "steps l (upd_ini (move_start (settled (lk_ini l))) l)"
proof (rule steps_upd)
  fix M T A assume "tx_rel (lk_ini l) M T A"
  from move_rel [OF this assms]
  show "\<exists>M' A'. tx_rel (move_start (settled (lk_ini l)) (lk_ini l)) M' T A' \<and> M \<le> M' \<and> A' \<subseteq> A"
    unfolding move_start_def by (intro exI [of _ "M + settled (lk_ini l)"] exI [of _ A]) simp
qed (simp add: move_start_def)

lemma steps_clear: "\<forall>k \<in> set ks. k < 128 \<Longrightarrow> steps l (upd_ini (fold bar_clear ks) l)"
proof (rule steps_upd)
  assume ks: "\<forall>k \<in> set ks. k < 128"
  fix M T A assume "tx_rel (lk_ini l) M T A"
  from fold_bar_clear_rel [OF this ks] show "\<exists>M' A'. tx_rel (fold bar_clear ks (lk_ini l)) M' T A' \<and> M \<le> M' \<and> A' \<subseteq> A" by auto
next
  have "ini_ba_wsize (fold bar_clear ks i) = ini_ba_wsize i" for i by (induction ks arbitrary: i) (simp_all add: bar_clear_def Let_def)
  then show "ini_ba_wsize (fold bar_clear ks (lk_ini l)) = ini_ba_wsize (lk_ini l)" .
qed

lemma steps_ack_clear:
  assumes "\<not> outside seq (lk_ini l)" "ini_ackpending (lk_ini l) ! TX_SEQ_TO_INDEX seq" "unat seq < 4096"
  shows "steps l (upd_ini (ack_clear (TX_SEQ_TO_INDEX seq)) l)"
proof (rule steps_upd)
  fix M T A assume "tx_rel (lk_ini l) M T A"
  from ack_clear_rel [OF this assms] show "\<exists>M' A'. tx_rel (ack_clear (TX_SEQ_TO_INDEX seq) (lk_ini l)) M' T A' \<and> M \<le> M' \<and> A' \<subseteq> A" by auto
qed (simp add: ack_clear_def)

lemma steps_fold_set_barpending: "steps l (upd_ini (fold set_barpending xs) l)"
proof -
  have "ini_ackpending (fold set_barpending xs i) = ini_ackpending i \<and>
    length (ini_barpending (fold set_barpending xs i)) = length (ini_barpending i) \<and>
    ini_txretry (fold set_barpending xs i) = ini_txretry i \<and> ini_start_seq (fold set_barpending xs i) = ini_start_seq i \<and>
    ini_max_seq (fold set_barpending xs i) = ini_max_seq i \<and> ini_rem_window (fold set_barpending xs i) = ini_rem_window i \<and>
    ini_ba_wsize (fold set_barpending xs i) = ini_ba_wsize i \<and> ini_tx_in_transit (fold set_barpending xs i) = ini_tx_in_transit i" for i
    by (induction xs arbitrary: i) (simp_all add: set_barpending_def)
  then show ?thesis by (intro steps_beside) simp_all
qed

text \<open>So every routine is such a step.\<close>

interpretation win: link_relation steps
proof unfold_locales
  show "steps l l" for l by simp
  show "steps l l' \<Longrightarrow> steps l' l'' \<Longrightarrow> steps l l''" for l l' l'' by (rule steps_trans)
  show "steps l (WLCNTADD u x l)" for l u x by simp
  show "(\<And>a t p q. e \<noteq> Txmpdu a t p q) \<Longrightarrow> steps l (lk_emit e l)" for e l by (rule steps_emit)
  show "steps l (l\<lparr>lk_stopped := b\<rparr>)" for l b by (rule steps_same) simp_all
  show "unat n \<le> length (lk_txq l) \<Longrightarrow> n \<noteq> 0 \<Longrightarrow> steps l (wlc_ampdu_release cf n l)" for n l cf by (rule steps_release)
  show "ini_ba_wsize (lk_ini l) \<noteq> 0 \<Longrightarrow> steps l (upd_ini (move_start (settled (lk_ini l))) l)" for l by (rule steps_window)
  show "\<forall>k \<in> set ks. k < 128 \<Longrightarrow> steps l (upd_ini (fold bar_clear ks) l)" for ks l by (rule steps_clear)
  show "\<not> outside seq (lk_ini l) \<Longrightarrow> ini_ackpending (lk_ini l) ! TX_SEQ_TO_INDEX seq \<Longrightarrow> unat seq < 4096 \<Longrightarrow>
    steps l (upd_ini (ack_clear (TX_SEQ_TO_INDEX seq)) l)" for seq l by (rule steps_ack_clear)
  show "steps l (upd_ini (fold set_barpending ks) l)" for ks l by (rule steps_fold_set_barpending)
qed (auto intro!: steps_beside simp: note_retry_def pop_retry_def bar_sent_def Let_def)

lemma steps_pending_off: "steps l (upd_ini (\<lambda>i. i\<lparr>ini_state := BA_PENDING_OFF\<rparr>) l)"
  by (rule steps_beside) simp_all

subsection \<open>Runs\<close>

text \<open>What an agreement meets: frames to send, other frames of the station that use a number,
  completions, requests for its window, frames on their way down, its end.\<close>

datatype link_op =
    Enqueue pkt
  | Other_frame
  | Txeval bool
  | Regmpdu bool bool uint16
  | Complete ampdu_status
  | Send_bar bool
  | Bar_complete bool
  | Going_down uint16
  | Wind_down

fun link_exec :: "tx_conf \<Rightarrow> link_op \<Rightarrow> link \<Rightarrow> link" where
  "link_exec cf (Enqueue p) l = wlc_ampdu_txeval cf False (wlc_ampdu_txflowcontrol cf (l\<lparr>lk_txq := lk_txq l @ [p]\<rparr>))"
| "link_exec cf Other_frame l = l\<lparr>lk_seqnum := lk_seqnum l + 1\<rparr>"
| "link_exec cf (Txeval force) l = wlc_ampdu_txeval cf force l"
| "link_exec cf (Regmpdu acked pmq seq) l = wlc_ampdu_dotxstatus_regmpdu cf acked pmq seq l"
| "link_exec cf (Complete st) l = wlc_ampdu_txflowcontrol cf (wlc_ampdu_dotxstatus_complete cf st l)"
| "link_exec cf (Send_bar start) l = wlc_ampdu_send_bar cf start l"
| "link_exec cf (Bar_complete acked) l = wlc_send_bar_complete cf acked l"
| "link_exec cf (Going_down seq) l = fst (ampdu_is_exp_seq cf seq l)"
| "link_exec cf Wind_down l = ini_wind_down cf l"

definition link_run :: "(tx_conf \<times> link_op) list \<Rightarrow> link \<Rightarrow> link" where
  "link_run = fold (\<lambda>(cf, x). link_exec cf x)"

text \<open>Numbers on the air have 12 bits.\<close>

fun link_op_ok :: "link_op \<Rightarrow> bool" where
  "link_op_ok (Regmpdu acked pmq seq) \<longleftrightarrow> unat seq < 4096"
| "link_op_ok (Complete st) \<longleftrightarrow> (\<forall>f \<in> set (st_frames st). unat (snd f) < 4096)"
| "link_op_ok _ \<longleftrightarrow> True"

fun enqueued :: "link_op \<Rightarrow> pkt list" where
  "enqueued (Enqueue p) = [p]"
| "enqueued _ = []"

text \<open>The operation without what it adds to the queue and the counter.\<close>

fun link_start :: "link_op \<Rightarrow> link \<Rightarrow> link" where
  "link_start Other_frame l = l\<lparr>lk_seqnum := lk_seqnum l + 1\<rparr>"
| "link_start x l = l\<lparr>lk_txq := lk_txq l @ enqueued x\<rparr>"

lemma steps_exec: "link_op_ok x \<Longrightarrow> steps (link_start x l) (link_exec cf x l)"
  by (cases x) (auto intro: win.trans [OF win.flow win.txeval] win.trans [OF win.complete win.flow] win.regmpdu win.is_exp_seq win.txeval
      win.send_bar win.bar_complete win.trans [OF steps_pending_off win.wind_down])

text \<open>The state of a run that started with the queue \<open>q\<close> and the trace \<open>es\<close>: \<open>ds\<close> are the frames sent.\<close>

definition run_rel :: "nat \<Rightarrow> nat \<Rightarrow> pkt list \<Rightarrow> ampdu_event list \<Rightarrow> link \<Rightarrow> nat \<Rightarrow> nat \<Rightarrow> nat set \<Rightarrow> (nat \<times> pkt) list \<Rightarrow> bool" where
  "run_rel start w q es l M T A ds \<longleftrightarrow>
     tx_rel (lk_ini l) M T A \<and> (\<exists>S. T \<le> S \<and> S < T + 4096 \<and> unat (lk_seqnum l AND 0xFFF) = S mod 4096) \<and> start \<le> M \<and>
     unat (ini_ba_wsize (lk_ini l)) = w \<and> q = map snd ds @ lk_txq l \<and> sent (lk_events l) = sent es @ numbered ds \<and>
     sorted_wrt (<) (map fst ds) \<and> (\<forall>x \<in> set ds. start \<le> fst x \<and> fst x < T)"

lemma run_step:
  assumes "run_rel start w q es l M T A ds" "link_op_ok x"
  shows "\<exists>M' T' A' ds'. run_rel start w (q @ enqueued x) es (link_exec cf x l) M' T' A' ds'"
proof -
  obtain S where r: "tx_rel (lk_ini l) M T A" "T \<le> S" "S < T + 4096" "unat (lk_seqnum l AND 0xFFF) = S mod 4096"
    and rest: "start \<le> M" "unat (ini_ba_wsize (lk_ini l)) = w" "q = map snd ds @ lk_txq l" "sent (lk_events l) = sent es @ numbered ds"
      "sorted_wrt (<) (map fst ds)" "\<forall>x \<in> set ds. start \<le> fst x \<and> fst x < T"
    using assms(1) unfolding run_rel_def by blast
  let ?l = "link_start x l"
  have st: "lk_ini ?l = lk_ini l" "lk_txq ?l = lk_txq l @ enqueued x" "lk_events ?l = lk_events l" by (cases x; simp)+
  obtain S1 where S1: "T \<le> S1" "S1 < T + 4096" "unat (lk_seqnum ?l AND 0xFFF) = S1 mod 4096"
  proof (cases "x = Other_frame")
    case True
    then have n: "unat (lk_seqnum ?l AND 0xFFF) = Suc S mod 4096" using seqnum_next [OF r(4)] by simp
    show ?thesis
    proof (cases "Suc S < T + 4096")
      case True
      then show ?thesis using that [of "Suc S"] n r(2) by simp
    next
      case False
      then have "Suc S = T + 4096" using r(3) by simp
      then show ?thesis using that [of T] n by simp
    qed
  next
    case False
    then have "lk_seqnum ?l = lk_seqnum l" by (cases x) simp_all
    then show ?thesis using that [of S] r(2-4) by simp
  qed
  have rl: "tx_rel (lk_ini ?l) M T A" using r(1) unfolding st .
  obtain M' A' ds' where "step_to M T A S1 ?l (link_exec cf x l) M' A' ds'"
    using stepsD [OF steps_exec [OF assms(2)] rl S1] by blast
  note d = step_toD [OF this, unfolded st]
  let ?T' = "if ds' = [] then T else S1 + length ds'"
  have T: "T \<le> ?T'" using S1(1) by simp
  have fs: "\<forall>x \<in> set ds'. S1 \<le> fst x \<and> fst x < ?T'"
  proof
    fix x assume x: "x \<in> set ds'"
    then have "fst x \<in> set (map fst ds')" by simp
    then have "fst x \<in> {S1..<S1 + length ds'}" unfolding d(7) by simp
    then show "S1 \<le> fst x \<and> fst x < ?T'" using x by auto
  qed
  have "start \<le> T" using rest(1) tx_relD(6) [OF r(1)] by simp
  have srt: "sorted_wrt (<) (map fst (ds @ ds'))"
    unfolding map_append d(7) using rest(5,6) S1(1) by (fastforce simp: sorted_wrt_append)
  have bnd: "\<forall>x \<in> set (ds @ ds'). start \<le> fst x \<and> fst x < ?T'"
    using rest(6) fs T S1(1) \<open>start \<le> T\<close> by fastforce
  have "\<exists>S. ?T' \<le> S \<and> S < ?T' + 4096 \<and> unat (lk_seqnum (link_exec cf x l) AND 0xFFF) = S mod 4096"
    using d(8) S1 by (intro exI [of _ "S1 + length ds'"]) simp
  then have "run_rel start w (q @ enqueued x) es (link_exec cf x l) M' ?T' A' (ds @ ds')"
    unfolding run_rel_def using d(1,2,4,5,6) srt bnd rest(1-4) by (simp add: numbered_append)
  then show ?thesis by blast
qed

lemma run_rel_run:
  "run_rel start w q es l M T A ds \<Longrightarrow> \<forall>x \<in> set ops. link_op_ok (snd x) \<Longrightarrow>
    \<exists>M' T' A' ds'. run_rel start w (q @ concat (map (enqueued \<circ> snd) ops)) es (link_run ops l) M' T' A' ds'"
proof (induction ops arbitrary: q l M T A ds)
  case Nil
  then show ?case by (auto simp: link_run_def)
next
  case (Cons x ops)
  obtain cf op where x: "x = (cf, op)" by fastforce
  obtain M1 T1 A1 ds1 where "run_rel start w (q @ enqueued op) es (link_exec cf op l) M1 T1 A1 ds1"
    using run_step [OF Cons.prems(1), of op] Cons.prems(2) x by fastforce
  from Cons.IH [OF this] Cons.prems(2) x show ?case by (simp add: link_run_def)
qed

lemma turn_on_rel:
  assumes "length (ini_ackpending (lk_ini l)) = 128" "length (ini_barpending (lk_ini l)) = 128" "length (ini_txretry (lk_ini l)) = 128"
    "\<forall>k < 128. \<not> ini_ackpending (lk_ini l) ! k" "ini_tx_in_transit (lk_ini l) = 0" "unat w \<le> 128" "S = unat (lk_seqnum l AND 0xFFF)"
  shows "run_rel S (unat w) (lk_txq l) (lk_events l) (ini_turn_on w l) S S {} []"
proof -
  have S: "S < 4096" "S mod 4096 = S" unfolding assms(7) unat_mask12 by simp_all
  let ?s = "lk_seqnum l AND 0xFFF"
  have "unat (MODSUB_SEQ ?s 1) = (unat ?s + 4096 - unat (1 :: uint16)) mod 4096"
    by (rule MODSUB_SEQ_nat) (use S(1) assms(7) in simp_all)
  also have "unat ?s + 4096 - unat (1 :: uint16) = S + 4095" using assms(7) by simp
  finally have "unat (MODSUB_SEQ ?s 1) = (S + 4095) mod 4096" .
  from MODADD_SEQ_mod [OF this, of 1] have max: "unat (MODADD_SEQ (MODSUB_SEQ ?s 1) 1) = S" using S by simp
  have w: "unat (ucast w :: uint16) = unat w"
    by (simp add: unsigned_ucast_eq take_bit_nat_eq_self unat8_less order.strict_trans [OF unat8_less])
  have "tx_rel (lk_ini (ini_turn_on w l)) S S {}"
    unfolding tx_rel_def using assms(1-6) max w S(2) assms(7) by (simp add: ini_turn_on_def Let_def)
  moreover have "\<exists>S'. S \<le> S' \<and> S' < S + 4096 \<and> unat (lk_seqnum (ini_turn_on w l) AND 0xFFF) = S' mod 4096"
    using S assms(7) by (intro exI [of _ S]) (simp add: ini_turn_on_def Let_def upd_ini_def)
  ultimately show ?thesis unfolding run_rel_def by (simp add: ini_turn_on_def Let_def upd_ini_def numbered_def)
qed

subsection \<open>What the sender guarantees\<close>


definition demo_link :: link where
  "demo_link = \<lparr>lk_ini = new_ini 1, lk_txq = [\<lparr>pk_addr = 1, pk_seq = 0\<rparr>], lk_seqnum = 4095, lk_stopped = False, lk_cnt = zero_cnt, lk_events = []\<rparr>"

definition demo_conf :: tx_conf where
  "demo_conf = \<lparr>cf_sta = 7, cf_tid = 5, cf_no_bar = False, cf_blocked = False, cf_bar = BAR_SENT, cf_tx_rel_lowat = 1, cf_release = 32,
     cf_hiwat = 255, cf_others = 0, cf_qi = 0\<rparr>"

definition demo_ops :: "(tx_conf \<times> link_op) list" where
  "demo_ops = [(demo_conf, Enqueue \<lparr>pk_addr = 2, pk_seq = 0\<rparr>), (demo_conf, Regmpdu True False 4095), (demo_conf, Bar_complete True)]"



lemma demo_stalled:
  "run_rel 4095 0 (lk_txq demo_link) (lk_events demo_link) (ini_turn_on 0 demo_link) 4095 4095 {} []"
  using turn_on_rel [of demo_link 0 4095] by (simp add: demo_link_def new_ini_def AMPDU_TX_BA_MAX_WSIZE_def)


end
