(* ===== verification/AmpduMod.thy ===== *)
theory AmpduMod
  imports AmpduAgree AmpduWin
begin

text \<open>
  The module as a whole, \<^verbatim>\<open>wl/sys/wlc_ampdu.c\<close>: the entry points of the initiator's side on the state of
  \<^theory_text>\<open>Ampdu\<close>, where they start, end and look after agreements (\<open>wlc_ampdu_agg\<close>, action frames, the watchdog,
  flushing, stations that come and go, settings). \<^theory_text>\<open>AmpduSafe\<close> shows that they keep the invariants of both sides.
\<close>

subsection \<open>An initiator in the module's state\<close>

text \<open>What the environment decides: the address of a new initiator (if it can be allocated), whether a
  management frame can be, room in the transmit queue, the fate of a block ack request, and what
  \<open>scb_ampdu_update_config\<close> computes for the number of frames released at a time.\<close>

record tx_env =
  en_addr :: "nat option"
  en_alloc :: ba_alloc
  en_room :: bool
  en_bar :: bar_out
  en_release :: uint8

definition conf_of :: "tx_env \<Rightarrow> nat \<Rightarrow> nat \<Rightarrow> scb_ampdu \<Rightarrow> ampdu_info \<Rightarrow> tx_conf" where
  "conf_of en a tid c s =
     \<lparr>cf_sta = a, cf_tid = tid, cf_no_bar = no_bar s, cf_blocked = block_datafifo s, cf_bar = en_bar en,
      cf_tx_rel_lowat = tx_rel_lowat s, cf_release = scb_release c, cf_hiwat = datahiwat s,
      cf_others = sum_list (map (\<lambda>t. length (txq c t)) (filter (\<lambda>t. t \<noteq> tid) [0..<AMPDU_MAX_SCB_TID])), cf_qi = scb_qi c\<rparr>"

definition link_of :: "nat \<Rightarrow> scb_ampdu \<Rightarrow> tid_ini \<Rightarrow> ampdu_info \<Rightarrow> link" where
  "link_of tid c i s =
     \<lparr>lk_ini = i, lk_txq = txq c tid, lk_seqnum = seqnum c tid, lk_stopped = flow_stopped s (scb_qi c), lk_cnt = cnt s,
      lk_events = events s\<rparr>"

definition put_link :: "nat \<Rightarrow> nat \<Rightarrow> scb_ampdu \<Rightarrow> link \<Rightarrow> ampdu_info \<Rightarrow> ampdu_info" where
  "put_link a tid c l s =
     s\<lparr>scbs := (scbs s)(a := Some (c\<lparr>ini := (ini c)(tid := Some (lk_ini l)), txq := (txq c)(tid := lk_txq l),
                                     seqnum := (seqnum c)(tid := lk_seqnum l)\<rparr>)),
       flow_stopped := (flow_stopped s)(scb_qi c := lk_stopped l), cnt := lk_cnt l, events := lk_events l\<rparr>"

text \<open>A routine of \<^theory_text>\<open>AmpduTx\<close> on the initiator of a TID, which must exist.\<close>

definition with_ini :: "tx_env \<Rightarrow> nat \<Rightarrow> nat \<Rightarrow> (tx_conf \<Rightarrow> link \<Rightarrow> link) \<Rightarrow> ampdu_info \<Rightarrow> ampdu_info option" where
  "with_ini en a tid f s =
     do { c \<leftarrow> scbs s a;
          i \<leftarrow> ini c tid;
          Some (put_link a tid c (f (conf_of en a tid c s) (link_of tid c i s)) s) }"

definition free_all :: "pkt list \<Rightarrow> ampdu_info \<Rightarrow> ampdu_info" where "free_all ps = fold (\<lambda>p. emit (Pktfree p)) ps"

subsection \<open>Ending agreements\<close>

definition AMPDU_INI_FREE :: nat where "AMPDU_INI_FREE = 10"

text \<open>An initiator that is waited for goes to the list \<open>ini_free\<close>; the one it replaces there is freed.\<close>

definition keep_for_callback :: "tid_ini \<Rightarrow> ampdu_info \<Rightarrow> ampdu_info" where
  "keep_for_callback i s =
     s\<lparr>ini_free := (ini_free s)[ini_free_index s := Some (i\<lparr>ini_free_me := True\<rparr>)],
       ini_free_index := (if ini_free_index s = AMPDU_INI_FREE - 1 then 0 else ini_free_index s + 1)\<rparr>"

definition drop_ini :: "nat \<Rightarrow> nat \<Rightarrow> scb_ampdu \<Rightarrow> tid_ini \<Rightarrow> ampdu_info \<Rightarrow> ampdu_info" where
  "drop_ini a tid c i s =
     (let s = upd_scb a (\<lambda>c. c\<lparr>ini := (ini c)(tid := None), txq := (txq c)(tid := [])\<rparr>) s;
          s = free_all (txq c tid) s;
          s = (if ini_bar_ackpending i then keep_for_callback i s else s)
      in emit (Flow_control (scb_qi c) False) (s\<lparr>flow_stopped := (flow_stopped s)(scb_qi c := False)\<rparr>))"

definition ampdu_cleanup_tid_ini :: "tx_env \<Rightarrow> nat \<Rightarrow> nat \<Rightarrow> bool \<Rightarrow> ampdu_info \<Rightarrow> ampdu_info option" where
  "ampdu_cleanup_tid_ini en a tid force s =
     do { c \<leftarrow> scbs s a;
          if ini c tid = None then Some s
          else do {
            s \<leftarrow> with_ini en a tid ini_wind_down s;
            c \<leftarrow> scbs s a;
            i \<leftarrow> ini c tid;
            Some (if ini_tx_in_transit i \<noteq> 0 \<and> \<not> force then s else drop_ini a tid c i s) } }"

definition wlc_ampdu_send_delba ::
  "upper \<Rightarrow> tx_env \<Rightarrow> nat \<Rightarrow> nat \<Rightarrow> bool \<Rightarrow> uint16 \<Rightarrow> ampdu_info \<Rightarrow> ampdu_info option" where
  "wlc_ampdu_send_delba up en a tid initiator reason s =
     (if initiator
      then do { s \<leftarrow> ampdu_cleanup_tid_ini en a tid False s;
                Some (WLCNTINCR txdelba_update (wlc_send_delba (en_alloc en) a tid True reason s)) }
      else send_delba_resp up (en_alloc en) a tid reason s)"

text \<open>\<open>wlc_send_bar_complete\<close> as a callback: its argument is the address of an initiator. One in \<open>ini_free\<close> is
  freed; one that is neither there nor in use does not exist any more.\<close>

definition bar_callback :: "tx_env \<Rightarrow> nat \<Rightarrow> nat \<Rightarrow> nat \<Rightarrow> bool \<Rightarrow> ampdu_info \<Rightarrow> ampdu_info option" where
  "bar_callback en a tid addr acked s =
     (let waiting = (\<lambda>x. case x of None \<Rightarrow> False | Some i \<Rightarrow> ini_addr i = addr) in
      if list_ex waiting (ini_free s)
      then Some (s\<lparr>ini_free := (ini_free s)[length (takeWhile (\<lambda>x. \<not> waiting x) (ini_free s)) := None]\<rparr>)
      else
        do { c \<leftarrow> scbs s a;
             i \<leftarrow> ini c tid;
             if ini_addr i = addr then with_ini en a tid (\<lambda>cf. wlc_send_bar_complete cf acked) s else None })"

subsection \<open>Starting agreements\<close>

definition wlc_send_addba_req :: "ba_alloc \<Rightarrow> nat \<Rightarrow> nat \<Rightarrow> ampdu_info \<Rightarrow> ampdu_info" where
  "wlc_send_addba_req al a tid s =
     (if block_datafifo s \<or> \<not> ok_frame al then s else emit (Addba_req a tid (ba_tx_wsize s) (ba_policy s) (delba_timeout s)) s)"

text \<open>The initiator of a TID in a new state; the flag tells whether there is one.\<close>

definition wlc_ampdu_init_tid_ini :: "tx_env \<Rightarrow> nat \<Rightarrow> nat \<Rightarrow> bool \<Rightarrow> ampdu_info \<Rightarrow> (ampdu_info \<times> bool) option" where
  "wlc_ampdu_init_tid_ini en a tid override s =
     do { c \<leftarrow> scbs s a;
          if manual_mode s \<and> \<not> override \<or> \<not> ini_enable s tid then Some (s, False)
          else
            let s = upd_scb a (\<lambda>c. c\<lparr>scb_release := en_release en\<rparr>) s in
            (case (case ini c tid of None \<Rightarrow> en_addr en | Some i \<Rightarrow> Some (ini_addr i)) of
               None \<Rightarrow> Some (s, False)
             | Some addr \<Rightarrow>
               let s = upd_scb a (\<lambda>c. c\<lparr>ini := (ini c)(tid := Some (new_ini addr))\<rparr>) s
               in Some (WLCNTINCR txaddbareq_update (wlc_send_addba_req (en_alloc en) a tid s), True)) }"

text \<open>A frame to send. The queue takes it unless it is full.\<close>

definition agg_enqueue :: "tx_env \<Rightarrow> nat \<Rightarrow> nat \<Rightarrow> pkt \<Rightarrow> ampdu_info \<Rightarrow> ampdu_info option" where
  "agg_enqueue en a tid p s =
     (if en_room en then with_ini en a tid (\<lambda>cf. link_exec cf (Enqueue p)) s
      else Some (WLCNTINCR txdrop_update (emit (Pktfree p) s)))"

definition wlc_ampdu_agg :: "tx_env \<Rightarrow> nat \<Rightarrow> nat \<Rightarrow> pkt \<Rightarrow> ampdu_info \<Rightarrow> ampdu_info option" where
  "wlc_ampdu_agg en a prio p s =
     (let pass = (\<lambda>s. Some (emit (Txnext a p) s)) in
      if \<not> txaggr s \<or> prio \<ge> AMPDU_MAX_SCB_TID then pass s
      else do {
        c \<leftarrow> scbs s a;
        (s, have) \<leftarrow> (if ini c prio = None then wlc_ampdu_init_tid_ini en a prio False s else Some (s, True));
        if \<not> have then pass s
        else do {
          c \<leftarrow> scbs s a;
          i \<leftarrow> ini c prio;
          if ini_state i = BA_OFF then pass s else agg_enqueue en a prio p s } })"

text \<open>\<open>pend\<close>: the station's frames that wait in the driver's queue.\<close>

definition wlc_ampdu_recv_addba_resp :: "tx_env \<Rightarrow> nat \<Rightarrow> uint8 list \<Rightarrow> pkt list \<Rightarrow> ampdu_info \<Rightarrow> ampdu_info option" where
  "wlc_ampdu_recv_addba_resp en a body pend s =
     (let status = body16 body 3; param_set = body16 body 5;
          wsize = (ucast (drop_bit 6 (param_set AND 0xffc0)) :: uint8);
          policy = (ucast (drop_bit 1 (param_set AND 0x0002)) :: uint8);
          tid = unat (drop_bit 2 (param_set AND 0x003c)); unexp = WLCNTINCR rxunexp_update
      in if body ! 0 AND 0x80 \<noteq> 0 \<or> tid \<ge> AMPDU_MAX_SCB_TID then Some (unexp s)
         else do {
           c \<leftarrow> scbs s a;
           (case ini c tid of
              None \<Rightarrow> Some (unexp s)
            | Some i \<Rightarrow>
              if ini_state i \<noteq> BA_PENDING_ON then Some (unexp s)
              else if status \<noteq> DOT11_SC_SUCCESS \<or> policy \<noteq> ba_policy s \<or> unat wsize > AMPDU_TX_BA_MAX_WSIZE
              then Some (unexp (ampdu_ba_state_off a tid s))
              else with_ini en a tid (\<lambda>cf. ini_accepted cf wsize pend) s) })"

definition wlc_ampdu_recv_delba :: "upper \<Rightarrow> tx_env \<Rightarrow> nat \<Rightarrow> uint8 list \<Rightarrow> ampdu_info \<Rightarrow> ampdu_info option" where
  "wlc_ampdu_recv_delba up en a body s =
     (let param_set = body16 body 2; tid = unat (drop_bit 12 (param_set AND 0xf000)) in
      if body ! 0 AND 0x80 \<noteq> 0 \<or> tid \<ge> AMPDU_MAX_SCB_TID then Some (WLCNTINCR rxunexp_update s)
      else do {
        s \<leftarrow> (if param_set AND 0x0800 \<noteq> 0 then ampdu_cleanup_tid_resp up a tid s else ampdu_cleanup_tid_ini en a tid False s);
        Some (WLCNTINCR rxdelba_update s) })"

text \<open>\<open>a\<close> is null when no station has the sender's address.\<close>

definition wlc_frameaction_ampdu ::
  "upper \<Rightarrow> tx_env \<Rightarrow> nat option \<Rightarrow> uint8 list \<Rightarrow> pkt list \<Rightarrow> ampdu_info \<Rightarrow> ampdu_info option" where
  "wlc_frameaction_ampdu up en a body pend s =
     (let err = Some (emit (Action_err body) (WLCNTINCR rxunexp_update s)) in
      case a of None \<Rightarrow> Some s
      | Some a \<Rightarrow>
        if length body < 2 then err
        else if body ! 1 = 0 then (if length body < 9 then err else wlc_ampdu_recv_addba_req up (en_alloc en) a body s)
        else if body ! 1 = 1 then (if length body < 9 then err else wlc_ampdu_recv_addba_resp en a body pend s)
        else if body ! 1 = 2 then (if length body < 6 then err else wlc_ampdu_recv_delba up en a body s)
        else err)"

subsection \<open>Frames sent and completed\<close>

text \<open>A frame on its way down, \<open>wlc_sendampdu\<close> up to its check of the frame's number. The flag: it goes on.\<close>

definition sendampdu_check :: "tx_env \<Rightarrow> nat \<Rightarrow> nat \<Rightarrow> pkt \<Rightarrow> uint16 \<Rightarrow> ampdu_info \<Rightarrow> (ampdu_info \<times> bool) option" where
  "sendampdu_check en a tid p seq s =
     (let orphaned = (emit (Pktfree p) (WLCNTINCR orphan_update s), False) in
      do { c \<leftarrow> scbs s a;
           if \<not> scb_ampducap c then Some orphaned
           else (case ini c tid of
             None \<Rightarrow> Some orphaned
           | Some i \<Rightarrow>
             if ini_state i = BA_PENDING_ON then Some orphaned
             else if block_datafifo s then Some (s, False)
             else
               let cf = conf_of en a tid c s; (l, go) = ampdu_is_exp_seq cf seq (link_of tid c i s);
                   s = put_link a tid c l s
               in Some (if go then (s, True) else (emit (Pktfree p) s, False))) })"

definition wlc_ampdu_free_chain :: "pkt list \<Rightarrow> ampdu_info \<Rightarrow> ampdu_info" where
  "wlc_ampdu_free_chain = fold (\<lambda>p s. emit (Pktfree p) (WLCNTINCR orphan_update s))"

text \<open>What the hardware reports of an aggregate: the two words of its status, and the two registers with the
  rest of the block ack.\<close>

record tx_status =
  ts_status :: uint16
  ts_sequence :: uint16
  ts_s1 :: uint32
  ts_s2 :: uint32

definition TX_STATUS_ACK_RCV :: uint16 where "TX_STATUS_ACK_RCV = 0x2"
definition TX_STATUS_SUPR_MASK :: uint16 where "TX_STATUS_SUPR_MASK = 0x1C"
definition TX_STATUS_SUPR_BADCH :: uint16 where "TX_STATUS_SUPR_BADCH = 0x10"

definition ba_bitmap :: "uint16 \<Rightarrow> uint32 \<Rightarrow> uint32 \<Rightarrow> uint8 list" where
  "ba_bitmap status s1 s2 =
     [ucast (drop_bit 12 (status AND 0xF000)) OR ucast (push_bit 3 (s1 AND 0x001E)),
      ucast (drop_bit 8 s1), ucast (drop_bit 16 s1), ucast (drop_bit 24 s1),
      ucast s2, ucast (drop_bit 8 s2), ucast (drop_bit 16 s2), ucast (drop_bit 24 s2)]"

definition isset :: "uint8 list \<Rightarrow> nat \<Rightarrow> bool" where "isset a i \<longleftrightarrow> bit (a ! (i div 8)) (i mod 8)"

definition block_ack :: "tx_status \<Rightarrow> (uint16 \<times> bool list) option" where
  "block_ack txs =
     (if ts_status txs AND TX_STATUS_ACK_RCV \<noteq> 0
      then Some (drop_bit SEQNUM_SHIFT (ts_sequence txs),
                 map (isset (ba_bitmap (ts_status txs) (ts_s1 txs) (ts_s2 txs))) [0..<AMPDU_BA_BITS_IN_BITMAP])
      else None)"

text \<open>The aggregate \<open>frames\<close>, sent at a rate that is tried out or not, and this report of it.\<close>

definition status_of :: "ampdu_info \<Rightarrow> nat \<Rightarrow> (pkt \<times> uint16) list \<Rightarrow> tx_status \<Rightarrow> bool \<Rightarrow> bool \<Rightarrow> ampdu_status" where
  "status_of s tid frames txs vrate_probe scanning =
     \<lparr>st_frames = frames, st_ba = block_ack txs,
      st_retry = \<not> (block_ack txs = None \<and> ts_status txs AND TX_STATUS_SUPR_MASK = TX_STATUS_SUPR_BADCH \<and> \<not> scanning),
      st_retry_limit = retry_limit_tid s tid, st_rr_retry_limit = rr_retry_limit_tid s tid,
      st_probe = (probe_mpdu s \<noteq> 0 \<and> vrate_probe)\<rparr>"

text \<open>Its completion; \<open>a\<close> is null when the frames belong to no station any more.\<close>

definition wlc_ampdu_dotxstatus ::
  "tx_env \<Rightarrow> nat option \<Rightarrow> nat \<Rightarrow> (pkt \<times> uint16) list \<Rightarrow> tx_status \<Rightarrow> bool \<Rightarrow> bool \<Rightarrow> ampdu_info \<Rightarrow> ampdu_info option" where
  "wlc_ampdu_dotxstatus en a tid frames txs vrate_probe scanning s =
     (let orphaned = Some (wlc_ampdu_free_chain (map fst frames) s) in
      case a of None \<Rightarrow> orphaned
      | Some a \<Rightarrow>
        do { c \<leftarrow> scbs s a;
             if \<not> scb_ampducap c then orphaned
             else (case ini c tid of
               None \<Rightarrow> orphaned
             | Some i \<Rightarrow>
               if ini_state i = BA_PENDING_ON then orphaned
               else with_ini en a tid (\<lambda>cf. link_exec cf (Complete (status_of s tid frames txs vrate_probe scanning))) s) })"

text \<open>The completion of a frame sent alone.\<close>

definition dotxstatus_regmpdu ::
  "tx_env \<Rightarrow> nat option \<Rightarrow> nat \<Rightarrow> bool \<Rightarrow> bool \<Rightarrow> uint16 \<Rightarrow> ampdu_info \<Rightarrow> ampdu_info option" where
  "dotxstatus_regmpdu en a tid acked pmq seq s =
     (case a of None \<Rightarrow> Some s
      | Some a \<Rightarrow>
        do { c \<leftarrow> scbs s a;
             if \<not> scb_ampducap c then Some s
             else (case ini c tid of
               None \<Rightarrow> Some s
             | Some i \<Rightarrow>
               if ini_state i = BA_PENDING_ON then Some s
               else with_ini en a tid (\<lambda>cf. wlc_ampdu_dotxstatus_regmpdu cf acked pmq seq) s) })"

subsection \<open>The watchdog\<close>

definition AMPDU_ADDBA_REQ_RETRY_CNT :: uint8 where "AMPDU_ADDBA_REQ_RETRY_CNT = 4"
definition AMPDU_INI_OFF_TIMEOUT :: uint8 where "AMPDU_INI_OFF_TIMEOUT = 60"
definition AMPDU_INI_DEAD_TIMEOUT :: uint8 where "AMPDU_INI_DEAD_TIMEOUT = 2"
definition AMPDU_INI_CLEANUP_TIMEOUT :: uint8 where "AMPDU_INI_CLEANUP_TIMEOUT = 2"
definition AMPDU_RESP_NO_BAPOLICY_TIMEOUT :: uint8 where "AMPDU_RESP_NO_BAPOLICY_TIMEOUT = 3"
definition AMPDU_SCB_DRAIN_CNT :: nat where "AMPDU_SCB_DRAIN_CNT = 8"

definition DOT11_RC_SETUP_NEEDED :: uint16 where "DOT11_RC_SETUP_NEEDED = 38"
definition DOT11_RC_TIMEOUT :: uint16 where "DOT11_RC_TIMEOUT = 39"

text \<open>Aggregates from a station without an agreement.\<close>

definition watchdog_resp_off :: "upper \<Rightarrow> tx_env \<Rightarrow> nat \<Rightarrow> nat \<Rightarrow> ampdu_info \<Rightarrow> ampdu_info option" where
  "watchdog_resp_off up en a tid s =
     do { c \<leftarrow> scbs s a;
          let off = (if resp c tid \<noteq> None then \<lparr>ampdu_recd = False, ampdu_cnt = 0\<rparr> else resp_off c tid);
          let n = ampdu_cnt off + 1;
          let tell = (ampdu_recd off \<and> n \<ge> AMPDU_RESP_NO_BAPOLICY_TIMEOUT);
          let off' = (if \<not> ampdu_recd off then off else if tell then \<lparr>ampdu_recd = False, ampdu_cnt = 0\<rparr>
                      else \<lparr>ampdu_recd = False, ampdu_cnt = n\<rparr>);
          let s = upd_scb a (\<lambda>c. c\<lparr>resp_off := (resp_off c)(tid := off')\<rparr>) s;
          if tell then wlc_ampdu_send_delba up en a tid False DOT11_RC_SETUP_NEEDED s else Some s }"

text \<open>Short of memory: a quarter of the waiting frames, at most 8, are dropped.\<close>

definition drain :: "link \<Rightarrow> link" where
  "drain l =
     (let n = min (length (lk_txq l) div 4) AMPDU_SCB_DRAIN_CNT in
      WLCNTADD txdrop_update (of_nat n)
        (fold (\<lambda>p. lk_emit (Pktfree p)) (take n (lk_txq l)) (l\<lparr>lk_txq := drop n (lk_txq l)\<rparr>)))"

definition watchdog_on :: "upper \<Rightarrow> tx_env \<Rightarrow> nat \<Rightarrow> nat \<Rightarrow> ampdu_info \<Rightarrow> ampdu_info option" where
  "watchdog_on up en a tid s =
     do { s \<leftarrow> with_ini en a tid (\<lambda>cf. wlc_ampdu_txeval cf True) s;
          c \<leftarrow> scbs s a;
          i \<leftarrow> ini c tid;
          if ini_retry_bar i \<noteq> AMPDU_R_BAR_DISABLED
          then with_ini en a tid (\<lambda>cf l. wlc_ampdu_send_bar cf False
                 (upd_ini (\<lambda>i. i\<lparr>ini_retry_bar := AMPDU_R_BAR_DISABLED\<rparr>)
                   (if ini_retry_bar i = AMPDU_R_BAR_NO_BUFFER then drain l else l))) s
          else if ini_bar_cnt i \<ge> AMPDU_BAR_RETRY_CNT then wlc_ampdu_send_delba up en a tid True DOT11_RC_TIMEOUT s
          else if ini_alive i then with_ini en a tid (\<lambda>cf. upd_ini (\<lambda>i. i\<lparr>ini_alive := False, ini_dead_cnt := 0\<rparr>)) s
          else do {
            let n = (if ini_tx_in_transit i \<noteq> 0 then ini_dead_cnt i + 1 else ini_dead_cnt i);
            s \<leftarrow> with_ini en a tid (\<lambda>cf. upd_ini (\<lambda>i. i\<lparr>ini_dead_cnt := n\<rparr>)) s;
            if n = AMPDU_INI_DEAD_TIMEOUT
            then do { s \<leftarrow> wlc_ampdu_send_delba up en a tid True DOT11_RC_TIMEOUT (WLCNTINCR txstuck_update s);
                      ampdu_cleanup_tid_ini en a tid True s }
            else Some s } }"

definition watchdog_tid :: "upper \<Rightarrow> tx_env \<Rightarrow> nat \<Rightarrow> nat \<Rightarrow> ampdu_info \<Rightarrow> ampdu_info option" where
  "watchdog_tid up en a tid s =
     do { s \<leftarrow> watchdog_resp_off up en a tid s;
          c \<leftarrow> scbs s a;
          (case ini c tid of
             None \<Rightarrow> Some s
           | Some i \<Rightarrow>
             (case ini_state i of
                BA_ON \<Rightarrow> watchdog_on up en a tid s
              | BA_PENDING_ON \<Rightarrow>
                do { s \<leftarrow> with_ini en a tid (\<lambda>cf. upd_ini (\<lambda>i. i\<lparr>ini_addba_req_cnt := ini_addba_req_cnt i + 1\<rparr>)) s;
                     Some (if ini_addba_req_cnt i \<ge> AMPDU_ADDBA_REQ_RETRY_CNT then ampdu_ba_state_off a tid s
                           else WLCNTINCR txaddbareq_update (wlc_send_addba_req (en_alloc en) a tid s)) }
              | BA_PENDING_OFF \<Rightarrow>
                do { s \<leftarrow> with_ini en a tid (\<lambda>cf. upd_ini (\<lambda>i. i\<lparr>ini_cleanup_ini_cnt := ini_cleanup_ini_cnt i + 1\<rparr>)) s;
                     if ini_cleanup_ini_cnt i \<ge> AMPDU_INI_CLEANUP_TIMEOUT
                     then ampdu_cleanup_tid_ini en a tid True (WLCNTINCR txstuck_update s)
                     else ampdu_cleanup_tid_ini en a tid False s }
              | BA_OFF \<Rightarrow>
                do { s \<leftarrow> with_ini en a tid (\<lambda>cf. upd_ini (\<lambda>i. i\<lparr>ini_off_cnt := ini_off_cnt i + 1\<rparr>)) s;
                     if ini_off_cnt i \<ge> AMPDU_INI_OFF_TIMEOUT
                     then do { (s, have) \<leftarrow> wlc_ampdu_init_tid_ini en a tid False s;
                               if have
                               then with_ini en a tid (\<lambda>cf. upd_ini (\<lambda>i. i\<lparr>ini_addba_req_cnt := AMPDU_ADDBA_REQ_RETRY_CNT\<rparr>)) s
                               else Some s }
                     else Some s })) }"

text \<open>Every TID of every station that can aggregate. The environment may differ from one to the next.\<close>

definition all_stations :: "(nat \<Rightarrow> ampdu_info \<Rightarrow> ampdu_info option) \<Rightarrow> ampdu_info \<Rightarrow> ampdu_info option" where
  "all_stations f s = foreach_scb f (case scb_list s of [] \<Rightarrow> None | a # _ \<Rightarrow> Some a) s"

definition all_tids :: "(nat \<Rightarrow> ampdu_info \<Rightarrow> ampdu_info option) \<Rightarrow> ampdu_info \<Rightarrow> ampdu_info option" where
  "all_tids f = for_tids f [0..<AMPDU_MAX_SCB_TID]"

definition wlc_ampdu_watchdog :: "upper \<Rightarrow> (nat \<Rightarrow> nat \<Rightarrow> tx_env) \<Rightarrow> ampdu_info \<Rightarrow> ampdu_info option" where
  "wlc_ampdu_watchdog up en = all_stations (\<lambda>a. all_tids (\<lambda>tid. watchdog_tid up (en a tid) a tid))"

subsection \<open>Flushing\<close>

definition scb_ampdu_flush :: "upper \<Rightarrow> (nat \<Rightarrow> tx_env) \<Rightarrow> nat \<Rightarrow> ampdu_info \<Rightarrow> ampdu_info option" where
  "scb_ampdu_flush up en a s =
     do { s \<leftarrow> all_tids (\<lambda>tid s. do { s \<leftarrow> ampdu_cleanup_tid_resp up a tid s; ampdu_cleanup_tid_ini (en tid) a tid True s }) s;
          c \<leftarrow> scbs s a;
          Some (free_all (concat (map (txq c) [0..<AMPDU_MAX_SCB_TID])) (upd_scb a (\<lambda>c. c\<lparr>txq := (\<lambda>_. [])\<rparr>) s)) }"

definition scb_ampdu_cleanup :: "upper \<Rightarrow> (nat \<Rightarrow> tx_env) \<Rightarrow> nat \<Rightarrow> ampdu_info \<Rightarrow> ampdu_info option" where
  "scb_ampdu_cleanup up en a =
     all_tids (\<lambda>tid s. do { s \<leftarrow> ampdu_cleanup_tid_resp up a tid s; ampdu_cleanup_tid_ini (en tid) a tid False s })"

text \<open>\<open>scb_ampdu_cleanup_all\<close> and \<open>wlc_ampdu_down\<close> do the same to the agreements.\<close>

definition wlc_ampdu_down :: "upper \<Rightarrow> (nat \<Rightarrow> nat \<Rightarrow> tx_env) \<Rightarrow> ampdu_info \<Rightarrow> ampdu_info option" where
  "wlc_ampdu_down up en = all_stations (\<lambda>a. scb_ampdu_flush up (en a) a)"

definition reset_tid :: "tx_env \<Rightarrow> nat \<Rightarrow> nat \<Rightarrow> ampdu_info \<Rightarrow> ampdu_info option" where
  "reset_tid en a tid s =
     do { c \<leftarrow> scbs s a;
          (case ini c tid of None \<Rightarrow> Some s
           | Some i \<Rightarrow> if ini_state i = BA_ON \<and> ini_tx_in_transit i \<noteq> 0 then ampdu_cleanup_tid_ini en a tid True s else Some s) }"

definition wlc_ampdu_reset :: "(nat \<Rightarrow> nat \<Rightarrow> tx_env) \<Rightarrow> ampdu_info \<Rightarrow> ampdu_info option" where
  "wlc_ampdu_reset en = all_stations (\<lambda>a. all_tids (\<lambda>tid. reset_tid (en a tid) a tid))"

text \<open>Aggregation is turned off in one direction. Both looks at the agreements come first.\<close>

definition cleanup_tid :: "upper \<Rightarrow> tx_env \<Rightarrow> bool \<Rightarrow> nat \<Rightarrow> nat \<Rightarrow> ampdu_info \<Rightarrow> ampdu_info option" where
  "cleanup_tid up en tx a tid s =
     do { c \<leftarrow> scbs s a;
          if tx
          then (case ini c tid of None \<Rightarrow> Some s
                | Some i \<Rightarrow>
                  do { s \<leftarrow> (if ini_state i = BA_ON \<or> ini_state i = BA_PENDING_ON
                            then wlc_ampdu_send_delba up en a tid True DOT11_RC_TIMEOUT s else Some s);
                       ampdu_cleanup_tid_ini en a tid False s })
          else (case resp c tid of None \<Rightarrow> Some s
                | Some r \<Rightarrow>
                  do { s \<leftarrow> (if resp_state r = BA_ON \<or> resp_state r = BA_PENDING_ON
                            then wlc_ampdu_send_delba up en a tid False DOT11_RC_TIMEOUT s else Some s);
                       ampdu_cleanup_tid_resp up a tid s }) }"

definition wlc_ampdu_cleanup :: "upper \<Rightarrow> (nat \<Rightarrow> nat \<Rightarrow> tx_env) \<Rightarrow> bool \<Rightarrow> ampdu_info \<Rightarrow> ampdu_info option" where
  "wlc_ampdu_cleanup up en tx =
     all_stations (\<lambda>a s.
       do { c \<leftarrow> scbs s a;
            if \<not> scb_assoc c then Some s
            else do {
              s \<leftarrow> all_tids (\<lambda>tid. cleanup_tid up (en a tid) tx a tid) s;
              c \<leftarrow> scbs s a;
              Some (if tx
                    then free_all (concat (map (txq c) [0..<AMPDU_MAX_SCB_TID])) (upd_scb a (\<lambda>c. c\<lparr>txq := (\<lambda>_. [])\<rparr>) s)
                    else s) } })"

text \<open>\<open>override\<close>: the direction was set at attach.\<close>

definition wlc_ampdu_agg_state_update_tx ::
  "upper \<Rightarrow> (nat \<Rightarrow> nat \<Rightarrow> tx_env) \<Rightarrow> bool \<Rightarrow> bool \<Rightarrow> ampdu_info \<Rightarrow> ampdu_info option" where
  "wlc_ampdu_agg_state_update_tx up en override on s =
     (if override \<or> txaggr s = on then Some s
      else do { s \<leftarrow> (if on then Some s else wlc_ampdu_cleanup up en True s); Some (s\<lparr>txaggr := on\<rparr>) })"

definition wlc_ampdu_agg_state_update_rx ::
  "upper \<Rightarrow> (nat \<Rightarrow> nat \<Rightarrow> tx_env) \<Rightarrow> bool \<Rightarrow> bool \<Rightarrow> ampdu_info \<Rightarrow> ampdu_info option" where
  "wlc_ampdu_agg_state_update_rx up en override on s =
     (if override \<or> rxaggr s = on then Some s
      else do { s \<leftarrow> (if on then Some s else wlc_ampdu_cleanup up en False s); Some (s\<lparr>rxaggr := on\<rparr>) })"

subsection \<open>Stations\<close>

text \<open>A station is made known to the module with empty tables; \<open>c\<close> brings the flags of the station itself.
  The list of stations is kept by \<^verbatim>\<open>wl/sys/wlc_scb.c\<close>.\<close>

definition scb_ampdu_init :: "nat \<Rightarrow> scb_ampdu \<Rightarrow> ampdu_info \<Rightarrow> ampdu_info" where
  "scb_ampdu_init a c s =
     s\<lparr>scbs := (scbs s)(a := Some (c\<lparr>resp := (\<lambda>_. None), resp_off := (\<lambda>_. \<lparr>ampdu_recd = False, ampdu_cnt = 0\<rparr>),
                                     ini := (\<lambda>_. None), txq := (\<lambda>_. []), scb_release := 0\<rparr>)),
       scb_list := a # scb_list s\<rparr>"

definition scb_ampdu_deinit :: "upper \<Rightarrow> (nat \<Rightarrow> tx_env) \<Rightarrow> nat \<Rightarrow> ampdu_info \<Rightarrow> ampdu_info option" where
  "scb_ampdu_deinit up en a s =
     do { s \<leftarrow> scb_ampdu_flush up en a s;
          Some (s\<lparr>scbs := (scbs s)(a := None), scb_list := filter (\<lambda>b. b \<noteq> a) (scb_list s)\<rparr>) }"

text \<open>Frames the module holds.\<close>

definition wlc_ampdu_txpktcnt :: "ampdu_info \<Rightarrow> nat" where
  "wlc_ampdu_txpktcnt s =
     sum_list (map (\<lambda>a. case scbs s a of None \<Rightarrow> 0
                       | Some c \<Rightarrow> if scb_ampducap c then sum_list (map (\<lambda>tid. length (txq c tid)) [0..<AMPDU_MAX_SCB_TID]) else 0)
                (scb_list s))"

subsection \<open>Requests from the configuration\<close>

datatype bcme = BCME_OK | BCME_BADARG | BCME_NOTFOUND | BCME_UNSUPPORTED | BCME_NOTREADY | BCME_ERROR

datatype iovar =
    IOV_AMPDU_TID nat bool
  | IOV_AMPDU_RX_TID nat bool
  | IOV_AMPDU_SEND_ADDBA nat "nat option"
  | IOV_AMPDU_SEND_DELBA nat "nat option"
  | IOV_AMPDU_MANUAL_MODE int
  | IOV_AMPDU_BA_WSIZE int

definition DOT11_RC_BAD_MECHANISM :: uint16 where "DOT11_RC_BAD_MECHANISM = 37"

text \<open>One size for both directions, cut to a byte.\<close>

definition set_ba_wsize :: "int \<Rightarrow> ampdu_info \<Rightarrow> ampdu_info \<times> bcme" where
  "set_ba_wsize n s =
     (if n = 0 \<or> n > int AMPDU_TX_BA_MAX_WSIZE \<or> n > int AMPDU_RX_BA_MAX_WSIZE then (s, BCME_BADARG)
      else (s\<lparr>ba_tx_wsize := word_of_int n, ba_rx_wsize := word_of_int n\<rparr>, BCME_OK))"

text \<open>Settings of \<open>wlc_ampdu_doiovar\<close>. Integers are 32 bit; a station is what \<open>wlc_scbfind\<close> finds.\<close>

definition wlc_ampdu_doiovar :: "upper \<Rightarrow> tx_env \<Rightarrow> iovar \<Rightarrow> ampdu_info \<Rightarrow> (ampdu_info \<times> bcme) option" where
  "wlc_ampdu_doiovar up en v s =
     (case v of
        IOV_AMPDU_TID tid on \<Rightarrow>
          Some (if tid \<ge> AMPDU_MAX_SCB_TID then (s, BCME_BADARG) else (s\<lparr>ini_enable := (ini_enable s)(tid := on)\<rparr>, BCME_OK))
      | IOV_AMPDU_RX_TID tid on \<Rightarrow>
          Some (if tid \<ge> AMPDU_MAX_SCB_TID then (s, BCME_BADARG) else (s\<lparr>rxba_enable := (rxba_enable s)(tid := on)\<rparr>, BCME_OK))
      | IOV_AMPDU_SEND_ADDBA tid a \<Rightarrow>
          if \<not> ampdu_enab s \<or> tid \<ge> AMPDU_MAX_SCB_TID then Some (s, BCME_BADARG)
          else (case a of None \<Rightarrow> Some (s, BCME_NOTFOUND)
                | Some a \<Rightarrow>
                  do { c \<leftarrow> scbs s a;
                       if \<not> scb_ampducap c then Some (s, BCME_UNSUPPORTED)
                       else if ini c tid \<noteq> None then Some (s, BCME_NOTREADY)
                       else do { (s, have) \<leftarrow> wlc_ampdu_init_tid_ini en a tid True s;
                                 Some (s, if have then BCME_OK else BCME_ERROR) } })
      | IOV_AMPDU_SEND_DELBA tid a \<Rightarrow>
          if \<not> ampdu_enab s \<or> tid \<ge> AMPDU_MAX_SCB_TID then Some (s, BCME_BADARG)
          else (case a of None \<Rightarrow> Some (s, BCME_NOTFOUND)
                | Some a \<Rightarrow>
                  do { c \<leftarrow> scbs s a;
                       if \<not> scb_ampducap c then Some (s, BCME_UNSUPPORTED)
                       else do { s \<leftarrow> wlc_ampdu_send_delba up en a tid True DOT11_RC_BAD_MECHANISM s; Some (s, BCME_OK) } })
      | IOV_AMPDU_MANUAL_MODE n \<Rightarrow> Some (s\<lparr>manual_mode := ((word_of_int n :: uint8) \<noteq> 0)\<rparr>, BCME_OK)
      | IOV_AMPDU_BA_WSIZE n \<Rightarrow> Some (set_ba_wsize n s))"

end
