(* ===== verification/AmpduSafe.thy ===== *)
theory AmpduSafe
  imports AmpduMod
begin

text \<open>
  The invariant of the whole module, both sides of all agreements of all stations (\<open>module_ok\<close>): for the receiver
  \<open>ampdu_ok\<close>, for every initiator \<open>ini_good\<close>, namely its window (\<open>tx_rel\<close>) and the ring of frames to be sent again.
  \<open>stays\<close> says that an operation returns and keeps it; there is one such lemma per routine. The receiver's routines leave the
  sender alone (\<open>lets\<close>); the sender's go through the steps of \<open>link_relation\<close>, interpreted a second time here. Then
  every entry point in any order (\<open>module_runs_safe\<close>), the removal of a station, and two things that go wrong where a condition
  on the calls does not hold.
\<close>

subsection \<open>Beside the window\<close>

text \<open>The ring of the frames to be sent again: both ends are inside the array.\<close>

definition ring_ok :: "tid_ini \<Rightarrow> bool" where
  "ring_ok i \<longleftrightarrow> length (ini_retry_seq i) = 128 \<and> unat (ini_retry_head i) < 128 \<and> unat (ini_retry_tail i) < 128"

definition keeps :: "link \<Rightarrow> link \<Rightarrow> bool" where
  "keeps l l' \<longleftrightarrow> ini_state (lk_ini l') = ini_state (lk_ini l) \<and> ini_addr (lk_ini l') = ini_addr (lk_ini l) \<and>
     (ring_ok (lk_ini l) \<longrightarrow> ring_ok (lk_ini l'))"

text \<open>A change that touches none of these.\<close>

definition beside :: "(tid_ini \<Rightarrow> tid_ini) \<Rightarrow> bool" where
  "beside f \<longleftrightarrow> (\<forall>i. ini_state (f i) = ini_state i \<and> ini_addr (f i) = ini_addr i \<and> ini_retry_seq (f i) = ini_retry_seq i \<and>
     ini_retry_head (f i) = ini_retry_head i \<and> ini_retry_tail (f i) = ini_retry_tail i)"

lemma keeps_beside: "beside f \<Longrightarrow> keeps l (upd_ini f l)"
  by (simp add: beside_def keeps_def ring_ok_def)

lemma beside_fold: "(\<And>k. beside (g k)) \<Longrightarrow> beside (fold g ks)"
proof (induction ks)
  case (Cons k ks)
  then have "beside (fold g ks)" "beside (g k)" by blast+
  then show ?case unfolding beside_def by simp
qed (simp add: beside_def)

lemma keeps_same: "lk_ini l' = lk_ini l \<Longrightarrow> keeps l l'"
  by (simp add: keeps_def)

lemma keeps_trans: "keeps l l' \<Longrightarrow> keeps l' l'' \<Longrightarrow> keeps l l''"
  by (simp add: keeps_def)

lemma keeps_release_one: "keeps l (release_one cf p l)"
  by (simp add: release_one_def Let_def lk_emit_def keeps_def ring_ok_def upd_ini_def)

lemma keeps_release_fold: "keeps l (fold (release_one cf) ps l)"
proof (induction ps arbitrary: l)
  case (Cons p ps)
  then show ?case unfolding fold_simps by (rule keeps_trans [OF keeps_release_one])
qed (simp add: keeps_same)

lemma keeps_release: "keeps l (wlc_ampdu_release cf n l)"
proof -
  have "keeps l (fold (release_one cf) ps (upd_ini (\<lambda>i. i\<lparr>ini_rem_window := x i, ini_tx_in_transit := y i\<rparr>) l))" for ps x y
    by (rule keeps_trans [OF keeps_beside keeps_release_fold]) (simp add: beside_def)
  then show ?thesis by (simp add: wlc_ampdu_release_def Let_def keeps_same)
qed

lemma ring_next: "unat (of_nat (NEXT_TX_INDEX n) :: uint16) < 128"
proof -
  have "NEXT_TX_INDEX n < 128" by (simp add: NEXT_TX_INDEX_def AMPDU_TX_BA_MAX_WSIZE_def)
  moreover have "unat (of_nat (NEXT_TX_INDEX n) :: uint16) \<le> NEXT_TX_INDEX n"
    by (simp add: unsigned_of_nat take_bit_nat_less_eq_self)
  ultimately show ?thesis by simp
qed

lemma ring_retry: "ring_ok i \<Longrightarrow> ring_ok (note_retry seq n i)"
  by (simp add: ring_ok_def note_retry_def ring_next)

lemma ring_pop: "ring_ok i \<Longrightarrow> ring_ok (pop_retry i)"
  by (simp add: ring_ok_def pop_retry_def ring_next)

lemma beside_steps: "beside (bar_clear k)" "beside (set_barpending k)" "beside (move_start n)" "beside (ack_clear k)" "beside (bar_sent seq)"
  by (simp_all add: beside_def bar_clear_def Let_def set_barpending_def move_start_def ack_clear_def bar_sent_def)

interpretation side: link_relation keeps
proof unfold_locales
  show "keeps l l" for l by (rule keeps_same) simp
  show "keeps l l' \<Longrightarrow> keeps l' l'' \<Longrightarrow> keeps l l''" for l l' l'' by (rule keeps_trans)
  show "keeps l (WLCNTADD u x l)" for l u x by (rule keeps_same) simp
  show "keeps l (lk_emit e l)" for e l by (rule keeps_same) (simp add: lk_emit_def)
  show "keeps l (l\<lparr>lk_stopped := b\<rparr>)" for l b by (rule keeps_same) simp
  show "keeps l (wlc_ampdu_release cf n l)" for n l cf by (rule keeps_release)
  show "keeps l (upd_ini (fold bar_clear ks) l)" for ks l by (rule keeps_beside [OF beside_fold [OF beside_steps(1)]])
  show "keeps l (upd_ini (fold set_barpending ks) l)" for ks l by (rule keeps_beside [OF beside_fold [OF beside_steps(2)]])
  show "keeps l (upd_ini (note_retry seq y) l)" for seq y l
    using ring_retry [of "lk_ini l"] by (simp add: keeps_def) (simp add: note_retry_def)
  show "keeps l (upd_ini pop_retry l)" for l
    using ring_pop [of "lk_ini l"] by (simp add: keeps_def) (simp add: pop_retry_def)
qed (auto intro!: keeps_beside beside_steps simp: beside_def)

subsection \<open>A good initiator\<close>

definition ini_good :: "tid_ini \<Rightarrow> bool" where
  "ini_good i \<longleftrightarrow> (\<exists>M T A. tx_rel i M T A) \<and> ring_ok i \<and> (ini_state i \<in> {BA_OFF, BA_PENDING_ON} \<longrightarrow> ini_ba_wsize i = 0)"

lemma counter_ahead: "\<exists>S \<ge> T. S < T + 4096 \<and> unat (x AND 0xFFF :: uint16) = S mod 4096"
proof -
  define n where "n = unat (x AND 0xFFF)"
  have n: "n < 4096" by (simp add: n_def unat_mask12)
  define k where "k = (n + 4096 - T mod 4096) mod 4096"
  have "(T + k) mod 4096 = (T mod 4096 + (n + 4096 - T mod 4096)) mod 4096"
    unfolding k_def by (simp only: mod_add_left_eq mod_add_right_eq)
  also have "T mod 4096 + (n + 4096 - T mod 4096) = n + 4096" by (simp add: less_imp_le trans_le_add2)
  finally have "(T + k) mod 4096 = n" using n by simp
  moreover have "k < 4096" by (simp add: k_def)
  ultimately show ?thesis unfolding n_def by (intro exI [of _ "T + k"]) simp
qed

lemma good_steps:
  assumes "ini_good (lk_ini l)" "steps l l'" "keeps l l'"
  shows "ini_good (lk_ini l')"
proof -
  obtain M T A where r: "tx_rel (lk_ini l) M T A" using assms(1) unfolding ini_good_def by blast
  obtain S where S: "T \<le> S" "S < T + 4096" "unat (lk_seqnum l AND 0xFFF) = S mod 4096" using counter_ahead by blast
  obtain M' A' ds where "step_to M T A S l l' M' A' ds" using stepsD [OF assms(2) r S] by blast
  note d = step_toD [OF this]
  show ?thesis using assms(1,3) d(1,4) unfolding ini_good_def keeps_def by auto
qed

lemma good_new: "ini_good (new_ini addr)"
proof -
  have "tx_rel (new_ini addr) 0 0 {}" by (simp add: tx_rel_def new_ini_def AMPDU_TX_BA_MAX_WSIZE_def)
  then show ?thesis unfolding ini_good_def ring_ok_def by (auto simp: new_ini_def AMPDU_TX_BA_MAX_WSIZE_def)
qed

text \<open>A change that neither the window nor the ring shows.\<close>

lemma good_upd:
  assumes "ini_good i" "ini_ackpending (f i) = ini_ackpending i" "length (ini_barpending (f i)) = length (ini_barpending i)"
    "length (ini_txretry (f i)) = length (ini_txretry i)" "ini_start_seq (f i) = ini_start_seq i" "ini_max_seq (f i) = ini_max_seq i"
    "ini_rem_window (f i) = ini_rem_window i" "ini_ba_wsize (f i) = ini_ba_wsize i" "ini_tx_in_transit (f i) = ini_tx_in_transit i"
    "ini_retry_seq (f i) = ini_retry_seq i" "ini_retry_head (f i) = ini_retry_head i" "ini_retry_tail (f i) = ini_retry_tail i"
    "ini_state (f i) \<in> {BA_OFF, BA_PENDING_ON} \<Longrightarrow> ini_ba_wsize i = 0"
  shows "ini_good (f i)"
proof -
  obtain M T A where r: "tx_rel i M T A" using assms(1) unfolding ini_good_def by blast
  have "tx_rel (f i) M T A"
    by (rule tx_rel_cong [OF r assms(2) _ _ assms(5-9)]) (simp_all add: assms(3,4) tx_relD(2,3) [OF r])
  then show ?thesis using assms(1,8,10-13) unfolding ini_good_def ring_ok_def by auto
qed

lemma good_wind_down: "ini_good (lk_ini l) \<Longrightarrow> ini_good (lk_ini (ini_wind_down cf l))"
proof -
  assume "ini_good (lk_ini l)"
  then have "ini_good (lk_ini (upd_ini (\<lambda>i. i\<lparr>ini_state := BA_PENDING_OFF\<rparr>) l))"
    unfolding lk_ini_upd by (rule good_upd) simp_all
  then show ?thesis by (rule good_steps [OF _ win.wind_down side.wind_down])
qed

text \<open>An accepted request.\<close>

lemma good_turn_on:
  assumes "ini_good (lk_ini l)" "ini_ba_wsize (lk_ini l) = 0" "unat w \<le> 128"
  shows "ini_good (lk_ini (ini_turn_on w l))"
proof -
  obtain M T A where r: "tx_rel (lk_ini l) M T A" using assms(1) unfolding ini_good_def by blast
  note d = tx_relD [OF r]
  have "T = M" using d(6,7) assms(2) by simp
  then have A: "A = {}" using d(9) by simp
  have none: "\<forall>k < 128. \<not> ini_ackpending (lk_ini l) ! k" using d(10) A by simp
  have zero: "ini_tx_in_transit (lk_ini l) = 0" using d(11) A by (simp add: unat_eq_0)
  have "tx_rel (lk_ini (ini_turn_on w l)) (unat (lk_seqnum l AND 0xFFF)) (unat (lk_seqnum l AND 0xFFF)) {}"
    using turn_on_rel [OF d(1-3) none zero assms(3) refl] unfolding run_rel_def by blast
  then show ?thesis using assms(1) unfolding ini_good_def by (auto simp: ini_turn_on_def Let_def ring_ok_def)
qed

lemma good_accepted:
  assumes "ini_good (lk_ini l)" "ini_ba_wsize (lk_ini l) = 0" "unat w \<le> 128"
  shows "ini_good (lk_ini (ini_accepted cf w ps l))"
proof -
  let ?l1 = "WLCNTADD rxaddbaresp_update 1 (ini_turn_on w l)"
  let ?l2 = "wlc_ampdu_send_bar cf True ?l1"
  have "ini_good (lk_ini ?l1)" using good_turn_on [OF assms] by simp
  then have "ini_good (lk_ini ?l2)" by (rule good_steps [OF _ win.send_bar side.send_bar])
  then have "ini_good (lk_ini (?l2\<lparr>lk_txq := lk_txq ?l2 @ ps\<rparr>))" by simp
  then have "ini_good (lk_ini (wlc_ampdu_txeval cf False (?l2\<lparr>lk_txq := lk_txq ?l2 @ ps\<rparr>)))"
    by (rule good_steps [OF _ win.txeval side.txeval])
  then show ?thesis by (simp add: ini_accepted_def Let_def)
qed

subsection \<open>The invariant\<close>

text \<open>Frames wait only where there is an initiator to send them, and not in the state \<open>BA_OFF\<close>.\<close>

definition slot_good :: "nat \<Rightarrow> tid_ini option \<Rightarrow> pkt list \<Rightarrow> bool" where
  "slot_good tid x q \<longleftrightarrow>
     (case x of None \<Rightarrow> q = [] | Some i \<Rightarrow> tid < AMPDU_MAX_SCB_TID \<and> ini_good i \<and> (ini_state i = BA_OFF \<longrightarrow> q = []))"

definition module_ok :: "ampdu_info \<Rightarrow> bool" where
  "module_ok s \<longleftrightarrow> ampdu_ok s \<and> (\<forall>a c tid. scbs s a = Some c \<longrightarrow> slot_good tid (ini c tid) (txq c tid)) \<and>
     length (ini_free s) = AMPDU_INI_FREE \<and> ini_free_index s < AMPDU_INI_FREE"

lemma module_okD:
  assumes "module_ok s"
  shows "ampdu_ok s" "scbs s a = Some c \<Longrightarrow> slot_good tid (ini c tid) (txq c tid)"
    "length (ini_free s) = AMPDU_INI_FREE" "ini_free_index s < AMPDU_INI_FREE"
  using assms unfolding module_ok_def by blast+

text \<open>An operation returns, keeps the invariant and the stations.\<close>

definition stays :: "ampdu_info \<Rightarrow> ampdu_info option \<Rightarrow> bool" where
  "stays s x \<longleftrightarrow> (\<exists>s'. x = Some s' \<and> module_ok s' \<and> stations s' = stations s \<and> scb_list s' = scb_list s)"

lemma staysI: "module_ok s' \<Longrightarrow> stations s' = stations s \<Longrightarrow> scb_list s' = scb_list s \<Longrightarrow> stays s (Some s')"
  by (simp add: stays_def)

lemma staysE:
  assumes "stays s x"
  obtains s' where "x = Some s'" "module_ok s'" "stations s' = stations s" "scb_list s' = scb_list s"
  using assms unfolding stays_def by blast

lemma stays_Some [simp]: "module_ok s \<Longrightarrow> stays s (Some s)"
  by (rule staysI) simp_all

lemma stays_bind:
  assumes "stays s x" "\<And>s'. x = Some s' \<Longrightarrow> module_ok s' \<Longrightarrow> stations s' = stations s \<Longrightarrow> stays s' (g s')"
  shows "stays s (Option.bind x g)"
proof -
  obtain s' where s': "x = Some s'" "module_ok s'" "stations s' = stations s" "scb_list s' = scb_list s"
    using assms(1) by (rule staysE)
  then show ?thesis using assms(2) [OF s'(1-3)] unfolding stays_def by simp
qed

lemma stays_trans: "stays s x \<Longrightarrow> (\<And>s'. x = Some s' \<Longrightarrow> module_ok s' \<Longrightarrow> stations s' = stations s \<Longrightarrow> stays s' (Some (g s'))) \<Longrightarrow>
    stays s (map_option g x)"
  using stays_bind [of s x "\<lambda>s'. Some (g s')"] by (cases x) simp_all

lemma stays_from: "stays t x \<Longrightarrow> stations t = stations s \<Longrightarrow> scb_list t = scb_list s \<Longrightarrow> stays s x"
  by (simp add: stays_def)

lemma stays_scb: "a \<in> stations s \<Longrightarrow> (\<And>c. scbs s a = Some c \<Longrightarrow> stays s (g c)) \<Longrightarrow> stays s (Option.bind (scbs s a) g)"
  by (cases "scbs s a") (simp_all add: stations_scbs)

text \<open>What the sender's side of the invariant reads.\<close>

definition tx_part :: "ampdu_info \<Rightarrow> (nat \<Rightarrow> ((nat \<Rightarrow> tid_ini option) \<times> (nat \<Rightarrow> pkt list)) option) \<times> tid_ini option list \<times> nat \<times> nat list" where
  "tx_part s = ((\<lambda>a. map_option (\<lambda>c. (ini c, txq c)) (scbs s a)), ini_free s, ini_free_index s, scb_list s)"

lemma tx_partD:
  assumes "tx_part s' = tx_part s"
  shows "stations s' = stations s" "scb_list s' = scb_list s" "ini_free s' = ini_free s" "ini_free_index s' = ini_free_index s"
    "scbs s' a = Some c' \<Longrightarrow> \<exists>c. scbs s a = Some c \<and> ini c = ini c' \<and> txq c = txq c'"
proof -
  have e: "map_option (\<lambda>c. (ini c, txq c)) (scbs s' a) = map_option (\<lambda>c. (ini c, txq c)) (scbs s a)" for a
    using fun_cong [OF arg_cong [OF assms, of fst], of a] unfolding tx_part_def fst_conv .
  have none: "scbs s' a = None \<longleftrightarrow> scbs s a = None" for a using arg_cong [OF e [of a], of "\<lambda>x. x = None"] by simp
  then show "stations s' = stations s" by (simp add: stations_scbs)
  show "scb_list s' = scb_list s" "ini_free s' = ini_free s" "ini_free_index s' = ini_free_index s"
    using assms by (simp_all add: tx_part_def)
  assume "scbs s' a = Some c'"
  then show "\<exists>c. scbs s a = Some c \<and> ini c = ini c' \<and> txq c = txq c'" using e [of a] by (cases "scbs s a") auto
qed

lemma module_ok_tx_part:
  assumes "module_ok s" "tx_part s' = tx_part s" "ampdu_ok s'"
  shows "module_ok s'"
  unfolding module_ok_def
proof (intro conjI allI impI)
  show "ampdu_ok s'" by fact
  show "length (ini_free s') = AMPDU_INI_FREE" "ini_free_index s' < AMPDU_INI_FREE"
    using module_okD(3,4) [OF assms(1)] tx_partD(3,4) [OF assms(2)] by simp_all
  fix a c' tid assume "scbs s' a = Some c'"
  then obtain c where "scbs s a = Some c" "ini c = ini c'" "txq c = txq c'" using tx_partD(5) [OF assms(2)] by blast
  then show "slot_good tid (ini c' tid) (txq c' tid)" using module_okD(2) [OF assms(1), of a c tid] by simp
qed

lemma stays_receiver:
  assumes "module_ok s" "\<exists>s'. x = Some s' \<and> ampdu_ok s'" "\<And>s'. x = Some s' \<Longrightarrow> tx_part s' = tx_part s"
  shows "stays s x"
proof -
  obtain s' where s': "x = Some s'" "ampdu_ok s'" using assms(2) by blast
  note p = assms(3) [OF s'(1)]
  show ?thesis unfolding s'(1) by (rule staysI [OF module_ok_tx_part [OF assms(1) p s'(2)] tx_partD(1,2) [OF p]])
qed

subsection \<open>The receiver leaves the sender alone\<close>

lemma tx_part_same:
  "scbs s' = scbs s \<Longrightarrow> ini_free s' = ini_free s \<Longrightarrow> ini_free_index s' = ini_free_index s \<Longrightarrow> scb_list s' = scb_list s \<Longrightarrow> tx_part s' = tx_part s"
  by (simp add: tx_part_def)

lemma tx_part_upd: "(\<And>c. ini (f c) = ini c \<and> txq (f c) = txq c) \<Longrightarrow> tx_part (upd_scb a f s) = tx_part s"
proof -
  assume f: "\<And>c. ini (f c) = ini c \<and> txq (f c) = txq c"
  have "map_option (\<lambda>c. (ini c, txq c)) (scbs (upd_scb a f s) b) = map_option (\<lambda>c. (ini c, txq c)) (scbs s b)" for b
    using f by (cases "b = a"; cases "scbs s b") (simp_all add: upd_scb_def)
  then show ?thesis by (simp add: tx_part_def upd_scb_def)
qed

lemma tx_part_simps [simp]:
  "tx_part (emit e s) = tx_part s" "tx_part (WLCNTINCR u s) = tx_part s" "tx_part (s\<lparr>resp_cnt := n\<rparr>) = tx_part s"
  "tx_part (s\<lparr>resp_timer := t\<rparr>) = tx_part s"
  by (rule tx_part_same; simp add: emit_def WLCNTINCR_def)+

lemma tx_part_steps [simp]:
  "tx_part (set_resp a tid r s) = tx_part s" "tx_part (set_ampdu_recd a tid s) = tx_part s" "tx_part (advance a tid r' s) = tx_part s"
  by (simp_all add: set_resp_def set_ampdu_recd_def advance_def tx_part_upd)

lemma tx_part_count [simp]: "tx_part (count_rx f s) = tx_part s"
  unfolding count_rx_def Let_def by (simp split: if_split)

lemma tx_part_send [simp]:
  "tx_part (wlc_send_delba al a tid b reason s) = tx_part s" "tx_part (wlc_send_addba_resp al a st tok tm ps s) = tx_part s"
  unfolding wlc_send_delba_def wlc_send_addba_resp_def by simp_all

text \<open>\<open>lets s x\<close>: if \<open>x\<close> is a state, its sender's part is that of \<open>s\<close>.\<close>

definition lets :: "ampdu_info \<Rightarrow> ampdu_info option \<Rightarrow> bool" where
  "lets s x \<longleftrightarrow> (\<forall>s'. x = Some s' \<longrightarrow> tx_part s' = tx_part s)"

lemma letsD: "lets s x \<Longrightarrow> x = Some s' \<Longrightarrow> tx_part s' = tx_part s"
  by (simp add: lets_def)

lemma lets_None [intro]: "lets s None"
  by (simp add: lets_def)

lemma lets_Some [intro]: "tx_part t = tx_part s \<Longrightarrow> lets s (Some t)"
  by (simp add: lets_def)

lemma lets_if [intro]: "(b \<Longrightarrow> lets s x) \<Longrightarrow> (\<not> b \<Longrightarrow> lets s y) \<Longrightarrow> lets s (if b then x else y)"
  by simp

lemma lets_option [intro]:
  "(x = None \<Longrightarrow> lets s y) \<Longrightarrow> (\<And>z. x = Some z \<Longrightarrow> lets s (g z)) \<Longrightarrow> lets s (case x of None \<Rightarrow> y | Some z \<Rightarrow> g z)"
  by (cases x) simp_all

lemma lets_get: "(\<And>z. x = Some z \<Longrightarrow> lets s (g z)) \<Longrightarrow> lets s (Option.bind x g)"
  by (cases x) (simp_all add: lets_None)

lemma lets_bind: "lets s x \<Longrightarrow> (\<And>t. tx_part t = tx_part s \<Longrightarrow> lets s (g t)) \<Longrightarrow> lets s (Option.bind x g)"
proof (cases x)
  case (Some t)
  assume "lets s x" "\<And>t. tx_part t = tx_part s \<Longrightarrow> lets s (g t)"
  moreover from this(1) have "tx_part t = tx_part s" using Some by (rule letsD)
  ultimately show ?thesis unfolding Some by simp
qed (simp add: lets_None)

lemma tx_part_sendup [simp]: "quiet up \<Longrightarrow> tx_part (wlc_recvdata_ordered up a p h s) = tx_part s"
  by (simp add: quietD)

lemma lets_ordered_loop:
  assumes "quiet up" "tx_part t = tx_part s"
  shows "lets s (release_ordered_loop up a tid indx t)"
proof -
  have "release_ordered_loop up a tid indx t = Some s' \<Longrightarrow> quiet up \<longrightarrow> tx_part t = tx_part s \<longrightarrow> tx_part s' = tx_part s" for s'
  proof (induction rule: release_ordered_loop.raw_induct [rotated, consumes 1, case_names step])
    case (step loop up a tid indx t s')
    show ?case
    proof (intro impI)
      assume q: "quiet up" "tx_part t = tx_part s"
      have IH: "lets s (loop up a tid i u)" if "tx_part u = tx_part s" for i u
        using step(1) that q unfolding lets_def by blast
      have "lets s (Some s')" unfolding step(2) [symmetric] Let_def
        by (intro lets_option lets_None lets_Some IH) (simp_all add: q)
      then show "tx_part s' = tx_part s" by (simp add: lets_def)
    qed
  qed
  then show ?thesis using assms unfolding lets_def by blast
qed

lemma lets_n_loop: "quiet up \<Longrightarrow> tx_part t = tx_part s \<Longrightarrow> lets s (release_n_loop up a tid n t)"
proof (induction n arbitrary: t)
  case (Suc n)
  show ?case unfolding release_n_loop.simps Let_def
    by (intro lets_option lets_None lets_Some Suc.IH Suc.prems(1)) (simp_all add: Suc.prems)
qed (simp add: lets_Some)

lemma lets_release:
  assumes "quiet up" "tx_part t = tx_part s"
  shows "lets s (wlc_ampdu_release_ordered up a tid t)" "lets s (wlc_ampdu_release_n_ordered up a tid n t)"
    "lets s (wlc_ampdu_release_all_ordered up a tid t)"
  unfolding wlc_ampdu_release_ordered_def wlc_ampdu_release_n_ordered_def wlc_ampdu_release_all_ordered_def
  by (intro lets_option lets_None lets_Some lets_ordered_loop lets_n_loop; simp add: assms)+

lemma lets_cleanup_resp:
  assumes "quiet up" "tx_part t = tx_part s"
  shows "lets s (ampdu_cleanup_tid_resp up a tid t)"
  unfolding ampdu_cleanup_tid_resp_def Let_def
  by (intro lets_option lets_None lets_Some lets_bind [OF lets_release(2)] lets_get) (simp_all add: assms)

lemma lets_delba_resp:
  assumes "quiet up" "tx_part t = tx_part s"
  shows "lets s (send_delba_resp up al a tid reason t)"
  unfolding send_delba_resp_def
  by (intro lets_Some lets_bind [OF lets_cleanup_resp] lets_get) (simp_all add: assms)

lemma lets_agreement:
  assumes "quiet up" "tx_part t = tx_part s"
  shows "lets s (recv_in_agreement up a tid r seq f t)"
proof -
  have e: "tx_part (case x of None \<Rightarrow> u | Some r \<Rightarrow> set_resp a tid (Some (h r)) u) = tx_part u" for x u h
    by (cases x) simp_all
  show ?thesis unfolding recv_in_agreement_def Let_def
    by (intro lets_if lets_Some lets_get lets_bind [OF lets_release(2)] lets_bind [OF lets_release(1)] lets_release(1)) (simp_all add: assms e)
qed

lemma lets_recvdata:
  assumes "quiet up" "tx_part t = tx_part s"
  shows "lets s (wlc_ampdu_recvdata up al a f t)"
  unfolding wlc_ampdu_recvdata_def Let_def
  by (intro lets_if lets_Some lets_get lets_option lets_delba_resp lets_agreement) (simp_all add: assms)

lemma lets_bar:
  assumes "quiet up" "tx_part t = tx_part s"
  shows "lets s (wlc_ampdu_recv_bar up a body t)"
  unfolding wlc_ampdu_recv_bar_def Let_def
  by (intro lets_if lets_None lets_Some lets_option lets_bind [OF lets_release(2)] lets_release(1)) (simp_all add: assms)

lemma lets_ctl:
  assumes "quiet up" "tx_part t = tx_part s"
  shows "lets s (wlc_ampdu_recv_ctl up a body fk t)"
  unfolding wlc_ampdu_recv_ctl_def
  by (cases fk; simp only: ctl_kind.case; intro lets_if lets_Some lets_get lets_option lets_bar)
    (simp_all add: assms wlc_ampdu_recv_ba_def)

lemma lets_tick:
  assumes "quiet up" "tx_part t = tx_part s"
  shows "lets s (resp_tick up a tid t)"
  unfolding resp_tick_def Let_def
  by (intro lets_if lets_None lets_Some lets_option lets_release(3)) (simp_all add: assms)

text \<open>A refused request for an agreement may end the station's own that waits for an answer; other requests do not.\<close>

lemma lets_addba_req:
  assumes "quiet up" "tx_part t = tx_part s" "\<not> body ! 0 AND 0x80 \<noteq> 0"
  shows "lets s (wlc_ampdu_recv_addba_req up al a body t)"
  unfolding wlc_ampdu_recv_addba_req_def Let_def if_not_P [OF assms(3)]
  by (intro lets_if lets_Some lets_get [of "scbs t a"] lets_bind [OF lets_cleanup_resp] lets_get) (simp_all add: assms)

lemma stays_lets: "module_ok s \<Longrightarrow> \<exists>s'. x = Some s' \<and> ampdu_ok s' \<Longrightarrow> lets s x \<Longrightarrow> stays s x"
  by (rule stays_receiver) (auto dest: letsD)

lemma stays_rx:
  assumes "quiet up" "module_ok s" "a \<in> stations s"
  shows "stays s (ampdu_cleanup_tid_resp up a tid s)" "stays s (send_delba_resp up al a tid reason s)"
    "stays s (wlc_ampdu_recvdata up al a f s)" "stays s (resp_tick up a tid s)"
    "\<not> body ! 0 AND 0x80 \<noteq> 0 \<Longrightarrow> stays s (wlc_ampdu_recv_addba_req up al a body s)"
proof -
  note ok = assms(1) module_okD(1) [OF assms(2)] assms(3)
  show "stays s (ampdu_cleanup_tid_resp up a tid s)"
    by (rule stays_lets [OF assms(2) _ lets_cleanup_resp [OF assms(1) refl]]) (use ok_cleanup [OF ok] in blast)
  show "stays s (send_delba_resp up al a tid reason s)"
    by (rule stays_lets [OF assms(2) ok_send_delba_resp [OF ok] lets_delba_resp [OF assms(1) refl]])
  show "stays s (wlc_ampdu_recvdata up al a f s)"
    by (rule stays_lets [OF assms(2) ok_recvdata [OF ok] lets_recvdata [OF assms(1) refl]])
  show "stays s (resp_tick up a tid s)"
    by (rule stays_lets [OF assms(2) _ lets_tick [OF assms(1) refl]]) (use ok_tick [OF ok] in blast)
  show "\<not> body ! 0 AND 0x80 \<noteq> 0 \<Longrightarrow> stays s (wlc_ampdu_recv_addba_req up al a body s)"
    by (rule stays_lets [OF assms(2) ok_addba_req [OF ok] lets_addba_req [OF assms(1) refl]])
qed

lemma stays_ctl:
  assumes "quiet up" "module_ok s" "\<And>b. a = Some b \<Longrightarrow> b \<in> stations s"
  shows "stays s (wlc_ampdu_recv_ctl up a body fk s)"
  by (rule stays_lets [OF assms(2) ok_recv_ctl [OF assms(1) module_okD(1) [OF assms(2)] assms(3)] lets_ctl [OF assms(1) refl]])

subsection \<open>The sender's side of a station\<close>

text \<open>A change of one station that leaves its responders alone.\<close>

lemma stays_station:
  assumes "module_ok s" "scbs s a = Some c" "scbs s' = (scbs s)(a := Some c')" "resp c' = resp c"
    "\<And>tid. slot_good tid (ini c' tid) (txq c' tid)" "scb_list s' = scb_list s" "resp_cnt s' = resp_cnt s" "resp_timer s' = resp_timer s"
    "ba_rx_wsize s' = ba_rx_wsize s" "length (ini_free s') = AMPDU_INI_FREE" "ini_free_index s' < AMPDU_INI_FREE"
  shows "stays s (Some s')"
proof -
  have r: "resp_of s' = resp_of s" by (intro ext) (simp add: resp_of_def assms(2,3,4))
  have "ampdu_ok s'" by (rule ok_cong [OF module_okD(1) [OF assms(1)] r assms(6-9)])
  moreover have "slot_good tid (ini d tid) (txq d tid)" if "scbs s' b = Some d" for b d tid
    using that assms(5) module_okD(2) [OF assms(1)] unfolding assms(3) by (cases "b = a") auto
  ultimately have "module_ok s'" unfolding module_ok_def using assms(10,11) by blast
  moreover have "stations s' = stations s" unfolding stations_def r ..
  ultimately show ?thesis using assms(6) by (rule staysI)
qed

lemma stays_fields:
  assumes "module_ok s" "scbs s' = scbs s" "scb_list s' = scb_list s" "resp_cnt s' = resp_cnt s" "resp_timer s' = resp_timer s"
    "ba_rx_wsize s' = ba_rx_wsize s" "ini_free_index s' = ini_free_index s" "length (ini_free s') = length (ini_free s)"
  shows "stays s (Some s')"
proof -
  have r: "resp_of s' = resp_of s" by (intro ext) (simp add: resp_of_def assms(2))
  have "ampdu_ok s'" by (rule ok_cong [OF module_okD(1) [OF assms(1)] r assms(3-6)])
  then have "module_ok s'" using assms(1,2,7,8) unfolding module_ok_def by simp
  then show ?thesis by (rule staysI) (simp_all add: assms stations_def r)
qed

lemma stays_emit [simp]: "module_ok s \<Longrightarrow> stays s (Some (emit e s))"
  by (erule stays_fields) (simp_all add: emit_def)

lemma stays_cnt [simp]: "module_ok s \<Longrightarrow> stays s (Some (WLCNTINCR u s))"
  by (erule stays_fields) (simp_all add: WLCNTINCR_def)

lemma stays_module: "stays s (Some t) \<Longrightarrow> module_ok t \<and> stations t = stations s \<and> scb_list t = scb_list s"
  by (simp add: stays_def)

lemma module_ok_simps [simp]:
  "module_ok s \<Longrightarrow> module_ok (emit e s)" "module_ok s \<Longrightarrow> module_ok (WLCNTINCR u s)"
  using stays_module [OF stays_emit] stays_module [OF stays_cnt] by blast+

lemma emit_list [simp]: "scb_list (emit e s) = scb_list s"
  by (simp add: emit_def)

lemma stays_if: "(b \<Longrightarrow> stays s x) \<Longrightarrow> (\<not> b \<Longrightarrow> stays s y) \<Longrightarrow> stays s (if b then x else y)"
  by simp

lemma stays_option:
  "(x = None \<Longrightarrow> stays s y) \<Longrightarrow> (\<And>z. x = Some z \<Longrightarrow> stays s (g z)) \<Longrightarrow> stays s (case x of None \<Rightarrow> y | Some z \<Rightarrow> g z)"
  by (cases x) simp_all

text \<open>Traces and counters do not matter to what follows.\<close>

lemma stays_after: "module_ok t \<Longrightarrow> stations t = stations s \<Longrightarrow> scb_list t = scb_list s \<Longrightarrow> stays t x \<Longrightarrow> stays s x"
  by (simp add: stays_def)

lemma stays_send [simp]:
  assumes "module_ok s"
  shows "stays s (Some (wlc_send_delba al a tid b reason s))" "stays s (Some (wlc_send_addba_req al a tid s))"
  using assms by (simp_all add: wlc_send_delba_def wlc_send_addba_req_def)

lemma stays_fold_emit: "module_ok s \<Longrightarrow> stays s (Some (fold (\<lambda>p. emit (e p)) ps s))"
proof (induction ps arbitrary: s)
  case (Cons p ps)
  from Cons.IH [of "emit (e p) s"] Cons.prems show ?case by (simp add: stays_def)
qed simp

lemma stays_free_all: "module_ok s \<Longrightarrow> stays s (Some (free_all ps s))"
  unfolding free_all_def by (rule stays_fold_emit)

lemma stays_free_chain: "module_ok s \<Longrightarrow> stays s (Some (wlc_ampdu_free_chain ps s))"
  unfolding wlc_ampdu_free_chain_def
proof (induction ps arbitrary: s)
  case (Cons p ps)
  from Cons.IH [of "emit (Pktfree p) (WLCNTINCR orphan_update s)"] Cons.prems show ?case by (simp add: stays_def)
qed simp

text \<open>A link whose parts can stand in the module's state.\<close>

definition link_good :: "link \<Rightarrow> bool" where
  "link_good l \<longleftrightarrow> ini_good (lk_ini l) \<and> (ini_state (lk_ini l) = BA_OFF \<longrightarrow> lk_txq l = [])"

lemma link_goodI: "ini_good (lk_ini l) \<Longrightarrow> ini_state (lk_ini l) \<noteq> BA_OFF \<Longrightarrow> link_good l"
  by (simp add: link_good_def)

lemma link_steps:
  assumes "link_good l" "steps l l'" "keeps l l'"
  shows "link_good l'"
proof -
  have g: "ini_good (lk_ini l)" using assms(1) by (simp add: link_good_def)
  obtain M T A where r: "tx_rel (lk_ini l) M T A" using g unfolding ini_good_def by blast
  obtain S where S: "T \<le> S" "S < T + 4096" "unat (lk_seqnum l AND 0xFFF) = S mod 4096" using counter_ahead by blast
  obtain M' A' ds where "step_to M T A S l l' M' A' ds" using stepsD [OF assms(2) r S] by blast
  note d = step_toD [OF this]
  have "lk_txq l = [] \<Longrightarrow> lk_txq l' = []" using d(5) by simp
  then show ?thesis using good_steps [OF g assms(2,3)] assms(1,3) by (simp add: link_good_def keeps_def)
qed

lemma stays_put_link:
  assumes "module_ok s" "scbs s a = Some c" "ini c tid = Some i" "link_good l"
  shows "stays s (Some (put_link a tid c l s))"
proof -
  have "slot_good t (((ini c)(tid := Some (lk_ini l))) t) (((txq c)(tid := lk_txq l)) t)" for t
    using module_okD(2) [OF assms(1,2), of t] assms(3,4) by (cases "t = tid") (auto simp: slot_good_def link_good_def)
  then show ?thesis
    by (intro stays_station [OF assms(1,2), where c' = "c\<lparr>ini := (ini c)(tid := Some (lk_ini l)), txq := (txq c)(tid := lk_txq l),
        seqnum := (seqnum c)(tid := lk_seqnum l)\<rparr>"])
      (simp_all add: put_link_def module_okD(3,4) [OF assms(1)])
qed

lemma link_good_of:
  assumes "module_ok s" "scbs s a = Some c" "ini c tid = Some i"
  shows "link_good (link_of tid c i s)" "tid < AMPDU_MAX_SCB_TID" "ini_good i"
  using module_okD(2) [OF assms(1,2), of tid] assms(3) by (auto simp: slot_good_def link_good_def link_of_def)

lemma with_ini_Some:
  "scbs s a = Some c \<Longrightarrow> ini c tid = Some i \<Longrightarrow>
    with_ini en a tid f s = Some (put_link a tid c (f (conf_of en a tid c s) (link_of tid c i s)) s)"
  by (simp add: with_ini_def)

lemma stays_with_ini:
  assumes "module_ok s" "scbs s a = Some c" "ini c tid = Some i" "\<And>cf l. link_good l \<Longrightarrow> lk_ini l = i \<Longrightarrow> link_good (f cf l)"
  shows "stays s (with_ini en a tid f s)"
  unfolding with_ini_Some [OF assms(2,3)]
  by (rule stays_put_link [OF assms(1-3) assms(4) [OF link_good_of(1) [OF assms(1-3)]]]) (simp add: link_of_def)

text \<open>The initiator afterwards.\<close>

lemma with_ini_lookup:
  assumes "with_ini en a tid f s = Some s'"
  obtains c i c' cf l where "scbs s a = Some c" "ini c tid = Some i" "lk_ini l = i" "scbs s' a = Some c'"
    "ini c' tid = Some (lk_ini (f cf l))"
proof -
  obtain c where c: "scbs s a = Some c" using assms unfolding with_ini_def by (cases "scbs s a") simp_all
  obtain i where i: "ini c tid = Some i" using assms c unfolding with_ini_def by (cases "ini c tid") simp_all
  show ?thesis
    by (rule that [OF c i, of "link_of tid c i s"])
      (use assms with_ini_Some [OF c i, of en f] in \<open>auto simp: link_of_def put_link_def\<close>)
qed

subsection \<open>Every routine of the sender\<close>

lemma stays_chain: "stays s (Some t) \<Longrightarrow> (module_ok t \<Longrightarrow> stations t = stations s \<Longrightarrow> stays t x) \<Longrightarrow> stays s x"
  by (auto simp: stays_def)

lemma link_good_steps:
  assumes "link_good l"
  shows "link_good (wlc_ampdu_txeval cf force l)" "link_good (wlc_ampdu_txflowcontrol cf l)" "link_good (wlc_ampdu_send_bar cf start l)"
    "link_good (wlc_send_bar_complete cf acked l)" "link_good (fst (ampdu_is_exp_seq cf seq l))"
    "unat seq < 4096 \<Longrightarrow> link_good (wlc_ampdu_dotxstatus_regmpdu cf acked pmq seq l)"
    "\<forall>f \<in> set (st_frames st). unat (snd f) < 4096 \<Longrightarrow> link_good (wlc_ampdu_dotxstatus_complete cf st l)"
  using link_steps [OF assms win.txeval side.txeval] link_steps [OF assms win.flow side.flow] link_steps [OF assms win.send_bar side.send_bar]
    link_steps [OF assms win.bar_complete side.bar_complete] link_steps [OF assms win.is_exp_seq side.is_exp_seq]
    link_steps [OF assms win.regmpdu side.regmpdu] link_steps [OF assms win.complete side.complete] by blast+

lemma link_good_wind_down: "link_good l \<Longrightarrow> link_good (ini_wind_down cf l)"
proof -
  assume "link_good l"
  then have "ini_good (lk_ini (ini_wind_down cf l))" using good_wind_down by (simp add: link_good_def)
  moreover have "ini_state (lk_ini (ini_wind_down cf l)) = BA_PENDING_OFF"
    using side.wind_down [of l cf] by (simp add: keeps_def)
  ultimately show ?thesis by (simp add: link_goodI)
qed

lemma stays_drop_ini:
  assumes "module_ok s" "scbs s a = Some c" "ini c tid = Some i"
  shows "stays s (Some (drop_ini a tid c i s))"
proof -
  let ?c' = "c\<lparr>ini := (ini c)(tid := None), txq := (txq c)(tid := [])\<rparr>"
  let ?s1 = "upd_scb a (\<lambda>c. c\<lparr>ini := (ini c)(tid := None), txq := (txq c)(tid := [])\<rparr>) s"
  let ?s2 = "free_all (txq c tid) ?s1"
  let ?s3 = "if ini_bar_ackpending i then keep_for_callback i ?s2 else ?s2"
  have 1: "stays s (Some ?s1)"
    by (rule stays_station [OF assms(1,2), where c' = ?c'])
      (simp_all add: upd_scb_def assms(2) module_okD(2) [OF assms(1,2)] module_okD(3,4) [OF assms(1)], simp add: slot_good_def)
  have 2: "stays s (Some ?s2)" by (rule stays_chain [OF 1 stays_free_all])
  have keep: "stays t (Some (keep_for_callback i t))" if "module_ok t" for t
  proof -
    have "ampdu_ok (keep_for_callback i t)"
      by (rule ok_cong [OF module_okD(1) [OF that]]) (simp_all add: keep_for_callback_def resp_of_def fun_eq_iff)
    then have "module_ok (keep_for_callback i t)" using that unfolding module_ok_def by (auto simp: keep_for_callback_def AMPDU_INI_FREE_def)
    then show ?thesis by (rule staysI) (simp_all add: keep_for_callback_def stations_def resp_of_def)
  qed
  have 3: "stays s (Some ?s3)" using stays_chain [OF 2 keep] 2 by simp
  have "stays t (Some (emit e (t\<lparr>flow_stopped := g\<rparr>)))" if "module_ok t" for t e g
    by (rule stays_fields [OF that]) (simp_all add: emit_def)
  then show ?thesis using stays_chain [OF 3] unfolding drop_ini_def Let_def by blast
qed

lemma stays_cleanup_ini:
  assumes "module_ok s" "a \<in> stations s"
  shows "stays s (ampdu_cleanup_tid_ini en a tid force s)"
  unfolding ampdu_cleanup_tid_ini_def
proof (rule stays_scb [OF assms(2)])
  fix c assume c: "scbs s a = Some c"
  let ?rest = "\<lambda>s. Option.bind (scbs s a) (\<lambda>c. Option.bind (ini c tid) (\<lambda>i.
    Some (if ini_tx_in_transit i \<noteq> 0 \<and> \<not> force then s else drop_ini a tid c i s)))"
  show "stays s (if ini c tid = None then Some s else Option.bind (with_ini en a tid ini_wind_down s) ?rest)"
  proof (cases "ini c tid")
    case None
    then show ?thesis using assms(1) by simp
  next
    case (Some i)
    have "stays s (Option.bind (with_ini en a tid ini_wind_down s) ?rest)"
    proof (rule stays_bind)
      show "stays s (with_ini en a tid ini_wind_down s)"
        by (rule stays_with_ini [OF assms(1) c Some]) (rule link_good_wind_down)
      fix t assume t: "with_ini en a tid ini_wind_down s = Some t" "module_ok t"
      obtain c' i' where "scbs t a = Some c'" "ini c' tid = Some i'" using with_ini_lookup [OF t(1)] by metis
      then show "stays t (?rest t)" using stays_drop_ini [OF t(2)] t(2) by simp
    qed
    then show ?thesis using Some by simp
  qed
qed

lemma stays_send_delba:
  assumes "quiet up" "module_ok s" "a \<in> stations s"
  shows "stays s (wlc_ampdu_send_delba up en a tid initiator reason s)"
proof (cases initiator)
  case True
  have "stays t (Some (WLCNTINCR txdelba_update (wlc_send_delba al a tid b reason t)))" if "module_ok t" for t al b
    by (rule stays_chain [OF stays_send(1) [OF that, of al a tid b reason]]) simp
  then show ?thesis using True stays_bind [OF stays_cleanup_ini [OF assms(2,3)]] by (simp add: wlc_ampdu_send_delba_def)
next
  case False
  then show ?thesis using stays_rx(2) [OF assms] by (simp add: wlc_ampdu_send_delba_def)
qed

text \<open>Callbacks. The initiator is either kept for it or in use.\<close>

lemma stays_bar_callback:
  assumes "module_ok s" "Some addr \<in> map_option ini_addr ` set (ini_free s) \<or>
    (\<exists>c i. scbs s a = Some c \<and> ini c tid = Some i \<and> ini_addr i = addr)"
  shows "stays s (bar_callback en a tid addr acked s)"
proof -
  let ?waiting = "\<lambda>x. case x of None \<Rightarrow> False | Some i \<Rightarrow> ini_addr i = addr"
  show ?thesis
  proof (cases "list_ex ?waiting (ini_free s)")
    case True
    have "stays s (Some (s\<lparr>ini_free := (ini_free s)[k := None]\<rparr>))" for k by (rule stays_fields [OF assms(1)]) simp_all
    then show ?thesis using True by (simp add: bar_callback_def)
  next
    case False
    have "Some addr \<notin> map_option ini_addr ` set (ini_free s)"
      using False by (auto simp: list_ex_iff map_option_case split: option.splits)
    then obtain c i where c: "scbs s a = Some c" "ini c tid = Some i" "ini_addr i = addr" using assms(2) by blast
    have "stays s (with_ini en a tid (\<lambda>cf. wlc_send_bar_complete cf acked) s)"
      by (rule stays_with_ini [OF assms(1) c(1,2)]) (rule link_good_steps(4))
    then show ?thesis unfolding bar_callback_def Let_def if_not_P [OF False] using c by simp
  qed
qed

lemma stays_state_off:
  assumes "module_ok s" "scbs s a = Some c" "ini c tid = Some i" "ini_state i = BA_PENDING_ON"
  shows "stays s (Some (ampdu_ba_state_off a tid s))"
proof -
  let ?c' = "c\<lparr>ini := (ini c)(tid := map_option (ini_state_update (\<lambda>_. BA_OFF)) (ini c tid)), txq := (txq c)(tid := [])\<rparr>"
  let ?s1 = "upd_scb a (\<lambda>c. c\<lparr>ini := (ini c)(tid := map_option (ini_state_update (\<lambda>_. BA_OFF)) (ini c tid)), txq := (txq c)(tid := [])\<rparr>) s"
  note i = link_good_of [OF assms(1-3)]
  have "ini_good (i\<lparr>ini_state := BA_OFF\<rparr>)"
    by (rule good_upd [OF i(3)]) (use i(3) assms(4) in \<open>simp_all add: ini_good_def\<close>)
  then have "slot_good t (ini ?c' t) (txq ?c' t)" for t
    using module_okD(2) [OF assms(1,2), of t] assms(3) i(2) by (cases "t = tid") (simp_all add: slot_good_def)
  then have 1: "stays s (Some ?s1)"
    by (intro stays_station [OF assms(1,2), where c' = ?c']) (simp_all add: upd_scb_def assms(2) module_okD(3,4) [OF assms(1)])
  have "ampdu_ba_state_off a tid s = fold (\<lambda>p. emit (Txnext a p)) (txq c tid) ?s1" by (simp add: ampdu_ba_state_off_def assms(2))
  then show ?thesis using stays_chain [OF 1 stays_fold_emit] by simp
qed

text \<open>A new agreement of our own.\<close>

lemma init_tid_ini:
  assumes "module_ok s" "a \<in> stations s" "tid < AMPDU_MAX_SCB_TID"
  obtains t b where "wlc_ampdu_init_tid_ini en a tid override s = Some (t, b)" "stays s (Some t)"
    "b \<longrightarrow> (\<exists>c addr. scbs t a = Some c \<and> ini c tid = Some (new_ini addr))"
proof -
  obtain c where c: "scbs s a = Some c" using assms(2) by (auto simp: stations_scbs)
  let ?rel = "upd_scb a (\<lambda>c. c\<lparr>scb_release := en_release en\<rparr>) s"
  have 1: "stays s (Some ?rel)"
    by (rule stays_station [OF assms(1) c, where c' = "c\<lparr>scb_release := en_release en\<rparr>"])
      (simp_all add: upd_scb_def c module_okD(2) [OF assms(1) c] module_okD(3,4) [OF assms(1)])
  let ?where = "case ini c tid of None \<Rightarrow> en_addr en | Some i \<Rightarrow> Some (ini_addr i)"
  show ?thesis
  proof (cases "manual_mode s \<and> \<not> override \<or> \<not> ini_enable s tid")
    case True
    then show ?thesis using that [of s False] assms(1) c by (simp add: wlc_ampdu_init_tid_ini_def)
  next
    case go: False
    show ?thesis
    proof (cases ?where)
      case None
      then show ?thesis using that [of ?rel False] go c 1 by (simp add: wlc_ampdu_init_tid_ini_def Let_def)
    next
      case (Some addr)
      let ?c' = "c\<lparr>scb_release := en_release en, ini := (ini c)(tid := Some (new_ini addr))\<rparr>"
      let ?t = "upd_scb a (\<lambda>c. c\<lparr>ini := (ini c)(tid := Some (new_ini addr))\<rparr>) ?rel"
      let ?u = "WLCNTINCR txaddbareq_update (wlc_send_addba_req (en_alloc en) a tid ?t)"
      have "slot_good k (ini ?c' k) (txq ?c' k)" for k
        using module_okD(2) [OF assms(1) c, of k] assms(3) good_new by (cases "k = tid") (auto simp: slot_good_def new_ini_def)
      then have "stays s (Some ?t)"
        by (intro stays_station [OF assms(1) c, where c' = ?c']) (simp_all add: upd_scb_def c module_okD(3,4) [OF assms(1)])
      then have "stays s (Some (wlc_send_addba_req (en_alloc en) a tid ?t))" using stays_chain stays_send(2) by blast
      then have "stays s (Some ?u)" using stays_chain stays_cnt by blast
      moreover have "wlc_ampdu_init_tid_ini en a tid override s = Some (?u, True)"
        unfolding wlc_ampdu_init_tid_ini_def c Option.bind.simps if_not_P [OF go] Let_def Some option.case ..
      moreover have "scbs ?u a = Some ?c'" by (simp add: wlc_send_addba_req_def emit_def upd_scb_def c WLCNTINCR_def)
      moreover have "ini ?c' tid = Some (new_ini addr)" by simp
      ultimately show ?thesis by (intro that [of ?u True]) blast+
    qed
  qed
qed

lemma stays_agg_enqueue:
  assumes "module_ok s" "scbs s a = Some c" "ini c tid = Some i" "ini_state i \<noteq> BA_OFF"
  shows "stays s (agg_enqueue en a tid p s)"
proof (cases "en_room en")
  case True
  have "stays s (with_ini en a tid (\<lambda>cf. link_exec cf (Enqueue p)) s)"
  proof (rule stays_with_ini [OF assms(1-3)])
    fix cf l assume "link_good l" "lk_ini l = i"
    then have "link_good (l\<lparr>lk_txq := lk_txq l @ [p]\<rparr>)" using assms(4) by (simp add: link_good_def)
    then show "link_good (link_exec cf (Enqueue p) l)" unfolding link_exec.simps by (intro link_good_steps)
  qed
  then show ?thesis using True by (simp add: agg_enqueue_def)
next
  case False
  have "stays s (Some (WLCNTINCR txdrop_update (emit (Pktfree p) s)))" by (rule stays_chain [OF stays_emit [OF assms(1)] stays_cnt])
  then show ?thesis using False by (simp add: agg_enqueue_def)
qed

lemma stays_agg:
  assumes "module_ok s" "a \<in> stations s"
  shows "stays s (wlc_ampdu_agg en a prio p s)"
proof (cases "\<not> txaggr s \<or> prio \<ge> AMPDU_MAX_SCB_TID")
  case True
  then show ?thesis using assms(1) by (auto simp: wlc_ampdu_agg_def)
next
  case False
  then have tid: "prio < AMPDU_MAX_SCB_TID" by simp
  obtain c where c: "scbs s a = Some c" using assms(2) by (auto simp: stations_scbs)
  let ?x = "if ini c prio = None then wlc_ampdu_init_tid_ini en a prio False s else Some (s, True)"
  obtain t b where t: "?x = Some (t, b)" "stays s (Some t)" "b \<Longrightarrow> \<exists>c i. scbs t a = Some c \<and> ini c prio = Some i"
  proof (cases "ini c prio")
    case None
    obtain t b where "wlc_ampdu_init_tid_ini en a prio False s = Some (t, b)" "stays s (Some t)"
      "b \<longrightarrow> (\<exists>c addr. scbs t a = Some c \<and> ini c prio = Some (new_ini addr))"
      by (rule init_tid_ini [OF assms tid, of en False])
    then show ?thesis using that [of t b] None by auto
  next
    case (Some i)
    then show ?thesis using that [of s True] assms(1) c by simp
  qed
  let ?rest = "if \<not> b then Some (emit (Txnext a p) t)
    else Option.bind (scbs t a) (\<lambda>c. Option.bind (ini c prio) (\<lambda>i.
      if ini_state i = BA_OFF then Some (emit (Txnext a p) t) else agg_enqueue en a prio p t))"
  have e: "wlc_ampdu_agg en a prio p s = ?rest"
    unfolding wlc_ampdu_agg_def Let_def if_not_P [OF False] c Option.bind.simps t(1) prod.case ..
  have "stays t ?rest" if "module_ok t"
  proof (cases b)
    case True
    then obtain c' i where "scbs t a = Some c'" "ini c' prio = Some i" using t(3) by blast
    then show ?thesis using True that stays_agg_enqueue [OF that] by simp
  qed (use that in simp)
  then show ?thesis unfolding e using stays_chain [OF t(2)] by blast
qed

subsection \<open>Action frames and completions\<close>

lemma link_good_accepted:
  assumes "link_good l" "ini_state (lk_ini l) = BA_PENDING_ON" "unat w \<le> 128"
  shows "link_good (ini_accepted cf w ps l)"
proof -
  have g: "ini_good (lk_ini l)" "ini_ba_wsize (lk_ini l) = 0" using assms(1,2) by (auto simp: link_good_def ini_good_def)
  let ?l1 = "WLCNTADD rxaddbaresp_update 1 (ini_turn_on w l)"
  let ?l2 = "wlc_ampdu_send_bar cf True ?l1"
  have "ini_state (lk_ini ?l1) = BA_ON" by (simp add: ini_turn_on_def Let_def)
  then have "ini_state (lk_ini ?l2) = BA_ON" using side.send_bar [of ?l1 cf True] by (simp add: keeps_def)
  then have "ini_state (lk_ini (?l2\<lparr>lk_txq := lk_txq ?l2 @ ps\<rparr>)) = BA_ON" by simp
  then have "ini_state (lk_ini (ini_accepted cf w ps l)) = BA_ON"
    using side.txeval [of "?l2\<lparr>lk_txq := lk_txq ?l2 @ ps\<rparr>" cf False] by (simp add: keeps_def ini_accepted_def Let_def)
  then show ?thesis using good_accepted [OF g assms(3)] by (simp add: link_goodI)
qed

lemma stays_addba_resp:
  assumes "module_ok s" "a \<in> stations s"
  shows "stays s (wlc_ampdu_recv_addba_resp en a body pend s)"
proof -
  let ?ps = "body16 body 5"
  let ?w = "ucast (drop_bit 6 (?ps AND 0xffc0)) :: uint8" and ?tid = "unat (drop_bit 2 (?ps AND 0x003c))"
  let ?bad = "body16 body 3 \<noteq> DOT11_SC_SUCCESS \<or> (ucast (drop_bit 1 (?ps AND 0x0002)) :: uint8) \<noteq> ba_policy s \<or> unat ?w > AMPDU_TX_BA_MAX_WSIZE"
  have unexp: "stays s (Some (WLCNTINCR rxunexp_update s))" using assms(1) by simp
  obtain c where c: "scbs s a = Some c" using assms(2) by (auto simp: stations_scbs)
  have e: "wlc_ampdu_recv_addba_resp en a body pend s =
      (if body ! 0 AND 0x80 \<noteq> 0 \<or> ?tid \<ge> AMPDU_MAX_SCB_TID then Some (WLCNTINCR rxunexp_update s)
       else case ini c ?tid of None \<Rightarrow> Some (WLCNTINCR rxunexp_update s)
       | Some i \<Rightarrow> if ini_state i \<noteq> BA_PENDING_ON then Some (WLCNTINCR rxunexp_update s)
          else if ?bad then Some (WLCNTINCR rxunexp_update (ampdu_ba_state_off a ?tid s))
          else with_ini en a ?tid (\<lambda>cf. ini_accepted cf ?w pend) s)"
    unfolding wlc_ampdu_recv_addba_resp_def Let_def c Option.bind.simps ..
  have off: "stays s (Some (WLCNTINCR rxunexp_update (ampdu_ba_state_off a ?tid s)))"
    if "ini c ?tid = Some i" "\<not> ini_state i \<noteq> BA_PENDING_ON" for i
    by (rule stays_chain [OF stays_state_off [OF assms(1) c that(1)] stays_cnt]) (use that(2) in simp)
  have on: "stays s (with_ini en a ?tid (\<lambda>cf. ini_accepted cf ?w pend) s)"
    if "ini c ?tid = Some i" "\<not> ini_state i \<noteq> BA_PENDING_ON" "\<not> ?bad" for i
  proof (rule stays_with_ini [OF assms(1) c that(1)])
    fix cf l assume "link_good l" "lk_ini l = i"
    then show "link_good (ini_accepted cf ?w pend l)" using that(2,3) by (intro link_good_accepted) (simp_all add: AMPDU_TX_BA_MAX_WSIZE_def)
  qed
  show ?thesis unfolding e
    by (intro stays_if stays_option unexp) (rule off, assumption+, rule on, assumption+)
qed

lemma stays_addba_req:
  assumes "quiet up" "module_ok s" "a \<in> stations s"
  shows "stays s (wlc_ampdu_recv_addba_req up al a body s)"
proof (cases "body ! 0 AND 0x80 \<noteq> 0")
  case True
  let ?ps = "body16 body 3"
  let ?tid = "unat (drop_bit 2 (?ps AND 0x003c))"
  have reply: "stays s (Some (wlc_send_addba_resp al a DOT11_SC_DECLINED tok tm ps s))" for tok tm ps
    using assms(2) by (simp add: wlc_send_addba_resp_def)
  obtain c where c: "scbs s a = Some c" using assms(3) by (auto simp: stations_scbs)
  have e: "wlc_ampdu_recv_addba_req up al a body s =
      (if ?tid \<ge> AMPDU_MAX_SCB_TID then Some (WLCNTINCR rxunexp_update s)
       else if \<not> rxaggr s then Some (wlc_send_addba_resp al a DOT11_SC_DECLINED (body ! 2) (min (body16 body 5) (ucast (delba_timeout s))) ?ps s)
       else Some (WLCNTINCR rxunexp_update (case ini c ?tid of None \<Rightarrow> s
          | Some i \<Rightarrow> if ini_state i = BA_PENDING_ON then ampdu_ba_state_off a ?tid s else s)))"
    unfolding wlc_ampdu_recv_addba_req_def Let_def c Option.bind.simps if_P [OF True] ..
  have "stays s (Some (case ini c ?tid of None \<Rightarrow> s | Some i \<Rightarrow> if ini_state i = BA_PENDING_ON then ampdu_ba_state_off a ?tid s else s))"
    using assms(2) stays_state_off [OF assms(2) c] by (simp split: option.split)
  then have "stays s (Some (WLCNTINCR rxunexp_update (case ini c ?tid of None \<Rightarrow> s
          | Some i \<Rightarrow> if ini_state i = BA_PENDING_ON then ampdu_ba_state_off a ?tid s else s)))"
    by (rule stays_chain) (rule stays_cnt)
  then show ?thesis unfolding e by (intro stays_if reply stays_cnt assms(2))
next
  case False
  then show ?thesis using stays_rx(5) [OF assms] by simp
qed

lemma stays_recv_delba:
  assumes "quiet up" "module_ok s" "a \<in> stations s"
  shows "stays s (wlc_ampdu_recv_delba up en a body s)"
  unfolding wlc_ampdu_recv_delba_def Let_def
  by (intro stays_if stays_bind) (simp_all add: assms stays_rx(1) stays_cleanup_ini)

lemma stays_frameaction:
  assumes "quiet up" "module_ok s" "\<And>b. a = Some b \<Longrightarrow> b \<in> stations s"
  shows "stays s (wlc_frameaction_ampdu up en a body pend s)"
proof -
  have err: "stays s (Some (emit (Action_err body) (WLCNTINCR rxunexp_update s)))"
    by (rule stays_chain [OF stays_cnt [OF assms(2)] stays_emit])
  show ?thesis unfolding wlc_frameaction_ampdu_def Let_def
    by (intro stays_option stays_if err stays_addba_req stays_addba_resp stays_recv_delba) (simp_all add: assms)
qed

definition stays2 :: "ampdu_info \<Rightarrow> (ampdu_info \<times> 'a) option \<Rightarrow> bool" where
  "stays2 s x \<longleftrightarrow> (\<exists>t b. x = Some (t, b) \<and> stays s (Some t))"

lemma stays2I: "stays s (Some t) \<Longrightarrow> stays2 s (Some (t, b))"
  by (simp add: stays2_def)

lemma stays2_if: "(b \<Longrightarrow> stays2 s x) \<Longrightarrow> (\<not> b \<Longrightarrow> stays2 s y) \<Longrightarrow> stays2 s (if b then x else y)"
  by simp

lemma stays2_option:
  "(x = None \<Longrightarrow> stays2 s y) \<Longrightarrow> (\<And>z. x = Some z \<Longrightarrow> stays2 s (g z)) \<Longrightarrow> stays2 s (case x of None \<Rightarrow> y | Some z \<Rightarrow> g z)"
  by (cases x) simp_all

lemma stays2_scb: "a \<in> stations s \<Longrightarrow> (\<And>c. scbs s a = Some c \<Longrightarrow> stays2 s (g c)) \<Longrightarrow> stays2 s (Option.bind (scbs s a) g)"
  by (cases "scbs s a") (simp_all add: stations_scbs)

lemma stays_sendampdu_check:
  assumes "module_ok s" "a \<in> stations s"
  shows "stays2 s (sendampdu_check en a tid p seq s)"
proof -
  have orphan: "stays2 s (Some (emit (Pktfree p) (WLCNTINCR orphan_update s), False))"
    by (rule stays2I [OF stays_chain [OF stays_cnt [OF assms(1)] stays_emit]])
  have chk: "stays2 s (case ampdu_is_exp_seq (conf_of en a tid c s) seq (link_of tid c i s) of
      (l, go) \<Rightarrow> Some (if go then (put_link a tid c l s, True) else (emit (Pktfree p) (put_link a tid c l s), False)))"
    if c: "scbs s a = Some c" "ini c tid = Some i" for c i
  proof -
    obtain l go where l: "ampdu_is_exp_seq (conf_of en a tid c s) seq (link_of tid c i s) = (l, go)" by fastforce
    have "link_good l" using link_good_steps(5) [OF link_good_of(1) [OF assms(1) c], of "conf_of en a tid c s" seq] unfolding l by simp
    then have put: "stays s (Some (put_link a tid c l s))" by (rule stays_put_link [OF assms(1) c])
    then show ?thesis unfolding l prod.case by (cases go) (simp_all add: stays2I stays_chain [OF put stays_emit])
  qed
  show ?thesis unfolding sendampdu_check_def Let_def
    by (intro stays2_scb stays2_if stays2_option orphan chk stays2I stays_Some assms)
qed

lemma stays_dotxstatus:
  assumes "module_ok s" "\<And>b. a = Some b \<Longrightarrow> b \<in> stations s" "\<forall>f \<in> set frames. unat (snd f) < 4096"
  shows "stays s (wlc_ampdu_dotxstatus en a tid frames txs probe scan s)"
proof -
  have "link_good (link_exec cf (Complete (status_of s tid frames txs probe scan)) l)" if "link_good l" for cf l
    unfolding link_exec.simps using link_good_steps(2) [OF link_good_steps(7) [OF that]] assms(3) by (simp add: status_of_def)
  then show ?thesis unfolding wlc_ampdu_dotxstatus_def Let_def
    by (intro stays_option stays_scb stays_if stays_free_chain stays_with_ini assms) simp_all
qed

lemma stays_regmpdu:
  assumes "module_ok s" "\<And>b. a = Some b \<Longrightarrow> b \<in> stations s" "unat seq < 4096"
  shows "stays s (dotxstatus_regmpdu en a tid acked pmq seq s)"
  unfolding dotxstatus_regmpdu_def
  by (intro stays_option stays_scb stays_if stays_Some stays_with_ini link_good_steps(6) assms)

subsection \<open>The watchdog\<close>

text \<open>Counters of an initiator.\<close>

lemma stays_upd_ini:
  assumes "module_ok s" "scbs s a = Some c" "ini c tid = Some i" "beside f"
    "\<And>i. ini_ackpending (f i) = ini_ackpending i" "\<And>i. length (ini_barpending (f i)) = length (ini_barpending i)"
    "\<And>i. length (ini_txretry (f i)) = length (ini_txretry i)" "\<And>i. ini_start_seq (f i) = ini_start_seq i" "\<And>i. ini_max_seq (f i) = ini_max_seq i"
    "\<And>i. ini_rem_window (f i) = ini_rem_window i" "\<And>i. ini_ba_wsize (f i) = ini_ba_wsize i" "\<And>i. ini_tx_in_transit (f i) = ini_tx_in_transit i"
  shows "stays s (with_ini en a tid (\<lambda>cf. upd_ini f) s)"
proof (rule stays_with_ini [OF assms(1-3)])
  fix cf l assume l: "link_good l"
  have "ini_good (f (lk_ini l))"
    by (rule good_upd) (use l assms(4-12) in \<open>auto simp: link_good_def beside_def ini_good_def\<close>)
  then show "link_good (upd_ini f l)" using l assms(4) by (simp add: link_good_def beside_def) (simp add: upd_ini_def)
qed

lemma stays_resp_off:
  assumes "quiet up" "module_ok s" "a \<in> stations s"
  shows "stays s (watchdog_resp_off up en a tid s)"
proof -
  have u: "stays s (Some (upd_scb a (\<lambda>c. c\<lparr>resp_off := (resp_off c)(tid := x)\<rparr>) s))" if "scbs s a = Some c" for c x
    by (rule stays_station [OF assms(2) that, where c' = "c\<lparr>resp_off := (resp_off c)(tid := x)\<rparr>"])
      (simp_all add: upd_scb_def that module_okD(2) [OF assms(2) that] module_okD(3,4) [OF assms(2)])
  have "stays s (wlc_ampdu_send_delba up en a tid False reason (upd_scb a (\<lambda>c. c\<lparr>resp_off := (resp_off c)(tid := x)\<rparr>) s))"
    if "scbs s a = Some c" for c x reason
    by (rule stays_chain [OF u [OF that] stays_send_delba [OF assms(1)]]) (simp_all add: assms(3))
  then show ?thesis unfolding watchdog_resp_off_def Let_def
    by (intro stays_scb stays_if assms(3)) (simp_all add: u)
qed

lemma link_good_drain: "link_good l \<Longrightarrow> link_good (drain l)"
proof -
  have "lk_ini (fold (\<lambda>p. lk_emit (Pktfree p)) ps l) = lk_ini l" "lk_txq (fold (\<lambda>p. lk_emit (Pktfree p)) ps l) = lk_txq l" for ps l
    by (induction ps arbitrary: l) (simp_all add: lk_emit_def)
  then show "link_good l \<Longrightarrow> link_good (drain l)" by (simp add: drain_def Let_def link_good_def WLCNTADD_def)
qed

lemma with_ini_station: "with_ini en a tid f s = Some t \<Longrightarrow> \<exists>c i. scbs t a = Some c \<and> ini c tid = Some i"
  by (erule with_ini_lookup) blast

lemma stays_initiator: "scbs s a = Some c \<Longrightarrow> ini c tid = Some i \<Longrightarrow> (\<And>c i. scbs s a = Some c \<Longrightarrow> ini c tid = Some i \<Longrightarrow> stays s (g c i)) \<Longrightarrow>
    stays s (Option.bind (scbs s a) (\<lambda>c. Option.bind (ini c tid) (g c)))"
  by simp

text \<open>After a step of the initiator it is still there.\<close>

lemma stays_ini_bind:
  assumes "stays s (with_ini en a tid f s)"
    "\<And>t c i. module_ok t \<Longrightarrow> stations t = stations s \<Longrightarrow> scbs t a = Some c \<Longrightarrow> ini c tid = Some i \<Longrightarrow> stays t (g t)"
  shows "stays s (Option.bind (with_ini en a tid f s) g)"
proof (rule stays_bind [OF assms(1)])
  fix t assume t: "with_ini en a tid f s = Some t" "module_ok t" "stations t = stations s"
  obtain c i where "scbs t a = Some c" "ini c tid = Some i" using with_ini_station [OF t(1)] by blast
  then show "stays t (g t)" by (rule assms(2) [OF t(2,3)])
qed

lemma link_good_retry_bar: "link_good l \<Longrightarrow> link_good (upd_ini (\<lambda>i. i\<lparr>ini_retry_bar := x\<rparr>) l)"
  by (rule link_steps [OF _ win.why side.why])

lemma stays_watchdog_on:
  assumes "quiet up" "module_ok s" "scbs s a = Some c" "ini c tid = Some i"
  shows "stays s (watchdog_on up en a tid s)"
proof -
  have go: "stays s (with_ini en a tid (\<lambda>cf. wlc_ampdu_txeval cf True) s)"
    by (rule stays_with_ini [OF assms(2-4)]) (rule link_good_steps(1))
  have rest: "stays t (Option.bind (scbs t a) (\<lambda>c. Option.bind (ini c tid) (\<lambda>i.
      if ini_retry_bar i \<noteq> AMPDU_R_BAR_DISABLED
      then with_ini en a tid (\<lambda>cf l. wlc_ampdu_send_bar cf False
             (upd_ini (\<lambda>i. i\<lparr>ini_retry_bar := AMPDU_R_BAR_DISABLED\<rparr>)
               (if ini_retry_bar i = AMPDU_R_BAR_NO_BUFFER then drain l else l))) t
      else if ini_bar_cnt i \<ge> AMPDU_BAR_RETRY_CNT then wlc_ampdu_send_delba up en a tid True DOT11_RC_TIMEOUT t
      else if ini_alive i then with_ini en a tid (\<lambda>cf. upd_ini (\<lambda>i. i\<lparr>ini_alive := False, ini_dead_cnt := 0\<rparr>)) t
      else Option.bind (with_ini en a tid (\<lambda>cf. upd_ini (\<lambda>j. j\<lparr>ini_dead_cnt := if ini_tx_in_transit i \<noteq> 0 then ini_dead_cnt i + 1 else ini_dead_cnt i\<rparr>)) t)
        (\<lambda>t. if (if ini_tx_in_transit i \<noteq> 0 then ini_dead_cnt i + 1 else ini_dead_cnt i) = AMPDU_INI_DEAD_TIMEOUT
          then Option.bind (wlc_ampdu_send_delba up en a tid True DOT11_RC_TIMEOUT (WLCNTINCR txstuck_update t)) (ampdu_cleanup_tid_ini en a tid True)
          else Some t))))"
    if t: "module_ok t" "scbs t a = Some c" "ini c tid = Some i" for t c i
  proof -
    have a: "a \<in> stations t" using t(2) by (simp add: stations_scbs)
    have bar: "stays t (with_ini en a tid (\<lambda>cf l. wlc_ampdu_send_bar cf False
             (upd_ini (\<lambda>i. i\<lparr>ini_retry_bar := x\<rparr>) (if b then drain l else l))) t)" for x b
      by (rule stays_with_ini [OF t]) (simp add: link_good_steps(3) link_good_retry_bar link_good_drain)
    have alive: "stays t (with_ini en a tid (\<lambda>cf. upd_ini (\<lambda>i. i\<lparr>ini_alive := False, ini_dead_cnt := 0\<rparr>)) t)"
      by (rule stays_upd_ini [OF t]) (simp_all add: beside_def)
    have dead: "stays t (with_ini en a tid (\<lambda>cf. upd_ini (\<lambda>j. j\<lparr>ini_dead_cnt := n\<rparr>)) t)" for n
      by (rule stays_upd_ini [OF t]) (simp_all add: beside_def)
    have stuck: "stays u (Option.bind (wlc_ampdu_send_delba up en a tid True DOT11_RC_TIMEOUT (WLCNTINCR txstuck_update u)) (ampdu_cleanup_tid_ini en a tid True))"
      if "module_ok u" "a \<in> stations u" for u
      by (rule stays_chain [OF stays_cnt [OF that(1)] stays_bind [OF stays_send_delba [OF assms(1)] stays_cleanup_ini]])
        (simp_all add: that)
    show ?thesis unfolding t Option.bind.simps
      by (intro stays_if stays_bind [OF dead] bar alive stays_send_delba [OF assms(1)] stuck stays_Some) (simp_all add: t a)
  qed
  show ?thesis unfolding watchdog_on_def Let_def
    by (rule stays_ini_bind [OF go]) (rule rest)
qed

lemma stays_pending_on:
  assumes "module_ok s" "scbs s a = Some c" "ini c tid = Some i" "ini_state i = BA_PENDING_ON"
  shows "stays s (Option.bind (with_ini en a tid (\<lambda>cf. upd_ini (\<lambda>i. i\<lparr>ini_addba_req_cnt := ini_addba_req_cnt i + 1\<rparr>)) s)
    (\<lambda>s. Some (if b then ampdu_ba_state_off a tid s else WLCNTINCR txaddbareq_update (wlc_send_addba_req al a tid s))))"
proof (rule stays_bind)
  let ?f = "\<lambda>cf :: tx_conf. upd_ini (\<lambda>i. i\<lparr>ini_addba_req_cnt := ini_addba_req_cnt i + 1\<rparr>)"
  show "stays s (with_ini en a tid ?f s)" by (rule stays_upd_ini [OF assms(1-3)]) (simp_all add: beside_def)
  fix t assume t: "with_ini en a tid ?f s = Some t" "module_ok t"
  obtain c' l where "scbs t a = Some c'" "ini c' tid = Some (lk_ini (?f undefined l))" "lk_ini l = i"
    using t(1) with_ini_Some [OF assms(2,3), of en ?f] by (auto simp: put_link_def link_of_def intro: that [of _ "link_of tid c i s"])
  moreover have "ini_state (lk_ini (?f undefined l)) = BA_PENDING_ON" if "lk_ini l = i" for l using that assms(4) by simp
  ultimately have "stays t (Some (ampdu_ba_state_off a tid t))" using stays_state_off [OF t(2)] by blast
  moreover have "stays t (Some (WLCNTINCR txaddbareq_update (wlc_send_addba_req al a tid t)))"
    by (rule stays_chain [OF stays_send(2) [OF t(2)] stays_cnt])
  ultimately show "stays t (Some (if b then ampdu_ba_state_off a tid t else WLCNTINCR txaddbareq_update (wlc_send_addba_req al a tid t)))"
    by simp
qed

lemma stays_off:
  assumes "module_ok s" "a \<in> stations s" "tid < AMPDU_MAX_SCB_TID"
  shows "stays s (Option.bind (wlc_ampdu_init_tid_ini en a tid False s) (\<lambda>(s, have).
    if have then with_ini en a tid (\<lambda>cf. upd_ini (\<lambda>i. i\<lparr>ini_addba_req_cnt := x\<rparr>)) s else Some s))"
proof -
  obtain t b where t: "wlc_ampdu_init_tid_ini en a tid False s = Some (t, b)" "stays s (Some t)"
    "b \<longrightarrow> (\<exists>c addr. scbs t a = Some c \<and> ini c tid = Some (new_ini addr))"
    by (rule init_tid_ini [OF assms, of en False])
  have "stays t (if b then with_ini en a tid (\<lambda>cf. upd_ini (\<lambda>i. i\<lparr>ini_addba_req_cnt := x\<rparr>)) t else Some t)" if m: "module_ok t"
  proof (cases b)
    case True
    then obtain c addr where c: "scbs t a = Some c" "ini c tid = Some (new_ini addr)" using t(3) by blast
    have "stays t (with_ini en a tid (\<lambda>cf. upd_ini (\<lambda>i. i\<lparr>ini_addba_req_cnt := x\<rparr>)) t)"
      by (rule stays_upd_ini [OF m c]) (simp_all add: beside_def)
    then show ?thesis using True by simp
  qed (use m in simp)
  then show ?thesis unfolding t(1) Option.bind.simps prod.case using stays_chain [OF t(2)] by blast
qed

lemma stays_watchdog_tid:
  assumes "quiet up" "module_ok s" "a \<in> stations s"
  shows "stays s (watchdog_tid up en a tid s)"
  unfolding watchdog_tid_def
proof (rule stays_bind [OF stays_resp_off [OF assms]])
  let ?bind = "\<lambda>t (i :: tid_ini). case ini_state i of
      BA_ON \<Rightarrow> watchdog_on up en a tid t
    | BA_PENDING_ON \<Rightarrow> Option.bind (with_ini en a tid (\<lambda>cf. upd_ini (\<lambda>i. i\<lparr>ini_addba_req_cnt := ini_addba_req_cnt i + 1\<rparr>)) t)
        (\<lambda>s. Some (if ini_addba_req_cnt i \<ge> AMPDU_ADDBA_REQ_RETRY_CNT then ampdu_ba_state_off a tid s
                   else WLCNTINCR txaddbareq_update (wlc_send_addba_req (en_alloc en) a tid s)))
    | BA_PENDING_OFF \<Rightarrow> Option.bind (with_ini en a tid (\<lambda>cf. upd_ini (\<lambda>i. i\<lparr>ini_cleanup_ini_cnt := ini_cleanup_ini_cnt i + 1\<rparr>)) t)
        (\<lambda>s. if ini_cleanup_ini_cnt i \<ge> AMPDU_INI_CLEANUP_TIMEOUT then ampdu_cleanup_tid_ini en a tid True (WLCNTINCR txstuck_update s)
             else ampdu_cleanup_tid_ini en a tid False s)
    | BA_OFF \<Rightarrow> Option.bind (with_ini en a tid (\<lambda>cf. upd_ini (\<lambda>i. i\<lparr>ini_off_cnt := ini_off_cnt i + 1\<rparr>)) t)
        (\<lambda>s. if ini_off_cnt i \<ge> AMPDU_INI_OFF_TIMEOUT
             then Option.bind (wlc_ampdu_init_tid_ini en a tid False s) (\<lambda>(s, have).
               if have then with_ini en a tid (\<lambda>cf. upd_ini (\<lambda>i. i\<lparr>ini_addba_req_cnt := AMPDU_ADDBA_REQ_RETRY_CNT\<rparr>)) s else Some s)
             else Some s)"
  fix t assume t: "module_ok t" "stations t = stations s"
  have a: "a \<in> stations t" using assms(3) t(2) by simp
  have "stays t (?bind t i)" if c: "scbs t a = Some c" "ini c tid = Some i" for c i
  proof (cases "ini_state i")
    case BA_ON
    then show ?thesis using stays_watchdog_on [OF assms(1) t(1) c] by simp
  next
    case BA_PENDING_ON
    then show ?thesis using stays_pending_on [OF t(1) c BA_PENDING_ON] by simp
  next
    case BA_PENDING_OFF
    have 1: "stays t (with_ini en a tid (\<lambda>cf. upd_ini (\<lambda>i. i\<lparr>ini_cleanup_ini_cnt := ini_cleanup_ini_cnt i + 1\<rparr>)) t)"
      by (rule stays_upd_ini [OF t(1) c]) (simp_all add: beside_def)
    have 2: "stays u (ampdu_cleanup_tid_ini en a tid True (WLCNTINCR txstuck_update u))" if "module_ok u" "a \<in> stations u" for u
      by (rule stays_chain [OF stays_cnt [OF that(1)] stays_cleanup_ini]) (simp_all add: that)
    show ?thesis unfolding BA_PENDING_OFF ba_state.case
      by (intro stays_bind [OF 1] stays_if 2 stays_cleanup_ini) (simp_all add: a)
  next
    case BA_OFF
    have 1: "stays t (with_ini en a tid (\<lambda>cf. upd_ini (\<lambda>i. i\<lparr>ini_off_cnt := ini_off_cnt i + 1\<rparr>)) t)"
      by (rule stays_upd_ini [OF t(1) c]) (simp_all add: beside_def)
    show ?thesis unfolding BA_OFF ba_state.case
      by (intro stays_bind [OF 1] stays_if stays_off stays_Some) (simp_all add: a link_good_of(2) [OF t(1) c])
  qed
  then show "stays t (Option.bind (scbs t a) (\<lambda>c. case ini c tid of None \<Rightarrow> Some t | Some i \<Rightarrow> ?bind t i))"
    by (intro stays_scb stays_option stays_Some a t(1))
qed

subsection \<open>Loops over stations and TIDs\<close>

lemma stays_for_tids:
  assumes "\<And>tid t. module_ok t \<Longrightarrow> a \<in> stations t \<Longrightarrow> stays t (f tid t)"
  shows "module_ok s \<Longrightarrow> a \<in> stations s \<Longrightarrow> stays s (for_tids f tids s)"
proof (induction tids arbitrary: s)
  case (Cons tid tids)
  show ?case unfolding for_tids.simps
    by (rule stays_bind [OF assms [OF Cons.prems] Cons.IH]) (use Cons.prems in simp_all)
qed simp

lemma stays_all_tids:
  "(\<And>tid t. module_ok t \<Longrightarrow> a \<in> stations t \<Longrightarrow> stays t (f tid t)) \<Longrightarrow> module_ok s \<Longrightarrow> a \<in> stations s \<Longrightarrow> stays s (all_tids f s)"
  unfolding all_tids_def by (rule stays_for_tids)

lemma stays_foreach:
  assumes f: "\<And>a t. module_ok t \<Longrightarrow> a \<in> stations t \<Longrightarrow> stays t (f a t)"
  shows "module_ok s \<Longrightarrow> scb_list s = xs @ ys \<Longrightarrow> stays s (foreach_scb f (case ys of [] \<Rightarrow> None | a # _ \<Rightarrow> Some a) s)"
proof (induction ys arbitrary: xs s)
  case Nil
  then show ?case by (subst foreach_scb.simps) simp
next
  case (Cons a ys)
  note ok = ampdu_okD [OF module_okD(1) [OF Cons.prems(1)]]
  have a: "a \<in> stations s" using ok(2) Cons.prems(2) by (metis in_set_conv_decomp)
  obtain c where c: "scbs s a = Some c" using a by (auto simp: stations_scbs)
  obtain s1 where s1: "(if scb_ampducap c then f a s else Some s) = Some s1" "module_ok s1" "stations s1 = stations s" "scb_list s1 = scb_list s"
    using f [OF Cons.prems(1) a] Cons.prems(1) by (cases "scb_ampducap c") (auto elim: staysE)
  have nxt: "next_scb (scb_list s) a = (case ys of [] \<Rightarrow> None | b # _ \<Rightarrow> Some b)"
    using next_scb_append [of xs a ys] ok(1) unfolding Cons.prems(2) by blast
  have e: "foreach_scb f (Some a) s = foreach_scb f (case ys of [] \<Rightarrow> None | b # _ \<Rightarrow> Some b) s1"
    by (subst foreach_scb.simps) (simp only: option.case c s1(1) nxt)
  have "scb_list s1 = (xs @ [a]) @ ys" using s1(4) Cons.prems(2) by simp
  from stays_from [OF Cons.IH [OF s1(2) this] s1(3,4)] show ?case unfolding list.case e .
qed

lemma stays_all_stations:
  "(\<And>a t. module_ok t \<Longrightarrow> a \<in> stations t \<Longrightarrow> stays t (f a t)) \<Longrightarrow> module_ok s \<Longrightarrow> stays s (all_stations f s)"
  unfolding all_stations_def by (rule stays_foreach [where xs = "[]"]) simp_all

lemma stays_timeout: "quiet up \<Longrightarrow> module_ok s \<Longrightarrow> stays s (wlc_ampdu_resp_timeout up s)"
  using stays_all_stations [of "\<lambda>a. all_tids (resp_tick up a)"] stays_all_tids stays_rx(4)
  by (simp add: wlc_ampdu_resp_timeout_def all_stations_def all_tids_def) blast

lemma stays_watchdog: "quiet up \<Longrightarrow> module_ok s \<Longrightarrow> stays s (wlc_ampdu_watchdog up en s)"
  unfolding wlc_ampdu_watchdog_def by (intro stays_all_stations stays_all_tids stays_watchdog_tid)

lemma stays_clean:
  assumes "quiet up" "module_ok s" "a \<in> stations s"
  shows "stays s (all_tids (\<lambda>tid s. Option.bind (ampdu_cleanup_tid_resp up a tid s) (ampdu_cleanup_tid_ini (en tid) a tid force)) s)"
  by (intro stays_all_tids [where a = a] stays_bind [OF stays_rx(1)] stays_cleanup_ini) (simp_all add: assms)

text \<open>Emptying a station's queues.\<close>

lemma stays_flush_txq:
  assumes "module_ok s" "a \<in> stations s"
  shows "stays s (Option.bind (scbs s a) (\<lambda>c. Some (free_all (g c) (upd_scb a (\<lambda>c. c\<lparr>txq := (\<lambda>_. [])\<rparr>) s))))"
proof (rule stays_scb [OF assms(2)])
  fix c assume c: "scbs s a = Some c"
  have "slot_good t (ini c t) []" for t using module_okD(2) [OF assms(1) c, of t] by (auto simp: slot_good_def split: option.split)
  then have "stays s (Some (upd_scb a (\<lambda>c. c\<lparr>txq := (\<lambda>_. [])\<rparr>) s))"
    by (intro stays_station [OF assms(1) c, where c' = "c\<lparr>txq := (\<lambda>_. [])\<rparr>"]) (simp_all add: upd_scb_def c module_okD(3,4) [OF assms(1)])
  then show "stays s (Some (free_all (g c) (upd_scb a (\<lambda>c. c\<lparr>txq := (\<lambda>_. [])\<rparr>) s)))" by (rule stays_chain) (rule stays_free_all)
qed

lemma stays_flush:
  assumes "quiet up" "module_ok s" "a \<in> stations s"
  shows "stays s (scb_ampdu_flush up en a s)"
  unfolding scb_ampdu_flush_def
  by (rule stays_bind [OF stays_clean [OF assms] stays_flush_txq]) (simp_all add: assms(3))

lemma stays_scb_cleanup: "quiet up \<Longrightarrow> module_ok s \<Longrightarrow> a \<in> stations s \<Longrightarrow> stays s (scb_ampdu_cleanup up en a s)"
  unfolding scb_ampdu_cleanup_def by (rule stays_clean)

lemma stays_down: "quiet up \<Longrightarrow> module_ok s \<Longrightarrow> stays s (wlc_ampdu_down up en s)"
  unfolding wlc_ampdu_down_def by (intro stays_all_stations stays_flush)

lemma stays_reset: "module_ok s \<Longrightarrow> stays s (wlc_ampdu_reset en s)"
  unfolding wlc_ampdu_reset_def reset_tid_def
  by (intro stays_all_stations stays_all_tids stays_scb stays_option stays_if stays_Some stays_cleanup_ini)

lemma stays_cleanup_tid:
  assumes "quiet up" "module_ok s" "a \<in> stations s"
  shows "stays s (cleanup_tid up en tx a tid s)"
  unfolding cleanup_tid_def
  by (intro stays_scb stays_if stays_option stays_Some stays_bind stays_send_delba stays_cleanup_ini stays_rx(1); simp add: assms)

lemma stays_cleanup:
  assumes "quiet up" "module_ok s"
  shows "stays s (wlc_ampdu_cleanup up en tx s)"
proof -
  have fin: "stays t (Option.bind (scbs t a) (\<lambda>c. Some (if tx then free_all (concat (map (txq c) [0..<AMPDU_MAX_SCB_TID]))
      (upd_scb a (\<lambda>c. c\<lparr>txq := (\<lambda>_. [])\<rparr>) t) else t)))" if "module_ok t" "a \<in> stations t" for a t
    using stays_flush_txq [OF that] stays_scb [OF that(2)] that(1) by (cases tx) simp_all
  show ?thesis unfolding wlc_ampdu_cleanup_def
    by (intro stays_all_stations stays_scb stays_if stays_Some stays_bind [OF stays_all_tids] stays_cleanup_tid fin) (simp_all add: assms)
qed

lemma stays_agg_state:
  assumes "quiet up" "module_ok s"
  shows "stays s (wlc_ampdu_agg_state_update_tx up en override b s)" "stays s (wlc_ampdu_agg_state_update_rx up en override b s)"
proof -
  have "stays t (Some (t\<lparr>txaggr := b\<rparr>))" "stays t (Some (t\<lparr>rxaggr := b\<rparr>))" if "module_ok t" for t
    by (rule stays_fields [OF that]; simp)+
  then show "stays s (wlc_ampdu_agg_state_update_tx up en override b s)" "stays s (wlc_ampdu_agg_state_update_rx up en override b s)"
    unfolding wlc_ampdu_agg_state_update_tx_def wlc_ampdu_agg_state_update_rx_def
    by (intro stays_if stays_Some stays_bind stays_cleanup; simp add: assms)+
qed

subsection \<open>Stations that come and go\<close>

lemma cleanup_resp_of:
  assumes "quiet up" "ampdu_ok s" "ampdu_cleanup_tid_resp up a tid s = Some s'" "a \<in> stations s"
  shows "resp_of s' b t = (if (b, t) = (a, tid) then Some None else resp_of s b t)"
proof -
  obtain x where x: "resp_of s a tid = Some x" using assms(4) stations_any by blast
  show ?thesis
  proof (cases x)
    case None
    then show ?thesis using assms(3) x by (auto simp: ampdu_cleanup_tid_resp_def)
  next
    case (Some r)
    then have r: "resp_of s a tid = Some (Some r)" using x by simp
    obtain m q where w: "win_rel r m q" using ampdu_okD(5) [OF assms(2) r] by (auto simp: resp_ok_def)
    obtain s1 where s1: "ampdu_cleanup_tid_resp up a tid s =
        Some ((set_resp a tid None s1)\<lparr>resp_cnt := resp_cnt s - 1, resp_timer := resp_timer s \<and> resp_cnt s \<noteq> 1\<rparr>)" "same_but a tid s s1"
      using cleanup_refines [OF assms(1) r w] by blast
    have "a \<in> stations s1" using assms(4) same_but_stations [OF s1(2)] by simp
    from set_resp_resp_of [OF this, of tid None b t] show ?thesis
      using s1(1) assms(3) same_but_resp_of [OF s1(2), of b t] by (auto simp: resp_of_def)
  qed
qed

lemma resp_of_put_link: "scbs s a = Some c \<Longrightarrow> resp_of (put_link a tid c l s) = resp_of s"
  by (intro ext) (simp add: resp_of_def put_link_def)

lemma emit_resp_of [simp]: "resp_of (emit e s) = resp_of s"
  by (intro ext) (simp add: resp_of_def emit_def)

lemma resp_of_free_all [simp]: "resp_of (free_all ps s) = resp_of s"
  unfolding free_all_def by (induction ps arbitrary: s) simp_all

lemma resp_of_upd: "(\<And>c. resp (f c) = resp c) \<Longrightarrow> resp_of (upd_scb a f s) = resp_of s"
  by (intro ext) (simp add: resp_of_def upd_scb_def option.map_comp o_def)

lemma resp_of_drop_ini: "resp_of (drop_ini a tid c i s) = resp_of s"
proof -
  have "resp_of (s\<lparr>flow_stopped := g\<rparr>) = resp_of s" "resp_of (keep_for_callback i s) = resp_of s" for s g
    by (simp_all add: resp_of_def keep_for_callback_def fun_eq_iff)
  then show ?thesis by (simp add: drop_ini_def Let_def resp_of_upd)
qed

lemma resp_of_cleanup_ini:
  assumes "ampdu_cleanup_tid_ini en a tid force s = Some s'"
  shows "resp_of s' = resp_of s"
proof -
  obtain c where c: "scbs s a = Some c" using assms by (cases "scbs s a") (simp_all add: ampdu_cleanup_tid_ini_def)
  show ?thesis
  proof (cases "ini c tid")
    case None
    then show ?thesis using assms c by (simp add: ampdu_cleanup_tid_ini_def)
  next
    case (Some i)
    let ?l = "ini_wind_down (conf_of en a tid c s) (link_of tid c i s)"
    define t where "t = put_link a tid c ?l s"
    have r: "resp_of t = resp_of s" unfolding t_def by (rule resp_of_put_link [OF c])
    have w: "with_ini en a tid ini_wind_down s = Some t" unfolding t_def by (rule with_ini_Some [OF c Some])
    obtain c' where c': "scbs t a = Some c'" "ini c' tid = Some (lk_ini ?l)" by (simp add: t_def put_link_def)
    have "s' = (if ini_tx_in_transit (lk_ini ?l) \<noteq> 0 \<and> \<not> force then t else drop_ini a tid c' (lk_ini ?l) t)"
      using assms unfolding ampdu_cleanup_tid_ini_def by (simp add: c Some w c')
    then show ?thesis using r resp_of_drop_ini [of a tid c' "lk_ini ?l" t] by (cases "ini_tx_in_transit (lk_ini ?l) \<noteq> 0 \<and> \<not> force") simp_all
  qed
qed

lemma flush_ends_agreements:
  assumes "quiet up"
  shows "module_ok s \<Longrightarrow> a \<in> stations s \<Longrightarrow>
    for_tids (\<lambda>tid s. Option.bind (ampdu_cleanup_tid_resp up a tid s) (ampdu_cleanup_tid_ini (en tid) a tid force)) tids s = Some s' \<Longrightarrow>
    resp_of s' b t = (if b = a \<and> t \<in> set tids then Some None else resp_of s b t)"
proof (induction tids arbitrary: s)
  case (Cons tid tids)
  obtain s1 where s1: "ampdu_cleanup_tid_resp up a tid s = Some s1" "module_ok s1" "stations s1 = stations s"
    using stays_rx(1) [OF assms Cons.prems(1,2), of tid] by (auto elim: staysE)
  obtain s2 where s2: "ampdu_cleanup_tid_ini (en tid) a tid force s1 = Some s2" "module_ok s2" "stations s2 = stations s1"
    using stays_cleanup_ini [OF s1(2), of a] Cons.prems(2) s1(3) by (metis staysE)
  have "resp_of s' b t = (if b = a \<and> t \<in> set tids then Some None else resp_of s2 b t)"
    by (rule Cons.IH [OF s2(2)]) (use Cons.prems(2,3) s1 s2 in simp_all)
  then show ?case
    using cleanup_resp_of [OF assms module_okD(1) [OF Cons.prems(1)] s1(1) Cons.prems(2), of b t] resp_of_cleanup_ini [OF s2(1)] by auto
qed simp

lemma flush_resp_of:
  assumes "quiet up" "module_ok s" "a \<in> stations s" "scb_ampdu_flush up en a s = Some s'"
  shows "resp_of s' b t = (if b = a then Some None else resp_of s b t)"
proof -
  obtain s1 c where s1: "all_tids (\<lambda>tid s. Option.bind (ampdu_cleanup_tid_resp up a tid s) (ampdu_cleanup_tid_ini (en tid) a tid True)) s = Some s1"
      and c: "scbs s1 a = Some c" and s': "s' = free_all (concat (map (txq c) [0..<AMPDU_MAX_SCB_TID])) (upd_scb a (\<lambda>c. c\<lparr>txq := (\<lambda>_. [])\<rparr>) s1)"
    using assms(4) unfolding scb_ampdu_flush_def by (auto simp: bind_eq_Some_conv)
  have "resp_of s' = resp_of s1" unfolding s' by (simp add: resp_of_upd)
  moreover note flush_ends_agreements [OF assms(1-3) s1 [unfolded all_tids_def], of b t]
  moreover have "resp_of s a t = Some None" if "\<not> t < AMPDU_MAX_SCB_TID"
    using that ampdu_okD(4) [OF module_okD(1) [OF assms(2)], of a t] assms(3) stations_any [of a s t] by (metis not_None_eq)
  ultimately show ?thesis by auto
qed

lemma deinit_ok:
  assumes "quiet up" "module_ok s" "a \<in> stations s"
  obtains s' where "scb_ampdu_deinit up en a s = Some s'" "module_ok s'" "stations s' = stations s - {a}"
    "agreements s' = {(b, t) \<in> agreements s. b \<noteq> a}"
proof -
  obtain t where t: "scb_ampdu_flush up en a s = Some t" "module_ok t" "stations t = stations s" "scb_list t = scb_list s"
    using stays_flush [OF assms] by (rule staysE)
  let ?s' = "t\<lparr>scbs := (scbs t)(a := None), scb_list := filter (\<lambda>b. b \<noteq> a) (scb_list t)\<rparr>"
  note ok = ampdu_okD [OF module_okD(1) [OF t(2)]]
  note r = flush_resp_of [OF assms t(1)]
  have resp: "resp_of ?s' b k = (if b = a then None else resp_of t b k)" for b k by (simp add: resp_of_def)
  have ag: "agreements ?s' = agreements t" by (auto simp: agreements_def resp r)
  have st: "stations ?s' = stations t - {a}" by (auto simp: stations_def resp)
  note len = le_trans [OF length_filter_le [of "\<lambda>b. b \<noteq> a" "scb_list t"] ok(3)]
  have "\<And>b k x. resp_of ?s' b k = Some (Some x) \<Longrightarrow> k < AMPDU_MAX_SCB_TID \<and> resp_ok x" unfolding resp using ok(4,5) by (auto split: if_splits)
  then have "ampdu_ok ?s'" unfolding ampdu_ok_def ag st using ok(1,2,6-9) len by auto
  moreover have "slot_good k (ini d k) (txq d k)" if "scbs ?s' b = Some d" for b d k
    using that module_okD(2) [OF t(2), of b d k] by (simp split: if_splits)
  ultimately have "module_ok ?s'" unfolding module_ok_def using module_okD(3,4) [OF t(2)] by auto
  moreover have "agreements t = {(b, k) \<in> agreements s. b \<noteq> a}" by (auto simp: agreements_def r)
  ultimately show ?thesis using that [of ?s'] t(1,3) st ag by (simp add: scb_ampdu_deinit_def)
qed

lemma init_station_ok:
  assumes "module_ok s" "a \<notin> stations s" "length (scb_list s) < MAXSCB"
  shows "module_ok (scb_ampdu_init a c s)" "stations (scb_ampdu_init a c s) = insert a (stations s)"
    "agreements (scb_ampdu_init a c s) = agreements s"
proof -
  let ?s' = "scb_ampdu_init a c s"
  note ok = ampdu_okD [OF module_okD(1) [OF assms(1)]]
  have no: "resp_of s a k = None" for k using assms(2) by (simp add: stations_scbs resp_of_def)
  have resp: "resp_of ?s' b k = (if b = a then Some None else resp_of s b k)" for b k by (simp add: resp_of_def scb_ampdu_init_def)
  show st: "stations ?s' = insert a (stations s)" by (auto simp: stations_def resp)
  show ag: "agreements ?s' = agreements s" by (auto simp: agreements_def resp no)
  have f: "scb_list ?s' = a # scb_list s" "resp_cnt ?s' = resp_cnt s" "resp_timer ?s' = resp_timer s" "ba_rx_wsize ?s' = ba_rx_wsize s"
    "ini_free ?s' = ini_free s" "ini_free_index ?s' = ini_free_index s" by (simp_all add: scb_ampdu_init_def)
  have "\<And>b k x. resp_of ?s' b k = Some (Some x) \<Longrightarrow> k < AMPDU_MAX_SCB_TID \<and> resp_ok x" unfolding resp using ok(4,5) by (auto split: if_splits)
  then have "ampdu_ok ?s'" unfolding ampdu_ok_def ag st f using ok(1,2,6-9) assms(2,3) by auto
  moreover have "slot_good k (ini d k) (txq d k)" if "scbs ?s' b = Some d" for b d k
    using that module_okD(2) [OF assms(1), of b d k] by (auto simp: scb_ampdu_init_def slot_good_def split: if_splits)
  ultimately show "module_ok ?s'" unfolding module_ok_def f using module_okD(3,4) [OF assms(1)] by blast
qed

subsection \<open>Settings\<close>

lemma stays_doiovar:
  assumes "quiet up" "module_ok s" "\<And>tid b. v = IOV_AMPDU_SEND_ADDBA tid (Some b) \<or> v = IOV_AMPDU_SEND_DELBA tid (Some b) \<Longrightarrow> b \<in> stations s"
    "\<And>n. v = IOV_AMPDU_BA_WSIZE n \<Longrightarrow> 0 \<le> n"
  shows "stays2 s (wlc_ampdu_doiovar up en v s)"
proof -
  have same: "stays2 s (Some (s, e))" for e :: bcme by (rule stays2I) (simp add: assms(2))
  show ?thesis
  proof (cases v)
    case (IOV_AMPDU_TID tid b)
    have "stays s (Some (s\<lparr>ini_enable := x\<rparr>))" for x by (rule stays_fields [OF assms(2)]) simp_all
    then show ?thesis using IOV_AMPDU_TID same by (simp add: wlc_ampdu_doiovar_def stays2I)
  next
    case (IOV_AMPDU_RX_TID tid b)
    have "stays s (Some (s\<lparr>rxba_enable := x\<rparr>))" for x by (rule stays_fields [OF assms(2)]) simp_all
    then show ?thesis using IOV_AMPDU_RX_TID same by (simp add: wlc_ampdu_doiovar_def stays2I)
  next
    case (IOV_AMPDU_MANUAL_MODE n)
    have "stays s (Some (s\<lparr>manual_mode := x\<rparr>))" for x by (rule stays_fields [OF assms(2)]) simp_all
    then show ?thesis using IOV_AMPDU_MANUAL_MODE by (simp add: wlc_ampdu_doiovar_def stays2I)
  next
    case (IOV_AMPDU_SEND_ADDBA tid a)
    have add: "stays2 s (Option.bind (wlc_ampdu_init_tid_ini en b tid True s) (\<lambda>(s, have). Some (s, if have then BCME_OK else BCME_ERROR)))"
      if b: "b \<in> stations s" "tid < AMPDU_MAX_SCB_TID" for b
      by (rule init_tid_ini [OF assms(2) b, of en True]) (simp add: stays2I)
    show ?thesis unfolding wlc_ampdu_doiovar_def IOV_AMPDU_SEND_ADDBA iovar.case
      by (intro stays2_if stays2_option stays2_scb same add) (use assms(3) IOV_AMPDU_SEND_ADDBA in auto)
  next
    case (IOV_AMPDU_SEND_DELBA tid a)
    have "stays2 s (Option.bind (wlc_ampdu_send_delba up en b tid True reason s) (\<lambda>s. Some (s, BCME_OK)))" if "b \<in> stations s" for b reason
      using stays_send_delba [OF assms(1,2) that, of en tid True reason] by (auto simp: stays2_def stays_def)
    then show ?thesis unfolding wlc_ampdu_doiovar_def IOV_AMPDU_SEND_DELBA iovar.case
      by (intro stays2_if stays2_option stays2_scb same) (use assms(3) IOV_AMPDU_SEND_DELBA in auto)
  next
    case (IOV_AMPDU_BA_WSIZE n)
    have "stays s (Some (s\<lparr>ba_tx_wsize := word_of_int n, ba_rx_wsize := word_of_int n\<rparr>))" if n: "0 < n" "n \<le> 64"
    proof -
      let ?t = "s\<lparr>ba_tx_wsize := word_of_int n, ba_rx_wsize := word_of_int n\<rparr>"
      have "unat (word_of_int n :: uint8) = nat n"
        using n by (simp add: unat_eq_nat_uint uint_word_of_int_eq take_bit_int_eq_self)
      then have w: "0 < unat (ba_rx_wsize ?t)" "unat (ba_rx_wsize ?t) \<le> 64" using n by simp_all
      have r: "resp_of ?t = resp_of s" by (simp add: resp_of_def fun_eq_iff)
      have "ampdu_ok ?t" using module_okD(1) [OF assms(2)] w unfolding ampdu_ok_def stations_def agreements_def r by simp
      then have "module_ok ?t" using assms(2) unfolding module_ok_def by simp
      then show ?thesis by (rule staysI) (simp_all add: stations_def r)
    qed
    then show ?thesis using same assms(4) [OF IOV_AMPDU_BA_WSIZE]
      by (simp add: wlc_ampdu_doiovar_def set_ba_wsize_def IOV_AMPDU_BA_WSIZE AMPDU_RX_BA_MAX_WSIZE_def AMPDU_TX_BA_MAX_WSIZE_def stays2I)
  qed
qed

subsection \<open>Every entry point\<close>

datatype module_op =
    Data_frame ba_alloc nat wlc_frminfo
  | Ctl_frame "nat option" "uint8 list" ctl_kind
  | Action_frame tx_env "nat option" "uint8 list" "pkt list"
  | Resp_timer
  | Agg tx_env nat nat pkt
  | Check_frame tx_env nat nat pkt uint16
  | Aggregate_done tx_env "nat option" nat "(pkt \<times> uint16) list" tx_status bool bool
  | Frame_done tx_env "nat option" nat bool bool uint16
  | Bar_done tx_env nat nat nat bool
  | Watchdog "nat \<Rightarrow> nat \<Rightarrow> tx_env"
  | Reset "nat \<Rightarrow> nat \<Rightarrow> tx_env"
  | Go_down "nat \<Rightarrow> nat \<Rightarrow> tx_env"
  | Cleanup_all "nat \<Rightarrow> nat \<Rightarrow> tx_env" bool
  | Scb_cleanup "nat \<Rightarrow> tx_env" nat
  | Agg_state "nat \<Rightarrow> nat \<Rightarrow> tx_env" bool bool bool
  | Iovar tx_env iovar
  | Scb_init nat scb_ampdu
  | Scb_deinit "nat \<Rightarrow> tx_env" nat

fun module_exec :: "upper \<Rightarrow> module_op \<Rightarrow> ampdu_info \<Rightarrow> ampdu_info option" where
  "module_exec up (Data_frame al a f) s = wlc_ampdu_recvdata up al a f s"
| "module_exec up (Ctl_frame a body fk) s = wlc_ampdu_recv_ctl up a body fk s"
| "module_exec up (Action_frame en a body pend) s = wlc_frameaction_ampdu up en a body pend s"
| "module_exec up Resp_timer s = wlc_ampdu_resp_timeout up s"
| "module_exec up (Agg en a prio p) s = wlc_ampdu_agg en a prio p s"
| "module_exec up (Check_frame en a tid p seq) s = map_option fst (sendampdu_check en a tid p seq s)"
| "module_exec up (Aggregate_done en a tid frames txs probe scan) s = wlc_ampdu_dotxstatus en a tid frames txs probe scan s"
| "module_exec up (Frame_done en a tid acked pmq seq) s = dotxstatus_regmpdu en a tid acked pmq seq s"
| "module_exec up (Bar_done en a tid addr acked) s = bar_callback en a tid addr acked s"
| "module_exec up (Watchdog en) s = wlc_ampdu_watchdog up en s"
| "module_exec up (Reset en) s = wlc_ampdu_reset en s"
| "module_exec up (Go_down en) s = wlc_ampdu_down up en s"
| "module_exec up (Cleanup_all en tx) s = wlc_ampdu_cleanup up en tx s"
| "module_exec up (Scb_cleanup en a) s = scb_ampdu_cleanup up en a s"
| "module_exec up (Agg_state en tx override b) s =
    (if tx then wlc_ampdu_agg_state_update_tx up en override b s else wlc_ampdu_agg_state_update_rx up en override b s)"
| "module_exec up (Iovar en v) s = map_option fst (wlc_ampdu_doiovar up en v s)"
| "module_exec up (Scb_init a c) s = Some (scb_ampdu_init a c s)"
| "module_exec up (Scb_deinit en a) s = scb_ampdu_deinit up en a s"

text \<open>What the callers see to: stations are looked up first; sequence numbers have 12 bits; a BAR's completion finds its
  initiator, in use or kept for it; a configured window is not negative; and new stations are new.\<close>

definition known :: "nat option \<Rightarrow> ampdu_info \<Rightarrow> bool" where
  "known a s \<longleftrightarrow> (case a of None \<Rightarrow> True | Some a \<Rightarrow> a \<in> stations s)"

definition awaited :: "nat \<Rightarrow> nat \<Rightarrow> nat \<Rightarrow> ampdu_info \<Rightarrow> bool" where
  "awaited a tid addr s \<longleftrightarrow> Some addr \<in> map_option ini_addr ` set (ini_free s) \<or>
     (\<exists>c i. scbs s a = Some c \<and> ini c tid = Some i \<and> ini_addr i = addr)"

fun iovar_valid :: "iovar \<Rightarrow> ampdu_info \<Rightarrow> bool" where
  "iovar_valid (IOV_AMPDU_SEND_ADDBA tid a) s \<longleftrightarrow> known a s"
| "iovar_valid (IOV_AMPDU_SEND_DELBA tid a) s \<longleftrightarrow> known a s"
| "iovar_valid (IOV_AMPDU_BA_WSIZE n) s \<longleftrightarrow> 0 \<le> n"
| "iovar_valid v s \<longleftrightarrow> True"

fun module_valid :: "module_op \<Rightarrow> ampdu_info \<Rightarrow> bool" where
  "module_valid (Data_frame al a f) s \<longleftrightarrow> a \<in> stations s"
| "module_valid (Ctl_frame a body fk) s \<longleftrightarrow> known a s"
| "module_valid (Action_frame en a body pend) s \<longleftrightarrow> known a s"
| "module_valid (Agg en a prio p) s \<longleftrightarrow> a \<in> stations s"
| "module_valid (Check_frame en a tid p seq) s \<longleftrightarrow> a \<in> stations s"
| "module_valid (Aggregate_done en a tid frames txs probe scan) s \<longleftrightarrow> known a s \<and> (\<forall>f \<in> set frames. unat (snd f) < 4096)"
| "module_valid (Frame_done en a tid acked pmq seq) s \<longleftrightarrow> known a s \<and> unat seq < 4096"
| "module_valid (Bar_done en a tid addr acked) s \<longleftrightarrow> awaited a tid addr s"
| "module_valid (Scb_cleanup en a) s \<longleftrightarrow> a \<in> stations s"
| "module_valid (Iovar en v) s \<longleftrightarrow> iovar_valid v s"
| "module_valid (Scb_init a c) s \<longleftrightarrow> a \<notin> stations s \<and> length (scb_list s) < MAXSCB"
| "module_valid (Scb_deinit en a) s \<longleftrightarrow> a \<in> stations s"
| "module_valid op s \<longleftrightarrow> True"

text \<open>States of the module: as it is attached, without stations, with any configuration; and what the operations make of it.\<close>

inductive module_reachable :: "upper \<Rightarrow> ampdu_info \<Rightarrow> bool" for up where
  attach: "scb_list s = [] \<Longrightarrow> scbs s = (\<lambda>_. None) \<Longrightarrow> resp_cnt s = 0 \<Longrightarrow> \<not> resp_timer s \<Longrightarrow> 0 < unat (ba_rx_wsize s) \<Longrightarrow>
    unat (ba_rx_wsize s) \<le> AMPDU_RX_BA_MAX_WSIZE \<Longrightarrow> ini_free s = replicate AMPDU_INI_FREE None \<Longrightarrow> ini_free_index s = 0 \<Longrightarrow>
    module_reachable up s"
| op: "module_reachable up s \<Longrightarrow> module_valid x s \<Longrightarrow> module_exec up x s = Some s' \<Longrightarrow> module_reachable up s'"

lemma staysD: "stays s x \<Longrightarrow> \<exists>s'. x = Some s' \<and> module_ok s'"
  by (auto simp: stays_def)

lemma stays2D: "stays2 s x \<Longrightarrow> \<exists>s'. map_option fst x = Some s' \<and> module_ok s'"
  by (auto simp: stays2_def stays_def)

lemma module_op_ok:
  assumes "quiet up" "module_ok s" "module_valid x s"
  shows "\<exists>s'. module_exec up x s = Some s' \<and> module_ok s'"
proof (cases x)
  case (Scb_deinit en a)
  then show ?thesis using deinit_ok [OF assms(1,2), of a en] assms(3) by (metis module_exec.simps(18) module_valid.simps(12))
next
  case (Scb_init a c)
  then show ?thesis using init_station_ok(1) [OF assms(2), of a c] assms(3) by simp
next
  case (Iovar en v)
  have "stays2 s (wlc_ampdu_doiovar up en v s)"
    by (rule stays_doiovar [OF assms(1,2)]) (use assms(3) Iovar in \<open>auto simp: known_def\<close>)
  then show ?thesis unfolding Iovar module_exec.simps by (rule stays2D)
next
  case (Check_frame en a tid p seq)
  then show ?thesis using stays2D [OF stays_sendampdu_check [OF assms(2), of a en tid p seq]] assms(3) by simp
next
  case (Bar_done en a tid addr acked)
  then show ?thesis using staysD [OF stays_bar_callback [OF assms(2)]] assms(3) by (simp add: awaited_def)
next
  case (Data_frame al a f)
  then show ?thesis using staysD [OF stays_rx(3) [OF assms(1,2), of a al f]] assms(3) by simp
next
  case (Ctl_frame a body fk)
  have "stays s (wlc_ampdu_recv_ctl up a body fk s)"
    by (rule stays_ctl [OF assms(1,2)]) (use assms(3) Ctl_frame in \<open>simp add: known_def\<close>)
  from staysD [OF this] show ?thesis using Ctl_frame by simp
next
  case (Action_frame en a body pend)
  have "stays s (wlc_frameaction_ampdu up en a body pend s)"
    by (rule stays_frameaction [OF assms(1,2)]) (use assms(3) Action_frame in \<open>simp add: known_def\<close>)
  from staysD [OF this] show ?thesis using Action_frame by simp
next
  case Resp_timer
  then show ?thesis using staysD [OF stays_timeout [OF assms(1,2)]] by simp
next
  case (Agg en a prio p)
  then show ?thesis using staysD [OF stays_agg [OF assms(2), of a en prio p]] assms(3) by simp
next
  case (Aggregate_done en a tid frames txs probe scan)
  have "stays s (wlc_ampdu_dotxstatus en a tid frames txs probe scan s)"
    by (rule stays_dotxstatus [OF assms(2)]) (use assms(3) Aggregate_done in \<open>simp_all add: known_def\<close>)
  from staysD [OF this] show ?thesis using Aggregate_done by simp
next
  case (Frame_done en a tid acked pmq seq)
  have "stays s (dotxstatus_regmpdu en a tid acked pmq seq s)"
    by (rule stays_regmpdu [OF assms(2)]) (use assms(3) Frame_done in \<open>simp_all add: known_def\<close>)
  from staysD [OF this] show ?thesis using Frame_done by simp
next
  case (Watchdog en)
  then show ?thesis using staysD [OF stays_watchdog [OF assms(1,2)]] by simp
next
  case (Reset en)
  then show ?thesis using staysD [OF stays_reset [OF assms(2)]] by simp
next
  case (Go_down en)
  then show ?thesis using staysD [OF stays_down [OF assms(1,2)]] by simp
next
  case (Cleanup_all en tx)
  then show ?thesis using staysD [OF stays_cleanup [OF assms(1,2)]] by simp
next
  case (Scb_cleanup en a)
  then show ?thesis using staysD [OF stays_scb_cleanup [OF assms(1,2), of a en]] assms(3) by simp
next
  case (Agg_state en tx override b)
  then show ?thesis using staysD [OF stays_agg_state(1) [OF assms(1,2)]] staysD [OF stays_agg_state(2) [OF assms(1,2)]] by simp
qed

lemma module_reachable_ok:
  assumes "module_reachable up s" "quiet up"
  shows "module_ok s"
  using assms(1)
proof (induction)
  case (attach s)
  have "ampdu_ok s" by (rule init_ok) (simp_all add: attach MAXSCB_def)
  then show ?case unfolding module_ok_def by (simp add: attach AMPDU_INI_FREE_def)
next
  case (op s x s')
  then show ?case using module_op_ok [OF assms(2) op.IH op.hyps(2)] by auto
qed

text \<open>What the theorem below promises of an agreement that we granted, read off its queue and its counters.\<close>

definition granted_ok :: "tid_resp \<Rightarrow> bool" where
  "granted_ok r \<longleftrightarrow> unat (queued r) = length (queue r) \<and> rxq r ! RX_SEQ_TO_INDEX (exp_seq r) = None \<and>
     unat (ba_wsize r) \<le> AMPDU_RX_BA_MAX_WSIZE \<and>
     (\<forall>i < AMPDU_RX_BA_MAX_WSIZE. \<forall>p. rxq r ! i = Some p \<longrightarrow>
        RX_SEQ_TO_INDEX (pkt_h_seqnum p) = i \<and> unat (MODSUB_SEQ (pkt_h_seqnum p) (exp_seq r)) < unat (ba_wsize r))"

text \<open>And of one that we asked for.\<close>

definition asked_ok :: "tid_ini \<Rightarrow> bool" where
  "asked_ok i \<longleftrightarrow> unat (ini_tx_in_transit i) = card {k. k < 128 \<and> ini_ackpending i ! k} \<and>
     unat (ini_tx_in_transit i) + unat (ini_rem_window i) \<le> unat (ini_ba_wsize i) \<and> unat (ini_ba_wsize i) \<le> 128 \<and>
     unat (ini_retry_head i) < 128 \<and> unat (ini_retry_tail i) < 128 \<and> unat (ini_start_seq i) < 4096"

lemma resp_ok_granted: "resp_ok r \<Longrightarrow> granted_ok r"
proof -
  assume r: "resp_ok r"
  obtain m b where w: "win_rel r m b" using r unfolding resp_ok_def by blast
  have "unat (ba_wsize r) \<le> AMPDU_RX_BA_MAX_WSIZE" using win_relD(4) [OF w] by (simp add: wsize_def AMPDU_RX_BA_MAX_WSIZE_def)
  then show ?thesis using resp_ok_queue [OF r] by (simp add: granted_ok_def AMPDU_RX_BA_MAX_WSIZE_def)
qed

lemma ini_good_shows:
  assumes "ini_good i"
  shows "length (ini_ackpending i) = 128" "unat (ini_tx_in_transit i) = card {k. k < 128 \<and> ini_ackpending i ! k}"
    "unat (ini_tx_in_transit i) + unat (ini_rem_window i) \<le> unat (ini_ba_wsize i)" "unat (ini_ba_wsize i) \<le> 128"
    "unat (ini_retry_head i) < 128" "unat (ini_retry_tail i) < 128" "unat (ini_start_seq i) < 4096"
proof -
  obtain M T A where r: "tx_rel i M T A" using assms unfolding ini_good_def by blast
  note d = tx_relD [OF r]
  show "length (ini_ackpending i) = 128" "unat (ini_ba_wsize i) \<le> 128" by (rule d)+
  show "unat (ini_start_seq i) < 4096" using d(4) by simp
  show "unat (ini_retry_head i) < 128" "unat (ini_retry_tail i) < 128" using assms by (simp_all add: ini_good_def ring_ok_def)
  have inj: "inj_on (\<lambda>n. n mod 128) A"
  proof (rule inj_onI)
    fix x y :: nat assume a: "x \<in> A" "y \<in> A" "x mod 128 = y mod 128"
    have "x \<in> {M..<T}" "y \<in> {M..<T}" using a(1,2) d(9) by blast+
    then have "M \<le> x" "x < M + 128" "M \<le> y" "y < M + 128" using d(12) by simp_all
    then show "x = y" using a(3) by (rule mod128_inj)
  qed
  have "{k. k < 128 \<and> ini_ackpending i ! k} = (\<lambda>n. n mod 128) ` A" using d(10) by auto
  then show "unat (ini_tx_in_transit i) = card {k. k < 128 \<and> ini_ackpending i ! k}" using card_image [OF inj] d(11) by simp
  have "card A \<le> T - M" using card_mono [OF finite_atLeastLessThan d(9)] by simp
  then show "unat (ini_tx_in_transit i) + unat (ini_rem_window i) \<le> unat (ini_ba_wsize i)" using d(7,11) by linarith
qed

lemma ini_good_asked: "ini_good i \<Longrightarrow> asked_ok i"
  unfolding asked_ok_def by (intro conjI ini_good_shows)


text \<open>A station that was just set up gets its first frame.\<close>

definition demo_env :: tx_env where
  "demo_env = \<lparr>en_addr = Some 1, en_alloc = \<lparr>ok_resp = True, ok_frame = True\<rparr>, en_room = True, en_bar = BAR_SENT, en_release = 32\<rparr>"

definition demo_attached :: ampdu_info where
  "demo_attached = demo\<lparr>scbs := (\<lambda>_. None), scb_list := [], resp_cnt := 0, resp_timer := False\<rparr>"

definition demo_module :: ampdu_info where
  "demo_module = scb_ampdu_init 7 demo_scb demo_attached"

lemma demo_module_reachable: "module_reachable demo_up demo_module" "stations demo_module = {7}"
proof -
  have 0: "module_reachable demo_up demo_attached"
    by (rule attach) (simp_all add: demo_attached_def demo_def AMPDU_RX_BA_MAX_WSIZE_def AMPDU_INI_FREE_def)
  have e: "stations demo_attached = {}" by (simp add: stations_scbs demo_attached_def)
  show "module_reachable demo_up demo_module"
    by (rule op [OF 0, of "Scb_init 7 demo_scb"]) (simp_all add: e demo_module_def, simp add: demo_attached_def MAXSCB_def)
  have "module_ok demo_attached" by (rule module_reachable_ok [OF 0 demo_facts(1)])
  then show "stations demo_module = {7}"
    unfolding demo_module_def by (subst init_station_ok(2)) (simp_all add: e, simp_all add: demo_attached_def MAXSCB_def)
qed




subsection \<open>What the conditions are needed for\<close>

text \<open>A negative window. The setting is checked against the sizes from above and against zero only.\<close>

lemma MODADD_SEQ_nat: "unat x < 4096 \<Longrightarrow> unat y < 4096 \<Longrightarrow> unat (MODADD_SEQ x y) = (unat x + unat y) mod 4096"
proof -
  assume "unat x < 4096" "unat y < 4096"
  then have "unat (x + y) = unat x + unat y" by (intro unat_plus_simple [THEN iffD1]) (simp add: word_le_nat_alt unat_word_ariths)
  then show ?thesis by (simp add: MODADD_SEQ_def unat_mask12)
qed

text \<open>C17: A configured window of -128 to -1. It is accepted, and the window granted to peers is then between 128 and 255,
  more than the 64 slots of a queue: of two frames whose numbers are 64 apart, both in the window, the second
  is thrown away as a duplicate while the first waits.\<close>

theorem negative_window:
  assumes "- 128 \<le> n" "n < 0"
  shows "\<exists>s'. wlc_ampdu_doiovar up en (IOV_AMPDU_BA_WSIZE n) s = Some (s', BCME_OK) \<and> int (unat (ba_rx_wsize s')) = 256 + n \<and>
    (\<forall>r k f a tid t. ba_wsize r = ba_rx_wsize s' \<and> unat (exp_seq r) < 4096 \<and> 0 < k \<and> k < 64 \<and>
        rxq r ! RX_SEQ_TO_INDEX (MODADD_SEQ (exp_seq r) k) \<noteq> None \<longrightarrow>
      MODSUB_SEQ (MODADD_SEQ (exp_seq r) (k + 64)) (exp_seq r) < ucast (ba_wsize r) \<and>
      recv_in_agreement up a tid r (MODADD_SEQ (exp_seq r) (k + 64)) f t = Some (WLCNTINCR rxdup_update (emit (Pktfree (fi_p f)) t)))"
proof -
  let ?w = "word_of_int n :: uint8"
  let ?s' = "s\<lparr>ba_tx_wsize := ?w, ba_rx_wsize := ?w\<rparr>"
  have "n mod 256 = 256 + n" using assms by presburger
  then have w: "int (unat ?w) = 256 + n" by (simp add: uint_word_of_int)
  have "wlc_ampdu_doiovar up en (IOV_AMPDU_BA_WSIZE n) s = Some (?s', BCME_OK)"
    using assms(2) by (simp add: wlc_ampdu_doiovar_def set_ba_wsize_def AMPDU_RX_BA_MAX_WSIZE_def AMPDU_TX_BA_MAX_WSIZE_def)
  moreover have "MODSUB_SEQ (MODADD_SEQ (exp_seq r) (k + 64)) (exp_seq r) < ucast (ba_wsize r) \<and>
      recv_in_agreement up a tid r (MODADD_SEQ (exp_seq r) (k + 64)) f t = Some (WLCNTINCR rxdup_update (emit (Pktfree (fi_p f)) t))"
    if h: "ba_wsize r = ?w" "unat (exp_seq r) < 4096" "0 < k" "k < 64" "rxq r ! RX_SEQ_TO_INDEX (MODADD_SEQ (exp_seq r) k) \<noteq> None"
    for r k f a tid t
  proof -
    let ?e = "exp_seq r" and ?seq = "MODADD_SEQ (exp_seq r) (k + 64)"
    have k: "0 < unat k" "unat k < 64" using h(3,4) by (simp_all add: word_less_nat_alt)
    have k64: "unat (k + 64) = unat k + 64" using k(2) by (simp add: unat_word_ariths)
    have seq: "unat ?seq = (unat ?e + (unat k + 64)) mod 4096" using MODADD_SEQ_nat [OF h(2), of "k + 64"] k k64 by simp
    have seq1: "unat (MODADD_SEQ ?e k) = (unat ?e + unat k) mod 4096" using MODADD_SEQ_nat [OF h(2), of k] k by simp
    have "unat (MODSUB_SEQ ?seq ?e) = (unat ?seq + 4096 - unat ?e) mod 4096"
      by (rule MODSUB_SEQ_nat) (use h(2) seq in simp_all)
    also have "\<dots> = unat k + 64"
    proof (cases "unat ?e + (unat k + 64) < 4096")
      case True
      then show ?thesis unfolding seq using k by (simp add: mod_if)
    next
      case False
      then have "(unat ?e + (unat k + 64)) mod 4096 = unat ?e + (unat k + 64) - 4096" using h(2) k by (simp add: mod_if)
      then show ?thesis unfolding seq using False k h(2) by simp
    qed
    finally have off: "unat (MODSUB_SEQ ?seq ?e) = unat k + 64" .
    have "128 \<le> unat ?w" using w assms(1) by linarith
    then have inwin: "MODSUB_SEQ ?seq ?e < ucast (ba_wsize r)"
      using off k(2) h(1) unfolding word_less_nat_alt ucast_wsize wsize_def by simp
    have ne: "?seq \<noteq> ?e" using off by (auto simp: MODSUB_SEQ_def)
    have "RX_SEQ_TO_INDEX ?seq = RX_SEQ_TO_INDEX (MODADD_SEQ ?e k)"
      using index_mod [OF seq] index_mod [OF seq1] by (simp add: add.assoc [symmetric])
    then show ?thesis using h(5) inwin ne by (simp add: recv_in_agreement_def Let_def)
  qed
  ultimately show ?thesis using w by (intro exI [of _ ?s']) simp
qed

lemma negative_window_witness:
  "\<exists>s'. wlc_ampdu_doiovar demo_up demo_env (IOV_AMPDU_BA_WSIZE (- 1)) demo = Some (s', BCME_OK) \<and> int (unat (ba_rx_wsize s')) = 256 + (- 1) \<and>
    (\<forall>r k f a tid t. ba_wsize r = ba_rx_wsize s' \<and> unat (exp_seq r) < 4096 \<and> 0 < k \<and> k < 64 \<and>
        rxq r ! RX_SEQ_TO_INDEX (MODADD_SEQ (exp_seq r) k) \<noteq> None \<longrightarrow>
      MODSUB_SEQ (MODADD_SEQ (exp_seq r) (k + 64)) (exp_seq r) < ucast (ba_wsize r) \<and>
      recv_in_agreement demo_up a tid r (MODADD_SEQ (exp_seq r) (k + 64)) f t = Some (WLCNTINCR rxdup_update (emit (Pktfree (fi_p f)) t)))"
  by (rule negative_window) simp_all

text \<open>C18: The eleventh wait. Initiators that wait for the completion of their block ack request are kept in ten slots. One
  that is put aside while all are taken frees the oldest; the completion of the latter's request then finds its argument neither
  in the slots nor in use, that is, reads freed memory.\<close>

theorem callback_after_eviction:
  assumes "ini_free_index s < length (ini_free s)" "ini_free s ! ini_free_index s = Some old" "ini_bar_ackpending i"
    "ini_addr i \<noteq> ini_addr old"
    "\<forall>k < length (ini_free s). k \<noteq> ini_free_index s \<longrightarrow> map_option ini_addr (ini_free s ! k) \<noteq> Some (ini_addr old)"
    "scbs s a = Some ca" "\<forall>x. ini ca tid = Some x \<longrightarrow> ini_addr x \<noteq> ini_addr old"
  shows "bar_callback en a tid (ini_addr old) acked (drop_ini b tid' cb i s) = None"
proof -
  let ?waiting = "\<lambda>x. case x of None \<Rightarrow> False | Some j \<Rightarrow> ini_addr j = ini_addr old"
  let ?s' = "drop_ini b tid' cb i s"
  have emit_free: "ini_free (free_all ps t) = ini_free t" "ini_free_index (free_all ps t) = ini_free_index t" "scbs (free_all ps t) = scbs t" for ps t
    unfolding free_all_def by (induction ps arbitrary: t) (simp_all add: emit_def)
  have free: "ini_free ?s' = (ini_free s)[ini_free_index s := Some (i\<lparr>ini_free_me := True\<rparr>)]"
    by (simp add: drop_ini_def Let_def assms(3) keep_for_callback_def emit_free upd_scb_def emit_def)
  have "\<not> ?waiting (ini_free ?s' ! k)" if "k < length (ini_free ?s')" for k
    using that assms(4,5) unfolding free by (cases "k = ini_free_index s") (auto split: option.splits)
  then have "\<not> list_ex ?waiting (ini_free ?s')" by (simp add: list_ex_length)
  moreover obtain c' where c': "scbs ?s' a = Some c'" "ini c' tid = ini ca tid \<or> ini c' tid = None"
  proof -
    have "scbs ?s' a = (if a = b then map_option (\<lambda>c. c\<lparr>ini := (ini c)(tid' := None), txq := (txq c)(tid' := [])\<rparr>) (scbs s b) else scbs s a)"
      by (simp add: drop_ini_def Let_def assms(3) keep_for_callback_def emit_free upd_scb_def emit_def)
    then show ?thesis using that [of "if a = b then ca\<lparr>ini := (ini ca)(tid' := None), txq := (txq ca)(tid' := [])\<rparr> else ca"] assms(6)
      by (cases "a = b") simp_all
  qed
  ultimately show ?thesis
  proof (cases "ini c' tid")
    case (Some x)
    then have "ini_addr x \<noteq> ini_addr old" using c'(2) assms(7) by simp
    then show ?thesis using Some c'(1) \<open>\<not> list_ex ?waiting (ini_free ?s')\<close> by (simp add: bar_callback_def)
  qed (simp add: bar_callback_def c'(1))
qed

definition demo_waiting :: ampdu_info where
  "demo_waiting = demo\<lparr>ini_free := map (\<lambda>n. Some (new_ini n)) [0..<10]\<rparr>"

lemma callback_after_eviction_witness:
  "bar_callback demo_env 7 3 (ini_addr (new_ini 0)) True
     (drop_ini 7 5 demo_scb ((new_ini 10)\<lparr>ini_bar_ackpending := True\<rparr>) demo_waiting) = None"
proof (rule callback_after_eviction)
  show "scbs demo_waiting 7 = Some demo_scb" by (simp add: demo_waiting_def demo_def)
qed (simp_all add: demo_waiting_def demo_def demo_scb_def new_ini_def)

end
