(* ===== verification/Wifi.thy ===== *)
theory Wifi
  imports Bcmutils "HOL-Library.Signed_Division"
begin

text \<open>
  Channel specifications, \<^verbatim>\<open>shared/bcmwifi.c\<close> and \<^verbatim>\<open>include/bcmwifi.h\<close>: a 16 bit word with the channel (the centre of
  a 40 MHz pair), the band, the bandwidth and the side band of the control channel; how it is printed and parsed, its
  control channel, and channels as frequencies. Strings are as in \<^theory_text>\<open>Bcmutils\<close>.
\<close>

subsection \<open>The fields\<close>

type_synonym chanspec = uint16

definition CH_20MHZ_APART :: uint32 where "CH_20MHZ_APART = 4"
definition CH_10MHZ_APART :: uint32 where "CH_10MHZ_APART = 2"
definition CH_MAX_2G_CHANNEL :: uint32 where "CH_MAX_2G_CHANNEL = 14"
definition MAXCHANNEL :: uint32 where "MAXCHANNEL = 224"

definition WL_CHANSPEC_CTL_SB_LOWER :: chanspec where "WL_CHANSPEC_CTL_SB_LOWER = 0x0100"
definition WL_CHANSPEC_CTL_SB_UPPER :: chanspec where "WL_CHANSPEC_CTL_SB_UPPER = 0x0200"
definition WL_CHANSPEC_CTL_SB_NONE :: chanspec where "WL_CHANSPEC_CTL_SB_NONE = 0x0300"
definition WL_CHANSPEC_BW_10 :: chanspec where "WL_CHANSPEC_BW_10 = 0x0400"
definition WL_CHANSPEC_BW_20 :: chanspec where "WL_CHANSPEC_BW_20 = 0x0800"
definition WL_CHANSPEC_BW_40 :: chanspec where "WL_CHANSPEC_BW_40 = 0x0C00"
definition WL_CHANSPEC_BAND_5G :: chanspec where "WL_CHANSPEC_BAND_5G = 0x1000"
definition WL_CHANSPEC_BAND_2G :: chanspec where "WL_CHANSPEC_BAND_2G = 0x2000"

definition CHSPEC_CHANNEL :: "chanspec \<Rightarrow> uint8" where "CHSPEC_CHANNEL c = ucast (c AND 0x00ff)"
definition CHSPEC_BAND :: "chanspec \<Rightarrow> chanspec" where "CHSPEC_BAND c = c AND 0xf000"
definition CHSPEC_CTL_SB :: "chanspec \<Rightarrow> chanspec" where "CHSPEC_CTL_SB c = c AND 0x0300"
definition CHSPEC_BW :: "chanspec \<Rightarrow> chanspec" where "CHSPEC_BW c = c AND 0x0C00"

definition CHSPEC_IS10 :: "chanspec \<Rightarrow> bool" where "CHSPEC_IS10 c \<longleftrightarrow> CHSPEC_BW c = WL_CHANSPEC_BW_10"
definition CHSPEC_IS20 :: "chanspec \<Rightarrow> bool" where "CHSPEC_IS20 c \<longleftrightarrow> CHSPEC_BW c = WL_CHANSPEC_BW_20"
definition CHSPEC_IS40 :: "chanspec \<Rightarrow> bool" where "CHSPEC_IS40 c \<longleftrightarrow> CHSPEC_BW c = WL_CHANSPEC_BW_40"
definition CHSPEC_IS5G :: "chanspec \<Rightarrow> bool" where "CHSPEC_IS5G c \<longleftrightarrow> CHSPEC_BAND c = WL_CHANSPEC_BAND_5G"
definition CHSPEC_IS2G :: "chanspec \<Rightarrow> bool" where "CHSPEC_IS2G c \<longleftrightarrow> CHSPEC_BAND c = WL_CHANSPEC_BAND_2G"
definition CHSPEC_SB_NONE :: "chanspec \<Rightarrow> bool" where "CHSPEC_SB_NONE c \<longleftrightarrow> CHSPEC_CTL_SB c = WL_CHANSPEC_CTL_SB_NONE"
definition CHSPEC_SB_UPPER :: "chanspec \<Rightarrow> bool" where "CHSPEC_SB_UPPER c \<longleftrightarrow> CHSPEC_CTL_SB c = WL_CHANSPEC_CTL_SB_UPPER"
definition CHSPEC_SB_LOWER :: "chanspec \<Rightarrow> bool" where "CHSPEC_SB_LOWER c \<longleftrightarrow> CHSPEC_CTL_SB c = WL_CHANSPEC_CTL_SB_LOWER"

text \<open>The channels 10 MHz below and above, and the next 20 MHz channel; 0 when there is none.\<close>

definition LOWER_20_SB :: "uint8 \<Rightarrow> uint8" where "LOWER_20_SB ch = (if ch > 2 then ch - 2 else 0)"
definition UPPER_20_SB :: "uint8 \<Rightarrow> uint8" where "UPPER_20_SB ch = (if ch < 222 then ch + 2 else 0)"
definition NEXT_20MHZ_CHAN :: "uint8 \<Rightarrow> uint8" where "NEXT_20MHZ_CHAN ch = (if ch < 220 then ch + 4 else 0)"

definition CH20MHZ_CHSPEC :: "uint8 \<Rightarrow> chanspec" where
  "CH20MHZ_CHSPEC ch = ucast ch OR WL_CHANSPEC_BW_20 OR WL_CHANSPEC_CTL_SB_NONE OR
     (if ch \<le> 14 then WL_CHANSPEC_BAND_2G else WL_CHANSPEC_BAND_5G)"

subsection \<open>Printing and parsing\<close>

text \<open>\<open>%d\<close>, for a word read as a signed number.\<close>

definition fmt_d :: "uint32 \<Rightarrow> uint8 list" where
  "fmt_d x = (if sint x < 0 then 45 # dec (nat (- sint x)) else dec (nat (sint x)))"

text \<open>The buffer takes five characters and the terminating 0.\<close>

definition wf_chspec_ntoa :: "chanspec \<Rightarrow> uint8 list" where
  "wf_chspec_ntoa c =
     (let channel = ucast (CHSPEC_CHANNEL c) :: uint32;
          band = (if CHSPEC_IS2G c \<and> channel > CH_MAX_2G_CHANNEL \<or> CHSPEC_IS5G c \<and> channel \<le> CH_MAX_2G_CHANNEL
                  then if CHSPEC_IS2G c then [98] else [97] else []);
          (channel, bw, sb) =
            (if CHSPEC_IS40 c
             then if CHSPEC_SB_UPPER c then (channel + CH_10MHZ_APART, [], [117]) else (channel - CH_10MHZ_APART, [], [108])
             else if CHSPEC_IS10 c then (channel, [110], []) else (channel, [], []))
      in take 5 (fmt_d channel @ band @ bw @ sb))"

text \<open>The character a pointer into a string points to; behind the string there is the terminating 0.\<close>

definition char_at :: "uint8 list \<Rightarrow> uint8" where "char_at a = (case a of [] \<Rightarrow> 0 | c # _ \<Rightarrow> bcm_tolower c)"

text \<open>What follows the band: \<open>c\<close> is the next character. The result is 0 on errors.\<close>

definition aton_width :: "uint32 \<Rightarrow> chanspec \<Rightarrow> uint8 \<Rightarrow> chanspec" where
  "aton_width channel band c =
     (if c = 0 then ucast channel OR band OR WL_CHANSPEC_BW_20 OR WL_CHANSPEC_CTL_SB_NONE
      else if c = 110 then ucast channel OR band OR WL_CHANSPEC_BW_10 OR WL_CHANSPEC_CTL_SB_NONE
      else if c = 108
      then if channel \<le> MAXCHANNEL - CH_20MHZ_APART
           then ucast (channel + CH_10MHZ_APART) OR band OR WL_CHANSPEC_BW_40 OR WL_CHANSPEC_CTL_SB_LOWER else 0
      else if c = 117
      then if channel > CH_20MHZ_APART
           then ucast (channel - CH_10MHZ_APART) OR band OR WL_CHANSPEC_BW_40 OR WL_CHANSPEC_CTL_SB_UPPER else 0
      else 0)"

text \<open>\<open>None\<close> would be a read through the pointer that \<open>strtoul\<close> did not set.\<close>

definition wf_chspec_aton :: "uint8 list \<Rightarrow> chanspec option" where
  "wf_chspec_aton a =
     (let (channel, endp) = bcm_strtoul a 10 in
      if endp = Some a \<or> channel > MAXCHANNEL then Some 0
      else case endp of None \<Rightarrow> None
      | Some a \<Rightarrow>
        let band = (if channel \<le> CH_MAX_2G_CHANNEL then WL_CHANSPEC_BAND_2G else WL_CHANSPEC_BAND_5G); c = char_at a in
        Some (if c = 97 then aton_width channel WL_CHANSPEC_BAND_5G (char_at (tl a))
              else if c = 98 then aton_width channel WL_CHANSPEC_BAND_2G (char_at (tl a))
              else aton_width channel band c))"

definition wf_chspec_malformed :: "chanspec \<Rightarrow> bool" where
  "wf_chspec_malformed c \<longleftrightarrow>
     \<not> CHSPEC_IS5G c \<and> \<not> CHSPEC_IS2G c \<or> \<not> CHSPEC_IS40 c \<and> \<not> CHSPEC_IS20 c \<or>
     (if CHSPEC_IS20 c then \<not> CHSPEC_SB_NONE c else \<not> CHSPEC_SB_UPPER c \<and> \<not> CHSPEC_SB_LOWER c)"

subsection \<open>The control channel\<close>

definition wf_chspec_ctlchan :: "chanspec \<Rightarrow> uint8" where
  "wf_chspec_ctlchan c =
     (if CHSPEC_CTL_SB c = WL_CHANSPEC_CTL_SB_NONE then CHSPEC_CHANNEL c
      else if CHSPEC_CTL_SB c = WL_CHANSPEC_CTL_SB_UPPER then UPPER_20_SB (CHSPEC_CHANNEL c)
      else LOWER_20_SB (CHSPEC_CHANNEL c))"

definition wf_chspec_ctlchspec :: "chanspec \<Rightarrow> chanspec" where
  "wf_chspec_ctlchspec c =
     (if CHSPEC_CTL_SB c = WL_CHANSPEC_CTL_SB_NONE then c
      else let channel = (if CHSPEC_CTL_SB c = WL_CHANSPEC_CTL_SB_UPPER then UPPER_20_SB (CHSPEC_CHANNEL c)
                          else LOWER_20_SB (CHSPEC_CHANNEL c))
           in (ucast channel OR WL_CHANSPEC_BW_20 OR WL_CHANSPEC_CTL_SB_NONE) OR CHSPEC_BAND c)"

subsection \<open>Frequencies\<close>

definition WF_CHAN_FACTOR_2_4_G :: uint32 where "WF_CHAN_FACTOR_2_4_G = 4814"
definition WF_CHAN_FACTOR_5_G :: uint32 where "WF_CHAN_FACTOR_5_G = 10000"

definition wf_mhz2channel :: "uint32 \<Rightarrow> uint32 \<Rightarrow> int32" where
  "wf_mhz2channel freq start_factor =
     (let start_factor =
        (if start_factor = 0
         then if freq \<ge> 2400 \<and> freq \<le> 2500 then WF_CHAN_FACTOR_2_4_G
              else if freq \<ge> 5000 \<and> freq \<le> 6000 then WF_CHAN_FACTOR_5_G else start_factor
         else start_factor) in
      if freq = 2484 \<and> start_factor = WF_CHAN_FACTOR_2_4_G then 14
      else
        let base = start_factor div 2 in
        if freq < base \<or> freq > base + 1000 then - 1
        else
          let offset = freq - base; ch = word_of_int (sint offset sdiv 5) in
          if offset \<noteq> ch * 5 then - 1
          else if start_factor = WF_CHAN_FACTOR_2_4_G \<and> (ch <s 1 \<or> 13 <s ch) then - 1
          else ch)"

definition wf_channel2mhz :: "uint32 \<Rightarrow> uint32 \<Rightarrow> int32" where
  "wf_channel2mhz ch start_factor =
     (if start_factor = WF_CHAN_FACTOR_2_4_G \<and> (ch < 1 \<or> ch > 14) \<or> ch > 200 then - 1
      else if start_factor = WF_CHAN_FACTOR_2_4_G \<and> ch = 14 then 2484
      else ch * 5 + start_factor div 2)"

subsection \<open>Words by fields\<close>

lemmas chspec_consts = WL_CHANSPEC_CTL_SB_LOWER_def WL_CHANSPEC_CTL_SB_UPPER_def WL_CHANSPEC_CTL_SB_NONE_def WL_CHANSPEC_BW_10_def
  WL_CHANSPEC_BW_20_def WL_CHANSPEC_BW_40_def WL_CHANSPEC_BAND_5G_def WL_CHANSPEC_BAND_2G_def

lemmas chspec_tests = CHSPEC_IS10_def CHSPEC_IS20_def CHSPEC_IS40_def CHSPEC_IS5G_def CHSPEC_IS2G_def CHSPEC_SB_NONE_def
  CHSPEC_SB_UPPER_def CHSPEC_SB_LOWER_def

lemma mask_00ff: "(0x00ff :: uint16) = mask 8"
  by (simp add: mask_eq_exp_minus_1)

lemma low_field: "ucast (ucast (c AND 0x00ff) :: uint8) = (c :: uint16) AND 0x00ff"
  unfolding mask_00ff by (rule bit_word_eqI) (auto simp: bit_simps)

text \<open>A word put together from a channel and a constant part, and its fields.\<close>

lemma fields_of:
  assumes "k AND 0x00ff = 0"
  shows "CHSPEC_CHANNEL (ucast (ch :: uint8) OR k) = ch" "CHSPEC_BAND (ucast ch OR k) = CHSPEC_BAND k"
    "CHSPEC_CTL_SB (ucast ch OR k) = CHSPEC_CTL_SB k" "CHSPEC_BW (ucast ch OR k) = CHSPEC_BW k"
proof -
  have low: "(ucast ch :: uint16) AND m = 0" if m: "m AND 0x00ff = 0" for m
  proof (rule bit_word_eqI)
    fix n
    have "bit (m AND 0x00ff) n = False" using m by simp
    moreover have "bit ch n \<Longrightarrow> n < 8" using bit_imp_le_length [of ch n] by simp
    ultimately show "bit ((ucast ch :: uint16) AND m) n = bit 0 n" unfolding mask_00ff by (auto simp: bit_simps)
  qed
  have "(ucast ch OR k) AND 0x00ff = (ucast ch :: uint16)"
    unfolding bit.conj_disj_distrib2 assms unfolding mask_00ff
    by (rule bit_word_eqI) (use bit_imp_le_length [of ch] in \<open>auto simp: bit_simps\<close>)
  moreover have "ucast (ucast ch :: uint16) = ch"
    by (rule bit_word_eqI) (auto simp: bit_simps)
  ultimately show "CHSPEC_CHANNEL (ucast ch OR k) = ch" by (simp add: CHSPEC_CHANNEL_def)
  show "CHSPEC_BAND (ucast ch OR k) = CHSPEC_BAND k" "CHSPEC_CTL_SB (ucast ch OR k) = CHSPEC_CTL_SB k" "CHSPEC_BW (ucast ch OR k) = CHSPEC_BW k"
    unfolding CHSPEC_BAND_def CHSPEC_CTL_SB_def CHSPEC_BW_def bit.conj_disj_distrib2 by (simp_all add: low)
qed

lemma chspec_split: "c = ucast (CHSPEC_CHANNEL c) OR (CHSPEC_BAND c OR (CHSPEC_BW c OR CHSPEC_CTL_SB c))"
proof -
  have "(0x00ff OR (0xf000 OR (0x0C00 OR 0x0300)) :: uint16) = - 1" by simp
  then have "c = c AND (0x00ff OR (0xf000 OR (0x0C00 OR 0x0300)))" by (simp only: bit.conj_one_right)
  then show ?thesis
    unfolding CHSPEC_CHANNEL_def low_field CHSPEC_BAND_def CHSPEC_BW_def CHSPEC_CTL_SB_def bit.conj_disj_distrib .
qed

subsection \<open>Numbers of channels\<close>

lemma unat_uint32_8: "unat (ucast (ch :: uint8) :: uint32) = unat ch"
  by (simp add: unsigned_ucast_eq take_bit_nat_eq_self [OF order_less_trans [OF unat8_less]])

lemma strtoul_dec:
  assumes "n < 256" "rest = [] \<or> \<not> digit_ok 10 (hd rest)"
  shows "bcm_strtoul (dec n @ rest) 10 = (word_of_nat n, Some rest)"
  using strtoul_run [of "dec n" 10 rest] dec_props [of n] assms by simp

lemma suffix_digit: "\<forall>c \<in> {97, 98, 108, 110, 117}. \<not> digit_ok 10 c"
  by (simp add: digit_ok_def bcm_isxdigit_def ctype_at digit_value_def bcm_isdigit_def bcm_toupper_def bcm_islower_def)

lemma char_at_suffix:
  "char_at [] = 0" "char_at (97 # cs) = 97" "char_at (98 # cs) = 98" "char_at (108 # cs) = 108" "char_at (110 # cs) = 110"
  "char_at (117 # cs) = 117"
  by (simp_all add: char_at_def bcm_tolower_def bcm_isupper_def ctype_at)

text \<open>Parsing a number followed by a band or nothing, and a width or nothing.\<close>

lemma aton_dec:
  assumes "n \<le> 224" "b \<in> {[], [97], [98]}" "s \<in> {[], [108], [110], [117]}"
  shows "wf_chspec_aton (dec n @ b @ s) =
    Some (aton_width (word_of_nat n) (if b = [97] \<or> b = [] \<and> 14 < n then WL_CHANSPEC_BAND_5G else WL_CHANSPEC_BAND_2G) (char_at s))"
proof -
  have "b @ s = [] \<or> \<not> digit_ok 10 (hd (b @ s))" using assms(2,3) suffix_digit by auto
  then have r: "bcm_strtoul (dec n @ b @ s) 10 = (word_of_nat n, Some (b @ s))" using strtoul_dec assms(1) by simp
  have u: "unat (word_of_nat n :: uint32) = n" using assms(1) by (simp add: unat_of_nat32)
  have max: "\<not> (word_of_nat n :: uint32) > MAXCHANNEL" "(word_of_nat n :: uint32) \<le> CH_MAX_2G_CHANNEL \<longleftrightarrow> n \<le> 14"
    using assms(1) by (simp_all add: MAXCHANNEL_def CH_MAX_2G_CHANNEL_def word_less_nat_alt word_le_nat_alt u)
  have "dec n \<noteq> []" using dec_props by blast
  then have ne: "Some (b @ s) \<noteq> Some (dec n @ b @ s)" by (metis append_self_conv2 option.inject)
  have s: "char_at s \<noteq> 97" "char_at s \<noteq> 98" using assms(3) by (auto simp: char_at_suffix)
  show ?thesis unfolding wf_chspec_aton_def r Let_def prod.case using assms(2) max ne s
    by (auto simp: char_at_suffix)
qed

lemma chan_word: "n < 256 \<Longrightarrow> ucast (word_of_nat n :: uint32) = (ucast (word_of_nat n :: uint8) :: uint16)"
  by (rule word_unat_eq_iff [THEN iffD2]) (simp add: unsigned_ucast_eq unsigned_of_nat take_bit_nat_eq_self)

lemma length_dec: "n < 1000 \<Longrightarrow> length (dec n) \<le> 3"
  by (simp add: dec.simps)

lemma fmt_d_small:
  assumes "n < 256"
  shows "fmt_d (word_of_nat n) = dec n"
proof -
  have "sint (word_of_int (int n) :: uint32) = int n" by (rule sint_of_int32) (use assms in simp_all)
  then show ?thesis by (simp add: fmt_d_def)
qed

lemma chan_nat: "ucast (ch :: uint8) = (word_of_nat (unat ch) :: uint32)"
  by (rule word_unat_eq_iff [THEN iffD2]) (simp add: unat_uint32_8 unsigned_of_nat take_bit_nat_eq_self [OF order_less_trans [OF unat8_less]])

lemma word_of_nat_minus: "2 \<le> n \<Longrightarrow> word_of_nat n - 2 = (word_of_nat (n - 2) :: uint32)"
  by (simp add: of_nat_diff)

subsection \<open>Text\<close>

text \<open>Specifications that can be written: a band; a channel, or a centre with its side band; and numbers in the range the
  parser accepts.\<close>

definition writable :: "chanspec \<Rightarrow> bool" where
  "writable c \<longleftrightarrow> (CHSPEC_IS2G c \<or> CHSPEC_IS5G c) \<and>
     ((CHSPEC_IS20 c \<or> CHSPEC_IS10 c) \<and> CHSPEC_SB_NONE c \<and> CHSPEC_CHANNEL c \<le> 224 \<or>
      CHSPEC_IS40 c \<and> CHSPEC_SB_UPPER c \<and> 3 \<le> CHSPEC_CHANNEL c \<and> CHSPEC_CHANNEL c \<le> 222 \<or>
      CHSPEC_IS40 c \<and> CHSPEC_SB_LOWER c \<and> 2 \<le> CHSPEC_CHANNEL c \<and> CHSPEC_CHANNEL c \<le> 222)"

text \<open>The printer decides by the centre whether the band must be written, the parser by the written number which band is meant.\<close>

definition ambiguous :: "chanspec \<Rightarrow> bool" where
  "ambiguous c \<longleftrightarrow> CHSPEC_IS40 c \<and> (CHSPEC_IS2G c \<and> CHSPEC_SB_UPPER c \<and> CHSPEC_CHANNEL c \<in> {13, 14} \<or>
     CHSPEC_IS5G c \<and> CHSPEC_SB_LOWER c \<and> CHSPEC_CHANNEL c \<in> {15, 16})"

definition band_text :: "chanspec \<Rightarrow> uint8 list" where
  "band_text c = (if CHSPEC_IS2G c then if CHSPEC_CHANNEL c > 14 then [98] else []
                  else if CHSPEC_CHANNEL c \<le> 14 then [97] else [])"

definition width_text :: "chanspec \<Rightarrow> uint8 list" where
  "width_text c = (if CHSPEC_IS40 c then if CHSPEC_SB_UPPER c then [117] else [108] else if CHSPEC_IS10 c then [110] else [])"

definition number_text :: "chanspec \<Rightarrow> nat" where
  "number_text c = (if CHSPEC_IS40 c then if CHSPEC_SB_UPPER c then unat (CHSPEC_CHANNEL c) + 2 else unat (CHSPEC_CHANNEL c) - 2
                    else unat (CHSPEC_CHANNEL c))"

lemma exclusive:
  "CHSPEC_IS2G c \<Longrightarrow> \<not> CHSPEC_IS5G c" "CHSPEC_IS40 c \<Longrightarrow> \<not> CHSPEC_IS20 c" "CHSPEC_IS40 c \<Longrightarrow> \<not> CHSPEC_IS10 c"
  "CHSPEC_IS20 c \<Longrightarrow> \<not> CHSPEC_IS10 c" "CHSPEC_SB_UPPER c \<Longrightarrow> \<not> CHSPEC_SB_LOWER c" "CHSPEC_SB_UPPER c \<Longrightarrow> \<not> CHSPEC_SB_NONE c"
  "CHSPEC_SB_LOWER c \<Longrightarrow> \<not> CHSPEC_SB_NONE c"
  by (auto simp: chspec_tests chspec_consts)

lemma number_text_bound: "writable c \<Longrightarrow> number_text c \<le> 224"
  by (auto simp: writable_def number_text_def word_le_nat_alt dest: exclusive)

lemma ntoa_text:
  assumes "writable c"
  shows "wf_chspec_ntoa c = dec (number_text c) @ band_text c @ width_text c"
proof -
  let ?n = "unat (CHSPEC_CHANNEL c)"
  have ch: "(ucast (CHSPEC_CHANNEL c) :: uint32) = word_of_nat ?n" by (rule chan_nat)
  have max: "(ucast (CHSPEC_CHANNEL c) :: uint32) \<le> CH_MAX_2G_CHANNEL \<longleftrightarrow> CHSPEC_CHANNEL c \<le> 14"
    by (simp add: word_le_nat_alt CH_MAX_2G_CHANNEL_def unat_uint32_8)
  have g: "CHSPEC_IS2G c \<or> CHSPEC_IS5G c" using assms by (simp add: writable_def)
  have b: "(if CHSPEC_IS2G c \<and> (ucast (CHSPEC_CHANNEL c) :: uint32) > CH_MAX_2G_CHANNEL \<or>
        CHSPEC_IS5G c \<and> (ucast (CHSPEC_CHANNEL c) :: uint32) \<le> CH_MAX_2G_CHANNEL
      then if CHSPEC_IS2G c then [98] else [97] else []) = band_text c"
    using g exclusive(1) [of c] unfolding not_le [symmetric] max by (auto simp: band_text_def)
  have plus: "word_of_nat ?n + CH_10MHZ_APART = (word_of_nat (?n + 2) :: uint32)" by (simp add: CH_10MHZ_APART_def)
  have minus: "2 \<le> ?n \<Longrightarrow> word_of_nat ?n - CH_10MHZ_APART = (word_of_nat (?n - 2) :: uint32)"
    unfolding CH_10MHZ_APART_def by (rule word_of_nat_minus)
  have two: "CHSPEC_IS40 c \<Longrightarrow> \<not> CHSPEC_SB_UPPER c \<Longrightarrow> 2 \<le> ?n"
    using assms exclusive(2,3) by (auto simp: writable_def word_le_nat_alt)
  have w: "(if CHSPEC_IS40 c
      then if CHSPEC_SB_UPPER c then ((word_of_nat ?n :: uint32) + CH_10MHZ_APART, [], [117]) else (word_of_nat ?n - CH_10MHZ_APART, [], [108])
      else if CHSPEC_IS10 c then (word_of_nat ?n, [110], []) else (word_of_nat ?n, [], [])) =
      (word_of_nat (number_text c), if CHSPEC_IS40 c then [] else width_text c, if CHSPEC_IS40 c then width_text c else [])"
    using plus minus two by (simp add: number_text_def width_text_def)
  have n: "number_text c < 256" using number_text_bound [OF assms] by simp
  have "wf_chspec_ntoa c = take 5 (dec (number_text c) @ band_text c @ width_text c)"
    unfolding wf_chspec_ntoa_def Let_def b unfolding ch w using fmt_d_small [OF n] by simp
  moreover have "length (dec (number_text c) @ band_text c @ width_text c) \<le> 5"
    using length_dec [of "number_text c"] n by (simp add: band_text_def width_text_def)
  ultimately show ?thesis by simp
qed

text \<open>The centre and the constant part that a width stands for.\<close>

definition centre :: "nat \<Rightarrow> uint8 list \<Rightarrow> nat" where
  "centre n s = (if s = [108] then n + 2 else if s = [117] then n - 2 else n)"

definition width_bits :: "uint8 list \<Rightarrow> chanspec" where
  "width_bits s = (if s = [108] then 0x0D00 else if s = [117] then 0x0E00 else if s = [110] then 0x0700 else 0x0B00)"

lemma aton_width_number:
  assumes "n \<le> 224" "s \<in> {[], [108], [110], [117]}" "s = [117] \<Longrightarrow> 4 < n" "s = [108] \<Longrightarrow> n \<le> 220"
  shows "aton_width (word_of_nat n) band (char_at s) = ucast (word_of_nat (centre n s) :: uint8) OR (band OR width_bits s)"
proof -
  have u: "unat (word_of_nat n :: uint32) = n" using assms(1) by (simp add: unat_of_nat32)
  have plus: "word_of_nat n + CH_10MHZ_APART = (word_of_nat (n + 2) :: uint32)" by (simp add: CH_10MHZ_APART_def)
  have low: "(word_of_nat n :: uint32) \<le> MAXCHANNEL - CH_20MHZ_APART \<longleftrightarrow> n \<le> 220" "(word_of_nat n :: uint32) > CH_20MHZ_APART \<longleftrightarrow> 4 < n"
    by (simp_all add: word_le_nat_alt word_less_nat_alt MAXCHANNEL_def CH_20MHZ_APART_def u)
  have minus: "4 < n \<Longrightarrow> word_of_nat n - CH_10MHZ_APART = (word_of_nat (n - 2) :: uint32)"
    unfolding CH_10MHZ_APART_def by (rule word_of_nat_minus) simp
  consider "s = []" | "s = [108]" | "s = [110]" | "s = [117]" using assms(2) by blast
  then show ?thesis
  proof cases
    case 1
    then show ?thesis using chan_word [of n] assms(1)
      by (simp add: aton_width_def char_at_suffix centre_def width_bits_def chspec_consts or.assoc)
  next
    case 2
    then show ?thesis using chan_word [of "n + 2"] assms(4)
      by (simp only: aton_width_def char_at_suffix low plus) (simp add: centre_def width_bits_def chspec_consts or.assoc)
  next
    case 3
    then show ?thesis using chan_word [of n] assms(1)
      by (simp add: aton_width_def char_at_suffix centre_def width_bits_def chspec_consts or.assoc)
  next
    case 4
    then show ?thesis using chan_word [of "n - 2"] assms(1,3)
      by (simp only: aton_width_def char_at_suffix low minus) (simp add: centre_def width_bits_def chspec_consts or.assoc)
  qed
qed

lemma centre_number:
  assumes "writable c"
  shows "word_of_nat (centre (number_text c) (width_text c)) = CHSPEC_CHANNEL c"
    "CHSPEC_BW c OR CHSPEC_CTL_SB c = width_bits (width_text c)" "width_text c \<in> {[], [108], [110], [117]}"
    "width_text c = [117] \<Longrightarrow> 4 < number_text c" "width_text c = [108] \<Longrightarrow> number_text c \<le> 220"
    "band_text c \<in> {[], [97], [98]}"
proof -
  have w: "(CHSPEC_IS20 c \<or> CHSPEC_IS10 c) \<and> CHSPEC_SB_NONE c \<or> CHSPEC_IS40 c \<and> CHSPEC_SB_UPPER c \<and> 3 \<le> unat (CHSPEC_CHANNEL c) \<or>
      CHSPEC_IS40 c \<and> CHSPEC_SB_LOWER c \<and> 2 \<le> unat (CHSPEC_CHANNEL c) \<and> unat (CHSPEC_CHANNEL c) \<le> 222"
    using assms by (auto simp: writable_def word_le_nat_alt)
  note ex = exclusive [of c]
  have "centre (number_text c) (width_text c) = unat (CHSPEC_CHANNEL c)"
    using w ex by (auto simp: centre_def number_text_def width_text_def)
  then show "word_of_nat (centre (number_text c) (width_text c)) = CHSPEC_CHANNEL c" by simp
  show "CHSPEC_BW c OR CHSPEC_CTL_SB c = width_bits (width_text c)"
    using w ex by (auto simp: width_bits_def width_text_def chspec_tests chspec_consts)
  show "width_text c = [117] \<Longrightarrow> 4 < number_text c" "width_text c = [108] \<Longrightarrow> number_text c \<le> 220"
    using w ex by (auto simp: number_text_def width_text_def split: if_splits)
qed (auto simp: width_text_def band_text_def)

text \<open>Which band is read.\<close>

definition read_band :: "chanspec \<Rightarrow> chanspec" where
  "read_band c = (if band_text c = [97] \<or> band_text c = [] \<and> 14 < number_text c then WL_CHANSPEC_BAND_5G else WL_CHANSPEC_BAND_2G)"

lemma read_band:
  assumes "writable c"
  shows "CHSPEC_BAND c = read_band c \<longleftrightarrow> \<not> ambiguous c"
proof -
  let ?m = "unat (CHSPEC_CHANNEL c)"
  have g: "CHSPEC_BAND c = 0x1000 \<or> CHSPEC_BAND c = 0x2000" using assms by (auto simp: writable_def chspec_tests chspec_consts)
  have w: "(CHSPEC_IS20 c \<or> CHSPEC_IS10 c) \<and> \<not> CHSPEC_IS40 c \<or> CHSPEC_IS40 c \<and> CHSPEC_SB_UPPER c \<and> \<not> CHSPEC_SB_LOWER c \<or>
      CHSPEC_IS40 c \<and> CHSPEC_SB_LOWER c \<and> \<not> CHSPEC_SB_UPPER c \<and> 2 \<le> ?m"
    using assms exclusive [of c] by (auto simp: writable_def word_le_nat_alt)
  have a: "ambiguous c \<longleftrightarrow> CHSPEC_IS40 c \<and> (CHSPEC_BAND c = 0x2000 \<and> CHSPEC_SB_UPPER c \<and> (?m = 13 \<or> ?m = 14) \<or>
      CHSPEC_BAND c = 0x1000 \<and> CHSPEC_SB_LOWER c \<and> (?m = 15 \<or> ?m = 16))"
    by (simp add: ambiguous_def CHSPEC_IS2G_def CHSPEC_IS5G_def chspec_consts word_unat_eq_iff)
  have b: "band_text c = (if CHSPEC_BAND c = 0x2000 then if 14 < ?m then [98] else [] else if ?m \<le> 14 then [97] else [])"
    by (simp add: band_text_def CHSPEC_IS2G_def chspec_consts word_le_nat_alt word_less_nat_alt)
  show ?thesis using g
  proof
    assume "CHSPEC_BAND c = 0x1000"
    then show ?thesis using w unfolding a read_band_def b number_text_def chspec_consts by (elim disjE conjE) (auto split: if_splits)
  next
    assume "CHSPEC_BAND c = 0x2000"
    then show ?thesis using w unfolding a read_band_def b number_text_def chspec_consts by (elim disjE conjE) (auto split: if_splits)
  qed
qed

lemma flipped_band:
  assumes "ambiguous c"
  shows "ucast (CHSPEC_CHANNEL c) OR (read_band c OR width_bits (width_text c)) =
    (ucast (CHSPEC_CHANNEL c) OR (CHSPEC_BAND c OR width_bits (width_text c))) XOR (WL_CHANSPEC_BAND_2G OR WL_CHANSPEC_BAND_5G)"
proof -
  have "CHSPEC_IS40 c" using assms by (simp add: ambiguous_def)
  moreover have "CHSPEC_BAND c = 0x2000 \<and> CHSPEC_SB_UPPER c \<and> CHSPEC_CHANNEL c = 13 \<or> CHSPEC_BAND c = 0x2000 \<and> CHSPEC_SB_UPPER c \<and> CHSPEC_CHANNEL c = 14 \<or>
      CHSPEC_BAND c = 0x1000 \<and> \<not> CHSPEC_SB_UPPER c \<and> CHSPEC_CHANNEL c = 15 \<or> CHSPEC_BAND c = 0x1000 \<and> \<not> CHSPEC_SB_UPPER c \<and> CHSPEC_CHANNEL c = 16"
    using assms exclusive(5) [of c] unfolding ambiguous_def CHSPEC_IS2G_def CHSPEC_IS5G_def chspec_consts by auto
  ultimately show ?thesis
    by (elim disjE conjE) (simp_all add: read_band_def band_text_def number_text_def width_text_def width_bits_def CHSPEC_IS2G_def chspec_consts)
qed

text \<open>C34: Channel specifications as text. One that is printed is read back, but for four: centres 13 and 14 of the 2.4 GHz
  band with the upper side band and 15 and 16 of the 5 GHz band with the lower one. The printer decides by the centre
  whether to write the band, the parser goes by the number that is written, which is the control channel: these four come
  back in the other band.\<close>

theorem chanspec_text_roundtrip:
  assumes "writable c"
  shows "\<exists>c'. wf_chspec_aton (wf_chspec_ntoa c) = Some c' \<and> (c' = c \<longleftrightarrow> \<not> ambiguous c) \<and>
    (ambiguous c \<longrightarrow> c' = c XOR (WL_CHANSPEC_BAND_2G OR WL_CHANSPEC_BAND_5G))"
proof -
  note t = centre_number [OF assms]
  let ?n = "number_text c" and ?b = "band_text c" and ?s = "width_text c"
  let ?band = "if ?b = [97] \<or> ?b = [] \<and> 14 < ?n then WL_CHANSPEC_BAND_5G else WL_CHANSPEC_BAND_2G"
  have "wf_chspec_aton (wf_chspec_ntoa c) = Some (aton_width (word_of_nat ?n) ?band (char_at ?s))"
    unfolding ntoa_text [OF assms] by (rule aton_dec [OF number_text_bound [OF assms] t(6,3)])
  then have read: "wf_chspec_aton (wf_chspec_ntoa c) = Some (ucast (CHSPEC_CHANNEL c) OR (read_band c OR width_bits ?s))"
    by (simp only: aton_width_number [OF number_text_bound [OF assms] t(3-5)] t(1) read_band_def)
  have c: "c = ucast (CHSPEC_CHANNEL c) OR (CHSPEC_BAND c OR width_bits ?s)"
    by (subst chspec_split) (simp only: t(2))
  let ?c' = "ucast (CHSPEC_CHANNEL c) OR (read_band c OR width_bits ?s)"
  have "(read_band c OR width_bits ?s) AND 0x00ff = 0"
    by (simp add: width_bits_def chspec_consts read_band_def)
  then have "CHSPEC_BAND ?c' = CHSPEC_BAND (read_band c OR width_bits ?s)" by (rule fields_of)
  also have "\<dots> = read_band c" by (simp add: width_bits_def chspec_consts read_band_def CHSPEC_BAND_def)
  finally have "?c' = c \<longleftrightarrow> CHSPEC_BAND c = read_band c" using c by metis
  then show ?thesis using read read_band [OF assms] flipped_band c by metis
qed

lemma chanspec_text_roundtrip_witness:
  "\<exists>c'. wf_chspec_aton (wf_chspec_ntoa 0x1D0F) = Some c' \<and> (c' = 0x1D0F \<longleftrightarrow> \<not> ambiguous 0x1D0F) \<and>
    (ambiguous 0x1D0F \<longrightarrow> c' = 0x1D0F XOR (WL_CHANSPEC_BAND_2G OR WL_CHANSPEC_BAND_5G))"
  by (rule chanspec_text_roundtrip)
    (simp add: writable_def chspec_tests chspec_consts CHSPEC_CHANNEL_def CHSPEC_BAND_def CHSPEC_BW_def CHSPEC_CTL_SB_def)

subsection \<open>Control channels\<close>

lemma read_fields:
  assumes "n \<le> 224" "s \<in> {[], [108], [110], [117]}" "band \<in> {WL_CHANSPEC_BAND_2G, WL_CHANSPEC_BAND_5G}"
  defines "c \<equiv> ucast (word_of_nat (centre n s) :: uint8) OR (band OR width_bits s)"
  shows "unat (CHSPEC_CHANNEL c) = centre n s" "CHSPEC_BAND c = band" "CHSPEC_BW c = width_bits s AND 0x0C00" "CHSPEC_CTL_SB c = width_bits s AND 0x0300"
proof -
  have low: "(band OR width_bits s) AND 0x00ff = 0" using assms(3) by (auto simp: width_bits_def chspec_consts)
  note f = fields_of [OF low, of "word_of_nat (centre n s)", folded c_def]
  have "centre n s < 256" using assms(1) by (auto simp: centre_def)
  then show "unat (CHSPEC_CHANNEL c) = centre n s" unfolding f(1) by (simp add: unsigned_of_nat take_bit_nat_eq_self)
  show "CHSPEC_BAND c = band" unfolding f(2) using assms(3) by (auto simp: width_bits_def chspec_consts CHSPEC_BAND_def)
  show "CHSPEC_BW c = width_bits s AND 0x0C00" unfolding f(4) using assms(3) by (auto simp: width_bits_def chspec_consts CHSPEC_BW_def)
  show "CHSPEC_CTL_SB c = width_bits s AND 0x0300" unfolding f(3) using assms(3) by (auto simp: width_bits_def chspec_consts CHSPEC_CTL_SB_def)
qed

lemma sb_nat: "3 \<le> unat ch \<Longrightarrow> unat (LOWER_20_SB ch) = unat ch - 2" "unat ch = 2 \<Longrightarrow> unat (LOWER_20_SB ch) = 0"
  "unat ch < 222 \<Longrightarrow> unat (UPPER_20_SB ch) = unat ch + 2"
  by (simp_all add: LOWER_20_SB_def UPPER_20_SB_def word_less_nat_alt unat_sub word_le_nat_alt unat_word_ariths)

text \<open>C35: The control channel. Of what is written, a channel below 224, a band or none, and a width with its side band or none,
  the parsed specification has the written number as control channel, the band that is written or else the one of that number,
  and 40 MHz iff a side band is given; the specification of its control channel is a 20 MHz one of the same band with that number.
  It is well-formed but for 10 MHz, which the parser accepts and the check refuses.\<close>

theorem control_channel_written:
  assumes "n < 224" "b \<in> {[], [97], [98]}" "s \<in> {[], [108], [110], [117]}" "s = [117] \<longrightarrow> 4 < n" "s = [108] \<longrightarrow> n \<le> 220"
  shows "\<exists>c. wf_chspec_aton (dec n @ b @ s) = Some c \<and> unat (wf_chspec_ctlchan c) = n \<and>
    (CHSPEC_IS5G c \<longleftrightarrow> b = [97] \<or> b = [] \<and> 14 < n) \<and> (CHSPEC_IS2G c \<longleftrightarrow> \<not> CHSPEC_IS5G c) \<and> (CHSPEC_IS40 c \<longleftrightarrow> s = [108] \<or> s = [117]) \<and>
    (wf_chspec_malformed c \<longleftrightarrow> s = [110]) \<and> unat (CHSPEC_CHANNEL (wf_chspec_ctlchspec c)) = n \<and>
    CHSPEC_BAND (wf_chspec_ctlchspec c) = CHSPEC_BAND c \<and> (CHSPEC_IS20 (wf_chspec_ctlchspec c) \<longleftrightarrow> s \<noteq> [110])"
proof -
  define band where "band = (if b = [97] \<or> b = [] \<and> 14 < n then WL_CHANSPEC_BAND_5G else WL_CHANSPEC_BAND_2G)"
  define c where "c = ucast (word_of_nat (centre n s) :: uint8) OR (band OR width_bits s)"
  have n: "n \<le> 224" using assms(1) by simp
  have read: "wf_chspec_aton (dec n @ b @ s) = Some c"
    unfolding aton_dec [OF n assms(2,3)] c_def band_def using aton_width_number [OF n assms(3)] assms(4,5) by simp
  have band: "band \<in> {WL_CHANSPEC_BAND_2G, WL_CHANSPEC_BAND_5G}" by (simp add: band_def)
  note f = read_fields [OF n assms(3) band, folded c_def]
  have sb: "CHSPEC_CTL_SB c = (if s = [108] then 0x0100 else if s = [117] then 0x0200 else 0x0300)"
    unfolding f(4) by (simp add: width_bits_def)
  have bw: "CHSPEC_BW c = (if s = [108] \<or> s = [117] then 0x0C00 else if s = [110] then 0x0400 else 0x0800)"
    unfolding f(3) by (simp add: width_bits_def)
  have ctl: "unat (wf_chspec_ctlchan c) = n"
  proof (cases "s = [108]")
    case True
    then have "unat (CHSPEC_CHANNEL c) = n + 2" unfolding f(1) by (simp add: centre_def)
    then show ?thesis using True sb_nat(1,2) [of "CHSPEC_CHANNEL c"] unfolding wf_chspec_ctlchan_def sb
      by (cases "n = 0") (simp_all add: chspec_consts)
  next
    case False
    then show ?thesis using f(1) sb_nat(3) [of "CHSPEC_CHANNEL c"] assms(1,4) unfolding wf_chspec_ctlchan_def sb
      by (auto simp: chspec_consts centre_def)
  qed
  let ?k = "WL_CHANSPEC_BW_20 OR WL_CHANSPEC_CTL_SB_NONE OR band"
  have or3: "0x800 OR (0x300 OR band) = 0xB00 OR band" by (simp flip: or.assoc)
  have spec: "wf_chspec_ctlchspec c = (if s = [108] \<or> s = [117] then ucast (wf_chspec_ctlchan c) OR ?k else c)"
    unfolding wf_chspec_ctlchspec_def wf_chspec_ctlchan_def sb f(2) Let_def by (simp add: chspec_consts or.assoc or3)
  have k: "?k AND 0x00ff = 0" "?k AND 0xf000 = band" "?k AND 0x0C00 = 0x0800"
    using band by (auto simp: chspec_consts)
  note g = fields_of [OF k(1), of "wf_chspec_ctlchan c"]
  have "unat (CHSPEC_CHANNEL (wf_chspec_ctlchspec c)) = n"
    unfolding spec using ctl f(1) g(1) assms(3) by (cases "s = [108] \<or> s = [117]") (auto simp: centre_def)
  moreover have "CHSPEC_BAND (wf_chspec_ctlchspec c) = CHSPEC_BAND c"
    unfolding spec using f(2) g(2) k(2) by (simp add: CHSPEC_BAND_def [of ?k])
  moreover have "CHSPEC_BW (wf_chspec_ctlchspec c) = (if s = [110] then 0x0400 else 0x0800)"
    unfolding spec using bw g(4) k(3) by (simp add: CHSPEC_BW_def [of ?k])
  then have "CHSPEC_IS20 (wf_chspec_ctlchspec c) \<longleftrightarrow> s \<noteq> [110]" unfolding CHSPEC_IS20_def by (simp add: chspec_consts)
  moreover have "CHSPEC_IS5G c \<longleftrightarrow> b = [97] \<or> b = [] \<and> 14 < n" "CHSPEC_IS2G c \<longleftrightarrow> \<not> CHSPEC_IS5G c"
    unfolding CHSPEC_IS5G_def CHSPEC_IS2G_def f(2) band_def by (simp_all add: chspec_consts)
  moreover have "CHSPEC_IS40 c \<longleftrightarrow> s = [108] \<or> s = [117]" unfolding CHSPEC_IS40_def bw by (simp add: chspec_consts)
  moreover have "wf_chspec_malformed c \<longleftrightarrow> s = [110]"
    unfolding wf_chspec_malformed_def chspec_tests bw sb f(2) using assms(3) band by (auto simp: chspec_consts)
  ultimately show ?thesis using read ctl by blast
qed

lemma control_channel_written_witness:
  "\<exists>c. wf_chspec_aton (dec 40 @ [] @ [117]) = Some c \<and> unat (wf_chspec_ctlchan c) = 40 \<and>
    (CHSPEC_IS5G c \<longleftrightarrow> ([] :: uint8 list) = [97] \<or> ([] :: uint8 list) = [] \<and> (14 :: nat) < 40) \<and> (CHSPEC_IS2G c \<longleftrightarrow> \<not> CHSPEC_IS5G c) \<and>
    (CHSPEC_IS40 c \<longleftrightarrow> [117 :: uint8] = [108] \<or> [117 :: uint8] = [117]) \<and>
    (wf_chspec_malformed c \<longleftrightarrow> [117 :: uint8] = [110]) \<and> unat (CHSPEC_CHANNEL (wf_chspec_ctlchspec c)) = 40 \<and>
    CHSPEC_BAND (wf_chspec_ctlchspec c) = CHSPEC_BAND c \<and> (CHSPEC_IS20 (wf_chspec_ctlchspec c) \<longleftrightarrow> [117 :: uint8] \<noteq> [110])"
  by (rule control_channel_written) simp_all

subsection \<open>Channels and frequencies\<close>

lemma sint_small:
  assumes "unat (w :: uint32) < 2 ^ 31"
  shows "sint w = int (unat w)"
proof -
  define n where "n = unat w"
  have "int n \<le> 2147483647" using assms by (simp add: n_def [symmetric])
  then have "sint (word_of_int (int n) :: uint32) = int n" by (intro sint_of_int32) simp_all
  then show ?thesis by (simp add: n_def)
qed

lemma channel2mhz_nat:
  assumes "unat sf div 2 + 1000 < 2 ^ 31"
  shows "sint (wf_channel2mhz ch sf) =
    (if unat sf = 4814 \<and> (unat ch < 1 \<or> 14 < unat ch) \<or> 200 < unat ch then - 1
     else if unat sf = 4814 \<and> unat ch = 14 then 2484 else int (unat ch * 5 + unat sf div 2))"
proof (cases "200 < unat ch")
  case True
  then show ?thesis by (simp add: wf_channel2mhz_def word_less_nat_alt)
next
  case False
  have v: "unat (ch * 5 + sf div 2) = unat ch * 5 + unat sf div 2"
    using assms False by (simp add: unat_word_ariths unat_div)
  have "unat (ch * 5 + sf div 2) < 2 ^ 31" unfolding v using assms False by linarith
  then have k: "sint (ch * 5 + sf div 2) = int (unat ch * 5 + unat sf div 2)" using sint_small v by metis
  have "wf_channel2mhz ch sf = (if unat sf = 4814 \<and> (unat ch < 1 \<or> 14 < unat ch) \<or> 200 < unat ch then - 1
      else if unat sf = 4814 \<and> unat ch = 14 then 2484 else ch * 5 + sf div 2)"
    by (auto simp: wf_channel2mhz_def word_less_nat_alt WF_CHAN_FACTOR_2_4_G_def word_unat_eq_iff)
  then show ?thesis by (simp only: if_distrib [of sint] k) auto
qed

lemma mhz2channel_nat:
  assumes "unat sf div 2 + 1000 < 2 ^ 31" "sf \<noteq> 0"
  defines "B \<equiv> unat sf div 2"
  shows "sint (wf_mhz2channel f sf) =
    (if unat f = 2484 \<and> unat sf = 4814 then 14
     else if unat f < B \<or> B + 1000 < unat f then - 1
     else if (unat f - B) mod 5 \<noteq> 0 then - 1
     else if unat sf = 4814 \<and> (unat f - B < 5 \<or> 65 < unat f - B) then - 1 else int ((unat f - B) div 5))"
proof -
  have b: "unat (sf div 2) = B" by (simp add: B_def unat_div)
  have b1000: "unat (sf div 2 + 1000) = B + 1000" using assms(1) by (simp add: unat_word_ariths b B_def unat_div)
  have range: "f < sf div 2 \<or> sf div 2 + 1000 < f \<longleftrightarrow> unat f < B \<or> B + 1000 < unat f"
    by (simp only: word_less_nat_alt b b1000)
  have sf: "sf = WF_CHAN_FACTOR_2_4_G \<longleftrightarrow> unat sf = 4814" "f = 2484 \<longleftrightarrow> unat f = 2484"
    by (simp_all add: WF_CHAN_FACTOR_2_4_G_def word_unat_eq_iff)
  show ?thesis
  proof (cases "unat f < B \<or> B + 1000 < unat f")
    case True
    then show ?thesis unfolding wf_mhz2channel_def Let_def if_not_P [OF assms(2)] range sf by simp
  next
    case False
    define d where "d = unat f - B"
    define off where "off = f - sf div 2"
    have "sf div 2 \<le> f" using False unfolding word_le_nat_alt b by simp
    then have d: "unat off = d" by (simp add: off_def d_def unat_sub b)
    have d1000: "d \<le> 1000" using False unfolding d_def by linarith
    have so: "sint off = int d" using sint_small [of off] d d1000 by simp
    have "int d sdiv 5 = int (d div 5)" by (simp add: signed_divide_int_def sgn_if zdiv_int)
    then have q: "word_of_int (sint off sdiv 5) = (word_of_nat (d div 5) :: uint32)" unfolding so by simp
    have q5: "unat (word_of_nat (d div 5) :: uint32) = d div 5" using d1000 by (simp add: unat_of_nat32)
    have sq: "sint (word_of_nat (d div 5) :: uint32) = int (d div 5)" using sint_small [of "word_of_nat (d div 5)"] q5 d1000 by simp
    have "unat (word_of_nat (d div 5) * 5 :: uint32) = d div 5 * 5" using d1000 q5 by (simp add: unat_word_ariths)
    then have m: "off \<noteq> word_of_nat (d div 5) * 5 \<longleftrightarrow> d mod 5 \<noteq> 0"
      unfolding word_unat_eq_iff d using div_mult_mod_eq [of d 5] by linarith
    have r: "word_of_nat (d div 5) <s (1 :: uint32) \<or> 13 <s (word_of_nat (d div 5) :: uint32) \<longleftrightarrow> d div 5 < 1 \<or> 13 < d div 5"
      unfolding word_sless_alt sq by auto
    have "wf_mhz2channel f sf = (if unat f = 2484 \<and> unat sf = 4814 then 14 else if d mod 5 \<noteq> 0 then - 1
        else if unat sf = 4814 \<and> (d div 5 < 1 \<or> 13 < d div 5) then - 1 else word_of_nat (d div 5))"
      unfolding wf_mhz2channel_def Let_def if_not_P [OF assms(2)] range sf if_not_P [OF False] off_def [symmetric] q m r by simp
    moreover have "d mod 5 = 0 \<Longrightarrow> (d div 5 < 1 \<or> 13 < d div 5) \<longleftrightarrow> (d < 5 \<or> 65 < d)" by presburger
    ultimately show ?thesis using False sq unfolding d_def [symmetric] by auto
  qed
qed

text \<open>C36: Channels and frequencies. For a band that starts at \<open>sf\<close> times 500 kHz, the two conversions are inverse to
  each other on all words: a channel has the frequency \<open>f\<close> iff \<open>f\<close> is the frequency of that channel, with the ends of the range,
  the raster of 5 MHz and the exceptional channel 14 included; and then the channel is at most 200.\<close>

theorem frequencies_are_channels:
  assumes "sf \<noteq> 0" "unat sf div 2 + 1000 < 2 ^ 31"
  shows "(sint (wf_mhz2channel f sf) = int (unat ch) \<longleftrightarrow> sint (wf_channel2mhz ch sf) = int (unat f)) \<and>
    sint (wf_mhz2channel f sf) \<in> {- 1..200}"
proof -
  define B C F S where "B = unat sf div 2" and "C = unat ch" and "F = unat f" and "S = unat sf"
  note m = mhz2channel_nat [OF assms(2,1), of f, folded B_def F_def S_def]
  note c = channel2mhz_nat [OF assms(2), of ch, folded B_def C_def S_def]
  have B: "S = 4814 \<Longrightarrow> B = 2407" by (simp add: B_def S_def)
  consider "F < B \<or> B + 1000 < F" | d where "F = B + d" "d \<le> 1000"
    by (metis le_Suc_ex linorder_not_le nat_add_left_cancel_le)
  then show ?thesis
  proof cases
    case 1
    then show ?thesis unfolding m c C_def [symmetric] F_def [symmetric] using B by auto
  next
    case 2
    have "C * 5 = d \<longleftrightarrow> d mod 5 = 0 \<and> C = d div 5" using div_mult_mod_eq [of d 5] by auto
    then show ?thesis unfolding m c C_def [symmetric] F_def [symmetric] using 2 B by (cases "S = 4814") auto
  qed
qed

lemma frequencies_are_channels_witness:
  "(sint (wf_mhz2channel 2484 4814) = int (unat (14 :: uint32)) \<longleftrightarrow> sint (wf_channel2mhz 14 4814) = int (unat (2484 :: uint32))) \<and>
    sint (wf_mhz2channel 2484 4814) \<in> {- 1..200}"
  by (rule frequencies_are_channels) simp_all

end
