(* ===== verification/Rate.thy ===== *)
theory Rate
  imports Prelude "HOL-Library.Monad_Syntax"
begin

text \<open>
  Rates and rate sets, \<^verbatim>\<open>wl/sys/wlc_rate.c\<close> and \<^verbatim>\<open>wl/sys/wlc_rate.h\<close>: the tables of rates, rate sets with their filters,
  rate specifications. Rates are in units of 500 kbit/s, the top bit says that a rate is basic. A rate set
  is a C structure with arrays of 16 bytes; \<open>None\<close> stands for a read or a write outside of an array. The build is the one with
  802.11n (\<^verbatim>\<open>WL11N\<close>) and all PHYs.
\<close>

subsection \<open>Tables\<close>

definition WLC_MAXRATE :: uint8 where "WLC_MAXRATE = 108"
definition RATE_MASK :: uint8 where "RATE_MASK = 0x7f"
definition RATE_MASK_FULL :: uint8 where "RATE_MASK_FULL = 0xff"
definition WLC_RATE_FLAG :: uint8 where "WLC_RATE_FLAG = 0x80"
definition WLC_HTPHY :: uint8 where "WLC_HTPHY = 127"
definition WLC_NUMRATES :: nat where "WLC_NUMRATES = 16"
definition MCSSET_LEN :: nat where "MCSSET_LEN = 16"
definition MAX_STREAMS_SUPPORTED :: nat where "MAX_STREAMS_SUPPORTED = 4"
definition WLC_MAXMCS :: nat where "WLC_MAXMCS = 32"

definition rate_info :: "uint8 list" where
  "rate_info = [
   0, 0, 10, 0, 20, 0, 0, 0, 0, 0, 0, 55, 139, 0, 0, 0, 0, 0, 143, 0,
   0, 0, 110, 0, 138, 0, 0, 0, 0, 0, 0, 0, 0, 0, 0, 0, 142, 0, 0, 0,
   0, 0, 0, 0, 0, 0, 0, 0, 137, 0, 0, 0, 0, 0, 0, 0, 0, 0, 0, 0,
   0, 0, 0, 0, 0, 0, 0, 0, 0, 0, 0, 0, 141, 0, 0, 0, 0, 0, 0, 0,
   0, 0, 0, 0, 0, 0, 0, 0, 0, 0, 0, 0, 0, 0, 0, 0, 136, 0, 0, 0,
   0, 0, 0, 0, 0, 0, 0, 0, 140]"

record mcs_info =
  phy_rate_20 :: uint32
  phy_rate_40 :: uint32
  phy_rate_20_sgi :: uint32
  phy_rate_40_sgi :: uint32
  tx_phy_ctl3 :: uint8
  leg_ofdm :: uint8

definition CEIL :: "uint32 \<Rightarrow> uint32 \<Rightarrow> uint32" where "CEIL x y = (x + (y - 1)) div y"

text \<open>Rates with the short guard interval are ten ninths, rounded up.\<close>

definition mcs_entry :: "uint32 \<Rightarrow> uint32 \<Rightarrow> uint8 \<Rightarrow> uint8 \<Rightarrow> mcs_info" where
  "mcs_entry r20 r40 ctl3 leg =
     \<lparr>phy_rate_20 = r20, phy_rate_40 = r40, phy_rate_20_sgi = CEIL (r20 * 10) 9, phy_rate_40_sgi = CEIL (r40 * 10) 9,
      tx_phy_ctl3 = ctl3, leg_ofdm = leg\<rparr>"

definition mcs_table :: "mcs_info list" where
  "mcs_table = [
   mcs_entry 6500 13500 0 12, mcs_entry 13000 27000 8 24, mcs_entry 19500 40500 10 36,
   mcs_entry 26000 54000 16 48, mcs_entry 39000 81000 18 72, mcs_entry 52000 108000 25 96,
   mcs_entry 58500 121500 26 108, mcs_entry 65000 135000 28 108, mcs_entry 13000 27000 64 12,
   mcs_entry 26000 54000 72 24, mcs_entry 39000 81000 74 36, mcs_entry 52000 108000 80 48,
   mcs_entry 78000 162000 82 72, mcs_entry 104000 216000 89 96, mcs_entry 117000 243000 90 108,
   mcs_entry 130000 270000 92 108, mcs_entry 19500 40500 128 12, mcs_entry 39000 81000 136 24,
   mcs_entry 58500 121500 138 36, mcs_entry 78000 162000 144 48, mcs_entry 117000 243000 146 72,
   mcs_entry 156000 324000 153 96, mcs_entry 175500 364500 154 108, mcs_entry 195000 405000 155 108,
   mcs_entry 26000 54000 192 12, mcs_entry 52000 108000 200 24, mcs_entry 78000 162000 202 36,
   mcs_entry 104000 216000 208 48, mcs_entry 156000 324000 210 72, mcs_entry 208000 432000 217 96,
   mcs_entry 234000 486000 218 108, mcs_entry 260000 540000 219 108, mcs_entry 0 6000 0 12]"

definition MCS_CR :: "nat \<Rightarrow> uint8" where "MCS_CR m = tx_phy_ctl3 (mcs_table ! m) AND 0x07"
definition MCS_MOD :: "nat \<Rightarrow> uint8" where "MCS_MOD m = drop_bit 3 (tx_phy_ctl3 (mcs_table ! m) AND 0x38)"
definition MCS_TXS :: "nat \<Rightarrow> uint8" where "MCS_TXS m = drop_bit 6 (tx_phy_ctl3 (mcs_table ! m) AND 0xc0)"

definition MCS_RATE :: "nat \<Rightarrow> bool \<Rightarrow> bool \<Rightarrow> uint32" where
  "MCS_RATE m is40 sgi =
     (let e = mcs_table ! m in
      if sgi then if is40 then phy_rate_40_sgi e else phy_rate_20_sgi e else if is40 then phy_rate_40 e else phy_rate_20 e)"

definition legacy_phycfg_table :: "(uint32 \<times> uint8) list" where
  "legacy_phycfg_table =
     [(2, 0x00), (4, 0x08), (11, 0x10), (22, 0x18), (12, 0x00), (18, 0x02), (24, 0x08), (36, 0x0A), (48, 0x10), (72, 0x12), (96, 0x19),
      (108, 0x1A)]"

subsection \<open>Rate sets\<close>

record wlc_rateset =
  count :: nat
  rates :: "uint8 list"
  htphy_membership :: uint8
  mcs :: "uint8 list"

definition cck_ofdm_mimo_rates :: wlc_rateset where
  "cck_ofdm_mimo_rates = \<lparr>count = 12, rates = [130, 132, 139, 12, 18, 150, 24, 36, 48, 72, 96, 108] @ replicate 4 0, htphy_membership = 0, mcs = [255, 255, 255, 255] @ replicate 12 0\<rparr>"

definition ofdm_mimo_rates :: wlc_rateset where
  "ofdm_mimo_rates = \<lparr>count = 8, rates = [140, 18, 152, 36, 176, 72, 96, 108] @ replicate 8 0, htphy_membership = 0, mcs = [255, 255, 255, 255] @ replicate 12 0\<rparr>"

definition cck_ofdm_40bw_mimo_rates :: wlc_rateset where
  "cck_ofdm_40bw_mimo_rates = \<lparr>count = 12, rates = [130, 132, 139, 12, 18, 150, 24, 36, 48, 72, 96, 108] @ replicate 4 0, htphy_membership = 0, mcs = [255, 255, 255, 255, 1] @ replicate 11 0\<rparr>"

definition ofdm_40bw_mimo_rates :: wlc_rateset where
  "ofdm_40bw_mimo_rates = \<lparr>count = 8, rates = [140, 18, 152, 36, 176, 72, 96, 108] @ replicate 8 0, htphy_membership = 0, mcs = [255, 255, 255, 255, 1] @ replicate 11 0\<rparr>"

definition cck_ofdm_rates :: wlc_rateset where
  "cck_ofdm_rates = \<lparr>count = 12, rates = [130, 132, 139, 12, 18, 150, 24, 36, 48, 72, 96, 108] @ replicate 4 0, htphy_membership = 0, mcs = replicate 16 0\<rparr>"

definition gphy_legacy_rates :: wlc_rateset where
  "gphy_legacy_rates = \<lparr>count = 4, rates = [130, 132, 139, 150] @ replicate 12 0, htphy_membership = 0, mcs = replicate 16 0\<rparr>"

definition ofdm_rates :: wlc_rateset where
  "ofdm_rates = \<lparr>count = 8, rates = [140, 18, 152, 36, 176, 72, 96, 108] @ replicate 8 0, htphy_membership = 0, mcs = replicate 16 0\<rparr>"

definition cck_rates :: wlc_rateset where
  "cck_rates = \<lparr>count = 4, rates = [130, 132, 11, 22] @ replicate 12 0, htphy_membership = 0, mcs = replicate 16 0\<rparr>"

definition wlc_lrs_rates :: wlc_rateset where
  "wlc_lrs_rates = \<lparr>count = 8, rates = [2, 4, 11, 22, 36, 48, 72, 108] @ replicate 8 0, htphy_membership = 0, mcs = replicate 16 0\<rparr>"

definition rate_limit_1_2 :: wlc_rateset where
  "rate_limit_1_2 = \<lparr>count = 2, rates = [2, 4] @ replicate 14 0, htphy_membership = 0, mcs = replicate 16 0\<rparr>"

definition masked :: "uint8 \<Rightarrow> uint8" where "masked x = x AND RATE_MASK"
definition basic :: "uint8 \<Rightarrow> bool" where "basic x \<longleftrightarrow> x AND WLC_RATE_FLAG \<noteq> 0"

text \<open>A rate that the table knows; the comparison comes first.\<close>

definition known_rate :: "uint8 \<Rightarrow> bool" where "known_rate r \<longleftrightarrow> r \<le> WLC_MAXRATE \<and> rate_info ! unat r \<noteq> 0"

text \<open>The entries in use, if the array has that many.\<close>

definition entries :: "wlc_rateset \<Rightarrow> uint8 list option" where
  "entries rs = (if count rs \<le> length (rates rs) then Some (take (count rs) (rates rs)) else None)"

text \<open>Entries written one after the other from the front; the rest of the array stays.\<close>

definition store :: "uint8 list \<Rightarrow> wlc_rateset \<Rightarrow> wlc_rateset option" where
  "store xs rs =
     (if length xs \<le> length (rates rs)
      then Some (rs\<lparr>rates := xs @ drop (length xs) (rates rs), count := length xs\<rparr>) else None)"

definition wlc_rateset_valid :: "wlc_rateset \<Rightarrow> bool \<Rightarrow> bool option" where
  "wlc_rateset_valid rs check_brate =
     (if count rs = 0 then Some False
      else if \<not> check_brate then Some True
      else if list_ex basic (take (count rs) (rates rs)) then Some True
      else if count rs \<le> length (rates rs) then Some False else None)"

definition wlc_rateset_mcs_upd :: "wlc_rateset \<Rightarrow> nat \<Rightarrow> wlc_rateset" where
  "wlc_rateset_mcs_upd rs nstreams =
     rs\<lparr>mcs := fold (\<lambda>i m. m[i := 0]) [nstreams..<MAX_STREAMS_SUPPORTED] (mcs rs)\<rparr>"

text \<open>The selector of a membership is taken out of the rates; the rates behind the last one are cleared.\<close>

definition wlc_bss_membership_filter :: "wlc_rateset \<Rightarrow> (wlc_rateset \<times> bool) option" where
  "wlc_bss_membership_filter rs =
     (if count rs = 0 then Some (rs, False)
      else
        do { xs \<leftarrow> entries rs;
             let ys = filter (\<lambda>x. masked x \<noteq> WLC_HTPHY) xs;
             let sel = filter (\<lambda>x. masked x = WLC_HTPHY) xs;
             Some (rs\<lparr>count := length ys, rates := ys @ replicate (WLC_NUMRATES - length ys) 0,
                      htphy_membership := (if sel = [] then htphy_membership rs else last sel)\<rparr>, True) })"

text \<open>The scratch array of the next two functions, indexed by rate.\<close>

definition note_rate :: "(uint8 \<Rightarrow> uint8 \<Rightarrow> uint8) \<Rightarrow> uint8 \<Rightarrow> uint8 list \<Rightarrow> uint8 list" where
  "note_rate f x rateset =
     (let r = masked x in if r > WLC_MAXRATE \<or> rate_info ! unat r = 0 then rateset
      else rateset[unat r := f (rateset ! unat r) x])"

definition no_rates :: "uint8 list" where "no_rates = replicate (unat WLC_MAXRATE + 1) 0"

text \<open>An entry is written before the count is checked.\<close>

definition wlc_rateset_merge :: "wlc_rateset \<Rightarrow> wlc_rateset \<Rightarrow> wlc_rateset option" where
  "wlc_rateset_merge rs1 rs2 =
     do { xs \<leftarrow> entries rs1;
          ys \<leftarrow> entries rs2;
          let rateset = fold (note_rate (OR)) ys (fold (note_rate (OR)) xs no_rates);
          store (filter (\<lambda>x. x \<noteq> 0) rateset) rs1 }"

definition wlc_rate_hwrs_filter_sort_validate :: "wlc_rateset \<Rightarrow> wlc_rateset \<Rightarrow> bool \<Rightarrow> (wlc_rateset \<times> bool) option" where
  "wlc_rate_hwrs_filter_sort_validate rs hw_rs check_brate =
     do { xs \<leftarrow> entries rs;
          hw \<leftarrow> entries hw_rs;
          let rateset = fold (note_rate (\<lambda>_ x. x)) xs no_rates;
          if list_ex (\<lambda>h. masked h > WLC_MAXRATE) hw then None
          else
            do { rs \<leftarrow> store (filter (\<lambda>x. x \<noteq> 0) (map (\<lambda>h. rateset ! unat (masked h)) hw)) rs;
                 let rs = rs\<lparr>mcs := map2 (AND) (mcs rs) (mcs hw_rs)\<rparr>;
                 valid \<leftarrow> wlc_rateset_valid rs check_brate;
                 Some (rs, valid) } }"

definition wlc_rateset_copy :: "wlc_rateset \<Rightarrow> wlc_rateset" where "wlc_rateset_copy src = src"

definition wlc_rateset_mcs_clear :: "wlc_rateset \<Rightarrow> wlc_rateset" where
  "wlc_rateset_mcs_clear rs = rs\<lparr>mcs := replicate MCSSET_LEN 0\<rparr>"

definition wlc_rateset_mcs_build :: "wlc_rateset \<Rightarrow> nat \<Rightarrow> wlc_rateset" where
  "wlc_rateset_mcs_build rs nstreams = wlc_rateset_mcs_upd (rs\<lparr>mcs := mcs cck_ofdm_mimo_rates\<rparr>) nstreams"

text \<open>MCS 32 is bit 0 of byte 4.\<close>

definition wlc_rateset_bw_mcs_filter :: "wlc_rateset \<Rightarrow> nat \<Rightarrow> wlc_rateset" where
  "wlc_rateset_bw_mcs_filter rs bw =
     rs\<lparr>mcs := (mcs rs)[4 := (if bw = 40 then mcs rs ! 4 OR 1 else mcs rs ! 4 AND NOT 1)]\<rparr>"

datatype rates_kind = WLC_RATES_CCK_OFDM | WLC_RATES_CCK | WLC_RATES_OFDM

text \<open>\<open>IS_OFDM\<close> reads the table at any masked rate, \<open>IS_CCK\<close> compares.\<close>

definition IS_OFDM :: "uint8 \<Rightarrow> bool option" where
  "IS_OFDM r = (if unat r < length rate_info then Some (rate_info ! unat r AND WLC_RATE_FLAG \<noteq> 0) else None)"

definition IS_CCK :: "uint8 \<Rightarrow> bool" where "IS_CCK r \<longleftrightarrow> masked r \<in> {2, 4, 11, 22}"

definition ofdm_basic :: "uint8 \<Rightarrow> bool" where
  "ofdm_basic x = (case find (\<lambda>y. masked x = masked y) (take (count ofdm_rates) (rates ofdm_rates)) of None \<Rightarrow> False | Some y \<Rightarrow> basic y)"

definition wlc_rateset_ofdm_fixup :: "wlc_rateset \<Rightarrow> wlc_rateset option" where
  "wlc_rateset_ofdm_fixup rs =
     do { xs \<leftarrow> entries rs;
          store (map (\<lambda>x. if ofdm_basic x then x OR WLC_RATE_FLAG else x) xs) rs }"

text \<open>The rates that are copied.\<close>

fun filter_rates :: "bool \<Rightarrow> rates_kind \<Rightarrow> uint8 list \<Rightarrow> uint8 list option" where
  "filter_rates basic_only kind [] = Some []"
| "filter_rates basic_only kind (r # rs) =
     (if basic_only \<and> \<not> basic r then filter_rates basic_only kind rs
      else
        do { skip \<leftarrow> (case kind of WLC_RATES_CCK \<Rightarrow> IS_OFDM (masked r) | WLC_RATES_OFDM \<Rightarrow> Some (IS_CCK (masked r)) | _ \<Rightarrow> Some False);
             rest \<leftarrow> filter_rates basic_only kind rs;
             Some (if skip then rest else r # rest) })"

text \<open>Source and target may be the same: what is written is never ahead of what is read.\<close>

definition wlc_rateset_filter ::
  "wlc_rateset \<Rightarrow> wlc_rateset \<Rightarrow> bool \<Rightarrow> rates_kind \<Rightarrow> uint8 \<Rightarrow> bool \<Rightarrow> wlc_rateset option" where
  "wlc_rateset_filter src dst basic_only kind xmask mcsallow =
     do { xs \<leftarrow> entries src;
          ys \<leftarrow> filter_rates basic_only kind xs;
          dst \<leftarrow> store (map (\<lambda>r. r AND xmask) ys) dst;
          dst \<leftarrow> (if kind = WLC_RATES_OFDM \<and> xmask = RATE_MASK_FULL then wlc_rateset_ofdm_fixup dst else Some dst);
          let dst = dst\<lparr>htphy_membership := htphy_membership src\<rparr>;
          Some (if mcsallow \<and> kind \<noteq> WLC_RATES_CCK then dst\<lparr>mcs := mcs src\<rparr> else wlc_rateset_mcs_clear dst) }"

datatype phy_type = PHY_TYPE_A | PHY_TYPE_G | PHY_TYPE_N | PHY_TYPE_LP | PHY_TYPE_SSN | PHY_TYPE_HT | PHY_TYPE_LCN | PHY_TYPE_OTHER

definition dflt_rates :: "phy_type \<Rightarrow> bool \<Rightarrow> nat \<Rightarrow> wlc_rateset" where
  "dflt_rates phy band5g bw =
     (if phy \<in> {PHY_TYPE_HT, PHY_TYPE_N, PHY_TYPE_LCN, PHY_TYPE_SSN}
      then if band5g then if bw = 20 then ofdm_mimo_rates else ofdm_40bw_mimo_rates
           else if bw = 20 then cck_ofdm_mimo_rates else cck_ofdm_40bw_mimo_rates
      else if phy = PHY_TYPE_LP then if band5g then ofdm_rates else cck_ofdm_rates
      else if phy = PHY_TYPE_A then ofdm_rates
      else if phy = PHY_TYPE_G then cck_ofdm_rates
      else cck_rates)"

definition wlc_rateset_default ::
  "wlc_rateset \<Rightarrow> wlc_rateset option \<Rightarrow> phy_type \<Rightarrow> bool \<Rightarrow> bool \<Rightarrow> uint8 \<Rightarrow> bool \<Rightarrow> nat \<Rightarrow> nat \<Rightarrow> wlc_rateset option" where
  "wlc_rateset_default rs_tgt rs_hw phy band5g cck_only rate_mask mcsallow bw txstreams =
     (let rs_hw = (case rs_hw of None \<Rightarrow> dflt_rates phy band5g bw | Some rs \<Rightarrow> rs);
          rs_sel = wlc_rateset_mcs_upd (wlc_rateset_copy rs_hw) txstreams in
      do { tgt \<leftarrow> wlc_rateset_filter rs_sel rs_tgt False (if cck_only then WLC_RATES_CCK else WLC_RATES_CCK_OFDM) rate_mask mcsallow;
           (tgt, valid) \<leftarrow> wlc_rate_hwrs_filter_sort_validate tgt rs_hw False;
           Some tgt })"

definition wlc_rate_legacy_phyctl :: "uint32 \<Rightarrow> int16" where
  "wlc_rate_legacy_phyctl rate =
     (case find (\<lambda>e. rate = fst e) legacy_phycfg_table of None \<Rightarrow> - 1 | Some e \<Rightarrow> ucast (snd e))"

subsection \<open>Rate specifications\<close>

type_synonym ratespec = uint32

definition RSPEC_MIMORATE :: ratespec where "RSPEC_MIMORATE = 0x08000000"
definition RSPEC_SHORT_GI :: ratespec where "RSPEC_SHORT_GI = 0x00800000"
definition PHY_TXC1_BW_20MHZ :: uint32 where "PHY_TXC1_BW_20MHZ = 2"
definition PHY_TXC1_BW_40MHZ :: uint32 where "PHY_TXC1_BW_40MHZ = 4"
definition PHY_TXC1_BW_40MHZ_DUP :: uint32 where "PHY_TXC1_BW_40MHZ_DUP = 5"
definition PHY_TXC1_MODE_SISO :: uint32 where "PHY_TXC1_MODE_SISO = 0"
definition PHY_TXC1_MODE_CDD :: uint32 where "PHY_TXC1_MODE_CDD = 1"
definition PHY_TXC1_MODE_SDM :: uint32 where "PHY_TXC1_MODE_SDM = 3"

definition RSPEC_IS40MHZ :: "ratespec \<Rightarrow> bool" where
  "RSPEC_IS40MHZ r \<longleftrightarrow> drop_bit 8 (r AND 0x700) = PHY_TXC1_BW_40MHZ \<or> drop_bit 8 (r AND 0x700) = PHY_TXC1_BW_40MHZ_DUP"

definition RSPEC_ISSGI :: "ratespec \<Rightarrow> bool" where "RSPEC_ISSGI r \<longleftrightarrow> r AND RSPEC_SHORT_GI = RSPEC_SHORT_GI"
definition IS_MCS :: "ratespec \<Rightarrow> bool" where "IS_MCS r \<longleftrightarrow> r AND RSPEC_MIMORATE \<noteq> 0"

definition RSPEC2RATE :: "ratespec \<Rightarrow> uint32" where
  "RSPEC2RATE r = (if IS_MCS r then MCS_RATE (unat (r AND 0x7f)) (RSPEC_IS40MHZ r) (RSPEC_ISSGI r) else r AND 0x7f)"

definition RSPEC2KBPS :: "ratespec \<Rightarrow> uint32" where
  "RSPEC2KBPS r = (if IS_MCS r then RSPEC2RATE r else RSPEC2RATE r * 500)"

definition IS_SINGLE_STREAM :: "nat \<Rightarrow> bool" where "IS_SINGLE_STREAM m \<longleftrightarrow> m \<le> 7 \<or> m = 32"

definition mcs_rspec :: "bool \<Rightarrow> bool \<Rightarrow> nat \<Rightarrow> nat \<Rightarrow> ratespec" where
  "mcs_rspec isbw40 sgi txstreams m =
     word_of_nat m OR RSPEC_MIMORATE OR
     push_bit 11 (if IS_SINGLE_STREAM m then if txstreams = 1 then PHY_TXC1_MODE_SISO else PHY_TXC1_MODE_CDD else PHY_TXC1_MODE_SDM) OR
     push_bit 8 (if isbw40 then PHY_TXC1_BW_40MHZ else PHY_TXC1_BW_20MHZ) OR
     (if sgi then RSPEC_SHORT_GI else 0)"

text \<open>The MCS indices that are looked at: all of a byte that is not 0, and of one stream only the first byte.\<close>

definition tried :: "nat \<Rightarrow> uint8 list \<Rightarrow> nat list" where
  "tried txstreams bits =
     concat (map (\<lambda>i. if bits ! i = 0 \<or> txstreams = 1 \<and> 0 < i then [] else filter (\<lambda>m. m \<le> WLC_MAXMCS) [8 * i..<8 * i + 8])
                 [0..<MCSSET_LEN])"

definition better :: "bool \<Rightarrow> bool \<Rightarrow> nat \<Rightarrow> nat \<Rightarrow> uint32 \<times> ratespec \<Rightarrow> uint32 \<times> ratespec" where
  "better isbw40 sgi txstreams m best =
     (let r = mcs_rspec isbw40 sgi txstreams m in if RSPEC2RATE r > fst best then (RSPEC2RATE r, r) else best)"

text \<open>An empty set is read in front of its array.\<close>

definition wlc_get_highest_rate :: "wlc_rateset \<Rightarrow> bool \<Rightarrow> bool \<Rightarrow> nat \<Rightarrow> ratespec option" where
  "wlc_get_highest_rate rs isbw40 sgi txstreams =
     do { xs \<leftarrow> entries rs;
          if xs = [] then None
          else let reprate = ucast (masked (last xs)) in
            Some (snd (fold (better isbw40 sgi txstreams) (tried txstreams (mcs rs)) (reprate * 500, reprate))) }"

text \<open>The rate of a received frame, from the type of the PHY, the type of the frame and its header.\<close>

definition ofdm_rate_lookup :: "uint8 list" where "ofdm_rate_lookup = [96, 48, 24, 12, 108, 72, 36, 18]"

definition OFDM_PHY2MAC_RATE :: "uint8 \<Rightarrow> ratespec" where "OFDM_PHY2MAC_RATE rlpt = ucast (ofdm_rate_lookup ! unat (rlpt AND 7))"
definition CCK_PHY2MAC_RATE :: "uint8 \<Rightarrow> ratespec" where "CCK_PHY2MAC_RATE signal = ucast (signal div 5)"

definition wlc_recv_compute_rspec :: "uint16 \<Rightarrow> uint16 \<Rightarrow> uint8 list \<Rightarrow> ratespec" where
  "wlc_recv_compute_rspec RxChan PhyRxStatus_0 plcp =
     (let phy_type = RxChan AND 7; bw20 = push_bit 8 PHY_TXC1_BW_20MHZ in
      if phy_type \<in> {4, 6, 8, 7}
      then
        let ft = PhyRxStatus_0 AND 3;
            rspec =
              (if ft = 0 then CCK_PHY2MAC_RATE (plcp ! 0)
               else if ft = 1 then OFDM_PHY2MAC_RATE (plcp ! 0)
               else if ft = 2
               then let r = ucast (plcp ! 0 AND 0x7f) OR RSPEC_MIMORATE
                    in if plcp ! 0 AND 0x80 \<noteq> 0 then (r AND NOT 0x700) OR push_bit 8 PHY_TXC1_BW_40MHZ else r
               else bw20)
        in if plcp ! 3 AND 0x80 \<noteq> 0 then rspec OR RSPEC_SHORT_GI else rspec
      else if phy_type = 0 \<or> PhyRxStatus_0 AND 1 \<noteq> 0 then OFDM_PHY2MAC_RATE (plcp ! 0)
      else CCK_PHY2MAC_RATE (plcp ! 0))"

subsection \<open>The scratch array\<close>

lemma rate_info_length: "length rate_info = 109"
  by (simp add: rate_info_def)

lemma known_table: "map (\<lambda>v. v \<noteq> 0) rate_info = map (\<lambda>n. n \<in> {2, 4, 11, 12, 18, 22, 24, 36, 48, 72, 96, 108}) [0..<109]"
  by (simp add: rate_info_def upt_rec)

lemma known_rate_iff: "known_rate r \<longleftrightarrow> unat r \<in> {2, 4, 11, 12, 18, 22, 24, 36, 48, 72, 96, 108}"
proof (cases "unat r < 109")
  case True
  then show ?thesis using arg_cong [OF known_table, of "\<lambda>xs. xs ! unat r"]
    by (simp add: known_rate_def WLC_MAXRATE_def word_le_nat_alt rate_info_length)
next
  case False
  then show ?thesis by (auto simp: known_rate_def WLC_MAXRATE_def word_le_nat_alt)
qed

text \<open>The entries of a rate that the table knows.\<close>

definition sel :: "nat \<Rightarrow> uint8 list \<Rightarrow> uint8 list" where
  "sel n xs = filter (\<lambda>x. known_rate (masked x) \<and> unat (masked x) = n) xs"

lemma sel_simps: "sel n [] = []" "sel n (xs @ ys) = sel n xs @ sel n ys"
  "sel n (x # xs) = (if known_rate (masked x) \<and> unat (masked x) = n then x # sel n xs else sel n xs)"
  by (simp_all add: sel_def)

lemma note_rate_known: "note_rate f x arr = (if known_rate (masked x) then arr[unat (masked x) := f (arr ! unat (masked x)) x] else arr)"
  by (auto simp: note_rate_def known_rate_def Let_def)

lemma noted:
  assumes "length arr = 109" "n < 109"
  shows "length (fold (note_rate f) xs arr) = 109" "fold (note_rate f) xs arr ! n = fold (\<lambda>x a. f a x) (sel n xs) (arr ! n)"
proof -
  have "length (fold (note_rate f) xs arr) = 109 \<and> fold (note_rate f) xs arr ! n = fold (\<lambda>x a. f a x) (sel n xs) (arr ! n)"
    using assms
  proof (induction xs arbitrary: arr)
    case (Cons x xs)
    have "length (note_rate f x arr) = 109" using Cons.prems(1) by (simp add: note_rate_known)
    moreover have "note_rate f x arr ! n = (if known_rate (masked x) \<and> unat (masked x) = n then f (arr ! n) x else arr ! n)"
      using Cons.prems by (auto simp: note_rate_known)
    ultimately show ?case using Cons.IH [of "note_rate f x arr"] Cons.prems(2) by (auto simp: sel_simps)
  qed (simp add: sel_simps)
  then show "length (fold (note_rate f) xs arr) = 109" "fold (note_rate f) xs arr ! n = fold (\<lambda>x a. f a x) (sel n xs) (arr ! n)" by blast+
qed

lemma no_rates_props: "length no_rates = 109" "n < 109 \<Longrightarrow> no_rates ! n = 0"
  by (simp_all add: no_rates_def WLC_MAXRATE_def)

lemma sel_masked: "x \<in> set (sel n xs) \<Longrightarrow> x \<in> set xs \<and> known_rate (masked x) \<and> unat (masked x) = n"
  by (auto simp: sel_def)

lemma masked_or: "masked (x OR y) = masked x OR masked y" "basic (x OR y) \<longleftrightarrow> basic x \<or> basic y" "masked 0 = 0" "\<not> basic 0"
proof -
  show "masked (x OR y) = masked x OR masked y" by (simp add: masked_def bit.conj_disj_distrib2)
  show "basic (x OR y) \<longleftrightarrow> basic x \<or> basic y"
    unfolding basic_def bit.conj_disj_distrib2 by (metis or_eq_0_iff)
qed (simp_all add: masked_def basic_def)

lemma or_all:
  assumes "\<And>x. x \<in> set zs \<Longrightarrow> masked x = k"
  shows "masked (fold (\<lambda>x a. a OR x) zs a) = (if zs = [] then masked a else masked a OR k)"
    "basic (fold (\<lambda>x a. a OR x) zs a) \<longleftrightarrow> basic a \<or> list_ex basic zs"
proof -
  have "masked (fold (\<lambda>x a. a OR x) zs a) = (if zs = [] then masked a else masked a OR k) \<and>
      (basic (fold (\<lambda>x a. a OR x) zs a) \<longleftrightarrow> basic a \<or> list_ex basic zs)"
    using assms
  proof (induction zs arbitrary: a)
    case (Cons z zs)
    then show ?case using Cons.IH [of "a OR z"] by (auto simp: masked_or or.assoc)
  qed simp
  then show "masked (fold (\<lambda>x a. a OR x) zs a) = (if zs = [] then masked a else masked a OR k)"
    "basic (fold (\<lambda>x a. a OR x) zs a) \<longleftrightarrow> basic a \<or> list_ex basic zs" by blast+
qed

lemma last_of_fold: "fold (\<lambda>x a. x) zs a = (if zs = [] then a else last zs)"
  by (induction zs arbitrary: a) auto

lemma known_nonzero: "known_rate (masked x) \<Longrightarrow> x \<noteq> 0"
  by (auto simp: known_rate_iff masked_or)

text \<open>The array after all entries, merged or overwritten.\<close>

lemma merged_entry:
  fixes zs :: "uint8 list"
  assumes "n < 109"
  defines "v \<equiv> fold (note_rate (OR)) zs no_rates ! n"
  shows "v \<noteq> 0 \<longleftrightarrow> sel n zs \<noteq> []"
    "sel n zs \<noteq> [] \<Longrightarrow> unat (masked v) = n \<and> known_rate (masked v) \<and> (basic v \<longleftrightarrow> (\<exists>x \<in> set zs. masked x = masked v \<and> basic x))"
proof -
  have v: "v = fold (\<lambda>x a. a OR x) (sel n zs) 0" unfolding v_def using noted(2) [OF no_rates_props(1) assms(1)] no_rates_props(2) [OF assms(1)] by simp
  have k: "masked x = word_of_nat n" if "x \<in> set (sel n zs)" for x using sel_masked [OF that] by auto
  have main: "masked v = word_of_nat n \<and> unat (word_of_nat n :: uint8) = n \<and> known_rate (word_of_nat n) \<and> (basic v \<longleftrightarrow> list_ex basic (sel n zs))"
    if ne: "sel n zs \<noteq> []"
  proof -
    obtain x where x: "x \<in> set (sel n zs)" using ne by (meson last_in_set)
    have "unat (word_of_nat n :: uint8) = n" "known_rate (word_of_nat n)" using sel_masked [OF x] k [OF x] by auto
    then show ?thesis unfolding v using or_all [of "sel n zs" "word_of_nat n" 0, OF k] ne by (simp add: masked_or)
  qed
  show "v \<noteq> 0 \<longleftrightarrow> sel n zs \<noteq> []"
  proof (cases "sel n zs = []")
    case True
    then show ?thesis by (simp add: v)
  next
    case False
    then have "known_rate (masked v)" using main by metis
    then show ?thesis using known_nonzero False by blast
  qed
  assume "sel n zs \<noteq> []"
  note m = main [OF this]
  have "list_ex basic (sel n zs) \<longleftrightarrow> (\<exists>x \<in> set zs. masked x = masked v \<and> basic x)"
    using m by (auto simp: list_ex_iff sel_def)
  then show "unat (masked v) = n \<and> known_rate (masked v) \<and> (basic v \<longleftrightarrow> (\<exists>x \<in> set zs. masked x = masked v \<and> basic x))"
    using m by simp
qed

lemma latest_entry:
  assumes "n < 109"
  shows "fold (note_rate (\<lambda>_ x. x)) zs no_rates ! n = (if sel n zs = [] then 0 else last (sel n zs))"
  using noted(2) [OF no_rates_props(1) assms] no_rates_props(2) [OF assms] by (simp add: last_of_fold)

subsection \<open>Merging\<close>

lemma entries_stored:
  assumes "length xs \<le> length (rates rs)"
  obtains rs' where "store xs rs = Some rs'" "entries rs' = Some xs" "mcs rs' = mcs rs" "htphy_membership rs' = htphy_membership rs"
    "length (rates rs') = length (rates rs)"
proof
  show "store xs rs = Some (rs\<lparr>rates := xs @ drop (length xs) (rates rs), count := length xs\<rparr>)" using assms by (simp add: store_def)
qed (use assms in \<open>simp_all add: entries_def\<close>)

lemma nonzero_entries:
  assumes "length arr = 109" "\<And>n. n < 109 \<Longrightarrow> arr ! n \<noteq> 0 \<Longrightarrow> unat (masked (arr ! n)) = n \<and> known_rate (masked (arr ! n))"
  shows "sorted_wrt (<) (map masked (filter (\<lambda>x. x \<noteq> 0) arr))" "length (filter (\<lambda>x. x \<noteq> 0) arr) \<le> 12"
proof -
  let ?ns = "filter (\<lambda>n. arr ! n \<noteq> 0) [0..<109]"
  have arr: "filter (\<lambda>x. x \<noteq> 0) arr = map ((!) arr) ?ns"
    using map_nth [of arr] assms(1) filter_map [of "\<lambda>x. x \<noteq> 0" "(!) arr" "[0..<109]"] by (simp add: o_def)
  have u: "map (\<lambda>n. unat (masked (arr ! n))) ?ns = ?ns" by (rule map_idI) (use assms(2) in auto)
  have "sorted_wrt (<) ?ns" by (rule sorted_wrt_filter) simp
  then have "sorted_wrt (<) (map (\<lambda>n. unat (masked (arr ! n))) ?ns)" unfolding u .
  then show "sorted_wrt (<) (map masked (filter (\<lambda>x. x \<noteq> 0) arr))"
    unfolding arr by (simp add: sorted_wrt_map word_less_nat_alt)
  have sub: "set ?ns \<subseteq> {2, 4, 11, 12, 18, 22, 24, 36, 48, 72, 96, 108}"
  proof
    fix n assume "n \<in> set ?ns"
    then have "unat (masked (arr ! n)) = n" "known_rate (masked (arr ! n))" using assms(2) [of n] by auto
    then show "n \<in> {2, 4, 11, 12, 18, 22, 24, 36, 48, 72, 96, 108}" unfolding known_rate_iff by simp
  qed
  have "card (set ?ns) \<le> card {2 :: nat, 4, 11, 12, 18, 22, 24, 36, 48, 72, 96, 108}" by (rule card_mono [OF _ sub]) simp
  then have "length ?ns \<le> 12" using distinct_card [of ?ns] by simp
  then show "length (filter (\<lambda>x. x \<noteq> 0) arr) \<le> 12" unfolding arr by simp
qed

text \<open>C37: Merged rate sets. Two sets of at most 16 entries each, in any order and with duplicates and unknown rates, are merged
  without leaving the array: the result has, in increasing order and once each, the rates that the table knows of both, at most
  12; one is basic iff it is basic in an entry of either.\<close>

theorem rates_merged:
  assumes "entries rs1 = Some xs" "entries rs2 = Some ys" "length (rates rs1) = WLC_NUMRATES"
  shows "\<exists>rs zs. wlc_rateset_merge rs1 rs2 = Some rs \<and> entries rs = Some zs \<and> length zs \<le> 12 \<and> sorted_wrt (<) (map masked zs) \<and>
    masked ` set zs = {r. known_rate r \<and> r \<in> masked ` (set xs \<union> set ys)} \<and>
    (\<forall>z \<in> set zs. basic z \<longleftrightarrow> (\<exists>x \<in> set xs \<union> set ys. masked x = masked z \<and> basic x)) \<and>
    mcs rs = mcs rs1 \<and> htphy_membership rs = htphy_membership rs1"
proof -
  define arr where "arr = fold (note_rate (OR)) (xs @ ys) no_rates"
  let ?zs = "filter (\<lambda>x. x \<noteq> 0) arr"
  have len: "length arr = 109" unfolding arr_def by (rule noted(1) [OF no_rates_props(1), of 0]) simp
  note e = merged_entry [of _ "xs @ ys", folded arr_def]
  have "unat (masked (arr ! n)) = n \<and> known_rate (masked (arr ! n))" if "n < 109" "arr ! n \<noteq> 0" for n using e [OF that(1)] that(2) by blast
  note nz = nonzero_entries [OF len this]
  have at: "z \<in> set ?zs \<longleftrightarrow> (\<exists>n < 109. z = arr ! n \<and> sel n (xs @ ys) \<noteq> [])" for z
    using e(1) len by (auto simp: in_set_conv_nth)
  have rates: "masked ` set ?zs = {r. known_rate r \<and> r \<in> masked ` (set xs \<union> set ys)}"
  proof (intro set_eqI iffI)
    fix r assume "r \<in> masked ` set ?zs"
    then obtain n where n: "n < 109" "sel n (xs @ ys) \<noteq> []" "r = masked (arr ! n)" using at by auto
    then obtain x where "x \<in> set (sel n (xs @ ys))" by (meson last_in_set)
    then have x: "x \<in> set xs \<union> set ys" "unat (masked x) = n" "known_rate (masked x)" using sel_masked [of x n "xs @ ys"] by simp_all
    moreover have "masked x = r" using e(2) [OF n(1,2)] n(3) x(2) by (simp add: word_unat_eq_iff)
    ultimately show "r \<in> {r. known_rate r \<and> r \<in> masked ` (set xs \<union> set ys)}" by auto
  next
    fix r assume "r \<in> {r. known_rate r \<and> r \<in> masked ` (set xs \<union> set ys)}"
    then obtain x where x: "x \<in> set (xs @ ys)" "r = masked x" "known_rate r" by auto
    have n: "unat r < 109" using x(3) by (auto simp: known_rate_def WLC_MAXRATE_def word_le_nat_alt)
    have s: "sel (unat r) (xs @ ys) \<noteq> []" using x by (auto simp: sel_def filter_empty_conv)
    then have "masked (arr ! unat r) = r" using e(2) [OF n] by (simp add: word_unat_eq_iff)
    then show "r \<in> masked ` set ?zs" using at n s by (metis imageI)
  qed
  have basic: "\<forall>z \<in> set ?zs. basic z \<longleftrightarrow> (\<exists>x \<in> set xs \<union> set ys. masked x = masked z \<and> basic x)"
    using e(2) at by auto
  have "length ?zs \<le> length (rates rs1)" using nz(2) e(1) assms(3) by (simp add: WLC_NUMRATES_def)
  then obtain rs where rs: "store ?zs rs1 = Some rs" "entries rs = Some ?zs" "mcs rs = mcs rs1" "htphy_membership rs = htphy_membership rs1"
    by (rule entries_stored)
  have "wlc_rateset_merge rs1 rs2 = Some rs" using rs(1) assms(1,2) by (simp add: wlc_rateset_merge_def arr_def Let_def)
  then show ?thesis using rs rates basic nz e(1) by blast
qed

definition demo_rates :: "uint8 list \<Rightarrow> wlc_rateset" where
  "demo_rates xs = \<lparr>count = length xs, rates = xs @ replicate (16 - length xs) 0, htphy_membership = 0, mcs = replicate 16 0\<rparr>"

lemma rates_merged_witness:
  "\<exists>rs zs. wlc_rateset_merge (demo_rates [0x16, 0x82, 0x01]) (demo_rates [0x02, 0x6c]) = Some rs \<and> entries rs = Some zs \<and> length zs \<le> 12 \<and>
    sorted_wrt (<) (map masked zs) \<and>
    masked ` set zs = {r. known_rate r \<and> r \<in> masked ` (set [0x16, 0x82, 0x01] \<union> set [0x02, 0x6c])} \<and>
    (\<forall>z \<in> set zs. basic z \<longleftrightarrow> (\<exists>x \<in> set [0x16, 0x82, 0x01] \<union> set [0x02, 0x6c]. masked x = masked z \<and> basic x)) \<and>
    mcs rs = mcs (demo_rates [0x16, 0x82, 0x01]) \<and> htphy_membership rs = htphy_membership (demo_rates [0x16, 0x82, 0x01])"
  by (rule rates_merged) (simp_all add: demo_rates_def entries_def WLC_NUMRATES_def)

subsection \<open>Sorting by the hardware's rates\<close>

text \<open>C38: Rates filtered and sorted. A set is cut down to the rates of the hardware in the hardware's order: those are kept
  that the table knows and the set has, each with the last of its entries, so that its basic bit is preserved; the MCS bits are those of
  both; and the set is reported as valid iff it is not empty and, when that is asked for, has a basic rate.\<close>

theorem hw_rates_sorted:
  assumes "entries rs = Some xs" "entries hw_rs = Some hs" "length (rates rs) = WLC_NUMRATES" "length (rates hw_rs) = WLC_NUMRATES"
    "\<forall>h \<in> set hs. masked h \<le> WLC_MAXRATE"
  shows "\<exists>rs' ys. wlc_rate_hwrs_filter_sort_validate rs hw_rs check = Some (rs', ys \<noteq> [] \<and> (check \<longrightarrow> list_ex basic ys)) \<and>
    entries rs' = Some ys \<and> map masked ys = filter (\<lambda>k. known_rate k \<and> k \<in> masked ` set xs) (map masked hs) \<and>
    (\<forall>y \<in> set ys. y = last (filter (\<lambda>x. masked x = masked y) xs)) \<and> mcs rs' = map2 (AND) (mcs rs) (mcs hw_rs)"
proof -
  define arr where "arr = fold (note_rate (\<lambda>_ x. x)) xs no_rates"
  define keep where "keep h \<longleftrightarrow> known_rate (masked h) \<and> masked h \<in> masked ` set xs" for h
  let ?f = "\<lambda>h. arr ! unat (masked h)"
  let ?ys = "filter (\<lambda>x. x \<noteq> 0) (map ?f hs)"
  have bound: "unat (masked h) < 109" if "h \<in> set hs" for h
    using assms(5) that by (auto simp: WLC_MAXRATE_def word_le_nat_alt)
  have sel: "sel (unat (masked h)) xs = (if known_rate (masked h) then filter (\<lambda>x. masked x = masked h) xs else [])" for h
    unfolding sel_def word_unat_eq_iff [symmetric] by (auto simp: filter_empty_conv intro!: filter_cong)
  have entry: "?f h = (if keep h then last (filter (\<lambda>x. masked x = masked h) xs) else 0)" if "h \<in> set hs" for h
    unfolding arr_def latest_entry [OF bound [OF that]] sel keep_def by (auto simp: filter_empty_conv image_iff)
  have kept: "masked (?f h) = masked h" if "h \<in> set hs" "keep h" for h
  proof -
    have "filter (\<lambda>x. masked x = masked h) xs \<noteq> []" using that(2) by (auto simp: keep_def filter_empty_conv)
    then have "last (filter (\<lambda>x. masked x = masked h) xs) \<in> set (filter (\<lambda>x. masked x = masked h) xs)" by (rule last_in_set)
    then show ?thesis using entry [OF that(1)] that(2) by simp
  qed
  have nz: "?f h \<noteq> 0 \<longleftrightarrow> keep h" if "h \<in> set hs" for h
    using entry [OF that] kept [OF that] known_nonzero [of "?f h"] by (cases "keep h") (auto simp: keep_def)
  have ys: "?ys = map ?f (filter keep hs)"
    unfolding filter_map by (rule arg_cong [where f = "map ?f"], rule filter_cong) (use nz in auto)
  have "map masked ?ys = map masked (filter keep hs)" unfolding ys using kept by auto
  also have "\<dots> = filter (\<lambda>k. known_rate k \<and> k \<in> masked ` set xs) (map masked hs)"
    by (simp add: filter_map o_def keep_def [abs_def])
  finally have masks: "map masked ?ys = filter (\<lambda>k. known_rate k \<and> k \<in> masked ` set xs) (map masked hs)" .
  have lasts: "\<forall>y \<in> set ?ys. y = last (filter (\<lambda>x. masked x = masked y) xs)"
    unfolding ys using entry kept by auto
  have "length hs \<le> WLC_NUMRATES" using assms(2,4) by (auto simp: entries_def split: if_splits)
  then have "length ?ys \<le> length (rates rs)"
    using order_trans [OF length_filter_le [of "\<lambda>x. x \<noteq> 0" "map ?f hs"]] assms(3) by simp
  then obtain t where t: "store ?ys rs = Some t" "entries t = Some ?ys" "mcs t = mcs rs" "length (rates t) = length (rates rs)"
    by (rule entries_stored)
  let ?t = "t\<lparr>mcs := map2 (AND) (mcs t) (mcs hw_rs)\<rparr>"
  have e: "entries ?t = Some ?ys" using t(2) by (auto simp: entries_def split: if_splits)
  have v: "wlc_rateset_valid u c = Some (ys \<noteq> [] \<and> (c \<longrightarrow> list_ex basic ys))" if "entries u = Some ys" for u c ys
    using that by (auto simp: wlc_rateset_valid_def entries_def split: if_splits)
  have ok: "\<not> list_ex (\<lambda>h. masked h > WLC_MAXRATE) hs" using assms(5) by (auto simp: list_ex_iff not_less)
  have "wlc_rate_hwrs_filter_sort_validate rs hw_rs check = Some (?t, ?ys \<noteq> [] \<and> (check \<longrightarrow> list_ex basic ?ys))"
    unfolding wlc_rate_hwrs_filter_sort_validate_def Let_def assms(1,2) Option.bind.simps arr_def [symmetric] if_not_P [OF ok] t(1) v [OF e] ..
  then show ?thesis using e masks lasts t(3) by (intro exI [of _ ?t] exI [of _ ?ys]) simp
qed

lemma hw_rates_sorted_witness:
  "\<exists>rs' ys. wlc_rate_hwrs_filter_sort_validate (demo_rates [0x6c, 0x82, 0x01]) cck_ofdm_rates True = Some (rs', ys \<noteq> [] \<and> (True \<longrightarrow> list_ex basic ys)) \<and>
    entries rs' = Some ys \<and>
    map masked ys = filter (\<lambda>k. known_rate k \<and> k \<in> masked ` set [0x6c, 0x82, 0x01])
      (map masked [130, 132, 139, 12, 18, 150, 24, 36, 48, 72, 96, 108]) \<and>
    (\<forall>y \<in> set ys. y = last (filter (\<lambda>x. masked x = masked y) [0x6c, 0x82, 0x01])) \<and>
    mcs rs' = map2 (AND) (mcs (demo_rates [0x6c, 0x82, 0x01])) (mcs cck_ofdm_rates)"
  by (rule hw_rates_sorted)
    (simp_all add: demo_rates_def entries_def WLC_NUMRATES_def cck_ofdm_rates_def masked_def RATE_MASK_def WLC_MAXRATE_def)

subsection \<open>The table of MCS rates\<close>

lemma mcs_table_length: "length mcs_table = 33"
  by (simp add: mcs_table_def)

definition streams_ok :: "nat \<Rightarrow> bool" where
  "streams_ok m \<longleftrightarrow> unat (MCS_TXS m) = m div 8 \<and> MCS_MOD m = MCS_MOD (m mod 8) \<and> leg_ofdm (mcs_table ! m) = leg_ofdm (mcs_table ! (m mod 8)) \<and>
     (\<forall>is40. MCS_RATE m is40 False = of_nat (m div 8 + 1) * MCS_RATE (m mod 8) is40 False) \<and>
     (if m = 23 \<or> m = 31 then MCS_CR m = 3 \<and> MCS_CR (m mod 8) = 4 else MCS_CR m = MCS_CR (m mod 8))"

lemma streams_table: "list_all streams_ok [0..<32]"
  by (simp add: upt_rec streams_ok_def MCS_TXS_def MCS_MOD_def MCS_CR_def MCS_RATE_def mcs_table_def mcs_entry_def Let_def)

text \<open>The table of MCS rates. Of an index below 32, the number of streams is the index divided by 8; rates are
  those of the same modulation with one stream times the number of streams; modulation and the rate for
  legacy frames are the same. So is the code rate, but for the indices 23 and 31, whose code for 5/6 is 3 instead of 4.\<close>

lemma mcs_rates_scale:
  assumes "m < 32"
  shows "unat (MCS_TXS m) = m div 8 \<and> MCS_MOD m = MCS_MOD (m mod 8) \<and> leg_ofdm (mcs_table ! m) = leg_ofdm (mcs_table ! (m mod 8)) \<and>
    MCS_RATE m is40 False = of_nat (m div 8 + 1) * MCS_RATE (m mod 8) is40 False \<and>
    (if m = 23 \<or> m = 31 then MCS_CR m = 3 \<and> MCS_CR (m mod 8) = 4 else MCS_CR m = MCS_CR (m mod 8))"
proof -
  have "streams_ok m" using streams_table assms by (simp add: list_all_iff)
  then show ?thesis unfolding streams_ok_def by blast
qed

lemma mcs_rates_scale_witness:
  "unat (MCS_TXS 23) = 23 div 8 \<and> MCS_MOD 23 = MCS_MOD (23 mod 8) \<and> leg_ofdm (mcs_table ! 23) = leg_ofdm (mcs_table ! (23 mod 8)) \<and>
    MCS_RATE 23 True False = of_nat (23 div 8 + 1) * MCS_RATE (23 mod 8) True False \<and>
    (if (23 :: nat) = 23 \<or> (23 :: nat) = 31 then MCS_CR 23 = 3 \<and> MCS_CR (23 mod 8) = 4 else MCS_CR 23 = MCS_CR (23 mod 8))"
  by (rule mcs_rates_scale) simp

subsection \<open>The highest rate\<close>

definition rspec_fields :: "bool \<Rightarrow> bool \<Rightarrow> nat \<Rightarrow> nat \<Rightarrow> bool" where
  "rspec_fields isbw40 sgi tx m \<longleftrightarrow>
     (let r = mcs_rspec isbw40 sgi tx m in IS_MCS r \<and> r AND 0x7f = word_of_nat m \<and> (RSPEC_IS40MHZ r \<longleftrightarrow> isbw40) \<and> (RSPEC_ISSGI r \<longleftrightarrow> sgi))"

lemmas rspec_consts = RSPEC_MIMORATE_def RSPEC_SHORT_GI_def PHY_TXC1_BW_20MHZ_def PHY_TXC1_BW_40MHZ_def PHY_TXC1_BW_40MHZ_DUP_def
  PHY_TXC1_MODE_SISO_def PHY_TXC1_MODE_CDD_def PHY_TXC1_MODE_SDM_def

lemma rspec_fields_table: "list_all (rspec_fields isbw40 sgi tx) [0..<33]"
  by (cases isbw40; cases sgi; cases "tx = 1")
    (simp_all add: upt_rec rspec_fields_def mcs_rspec_def IS_MCS_def RSPEC_IS40MHZ_def RSPEC_ISSGI_def IS_SINGLE_STREAM_def rspec_consts Let_def)

lemma rate_of_mcs:
  assumes "m \<le> 32"
  shows "RSPEC2RATE (mcs_rspec isbw40 sgi tx m) = MCS_RATE m isbw40 sgi" "IS_MCS (mcs_rspec isbw40 sgi tx m)"
proof -
  have "rspec_fields isbw40 sgi tx m" using rspec_fields_table [of isbw40 sgi tx] assms by (simp add: list_all_iff)
  then have f: "IS_MCS (mcs_rspec isbw40 sgi tx m)" "mcs_rspec isbw40 sgi tx m AND 0x7f = word_of_nat m"
    "RSPEC_IS40MHZ (mcs_rspec isbw40 sgi tx m) \<longleftrightarrow> isbw40" "RSPEC_ISSGI (mcs_rspec isbw40 sgi tx m) \<longleftrightarrow> sgi"
    by (simp_all add: rspec_fields_def Let_def)
  show "IS_MCS (mcs_rspec isbw40 sgi tx m)" by (rule f)
  have "unat (word_of_nat m :: uint32) = m" using assms by (simp add: unat_of_nat32)
  then show "RSPEC2RATE (mcs_rspec isbw40 sgi tx m) = MCS_RATE m isbw40 sgi" by (simp add: RSPEC2RATE_def f)
qed

lemma best_of:
  assumes "\<forall>m \<in> set ms. m \<le> 32" "fst best = RSPEC2KBPS (snd best)"
  shows "fst (fold (better isbw40 sgi tx) ms best) = RSPEC2KBPS (snd (fold (better isbw40 sgi tx) ms best)) \<and>
    fst (fold (better isbw40 sgi tx) ms best) = Max (insert (fst best) ((\<lambda>m. MCS_RATE m isbw40 sgi) ` set ms))"
  using assms
proof (induction ms arbitrary: best)
  case (Cons m ms)
  have m: "m \<le> 32" using Cons.prems(1) by simp
  let ?b = "better isbw40 sgi tx m best"
  have b: "fst ?b = max (fst best) (MCS_RATE m isbw40 sgi)" "fst ?b = RSPEC2KBPS (snd ?b)"
    using rate_of_mcs [OF m, of isbw40 sgi tx] Cons.prems(2) by (auto simp: better_def Let_def RSPEC2KBPS_def max_def)
  have "Max (insert (fst ?b) ((\<lambda>m. MCS_RATE m isbw40 sgi) ` set ms)) = Max (insert (fst best) ((\<lambda>m. MCS_RATE m isbw40 sgi) ` set (m # ms)))"
    unfolding b(1) by (cases "ms = []") (simp_all add: max.assoc insert_commute)
  note eq = this
  have "\<forall>m \<in> set ms. m \<le> 32" using Cons.prems(1) by simp
  from Cons.IH [OF this b(2)] show ?case unfolding fold_simps eq [symmetric] .
qed simp

lemma legacy_rate: "RSPEC2KBPS (ucast (masked x)) = ucast (masked x) * 500"
proof -
  have "(ucast (x AND 0x7f) :: uint32) AND 0x08000000 = 0" "(ucast (x AND 0x7f) :: uint32) AND 0x7f = ucast (x AND 0x7f)"
    by (simp_all add: unsigned_and_eq and.assoc)
  then show ?thesis by (simp add: RSPEC2KBPS_def RSPEC2RATE_def IS_MCS_def RSPEC_MIMORATE_def masked_def RATE_MASK_def)
qed

lemma tried_bound: "m \<in> set (tried tx bits) \<Longrightarrow> m \<le> 32"
  by (auto simp: tried_def WLC_MAXMCS_def split: if_splits)

lemma tried_iff: "m \<in> set (tried tx bits) \<longleftrightarrow> m \<le> 32 \<and> bits ! (m div 8) \<noteq> 0 \<and> (tx = 1 \<longrightarrow> m < 8)"
proof
  assume "m \<in> set (tried tx bits)"
  then obtain i where i: "i < 16" "bits ! i \<noteq> 0" "\<not> (tx = 1 \<and> 0 < i)" "m \<le> 32" "8 * i \<le> m" "m < 8 * i + 8"
    by (auto simp: tried_def WLC_MAXMCS_def MCSSET_LEN_def split: if_splits)
  have "m div 8 = i" using i(5,6) by (intro div_nat_eqI) simp_all
  then show "m \<le> 32 \<and> bits ! (m div 8) \<noteq> 0 \<and> (tx = 1 \<longrightarrow> m < 8)" using i by auto
next
  assume m: "m \<le> 32 \<and> bits ! (m div 8) \<noteq> 0 \<and> (tx = 1 \<longrightarrow> m < 8)"
  have d: "8 * (m div 8) \<le> m" "m < 8 * (m div 8) + 8" "m div 8 < 16"
    using m by (simp_all add: div_less_iff_less_mult)
  have z: "tx = 1 \<longrightarrow> m div 8 = 0" using m by simp
  show "m \<in> set (tried tx bits)" unfolding tried_def WLC_MAXMCS_def MCSSET_LEN_def
    using m d z by (auto intro!: bexI [of _ "m div 8"])
qed

lemma supported_byte: "bit (x :: uint8) k \<Longrightarrow> x \<noteq> 0"
  by auto

text \<open>C40: The highest rate of a set. The rate that is reported is, in kbit/s, the maximum of the last of the set's legacy rates and of
  all MCS rates whose byte in the bit map is not zero, those of one stream only if there is one: so nothing that the bit
  map allows is faster. The bits inside a byte are not looked at: of a set whose only MCS is 0, MCS 7 is reported.\<close>

theorem highest_rate_is_max:
  assumes "entries rs = Some xs" "xs \<noteq> []"
  shows "\<exists>r. wlc_get_highest_rate rs isbw40 sgi tx = Some r \<and>
    RSPEC2KBPS r = Max (insert (ucast (masked (last xs)) * 500)
      ((\<lambda>m. MCS_RATE m isbw40 sgi) ` {m. m \<le> 32 \<and> mcs rs ! (m div 8) \<noteq> 0 \<and> (tx = 1 \<longrightarrow> m < 8)})) \<and>
    (\<forall>m \<le> 32. bit (mcs rs ! (m div 8)) (m mod 8) \<and> (tx = 1 \<longrightarrow> m < 8) \<longrightarrow> MCS_RATE m isbw40 sgi \<le> RSPEC2KBPS r)"
proof -
  let ?last = "ucast (masked (last xs)) :: ratespec"
  let ?T = "{m. m \<le> 32 \<and> mcs rs ! (m div 8) \<noteq> 0 \<and> (tx = 1 \<longrightarrow> m < 8)}"
  let ?b = "fold (better isbw40 sgi tx) (tried tx (mcs rs)) (?last * 500, ?last)"
  have T: "set (tried tx (mcs rs)) = ?T" using tried_iff by blast
  have "fst ?b = RSPEC2KBPS (snd ?b) \<and> fst ?b = Max (insert (?last * 500) ((\<lambda>m. MCS_RATE m isbw40 sgi) ` ?T))"
    using best_of [of "tried tx (mcs rs)" "(?last * 500, ?last)" isbw40 sgi tx] tried_bound legacy_rate unfolding T by auto
  then have max: "RSPEC2KBPS (snd ?b) = Max (insert (?last * 500) ((\<lambda>m. MCS_RATE m isbw40 sgi) ` ?T))" by metis
  have res: "wlc_get_highest_rate rs isbw40 sgi tx = Some (snd ?b)" using assms by (simp add: wlc_get_highest_rate_def Let_def)
  have fin: "finite ?T" by (rule finite_subset [of _ "{..32}"]) auto
  have "MCS_RATE m isbw40 sgi \<le> RSPEC2KBPS (snd ?b)" if "m \<in> ?T" for m unfolding max using fin that by (intro Max_ge) auto
  then have "\<forall>m \<le> 32. bit (mcs rs ! (m div 8)) (m mod 8) \<and> (tx = 1 \<longrightarrow> m < 8) \<longrightarrow> MCS_RATE m isbw40 sgi \<le> RSPEC2KBPS (snd ?b)"
    using supported_byte by blast
  then show ?thesis using res max by blast
qed

lemma highest_rate_is_max_witness:
  "\<exists>r. wlc_get_highest_rate cck_ofdm_mimo_rates True True 3 = Some r \<and>
    RSPEC2KBPS r = Max (insert (ucast (masked (last [130, 132, 139, 12, 18, 150, 24, 36, 48, 72, 96, 108])) * 500)
      ((\<lambda>m. MCS_RATE m True True) ` {m. m \<le> 32 \<and> mcs cck_ofdm_mimo_rates ! (m div 8) \<noteq> 0 \<and> ((3 :: nat) = 1 \<longrightarrow> m < 8)})) \<and>
    (\<forall>m \<le> 32. bit (mcs cck_ofdm_mimo_rates ! (m div 8)) (m mod 8) \<and> ((3 :: nat) = 1 \<longrightarrow> m < 8) \<longrightarrow> MCS_RATE m True True \<le> RSPEC2KBPS r)"
  by (rule highest_rate_is_max) (simp_all add: entries_def cck_ofdm_mimo_rates_def)

text \<open>A set of 1 Mbit/s and MCS 0.\<close>

lemma highest_rate_not_in_set:
  "wlc_get_highest_rate (demo_rates [0x82]\<lparr>mcs := 1 # replicate 15 0\<rparr>) False False 2 = Some (mcs_rspec False False 2 7)"
  by (simp add: wlc_get_highest_rate_def demo_rates_def entries_def tried_def WLC_MAXMCS_def MCSSET_LEN_def upt_rec better_def Let_def
    rate_of_mcs MCS_RATE_def mcs_table_def mcs_entry_def masked_def RATE_MASK_def) (simp add: eval_nat_numeral)

subsection \<open>Filtering\<close>

definition passes :: "bool \<Rightarrow> rates_kind \<Rightarrow> uint8 \<Rightarrow> bool" where
  "passes basic_only kind r \<longleftrightarrow> (basic_only \<longrightarrow> basic r) \<and> (kind = WLC_RATES_CCK \<longrightarrow> IS_OFDM (masked r) = Some False) \<and>
     (kind = WLC_RATES_OFDM \<longrightarrow> \<not> IS_CCK (masked r))"

definition off_table :: "bool \<Rightarrow> rates_kind \<Rightarrow> uint8 \<Rightarrow> bool" where
  "off_table basic_only kind r \<longleftrightarrow> kind = WLC_RATES_CCK \<and> (basic_only \<longrightarrow> basic r) \<and> masked r > WLC_MAXRATE"

lemma IS_OFDM_None: "IS_OFDM r = None \<longleftrightarrow> r > WLC_MAXRATE"
  by (auto simp: IS_OFDM_def rate_info_length WLC_MAXRATE_def word_less_nat_alt)

lemma filter_rates_eq:
  "filter_rates basic_only kind xs = (if list_ex (off_table basic_only kind) xs then None else Some (filter (passes basic_only kind) xs))"
proof (induction xs)
  case (Cons x xs)
  show ?case
  proof (cases "IS_OFDM (masked x)")
    case None
    then have "masked x > WLC_MAXRATE" using IS_OFDM_None by simp
    then show ?thesis using Cons None by (cases kind) (auto simp: off_table_def [of _ _ x] passes_def [of _ _ x])
  next
    case (Some b)
    then have "\<not> masked x > WLC_MAXRATE" using IS_OFDM_None [of "masked x"] by simp
    then show ?thesis using Cons Some by (cases kind) (auto simp: off_table_def [of _ _ x] passes_def [of _ _ x])
  qed
qed simp



end
